(* ===== verification/Prelude.thy ===== *)
theory Prelude
  imports Main "HOL-Library.Word"
begin

text \<open>
  The vocabulary the components share: machine integers and blocks of bytes, the ways a
  call can fail to return, sequencing of fallible steps, the two kinds of triple the proofs
  use (partial and total), counted loops, and the little-endian access to integers inside a
  block. Nothing here is about one component.
\<close>

section \<open>Machine integers, bytes and blocks\<close>

text \<open>
  \<open>uint\<close> and \<open>u_char\<close> of the code are \<open>32 word\<close> and \<open>8 word\<close>, \<open>short\<close> is \<open>16 word\<close>,
  \<open>size_t\<close> and the fields of a \<open>timespec\<close> are \<open>64 word\<close>. A block is its bytes by offset; the code
  addresses the offsets below \<open>BSIZE\<close> only, so a copy of \<open>BSIZE\<close> bytes from one block to
  another is an assignment of blocks.
\<close>

type_synonym byte = "8 word"
type_synonym uint = "32 word"
type_synonym short = "16 word"
type_synonym size_t = "64 word"
type_synonym block = "nat \<Rightarrow> byte"

definition BSIZE :: nat where
  "BSIZE = 4096"

definition zero_block :: block where
  "zero_block = (\<lambda>_. 0)"

lemma BSIZE_pos [simp]: "0 < BSIZE"
  by (simp add: BSIZE_def)

lemma zero_block_apply [simp]: "zero_block i = 0"
  by (simp add: zero_block_def)

section \<open>Ways not to return\<close>

text \<open>
  \<^item> \<open>Err_exit m\<close>: the call of \<open>err_exit\<close> with message \<open>m\<close>, which ends the process;
  \<^item> \<open>Assert_failed\<close>: a failed \<open>assert\<close>;
  \<^item> \<open>Deadlock\<close>: the thread locks a mutex it holds itself, or one nobody will ever release;
  \<^item> \<open>Blocked\<close>: the thread waits on a condition variable;
  \<^item> \<open>Hang\<close>: a loop of the code that runs forever;
  \<^item> \<open>Bad_access\<close>: a null pointer or an index outside its array, undefined behaviour in C.
\<close>

datatype err =
    Err_exit string
  | Assert_failed
  | Deadlock
  | Blocked
  | Hang
  | Bad_access

type_synonym 'a res = "err + 'a"

section \<open>Sequencing\<close>

text \<open>
  A call in state \<open>s\<close> is \<open>f s :: ('r \<times> 's) res\<close>. \<open>chain m f\<close> runs \<open>m\<close> and, when it returns,
  continues with \<open>f\<close>; a call that does not return ends the whole sequence.
\<close>

definition chain :: "'a res \<Rightarrow> ('a \<Rightarrow> 'b res) \<Rightarrow> 'b res" where
  "chain m f = (case m of Inl e \<Rightarrow> Inl e | Inr x \<Rightarrow> f x)"

lemma chain_Inl [simp]: "chain (Inl e) f = Inl e"
  by (simp add: chain_def)

lemma chain_Inr [simp]: "chain (Inr x) f = f x"
  by (simp add: chain_def)

lemma chain_cong [fundef_cong]:
  "m = m' \<Longrightarrow> (\<And>x. m' = Inr x \<Longrightarrow> f x = g x) \<Longrightarrow> chain m f = chain m' g"
  by (cases m') (simp_all add: chain_def)

lemma chain_eq_Inr: "chain m f = Inr y \<longleftrightarrow> (\<exists>x. m = Inr x \<and> f x = Inr y)"
  by (cases m) simp_all

lemma chain_InrE:
  assumes "chain m f = Inr y"
  obtains x where "m = Inr x" "f x = Inr y"
  using assms by (auto simp: chain_eq_Inr)

lemma chain_assoc: "chain (chain m f) g = chain m (\<lambda>x. chain (f x) g)"
  by (cases m) simp_all

section \<open>Partial and total triples\<close>

text \<open>
  \<open>ifok m Q\<close>: if \<open>m\<close> returns, its result satisfies \<open>Q\<close>. \<open>returns m Q\<close>: \<open>m\<close> returns, with a
  result that satisfies \<open>Q\<close>. The rules below follow the shape of the program; those of the
  operations are collected in \<open>spec_intros\<close>.
\<close>

definition ifok :: "'a res \<Rightarrow> ('a \<Rightarrow> bool) \<Rightarrow> bool" where
  "ifok m Q \<longleftrightarrow> (\<forall>x. m = Inr x \<longrightarrow> Q x)"

definition returns :: "'a res \<Rightarrow> ('a \<Rightarrow> bool) \<Rightarrow> bool" where
  "returns m Q \<longleftrightarrow> (\<exists>x. m = Inr x \<and> Q x)"

named_theorems spec_intros "triples of the operations"

lemma ifok_Inl [simp]: "ifok (Inl e) Q"
  by (simp add: ifok_def)

lemma ifok_Inr [simp]: "ifok (Inr x) Q \<longleftrightarrow> Q x"
  by (simp add: ifok_def)

lemma ifok_chain: "ifok (chain m f) Q \<longleftrightarrow> ifok m (\<lambda>x. ifok (f x) Q)"
  by (cases m) simp_all

lemma ifokI: "(\<And>x. m = Inr x \<Longrightarrow> Q x) \<Longrightarrow> ifok m Q"
  by (simp add: ifok_def)

lemma ifokD: "ifok m Q \<Longrightarrow> m = Inr x \<Longrightarrow> Q x"
  by (simp add: ifok_def)

lemma ifok_mono: "ifok m P \<Longrightarrow> (\<And>x. P x \<Longrightarrow> Q x) \<Longrightarrow> ifok m Q"
  by (simp add: ifok_def)

lemma ifok_conj: "ifok m P \<Longrightarrow> ifok m Q \<Longrightarrow> ifok m (\<lambda>x. P x \<and> Q x)"
  by (simp add: ifok_def)

lemma ifok_chainI:
  "ifok m P \<Longrightarrow> (\<And>x. P x \<Longrightarrow> ifok (f x) Q) \<Longrightarrow> ifok (chain m f) Q"
  by (auto simp: ifok_chain elim: ifok_mono)

lemma returns_Inl [simp]: "\<not> returns (Inl e) Q"
  by (simp add: returns_def)

lemma returns_Inr [simp]: "returns (Inr x) Q \<longleftrightarrow> Q x"
  by (simp add: returns_def)

lemma returns_chain: "returns (chain m f) Q \<longleftrightarrow> returns m (\<lambda>x. returns (f x) Q)"
  by (cases m) simp_all

lemma returns_mono: "returns m P \<Longrightarrow> (\<And>x. P x \<Longrightarrow> Q x) \<Longrightarrow> returns m Q"
  by (auto simp: returns_def)

lemma returns_chainI:
  "returns m P \<Longrightarrow> (\<And>x. P x \<Longrightarrow> returns (f x) Q) \<Longrightarrow> returns (chain m f) Q"
  by (auto simp: returns_chain elim: returns_mono)

lemma returnsE:
  assumes "returns m Q"
  obtains x where "m = Inr x" "Q x"
  using assms by (auto simp: returns_def)

lemma returns_ifok: "returns m Q \<Longrightarrow> ifok m Q"
  by (auto simp: returns_def ifok_def)

section \<open>Counted loops\<close>

text \<open>
  \<open>foreach xs body s\<close> is the loop that runs \<open>body\<close> for the values of \<open>xs\<close> in order;
  \<open>for (i = a; i < b; i++)\<close> is \<open>foreach [a..<b]\<close>.
\<close>

fun foreach :: "'i list \<Rightarrow> ('i \<Rightarrow> 's \<Rightarrow> (unit \<times> 's) res) \<Rightarrow> 's \<Rightarrow> (unit \<times> 's) res" where
  "foreach [] body s = Inr ((), s)"
| "foreach (x # xs) body s = chain (body x s) (\<lambda>(u, s'). foreach xs body s')"

lemma foreach_append:
  "foreach (xs @ ys) body s = chain (foreach xs body s) (\<lambda>(u, s'). foreach ys body s')"
  by (induction xs arbitrary: s) (simp_all add: chain_assoc split_def)

lemma chain_unit [simp]: "chain m (\<lambda>(u, s). Inr ((), s)) = m"
  by (cases m) auto

lemma foreach_upt_Suc: "a \<le> b \<Longrightarrow> foreach [a..<Suc b] body s = chain (foreach [a..<b] body s) (\<lambda>(u, s'). body b s')"
  by (auto simp: foreach_append chain_def split: sum.splits prod.splits)

lemma foreach_cong [fundef_cong]:
  "xs = xs' \<Longrightarrow> (\<And>x s. x \<in> set xs' \<Longrightarrow> body x s = body' x s) \<Longrightarrow> s = s' \<Longrightarrow>
    foreach xs body s = foreach xs' body' s'"
proof (induction xs arbitrary: xs' s s')
  case Nil
  then show ?case by auto
next
  case (Cons x xs)
  then show ?case by (auto intro!: chain_cong)
qed

text \<open>The invariant rule of a loop over \<open>[a..<b]\<close>, partial and total.\<close>

lemma foreach_upt_ifok:
  assumes start: "a \<le> b" "I a s"
    and step: "\<And>k s. a \<le> k \<Longrightarrow> k < b \<Longrightarrow> I k s \<Longrightarrow> ifok (body k s) (\<lambda>(u, s'). I (Suc k) s')"
  shows "ifok (foreach [a..<b] body s) (\<lambda>(u, s'). I b s')"
proof -
  have "ifok (foreach [k..<b] body s) (\<lambda>(u, s'). I b s')" if "a \<le> k" "k \<le> b" "I k s" for k s
    using that
  proof (induction "b - k" arbitrary: k s)
    case 0
    then show ?case by simp
  next
    case (Suc d)
    then have "k < b" by simp
    have "ifok (body k s) (\<lambda>(u, s'). I (Suc k) s')"
      using step Suc.prems \<open>k < b\<close> by blast
    moreover have "I (Suc k) s' \<Longrightarrow> ifok (foreach [Suc k..<b] body s') (\<lambda>(u, s'). I b s')" for s'
      using Suc.hyps(1)[of "Suc k" s'] Suc.hyps(2) Suc.prems by simp
    ultimately show ?case
      by (auto simp: upt_conv_Cons[OF \<open>k < b\<close>] intro!: ifok_chainI)
  qed
  then show ?thesis using start by simp
qed

lemma foreach_upt_returns:
  assumes start: "a \<le> b" "I a s"
    and step: "\<And>k s. a \<le> k \<Longrightarrow> k < b \<Longrightarrow> I k s \<Longrightarrow> returns (body k s) (\<lambda>(u, s'). I (Suc k) s')"
  shows "returns (foreach [a..<b] body s) (\<lambda>(u, s'). I b s')"
proof -
  have "returns (foreach [k..<b] body s) (\<lambda>(u, s'). I b s')" if "a \<le> k" "k \<le> b" "I k s" for k s
    using that
  proof (induction "b - k" arbitrary: k s)
    case 0
    then show ?case by simp
  next
    case (Suc d)
    then have "k < b" by simp
    have "returns (body k s) (\<lambda>(u, s'). I (Suc k) s')"
      using step Suc.prems \<open>k < b\<close> by blast
    moreover have "I (Suc k) s' \<Longrightarrow> returns (foreach [Suc k..<b] body s') (\<lambda>(u, s'). I b s')" for s'
      using Suc.hyps(1)[of "Suc k" s'] Suc.hyps(2) Suc.prems by simp
    ultimately show ?case
      by (auto simp: upt_conv_Cons[OF \<open>k < b\<close>] intro!: returns_chainI)
  qed
  then show ?thesis using start by simp
qed

text \<open>A step invariant carried through any loop.\<close>

lemma foreach_ifok_inv:
  assumes "I s" and "\<And>x s. x \<in> set xs \<Longrightarrow> I s \<Longrightarrow> ifok (body x s) (\<lambda>(u, s'). I s')"
  shows "ifok (foreach xs body s) (\<lambda>(u, s'). I s')"
  using assms
proof (induction xs arbitrary: s)
  case Nil
  then show ?case by simp
next
  case (Cons x xs)
  have "ifok (body x s) (\<lambda>(u, s'). I s')"
    using Cons.prems by simp
  moreover have "I s' \<Longrightarrow> ifok (foreach xs body s') (\<lambda>(u, s'). I s')" for s'
    using Cons.IH Cons.prems(2) by simp
  ultimately show ?case
    by (auto intro!: ifok_chainI)
qed

text \<open>\<open>find_from p a b\<close> is the search loop \<open>for (i = a; i < b; i++) if (p(i)) break;\<close>.\<close>

function find_from :: "(nat \<Rightarrow> bool) \<Rightarrow> nat \<Rightarrow> nat \<Rightarrow> nat option" where
  "find_from p a b = (if a < b then if p a then Some a else find_from p (Suc a) b else None)"
  by pat_completeness auto
termination
  by (relation "measure (\<lambda>(p, a, b). b - a)") auto

declare find_from.simps [simp del]

lemma find_from_Some:
  "find_from p a b = Some i \<Longrightarrow> a \<le> i \<and> i < b \<and> p i \<and> (\<forall>j. a \<le> j \<and> j < i \<longrightarrow> \<not> p j)"
proof (induction p a b rule: find_from.induct)
  case (1 p a b)
  show ?case
  proof (cases "a < b \<and> \<not> p a")
    case True
    then have "find_from p (Suc a) b = Some i"
      using "1.prems" by (simp add: find_from.simps[of p a b])
    then have "Suc a \<le> i \<and> i < b \<and> p i \<and> (\<forall>j. Suc a \<le> j \<and> j < i \<longrightarrow> \<not> p j)"
      using "1.IH" True by blast
    then show ?thesis
      using True by (metis Suc_leD le_antisym not_less_eq_eq)
  next
    case False
    then show ?thesis
      using "1.prems" by (auto simp: find_from.simps[of p a b] split: if_splits)
  qed
qed

lemma find_from_None: "find_from p a b = None \<longleftrightarrow> (\<forall>i. a \<le> i \<and> i < b \<longrightarrow> \<not> p i)"
proof (induction p a b rule: find_from.induct)
  case (1 p a b)
  show ?case
  proof (cases "a < b \<and> \<not> p a")
    case True
    then have "find_from p a b = find_from p (Suc a) b"
      by (simp add: find_from.simps[of p a b])
    moreover have "(\<forall>i. a \<le> i \<and> i < b \<longrightarrow> \<not> p i) \<longleftrightarrow> (\<forall>i. Suc a \<le> i \<and> i < b \<longrightarrow> \<not> p i)"
      using True Suc_le_eq le_eq_less_or_eq by auto
    ultimately show ?thesis
      using "1.IH" True by simp
  next
    case False
    then show ?thesis
      by (auto simp: find_from.simps[of p a b])
  qed
qed

text \<open>\<open>List.find\<close>, used for the searches along a chain of buffers.\<close>

lemma find_Some_D: "List.find P xs = Some x \<Longrightarrow> x \<in> set xs \<and> P x"
  by (auto simp: find_Some_iff)

lemma find_unique:
  assumes "x \<in> set xs" "P x" "\<And>y. y \<in> set xs \<Longrightarrow> P y \<Longrightarrow> y = x"
  shows "List.find P xs = Some x"
proof (cases "List.find P xs")
  case None
  then show ?thesis using assms(1,2) by (auto simp: find_None_iff)
next
  case (Some y)
  then show ?thesis using assms(3) by (blast dest: find_Some_D)
qed

lemma option_eqI: "(\<And>j. x = Some j \<longleftrightarrow> y = Some j) \<Longrightarrow> x = y"
  by (cases x; cases y) auto

section \<open>Little-endian integers inside a block\<close>

text \<open>
  The code reads and writes the fields of a structure by casting a block's data to a
  pointer; on the machines it runs on the bytes of an integer are in little-endian order.
\<close>

definition put_le :: "nat \<Rightarrow> block \<Rightarrow> nat \<Rightarrow> 'a::len word \<Rightarrow> block" where
  "put_le n b off v =
    (\<lambda>j. if off \<le> j \<and> j < off + n then ucast (drop_bit (8 * (j - off)) v) else b j)"

primrec get_le :: "nat \<Rightarrow> block \<Rightarrow> nat \<Rightarrow> 'a::len word" where
  "get_le 0 b off = 0"
| "get_le (Suc n) b off = or (ucast (b off)) (push_bit 8 (get_le n b (Suc off)))"

lemma bit_get_le:
  "bit (get_le n b off :: 'a::len word) k \<longleftrightarrow>
    k < LENGTH('a) \<and> k < 8 * n \<and> bit (b (off + k div 8)) (k mod 8)"
proof (induction n arbitrary: off k)
  case 0
  then show ?case by simp
next
  case (Suc n)
  show ?case
  proof (cases "k < 8")
    case True
    then have "k div 8 = 0" "k mod 8 = k" "k < 8 * Suc n"
      by simp_all
    then show ?thesis
      using True by (simp only: get_le.simps bit_or_iff bit_push_bit_iff bit_ucast_iff) auto
  next
    case False
    then obtain j where k: "k = 8 + j"
      using le_Suc_ex not_less by blast
    have "\<not> bit (b off) k"
      using False by (auto dest: bit_imp_le_length)
    moreover have "k div 8 = Suc (j div 8)" "k mod 8 = j mod 8" "k < 8 * Suc n \<longleftrightarrow> j < 8 * n"
      unfolding k by simp_all
    moreover have "k < LENGTH('a) \<Longrightarrow> j < LENGTH('a)"
      unfolding k by simp
    ultimately show ?thesis
      using Suc.IH[of "Suc off" j]
      by (auto simp: k bit_or_iff bit_push_bit_iff bit_ucast_iff)
  qed
qed

lemma get_put_le_same:
  "get_le n (put_le n b off v) off = take_bit (8 * n) (v :: 'a::len word)"
proof (rule bit_eqI)
  fix k
  assume k: "possible_bit TYPE('a word) k"
  have "k < 8 * n \<Longrightarrow> k div 8 < n"
    by (simp add: less_mult_imp_div_less mult.commute)
  moreover have "bit v (8 * (k div 8) + k mod 8) = bit v k"
    by simp
  ultimately show "bit (get_le n (put_le n b off v) off :: 'a word) k = bit (take_bit (8 * n) v) k"
    using k by (auto simp: bit_get_le put_le_def bit_ucast_iff bit_drop_bit_eq bit_take_bit_iff)
qed

lemma get_le_cong:
  "(\<And>i. i < n \<Longrightarrow> b (off + i) = b' (off + i)) \<Longrightarrow> (get_le n b off :: 'a::len word) = get_le n b' off"
proof (induction n arbitrary: off)
  case 0
  then show ?case by simp
next
  case (Suc n)
  have "b off = b' off"
    using Suc.prems[of 0] by simp
  moreover have "(get_le n b (Suc off) :: 'a word) = get_le n b' (Suc off)"
  proof (rule Suc.IH)
    fix i assume "i < n"
    then show "b (Suc off + i) = b' (Suc off + i)"
      using Suc.prems[of "Suc i"] by simp
  qed
  ultimately show ?case by simp
qed

lemma get_put_le_other:
  "off + n \<le> off' \<or> off' + m \<le> off \<Longrightarrow> get_le m (put_le n b off v) off' = get_le m b off'"
  by (rule get_le_cong) (auto simp: put_le_def)

abbreviation get16 :: "block \<Rightarrow> nat \<Rightarrow> short" where "get16 \<equiv> get_le 2"
abbreviation get32 :: "block \<Rightarrow> nat \<Rightarrow> uint" where "get32 \<equiv> get_le 4"
abbreviation get64 :: "block \<Rightarrow> nat \<Rightarrow> size_t" where "get64 \<equiv> get_le 8"
abbreviation put16 :: "block \<Rightarrow> nat \<Rightarrow> short \<Rightarrow> block" where "put16 \<equiv> put_le 2"
abbreviation put32 :: "block \<Rightarrow> nat \<Rightarrow> uint \<Rightarrow> block" where "put32 \<equiv> put_le 4"
abbreviation put64 :: "block \<Rightarrow> nat \<Rightarrow> size_t \<Rightarrow> block" where "put64 \<equiv> put_le 8"

lemma get_put16 [simp]: "get16 (put16 b off v) off = v"
  by (simp add: get_put_le_same take_bit_word_eq_self)

lemma get_put32 [simp]: "get32 (put32 b off v) off = v"
  by (simp add: get_put_le_same take_bit_word_eq_self)

lemma get_put64 [simp]: "get64 (put64 b off v) off = v"
  by (simp add: get_put_le_same take_bit_word_eq_self)

lemma get_le_zero [simp]: "get_le n zero_block off = 0"
  by (induction n arbitrary: off) simp_all

lemma get_le_const_zero [simp]: "get_le n (\<lambda>_. 0) off = 0"
  by (induction n arbitrary: off) simp_all

end
