(* ===== verification/Block_Device.thy ===== *)
theory Block_Device
  imports Prelude
begin

text \<open>
  \<^verbatim>\<open>src/block_device.c\<close> and the two services of \<^verbatim>\<open>src/util.c\<close> and \<^verbatim>\<open>src/buf_cache.c\<close> that read the
  clock. The state is the device as the operating system presents it: a block device special
  file of \<open>dev_nblk\<close> blocks, its contents, the mutex \<open>disk_lock\<close>, and the clock. The field
  \<open>dev_writes\<close> is not state of the program: it records the blocks written so far, in order, so
  that the contents after a crash between two writes can be named.
\<close>

section \<open>The super block\<close>

text \<open>\<^verbatim>\<open>struct superblock\<close> of \<^verbatim>\<open>include/fs.h\<close>, which describes the layout of the device.\<close>

record superblock =
  sb_magic :: uint
  sb_size :: uint
  sb_nblocks :: uint
  sb_ninodes :: uint
  sb_nlog :: uint
  sb_logstart :: uint
  sb_inodestart :: uint
  sb_bmapstart :: uint

section \<open>The device and the clock\<close>

record timespec =
  tv_sec :: size_t
  tv_nsec :: size_t

record device =
  dev_nblk :: nat
  dev_data :: "uint \<Rightarrow> block"
  dev_writes :: "(uint \<times> block) list"
  disk_lock :: bool
  clock :: "nat \<Rightarrow> timespec"
  ticks :: nat

text \<open>
  The system calls, as Linux has them for a block device: \<open>lseek\<close> refuses an offset past the
  end; at the end itself \<open>read\<close> returns 0 and \<open>write\<close> fails; below it they transfer the bytes
  asked for. The offset is always \<open>block_id * BSIZE\<close>, computed in 64 bits, so it cannot
  overflow. A write of one block is taken to be atomic.
\<close>

definition os_lseek_ok :: "uint \<Rightarrow> 'a device_scheme \<Rightarrow> bool" where
  "os_lseek_ok b s \<longleftrightarrow> unat b \<le> dev_nblk s"

definition os_read :: "uint \<Rightarrow> nat \<Rightarrow> block \<Rightarrow> 'a device_scheme \<Rightarrow> int \<times> block" where
  "os_read b n buf s =
    (if unat b < dev_nblk s
     then (int n, if n = BSIZE then dev_data s b else (\<lambda>i. if i < n then dev_data s b i else buf i))
     else (0, buf))"

definition dev_put :: "uint \<Rightarrow> block \<Rightarrow> 'a device_scheme \<Rightarrow> 'a device_scheme" where
  "dev_put b d s = s\<lparr>dev_data := (dev_data s)(b := d), dev_writes := dev_writes s @ [(b, d)]\<rparr>"

definition os_write :: "uint \<Rightarrow> block \<Rightarrow> 'a device_scheme \<Rightarrow> int \<times> 'a device_scheme" where
  "os_write b buf s =
    (if unat b < dev_nblk s
     then (int BSIZE, dev_put b buf s)
     else (-1, s))"

section \<open>Reading and writing a block\<close>

definition lock_disk :: "'a device_scheme \<Rightarrow> (unit \<times> 'a device_scheme) res" where
  "lock_disk s = (if disk_lock s then Inl Deadlock else Inr ((), s\<lparr>disk_lock := True\<rparr>))"

definition unlock_disk :: "'a device_scheme \<Rightarrow> 'a device_scheme" where
  "unlock_disk s = s\<lparr>disk_lock := False\<rparr>"

text \<open>The early return after a failed \<open>lseek\<close> keeps the mutex, as in the code.\<close>

definition write_block_raw :: "uint \<Rightarrow> block \<Rightarrow> 'a device_scheme \<Rightarrow> (int \<times> 'a device_scheme) res" where
  "write_block_raw block_id buf s =
    chain (lock_disk s) (\<lambda>(_, s).
    if \<not> os_lseek_ok block_id s then Inr (-1, s)
    else let (nbytes, s) = os_write block_id buf s in Inr (nbytes, unlock_disk s))"

definition read_block_raw ::
  "uint \<Rightarrow> block \<Rightarrow> 'a device_scheme \<Rightarrow> ((int \<times> block) \<times> 'a device_scheme) res" where
  "read_block_raw block_id buf s =
    chain (lock_disk s) (\<lambda>(_, s).
    if \<not> os_lseek_ok block_id s then Inr ((-1, buf), s)
    else Inr (os_read block_id BSIZE buf s, unlock_disk s))"

definition read_block_raw_nbytes ::
  "uint \<Rightarrow> block \<Rightarrow> uint \<Rightarrow> 'a device_scheme \<Rightarrow> ((int \<times> block) \<times> 'a device_scheme) res" where
  "read_block_raw_nbytes block_id buf nbytes s =
    chain (lock_disk s) (\<lambda>(_, s).
    if \<not> os_lseek_ok block_id s then Inr ((-1, buf), s)
    else let n = (if unat nbytes > BSIZE then BSIZE else unat nbytes)
         in Inr (os_read block_id n buf s, unlock_disk s))"

text \<open>\<open>fd\<close> is what \<open>open\<close> returns for the path.\<close>

definition block_device_init :: "int \<Rightarrow> 'a device_scheme \<Rightarrow> (unit \<times> 'a device_scheme) res" where
  "block_device_init fd s =
    (if fd < 0 then Inl (Err_exit ''failed to open disk'') else Inr ((), s\<lparr>disk_lock := False\<rparr>))"

section \<open>The clock\<close>

text \<open>
  Each query advances the clock to its next reading. \<open>current_timestamp\<close> is the static
  function of the buffer cache, with its scale factors as they are in the code.
\<close>

definition get_current_timespec :: "'a device_scheme \<Rightarrow> timespec \<times> 'a device_scheme" where
  "get_current_timespec s = (clock s (ticks s), s\<lparr>ticks := Suc (ticks s)\<rparr>)"

definition timestamp_of :: "timespec \<Rightarrow> size_t" where
  "timestamp_of t = tv_sec t * 100 + (tv_nsec t div 1000) div 100"

definition current_timestamp :: "'a device_scheme \<Rightarrow> size_t \<times> 'a device_scheme" where
  "current_timestamp s = (timestamp_of (clock s (ticks s)), s\<lparr>ticks := Suc (ticks s)\<rparr>)"

section \<open>A sequence of writes\<close>

text \<open>\<open>apply_writes f ws\<close>: contents \<open>f\<close> after the writes \<open>ws\<close>, in order.\<close>

definition apply_writes :: "('a \<Rightarrow> 'b) \<Rightarrow> ('a \<times> 'b) list \<Rightarrow> 'a \<Rightarrow> 'b" where
  "apply_writes f ws = foldl (\<lambda>g (a, d). g(a := d)) f ws"

lemma apply_writes_Nil [simp]: "apply_writes f [] = f"
  by (simp add: apply_writes_def)

lemma apply_writes_append: "apply_writes f (xs @ ys) = apply_writes (apply_writes f xs) ys"
  by (simp add: apply_writes_def)

lemma apply_writes_Cons [simp]: "apply_writes f ((a, d) # ws) = apply_writes (f(a := d)) ws"
  by (simp add: apply_writes_def)

lemma apply_writes_snoc [simp]: "apply_writes f (ws @ [(a, d)]) = (apply_writes f ws)(a := d)"
  by (simp add: apply_writes_append)

lemma apply_writes_other: "a \<notin> fst ` set ws \<Longrightarrow> apply_writes f ws a = f a"
  by (induction ws arbitrary: f) auto

lemma apply_writes_map_inj:
  assumes "i < n" and "\<And>j. j < n \<Longrightarrow> j \<noteq> i \<Longrightarrow> key j \<noteq> key i"
  shows "apply_writes f (map (\<lambda>j. (key j, dat j)) [0..<n]) (key i) = dat i"
  using assms
proof (induction n)
  case (Suc n)
  show ?case
  proof (cases "i = n")
    case False
    then have "key i \<noteq> key n" "i < n" using Suc.prems(1) Suc.prems(2)[of n] by auto
    then show ?thesis using Suc by simp
  qed simp
qed simp

section \<open>Behaviour\<close>

lemma read_block_raw_ok:
  "\<not> disk_lock s \<Longrightarrow> unat b < dev_nblk s \<Longrightarrow>
    read_block_raw b buf s = Inr ((int BSIZE, dev_data s b), s)"
  by (simp add: read_block_raw_def lock_disk_def os_lseek_ok_def os_read_def unlock_disk_def)

lemma write_block_raw_ok:
  "\<not> disk_lock s \<Longrightarrow> unat b < dev_nblk s \<Longrightarrow>
    write_block_raw b buf s = Inr (int BSIZE, dev_put b buf s)"
  by (simp add: write_block_raw_def lock_disk_def os_lseek_ok_def os_write_def unlock_disk_def dev_put_def)

theorem write_then_read:
  assumes "\<not> disk_lock s" "unat b < dev_nblk s"
    and "write_block_raw b buf s = Inr (n, s')"
  shows "n = int BSIZE \<and> read_block_raw b old s' = Inr ((int BSIZE, buf), s')
    \<and> (\<forall>c. c \<noteq> b \<and> unat c < dev_nblk s \<longrightarrow>
        map_sum id fst (read_block_raw c old s') = map_sum id fst (read_block_raw c old s))"
  using assms by (auto simp: write_block_raw_ok read_block_raw_ok dev_put_def)

definition small_device :: device where
  "small_device = \<lparr>dev_nblk = 8, dev_data = (\<lambda>_. zero_block), dev_writes = [], disk_lock = False,
    clock = (\<lambda>n. \<lparr>tv_sec = word_of_nat n, tv_nsec = 0\<rparr>), ticks = 0\<rparr>"

theorem write_then_read_witness:
  "\<exists>s'. write_block_raw 3 (\<lambda>_. 7) small_device = Inr (int BSIZE, s')
    \<and> read_block_raw 3 zero_block s' = Inr ((int BSIZE, \<lambda>_. 7), s')"
proof -
  have "write_block_raw 3 (\<lambda>_. 7) small_device = Inr (int BSIZE, dev_put 3 (\<lambda>_. 7) small_device)"
    by (rule write_block_raw_ok) (simp_all add: small_device_def)
  from write_then_read[OF _ _ this] this show ?thesis
    by (auto simp: small_device_def)
qed

end
