(* ===== verification/Buf_Cache.thy ===== *)
theory Buf_Cache
  imports Block_Device
begin

text \<open>
  \<^verbatim>\<open>src/buf_cache.c\<close>: a fixed array of buffers, each on one of the \<open>BCACHE_HASH_SIZE\<close> chains. A
  chain is the circular list the code threads through \<open>next\<close>, starting after the chain's head;
  following \<open>prev\<close> from the head visits it in reverse. The chains' spin locks are not state of
  the model: one operation runs at a time here, and each releases every chain it locks. A
  buffer's mutex is state, since \<open>bread\<close> returns with it locked.
\<close>

section \<open>Buffers and chains\<close>

definition BCACHE_HASH_SIZE :: nat where "BCACHE_HASH_SIZE = 29"
definition MAXOPBLOCKS :: nat where "MAXOPBLOCKS = 127"
definition NCACHE_BUF :: nat where "NCACHE_BUF = MAXOPBLOCKS * 8"

record bbuf =
  bb_valid :: bool
  bb_blockno :: uint
  bb_locked :: bool
  bb_refcnt :: uint
  bb_timestamp :: size_t
  bb_data :: block

record bcache = device +
  bc_buf :: "nat \<Rightarrow> bbuf"
  bc_hash :: "nat \<Rightarrow> nat list"

definition upd_buf :: "nat \<Rightarrow> (bbuf \<Rightarrow> bbuf) \<Rightarrow> 'a bcache_scheme \<Rightarrow> 'a bcache_scheme" where
  "upd_buf i f s = s\<lparr>bc_buf := (bc_buf s)(i := f (bc_buf s i))\<rparr>"

definition bcache_hash :: "uint \<Rightarrow> nat" where
  "bcache_hash blockno = unat blockno mod BCACHE_HASH_SIZE"

text \<open>The buffers are static storage: all zero before \<open>bcache_init\<close>.\<close>

definition static_buf :: bbuf where
  "static_buf = \<lparr>bb_valid = False, bb_blockno = 0, bb_locked = False, bb_refcnt = 0,
    bb_timestamp = 0, bb_data = zero_block\<rparr>"

definition bcache_init :: "'a bcache_scheme \<Rightarrow> 'a bcache_scheme" where
  "bcache_init s =
    s\<lparr>bc_hash := (\<lambda>_. [])(0 := fold (\<lambda>b chain. b # chain) [0..<NCACHE_BUF] []),
      bc_buf := (\<lambda>i. if i < NCACHE_BUF then (bc_buf s i)\<lparr>bb_locked := False\<rparr> else bc_buf s i)\<rparr>"

section \<open>Finding a buffer\<close>

text \<open>
  The search in the block's own chain stops at the first free buffer it meets: the code resets
  \<open>least_recent_time_stamp\<close> in every iteration and returns inside the loop.
\<close>

fun scan_own :: "(nat \<Rightarrow> bbuf) \<Rightarrow> nat list \<Rightarrow> nat option" where
  "scan_own bf [] = None"
| "scan_own bf (i # is) =
    (if bb_refcnt (bf i) = 0 \<and> bb_timestamp (bf i) \<le> -1 then Some i else scan_own bf is)"

text \<open>The search in another chain keeps the free buffer with the least time stamp seen so far.\<close>

fun scan_lru :: "(nat \<Rightarrow> bbuf) \<Rightarrow> nat list \<Rightarrow> nat option \<Rightarrow> size_t \<Rightarrow> nat option" where
  "scan_lru bf [] best ts = best"
| "scan_lru bf (i # is) best ts =
    (if bb_refcnt (bf i) = 0 \<and> bb_timestamp (bf i) \<le> ts
     then scan_lru bf is (Some i) (bb_timestamp (bf i))
     else scan_lru bf is best ts)"

fun search_chains :: "'a bcache_scheme \<Rightarrow> nat \<Rightarrow> nat list \<Rightarrow> (nat \<times> nat) option" where
  "search_chains s hashid [] = None"
| "search_chains s hashid (hidx # rest) =
    (if hidx = hashid then search_chains s hashid rest
     else case scan_lru (bc_buf s) (rev (bc_hash s hidx)) None (-1) of
       Some i \<Rightarrow> Some (hidx, i)
     | None \<Rightarrow> search_chains s hashid rest)"

definition lock_buf :: "nat \<Rightarrow> 'a bcache_scheme \<Rightarrow> (nat \<times> 'a bcache_scheme) res" where
  "lock_buf i s =
    (if bb_locked (bc_buf s i) then Inl Deadlock else Inr (i, upd_buf i (bb_locked_update (\<lambda>_. True)) s))"

definition cached :: "'a bcache_scheme \<Rightarrow> uint \<Rightarrow> nat option" where
  "cached s blockno =
    List.find (\<lambda>i. bb_blockno (bc_buf s i) = blockno) (bc_hash s (bcache_hash blockno))"

definition recycle :: "uint \<Rightarrow> bbuf \<Rightarrow> bbuf" where
  "recycle blockno b = b\<lparr>bb_blockno := blockno, bb_refcnt := 1, bb_valid := False\<rparr>"

text \<open>Without a free buffer anywhere the \<open>while (1)\<close> loop of the code never ends.\<close>

definition bget :: "uint \<Rightarrow> 'a bcache_scheme \<Rightarrow> (nat \<times> 'a bcache_scheme) res" where
  "bget blockno s =
    (let hashid = bcache_hash blockno in
     case cached s blockno of
       Some i \<Rightarrow> lock_buf i (upd_buf i (\<lambda>b. b\<lparr>bb_refcnt := bb_refcnt b + 1\<rparr>) s)
     | None \<Rightarrow>
       (case scan_own (bc_buf s) (rev (bc_hash s hashid)) of
          Some i \<Rightarrow> lock_buf i (upd_buf i (recycle blockno) s)
        | None \<Rightarrow>
          (case search_chains s hashid [0..<BCACHE_HASH_SIZE] of
             None \<Rightarrow> Inl Hang
           | Some (hidx, i) \<Rightarrow>
               (let s = upd_buf i (recycle blockno) s;
                    s = s\<lparr>bc_hash := (bc_hash s)(hidx := remove1 i (bc_hash s hidx))\<rparr>;
                    s = s\<lparr>bc_hash := (bc_hash s)(hashid := i # bc_hash s hashid)\<rparr>
                in lock_buf i s))))"

section \<open>The interface\<close>

definition bread :: "uint \<Rightarrow> 'a bcache_scheme \<Rightarrow> (nat \<times> 'a bcache_scheme) res" where
  "bread blockno s =
    chain (bget blockno s) (\<lambda>(b, s).
    if \<not> bb_valid (bc_buf s b) then
      chain (read_block_raw blockno (bb_data (bc_buf s b)) s) (\<lambda>((_, d), s).
      Inr (b, upd_buf b (\<lambda>x. x\<lparr>bb_data := d, bb_valid := True\<rparr>) s))
    else Inr (b, s))"

definition bwrite :: "nat \<Rightarrow> 'a bcache_scheme \<Rightarrow> (int \<times> 'a bcache_scheme) res" where
  "bwrite b s = write_block_raw (bb_blockno (bc_buf s b)) (bb_data (bc_buf s b)) s"

definition brelse :: "nat \<Rightarrow> 'a bcache_scheme \<Rightarrow> 'a bcache_scheme" where
  "brelse b s =
    (let s = upd_buf b (bb_locked_update (\<lambda>_. False)) s;
         s = upd_buf b (\<lambda>x. x\<lparr>bb_refcnt := bb_refcnt x - 1\<rparr>) s
     in if bb_refcnt (bc_buf s b) = 0
        then let (t, s) = current_timestamp s in upd_buf b (bb_timestamp_update (\<lambda>_. t)) s
        else s)"

definition bpin :: "nat \<Rightarrow> 'a bcache_scheme \<Rightarrow> 'a bcache_scheme" where
  "bpin b s = upd_buf b (\<lambda>x. x\<lparr>bb_refcnt := bb_refcnt x + 1\<rparr>) s"

definition bunpin :: "nat \<Rightarrow> 'a bcache_scheme \<Rightarrow> 'a bcache_scheme" where
  "bunpin b s = upd_buf b (\<lambda>x. x\<lparr>bb_refcnt := bb_refcnt x - 1\<rparr>) s"

text \<open>The bytes a caller writes through \<open>b->data\<close>.\<close>

definition set_data :: "nat \<Rightarrow> block \<Rightarrow> 'a bcache_scheme \<Rightarrow> 'a bcache_scheme" where
  "set_data b d s = upd_buf b (bb_data_update (\<lambda>_. d)) s"

definition buf_data :: "'a bcache_scheme \<Rightarrow> nat \<Rightarrow> block" where
  "buf_data s b = bb_data (bc_buf s b)"

section \<open>The searches\<close>

lemma scan_own_Some: "scan_own bf xs = Some i \<Longrightarrow> i \<in> set xs \<and> bb_refcnt (bf i) = 0"
  by (induction xs) (auto split: if_splits)

lemma scan_own_None: "scan_own bf xs = None \<longleftrightarrow> (\<forall>i\<in>set xs. bb_refcnt (bf i) \<noteq> 0)"
  by (induction xs) (auto simp: word_order.extremum)

lemma scan_lru_Some:
  "scan_lru bf xs best ts = Some i \<Longrightarrow> best = Some i \<or> (i \<in> set xs \<and> bb_refcnt (bf i) = 0)"
  by (induction xs arbitrary: best ts) (auto split: if_splits)

lemma scan_lru_keeps: "scan_lru bf xs (Some j) ts \<noteq> None"
  by (induction xs arbitrary: j ts) auto

lemma scan_lru_None: "scan_lru bf xs None (-1) = None \<longleftrightarrow> (\<forall>i\<in>set xs. bb_refcnt (bf i) \<noteq> 0)"
  by (induction xs) (auto simp: word_order.extremum scan_lru_keeps)

lemma search_chains_Some:
  "search_chains s h hs = Some (hidx, i) \<Longrightarrow>
    hidx \<in> set hs \<and> hidx \<noteq> h \<and> i \<in> set (bc_hash s hidx) \<and> bb_refcnt (bc_buf s i) = 0"
  by (induction hs) (auto split: if_splits option.splits dest: scan_lru_Some)

lemma search_chains_None:
  "search_chains s h hs = None \<longleftrightarrow>
    (\<forall>hidx\<in>set hs. hidx \<noteq> h \<longrightarrow> (\<forall>i\<in>set (bc_hash s hidx). bb_refcnt (bc_buf s i) \<noteq> 0))"
proof (induction hs)
  case (Cons a hs)
  then show ?case
    using scan_lru_None[of "bc_buf s" "rev (bc_hash s a)"]
    by (cases "scan_lru (bc_buf s) (rev (bc_hash s a)) None (-1)") auto
qed simp

section \<open>The invariant\<close>

text \<open>
  \<open>bc_wf\<close>: the chains hold buffers of the array without repetition, each buffer on the chain of
  its block number, and no block other than the boot block 0 is held twice (the static buffers
  all carry number 0). \<open>bc_clean\<close>: a buffer without references is unlocked and, if valid, equal
  to its block on the device, so taking it for another block loses nothing.
\<close>

definition linked :: "'a bcache_scheme \<Rightarrow> nat \<Rightarrow> bool" where
  "linked s i \<longleftrightarrow> i \<in> set (bc_hash s (bcache_hash (bb_blockno (bc_buf s i))))"

definition bc_wf :: "'a bcache_scheme \<Rightarrow> bool" where
  "bc_wf s \<longleftrightarrow>
    (\<forall>h < BCACHE_HASH_SIZE. distinct (bc_hash s h) \<and>
      (\<forall>i\<in>set (bc_hash s h). i < NCACHE_BUF \<and> bcache_hash (bb_blockno (bc_buf s i)) = h)) \<and>
    (\<forall>i j. linked s i \<and> linked s j \<and> bb_blockno (bc_buf s i) = bb_blockno (bc_buf s j) \<and>
      bb_blockno (bc_buf s i) \<noteq> 0 \<longrightarrow> i = j)"

definition bc_clean :: "'a bcache_scheme \<Rightarrow> bool" where
  "bc_clean s \<longleftrightarrow>
    (\<forall>i. linked s i \<and> bb_refcnt (bc_buf s i) = 0 \<longrightarrow> \<not> bb_locked (bc_buf s i) \<and>
      (bb_valid (bc_buf s i) \<and> bb_blockno (bc_buf s i) \<noteq> 0 \<longrightarrow>
        bb_data (bc_buf s i) = dev_data s (bb_blockno (bc_buf s i))))"

definition bc_full :: "'a bcache_scheme \<Rightarrow> bool" where
  "bc_full s \<longleftrightarrow> (\<forall>i < NCACHE_BUF. linked s i)"

text \<open>What a reader of block \<open>b\<close> sees: the cached copy, else the device.\<close>

definition view :: "'a bcache_scheme \<Rightarrow> uint \<Rightarrow> block" where
  "view s b =
    (if b = 0 then zero_block
     else case cached s b of
       Some i \<Rightarrow> (if bb_valid (bc_buf s i) then bb_data (bc_buf s i) else dev_data s b)
     | None \<Rightarrow> dev_data s b)"

lemma bcache_hash_less [simp]: "bcache_hash b < BCACHE_HASH_SIZE"
  by (simp add: bcache_hash_def BCACHE_HASH_SIZE_def)

lemma in_chain_linked:
  "bc_wf s \<Longrightarrow> h < BCACHE_HASH_SIZE \<Longrightarrow>
    i \<in> set (bc_hash s h) \<longleftrightarrow> linked s i \<and> bcache_hash (bb_blockno (bc_buf s i)) = h"
  by (auto simp: bc_wf_def linked_def)

lemma linked_less: "bc_wf s \<Longrightarrow> linked s i \<Longrightarrow> i < NCACHE_BUF"
  unfolding bc_wf_def linked_def using bcache_hash_less by blast

lemma linked_unique:
  "bc_wf s \<Longrightarrow> linked s i \<Longrightarrow> linked s j \<Longrightarrow>
    bb_blockno (bc_buf s i) = bb_blockno (bc_buf s j) \<Longrightarrow> bb_blockno (bc_buf s i) \<noteq> 0 \<Longrightarrow> i = j"
  by (auto simp: bc_wf_def)

lemma cached_SomeD: "cached s b = Some i \<Longrightarrow> linked s i \<and> bb_blockno (bc_buf s i) = b"
  by (auto simp: cached_def linked_def dest: find_Some_D)

lemma cached_iff:
  assumes "bc_wf s" "b \<noteq> 0"
  shows "cached s b = Some i \<longleftrightarrow> linked s i \<and> bb_blockno (bc_buf s i) = b"
proof
  assume i: "linked s i \<and> bb_blockno (bc_buf s i) = b"
  show "cached s b = Some i"
    unfolding cached_def
  proof (rule find_unique)
    show "i \<in> set (bc_hash s (bcache_hash b))"
      using i by (auto simp: linked_def)
    show "bb_blockno (bc_buf s i) = b"
      using i by simp
    show "y = i" if "y \<in> set (bc_hash s (bcache_hash b))" "bb_blockno (bc_buf s y) = b" for y
      using that i assms by (intro linked_unique[of s]) (auto simp: linked_def)
  qed
qed (simp add: cached_SomeD)

lemma cached_None:
  assumes "bc_wf s" "b \<noteq> 0"
  shows "cached s b = None \<longleftrightarrow> (\<forall>i. linked s i \<longrightarrow> bb_blockno (bc_buf s i) \<noteq> b)"
  using cached_iff[OF assms] by (cases "cached s b") auto

section \<open>Taking a buffer\<close>

text \<open>
  A hit takes one more reference to the block's buffer. A miss turns a free buffer \<open>i\<close> into the
  block's buffer and moves it to the block's chain.
\<close>

lemma bget_cases:
  assumes wf: "bc_wf s" and get: "bget b s = Inr (i, s')"
  obtains (hit) "cached s b = Some i" "\<not> bb_locked (bc_buf s i)"
      "s' = s\<lparr>bc_buf := (bc_buf s)(i := (bc_buf s i)\<lparr>bb_refcnt := bb_refcnt (bc_buf s i) + 1, bb_locked := True\<rparr>)\<rparr>"
  | (miss) chains where "cached s b = None" "linked s i" "bb_refcnt (bc_buf s i) = 0"
      "s' = s\<lparr>bc_buf := (bc_buf s)(i := (recycle b (bc_buf s i))\<lparr>bb_locked := True\<rparr>), bc_hash := chains\<rparr>"
      "\<And>h. h < BCACHE_HASH_SIZE \<Longrightarrow> distinct (chains h) \<and> set (chains h) =
        (if h = bcache_hash b then insert i (set (bc_hash s h)) else set (bc_hash s h) - {i})"
proof (cases "cached s b")
  case (Some j)
  then show ?thesis
    using get hit by (auto simp: bget_def lock_buf_def upd_buf_def split: if_splits)
next
  case None
  note [simp] = None
  have dist: "distinct (bc_hash s h)" if "h < BCACHE_HASH_SIZE" for h
    using wf that by (simp add: bc_wf_def)
  show ?thesis
  proof (cases "scan_own (bc_buf s) (rev (bc_hash s (bcache_hash b)))")
    case (Some j)
    from scan_own_Some[OF this] have j: "j \<in> set (bc_hash s (bcache_hash b))" "bb_refcnt (bc_buf s j) = 0"
      by auto
    have "i = j"
      and s': "s' = s\<lparr>bc_buf := (bc_buf s)(i := (recycle b (bc_buf s i))\<lparr>bb_locked := True\<rparr>), bc_hash := bc_hash s\<rparr>"
      using get Some by (auto simp: bget_def lock_buf_def upd_buf_def split: if_splits)
    have home: "j \<in> set (bc_hash s h) \<longleftrightarrow> h = bcache_hash b" if "h < BCACHE_HASH_SIZE" for h
      using j in_chain_linked[OF wf] that by (metis bcache_hash_less)
    show ?thesis
    proof (rule miss[OF None _ _ s'])
      show "linked s i" "bb_refcnt (bc_buf s i) = 0"
        using j \<open>i = j\<close> by (auto simp: in_chain_linked[OF wf])
      show "distinct (bc_hash s h) \<and> set (bc_hash s h) =
          (if h = bcache_hash b then insert i (set (bc_hash s h)) else set (bc_hash s h) - {i})"
        if "h < BCACHE_HASH_SIZE" for h
        using home[OF that] dist[OF that] \<open>i = j\<close> by auto
    qed
  next
    case None
    then obtain hidx where found: "search_chains s (bcache_hash b) [0..<BCACHE_HASH_SIZE] = Some (hidx, i)"
      and s': "s' = s\<lparr>bc_buf := (bc_buf s)(i := (recycle b (bc_buf s i))\<lparr>bb_locked := True\<rparr>),
        bc_hash := (bc_hash s)(hidx := remove1 i (bc_hash s hidx), bcache_hash b := i # bc_hash s (bcache_hash b))\<rparr>"
      using get
      by (auto simp: bget_def lock_buf_def upd_buf_def Let_def fun_upd_twist
          split: if_splits option.splits prod.splits dest!: search_chains_Some)
    from search_chains_Some[OF found] have hidx: "hidx < BCACHE_HASH_SIZE" "hidx \<noteq> bcache_hash b"
      and i: "i \<in> set (bc_hash s hidx)" "bb_refcnt (bc_buf s i) = 0"
      by auto
    have home: "i \<in> set (bc_hash s h) \<longleftrightarrow> h = hidx" if "h < BCACHE_HASH_SIZE" for h
      using i hidx in_chain_linked[OF wf] that by metis
    show ?thesis
    proof (rule miss[OF \<open>cached s b = None\<close> _ i(2) s'])
      show "linked s i"
        using i hidx by (simp add: in_chain_linked[OF wf])
      show "distinct (((bc_hash s)(hidx := remove1 i (bc_hash s hidx), bcache_hash b := i # bc_hash s (bcache_hash b))) h) \<and>
          set (((bc_hash s)(hidx := remove1 i (bc_hash s hidx), bcache_hash b := i # bc_hash s (bcache_hash b))) h) =
          (if h = bcache_hash b then insert i (set (bc_hash s h)) else set (bc_hash s h) - {i})"
        if "h < BCACHE_HASH_SIZE" for h
        using home[OF that] dist[OF that] hidx by (auto simp: distinct_remove1)
    qed
  qed
qed

text \<open>With a free buffer, or the block's own buffer unlocked, the search ends.\<close>

lemma bget_returns:
  assumes wf: "bc_wf s"
    and free: "cached s b = None \<Longrightarrow> \<exists>i. linked s i \<and> bb_refcnt (bc_buf s i) = 0"
    and clean: "\<And>i. linked s i \<Longrightarrow> bb_refcnt (bc_buf s i) = 0 \<Longrightarrow> \<not> bb_locked (bc_buf s i)"
    and unlocked: "\<And>i. cached s b = Some i \<Longrightarrow> \<not> bb_locked (bc_buf s i)"
  shows "\<exists>i s'. bget b s = Inr (i, s')"
proof (cases "cached s b")
  case (Some i)
  then show ?thesis
    using unlocked[OF Some] by (simp add: bget_def lock_buf_def upd_buf_def)
next
  case None
  then obtain f where f: "linked s f" "bb_refcnt (bc_buf s f) = 0"
    using free by blast
  show ?thesis
  proof (cases "scan_own (bc_buf s) (rev (bc_hash s (bcache_hash b)))")
    case (Some i)
    from scan_own_Some[OF this] have "linked s i" "bb_refcnt (bc_buf s i) = 0"
      by (auto simp: in_chain_linked[OF wf])
    then have "\<not> bb_locked (bc_buf s i)" by (rule clean)
    then show ?thesis
      using Some None by (simp add: bget_def lock_buf_def upd_buf_def recycle_def)
  next
    case own: None
    have "search_chains s (bcache_hash b) [0..<BCACHE_HASH_SIZE] \<noteq> None"
    proof
      assume none: "search_chains s (bcache_hash b) [0..<BCACHE_HASH_SIZE] = None"
      let ?h = "bcache_hash (bb_blockno (bc_buf s f))"
      have "f \<in> set (bc_hash s ?h)" "?h < BCACHE_HASH_SIZE"
        using f by (auto simp: linked_def)
      then show False
        using none own f(2)
        by (cases "?h = bcache_hash b") (auto simp: search_chains_None scan_own_None)
    qed
    then obtain hidx i where found: "search_chains s (bcache_hash b) [0..<BCACHE_HASH_SIZE] = Some (hidx, i)"
      by (cases "search_chains s (bcache_hash b) [0..<BCACHE_HASH_SIZE]") auto
    from search_chains_Some[OF this] have "linked s i" "bb_refcnt (bc_buf s i) = 0"
      by (auto simp: in_chain_linked[OF wf])
    then have "\<not> bb_locked (bc_buf s i)" by (rule clean)
    then show ?thesis
      using own None found by (simp add: bget_def lock_buf_def upd_buf_def recycle_def Let_def)
  qed
qed

section \<open>Reading a block\<close>

definition bc_inv :: "'a bcache_scheme \<Rightarrow> bool" where
  "bc_inv s \<longleftrightarrow> bc_wf s \<and> bc_clean s \<and> \<not> disk_lock s"

text \<open>
  \<open>reads s b i B cs\<close>: what \<open>bread\<close> for block \<open>b\<close> does to state \<open>s\<close> when it returns buffer
  \<open>i\<close>: \<open>B\<close> becomes the buffer, \<open>cs\<close> the chains, everything else stays.
\<close>

definition reads :: "'a bcache_scheme \<Rightarrow> uint \<Rightarrow> nat \<Rightarrow> bbuf \<Rightarrow> (nat \<Rightarrow> nat list) \<Rightarrow> bool" where
  "reads s b i B cs \<longleftrightarrow>
    linked s i \<and> \<not> bb_locked (bc_buf s i) \<and>
    bb_blockno B = b \<and> bb_valid B \<and> bb_locked B \<and> bb_data B = view s b \<and>
    (if cached s b = Some i then bb_refcnt B = bb_refcnt (bc_buf s i) + 1
     else cached s b = None \<and> bb_refcnt (bc_buf s i) = 0 \<and> bb_refcnt B = 1) \<and>
    (\<forall>h < BCACHE_HASH_SIZE. distinct (cs h) \<and>
      set (cs h) = (if h = bcache_hash b then insert i (set (bc_hash s h)) else set (bc_hash s h) - {i}))"

lemma bread_reads:
  assumes inv: "bc_inv s" and b: "b \<noteq> 0" "unat b < dev_nblk s"
    and rd: "bread b s = Inr (i, s')"
  obtains B cs where "s' = s\<lparr>bc_buf := (bc_buf s)(i := B), bc_hash := cs\<rparr>" "reads s b i B cs"
proof -
  have wf: "bc_wf s" and clean: "bc_clean s" and dl: "\<not> disk_lock s"
    using inv by (auto simp: bc_inv_def)
  from rd obtain s1 where get: "bget b s = Inr (i, s1)" and cont:
      "(if \<not> bb_valid (bc_buf s1 i) then
         chain (read_block_raw b (bb_data (bc_buf s1 i)) s1) (\<lambda>((_, d), s).
         Inr (i, upd_buf i (\<lambda>x. x\<lparr>bb_data := d, bb_valid := True\<rparr>) s))
       else Inr (i, s1)) = Inr (i, s')"
    by (auto simp: bread_def chain_eq_Inr split: if_splits)
  from wf get show ?thesis
  proof (cases rule: bget_cases)
    case hit
    let ?B = "(bc_buf s i)\<lparr>bb_refcnt := bb_refcnt (bc_buf s i) + 1, bb_locked := True\<rparr>"
    have i: "linked s i" "bb_blockno (bc_buf s i) = b"
      using hit(1) by (auto dest: cached_SomeD)
    have dist: "distinct (bc_hash s h)" if "h < BCACHE_HASH_SIZE" for h
      using wf that by (simp add: bc_wf_def)
    have cs: "distinct (bc_hash s h) \<and> set (bc_hash s h) =
        (if h = bcache_hash b then insert i (set (bc_hash s h)) else set (bc_hash s h) - {i})"
      if "h < BCACHE_HASH_SIZE" for h
      using i dist[OF that] in_chain_linked[OF wf that, of i] by auto
    show ?thesis
    proof (cases "bb_valid (bc_buf s i)")
      case True
      then have "s' = s1"
        using cont hit(3) by simp
      then have "s' = s\<lparr>bc_buf := (bc_buf s)(i := ?B), bc_hash := bc_hash s\<rparr>"
        unfolding hit(3) by simp
      moreover have "reads s b i ?B (bc_hash s)"
        using hit i b True cs by (simp add: reads_def view_def)
      ultimately show ?thesis by (rule that)
    next
      case False
      let ?B' = "?B\<lparr>bb_data := dev_data s b, bb_valid := True\<rparr>"
      have "s' = s\<lparr>bc_buf := (bc_buf s)(i := ?B')\<rparr>"
        using cont dl b hit(3) False by (simp add: read_block_raw_ok upd_buf_def)
      then have "s' = s\<lparr>bc_buf := (bc_buf s)(i := ?B'), bc_hash := bc_hash s\<rparr>"
        by simp
      moreover have "reads s b i ?B' (bc_hash s)"
        using hit i b False cs by (simp add: reads_def view_def)
      ultimately show ?thesis by (rule that)
    qed
  next
    case (miss cs)
    let ?B = "(recycle b (bc_buf s i))\<lparr>bb_locked := True\<rparr>"
    have "s' = s\<lparr>bc_buf := (bc_buf s)(i := ?B\<lparr>bb_data := dev_data s b, bb_valid := True\<rparr>), bc_hash := cs\<rparr>"
      using cont dl b miss(4) by (auto simp: read_block_raw_ok upd_buf_def recycle_def)
    moreover have "reads s b i (?B\<lparr>bb_data := dev_data s b, bb_valid := True\<rparr>) cs"
      using miss b clean by (auto simp: reads_def view_def recycle_def bc_clean_def)
    ultimately show ?thesis by (rule that)
  qed
qed

lemma bread_returns:
  assumes inv: "bc_inv s" and b: "b \<noteq> 0" "unat b < dev_nblk s"
    and free: "cached s b = None \<Longrightarrow> \<exists>i. linked s i \<and> bb_refcnt (bc_buf s i) = 0"
    and unlocked: "\<And>i. cached s b = Some i \<Longrightarrow> \<not> bb_locked (bc_buf s i)"
  shows "\<exists>i s'. bread b s = Inr (i, s')"
proof -
  have wf: "bc_wf s" and dl: "\<not> disk_lock s" and clean: "bc_clean s"
    using inv by (auto simp: bc_inv_def)
  obtain i s1 where get: "bget b s = Inr (i, s1)"
    using bget_returns[OF wf free _ unlocked] clean unfolding bc_clean_def by blast
  from wf get have "dev_nblk s1 = dev_nblk s" "disk_lock s1 = disk_lock s"
    by (cases rule: bget_cases; simp)+
  then show ?thesis
    using get b dl by (auto simp: bread_def read_block_raw_ok)
qed

text \<open>The buffers on the chains stay the same; one buffer may now hold another block.\<close>

lemma reads_linked:
  assumes wf: "bc_wf s" and r: "reads s b i B cs"
  shows "linked (s\<lparr>bc_buf := (bc_buf s)(i := B), bc_hash := cs\<rparr>) j \<longleftrightarrow> linked s j"
  using r by (auto simp: reads_def linked_def)

lemma reads_wf:
  assumes wf: "bc_wf s" and b: "b \<noteq> 0" and r: "reads s b i B cs"
  shows "bc_wf (s\<lparr>bc_buf := (bc_buf s)(i := B), bc_hash := cs\<rparr>)"
proof -
  have other: "bb_blockno (bc_buf s j) \<noteq> b" if "linked s j" "j \<noteq> i" for j
  proof (cases "cached s b")
    case None
    then show ?thesis using that cached_None[OF wf b] by blast
  next
    case (Some k)
    then have "k = i" using r by (auto simp: reads_def split: if_splits)
    then show ?thesis using Some that cached_iff[OF wf b, of j] by auto
  qed
  have li: "linked s i" and B: "bb_blockno B = b" and dist: "\<And>h. h < BCACHE_HASH_SIZE \<Longrightarrow> distinct (cs h)"
    and mem: "\<And>h. h < BCACHE_HASH_SIZE \<Longrightarrow> set (cs h) =
      (if h = bcache_hash b then insert i (set (bc_hash s h)) else set (bc_hash s h) - {i})"
    using r by (auto simp: reads_def)
  show ?thesis
    unfolding bc_wf_def reads_linked[OF wf r]
  proof (intro conjI allI impI ballI)
    fix h assume h: "h < BCACHE_HASH_SIZE"
    show "distinct (bc_hash (s\<lparr>bc_buf := (bc_buf s)(i := B), bc_hash := cs\<rparr>) h)"
      using dist[OF h] by simp
    fix j assume "j \<in> set (bc_hash (s\<lparr>bc_buf := (bc_buf s)(i := B), bc_hash := cs\<rparr>) h)"
    then have j: "j = i \<and> h = bcache_hash b \<or> j \<noteq> i \<and> j \<in> set (bc_hash s h)"
      using mem[OF h] wf li B in_chain_linked[OF wf h] by (auto split: if_splits)
    then show "j < NCACHE_BUF"
      using linked_less[OF wf] li in_chain_linked[OF wf h] by auto
    show "bcache_hash (bb_blockno (bc_buf (s\<lparr>bc_buf := (bc_buf s)(i := B), bc_hash := cs\<rparr>) j)) = h"
      using j B in_chain_linked[OF wf h] by auto
  next
    fix j k assume "linked s j \<and> linked s k \<and>
      bb_blockno (bc_buf (s\<lparr>bc_buf := (bc_buf s)(i := B), bc_hash := cs\<rparr>) j) =
      bb_blockno (bc_buf (s\<lparr>bc_buf := (bc_buf s)(i := B), bc_hash := cs\<rparr>) k) \<and>
      bb_blockno (bc_buf (s\<lparr>bc_buf := (bc_buf s)(i := B), bc_hash := cs\<rparr>) j) \<noteq> 0"
    then show "j = k"
      using other[of j] other[of k] linked_unique[OF wf, of j k] B
      by (cases "j = i"; cases "k = i") auto
  qed
qed

lemma view_linked:
  "bc_wf s \<Longrightarrow> linked s i \<Longrightarrow> bb_valid (bc_buf s i) \<Longrightarrow> bb_blockno (bc_buf s i) \<noteq> 0 \<Longrightarrow>
    view s (bb_blockno (bc_buf s i)) = bb_data (bc_buf s i)"
  by (simp add: view_def cached_iff[THEN iffD2])

lemma view_uncached: "b \<noteq> 0 \<Longrightarrow> cached s b = None \<Longrightarrow> view s b = dev_data s b"
  by (simp add: view_def)

lemma view_invalid: "b \<noteq> 0 \<Longrightarrow> cached s b = Some i \<Longrightarrow> \<not> bb_valid (bc_buf s i) \<Longrightarrow> view s b = dev_data s b"
  by (simp add: view_def)

lemma reads_cached:
  assumes wf: "bc_wf s" and b: "b \<noteq> 0" and r: "reads s b i B cs" and c: "c \<noteq> 0"
  shows "cached (s\<lparr>bc_buf := (bc_buf s)(i := B), bc_hash := cs\<rparr>) c =
    (if c = b then Some i else if cached s c = Some i then None else cached s c)"
proof -
  let ?s = "s\<lparr>bc_buf := (bc_buf s)(i := B), bc_hash := cs\<rparr>"
  have wf': "bc_wf ?s" by (rule reads_wf[OF wf b r])
  have iff: "cached ?s c = Some j \<longleftrightarrow> linked s j \<and> bb_blockno (((bc_buf s)(i := B)) j) = c" for j
    using cached_iff[OF wf' c, of j] reads_linked[OF wf r, of j] by simp
  have iff0: "cached s c = Some j \<longleftrightarrow> linked s j \<and> bb_blockno (bc_buf s j) = c" for j
    by (rule cached_iff[OF wf c])
  have i: "linked s i" "bb_blockno B = b" using r by (auto simp: reads_def)
  show ?thesis
  proof (cases "c = b")
    case True
    then show ?thesis using iff[of i] i by simp
  next
    case False
    have step: "cached ?s c = Some j \<longleftrightarrow> cached s c = Some j \<and> j \<noteq> i" for j
      using False iff[of j] iff0[of j] i by auto
    show ?thesis
    proof (rule option_eqI)
      fix j
      show "cached ?s c = Some j \<longleftrightarrow>
          (if c = b then Some i else if cached s c = Some i then None else cached s c) = Some j"
        using False step[of j] by auto
    qed
  qed
qed

lemma reads_view:
  assumes inv: "bc_inv s" and b: "b \<noteq> 0" and r: "reads s b i B cs"
  shows "view (s\<lparr>bc_buf := (bc_buf s)(i := B), bc_hash := cs\<rparr>) = view s"
proof
  fix c
  have wf: "bc_wf s" and clean: "bc_clean s" using inv by (auto simp: bc_inv_def)
  let ?s = "s\<lparr>bc_buf := (bc_buf s)(i := B), bc_hash := cs\<rparr>"
  have B: "bb_valid B" "bb_data B = view s b" "linked s i" using r by (auto simp: reads_def)
  consider "c = 0" | "c = b" "c \<noteq> 0" | "c \<noteq> 0" "c \<noteq> b" "cached s c = Some i"
    | "c \<noteq> 0" "c \<noteq> b" "cached s c \<noteq> Some i" by blast
  then show "view ?s c = view s c"
  proof cases
    case 1
    then show ?thesis by (simp add: view_def)
  next
    case 2
    then show ?thesis
      using B reads_cached[OF wf b r, of c] by (simp add: view_def)
  next
    case 3
    then have "bb_blockno (bc_buf s i) = c" by (auto dest: cached_SomeD)
    moreover from this 3 have "cached s b \<noteq> Some i" by (auto dest: cached_SomeD)
    ultimately have "bb_refcnt (bc_buf s i) = 0" "bb_blockno (bc_buf s i) = c"
      using r by (auto simp: reads_def)
    then have "view s c = dev_data s c"
      using 3 B clean by (auto simp: view_def bc_clean_def)
    then show ?thesis
      using 3 reads_cached[OF wf b r, of c] by (simp add: view_def)
  next
    case 4
    then show ?thesis
      using reads_cached[OF wf b r, of c] by (auto simp: view_def split: option.splits)
  qed
qed

lemma reads_inv:
  assumes inv: "bc_inv s" and b: "b \<noteq> 0" and r: "reads s b i B cs" and ref: "bb_refcnt B \<noteq> 0"
  shows "bc_inv (s\<lparr>bc_buf := (bc_buf s)(i := B), bc_hash := cs\<rparr>)"
  using inv ref reads_wf[OF _ b r] reads_linked[OF _ r]
  by (auto simp: bc_inv_def bc_clean_def)

section \<open>The other operations\<close>

lemma upd_buf_simps [simp]:
  "bc_hash (upd_buf i f s) = bc_hash s" "dev_data (upd_buf i f s) = dev_data s"
  "dev_nblk (upd_buf i f s) = dev_nblk s" "dev_writes (upd_buf i f s) = dev_writes s"
  "disk_lock (upd_buf i f s) = disk_lock s" "ticks (upd_buf i f s) = ticks s"
  "clock (upd_buf i f s) = clock s" "bcache.more (upd_buf i f s) = bcache.more s"
  "bc_buf (upd_buf i f s) j = (if j = i then f (bc_buf s i) else bc_buf s j)"
  by (simp_all add: upd_buf_def)

text \<open>An update of a buffer that keeps its block number keeps the structure of the cache.\<close>

lemma same_blockno:
  assumes "\<And>j. bb_blockno (bc_buf s' j) = bb_blockno (bc_buf s j)" "bc_hash s' = bc_hash s"
  shows "linked s' j = linked s j" "cached s' b = cached s b" "bc_wf s' = bc_wf s"
proof -
  show l: "linked s' j = linked s j" for j
    using assms by (simp add: linked_def)
  show "cached s' b = cached s b"
    using assms by (simp add: cached_def)
  show "bc_wf s' = bc_wf s"
    using assms by (simp add: bc_wf_def l)
qed

lemma view_cong:
  assumes "bc_hash s' = bc_hash s" "dev_data s' = dev_data s"
    and "\<And>j. bb_blockno (bc_buf s' j) = bb_blockno (bc_buf s j) \<and> bb_valid (bc_buf s' j) = bb_valid (bc_buf s j)
      \<and> bb_data (bc_buf s' j) = bb_data (bc_buf s j)"
  shows "view s' = view s"
proof
  fix b
  have "cached s' b = cached s b"
    using assms by (intro same_blockno(2)) auto
  then show "view s' b = view s b"
    using assms by (simp add: view_def split: option.splits)
qed

lemma view_set_data:
  assumes "bc_wf s" "linked s i" "bb_valid (bc_buf s i)" "bb_blockno (bc_buf s i) \<noteq> 0"
  shows "view (set_data i d s) = (view s)(bb_blockno (bc_buf s i) := d)"
proof
  fix b
  have "cached (set_data i d s) b = cached s b"
    by (rule same_blockno) (simp_all add: set_data_def)
  moreover have "cached s b = Some i \<longleftrightarrow> b = bb_blockno (bc_buf s i)" if "b \<noteq> 0"
    using assms that cached_iff[OF assms(1) that, of i] by auto
  ultimately show "view (set_data i d s) b = ((view s)(bb_blockno (bc_buf s i) := d)) b"
    using assms by (auto simp: view_def set_data_def split: option.splits)
qed

lemma brelse_eq:
  obtains t n where "brelse i s = s\<lparr>ticks := n, bc_buf := (bc_buf s)(i := (bc_buf s i)\<lparr>bb_locked := False,
    bb_refcnt := bb_refcnt (bc_buf s i) - 1, bb_timestamp := t\<rparr>)\<rparr>"
proof -
  show ?thesis
  proof (cases "bb_refcnt (bc_buf s i) - 1 = 0")
    case True
    then show ?thesis
      using that[of "timestamp_of (clock s (ticks s))" "Suc (ticks s)"]
      by (simp add: brelse_def upd_buf_def current_timestamp_def)
  next
    case False
    then have "brelse i s = s\<lparr>ticks := ticks s, bc_buf := (bc_buf s)(i := (bc_buf s i)\<lparr>bb_locked := False,
      bb_refcnt := bb_refcnt (bc_buf s i) - 1, bb_timestamp := bb_timestamp (bc_buf s i)\<rparr>)\<rparr>"
      by (simp add: brelse_def upd_buf_def)
    then show ?thesis by (rule that)
  qed
qed

lemma bwrite_eq:
  assumes "\<not> disk_lock s" "unat (bb_blockno (bc_buf s i)) < dev_nblk s"
  shows "bwrite i s = Inr (int BSIZE, dev_put (bb_blockno (bc_buf s i)) (bb_data (bc_buf s i)) s)"
  using assms by (simp add: bwrite_def write_block_raw_ok)

section \<open>The cache after initialisation\<close>

definition fresh_cache :: "'a bcache_scheme \<Rightarrow> bool" where
  "fresh_cache s \<longleftrightarrow> (\<forall>i. bc_buf s i = static_buf) \<and> \<not> disk_lock s"

lemma bcache_init_chain0:
  "bc_hash (bcache_init s) = (\<lambda>h. if h = 0 then rev [0..<NCACHE_BUF] else [])"
proof -
  have "fold (\<lambda>b chain. b # chain) xs ys = rev xs @ ys" for xs ys :: "nat list"
    by (induction xs arbitrary: ys) auto
  then show ?thesis by (auto simp: bcache_init_def)
qed

lemma bcache_init_bufs: "fresh_cache s \<Longrightarrow> bc_buf (bcache_init s) i = static_buf"
  by (simp add: fresh_cache_def bcache_init_def static_buf_def)

lemma bcache_init_linked: "fresh_cache s \<Longrightarrow> linked (bcache_init s) i \<longleftrightarrow> i < NCACHE_BUF"
  by (simp add: linked_def bcache_init_chain0 bcache_init_bufs)
    (simp add: static_buf_def bcache_hash_def)

lemma bcache_init_cached: "fresh_cache s \<Longrightarrow> b \<noteq> 0 \<Longrightarrow> cached (bcache_init s) b = None"
  by (auto simp: cached_def find_None_iff bcache_init_bufs static_buf_def)

lemma bcache_init_inv:
  assumes "fresh_cache s"
  shows "bc_inv (bcache_init s)" "bc_full (bcache_init s)"
    "b \<noteq> 0 \<Longrightarrow> view (bcache_init s) b = dev_data s b"
proof -
  have hash0: "bcache_hash 0 = 0" by (simp add: bcache_hash_def)
  have d: "dev_data (bcache_init s) = dev_data s" "disk_lock (bcache_init s) = disk_lock s"
    by (simp_all add: bcache_init_def)
  show "bc_full (bcache_init s)"
    by (simp add: bc_full_def bcache_init_linked assms)
  show "bc_inv (bcache_init s)"
    using assms
    by (auto simp: bc_inv_def bc_wf_def bc_clean_def bcache_init_linked bcache_init_bufs hash0
        bcache_init_chain0 static_buf_def d fresh_cache_def)
  show "view (bcache_init s) b = dev_data s b" if "b \<noteq> 0"
    using assms that by (simp add: view_uncached bcache_init_cached d)
qed

section \<open>The reference discipline\<close>

text \<open>
  What the layers above keep true of the cache when one of them runs at a time: a buffer is
  referenced by the caller that holds its lock and by the pin of its block, if any, and by
  nothing else; a buffer whose block is neither pinned (in \<open>P\<close>) nor modified under a lock (in
  \<open>X\<close>) equals its block on the device. \<open>held s b\<close> is the buffer a caller has locked for block
  \<open>b\<close>.
\<close>

definition held :: "'a bcache_scheme \<Rightarrow> uint \<Rightarrow> nat option" where
  "held s b = (if b = 0 then None else case cached s b of
     Some i \<Rightarrow> (if bb_locked (bc_buf s i) then Some i else None) | None \<Rightarrow> None)"

definition cache_ok :: "uint set \<Rightarrow> uint set \<Rightarrow> 'a bcache_scheme \<Rightarrow> bool" where
  "cache_ok P X s \<longleftrightarrow> bc_inv s \<and>
    (\<forall>i. linked s i \<longrightarrow> bb_refcnt (bc_buf s i) =
      of_bool (bb_locked (bc_buf s i)) + of_bool (bb_blockno (bc_buf s i) \<in> P)) \<and>
    (\<forall>i. linked s i \<and> bb_locked (bc_buf s i) \<longrightarrow> bb_valid (bc_buf s i) \<and> bb_blockno (bc_buf s i) \<noteq> 0) \<and>
    (\<forall>i. linked s i \<and> bb_valid (bc_buf s i) \<and> bb_blockno (bc_buf s i) \<notin> insert 0 (P \<union> X) \<longrightarrow>
      bb_data (bc_buf s i) = dev_data s (bb_blockno (bc_buf s i))) \<and>
    0 \<notin> P \<and> (\<forall>b\<in>P. \<exists>i. linked s i \<and> bb_blockno (bc_buf s i) = b \<and> bb_valid (bc_buf s i)) \<and>
    X \<subseteq> dom (held s)"

lemma cache_okD:
  assumes "cache_ok P X s"
  shows "bc_inv s" "bc_wf s" "0 \<notin> P" "X \<subseteq> dom (held s)"
    "linked s i \<Longrightarrow> bb_refcnt (bc_buf s i) = of_bool (bb_locked (bc_buf s i)) + of_bool (bb_blockno (bc_buf s i) \<in> P)"
    "linked s i \<Longrightarrow> bb_locked (bc_buf s i) \<Longrightarrow> bb_valid (bc_buf s i)"
    "linked s i \<Longrightarrow> bb_locked (bc_buf s i) \<Longrightarrow> bb_blockno (bc_buf s i) \<noteq> 0"
    "linked s i \<Longrightarrow> bb_valid (bc_buf s i) \<Longrightarrow> bb_blockno (bc_buf s i) \<notin> insert 0 (P \<union> X) \<Longrightarrow>
      bb_data (bc_buf s i) = dev_data s (bb_blockno (bc_buf s i))"
    "b \<in> P \<Longrightarrow> \<exists>i. linked s i \<and> bb_blockno (bc_buf s i) = b \<and> bb_valid (bc_buf s i)"
  using assms by (auto simp: cache_ok_def bc_inv_def)

lemma held_iff:
  assumes "bc_wf s"
  shows "held s b = Some i \<longleftrightarrow> b \<noteq> 0 \<and> linked s i \<and> bb_blockno (bc_buf s i) = b \<and> bb_locked (bc_buf s i)"
  using cached_iff[OF assms, of b i] by (auto simp: held_def split: option.splits)

lemma held_handle:
  assumes "cache_ok P X s" "held s b = Some i"
  shows "linked s i" "bb_blockno (bc_buf s i) = b" "bb_locked (bc_buf s i)" "b \<noteq> 0"
    "bb_valid (bc_buf s i)" "buf_data s i = view s b"
    "bb_refcnt (bc_buf s i) = 1 + of_bool (b \<in> P)"
proof -
  have wf: "bc_wf s" by (rule cache_okD(2)[OF assms(1)])
  show h: "linked s i" "bb_blockno (bc_buf s i) = b" "bb_locked (bc_buf s i)" "b \<noteq> 0"
    using assms(2) held_iff[OF wf] by auto
  then show v: "bb_valid (bc_buf s i)"
    using cache_okD(6)[OF assms(1)] by blast
  show "buf_data s i = view s b"
    using view_linked[OF wf h(1) v] h by (simp add: buf_data_def)
  show "bb_refcnt (bc_buf s i) = 1 + of_bool (b \<in> P)"
    using cache_okD(5)[OF assms(1) h(1)] h by simp
qed

lemma held_linked_unique:
  assumes "cache_ok P X s" "held s b = Some i" "linked s j" "bb_blockno (bc_buf s j) = b"
  shows "j = i"
  using assms linked_unique[OF cache_okD(2)[OF assms(1)], of j i] held_handle[OF assms(1,2)] by simp

text \<open>Reading a block locks it and changes nothing a reader can see.\<close>

lemma bread_ok:
  assumes ok: "cache_ok P X s" and b: "b \<noteq> 0" "unat b < dev_nblk s"
    and rd: "bread b s = Inr (i, s')"
  shows "cache_ok P X s' \<and> view s' = view s \<and> held s b = None \<and> held s' = (held s)(b \<mapsto> i) \<and>
    buf_data s' i = view s b \<and> (bc_full s \<longrightarrow> bc_full s') \<and>
    (\<exists>B cs. s' = s\<lparr>bc_buf := (bc_buf s)(i := B), bc_hash := cs\<rparr>)"
proof -
  have inv: "bc_inv s" and wf: "bc_wf s" using cache_okD[OF ok] by auto
  from bread_reads[OF inv b rd] obtain B cs
    where s': "s' = s\<lparr>bc_buf := (bc_buf s)(i := B), bc_hash := cs\<rparr>" and r: "reads s b i B cs" .
  have li: "linked s j \<longleftrightarrow> linked s' j" for j
    unfolding s' by (rule reads_linked[OF wf r, symmetric])
  have i: "linked s i" "\<not> bb_locked (bc_buf s i)" and B: "bb_blockno B = b" "bb_valid B" "bb_locked B" "bb_data B = view s b"
    using r by (auto simp: reads_def)
  have wf': "bc_wf s'" unfolding s' by (rule reads_wf[OF wf b(1) r])
  have pin: "bb_blockno (bc_buf s i) \<in> P \<longleftrightarrow> b \<in> P" and ref: "bb_refcnt B = 1 + of_bool (b \<in> P)"
  proof -
    show "bb_blockno (bc_buf s i) \<in> P \<longleftrightarrow> b \<in> P"
    proof (cases "cached s b = Some i")
      case True
      then show ?thesis by (auto dest: cached_SomeD)
    next
      case False
      then have "cached s b = None" "bb_refcnt (bc_buf s i) = 0" using r by (auto simp: reads_def)
      then show ?thesis
        using cache_okD(5)[OF ok i(1)] cache_okD(9)[OF ok, of b] i cached_None[OF wf b(1)] by auto
    qed
    then show "bb_refcnt B = 1 + of_bool (b \<in> P)"
      using r cache_okD(5)[OF ok i(1)] i by (auto simp: reads_def split: if_splits)
  qed
  have inv': "bc_inv s'"
    unfolding s' by (rule reads_inv[OF inv b(1) r]) (simp add: ref)
  have vw: "view s' = view s"
    unfolding s' by (rule reads_view[OF inv b(1) r])
  have none: "held s b = None"
    using r i(2) by (auto simp: held_def reads_def split: if_splits)
  have held': "held s' = (held s)(b \<mapsto> i)"
  proof
    fix c
    show "held s' c = ((held s)(b \<mapsto> i)) c"
      using reads_cached[OF wf b(1) r, of c] B b i(2)
      by (auto simp: held_def s' split: option.splits)
  qed
  have other: "\<And>j. j \<noteq> i \<Longrightarrow> bc_buf s' j = bc_buf s j" "bc_buf s' i = B" "dev_data s' = dev_data s"
    by (auto simp: s')
  have X: "X \<subseteq> dom (held s')"
    using cache_okD(4)[OF ok] by (auto simp: held')
  have dat: "bb_data B = dev_data s b" if "b \<notin> P" "b \<notin> X"
  proof (cases "cached s b")
    case None
    then show ?thesis using B b by (simp add: view_def)
  next
    case (Some j)
    then have "linked s j" "bb_blockno (bc_buf s j) = b" by (auto dest: cached_SomeD)
    then show ?thesis
      using B b Some that cache_okD(8)[OF ok, of j] by (simp add: view_def)
  qed
  have pinned: "\<exists>j. linked s' j \<and> bb_blockno (bc_buf s' j) = c \<and> bb_valid (bc_buf s' j)" if c: "c \<in> P" for c
  proof -
    from cache_okD(9)[OF ok c] obtain j where j: "linked s j" "bb_blockno (bc_buf s j) = c" "bb_valid (bc_buf s j)"
      by blast
    show ?thesis
    proof (cases "j = i")
      case True
      have "c = b"
      proof (cases "cached s b = Some i")
        case True
        then show ?thesis using j \<open>j = i\<close> by (auto dest: cached_SomeD)
      next
        case False
        then have "bb_refcnt (bc_buf s i) = 0" using r by (auto simp: reads_def)
        then show ?thesis using cache_okD(5)[OF ok i(1)] i j c \<open>j = i\<close> by simp
      qed
      then show ?thesis using True B i li other by auto
    next
      case False
      then show ?thesis using j li other by auto
    qed
  qed
  have "cache_ok P X s'"
    unfolding cache_ok_def
  proof (intro conjI allI impI ballI)
    fix j assume j: "linked s' j"
    show "bb_refcnt (bc_buf s' j) = of_bool (bb_locked (bc_buf s' j)) + of_bool (bb_blockno (bc_buf s' j) \<in> P)"
      using j li cache_okD(5)[OF ok, of j] other B ref by (cases "j = i") auto
  next
    fix j assume j: "linked s' j \<and> bb_locked (bc_buf s' j)"
    then show "bb_valid (bc_buf s' j)" "bb_blockno (bc_buf s' j) \<noteq> 0"
      using li cache_okD(6,7)[OF ok, of j] other B b by (cases "j = i"; auto)+
  next
    fix j assume j: "linked s' j \<and> bb_valid (bc_buf s' j) \<and> bb_blockno (bc_buf s' j) \<notin> insert 0 (P \<union> X)"
    then show "bb_data (bc_buf s' j) = dev_data s' (bb_blockno (bc_buf s' j))"
      using li cache_okD(8)[OF ok, of j] other B dat by (cases "j = i") auto
  qed (use inv' X pinned cache_okD(3)[OF ok] in auto)
  moreover have "bc_full s \<longrightarrow> bc_full s'" using li by (simp add: bc_full_def)
  ultimately show ?thesis
    using vw none held' B other s' by (auto simp: buf_data_def)
qed
lemma refs_zero: "(of_bool p + of_bool q :: uint) = 0 \<longleftrightarrow> \<not> p \<and> \<not> q"
  by (cases p; cases q) simp_all

text \<open>
  Everything else a caller does to a block happens through the buffer it holds: one lemma for
  all of them.
\<close>

lemma handle_update:
  assumes ok: "cache_ok P X s" and h: "held s b = Some i"
    and chains: "bc_hash s' = bc_hash s" and other: "\<And>j. j \<noteq> i \<Longrightarrow> bc_buf s' j = bc_buf s j"
    and B: "bb_blockno (bc_buf s' i) = b" "bb_valid (bc_buf s' i)"
    and dev: "\<And>c. c \<noteq> b \<Longrightarrow> dev_data s' c = dev_data s c" "disk_lock s' = disk_lock s"
    and ref: "bb_refcnt (bc_buf s' i) = of_bool (bb_locked (bc_buf s' i)) + of_bool (b \<in> P')"
    and P': "P' - {b} = P - {b}" and X': "X' - {b} = X - {b}" "b \<in> X' \<Longrightarrow> bb_locked (bc_buf s' i)"
    and dat: "b \<notin> P' \<union> X' \<Longrightarrow> bb_data (bc_buf s' i) = dev_data s' b"
  shows "cache_ok P' X' s'"
    and "held s' = (if bb_locked (bc_buf s' i) then held s else (held s)(b := None))"
    and "view s' = (view s)(b := buf_data s' i)"
    and "bc_full s' = bc_full s"
proof -
  note hh = held_handle[OF ok h]
  have wf: "bc_wf s" by (rule cache_okD(2)[OF ok])
  have keep: "\<And>j. bb_blockno (bc_buf s' j) = bb_blockno (bc_buf s j)"
    using other B hh(2) by metis
  note struct = same_blockno[of s' s, OF keep chains]
  have wf': "bc_wf s'" using struct(3) wf by simp
  have held': "held s' c = Some j \<longleftrightarrow> c \<noteq> 0 \<and> linked s j \<and> bb_blockno (bc_buf s j) = c \<and> bb_locked (bc_buf s' j)" for c j
    using held_iff[OF wf', of c j] struct(1) keep by auto
  have uniq: "j = i" if "linked s j" "bb_blockno (bc_buf s j) = b" for j
    by (rule held_linked_unique[OF ok h that])
  show heldeq: "held s' = (if bb_locked (bc_buf s' i) then held s else (held s)(b := None))"
  proof
    fix c
    have "held s' c = Some j \<longleftrightarrow>
        (if bb_locked (bc_buf s' i) then held s else (held s)(b := None)) c = Some j" for j
    proof (cases "j = i")
      case True
      then show ?thesis
        unfolding held' using hh h held_iff[OF wf, of c i] by (auto split: if_splits)
    next
      case False
      have "bb_blockno (bc_buf s j) \<noteq> b" if "linked s j"
        using False uniq that by blast
      then show ?thesis
        unfolding held' other[OF False] using hh held_iff[OF wf, of c j] by (auto split: if_splits)
    qed
    then show "held s' c = (if bb_locked (bc_buf s' i) then held s else (held s)(b := None)) c"
      by (rule option_eqI)
  qed
  show "view s' = (view s)(b := buf_data s' i)"
  proof
    fix c
    show "view s' c = ((view s)(b := buf_data s' i)) c"
    proof (cases "c = b")
      case True
      then show ?thesis
        using view_linked[OF wf', of i] struct(1) hh B by (simp add: buf_data_def)
    next
      case False
      have "j \<noteq> i" if "cached s c = Some j" for j
        using that False hh by (auto dest: cached_SomeD)
      then show ?thesis
        using False other dev struct(2) by (auto simp: view_def split: option.splits)
    qed
  qed
  show "bc_full s' = bc_full s" by (simp add: bc_full_def struct(1))
  have refs: "bb_refcnt (bc_buf s' j) = of_bool (bb_locked (bc_buf s' j)) + of_bool (bb_blockno (bc_buf s' j) \<in> P')"
    if "linked s j" for j
  proof (cases "j = i")
    case True
    then show ?thesis using ref B by simp
  next
    case False
    then have "bb_blockno (bc_buf s j) \<noteq> b" using uniq that by blast
    then show ?thesis using False other cache_okD(5)[OF ok that] P' by auto
  qed
  have datas: "bb_data (bc_buf s' j) = dev_data s' (bb_blockno (bc_buf s' j))"
    if "linked s j" "bb_valid (bc_buf s' j)" "bb_blockno (bc_buf s' j) \<notin> insert 0 (P' \<union> X')" for j
  proof (cases "j = i")
    case True
    then show ?thesis using dat that B by simp
  next
    case False
    then have "bb_blockno (bc_buf s j) \<noteq> b" using uniq that by blast
    then show ?thesis using False other that dev cache_okD(8)[OF ok, of j] P' X' by auto
  qed
  have pins: "\<exists>j. linked s j \<and> bb_blockno (bc_buf s' j) = c \<and> bb_valid (bc_buf s' j)" if "c \<in> P'" for c
  proof (cases "c = b")
    case True
    then show ?thesis using hh B by blast
  next
    case False
    then have "c \<in> P" using that P' by blast
    from cache_okD(9)[OF ok this] obtain j
      where "linked s j" "bb_blockno (bc_buf s j) = c" "bb_valid (bc_buf s j)" by blast
    then show ?thesis using False hh(2) other by metis
  qed
  have locks: "bb_valid (bc_buf s' j)" "bb_blockno (bc_buf s' j) \<noteq> 0" if "linked s j" "bb_locked (bc_buf s' j)" for j
    using that other[of j] B hh cache_okD(6,7)[OF ok, of j] by (cases "j = i"; simp)+
  have xlock: "bb_locked (bc_buf s' j)" if "linked s j" "bb_blockno (bc_buf s' j) \<in> X'" for j
  proof (cases "bb_blockno (bc_buf s j) = b")
    case True
    then show ?thesis using uniq[OF that(1)] that(2) keep X'(2) by simp
  next
    case False
    then have "bb_blockno (bc_buf s j) \<in> X" using that(2) keep X'(1) by auto
    then obtain k where k: "held s (bb_blockno (bc_buf s j)) = Some k"
      using cache_okD(4)[OF ok] by blast
    then have "j = k" by (rule held_linked_unique[OF ok _ that(1) refl])
    then show ?thesis
      using held_handle(3)[OF ok k] other[of j] False hh(2) by metis
  qed
  have clean: "bc_clean s'"
    unfolding bc_clean_def struct(1)
  proof (intro allI impI conjI)
    fix j assume j: "linked s j \<and> bb_refcnt (bc_buf s' j) = 0"
    then have nl: "\<not> bb_locked (bc_buf s' j)" "bb_blockno (bc_buf s' j) \<notin> P'"
      using refs[of j] refs_zero by auto
    then show "\<not> bb_locked (bc_buf s' j)" by blast
    assume v: "bb_valid (bc_buf s' j) \<and> bb_blockno (bc_buf s' j) \<noteq> 0"
    have "bb_blockno (bc_buf s' j) \<notin> X'"
      using xlock[of j] j nl by blast
    then show "bb_data (bc_buf s' j) = dev_data s' (bb_blockno (bc_buf s' j))"
      using datas[of j] j v nl by auto
  qed
  have "X' \<subseteq> dom (held s')"
    using X' cache_okD(4)[OF ok] heldeq h by (auto simp: subset_iff)
  moreover have "0 \<notin> P'" using P' cache_okD(3)[OF ok] hh(4) by auto
  ultimately show "cache_ok P' X' s'"
    using wf' clean dev cache_okD(1)[OF ok] refs datas pins locks
    by (simp add: cache_ok_def bc_inv_def struct(1))
qed

lemma set_data_ok:
  assumes ok: "cache_ok P X s" and h: "held s b = Some i"
  shows "cache_ok P (insert b X) (set_data i d s)" "held (set_data i d s) = held s"
    "view (set_data i d s) = (view s)(b := d)" "bc_full (set_data i d s) = bc_full s"
  using handle_update[OF ok h, of "set_data i d s" P "insert b X"] held_handle[OF ok h]
  by (simp_all add: set_data_def buf_data_def)

lemma bwrite_ok:
  assumes ok: "cache_ok P X s" and h: "held s b = Some i" and b: "unat b < dev_nblk s"
  shows "bwrite i s = Inr (int BSIZE, dev_put b (view s b) s)"
    and "cache_ok P (X - {b}) (dev_put b (view s b) s)" "held (dev_put b (view s b) s) = held s"
    "view (dev_put b (view s b) s) = view s" "bc_full (dev_put b (view s b) s) = bc_full s"
proof -
  note hh = held_handle[OF ok h]
  let ?s' = "dev_put b (view s b) s"
  have "\<not> disk_lock s" using cache_okD(1)[OF ok] by (simp add: bc_inv_def)
  then show "bwrite i s = Inr (int BSIZE, ?s')"
    using hh b by (simp add: bwrite_eq buf_data_def)
  note u = handle_update[OF ok h, of ?s' P "X - {b}"]
  show "cache_ok P (X - {b}) ?s'"
    by (rule u(1)) (use hh in \<open>auto simp: buf_data_def dev_put_def\<close>)
  have "held ?s' = (if bb_locked (bc_buf ?s' i) then held s else (held s)(b := None))"
    by (rule u(2)) (use hh in \<open>auto simp: buf_data_def dev_put_def\<close>)
  then show "held ?s' = held s" using hh by (simp add: dev_put_def)
  have "view ?s' = (view s)(b := buf_data ?s' i)"
    by (rule u(3)) (use hh in \<open>auto simp: buf_data_def dev_put_def\<close>)
  then show "view ?s' = view s" using hh by (simp add: buf_data_def dev_put_def fun_upd_idem)
  show "bc_full ?s' = bc_full s"
    by (rule u(4)) (use hh in \<open>auto simp: buf_data_def dev_put_def\<close>)
qed

lemma bpin_ok:
  assumes ok: "cache_ok P X s" and h: "held s b = Some i" and b: "b \<notin> P"
  shows "cache_ok (insert b P) (X - {b}) (bpin i s)" "held (bpin i s) = held s"
    "view (bpin i s) = view s" "bc_full (bpin i s) = bc_full s"
proof -
  note hh = held_handle[OF ok h]
  note u = handle_update[OF ok h, of "bpin i s" "insert b P" "X - {b}"]
  show "cache_ok (insert b P) (X - {b}) (bpin i s)"
    by (rule u(1)) (use hh b in \<open>auto simp: bpin_def\<close>)
  have "held (bpin i s) = (if bb_locked (bc_buf (bpin i s) i) then held s else (held s)(b := None))"
    by (rule u(2)) (use hh b in \<open>auto simp: bpin_def\<close>)
  then show "held (bpin i s) = held s" using hh by (simp add: bpin_def)
  have "view (bpin i s) = (view s)(b := buf_data (bpin i s) i)"
    by (rule u(3)) (use hh b in \<open>auto simp: bpin_def\<close>)
  then show "view (bpin i s) = view s" using hh by (simp add: buf_data_def bpin_def fun_upd_idem)
  show "bc_full (bpin i s) = bc_full s"
    by (rule u(4)) (use hh b in \<open>auto simp: bpin_def\<close>)
qed

lemma bunpin_ok:
  assumes ok: "cache_ok P X s" and h: "held s b = Some i" and b: "b \<in> P" "b \<notin> X" "view s b = dev_data s b"
  shows "cache_ok (P - {b}) X (bunpin i s)" "held (bunpin i s) = held s"
    "view (bunpin i s) = view s" "bc_full (bunpin i s) = bc_full s"
proof -
  note hh = held_handle[OF ok h]
  note u = handle_update[OF ok h, of "bunpin i s" "P - {b}" X]
  show "cache_ok (P - {b}) X (bunpin i s)"
    by (rule u(1)) (use hh b in \<open>auto simp: bunpin_def buf_data_def\<close>)
  have "held (bunpin i s) = (if bb_locked (bc_buf (bunpin i s) i) then held s else (held s)(b := None))"
    by (rule u(2)) (use hh b in \<open>auto simp: bunpin_def buf_data_def\<close>)
  then show "held (bunpin i s) = held s" using hh by (simp add: bunpin_def)
  have "view (bunpin i s) = (view s)(b := buf_data (bunpin i s) i)"
    by (rule u(3)) (use hh b in \<open>auto simp: bunpin_def buf_data_def\<close>)
  then show "view (bunpin i s) = view s" using hh by (simp add: buf_data_def bunpin_def fun_upd_idem)
  show "bc_full (bunpin i s) = bc_full s"
    by (rule u(4)) (use hh b in \<open>auto simp: bunpin_def buf_data_def\<close>)
qed

lemma brelse_ok:
  assumes ok: "cache_ok P X s" and h: "held s b = Some i" and b: "b \<notin> X"
  shows "cache_ok P X (brelse i s)" "held (brelse i s) = (held s)(b := None)"
    "view (brelse i s) = view s" "bc_full (brelse i s) = bc_full s"
proof -
  note hh = held_handle[OF ok h]
  obtain t n where eq: "brelse i s = s\<lparr>ticks := n, bc_buf := (bc_buf s)(i := (bc_buf s i)\<lparr>bb_locked := False,
    bb_refcnt := bb_refcnt (bc_buf s i) - 1, bb_timestamp := t\<rparr>)\<rparr>" by (rule brelse_eq)
  have dat: "b \<notin> P \<Longrightarrow> bb_data (bc_buf s i) = dev_data s b"
    using cache_okD(8)[OF ok hh(1,5)] hh b by auto
  note u = handle_update[OF ok h, of "brelse i s" P X]
  show "cache_ok P X (brelse i s)"
    by (rule u(1)) (use hh b dat in \<open>auto simp: eq\<close>)
  have "held (brelse i s) = (if bb_locked (bc_buf (brelse i s) i) then held s else (held s)(b := None))"
    by (rule u(2)) (use hh b dat in \<open>auto simp: eq\<close>)
  then show "held (brelse i s) = (held s)(b := None)" by (simp add: eq)
  have "view (brelse i s) = (view s)(b := buf_data (brelse i s) i)"
    by (rule u(3)) (use hh b dat in \<open>auto simp: eq\<close>)
  then show "view (brelse i s) = view s" using hh by (simp add: eq buf_data_def fun_upd_idem)
  show "bc_full (brelse i s) = bc_full s"
    by (rule u(4)) (use hh b dat in \<open>auto simp: eq\<close>)
qed

lemma brelse_frame [simp]:
  "dev_data (brelse i s) = dev_data s" "dev_nblk (brelse i s) = dev_nblk s"
  "dev_writes (brelse i s) = dev_writes s" "bcache.more (brelse i s) = bcache.more s"
  by (rule brelse_eq[of i s], simp)+

lemma bpin_frame [simp]:
  "dev_data (bpin i s) = dev_data s" "dev_nblk (bpin i s) = dev_nblk s"
  "dev_writes (bpin i s) = dev_writes s" "bcache.more (bpin i s) = bcache.more s"
  "dev_data (bunpin i s) = dev_data s" "dev_nblk (bunpin i s) = dev_nblk s"
  "dev_writes (bunpin i s) = dev_writes s" "bcache.more (bunpin i s) = bcache.more s"
  "dev_data (set_data i d s) = dev_data s" "dev_nblk (set_data i d s) = dev_nblk s"
  "dev_writes (set_data i d s) = dev_writes s" "bcache.more (set_data i d s) = bcache.more s"
  by (simp_all add: bpin_def bunpin_def set_data_def)

text \<open>
  A block can be read unless its own buffer is locked, as long as pins and locks leave a
  buffer free: each referenced buffer stands for a different block of \<open>P\<close> or of \<open>dom (held s)\<close>.
\<close>

lemma free_buffer:
  assumes ok: "cache_ok P X s" and full: "bc_full s" and fin: "finite P" "finite (dom (held s))"
    and few: "card P + card (dom (held s)) < NCACHE_BUF"
  shows "\<exists>i. linked s i \<and> bb_refcnt (bc_buf s i) = 0"
proof (rule ccontr)
  assume none: "\<not> ?thesis"
  have wf: "bc_wf s" by (rule cache_okD(2)[OF ok])
  let ?f = "\<lambda>i. bb_blockno (bc_buf s i)"
  have in_set: "?f i \<in> P \<union> dom (held s)" if "i < NCACHE_BUF" for i
  proof -
    have l: "linked s i" using full that by (simp add: bc_full_def)
    then have "bb_locked (bc_buf s i) \<or> ?f i \<in> P"
      using none cache_okD(5)[OF ok l] by (auto simp: refs_zero)
    then show ?thesis
      using l held_iff[OF wf, of "?f i" i] cache_okD(7)[OF ok l] by auto
  qed
  have nz: "?f i \<noteq> 0" if "i < NCACHE_BUF" for i
    using in_set[OF that] cache_okD(3)[OF ok] by (auto simp: held_def)
  have "inj_on ?f {..<NCACHE_BUF}"
    using linked_unique[OF wf] nz full by (auto simp: inj_on_def bc_full_def)
  then have "card {..<NCACHE_BUF} \<le> card (P \<union> dom (held s))"
    using in_set fin by (intro card_inj_on_le[of ?f]) auto
  also have "\<dots> \<le> card P + card (dom (held s))" by (rule card_Un_le)
  finally show False using few by simp
qed

lemma bread_ok_returns:
  assumes ok: "cache_ok P X s" and full: "bc_full s" and b: "b \<noteq> 0" "unat b < dev_nblk s" "held s b = None"
    and fin: "finite P" "finite (dom (held s))"
    and few: "b \<in> P \<or> card P + card (dom (held s)) < NCACHE_BUF"
  shows "\<exists>i s'. bread b s = Inr (i, s')"
proof (rule bread_returns[OF cache_okD(1)[OF ok] b(1,2)])
  have wf: "bc_wf s" by (rule cache_okD(2)[OF ok])
  show "\<exists>i. linked s i \<and> bb_refcnt (bc_buf s i) = 0" if none: "cached s b = None"
  proof -
    have "b \<notin> P" using none cache_okD(9)[OF ok, of b] cached_None[OF wf b(1)] by blast
    then show ?thesis using few free_buffer[OF ok full fin] by blast
  qed
  show "\<not> bb_locked (bc_buf s i)" if "cached s b = Some i" for i
    using b that by (auto simp: held_def split: if_splits)
qed

section \<open>The interface\<close>

text \<open>
  What the log relies on. \<open>ok P X s\<close>: the cache is in order, with the blocks of \<open>P\<close> pinned and
  those of \<open>X\<close> modified by a caller but not yet written or pinned. \<open>hold\<close> gives the handle of a
  locked block, \<open>seen\<close> what a reader sees, \<open>disk\<close> the device, \<open>hist\<close> the writes to it so far,
  \<open>frame\<close> what no operation of the cache touches.
\<close>

locale block_cache =
  fixes ok :: "'b set \<Rightarrow> 'b set \<Rightarrow> 's \<Rightarrow> bool"
    and inrange :: "'s \<Rightarrow> 'b \<Rightarrow> bool"
    and rd :: "'b \<Rightarrow> 's \<Rightarrow> ('h \<times> 's) res"
    and put :: "'h \<Rightarrow> 'd \<Rightarrow> 's \<Rightarrow> 's"
    and wr :: "'h \<Rightarrow> 's \<Rightarrow> (int \<times> 's) res"
    and rel :: "'h \<Rightarrow> 's \<Rightarrow> 's"
    and pin :: "'h \<Rightarrow> 's \<Rightarrow> 's"
    and unpin :: "'h \<Rightarrow> 's \<Rightarrow> 's"
    and dat :: "'s \<Rightarrow> 'h \<Rightarrow> 'd"
    and seen :: "'s \<Rightarrow> 'b \<Rightarrow> 'd"
    and hold :: "'s \<Rightarrow> 'b \<Rightarrow> 'h option"
    and disk :: "'s \<Rightarrow> 'b \<Rightarrow> 'd"
    and hist :: "'s \<Rightarrow> ('b \<times> 'd) list"
    and frame :: "'s \<Rightarrow> 'f"
  assumes inrange_frame: "frame s' = frame s \<Longrightarrow> inrange s' b = inrange s b"
    and held_data: "ok P X s \<Longrightarrow> hold s b = Some h \<Longrightarrow> dat s h = seen s b"
    and rd_law: "ok P X s \<Longrightarrow> inrange s b \<Longrightarrow> rd b s = Inr (h, s') \<Longrightarrow>
      ok P X s' \<and> seen s' = seen s \<and> hold s b = None \<and> hold s' = (hold s)(b \<mapsto> h) \<and>
      disk s' = disk s \<and> hist s' = hist s \<and> frame s' = frame s"
    and put_law: "ok P X s \<Longrightarrow> hold s b = Some h \<Longrightarrow>
      ok P (insert b X) (put h d s) \<and> seen (put h d s) = (seen s)(b := d) \<and> hold (put h d s) = hold s \<and>
      disk (put h d s) = disk s \<and> hist (put h d s) = hist s \<and> frame (put h d s) = frame s"
    and wr_law: "ok P X s \<Longrightarrow> hold s b = Some h \<Longrightarrow> inrange s b \<Longrightarrow> \<exists>n s'. wr h s = Inr (n, s') \<and>
      ok P (X - {b}) s' \<and> seen s' = seen s \<and> hold s' = hold s \<and>
      disk s' = (disk s)(b := seen s b) \<and> hist s' = hist s @ [(b, seen s b)] \<and> frame s' = frame s"
    and rel_law: "ok P X s \<Longrightarrow> hold s b = Some h \<Longrightarrow> b \<notin> X \<Longrightarrow>
      ok P X (rel h s) \<and> seen (rel h s) = seen s \<and> hold (rel h s) = (hold s)(b := None) \<and>
      disk (rel h s) = disk s \<and> hist (rel h s) = hist s \<and> frame (rel h s) = frame s"
    and pin_law: "ok P X s \<Longrightarrow> hold s b = Some h \<Longrightarrow> b \<notin> P \<Longrightarrow>
      ok (insert b P) (X - {b}) (pin h s) \<and> seen (pin h s) = seen s \<and> hold (pin h s) = hold s \<and>
      disk (pin h s) = disk s \<and> hist (pin h s) = hist s \<and> frame (pin h s) = frame s"
    and unpin_law: "ok P X s \<Longrightarrow> hold s b = Some h \<Longrightarrow> b \<in> P \<Longrightarrow> b \<notin> X \<Longrightarrow> seen s b = disk s b \<Longrightarrow>
      ok (P - {b}) X (unpin h s) \<and> seen (unpin h s) = seen s \<and> hold (unpin h s) = hold s \<and>
      disk (unpin h s) = disk s \<and> hist (unpin h s) = hist s \<and> frame (unpin h s) = frame s"
begin

text \<open>Two clients' sequences: rewriting one block in place, and copying one block onto another.\<close>

lemma rewrite_block:
  assumes "ok P {} s" "inrange s b" "rd b s = Inr (h, s1)"
  obtains n s2 where "wr h (put h d s1) = Inr (n, s2)" "ok P {} (rel h s2)"
    "seen (rel h s2) = (seen s)(b := d)" "hold (rel h s2) = hold s" "disk (rel h s2) = (disk s)(b := d)"
    "hist (rel h s2) = hist s @ [(b, d)]" "frame (rel h s2) = frame s"
proof -
  from rd_law[OF assms] have 1: "ok P {} s1" "seen s1 = seen s" "hold s b = None" "hold s1 = (hold s)(b \<mapsto> h)"
    "disk s1 = disk s" "hist s1 = hist s" "frame s1 = frame s" by auto
  have h1: "hold s1 b = Some h" by (simp add: 1)
  note 2 = put_law[OF 1(1) h1, of d]
  have in2: "inrange (put h d s1) b" using 2 1 assms(2) inrange_frame by metis
  have h2: "hold (put h d s1) b = Some h" using 2 h1 by simp
  from wr_law[of P "{b}" "put h d s1" b h] 2 in2 h2 obtain n s2 where w: "wr h (put h d s1) = Inr (n, s2)"
    and 3: "ok P {} s2" "seen s2 = seen (put h d s1)" "hold s2 = hold (put h d s1)"
      "disk s2 = (disk (put h d s1))(b := d)" "hist s2 = hist (put h d s1) @ [(b, d)]" "frame s2 = frame (put h d s1)"
    by auto
  have h3: "hold s2 b = Some h" using 3 h2 by simp
  have "hold s = (hold s)(b := None)" using 1(3) by (simp add: fun_upd_idem)
  with rel_law[OF 3(1) h3] w 1 2 3 show ?thesis
    by (intro that[of n s2]) auto
qed

lemma read_pair:
  assumes ok: "ok P {} s" and inr: "inrange s a" "inrange s b" and ab: "a \<noteq> b"
    and rds: "rd a s = Inr (h, s1)" "rd b s1 = Inr (k, s2)"
  shows "ok P {} s2" "seen s2 = seen s" "hold s2 = (hold s)(a \<mapsto> h, b \<mapsto> k)" "hold s a = None" "hold s b = None"
    "disk s2 = disk s" "hist s2 = hist s" "frame s2 = frame s"
proof -
  from rd_law[OF ok inr(1) rds(1)] have 1: "ok P {} s1" "seen s1 = seen s" "hold s a = None"
    "hold s1 = (hold s)(a \<mapsto> h)" "disk s1 = disk s" "hist s1 = hist s" "frame s1 = frame s" by auto
  have "inrange s1 b" using 1 inr inrange_frame by metis
  from rd_law[OF 1(1) this rds(2)] 1 ab
  show "ok P {} s2" "seen s2 = seen s" "hold s2 = (hold s)(a \<mapsto> h, b \<mapsto> k)" "hold s a = None" "hold s b = None"
    "disk s2 = disk s" "hist s2 = hist s" "frame s2 = frame s" by auto
qed

lemma copy_held:
  assumes ok: "ok P {} s" and a: "hold s a = Some h" and b: "hold s b = Some k" "inrange s b"
  obtains n s3 where "wr k (put k (dat s h) s) = Inr (n, s3)" "ok P {} s3"
    "seen s3 = (seen s)(b := seen s a)" "hold s3 = hold s"
    "disk s3 = (disk s)(b := seen s a)" "hist s3 = hist s @ [(b, seen s a)]" "frame s3 = frame s"
proof -
  have d: "dat s h = seen s a" by (rule held_data[OF ok a])
  note 1 = put_law[OF ok b(1), of "seen s a"]
  have in1: "inrange (put k (seen s a) s) b" using 1 b(2) inrange_frame by metis
  have h1: "hold (put k (seen s a) s) b = Some k" using 1 b(1) by simp
  from wr_law[of P "{b}" "put k (seen s a) s" b k] 1 in1 h1 show ?thesis
    by (auto simp: d intro: that)
qed

text \<open>The two buffers of a copy are released in either order.\<close>

lemma release_pair:
  assumes ok: "ok P {} s" and h: "hold s = M(a \<mapsto> h, b \<mapsto> k)" and ab: "a \<noteq> b" and M: "M a = None" "M b = None"
  shows "ok P {} (rel k (rel h s))" "ok P {} (rel h (rel k s))"
    "hold (rel k (rel h s)) = M" "hold (rel h (rel k s)) = M"
    "seen (rel k (rel h s)) = seen s" "seen (rel h (rel k s)) = seen s"
    "disk (rel k (rel h s)) = disk s" "disk (rel h (rel k s)) = disk s"
    "hist (rel k (rel h s)) = hist s" "hist (rel h (rel k s)) = hist s"
    "frame (rel k (rel h s)) = frame s" "frame (rel h (rel k s)) = frame s"
proof -
  have ha: "hold s a = Some h" and hb: "hold s b = Some k" using h ab by simp_all
  have Mid: "M(a := None) = M" "M(b := None) = M" using M by (simp_all add: fun_upd_idem)
  note 1 = rel_law[OF ok ha] and 2 = rel_law[OF ok hb]
  have h1: "hold (rel h s) b = Some k" and h2: "hold (rel k s) a = Some h" using 1 2 h ab by simp_all
  have m1: "(hold s)(a := None, b := None) = M" and m2: "(hold s)(b := None, a := None) = M"
    using h ab M by (auto simp: fun_eq_iff)
  show "ok P {} (rel k (rel h s))" "ok P {} (rel h (rel k s))"
    "hold (rel k (rel h s)) = M" "hold (rel h (rel k s)) = M"
    "seen (rel k (rel h s)) = seen s" "seen (rel h (rel k s)) = seen s"
    "disk (rel k (rel h s)) = disk s" "disk (rel h (rel k s)) = disk s"
    "hist (rel k (rel h s)) = hist s" "hist (rel h (rel k s)) = hist s"
    "frame (rel k (rel h s)) = frame s" "frame (rel h (rel k s)) = frame s"
    using rel_law[of P "{}" "rel h s" b k] rel_law[of P "{}" "rel k s" a h] 1 2 h1 h2 m1 m2 by simp_all
qed

end

text \<open>The second contract adds when a read returns: \<open>cap\<close> buffers, all on the chains (\<open>full\<close>).\<close>

locale block_cache_total = block_cache +
  fixes full :: "'s \<Rightarrow> bool" and cap :: nat
  assumes rd_total: "ok P X s \<Longrightarrow> full s \<Longrightarrow> inrange s b \<Longrightarrow> hold s b = None \<Longrightarrow> finite P \<Longrightarrow>
      finite (dom (hold s)) \<Longrightarrow> b \<in> P \<or> card P + card (dom (hold s)) < cap \<Longrightarrow> \<exists>h s'. rd b s = Inr (h, s')"
    and full_rd: "ok P X s \<Longrightarrow> inrange s b \<Longrightarrow> rd b s = Inr (h, s') \<Longrightarrow> full s \<Longrightarrow> full s'"
    and full_put: "ok P X s \<Longrightarrow> hold s b = Some h \<Longrightarrow> full (put h d s) = full s"
    and full_wr: "ok P X s \<Longrightarrow> hold s b = Some h \<Longrightarrow> inrange s b \<Longrightarrow> wr h s = Inr (n, s') \<Longrightarrow> full s' = full s"
    and full_rel: "ok P X s \<Longrightarrow> hold s b = Some h \<Longrightarrow> b \<notin> X \<Longrightarrow> full (rel h s) = full s"
    and full_unpin: "ok P X s \<Longrightarrow> hold s b = Some h \<Longrightarrow> b \<in> P \<Longrightarrow> b \<notin> X \<Longrightarrow> seen s b = disk s b \<Longrightarrow>
      full (unpin h s) = full s"
begin

text \<open>With nothing locked, two more buffers are enough to copy a block.\<close>

lemma read_pair_total:
  assumes ok: "ok P {} s" and full: "full s" and inr: "inrange s a" "inrange s b" and ab: "a \<noteq> b"
    and idle: "hold s = Map.empty" and fin: "finite P"
    and few: "a \<in> P \<or> card P < cap" "b \<in> P \<or> card P + 1 < cap"
  obtains h s1 k s2 where "rd a s = Inr (h, s1)" "rd b s1 = Inr (k, s2)" "full s2"
proof -
  obtain h s1 where 1: "rd a s = Inr (h, s1)"
    using rd_total[OF ok full inr(1)] idle fin few(1) by auto
  from rd_law[OF ok inr(1) this] idle have l: "ok P {} s1" "hold s1 = [a \<mapsto> h]" "frame s1 = frame s" by auto
  have f1: "full s1" by (rule full_rd[OF ok inr(1) 1 full])
  have inb: "inrange s1 b" using l(3) inr(2) inrange_frame by metis
  obtain k s2 where 2: "rd b s1 = Inr (k, s2)"
    using rd_total[OF l(1) f1 inb] l(2) ab fin few(2) by auto
  show ?thesis by (rule that[OF 1 2 full_rd[OF l(1) inb 2 f1]])
qed

lemma copy_held_full:
  assumes "ok P {} s" "full s" "hold s b = Some k" "inrange s b" "wr k (put k d s) = Inr (n, s3)"
  shows "full s3"
proof -
  note 1 = put_law[OF assms(1,3), of d]
  have "inrange (put k d s) b" using 1 assms(4) inrange_frame by metis
  then show ?thesis
    using full_wr[of P "{b}" "put k d s" b k n s3] full_put[OF assms(1,3)] 1 assms by simp
qed

lemma release_pair_full:
  assumes "ok P {} s" "full s" "hold s a = Some h" "hold s b = Some k" "a \<noteq> b"
  shows "full (rel k (rel h s))" "full (rel h (rel k s))"
  using rel_law[OF assms(1,3)] rel_law[OF assms(1,4)] full_rel[OF assms(1,3)] full_rel[OF assms(1,4)] assms
    full_rel[of P "{}" "rel h s" b k] full_rel[of P "{}" "rel k s" a h] by auto

lemma rewrite_read_total:
  assumes "ok P {} s" "full s" "inrange s b" "hold s = Map.empty" "finite P" "b \<in> P \<or> card P < cap"
  obtains h s1 where "rd b s = Inr (h, s1)"
  using rd_total[OF assms(1-3)] assms(4-6) by auto

end

interpretation bc: block_cache_total cache_ok "\<lambda>s b. b \<noteq> 0 \<and> unat b < dev_nblk s" bread set_data bwrite brelse
  bpin bunpin buf_data view held dev_data dev_writes "\<lambda>s. (dev_nblk s, bcache.more s)" bc_full NCACHE_BUF
proof (unfold_locales, goal_cases)
  case (2 P X s b h)
  then show ?case by (rule held_handle(6))
next
  case (3 P X s b h s')
  then show ?case using bread_ok[of P X s b h s'] by auto
next
  case (5 P X s b h)
  then show ?case using bwrite_ok[of P X s b h] by (auto simp: dev_put_def)
next
  case (9 P X s b)
  then show ?case using bread_ok_returns[of P X s b] by auto
next
  case (10 P X s b h s')
  then show ?case using bread_ok[of P X s b h s'] by auto
next
  case (12 P X s b h n s')
  then show ?case using bwrite_ok[of P X s b h] by auto
qed (auto simp: set_data_ok brelse_ok bpin_ok bunpin_ok)

end
