(* ===== verification/Log.thy ===== *)
theory Log
  imports Buf_Cache
begin

text \<open>
  \<^verbatim>\<open>src/log.c\<close>: the write-ahead log. Its state is \<open>struct fslog\<close> with the in-memory copy of the
  header block, and \<open>n_log_wrote\<close>, the calling thread's count of logged writes. The mutex
  \<open>fslog.lock\<close> is not state: every function that takes it releases it before it returns or calls
  another one. Waiting on \<open>fslog.wakeup\<close> is \<open>Blocked\<close>: the thread stands still until another
  one signals; the theory of the threads' interleavings is \<open>Log_Threads\<close>.
\<close>

section \<open>State\<close>

definition NLOG :: nat where "NLOG = MAXOPBLOCKS * 8"

record fslog = bcache +
  lg_start :: uint
  lg_size :: int
  lg_outstanding :: int
  lg_committing :: bool
  lh_n :: int
  lh_block :: "nat \<Rightarrow> uint"
  n_log_wrote :: uint

text \<open>Block of the log area that holds the contents of the \<open>tail\<close>-th logged block.\<close>

definition log_slot :: "'a fslog_scheme \<Rightarrow> nat \<Rightarrow> uint" where
  "log_slot s tail = lg_start s + word_of_nat tail + 1"

section \<open>The header block\<close>

text \<open>\<open>struct fslogheader\<close> on the device: \<open>n\<close> at offset 0, \<open>block[i]\<close> at offset \<open>4 + 4 * i\<close>.\<close>

definition header_n :: "block \<Rightarrow> int" where
  "header_n d = sint (get32 d 0)"

definition header_block :: "block \<Rightarrow> nat \<Rightarrow> uint" where
  "header_block d i = get32 d (4 + 4 * i)"

definition read_log_header_from_disk :: "'a fslog_scheme \<Rightarrow> (unit \<times> 'a fslog_scheme) res" where
  "read_log_header_from_disk s =
    chain (bread (lg_start s) s) (\<lambda>(buf, s).
    let lh = buf_data s buf; s = s\<lparr>lh_n := header_n lh\<rparr> in
    chain (foreach [0..<nat (lh_n s)] (\<lambda>i s.
        if i \<ge> NLOG then Inl Bad_access
        else Inr ((), s\<lparr>lh_block := (lh_block s)(i := header_block lh i)\<rparr>)) s) (\<lambda>(_, s).
    Inr ((), brelse buf s)))"

definition write_log_header_to_disk :: "'a fslog_scheme \<Rightarrow> (unit \<times> 'a fslog_scheme) res" where
  "write_log_header_to_disk s =
    chain (bread (lg_start s) s) (\<lambda>(buf, s).
    let s = set_data buf (put32 (buf_data s buf) 0 (word_of_int (lh_n s))) s in
    chain (foreach [0..<nat (lh_n s)] (\<lambda>i s.
        Inr ((), set_data buf (put32 (buf_data s buf) (4 + 4 * i) (lh_block s i)) s)) s) (\<lambda>(_, s).
    chain (bwrite buf s) (\<lambda>(_, s).
    Inr ((), brelse buf s))))"

section \<open>Commit and recovery\<close>

definition install_step :: "bool \<Rightarrow> nat \<Rightarrow> 'a fslog_scheme \<Rightarrow> (unit \<times> 'a fslog_scheme) res" where
  "install_step recovering tail s =
    chain (bread (log_slot s tail) s) (\<lambda>(log_buf, s).
    chain (bread (lh_block s tail) s) (\<lambda>(dst_buf, s).
    let s = set_data dst_buf (buf_data s log_buf) s in
    chain (bwrite dst_buf s) (\<lambda>(_, s).
    let s = (if \<not> recovering then bunpin dst_buf s else s);
        s = brelse log_buf s;
        s = brelse dst_buf s
    in Inr ((), s))))"

definition install_transaction :: "bool \<Rightarrow> 'a fslog_scheme \<Rightarrow> (unit \<times> 'a fslog_scheme) res" where
  "install_transaction recovering s = foreach [0..<nat (lh_n s)] (install_step recovering) s"

definition log_copy_step :: "nat \<Rightarrow> 'a fslog_scheme \<Rightarrow> (unit \<times> 'a fslog_scheme) res" where
  "log_copy_step tail s =
    chain (bread (log_slot s tail) s) (\<lambda>(to, s).
    chain (bread (lh_block s tail) s) (\<lambda>(from, s).
    let s = set_data to (buf_data s from) s in
    chain (bwrite to s) (\<lambda>(_, s).
    Inr ((), brelse from (brelse to s)))))"

definition write_from_cache_to_log :: "'a fslog_scheme \<Rightarrow> (unit \<times> 'a fslog_scheme) res" where
  "write_from_cache_to_log s = foreach [0..<nat (lh_n s)] log_copy_step s"

definition commit :: "'a fslog_scheme \<Rightarrow> (unit \<times> 'a fslog_scheme) res" where
  "commit s =
    (if lh_n s > 0 then
       chain (write_from_cache_to_log s) (\<lambda>(_, s).
       chain (write_log_header_to_disk s) (\<lambda>(_, s).
       chain (install_transaction False s) (\<lambda>(_, s).
       write_log_header_to_disk (s\<lparr>lh_n := 0\<rparr>))))
     else Inr ((), s))"

definition recover_from_log :: "'a fslog_scheme \<Rightarrow> (unit \<times> 'a fslog_scheme) res" where
  "recover_from_log s =
    chain (read_log_header_from_disk s) (\<lambda>(_, s).
    chain (install_transaction True s) (\<lambda>(_, s).
    write_log_header_to_disk (s\<lparr>lh_n := 0\<rparr>)))"

text \<open>The size of \<open>struct fslogheader\<close> is \<open>4 + 4 * NLOG\<close> bytes.\<close>

definition log_init :: "superblock \<Rightarrow> 'a fslog_scheme \<Rightarrow> (unit \<times> 'a fslog_scheme) res" where
  "log_init sb s =
    (if 4 + 4 * NLOG > BSIZE then Inl (Err_exit ''log_init: too big logheader'')
     else recover_from_log (s\<lparr>lg_start := sb_logstart sb, lg_size := uint (sb_nlog sb)\<rparr>))"

section \<open>Operations\<close>

definition begin_op :: "'a fslog_scheme \<Rightarrow> (unit \<times> 'a fslog_scheme) res" where
  "begin_op s =
    (if lg_committing s then Inl Blocked
     else if lh_n s + (lg_outstanding s + 1) * int MAXOPBLOCKS > int NLOG then Inl Blocked
     else Inr ((), s\<lparr>lg_outstanding := lg_outstanding s + 1, n_log_wrote := 0\<rparr>))"

text \<open>
  \<open>end_op\<close> is two critical sections with the commit between them; the first one returns
  \<open>do_commit\<close>.
\<close>

definition end_op_enter :: "'a fslog_scheme \<Rightarrow> (bool \<times> 'a fslog_scheme) res" where
  "end_op_enter s =
    (let s = s\<lparr>lg_outstanding := lg_outstanding s - 1\<rparr> in
     if lg_committing s then Inl (Err_exit ''log.committing'')
     else if lg_outstanding s = 0 then Inr (True, s\<lparr>lg_committing := True\<rparr>)
     else Inr (False, s))"

definition end_op_leave :: "'a fslog_scheme \<Rightarrow> 'a fslog_scheme" where
  "end_op_leave s = s\<lparr>lg_committing := False\<rparr>"

definition end_op :: "'a fslog_scheme \<Rightarrow> (unit \<times> 'a fslog_scheme) res" where
  "end_op s =
    chain (end_op_enter s) (\<lambda>(do_commit, s).
    if do_commit then chain (commit s) (\<lambda>(_, s). Inr ((), end_op_leave s))
    else Inr ((), s))"

definition logged_write :: "nat \<Rightarrow> 'a fslog_scheme \<Rightarrow> (unit \<times> 'a fslog_scheme) res" where
  "logged_write b s =
    (if lh_n s \<ge> int NLOG \<or> lh_n s \<ge> lg_size s - 1 then Inl (Err_exit ''too big a transaction'')
     else if lg_outstanding s < 1 then Inl (Err_exit ''logged_write outside of transaction'')
     else
       let s = s\<lparr>n_log_wrote := n_log_wrote s + 1\<rparr>;
           blockno = bb_blockno (bc_buf s b);
           block_idx = (case find_from (\<lambda>i. lh_block s i = blockno) 0 (nat (lh_n s)) of
             Some i \<Rightarrow> i | None \<Rightarrow> nat (lh_n s));
           s = s\<lparr>lh_block := (lh_block s)(block_idx := blockno)\<rparr>
       in Inr ((), if int block_idx = lh_n s then (bpin b s)\<lparr>lh_n := lh_n s + 1\<rparr> else s))"

definition logged_read :: "uint \<Rightarrow> 'a fslog_scheme \<Rightarrow> (nat \<times> 'a fslog_scheme) res" where
  "logged_read blockno s = bread blockno s"

definition logged_relse :: "nat \<Rightarrow> 'a fslog_scheme \<Rightarrow> 'a fslog_scheme" where
  "logged_relse b s = brelse b s"

section \<open>Layout of the log area\<close>

definition geom :: "'a fslog_scheme \<Rightarrow> bool" where
  "geom s \<longleftrightarrow> lg_start s \<noteq> 0 \<and> 1 \<le> lg_size s \<and> lg_size s \<le> int NLOG \<and>
    unat (lg_start s) + nat (lg_size s) \<le> dev_nblk s \<and> dev_nblk s < 2 ^ 32"

text \<open>The blocks the layers above may log: anything but the boot block and the log itself.\<close>

definition data_block :: "'a fslog_scheme \<Rightarrow> uint \<Rightarrow> bool" where
  "data_block s b \<longleftrightarrow> b \<noteq> 0 \<and> unat b < dev_nblk s \<and>
    \<not> (unat (lg_start s) \<le> unat b \<and> unat b < unat (lg_start s) + nat (lg_size s))"

definition logged :: "'a fslog_scheme \<Rightarrow> uint list" where
  "logged s = map (lh_block s) [0..<nat (lh_n s)]"

text \<open>The blocks in the log are pinned, and the log has room for them.\<close>

definition log_inv :: "uint set \<Rightarrow> 'a fslog_scheme \<Rightarrow> bool" where
  "log_inv X s \<longleftrightarrow> cache_ok (set (logged s)) X s \<and> geom s \<and> 0 \<le> lh_n s \<and> lh_n s \<le> lg_size s - 1 \<and>
    distinct (logged s) \<and> (\<forall>b\<in>set (logged s). data_block s b)"

lemma log_fields_more:
  assumes "bcache.more s' = bcache.more s"
  shows "lg_start s' = lg_start s" "lg_size s' = lg_size s" "lg_outstanding s' = lg_outstanding s"
    "lg_committing s' = lg_committing s" "lh_n s' = lh_n s" "lh_block s' = lh_block s"
    "n_log_wrote s' = n_log_wrote s" "fslog.more s' = fslog.more s"
  using assms by (cases s; cases s'; simp)+

lemma log_slot_more:
  assumes "bcache.more s' = bcache.more s"
  shows "log_slot s' k = log_slot s k"
  by (simp add: log_slot_def log_fields_more[OF assms])

lemma logged_more:
  assumes "bcache.more s' = bcache.more s"
  shows "logged s' = logged s"
  by (simp add: logged_def log_fields_more[OF assms])

lemma geom_more:
  assumes "bcache.more s' = bcache.more s" "dev_nblk s' = dev_nblk s"
  shows "geom s' = geom s"
  using assms(2) by (simp add: geom_def log_fields_more[OF assms(1)])

lemma data_block_more:
  assumes "bcache.more s' = bcache.more s" "dev_nblk s' = dev_nblk s"
  shows "data_block s' b = data_block s b"
  using assms(2) by (simp add: data_block_def log_fields_more[OF assms(1)])

lemma unat_log_slot:
  assumes "geom s" "int k < lg_size s - 1"
  shows "unat (log_slot s k) = unat (lg_start s) + k + 1"
proof -
  have "k + 1 < nat (lg_size s)" using assms(2) by linarith
  then have lt: "unat (lg_start s) + k + 1 < 2 ^ 32"
    using assms(1) unfolding geom_def by linarith
  have "log_slot s k = word_of_nat (unat (lg_start s) + k + 1)"
    by (simp add: log_slot_def)
  then have "unat (log_slot s k) = take_bit 32 (unat (lg_start s) + k + 1)"
    by (simp only: unsigned_of_nat) simp
  then show ?thesis using lt by (simp add: take_bit_nat_eq_self)
qed

lemma log_slot_range:
  assumes "geom s" "int k < lg_size s - 1"
  shows "log_slot s k \<noteq> 0" "unat (log_slot s k) < dev_nblk s" "log_slot s k \<noteq> lg_start s"
    "\<not> data_block s (log_slot s k)"
proof -
  note u = unat_log_slot[OF assms]
  have k: "k + 1 < nat (lg_size s)" using assms(2) by linarith
  show "log_slot s k \<noteq> 0" using u by auto
  show "unat (log_slot s k) < dev_nblk s" using u k assms(1) unfolding geom_def by linarith
  show "log_slot s k \<noteq> lg_start s" using u by auto
  show "\<not> data_block s (log_slot s k)" using u k unfolding data_block_def by linarith
qed

lemma log_slot_inj:
  assumes "geom s" "int j < lg_size s - 1" "int k < lg_size s - 1" "log_slot s j = log_slot s k"
  shows "j = k"
  using unat_log_slot[OF assms(1,2)] unat_log_slot[OF assms(1,3)] unfolding assms(4) by linarith

lemma lg_start_range:
  assumes "geom s"
  shows "lg_start s \<noteq> 0" "unat (lg_start s) < dev_nblk s" "\<not> data_block s (lg_start s)"
proof -
  have "0 < nat (lg_size s)" using assms by (simp add: geom_def)
  then show "lg_start s \<noteq> 0" "unat (lg_start s) < dev_nblk s" "\<not> data_block s (lg_start s)"
    using assms by (auto simp: geom_def data_block_def)
qed

section \<open>Writing the header\<close>

definition header_image :: "int \<Rightarrow> (nat \<Rightarrow> uint) \<Rightarrow> block \<Rightarrow> block" where
  "header_image n blk d = fold (\<lambda>i d. put32 d (4 + 4 * i) (blk i)) [0..<nat n] (put32 d 0 (word_of_int n))"

lemma header_image_other:
  "off + 4 \<le> 4 \<or> 4 + 4 * m \<le> off \<Longrightarrow>
    get32 (fold (\<lambda>i d. put32 d (4 + 4 * i) (blk i)) [0..<m] d) off = get32 d off"
  by (induction m) (auto simp: get_put_le_other)

lemma header_image_n:
  assumes "0 \<le> n" "n \<le> int NLOG"
  shows "header_n (header_image n blk d) = n"
proof -
  have "get32 (header_image n blk d) 0 = word_of_int n"
    by (simp add: header_image_def header_image_other)
  moreover have "sint (word_of_int n :: uint) = n"
    using assms by (simp add: sint_sbintrunc' signed_take_bit_int_eq_self NLOG_def MAXOPBLOCKS_def)
  ultimately show ?thesis by (simp add: header_n_def)
qed

lemma header_image_block:
  "i < nat n \<Longrightarrow> header_block (header_image n blk d) i = blk i"
proof -
  have "i < m \<Longrightarrow> get32 (fold (\<lambda>i d. put32 d (4 + 4 * i) (blk i)) [0..<m] d) (4 + 4 * i) = blk i" for m d
  proof (induction m)
    case (Suc m)
    then show ?case
      by (cases "i = m") (auto simp: get_put_le_other)
  qed simp
  then show "i < nat n \<Longrightarrow> ?thesis" by (simp add: header_block_def header_image_def)
qed

lemma buf_data_set_data [simp]: "buf_data (set_data b d s) b = d"
  by (simp add: buf_data_def set_data_def)

lemma set_data_set_data [simp]: "set_data b d (set_data b d' s) = set_data b d s"
  by (simp add: set_data_def upd_buf_def)

lemma set_data_id [simp]: "set_data b (buf_data s b) s = s"
  by (simp add: set_data_def upd_buf_def buf_data_def)

lemma header_loop:
  "foreach xs (\<lambda>i s. Inr ((), set_data buf (put32 (buf_data s buf) (4 + 4 * i) (lh_block s i)) s)) s =
    Inr ((), set_data buf (fold (\<lambda>i d. put32 d (4 + 4 * i) (lh_block s i)) xs (buf_data s buf)) s)"
proof (induction xs arbitrary: s)
  case (Cons x xs)
  have "lh_block (set_data buf d s) = lh_block s" for d
    by (rule log_fields_more(6)) simp
  then show ?case using Cons by simp
qed simp

text \<open>The cache between two steps of the log: nothing locked, nothing modified.\<close>

definition idle :: "uint set \<Rightarrow> 'a bcache_scheme \<Rightarrow> bool" where
  "idle P s \<longleftrightarrow> cache_ok P {} s \<and> bc_full s \<and> held s = Map.empty"

text \<open>A step of the log that does the writes \<open>ws\<close>, seen by the readers as \<open>vs\<close>.\<close>

definition wrote :: "'a bcache_scheme \<Rightarrow> (uint \<times> block) list \<Rightarrow> 'a bcache_scheme \<Rightarrow> bool" where
  "wrote s ws s' \<longleftrightarrow> view s' = apply_writes (view s) ws \<and> dev_data s' = apply_writes (dev_data s) ws \<and>
    dev_writes s' = dev_writes s @ ws \<and> dev_nblk s' = dev_nblk s \<and> bcache.more s' = bcache.more s"

lemma wrote_Nil: "wrote s [] s"
  by (simp add: wrote_def)

lemma wrote_trans: "wrote s ws s' \<Longrightarrow> wrote s' ws' s'' \<Longrightarrow> wrote s (ws @ ws') s''"
  by (simp add: wrote_def apply_writes_append)

lemma write_header_spec:
  fixes s :: "'a fslog_scheme"
  assumes idle: "idle P s" and geom: "geom s" and P: "finite P" "card P < NCACHE_BUF"
  defines "d \<equiv> header_image (lh_n s) (lh_block s) (view s (lg_start s))"
  shows "returns (write_log_header_to_disk s) (\<lambda>(_, s'). idle P s' \<and> wrote s [(lg_start s, d)] s')"
proof -
  have ok: "cache_ok P {} s" "bc_full s" "held s = Map.empty" using idle by (auto simp: idle_def)
  have inr: "lg_start s \<noteq> 0 \<and> unat (lg_start s) < dev_nblk s" using lg_start_range[OF geom] by blast
  obtain h s1 where rd: "bread (lg_start s) s = Inr (h, s1)"
    by (rule bc.rewrite_read_total[OF ok(1,2) inr ok(3) P(1)]) (use P in auto)
  have 1: "cache_ok P {} s1" "held s1 = [lg_start s \<mapsto> h]" "bcache.more s1 = bcache.more s" "view s1 = view s"
    "bc_full s1" "dev_nblk s1 = dev_nblk s"
    using bc.rd_law[OF ok(1) inr rd] bc.full_rd[OF ok(1) inr rd ok(2)] ok(3) by auto
  have dat: "buf_data s1 h = view s (lg_start s)"
    using bc.held_data[OF 1(1), of "lg_start s" h] 1 by simp
  have sd: "bcache.more (set_data h d' s1) = bcache.more s" for d' using 1(3) by simp
  obtain n s2 where w: "bwrite h (set_data h d s1) = Inr (n, s2)" and 2: "cache_ok P {} (brelse h s2)"
    "view (brelse h s2) = (view s)(lg_start s := d)" "held (brelse h s2) = held s"
    "dev_data (brelse h s2) = (dev_data s)(lg_start s := d)" "dev_writes (brelse h s2) = dev_writes s @ [(lg_start s, d)]"
    "(dev_nblk (brelse h s2), bcache.more (brelse h s2)) = (dev_nblk s, bcache.more s)"
    by (rule bc.rewrite_block[OF ok(1) inr rd])
  have sh: "held (set_data h d s1) (lg_start s) = Some h" "cache_ok P {lg_start s} (set_data h d s1)"
      "bc_full (set_data h d s1)"
    using set_data_ok[OF 1(1), of "lg_start s" h d] 1 by auto
  have inr2: "lg_start s \<noteq> 0 \<and> unat (lg_start s) < dev_nblk (set_data h d s1)" using inr 1 by simp
  have "bc_full s2" using bc.full_wr[OF sh(2,1) inr2 w] sh(3) by simp
  moreover have "cache_ok P {} s2" "held s2 (lg_start s) = Some h"
    using bc.wr_law[OF sh(2,1) inr2] w sh(1) by auto
  ultimately have full: "bc_full (brelse h s2)" using bc.full_rel[of P "{}" s2 "lg_start s" h] by simp
  have "write_log_header_to_disk s = Inr ((), brelse h s2)"
    unfolding write_log_header_to_disk_def rd chain_Inr prod.case Let_def header_loop
    using w dat by (simp add: log_fields_more[OF sd] header_image_def[symmetric] d_def log_fields_more[OF 1(3)])
  then show ?thesis
    using 2 full ok(3) by (simp add: idle_def wrote_def)
qed

section \<open>Copying between the log area and the blocks\<close>

lemma log_copy_step_spec:
  fixes s :: "'a fslog_scheme"
  assumes idle: "idle P s" and geom: "geom s" and k: "int k < lg_size s - 1"
    and b: "lh_block s k \<in> P" "data_block s (lh_block s k)" and P: "finite P" "card P < NCACHE_BUF"
  shows "returns (log_copy_step k s) (\<lambda>(_, s'). idle P s' \<and> wrote s [(log_slot s k, view s (lh_block s k))] s')"
proof -
  let ?a = "log_slot s k" and ?b = "lh_block s k"
  have ok: "cache_ok P {} s" "bc_full s" "held s = Map.empty" using idle by (auto simp: idle_def)
  note slot = log_slot_range[OF geom k]
  have ra: "?a \<noteq> 0 \<and> unat ?a < dev_nblk s" and rb: "?b \<noteq> 0 \<and> unat ?b < dev_nblk s"
    using slot b(2) by (auto simp: data_block_def)
  have ab: "?a \<noteq> ?b" using slot(4) b(2) by auto
  obtain h s1 c s2 where rds: "bread ?a s = Inr (h, s1)" "bread ?b s1 = Inr (c, s2)" and full: "bc_full s2"
    by (rule bc.read_pair_total[OF ok(1,2) ra rb ab ok(3) P(1)]) (use b(1) P(2) in auto)
  note 2 = bc.read_pair[OF ok(1) ra rb ab rds]
  have held2: "held s2 ?a = Some h" "held s2 ?b = Some c" using 2(3) ab ok(3) by simp_all
  have ra2: "?a \<noteq> 0 \<and> unat ?a < dev_nblk s2" using ra 2(8) by simp
  obtain n s3 where w: "bwrite h (set_data h (buf_data s2 c) s2) = Inr (n, s3)" and 3: "cache_ok P {} s3"
    "view s3 = (view s2)(?a := view s2 ?b)" "held s3 = held s2" "dev_data s3 = (dev_data s2)(?a := view s2 ?b)"
    "dev_writes s3 = dev_writes s2 @ [(?a, view s2 ?b)]" "(dev_nblk s3, bcache.more s3) = (dev_nblk s2, bcache.more s2)"
    by (rule bc.copy_held[OF 2(1) held2(2,1) ra2])
  have "bc_full s3" by (rule bc.copy_held_full[OF 2(1) full held2(1) ra2 w])
  then have full3: "bc_full (brelse c (brelse h s3))"
    using bc.release_pair_full(1)[OF 3(1), of ?a h ?b c] 3(3) held2 ab by simp
  have none: "Map.empty ?a = (None :: nat option)" "Map.empty ?b = (None :: nat option)" by simp_all
  have h3: "held s3 = Map.empty(?a \<mapsto> h, ?b \<mapsto> c)" using 3(3) 2(3) ok(3) by simp
  note 4 = bc.release_pair[OF 3(1) h3 ab none]
  have m1: "bcache.more s1 = bcache.more s" using bc.rd_law[OF ok(1) ra rds(1)] by simp
  have "log_copy_step k s = Inr ((), brelse c (brelse h s3))"
    unfolding log_copy_step_def rds(1) chain_Inr prod.case log_fields_more(6)[OF m1] rds(2) Let_def w ..
  then show ?thesis
    using 2 3 4 full3 ok(3) by (simp add: idle_def wrote_def)
qed

lemma install_step_spec:
  fixes s :: "'a fslog_scheme"
  assumes idle: "idle P s" and geom: "geom s" and k: "int k < lg_size s - 1"
    and b: "data_block s (lh_block s k)" and P: "finite P" "card P + 1 < NCACHE_BUF \<or> lh_block s k \<in> P \<and> card P < NCACHE_BUF"
    and pinned: "recovering \<or> lh_block s k \<in> P"
  shows "returns (install_step recovering k s) (\<lambda>(_, s').
    idle (if recovering then P else P - {lh_block s k}) s' \<and> wrote s [(lh_block s k, view s (log_slot s k))] s')"
proof -
  let ?a = "log_slot s k" and ?b = "lh_block s k" and ?P = "if recovering then P else P - {lh_block s k}"
  have ok: "cache_ok P {} s" "bc_full s" "held s = Map.empty" using idle by (auto simp: idle_def)
  note slot = log_slot_range[OF geom k]
  have ra: "?a \<noteq> 0 \<and> unat ?a < dev_nblk s" and rb: "?b \<noteq> 0 \<and> unat ?b < dev_nblk s"
    using slot b by (auto simp: data_block_def)
  have ab: "?a \<noteq> ?b" using slot(4) b by auto
  obtain h s1 c s2 where rds: "bread ?a s = Inr (h, s1)" "bread ?b s1 = Inr (c, s2)" and full: "bc_full s2"
    by (rule bc.read_pair_total[OF ok(1,2) ra rb ab ok(3) P(1)]) (use P(2) in auto)
  note 2 = bc.read_pair[OF ok(1) ra rb ab rds]
  have held2: "held s2 ?a = Some h" "held s2 ?b = Some c" using 2(3) ab ok(3) by simp_all
  have rb2: "?b \<noteq> 0 \<and> unat ?b < dev_nblk s2" using rb 2(8) by simp
  obtain n s3 where w: "bwrite c (set_data c (buf_data s2 h) s2) = Inr (n, s3)" and 3: "cache_ok P {} s3"
    "view s3 = (view s2)(?b := view s2 ?a)" "held s3 = held s2" "dev_data s3 = (dev_data s2)(?b := view s2 ?a)"
    "dev_writes s3 = dev_writes s2 @ [(?b, view s2 ?a)]" "(dev_nblk s3, bcache.more s3) = (dev_nblk s2, bcache.more s2)"
    by (rule bc.copy_held[OF 2(1) held2(1,2) rb2])
  have full3: "bc_full s3" by (rule bc.copy_held_full[OF 2(1) full held2(2) rb2 w])
  let ?s4 = "if \<not> recovering then bunpin c s3 else s3"
  have 4: "cache_ok ?P {} ?s4" "view ?s4 = view s3" "held ?s4 = held s3" "dev_data ?s4 = dev_data s3"
    "dev_writes ?s4 = dev_writes s3" "(dev_nblk ?s4, bcache.more ?s4) = (dev_nblk s3, bcache.more s3)" "bc_full ?s4"
    using bc.unpin_law[OF 3(1), of ?b c] bc.full_unpin[OF 3(1), of ?b c] 3 held2 pinned full3 by auto
  have full4: "bc_full (brelse c (brelse h ?s4))"
    using bc.release_pair_full(1)[OF 4(1,7), of ?a h ?b c] 3(3) 4(3) held2 ab by simp
  have none: "Map.empty ?a = (None :: nat option)" "Map.empty ?b = (None :: nat option)" by simp_all
  have h4: "held ?s4 = Map.empty(?a \<mapsto> h, ?b \<mapsto> c)" using 4(3) 3(3) 2(3) ok(3) by simp
  note 5 = bc.release_pair[OF 4(1) h4 ab none]
  have m1: "bcache.more s1 = bcache.more s" using bc.rd_law[OF ok(1) ra rds(1)] by simp
  have "install_step recovering k s = Inr ((), brelse c (brelse h ?s4))"
    unfolding install_step_def rds(1) chain_Inr prod.case log_fields_more(6)[OF m1] rds(2) Let_def w ..
  then show ?thesis
    using 2 3 4 5 full4 ok(3) by (simp add: idle_def wrote_def)
qed

text \<open>The cache does not look at the fields of the layers above it.\<close>

lemma cache_base_cong:
  assumes "bc_buf s' = bc_buf s" "bc_hash s' = bc_hash s" "dev_data s' = dev_data s" "disk_lock s' = disk_lock s"
  shows "view s' = view s" "held s' = held s" "cache_ok P X s' = cache_ok P X s" "bc_full s' = bc_full s"
    "idle P s' = idle P s"
proof -
  have l: "linked s' i = linked s i" for i by (simp add: linked_def assms)
  have c: "cached s' b = cached s b" for b by (simp add: cached_def assms)
  show v: "view s' = view s" by (simp add: fun_eq_iff view_def c assms split: option.splits)
  show h: "held s' = held s" by (simp add: fun_eq_iff held_def c assms split: option.splits)
  show k: "cache_ok Q Y s' = cache_ok Q Y s" for Q Y
    by (simp add: cache_ok_def bc_inv_def bc_wf_def bc_clean_def l h assms)
  show f: "bc_full s' = bc_full s" by (simp add: bc_full_def l)
  show "idle P s' = idle P s" by (simp add: idle_def k f h)
qed

lemma cache_lh_n [simp]:
  "view (s\<lparr>lh_n := n\<rparr>) = view s" "held (s\<lparr>lh_n := n\<rparr>) = held s" "idle P (s\<lparr>lh_n := n\<rparr>) = idle P s"
  by (rule cache_base_cong; simp)+

lemma geom_lh_n [simp]:
  "geom (s\<lparr>lh_n := n\<rparr>) = geom s" "log_slot (s\<lparr>lh_n := n\<rparr>) k = log_slot s k"
  "data_block (s\<lparr>lh_n := n\<rparr>) b = data_block s b"
  by (simp_all add: geom_def log_slot_def data_block_def)

lemma logged_few:
  assumes "geom s" "lh_n s \<le> lg_size s - 1"
  shows "nat (lh_n s) < NCACHE_BUF" "length (logged s) < NCACHE_BUF"
proof -
  have "lh_n s < 1016" using assms by (simp add: geom_def NLOG_def MAXOPBLOCKS_def)
  then have "nat (lh_n s) < 1016" by linarith
  then show "nat (lh_n s) < NCACHE_BUF" "length (logged s) < NCACHE_BUF"
    by (simp_all add: logged_def NCACHE_BUF_def MAXOPBLOCKS_def)
qed

definition log_copies :: "'a fslog_scheme \<Rightarrow> nat \<Rightarrow> (uint \<times> block) list" where
  "log_copies s k = map (\<lambda>j. (log_slot s j, view s (lh_block s j))) [0..<k]"

definition installs :: "'a fslog_scheme \<Rightarrow> nat \<Rightarrow> (uint \<times> block) list" where
  "installs s k = map (\<lambda>j. (lh_block s j, view s (log_slot s j))) [0..<k]"

lemma write_from_cache_to_log_spec:
  fixes s :: "'a fslog_scheme"
  assumes idle: "idle (set (logged s)) s" and geom: "geom s" and n: "lh_n s \<le> lg_size s - 1"
    and data: "\<forall>b\<in>set (logged s). data_block s b"
  shows "returns (write_from_cache_to_log s)
    (\<lambda>(_, s'). idle (set (logged s)) s' \<and> wrote s (log_copies s (nat (lh_n s))) s')"
proof -
  let ?P = "set (logged s)"
  define I where "I k t \<longleftrightarrow> idle ?P t \<and> wrote s (log_copies s k) t" for k t
  have "length (logged s) < NCACHE_BUF" by (rule logged_few(2)[OF geom n])
  then have few: "card ?P < NCACHE_BUF" using card_length le_less_trans by blast
  have "returns (write_from_cache_to_log s) (\<lambda>(_, s'). I (nat (lh_n s)) s')"
    unfolding write_from_cache_to_log_def
  proof (rule foreach_upt_returns)
    show "I 0 s" using idle by (simp add: I_def log_copies_def wrote_Nil)
    fix k t assume k: "k < nat (lh_n s)" and I: "I k t"
    then have it: "idle ?P t" and w: "wrote s (log_copies s k) t" by (auto simp: I_def)
    then have more: "bcache.more t = bcache.more s" "dev_nblk t = dev_nblk s" by (auto simp: wrote_def)
    have b: "lh_block s k \<in> ?P" using k by (simp add: logged_def)
    have ksz: "int j < lg_size s - 1" if "j < nat (lh_n s)" for j using that n by linarith
    have "view t (lh_block s k) = view s (lh_block s k)"
    proof -
      have "lh_block s k \<noteq> log_slot s j" if "j < k" for j
        using log_slot_range(4)[OF geom ksz, of j] data b that k by auto
      then have "lh_block s k \<notin> fst ` set (log_copies s k)" by (fastforce simp: log_copies_def)
      then show ?thesis using w by (simp add: wrote_def apply_writes_other)
    qed
    moreover have "returns (log_copy_step k t) (\<lambda>(_, s'). idle ?P s' \<and> wrote t [(log_slot t k, view t (lh_block t k))] s')"
      using log_copy_step_spec[OF it, of k] geom ksz[OF k] b data few
      by (simp add: geom_more[OF more] data_block_more[OF more] log_fields_more[OF more(1)])
    ultimately show "returns (log_copy_step k t) (\<lambda>(u, s'). I (Suc k) s')"
      using w by (auto simp: I_def log_copies_def log_fields_more[OF more(1)] log_slot_more[OF more(1)]
          elim!: returns_mono dest: wrote_trans)
  qed simp
  then show ?thesis by (simp add: I_def)
qed

lemma install_transaction_spec:
  fixes s :: "'a fslog_scheme"
  assumes idle: "idle (if recovering then {} else set (logged s)) s" and geom: "geom s" and n: "lh_n s \<le> lg_size s - 1"
    and data: "\<forall>b\<in>set (logged s). data_block s b" and dist: "distinct (logged s)"
  shows "returns (install_transaction recovering s)
    (\<lambda>(_, s'). idle {} s' \<and> wrote s (installs s (nat (lh_n s))) s')"
proof -
  let ?P = "\<lambda>k. if recovering then {} else set (drop k (logged s))"
  define I where "I k t \<longleftrightarrow> idle (?P k) t \<and> wrote s (installs s k) t" for k t
  have len: "length (logged s) = nat (lh_n s)" by (simp add: logged_def)
  have "length (logged s) < NCACHE_BUF" by (rule logged_few(2)[OF geom n])
  then have few: "card (set (drop k (logged s))) < NCACHE_BUF" for k
    using card_length[of "drop k (logged s)"] by simp
  have "returns (install_transaction recovering s) (\<lambda>(_, s'). I (nat (lh_n s)) s')"
    unfolding install_transaction_def
  proof (rule foreach_upt_returns)
    show "I 0 s" using idle by (cases recovering) (simp_all add: I_def installs_def wrote_Nil)
    fix k t assume k: "k < nat (lh_n s)" and I: "I k t"
    then have it: "idle (?P k) t" and w: "wrote s (installs s k) t" by (auto simp: I_def)
    then have more: "bcache.more t = bcache.more s" "dev_nblk t = dev_nblk s" by (auto simp: wrote_def)
    have ksz: "int k < lg_size s - 1" using k n by linarith
    have nth: "logged s ! k = lh_block s k" "lh_block s k \<in> set (logged s)" using k by (simp_all add: logged_def)
    have drop: "drop k (logged s) = lh_block s k # drop (Suc k) (logged s)"
      using k len nth by (metis Cons_nth_drop_Suc)
    have "distinct (drop k (logged s))" using dist by (rule distinct_drop)
    then have P: "(if recovering then ?P k else ?P k - {lh_block s k}) = ?P (Suc k)"
      by (auto simp: drop)
    have "view t (log_slot s k) = view s (log_slot s k)"
    proof -
      have "log_slot s k \<noteq> lh_block s j" if "j < k" for j
        using log_slot_range(4)[OF geom ksz] data that k by (auto simp: logged_def)
      then have "log_slot s k \<notin> fst ` set (installs s k)" by (fastforce simp: installs_def)
      then show ?thesis using w by (simp add: wrote_def apply_writes_other)
    qed
    moreover have "returns (install_step recovering k t) (\<lambda>(_, s'). idle (?P (Suc k)) s' \<and>
        wrote t [(lh_block t k, view t (log_slot t k))] s')"
    proof -
      have "returns (install_step recovering k t) (\<lambda>(_, s').
          idle (if recovering then ?P k else ?P k - {lh_block t k}) s' \<and> wrote t [(lh_block t k, view t (log_slot t k))] s')"
      proof (rule install_step_spec[OF it])
        show "geom t" using geom by (simp add: geom_more[OF more])
        show "int k < lg_size t - 1" using ksz by (simp add: log_fields_more[OF more(1)])
        show "data_block t (lh_block t k)"
          using data nth(2) by (simp add: data_block_more[OF more] log_fields_more[OF more(1)])
        show "finite (?P k)" by simp
        show "card (?P k) + 1 < NCACHE_BUF \<or> lh_block t k \<in> ?P k \<and> card (?P k) < NCACHE_BUF"
          using few[of k] drop by (auto simp: log_fields_more[OF more(1)] NCACHE_BUF_def MAXOPBLOCKS_def)
        show "recovering \<or> lh_block t k \<in> ?P k"
          using drop by (auto simp: log_fields_more[OF more(1)])
      qed
      then show ?thesis unfolding log_fields_more(6)[OF more(1)] P .
    qed
    ultimately show "returns (install_step recovering k t) (\<lambda>(u, s'). I (Suc k) s')"
      using w by (auto simp: I_def installs_def log_fields_more[OF more(1)] log_slot_more[OF more(1)]
          elim!: returns_mono dest: wrote_trans)
  qed simp
  moreover have "?P (nat (lh_n s)) = {}" using len by (cases recovering) simp_all
  ultimately show ?thesis by (simp only: I_def)
qed

section \<open>Commit\<close>

definition committed_header :: "'a fslog_scheme \<Rightarrow> block" where
  "committed_header s = header_image (lh_n s) (lh_block s) (view s (lg_start s))"

text \<open>The blocks a commit writes, in order: the log area, the header, the blocks themselves, the header again.\<close>

definition commit_installs :: "'a fslog_scheme \<Rightarrow> (uint \<times> block) list" where
  "commit_installs s = map (\<lambda>j. (lh_block s j, view s (lh_block s j))) [0..<nat (lh_n s)]"

definition commit_writes :: "'a fslog_scheme \<Rightarrow> (uint \<times> block) list" where
  "commit_writes s =
    log_copies s (nat (lh_n s)) @ [(lg_start s, committed_header s)] @ commit_installs s @
    [(lg_start s, header_image 0 (lh_block s) (committed_header s))]"

lemma lh_n_more: "bcache.more s' = bcache.more s \<Longrightarrow> bcache.more (s'\<lparr>lh_n := n\<rparr>) = bcache.more (s\<lparr>lh_n := n\<rparr>)"
  by (cases s; cases s') simp

lemma wrote_lh_n: "wrote s ws s' \<Longrightarrow> wrote (s\<lparr>lh_n := n\<rparr>) ws (s'\<lparr>lh_n := n\<rparr>)"
  using lh_n_more[of s' s n] by (simp add: wrote_def)

lemma log_copies_slots:
  assumes "geom s" "lh_n s \<le> lg_size s - 1"
  shows "b \<in> fst ` set (log_copies s (nat (lh_n s))) \<Longrightarrow> b \<noteq> lg_start s \<and> \<not> data_block s b"
    and "j < nat (lh_n s) \<Longrightarrow> apply_writes f (log_copies s (nat (lh_n s))) (log_slot s j) = view s (lh_block s j)"
proof -
  have sz: "int j < lg_size s - 1" if "j < nat (lh_n s)" for j using that assms(2) by linarith
  show "b \<in> fst ` set (log_copies s (nat (lh_n s))) \<Longrightarrow> b \<noteq> lg_start s \<and> \<not> data_block s b"
    using log_slot_range(3,4)[OF assms(1) sz] by (auto simp: log_copies_def)
  show "apply_writes f (log_copies s (nat (lh_n s))) (log_slot s j) = view s (lh_block s j)" if "j < nat (lh_n s)"
    unfolding log_copies_def
    by (rule apply_writes_map_inj[OF that]) (use log_slot_inj[OF assms(1) sz sz] that in blast)
qed

lemma commit_spec:
  fixes s :: "'a fslog_scheme"
  assumes inv: "log_inv {} s" and full: "bc_full s" and free: "held s = Map.empty" and pos: "0 < lh_n s"
  shows "returns (commit s) (\<lambda>(_, s'). idle {} s' \<and> wrote (s\<lparr>lh_n := 0\<rparr>) (commit_writes s) s')"
proof -
  let ?n = "nat (lh_n s)" and ?b = "lg_start s" and ?P = "set (logged s)"
  have geom: "geom s" and n: "lh_n s \<le> lg_size s - 1" and dist: "distinct (logged s)"
    and data: "\<forall>b\<in>?P. data_block s b" and i0: "idle ?P s"
    using inv full free by (auto simp: log_inv_def idle_def)
  have sz: "int j < lg_size s - 1" if "j < ?n" for j using that n by linarith
  have few: "card ?P < NCACHE_BUF"
    using logged_few(2)[OF geom n] card_length le_less_trans by blast
  note slots = log_copies_slots[OF geom n]
  have start: "?b \<notin> fst ` set (log_copies s ?n)" using slots(1) by blast
  obtain s1 where c1: "write_from_cache_to_log s = Inr ((), s1)" and 1: "idle ?P s1" "wrote s (log_copies s ?n) s1"
    using write_from_cache_to_log_spec[OF i0 geom n data] by (auto elim!: returnsE)
  have m1: "bcache.more s1 = bcache.more s" "dev_nblk s1 = dev_nblk s" using 1 by (auto simp: wrote_def)
  have g1: "geom s1" using geom by (simp add: geom_more[OF m1])
  have h1: "header_image (lh_n s1) (lh_block s1) (view s1 (lg_start s1)) = committed_header s"
    using 1 start by (simp add: wrote_def committed_header_def log_fields_more[OF m1(1)] apply_writes_other)
  have lh1: "lg_start s1 = ?b" by (rule log_fields_more(1)[OF m1(1)])
  obtain s2 where c2: "write_log_header_to_disk s1 = Inr ((), s2)" and 2: "idle ?P s2" "wrote s1 [(?b, committed_header s)] s2"
    using write_header_spec[OF 1(1) g1 _ few] unfolding h1 unfolding lh1 by (auto elim!: returnsE)
  note w2 = wrote_trans[OF 1(2) 2(2)]
  have m2: "bcache.more s2 = bcache.more s" "dev_nblk s2 = dev_nblk s" using w2 by (auto simp: wrote_def)
  have inst: "installs s2 ?n = commit_installs s"
  proof -
    have "view s2 (log_slot s j) = view s (lh_block s j)" if "j < ?n" for j
      using w2 slots(2)[OF that] log_slot_range(3)[OF geom sz[OF that]]
      by (simp add: wrote_def apply_writes_append)
    then show ?thesis
      by (auto simp: installs_def commit_installs_def log_fields_more[OF m2(1)] log_slot_more[OF m2(1)])
  qed
  have "idle (if False then {} else set (logged s2)) s2" "geom s2" "lh_n s2 \<le> lg_size s2 - 1"
      "\<forall>b\<in>set (logged s2). data_block s2 b" "distinct (logged s2)"
    using 2(1) geom n data dist
    by (simp_all add: geom_more[OF m2] logged_more[OF m2(1)] data_block_more[OF m2] log_fields_more[OF m2(1)])
  from install_transaction_spec[OF this] obtain s3
    where c3: "install_transaction False s2 = Inr ((), s3)" and 3: "idle {} s3" "wrote s2 (commit_installs s) s3"
    unfolding log_fields_more[OF m2(1)] inst by (auto elim!: returnsE)
  note w3 = wrote_trans[OF w2 3(2)]
  have m3: "bcache.more s3 = bcache.more s" "dev_nblk s3 = dev_nblk s" using w3 by (auto simp: wrote_def)
  let ?s3 = "s3\<lparr>lh_n := 0\<rparr>"
  have "?b \<notin> fst ` set (commit_installs s)"
    using data lg_start_range(3)[OF geom] by (auto simp: commit_installs_def logged_def)
  then have h3: "header_image 0 (lh_block s3) (view s3 (lg_start s)) =
      header_image 0 (lh_block s) (committed_header s)"
    using w3 by (simp add: wrote_def log_fields_more[OF m3(1)] apply_writes_append apply_writes_other)
  have g3: "geom ?s3" "idle {} ?s3" "lg_start ?s3 = ?b"
    using geom 3(1) by (simp_all add: geom_more[OF m3] log_fields_more[OF m3(1)])
  have "returns (write_log_header_to_disk ?s3) (\<lambda>(_, s'). idle {} s' \<and>
      wrote ?s3 [(?b, header_image 0 (lh_block s) (committed_header s))] s')"
    using write_header_spec[OF g3(2,1)] by (simp add: log_fields_more[OF m3(1)] h3[unfolded log_fields_more[OF m3(1)]] NCACHE_BUF_def MAXOPBLOCKS_def)
  then obtain s4 where c4: "write_log_header_to_disk ?s3 = Inr ((), s4)"
    and 4: "idle {} s4" "wrote ?s3 [(?b, header_image 0 (lh_block s) (committed_header s))] s4"
    by (auto elim!: returnsE)
  have "wrote (s\<lparr>lh_n := 0\<rparr>) (commit_writes s) s4"
    using wrote_trans[OF wrote_lh_n[OF w3] 4(2)] by (simp add: commit_writes_def)
  moreover have "commit s = Inr ((), s4)"
    using pos c1 c2 c3 c4 by (simp add: commit_def)
  ultimately show ?thesis using 4(1) by simp
qed

text \<open>The contents after a commit: every logged block reached the device, nothing else a reader can see changed.\<close>

lemma commit_writes_data:
  assumes inv: "log_inv {} s" and b: "data_block s b"
  shows "apply_writes (view s) (commit_writes s) b = view s b"
    and "apply_writes (dev_data s) (commit_writes s) b = view s b"
proof -
  have geom: "geom s" and n: "lh_n s \<le> lg_size s - 1" and dist: "distinct (logged s)" and ok: "cache_ok (set (logged s)) {} s"
    using inv by (auto simp: log_inv_def)
  have slots: "b \<notin> fst ` set (log_copies s (nat (lh_n s)))" "b \<noteq> lg_start s"
    using log_copies_slots(1)[OF geom n] lg_start_range(3)[OF geom] b by auto
  have inst: "apply_writes f (commit_installs s) b = view s b" if "b \<notin> set (logged s) \<Longrightarrow> f b = view s b" for f
  proof (cases "b \<in> set (logged s)")
    case True
    then obtain i where i: "i < nat (lh_n s)" "b = lh_block s i" by (auto simp: logged_def)
    have "lh_block s j \<noteq> lh_block s i" if "j < nat (lh_n s)" "j \<noteq> i" for j
      using dist that i(1) by (auto simp: logged_def distinct_conv_nth)
    then show ?thesis unfolding i(2) commit_installs_def by (intro apply_writes_map_inj[OF i(1)]) auto
  next
    case False
    then have "b \<notin> fst ` set (commit_installs s)" by (auto simp: commit_installs_def logged_def)
    then show ?thesis using that[OF False] by (simp add: apply_writes_other)
  qed
  have dev: "dev_data s b = view s b" if "b \<notin> set (logged s)"
  proof (cases "cached s b")
    case None
    then show ?thesis using b by (simp add: view_def data_block_def)
  next
    case (Some i)
    then have "linked s i" "bb_blockno (bc_buf s i) = b" by (auto dest: cached_SomeD)
    then show ?thesis
      using Some b that cache_okD(8)[OF ok, of i] by (auto simp: view_def data_block_def)
  qed
  show "apply_writes (view s) (commit_writes s) b = view s b"
    unfolding commit_writes_def apply_writes_append
    using slots by (simp add: inst apply_writes_other)
  show "apply_writes (dev_data s) (commit_writes s) b = view s b"
    unfolding commit_writes_def apply_writes_append
    using slots dev by (simp add: inst apply_writes_other)
qed

section \<open>Recovery\<close>

text \<open>
  What the log area of a disk \<open>f\<close> says: the header names the blocks, the slots hold their
  contents. \<open>redo\<close> is the list of installs a recovery does, \<open>recovered\<close> the contents after them.
\<close>

definition header_ok :: "'a fslog_scheme \<Rightarrow> block \<Rightarrow> bool" where
  "header_ok s d \<longleftrightarrow> 0 \<le> header_n d \<and> header_n d \<le> lg_size s - 1 \<and>
    distinct (map (header_block d) [0..<nat (header_n d)]) \<and>
    (\<forall>i<nat (header_n d). data_block s (header_block d i))"

definition redo :: "'a fslog_scheme \<Rightarrow> (uint \<Rightarrow> block) \<Rightarrow> (uint \<times> block) list" where
  "redo s f = map (\<lambda>i. (header_block (f (lg_start s)) i, f (log_slot s i))) [0..<nat (header_n (f (lg_start s)))]"

definition recovered :: "'a fslog_scheme \<Rightarrow> (uint \<Rightarrow> block) \<Rightarrow> uint \<Rightarrow> block" where
  "recovered s f = apply_writes f (redo s f)"

definition recover_writes :: "'a fslog_scheme \<Rightarrow> (uint \<Rightarrow> block) \<Rightarrow> (uint \<times> block) list" where
  "recover_writes s f = redo s f @ [(lg_start s, header_image 0 (\<lambda>_. 0) (f (lg_start s)))]"

lemma header_image_0: "header_image 0 blk d = put32 d 0 0"
  by (simp add: header_image_def)

lemma apply_writes_absorb:
  assumes "fst ` set us \<subseteq> fst ` set ws"
  shows "apply_writes (apply_writes f us) ws = apply_writes f ws"
proof -
  have agree: "apply_writes g ws x = apply_writes h ws x" if "x \<in> fst ` set ws \<or> g x = h x" for g h :: "'a \<Rightarrow> 'b" and x ws
    using that
  proof (induction ws arbitrary: g h)
    case (Cons w ws)
    then show ?case by (cases w) auto
  qed simp
  show ?thesis
  proof
    fix x
    show "apply_writes (apply_writes f us) ws x = apply_writes f ws x"
      by (rule agree) (use assms apply_writes_other[of x us f] in blast)
  qed
qed

lemma redo_keys:
  assumes "header_ok s (f (lg_start s))" "b \<in> fst ` set (redo s f)"
  shows "data_block s b"
  using assms by (auto simp: redo_def header_ok_def)

text \<open>A part of the installs changes neither the header nor the slots, so it can be redone.\<close>

lemma redo_again:
  assumes geom: "geom s" and ok: "header_ok s (f (lg_start s))" and us: "set us \<subseteq> set (redo s f)"
  shows "redo s (apply_writes f us) = redo s f" "apply_writes f us (lg_start s) = f (lg_start s)"
    "recovered s (apply_writes f us) = recovered s f"
proof -
  have data: "data_block s b" if "b \<in> fst ` set us" for b
    using redo_keys[of s f b] ok that us by blast
  show start: "apply_writes f us (lg_start s) = f (lg_start s)"
    by (rule apply_writes_other) (use data lg_start_range(3)[OF geom] in blast)
  have "apply_writes f us (log_slot s i) = f (log_slot s i)" if "i < nat (header_n (f (lg_start s)))" for i
  proof (rule apply_writes_other)
    have "int i < lg_size s - 1" using that ok unfolding header_ok_def by linarith
    then show "log_slot s i \<notin> fst ` set us" using data log_slot_range(4)[OF geom] by blast
  qed
  then show redo: "redo s (apply_writes f us) = redo s f"
    by (simp add: redo_def start)
  show "recovered s (apply_writes f us) = recovered s f"
    unfolding recovered_def redo by (rule apply_writes_absorb) (use us in blast)
qed

text \<open>A disk with an empty header is its own recovery.\<close>

lemma recovered_empty: "header_n (f (lg_start s)) = 0 \<Longrightarrow> recovered s f = f"
  by (simp add: recovered_def redo_def)

lemma header_cleared: "header_n (put32 d 0 0) = 0"
  by (simp add: header_n_def)

lemma header_ok_empty: "geom s \<Longrightarrow> header_n d = 0 \<Longrightarrow> header_ok s d"
  by (simp add: header_ok_def geom_def)

text \<open>A recovery cut short anywhere leaves a disk with the same recovered contents.\<close>

lemma recover_prefix:
  assumes geom: "geom s" and ok: "header_ok s (f (lg_start s))"
  defines "f' k \<equiv> apply_writes f (take k (recover_writes s f))"
  shows "header_ok s (f' k (lg_start s))" "b \<noteq> lg_start s \<Longrightarrow> recovered s (f' k) b = recovered s f b"
    "length (redo s f) < k \<Longrightarrow> header_n (f' k (lg_start s)) = 0"
proof -
  let ?h = "f (lg_start s)"
  have "(header_ok s (f' k (lg_start s)) \<and> (b \<noteq> lg_start s \<longrightarrow> recovered s (f' k) b = recovered s f b)) \<and>
      (length (redo s f) < k \<longrightarrow> header_n (f' k (lg_start s)) = 0)"
  proof (cases "k \<le> length (redo s f)")
    case True
    then have f': "f' k = apply_writes f (take k (redo s f))" by (simp add: f'_def recover_writes_def)
    show ?thesis using redo_again[of s f "take k (redo s f)"] geom True ok
      by (simp add: f' set_take_subset)
  next
    case False
    then have f': "f' k = (apply_writes f (redo s f))(lg_start s := put32 ?h 0 0)"
      by (simp add: f'_def recover_writes_def header_image_0)
    then have "header_n (f' k (lg_start s)) = 0" by (simp add: header_cleared)
    then show ?thesis
      using header_ok_empty[OF geom] recovered_empty[of "f' k" s] by (simp add: f' recovered_def)
  qed
  then show "header_ok s (f' k (lg_start s))" "b \<noteq> lg_start s \<Longrightarrow> recovered s (f' k) b = recovered s f b"
    "length (redo s f) < k \<Longrightarrow> header_n (f' k (lg_start s)) = 0"
    by blast+
qed

text \<open>
  The contents recovered after a crash in the middle of a commit: the old ones until the header
  is on the device, the new ones from then on.
\<close>

lemma commit_prefix:
  fixes s :: "'a fslog_scheme"
  assumes inv: "log_inv {} s" and old: "header_n (dev_data s (lg_start s)) = 0" and b: "data_block s b"
  defines "f k \<equiv> apply_writes (dev_data s) (take k (commit_writes s))"
  shows "header_ok s (f k (lg_start s)) \<and>
    recovered s (f k) b = (if k \<le> nat (lh_n s) then dev_data s b else view s b)"
proof -
  let ?n = "nat (lh_n s)" and ?l = "lg_start s" and ?h = "committed_header s"
  have geom: "geom s" and n: "0 \<le> lh_n s" "lh_n s \<le> lg_size s - 1" and dist: "distinct (logged s)"
    and data: "\<forall>b\<in>set (logged s). data_block s b" using inv by (auto simp: log_inv_def)
  note slots = log_copies_slots[OF geom n(2)]
  have len: "length (log_copies s ?n) = ?n" "length (commit_installs s) = ?n"
    by (simp_all add: log_copies_def commit_installs_def)
  have bl: "b \<noteq> ?l" using b lg_start_range(3)[OF geom] by blast
  show ?thesis
  proof (cases "k \<le> ?n")
    case True
    then have f: "f k = apply_writes (dev_data s) (take k (log_copies s ?n))"
      by (simp add: f_def commit_writes_def len)
    have other: "f k x = dev_data s x" if "x = ?l \<or> data_block s x" for x
      unfolding f by (rule apply_writes_other) (use slots(1) that set_take_subset in fastforce)
    then have "header_n (f k ?l) = 0" using old by simp
    then show ?thesis
      using True header_ok_empty[OF geom] recovered_empty[of "f k" s] other b by simp
  next
    case False
    define g where "g = (apply_writes (dev_data s) (log_copies s ?n))(?l := ?h)"
    have gl: "g ?l = ?h" by (simp add: g_def)
    have "lh_n s \<le> int NLOG" using n(2) geom by (simp add: geom_def)
    then have hn: "header_n ?h = lh_n s" and hb: "\<And>i. i < ?n \<Longrightarrow> header_block ?h i = lh_block s i"
      using n(1) by (simp_all add: committed_header_def header_image_n header_image_block)
    then have map_hb: "map (header_block ?h) [0..<?n] = logged s" by (simp add: logged_def)
    have ok: "header_ok s (g ?l)"
      using n dist data by (simp add: gl header_ok_def hn hb map_hb) (simp add: logged_def)
    have gs: "g (log_slot s i) = view s (lh_block s i)" if "i < ?n" for i
      using slots(2)[OF that] log_slot_range(3)[OF geom, of i] that n(2) by (simp add: g_def)
    have redo: "redo s g = commit_installs s"
      unfolding redo_def commit_installs_def gl hn by (simp add: hb gs)
    have full: "commit_writes s = (log_copies s ?n @ [(?l, ?h)]) @ recover_writes s g"
      by (simp add: commit_writes_def recover_writes_def redo gl header_image_0)
    from False obtain j where j: "k = Suc ?n + j" using le_Suc_ex[of "Suc ?n" k] by auto
    have f: "f k = apply_writes g (take j (recover_writes s g))"
      unfolding f_def full by (simp add: j len g_def apply_writes_append)
    have "recovered s g b = apply_writes (dev_data s) (commit_writes s) b"
      unfolding full by (simp add: recovered_def recover_writes_def apply_writes_append g_def bl)
    then show ?thesis
      using recover_prefix(1)[where s = s and f = g and k = j]
        recover_prefix(2)[where s = s and f = g and k = j and b = b] geom ok bl commit_writes_data(2)[OF inv b] False by (simp add: f)
  qed
qed

lemma fill_lh_block:
  fixes s :: "'a fslog_scheme"
  assumes "\<And>i s. i < m \<Longrightarrow> body i s = Inr ((), (s :: 'a fslog_scheme)\<lparr>lh_block := (lh_block s)(i := g i)\<rparr>)"
  shows "foreach [0..<m] body s = Inr ((), s\<lparr>lh_block := (\<lambda>i. if i < m then g i else lh_block s i)\<rparr>)"
  using assms
proof (induction m)
  case (Suc m)
  have "foreach [0..<m] body s = Inr ((), s\<lparr>lh_block := (\<lambda>i. if i < m then g i else lh_block s i)\<rparr>)"
    using Suc.IH Suc.prems by simp
  moreover have "(\<lambda>i. if i < m then g i else lh_block s i)(m := g m) = (\<lambda>i. if i < Suc m then g i else lh_block s i)"
    by (auto simp: less_Suc_eq)
  ultimately show ?case using Suc.prems[of m] by (simp add: foreach_append del: fun_upd_apply)
qed simp

lemma read_header_loop:
  fixes s :: "'a fslog_scheme"
  assumes "m \<le> NLOG"
  shows "foreach [0..<m] (\<lambda>i s. if i \<ge> NLOG then Inl Bad_access
        else Inr ((), s\<lparr>lh_block := (lh_block s)(i := header_block lh i)\<rparr>)) s =
    Inr ((), s\<lparr>lh_block := (\<lambda>i. if i < m then header_block lh i else lh_block s i)\<rparr>)"
  by (rule fill_lh_block) (use assms in simp)

text \<open>The fields of the log that reading and installing leave alone.\<close>

definition log_rest :: "'a fslog_scheme \<Rightarrow> uint \<times> int \<times> int \<times> bool \<times> uint \<times> 'a" where
  "log_rest s = (lg_start s, lg_size s, lg_outstanding s, lg_committing s, n_log_wrote s, fslog.more s)"

lemma log_rest_more: "bcache.more s' = bcache.more s \<Longrightarrow> log_rest s' = log_rest s"
  by (simp add: log_rest_def log_fields_more[of s' s])

lemma geom_rest:
  "log_rest s' = log_rest s \<Longrightarrow> dev_nblk s' = dev_nblk s \<Longrightarrow> geom s' = geom s"
  "log_rest s' = log_rest s \<Longrightarrow> log_slot s' k = log_slot s k"
  "log_rest s' = log_rest s \<Longrightarrow> dev_nblk s' = dev_nblk s \<Longrightarrow> data_block s' b = data_block s b"
  by (simp_all add: log_rest_def geom_def log_slot_def data_block_def)

lemma cache_lh [simp]:
  "view (s\<lparr>lh_n := n, lh_block := blk\<rparr>) = view s" "held (s\<lparr>lh_n := n, lh_block := blk\<rparr>) = held s"
  "cache_ok P X (s\<lparr>lh_n := n, lh_block := blk\<rparr>) = cache_ok P X s"
  "bc_full (s\<lparr>lh_n := n, lh_block := blk\<rparr>) = bc_full s"
  by (rule cache_base_cong; simp)+

lemma read_header_spec:
  fixes s :: "'a fslog_scheme"
  assumes idle: "idle {} s" and geom: "geom s" and ok: "header_ok s (view s (lg_start s))"
  shows "returns (read_log_header_from_disk s) (\<lambda>(_, s'). idle {} s' \<and> view s' = view s \<and>
    (dev_data s', dev_writes s', dev_nblk s') = (dev_data s, dev_writes s, dev_nblk s) \<and> log_rest s' = log_rest s \<and>
    lh_n s' = header_n (view s (lg_start s)) \<and>
    (\<forall>i<nat (lh_n s'). lh_block s' i = header_block (view s (lg_start s)) i))"
proof -
  let ?d = "view s (lg_start s)"
  have c: "cache_ok {} {} s" "bc_full s" "held s = Map.empty" using idle by (auto simp: idle_def)
  have inr: "lg_start s \<noteq> 0 \<and> unat (lg_start s) < dev_nblk s" using lg_start_range[OF geom] by blast
  obtain h s1 where rd: "bread (lg_start s) s = Inr (h, s1)"
    by (rule bc.rewrite_read_total[OF c(1,2) inr c(3)]) (auto simp: NCACHE_BUF_def MAXOPBLOCKS_def)
  note 1 = bc.rd_law[OF c(1) inr rd] bc.full_rd[OF c(1) inr rd c(2)]
  have h1: "cache_ok {} {} s1" "held s1 (lg_start s) = Some h" using 1 by auto
  have dat: "buf_data s1 h = ?d" using bc.held_data[OF h1] 1 by simp
  define s2 where "s2 = s1\<lparr>lh_n := header_n ?d, lh_block := \<lambda>i. if i < nat (header_n ?d) then header_block ?d i else lh_block s1 i\<rparr>"
  have m: "nat (header_n ?d) \<le> NLOG" using ok geom by (auto simp: header_ok_def geom_def)
  have run: "read_log_header_from_disk s = Inr ((), brelse h s2)"
    unfolding read_log_header_from_disk_def rd chain_Inr prod.case Let_def dat s2_def
    by (simp add: read_header_loop[OF m] cong: if_cong)
  have 2: "cache_ok {} {} s2" "held s2 (lg_start s) = Some h" "bc_full s2" "view s2 = view s"
    using 1 h1 by (simp_all add: s2_def)
  note 3 = bc.rel_law[OF 2(1,2)] bc.full_rel[OF 2(1,2)]
  have "held (brelse h s2) = Map.empty" using 3 1 c(3) by (auto simp: s2_def)
  moreover have "log_rest (brelse h s2) = log_rest s"
    using 1 log_rest_more[of s1 s] log_rest_more[of "brelse h s2" s2] 3 by (simp add: s2_def log_rest_def)
  moreover have more: "bcache.more (brelse h s2) = bcache.more s2" using 3 by simp
  have "lh_n (brelse h s2) = header_n ?d" "\<forall>i<nat (header_n ?d). lh_block (brelse h s2) i = header_block ?d i"
    by (simp_all add: log_fields_more[OF more]) (simp_all add: s2_def)
  ultimately show ?thesis
    using 1 2 3 by (simp add: run idle_def) (simp add: s2_def)
qed

lemma install_transaction_recover:
  fixes s :: "'a fslog_scheme"
  assumes idle: "idle {} s" and geom: "geom s" and ok: "header_ok s (view s (lg_start s))"
    and hdr: "lh_n s = header_n (view s (lg_start s))" "\<forall>i<nat (lh_n s). lh_block s i = header_block (view s (lg_start s)) i"
  shows "returns (install_transaction True s) (\<lambda>(_, s'). idle {} s' \<and> wrote s (redo s (view s)) s')"
proof -
  have lb: "logged s = map (header_block (view s (lg_start s))) [0..<nat (lh_n s)]"
    using hdr by (simp add: logged_def)
  have "installs s (nat (lh_n s)) = redo s (view s)"
    unfolding installs_def redo_def hdr(1)[symmetric] using hdr(2) by simp
  moreover have "distinct (logged s)" "\<forall>b\<in>set (logged s). data_block s b" "lh_n s \<le> lg_size s - 1"
    using ok unfolding lb by (auto simp: header_ok_def hdr(1))
  ultimately show ?thesis
    using install_transaction_spec[of True s] idle geom by simp
qed

lemma recover_from_log_spec:
  fixes s :: "'a fslog_scheme"
  assumes idle: "idle {} s" and geom: "geom s" and ok: "header_ok s (view s (lg_start s))"
  defines "ws \<equiv> recover_writes s (view s)"
  shows "returns (recover_from_log s) (\<lambda>(_, s'). idle {} s' \<and> view s' = apply_writes (view s) ws \<and>
    dev_data s' = apply_writes (dev_data s) ws \<and> dev_writes s' = dev_writes s @ ws \<and> dev_nblk s' = dev_nblk s \<and>
    log_rest s' = log_rest s \<and> lh_n s' = 0)"
proof -
  let ?l = "lg_start s"
  obtain s1 where c1: "read_log_header_from_disk s = Inr ((), s1)" and 1: "idle {} s1" "view s1 = view s"
    "(dev_data s1, dev_writes s1, dev_nblk s1) = (dev_data s, dev_writes s, dev_nblk s)" "log_rest s1 = log_rest s"
    "lh_n s1 = header_n (view s ?l)" "\<forall>i<nat (lh_n s1). lh_block s1 i = header_block (view s ?l) i"
    using read_header_spec[OF idle geom ok] by (auto elim!: returnsE)
  have nb: "dev_nblk s1 = dev_nblk s" using 1 by simp
  have l1: "lg_start s1 = ?l" "lg_size s1 = lg_size s" using 1(4) by (auto simp: log_rest_def)
  have g1: "geom s1" using geom geom_rest(1)[OF 1(4) nb] by simp
  have ok1: "header_ok s1 (view s1 (lg_start s1))"
    using ok 1(2) by (simp add: header_ok_def l1 geom_rest(3)[OF 1(4) nb])
  have redo1: "redo s1 (view s1) = redo s (view s)"
    by (simp add: redo_def 1(2) l1 geom_rest(2)[OF 1(4)])
  obtain s2 where c2: "install_transaction True s1 = Inr ((), s2)" and 2: "idle {} s2" "wrote s1 (redo s (view s)) s2"
    using install_transaction_recover[OF 1(1) g1 ok1] 1 l1 redo1 by (auto elim!: returnsE)
  have m2: "bcache.more s2 = bcache.more s1" "dev_nblk s2 = dev_nblk s1" using 2 by (auto simp: wrote_def)
  have start: "view s2 ?l = view s ?l"
    using redo_again(2)[of s "view s" "redo s (view s)"] geom ok 2(2) by (simp add: wrote_def 1(2))
  let ?s2 = "s2\<lparr>lh_n := 0\<rparr>" and ?w = "(?l, header_image 0 (\<lambda>_. 0) (view s ?l))"
  have "returns (write_log_header_to_disk ?s2) (\<lambda>(_, s'). idle {} s' \<and> wrote ?s2 [?w] s')"
    using write_header_spec[of "{}" ?s2] 2(1) g1 start
    by (simp add: geom_more[OF m2] log_fields_more[OF m2(1)] l1 header_image_0 NCACHE_BUF_def MAXOPBLOCKS_def)
  then obtain s3 where c3: "write_log_header_to_disk ?s2 = Inr ((), s3)" and 3: "idle {} s3" "wrote ?s2 [?w] s3"
    by (auto elim!: returnsE)
  have run: "recover_from_log s = Inr ((), s3)" by (simp add: recover_from_log_def c1 c2 c3)
  have w: "wrote (s1\<lparr>lh_n := 0\<rparr>) ws s3"
    unfolding ws_def recover_writes_def using wrote_trans[OF wrote_lh_n[OF 2(2)] 3(2)] by simp
  then have m3: "bcache.more s3 = bcache.more (s1\<lparr>lh_n := 0\<rparr>)" by (simp add: wrote_def)
  have "log_rest s3 = log_rest s" using log_rest_more[OF m3] 1(4) by (simp add: log_rest_def)
  moreover have "lh_n s3 = 0" by (simp add: log_fields_more[OF m3])
  ultimately show ?thesis using w 3(1) 1 by (simp add: run wrote_def)
qed

text \<open>Mounting: the cache is initialised, then the log. \<open>mounted\<close> describes the result.\<close>

definition booted :: "'a fslog_scheme \<Rightarrow> (uint \<Rightarrow> block) \<Rightarrow> superblock \<Rightarrow> 'b fslog_scheme \<Rightarrow> bool" where
  "booted s f sb s0 \<longleftrightarrow> fresh_cache s0 \<and> dev_data s0 = f \<and> dev_nblk s0 = dev_nblk s \<and>
    sb_logstart sb = lg_start s \<and> uint (sb_nlog sb) = lg_size s"

lemma bcache_init_idle:
  assumes "fresh_cache s0"
  shows "idle {} (bcache_init s0)"
proof -
  note inv = bcache_init_inv[OF assms]
  have lock: "\<not> bb_locked (bc_buf (bcache_init s0) i)" "\<not> bb_valid (bc_buf (bcache_init s0) i)"
    "bb_refcnt (bc_buf (bcache_init s0) i) = 0" for i
    by (simp_all add: bcache_init_bufs[OF assms] static_buf_def)
  then have "held (bcache_init s0) = Map.empty" by (auto simp: held_def fun_eq_iff split: option.splits)
  then show ?thesis using inv lock by (simp add: idle_def cache_ok_def)
qed

lemma log_init_spec:
  fixes s :: "'a fslog_scheme" and s0 :: "'b fslog_scheme"
  assumes boot: "booted s f sb s0" and geom: "geom s" and ok: "header_ok s (f (lg_start s))"
  shows "returns (log_init sb (bcache_init s0)) (\<lambda>(_, s'). idle {} s' \<and> lh_n s' = 0 \<and> dev_nblk s' = dev_nblk s \<and>
    log_rest s' = (lg_start s, lg_size s, lg_outstanding s0, lg_committing s0, n_log_wrote s0, fslog.more s0) \<and>
    dev_data s' = apply_writes f (recover_writes s f) \<and> dev_writes s' = dev_writes s0 @ recover_writes s f \<and>
    (\<forall>b. b \<noteq> 0 \<longrightarrow> view s' b = dev_data s' b))"
proof -
  define t where "t = (bcache_init s0)\<lparr>lg_start := sb_logstart sb, lg_size := uint (sb_nlog sb)\<rparr>"
  have fresh: "fresh_cache s0" using boot by (simp add: booted_def)
  have keep: "view t = view (bcache_init s0)" "idle {} t = idle {} (bcache_init s0)"
    by (rule cache_base_cong; simp add: t_def)+
  have dev: "dev_data t = f" "dev_nblk t = dev_nblk s" "dev_writes t = dev_writes s0"
    using boot by (simp_all add: t_def booted_def bcache_init_def)
  have lg: "lg_start t = lg_start s" "lg_size t = lg_size s" "log_slot t k = log_slot s k" for k
    using boot by (simp_all add: t_def booted_def log_slot_def)
  have rest: "log_rest t = (lg_start s, lg_size s, lg_outstanding s0, lg_committing s0, n_log_wrote s0, fslog.more s0)"
    using boot by (simp add: log_rest_def booted_def t_def bcache_init_def)
  have vw: "view t b = f b" if "b \<noteq> 0" for b
    using bcache_init_inv(3)[OF fresh that] boot by (simp add: keep booted_def)
  have g: "geom t" using geom dev lg by (simp add: geom_def)
  have db: "data_block t b = data_block s b" for b using dev lg by (simp add: data_block_def)
  have hd: "view t (lg_start t) = f (lg_start s)" using vw lg_start_range(1)[OF g] by (simp add: lg)
  have "header_ok t (view t (lg_start t))" using ok unfolding hd by (simp add: header_ok_def lg db)
  moreover have "idle {} t" using bcache_init_idle[OF fresh] keep by simp
  moreover have "recover_writes t (view t) = recover_writes s f"
  proof -
    have "view t (log_slot s i) = f (log_slot s i)" if "i < nat (header_n (f (lg_start s)))" for i
    proof (rule vw)
      have "int i < lg_size s - 1" using that ok unfolding header_ok_def by linarith
      then show "log_slot s i \<noteq> 0" using log_slot_range(1)[OF geom] by blast
    qed
    then show ?thesis using hd lg by (simp add: recover_writes_def redo_def)
  qed
  moreover have "log_init sb (bcache_init s0) = recover_from_log t"
    by (simp add: log_init_def t_def NLOG_def MAXOPBLOCKS_def BSIZE_def)
  moreover have agree: "apply_writes (view t) ws b = apply_writes f ws b" if "b \<noteq> 0" for b ws
    using vw[OF that] by (induction ws rule: rev_induct) auto
  ultimately show ?thesis
    using recover_from_log_spec[of t] g by (auto simp: dev rest agree elim!: returns_mono)
qed

section \<open>Crashes\<close>

text \<open>
  \<open>log_ready\<close>: the log between two transactions or inside one, with no commit under way: the
  invariant of the log, and an empty header on the device.
\<close>

definition log_ready :: "uint set \<Rightarrow> 'a fslog_scheme \<Rightarrow> bool" where
  "log_ready X s \<longleftrightarrow> log_inv X s \<and> bc_full s \<and> header_n (dev_data s (lg_start s)) = 0"

text \<open>
  A reboot that crashes again: the machine comes up with the disk \<open>f\<close>, mounts, and stops after
  \<open>k\<close> of the writes of \<open>log_init\<close>.
\<close>

inductive crashed_boot :: "'a fslog_scheme \<Rightarrow> (uint \<Rightarrow> block) \<Rightarrow> (uint \<Rightarrow> block) \<Rightarrow> bool" for s where
  crashed_bootI: "booted s f sb (s0 :: 'a fslog_scheme) \<Longrightarrow> log_init sb (bcache_init s0) = Inr ((), r) \<Longrightarrow>
    crashed_boot s f (apply_writes f (take k (drop (length (dev_writes s0)) (dev_writes r))))"

inductive_cases crashed_bootE: "crashed_boot s f f'"

lemma crashed_boot_recovered:
  assumes "crashed_boot s f f'" and geom: "geom s" and ok: "header_ok s (f (lg_start s))"
  shows "header_ok s (f' (lg_start s)) \<and> (\<forall>b. b \<noteq> lg_start s \<longrightarrow> recovered s f' b = recovered s f b)"
  using assms(1)
proof (rule crashed_bootE)
  fix sb s0 r k
  assume boot: "booted s f sb (s0 :: 'a fslog_scheme)" and run: "log_init sb (bcache_init s0) = Inr ((), r)"
    and f': "f' = apply_writes f (take k (drop (length (dev_writes s0)) (dev_writes r)))"
  have "dev_writes r = dev_writes s0 @ recover_writes s f"
    using log_init_spec[of s f sb s0] boot geom ok run by simp
  then have "f' = apply_writes f (take k (recover_writes s f))" by (simp add: f')
  then show ?thesis
    using recover_prefix(1)[of s f k] recover_prefix(2)[of s f _ k] geom ok by blast
qed

lemma crashed_boots_recovered:
  assumes "(crashed_boot s)\<^sup>*\<^sup>* f f'" and geom: "geom s" and ok: "header_ok s (f (lg_start s))"
  shows "header_ok s (f' (lg_start s)) \<and> (\<forall>b. b \<noteq> lg_start s \<longrightarrow> recovered s f' b = recovered s f b)"
  using assms(1)
proof (induction rule: rtranclp_induct)
  case base
  then show ?case using ok by simp
next
  case (step g h)
  then show ?case using crashed_boot_recovered[OF step.hyps(2) geom] by simp
qed

lemma recovered_log_init:
  fixes s :: "'a fslog_scheme" and s0 :: "'b fslog_scheme"
  assumes boot: "booted s f sb s0" and geom: "geom s" and ok: "header_ok s (f (lg_start s))"
  shows "returns (log_init sb (bcache_init s0)) (\<lambda>(_, r).
    log_ready {} r \<and> held r = Map.empty \<and> lh_n r = 0 \<and> (\<forall>b. data_block s b \<longrightarrow> data_block r b \<and> view r b = recovered s f b))"
proof -
  have db: "log_rest r = (lg_start s, lg_size s, a, b, c, e) \<Longrightarrow> dev_nblk r = dev_nblk s \<Longrightarrow>
      data_block r x = data_block s x \<and> geom r = geom s \<and> lg_start r = lg_start s \<and> lg_size r = lg_size s"
    for r :: "'b fslog_scheme" and a b c e x
    by (simp add: log_rest_def data_block_def geom_def)
  have hd: "header_n (apply_writes f (recover_writes s f) (lg_start s)) = 0"
    by (simp add: recover_writes_def header_image_0 header_cleared)
  have rec: "apply_writes f (recover_writes s f) b = recovered s f b" if "data_block s b" for b
    using that lg_start_range(3)[OF geom] by (auto simp: recover_writes_def recovered_def apply_writes_append)
  have b0: "data_block s b \<Longrightarrow> b \<noteq> 0" for b by (simp add: data_block_def)
  have pos: "1 \<le> lg_size s" using geom by (simp add: geom_def)
  obtain r where run: "log_init sb (bcache_init s0) = Inr ((), r)" and r: "idle {} r" "lh_n r = 0" "dev_nblk r = dev_nblk s"
    "log_rest r = (lg_start s, lg_size s, lg_outstanding s0, lg_committing s0, n_log_wrote s0, fslog.more s0)"
    "dev_data r = apply_writes f (recover_writes s f)" "\<forall>b. b \<noteq> 0 \<longrightarrow> view r b = dev_data r b"
    using log_init_spec[OF boot geom ok] by (auto elim!: returnsE)
  note db' = db[OF r(4,3)]
  have "log_inv {} r"
    using r db' geom pos by (simp add: log_inv_def logged_def idle_def)
  then have "log_ready {} r" using r(1,5) db' hd by (simp add: log_ready_def idle_def)
  moreover have "view r b = recovered s f b" if "data_block s b" for b
    using r(5,6) rec[OF that] b0[OF that] by simp
  ultimately show ?thesis using r(1,2) db' by (simp add: run idle_def)
qed

text \<open>A commit keeps the log ready and what every reader sees.\<close>

lemma commit_ready:
  fixes s :: "'a fslog_scheme"
  assumes ready: "log_ready {} s" and free: "held s = Map.empty"
  shows "returns (commit s) (\<lambda>(_, s'). log_ready {} s' \<and> held s' = Map.empty \<and> lh_n s' = 0 \<and>
    log_rest s' = log_rest s \<and> dev_nblk s' = dev_nblk s \<and>
    (\<forall>b. data_block s b \<longrightarrow> view s' b = view s b \<and> dev_data s' b = view s b) \<and>
    dev_writes s' = dev_writes s @ (if 0 < lh_n s then commit_writes s else []))"
proof -
  have inv: "log_inv {} s" and full: "bc_full s" and old: "header_n (dev_data s (lg_start s)) = 0" and geom: "geom s"
    using ready by (auto simp: log_ready_def log_inv_def)
  show ?thesis
  proof (cases "0 < lh_n s")
    case True
    obtain s' where run: "commit s = Inr ((), s')" and 1: "idle {} s'" and w: "wrote (s\<lparr>lh_n := 0\<rparr>) (commit_writes s) s'"
      using commit_spec[OF inv full free True] by (auto elim!: returnsE)
    have m: "bcache.more s' = bcache.more (s\<lparr>lh_n := 0\<rparr>)" and nb: "dev_nblk s' = dev_nblk s"
      and dev: "dev_data s' = apply_writes (dev_data s) (commit_writes s)" and vw: "view s' = apply_writes (view s) (commit_writes s)"
      using w by (auto simp: wrote_def)
    have lh: "lh_n s' = 0" "lg_start s' = lg_start s" "lg_size s' = lg_size s"
      by (simp_all add: log_fields_more[OF m])
    have rest: "log_rest s' = log_rest s" using log_rest_more[OF m] by (simp add: log_rest_def)
    have "header_n (dev_data s' (lg_start s)) = 0"
      unfolding dev commit_writes_def by (simp add: apply_writes_append header_image_0 header_cleared)
    moreover have "geom s'" using geom geom_rest(1)[OF rest nb] by simp
    moreover have "1 \<le> lg_size s" using geom by (simp add: geom_def)
    ultimately have "log_ready {} s'"
      using 1 lh by (simp add: log_ready_def log_inv_def logged_def idle_def)
    then show ?thesis
      using 1 lh rest nb w commit_writes_data[OF inv] True by (simp add: run idle_def dev vw) (simp add: wrote_def)
  next
    case False
    then have "lh_n s = 0" using inv by (simp add: log_inv_def)
    moreover from this have "dev_data s b = view s b" if "data_block s b" for b
      using commit_writes_data(2)[OF inv that] lg_start_range(3)[OF geom] that
      by (simp add: commit_writes_def log_copies_def commit_installs_def) (metis fun_upd_other)
    ultimately show ?thesis using ready free by (simp add: commit_def)
  qed
qed

text \<open>
  C1: a transaction is atomic across crashes: if the machine stops after any number of the device
  writes of commit, and then stops any number of times during the recoveries that follow, the next
  mount shows every block the log manages with its contents before the transaction (the header had
  not been written) or every such block with its contents after it.
\<close>

theorem commit_atomic:
  fixes s :: "'a fslog_scheme" and s0 :: "'a fslog_scheme"
  assumes ready: "log_ready {} s" and free: "held s = Map.empty"
    and commit: "commit s = Inr ((), s')"
    and crash: "f = apply_writes (dev_data s) (take k (drop (length (dev_writes s)) (dev_writes s')))"
    and reboots: "(crashed_boot s)\<^sup>*\<^sup>* f f'" and boot: "booted s f' sb s0"
  shows "returns (log_init sb (bcache_init s0)) (\<lambda>(_, r). log_ready {} r \<and> held r = Map.empty \<and> lh_n r = 0 \<and>
    (if k \<le> nat (lh_n s) then \<forall>b. data_block s b \<longrightarrow> view r b = dev_data s b
     else \<forall>b. data_block s b \<longrightarrow> view r b = view s b))"
proof -
  have inv: "log_inv {} s" and old: "header_n (dev_data s (lg_start s)) = 0" and geom: "geom s"
    using ready by (auto simp: log_ready_def log_inv_def)
  have pos: "0 \<le> lh_n s" using inv by (simp add: log_inv_def)
  have "dev_writes s' = dev_writes s @ (if 0 < lh_n s then commit_writes s else [])"
    using commit_ready[OF ready free] commit by simp
  then have f: "f = apply_writes (dev_data s) (take k (if 0 < lh_n s then commit_writes s else []))"
    using crash by simp
  have pre: "header_ok s (f (lg_start s)) \<and> (data_block s b \<longrightarrow>
      recovered s f b = (if k \<le> nat (lh_n s) then dev_data s b else view s b))" for b
  proof (cases "0 < lh_n s")
    case True
    have "lh_block s 0 \<in> set (logged s)" using True by (auto simp: logged_def)
    then obtain c where "data_block s c" using inv unfolding log_inv_def by blast
    then show ?thesis using commit_prefix[OF inv old, of _ k] True f by auto
  next
    case False
    have "data_block s b \<Longrightarrow> dev_data s b = view s b"
      using commit_ready[OF ready free] commit False pos by (simp add: commit_def)
    then show ?thesis using False f old header_ok_empty[OF geom] recovered_empty[of "dev_data s" s] by simp
  qed
  note post = crashed_boots_recovered[OF reboots geom conjunct1[OF pre]]
  have "recovered s f' b = (if k \<le> nat (lh_n s) then dev_data s b else view s b)" if "data_block s b" for b
    using post pre[of b] that lg_start_range(3)[OF geom] by metis
  with recovered_log_init[OF boot geom conjunct1[OF post]] show ?thesis
    by (auto elim!: returns_mono)
qed

section \<open>The operations of a transaction\<close>

text \<open>What no operation inside a transaction changes.\<close>

definition log_frame :: "'a fslog_scheme \<Rightarrow> nat \<times> uint \<times> int \<times> int \<times> bool \<times> 'a" where
  "log_frame s = (dev_nblk s, lg_start s, lg_size s, lg_outstanding s, lg_committing s, fslog.more s)"

lemma log_frame_more:
  "bcache.more s' = bcache.more s \<Longrightarrow> dev_nblk s' = dev_nblk s \<Longrightarrow> log_frame s' = log_frame s"
  by (simp add: log_frame_def log_fields_more[of s' s])

lemma data_block_frame: "log_frame s' = log_frame s \<Longrightarrow> data_block s' b = data_block s b"
  by (simp add: log_frame_def data_block_def)

lemma log_ready_more:
  assumes "bcache.more s' = bcache.more s" "dev_nblk s' = dev_nblk s" "dev_data s' = dev_data s"
    and "log_ready X s" "cache_ok (set (logged s)) X' s'" "bc_full s'"
  shows "log_ready X' s'"
  using assms(3-)
  by (simp add: log_ready_def log_inv_def geom_more[OF assms(1,2)] logged_more[OF assms(1)]
      data_block_more[OF assms(1,2)] log_fields_more[OF assms(1)])

lemma log_readyD:
  assumes "log_ready X s"
  shows "cache_ok (set (logged s)) X s" "bc_full s" "geom s"
  using assms by (auto simp: log_ready_def log_inv_def)

lemma data_block_inrange: "data_block s b \<Longrightarrow> b \<noteq> 0 \<and> unat b < dev_nblk s"
  by (simp add: data_block_def)

lemma logged_read_ok:
  assumes ready: "log_ready X s" and b: "data_block s b" and rd: "logged_read b s = Inr (h, s')"
  shows "log_ready X s' \<and> view s' = view s \<and> held s b = None \<and> held s' = (held s)(b \<mapsto> h) \<and>
    dev_data s' = dev_data s \<and> log_frame s' = log_frame s"
proof -
  note c = log_readyD[OF ready] and r = data_block_inrange[OF b] and rd' = rd[unfolded logged_read_def]
  note 1 = bc.rd_law[OF c(1) r rd'] and f = bc.full_rd[OF c(1) r rd' c(2)]
  have m: "bcache.more s' = bcache.more s" "dev_nblk s' = dev_nblk s" using 1 by auto
  show ?thesis using 1 f log_frame_more[OF m] log_ready_more[OF m _ ready] by auto
qed

lemma logged_put_ok:
  assumes ready: "log_ready X s" and h: "held s b = Some h"
  shows "log_ready (insert b X) (set_data h d s) \<and> view (set_data h d s) = (view s)(b := d) \<and>
    held (set_data h d s) = held s \<and> dev_data (set_data h d s) = dev_data s \<and> log_frame (set_data h d s) = log_frame s"
proof -
  note c = log_readyD[OF ready]
  note 1 = bc.put_law[OF c(1) h, of d] bc.full_put[OF c(1) h, of d]
  have m: "bcache.more (set_data h d s) = bcache.more s" "dev_nblk (set_data h d s) = dev_nblk s" using 1 by auto
  show ?thesis using 1 c log_frame_more[OF m] log_ready_more[OF m _ ready] by auto
qed

lemma logged_relse_ok:
  assumes ready: "log_ready X s" and h: "held s b = Some h" and b: "b \<notin> X"
  shows "log_ready X (logged_relse h s) \<and> view (logged_relse h s) = view s \<and>
    held (logged_relse h s) = (held s)(b := None) \<and> dev_data (logged_relse h s) = dev_data s \<and>
    log_frame (logged_relse h s) = log_frame s"
proof -
  note c = log_readyD[OF ready]
  note 1 = bc.rel_law[OF c(1) h b] bc.full_rel[OF c(1) h b]
  have m: "bcache.more (brelse h s) = bcache.more s" "dev_nblk (brelse h s) = dev_nblk s" using 1 by auto
  show ?thesis using 1 c log_frame_more[OF m] log_ready_more[OF m _ ready] by (auto simp: logged_relse_def)
qed

lemma cache_ok_pinned: "b \<in> P \<Longrightarrow> cache_ok P X s \<Longrightarrow> cache_ok P (X - {b}) s"
proof -
  assume "b \<in> P"
  then have "P \<union> (X - {b}) = P \<union> X" by blast
  then show "cache_ok P X s \<Longrightarrow> cache_ok P (X - {b}) s" unfolding cache_ok_def by auto
qed

text \<open>
  A write of a block already in the log is absorbed; any other one takes the next entry of the
  header and pins the block's buffer.
\<close>

lemma logged_write_cases:
  assumes "logged_write h s = Inr ((), s')" and n: "0 \<le> lh_n s" and b: "bb_blockno (bc_buf s h) = b"
  obtains (absorbed) "b \<in> set (logged s)" "s' = s\<lparr>n_log_wrote := n_log_wrote s + 1\<rparr>"
  | (appended) "b \<notin> set (logged s)"
      "s' = (bpin h (s\<lparr>n_log_wrote := n_log_wrote s + 1, lh_block := (lh_block s)(nat (lh_n s) := b)\<rparr>))\<lparr>lh_n := lh_n s + 1\<rparr>"
      "lh_n s < int NLOG" "lh_n s < lg_size s - 1" "1 \<le> lg_outstanding s"
proof -
  let ?f = "find_from (\<lambda>i. lh_block s i = b) 0 (nat (lh_n s))"
  have room: "lh_n s < int NLOG" "lh_n s < lg_size s - 1" "1 \<le> lg_outstanding s"
    using assms(1) by (auto simp: logged_write_def split: if_splits)
  show ?thesis
  proof (cases ?f)
    case (Some i)
    from find_from_Some[OF Some] have i: "i < nat (lh_n s)" "lh_block s i = b" by auto
    then have ne: "int i \<noteq> lh_n s" using n by linarith
    have upd: "(lh_block s)(i := b) = lh_block s" using i by auto
    have "s' = s\<lparr>n_log_wrote := n_log_wrote s + 1\<rparr>"
      using assms(1) room i n by (simp add: logged_write_def b Some Let_def upd ne cong: if_cong option.case_cong)
    moreover have "b \<in> set (logged s)" using i by (auto simp: logged_def)
    ultimately show ?thesis by (intro absorbed)
  next
    case None
    have "b \<notin> set (logged s)" using None by (auto simp: find_from_None logged_def)
    then show ?thesis
      by (rule appended) (use assms(1) room n None in \<open>simp_all add: logged_write_def b Let_def cong: if_cong option.case_cong\<close>)
  qed
qed

lemma cache_log_fields [simp]:
  "view (s\<lparr>n_log_wrote := w\<rparr>) = view s" "held (s\<lparr>n_log_wrote := w\<rparr>) = held s"
  "cache_ok P X (s\<lparr>n_log_wrote := w\<rparr>) = cache_ok P X s" "bc_full (s\<lparr>n_log_wrote := w\<rparr>) = bc_full s"
  by (rule cache_base_cong; simp)+

lemma cache_log_entry [simp]:
  "view (s\<lparr>n_log_wrote := w, lh_block := blk\<rparr>) = view s" "held (s\<lparr>n_log_wrote := w, lh_block := blk\<rparr>) = held s"
  "cache_ok P X (s\<lparr>n_log_wrote := w, lh_block := blk\<rparr>) = cache_ok P X s" "bc_full (s\<lparr>n_log_wrote := w, lh_block := blk\<rparr>) = bc_full s"
  by (rule cache_base_cong; simp)+

lemma cache_count [simp]:
  "cache_ok P X (s\<lparr>lh_n := n\<rparr>) = cache_ok P X s" "bc_full (s\<lparr>lh_n := n\<rparr>) = bc_full s"
  by (rule cache_base_cong; simp)+

lemma bpin_full: "bc_full (bpin h s) = bc_full s"
  by (auto simp: bc_full_def linked_def bpin_def upd_buf_def)

lemma logged_write_ok:
  assumes ready: "log_ready X s" and h: "held s b = Some h" and b: "data_block s b"
    and wr: "logged_write h s = Inr ((), s')"
  shows "log_ready (X - {b}) s' \<and> view s' = view s \<and> held s' = held s \<and> dev_data s' = dev_data s \<and>
    log_frame s' = log_frame s \<and> b \<in> set (logged s') \<and> lh_n s' \<le> lh_n s + 1"
proof -
  note c = log_readyD[OF ready]
  have n: "0 \<le> lh_n s" and inv: "log_inv X s" using ready by (auto simp: log_ready_def log_inv_def)
  have hb: "bb_blockno (bc_buf s h) = b" by (rule held_handle(2)[OF c(1) h])
  show ?thesis
    using wr n hb
  proof (cases rule: logged_write_cases)
    case absorbed
    then show ?thesis
      using ready cache_ok_pinned[OF absorbed(1) c(1)]
      by (simp add: log_ready_def log_inv_def logged_def geom_def data_block_def log_frame_def)
  next
    case appended
    let ?t = "s\<lparr>n_log_wrote := n_log_wrote s + 1, lh_block := (lh_block s)(nat (lh_n s) := b)\<rparr>"
    have "cache_ok (set (logged s)) X ?t" "held ?t b = Some h" using c h by simp_all
    note 1 = bc.pin_law[OF this appended(1)]
    have m: "bcache.more (bpin h ?t) = bcache.more ?t" "dev_nblk (bpin h ?t) = dev_nblk s" using 1 by auto
    have Suc: "nat (lh_n s + 1) = Suc (nat (lh_n s))" using n by simp
    have lg: "logged s' = logged s @ [b]"
      unfolding appended(2) by (simp add: logged_def log_fields_more[OF m(1)] Suc)
    have f: "log_frame s' = log_frame s" and n': "lh_n s' = lh_n s + 1"
      unfolding appended(2) using m(2) by (simp_all add: log_frame_def log_fields_more[OF m(1)])
    have g: "geom s' = geom s" "lg_start s' = lg_start s" "lg_size s' = lg_size s"
      using f by (simp_all add: log_frame_def geom_def)
    have "cache_ok (set (logged s')) (X - {b}) s'" "bc_full s'" and same: "view s' = view s" "held s' = held s" "dev_data s' = dev_data s"
      unfolding lg unfolding appended(2) using 1 c(2) by (simp_all add: bpin_full)
    then have "log_ready (X - {b}) s'"
      using inv ready b appended(1,4) n n' g
      by (auto simp: log_ready_def log_inv_def lg data_block_frame[OF f])
    then show ?thesis using same f n' lg by simp
  qed
qed

lemma logged_write_returns:
  assumes "lh_n s < int NLOG" "lh_n s < lg_size s - 1" "1 \<le> lg_outstanding s"
  shows "\<exists>s'. logged_write h s = Inr ((), s')"
  using assms by (auto simp: logged_write_def Let_def)

section \<open>The interface of the layers above\<close>

text \<open>
  What the allocator and the inodes rely on: a read locks a block and shows its contents, a
  modified block (in \<open>X\<close>) has to be written before it is released, and nothing a client does
  changes another block.
\<close>

locale txn_store =
  fixes ok :: "'b set \<Rightarrow> 's \<Rightarrow> bool"
    and inrange :: "'s \<Rightarrow> 'b \<Rightarrow> bool"
    and rd :: "'b \<Rightarrow> 's \<Rightarrow> ('h \<times> 's) res"
    and put :: "'h \<Rightarrow> 'd \<Rightarrow> 's \<Rightarrow> 's"
    and wr :: "'h \<Rightarrow> 's \<Rightarrow> (unit \<times> 's) res"
    and rel :: "'h \<Rightarrow> 's \<Rightarrow> 's"
    and dat :: "'s \<Rightarrow> 'h \<Rightarrow> 'd"
    and seen :: "'s \<Rightarrow> 'b \<Rightarrow> 'd"
    and hold :: "'s \<Rightarrow> 'b \<Rightarrow> 'h option"
    and frame :: "'s \<Rightarrow> 'f"
  assumes inrange_frame: "frame s' = frame s \<Longrightarrow> inrange s' b = inrange s b"
    and held_data: "ok X s \<Longrightarrow> hold s b = Some h \<Longrightarrow> dat s h = seen s b"
    and mod_held: "ok X s \<Longrightarrow> b \<in> X \<Longrightarrow> hold s b \<noteq> None"
    and rd_law: "ok X s \<Longrightarrow> inrange s b \<Longrightarrow> rd b s = Inr (h, s') \<Longrightarrow>
      ok X s' \<and> seen s' = seen s \<and> hold s b = None \<and> hold s' = (hold s)(b \<mapsto> h) \<and> frame s' = frame s"
    and put_law: "ok X s \<Longrightarrow> hold s b = Some h \<Longrightarrow> ok (insert b X) (put h d s) \<and>
      seen (put h d s) = (seen s)(b := d) \<and> hold (put h d s) = hold s \<and> frame (put h d s) = frame s"
    and wr_law: "ok X s \<Longrightarrow> hold s b = Some h \<Longrightarrow> inrange s b \<Longrightarrow> wr h s = Inr ((), s') \<Longrightarrow>
      ok (X - {b}) s' \<and> seen s' = seen s \<and> hold s' = hold s \<and> frame s' = frame s"
    and rel_law: "ok X s \<Longrightarrow> hold s b = Some h \<Longrightarrow> b \<notin> X \<Longrightarrow>
      ok X (rel h s) \<and> seen (rel h s) = seen s \<and> hold (rel h s) = (hold s)(b := None) \<and> frame (rel h s) = frame s"
begin

text \<open>Reading a block and releasing it.\<close>

lemma read_release:
  assumes ok: "ok X s" and b: "inrange s b" and rd: "rd b s = Inr (h, s1)"
  shows "dat s1 h = seen s b" "ok X (rel h s1)" "seen (rel h s1) = seen s" "hold (rel h s1) = hold s"
    "frame (rel h s1) = frame s"
proof -
  note 1 = rd_law[OF ok b rd]
  have "b \<notin> X" using mod_held[OF ok] 1 by blast
  have h: "hold s1 b = Some h" using 1 by simp
  show "dat s1 h = seen s b" using held_data[of X s1 b h] 1 h by simp
  have "(hold s)(b := None) = hold s" using 1 by (simp add: fun_upd_idem)
  then show "ok X (rel h s1)" "seen (rel h s1) = seen s" "hold (rel h s1) = hold s" "frame (rel h s1) = frame s"
    using rel_law[of X s1 b h] 1 h \<open>b \<notin> X\<close> by auto
qed

text \<open>Modifying a held block and logging it, and the whole read-modify-write.\<close>

lemma put_write:
  assumes ok: "ok X s" "b \<notin> X" and b: "inrange s b" and h: "hold s b = Some h"
    and wr: "wr h (put h d s) = Inr ((), s2)"
  shows "ok X s2" "seen s2 = (seen s)(b := d)" "hold s2 = hold s" "frame s2 = frame s"
proof -
  note 1 = put_law[OF ok(1) h, of d]
  have "inrange (put h d s) b" using 1 b inrange_frame by metis
  moreover have "hold (put h d s) b = Some h" using 1 h by simp
  moreover have "insert b X - {b} = X" using ok(2) by simp
  ultimately show "ok X s2" "seen s2 = (seen s)(b := d)" "hold s2 = hold s" "frame s2 = frame s"
    using wr_law[of "insert b X" "put h d s" b h s2] 1 wr by simp_all
qed

lemma modify_block:
  assumes ok: "ok X s" and b: "inrange s b" and rd: "rd b s = Inr (h, s1)"
    and wr: "wr h (put h d s1) = Inr ((), s2)"
  shows "ok X (rel h s2)" "seen (rel h s2) = (seen s)(b := d)" "hold (rel h s2) = hold s" "frame (rel h s2) = frame s"
proof -
  note 1 = rd_law[OF ok b rd]
  have X: "b \<notin> X" using mod_held[OF ok] 1 by blast
  have in1: "inrange s1 b" using 1 b inrange_frame by metis
  have h: "hold s1 b = Some h" using 1 by simp
  have ok1: "ok X s1" using 1 by blast
  note 2 = put_write[OF ok1 X in1 h wr]
  have "(hold s)(b := None) = hold s" using 1 by (simp add: fun_upd_idem)
  then show "ok X (rel h s2)" "seen (rel h s2) = (seen s)(b := d)" "hold (rel h s2) = hold s" "frame (rel h s2) = frame s"
    using rel_law[OF 2(1) _ X, of h] 2 h 1 by auto
qed

end

interpretation lg: txn_store log_ready data_block logged_read set_data logged_write logged_relse buf_data view held log_frame
proof (unfold_locales, goal_cases)
  case (1 s' s b)
  then show ?case by (rule data_block_frame)
next
  case (2 X s b h)
  then show ?case using held_handle(6) log_readyD(1) by blast
next
  case (3 X s b)
  then show ?case using cache_okD(4) log_readyD(1) by blast
next
  case (4 X s b h s')
  then show ?case using logged_read_ok by blast
next
  case (5 X s b h d)
  then show ?case using logged_put_ok[of X s b h d] by blast
next
  case (6 X s b h s')
  then show ?case using logged_write_ok[of X s b h s'] by blast
next
  case (7 X s b h)
  then show ?case using logged_relse_ok[of X s b h] by blast
qed

section \<open>Transactions\<close>

lemma log_base_cong:
  assumes "bc_buf t = bc_buf s" "bc_hash t = bc_hash s" "dev_data t = dev_data s" "disk_lock t = disk_lock s"
    and "lg_start t = lg_start s" "lg_size t = lg_size s" "lh_n t = lh_n s" "lh_block t = lh_block s" "dev_nblk t = dev_nblk s"
  shows "log_ready X t = log_ready X s" "data_block t b = data_block s b" "view t = view s" "held t = held s"
  using cache_base_cong[OF assms(1-4)] assms(3,5-)
  by (simp_all add: log_ready_def log_inv_def logged_def geom_def data_block_def)

lemma cache_outstanding [simp]:
  "view (s\<lparr>lg_outstanding := k\<rparr>) = view s" "held (s\<lparr>lg_outstanding := k\<rparr>) = held s"
  "log_ready X (s\<lparr>lg_outstanding := k\<rparr>) = log_ready X s"
  "view (s\<lparr>lg_outstanding := k, n_log_wrote := w\<rparr>) = view s" "held (s\<lparr>lg_outstanding := k, n_log_wrote := w\<rparr>) = held s"
  "log_ready X (s\<lparr>lg_outstanding := k, n_log_wrote := w\<rparr>) = log_ready X s"
  "view (s\<lparr>lg_committing := c\<rparr>) = view s" "held (s\<lparr>lg_committing := c\<rparr>) = held s"
  "log_ready X (s\<lparr>lg_committing := c\<rparr>) = log_ready X s"
  by (rule log_base_cong; simp)+

lemma begin_op_ok:
  "begin_op s = Inr ((), s') \<Longrightarrow> log_ready X s \<Longrightarrow> log_ready X s' \<and> view s' = view s \<and> held s' = held s \<and>
    lg_outstanding s' = lg_outstanding s + 1 \<and> \<not> lg_committing s' \<and> n_log_wrote s' = 0 \<and>
    lh_n s' + lg_outstanding s' * int MAXOPBLOCKS \<le> int NLOG"
  by (auto simp: begin_op_def split: if_splits)

text \<open>The end of the last operation makes everything it and the others wrote durable.\<close>

lemma end_op_last:
  fixes s :: "'a fslog_scheme"
  assumes ready: "log_ready {} s" and free: "held s = Map.empty" and last: "lg_outstanding s = 1" "\<not> lg_committing s"
  shows "returns (end_op s) (\<lambda>(_, s'). log_ready {} s' \<and> held s' = Map.empty \<and> lh_n s' = 0 \<and>
    lg_outstanding s' = 0 \<and> \<not> lg_committing s' \<and> dev_nblk s' = dev_nblk s \<and> lg_start s' = lg_start s \<and>
    lg_size s' = lg_size s \<and> fslog.more s' = fslog.more s \<and>
    (\<forall>b. data_block s b \<longrightarrow> view s' b = view s b \<and> dev_data s' b = view s b))"
proof -
  let ?s = "s\<lparr>lg_outstanding := 0, lg_committing := True\<rparr>"
  have db: "data_block ?s b = data_block s b" for b by (simp add: data_block_def)
  have r: "log_ready {} ?s" "held ?s = Map.empty" "view ?s = view s" using ready free by simp_all
  obtain s' where run: "commit ?s = Inr ((), s')" and 1: "log_ready {} s'" "held s' = Map.empty" "lh_n s' = 0"
    "log_rest s' = log_rest ?s" "dev_nblk s' = dev_nblk ?s"
    "\<forall>b. data_block ?s b \<longrightarrow> view s' b = view ?s b \<and> dev_data s' b = view ?s b"
    using commit_ready[OF r(1,2)] by (auto elim!: returnsE)
  have "end_op s = Inr ((), end_op_leave s')"
    using last run by (simp add: end_op_def end_op_enter_def Let_def)
  then show ?thesis
    using 1 by (simp add: end_op_leave_def db r(3) log_rest_def)
qed

lemma end_op_other:
  assumes "log_ready X s" "lg_outstanding s \<noteq> 1" "\<not> lg_committing s"
  shows "returns (end_op s) (\<lambda>(_, s'). s' = s\<lparr>lg_outstanding := lg_outstanding s - 1\<rparr> \<and> log_ready X s')"
  using assms by (simp add: end_op_def end_op_enter_def Let_def)

section \<open>A machine that crashes\<close>

definition mini :: "(uint \<Rightarrow> block) \<Rightarrow> fslog" where
  "mini f = \<lparr>dev_nblk = 16, dev_data = f, dev_writes = [], disk_lock = False,
    clock = (\<lambda>n. \<lparr>tv_sec = word_of_nat n, tv_nsec = 0\<rparr>), ticks = 0, bc_buf = (\<lambda>_. static_buf), bc_hash = (\<lambda>_. []),
    lg_start = 2, lg_size = 4, lg_outstanding = 1, lg_committing = False, lh_n = 0, lh_block = (\<lambda>_. 0), n_log_wrote = 0\<rparr>"

definition mini_sb :: superblock where
  "mini_sb = \<lparr>sb_magic = 0, sb_size = 16, sb_nblocks = 0, sb_ninodes = 0, sb_nlog = 4, sb_logstart = 2,
    sb_inodestart = 6, sb_bmapstart = 7\<rparr>"

lemma mini_facts:
  "fresh_cache (mini f)" "geom (bcache_init (mini f))" "data_block (bcache_init (mini f)) 9"
  "dev_data (bcache_init (mini f)) = f" "dev_nblk (bcache_init (mini f)) = 16" "lg_start (bcache_init (mini f)) = 2"
  "lg_size (bcache_init (mini f)) = 4" "lg_outstanding (bcache_init (mini f)) = 1" "lh_n (bcache_init (mini f)) = 0"
  by (simp_all add: mini_def fresh_cache_def geom_def data_block_def bcache_init_def NLOG_def MAXOPBLOCKS_def)

lemma mini_ready:
  "header_n (f 2) = 0 \<Longrightarrow> log_ready {} (bcache_init (mini f)) \<and> held (bcache_init (mini f)) = Map.empty \<and>
    view (bcache_init (mini f)) 9 = f 9"
  using bcache_init_idle[OF mini_facts(1)] bcache_init_inv(3)[OF mini_facts(1), of 9 f] mini_facts[of f]
  by (simp add: log_ready_def log_inv_def idle_def logged_def) (simp add: mini_def)

text \<open>A transaction that has written block 9 and is about to commit.\<close>

lemma mini_transaction:
  obtains s :: fslog where "log_ready {} s" "held s = Map.empty" "view s 9 = (\<lambda>_. 7)" "dev_data s = (\<lambda>_. zero_block)"
    "0 < lh_n s" "data_block s 9" "lg_start s = 2" "lg_size s = 4" "dev_nblk s = 16" "lg_outstanding s = 1" "\<not> lg_committing s"
proof -
  let ?z = "\<lambda>_::uint. zero_block"
  let ?s = "bcache_init (mini ?z)"
  note f = mini_facts[of ?z]
  have r: "log_ready {} ?s" "held ?s = Map.empty" using mini_ready[of ?z] by (simp_all add: header_n_def)
  have c: "cache_ok {} {} ?s" using log_readyD(1)[OF r(1)] by (simp add: logged_def f)
  obtain h s1 where rd: "logged_read 9 ?s = Inr (h, s1)"
    unfolding logged_read_def
    by (rule bc.rewrite_read_total[OF c log_readyD(2)[OF r(1)] data_block_inrange[OF f(3)] r(2)])
      (auto simp: NCACHE_BUF_def MAXOPBLOCKS_def)
  note 1 = logged_read_ok[OF r(1) f(3) rd]
  have b: "bcache.more s1 = bcache.more ?s" using bc.rd_law[OF c data_block_inrange[OF f(3)], of h s1] rd
    by (simp add: logged_read_def)
  let ?t = "set_data h (\<lambda>_. 7) s1"
  have m: "bcache.more ?t = bcache.more ?s" using b by simp
  obtain s2 where wr: "logged_write h ?t = Inr ((), s2)"
    using logged_write_returns[of ?t h] by (auto simp: log_fields_more[OF m] f NLOG_def MAXOPBLOCKS_def)
  have 1: "log_ready {} s1" "held s1 = [9 \<mapsto> h]" "dev_data s1 = ?z" "log_frame s1 = log_frame ?s"
    using 1 r f by auto
  then have h: "held s1 9 = Some h" and db1: "data_block s1 9" using data_block_frame[OF 1(4)] f(3) by simp_all
  note 2 = logged_put_ok[OF 1(1) h, of "\<lambda>_. 7"]
  have 2: "log_ready {9} ?t" "held ?t 9 = Some h" "dev_data ?t = ?z" "log_frame ?t = log_frame ?s" "view ?t 9 = (\<lambda>_. 7)"
    "held ?t = [9 \<mapsto> h]"
    using 2 1 h by auto
  have "data_block ?t 9" using data_block_frame[OF 2(4)] f(3) by simp
  note 3 = logged_write_ok[OF 2(1,2) this wr]
  then have 3: "log_ready {} s2" "held s2 9 = Some h" "held s2 = [9 \<mapsto> h]" "dev_data s2 = ?z" "log_frame s2 = log_frame ?s"
    "view s2 9 = (\<lambda>_. 7)" "9 \<in> set (logged s2)" using 2 by auto
  have "9 \<notin> ({} :: uint set)" by simp
  note 4 = logged_relse_ok[OF 3(1,2) this]
  let ?u = "logged_relse h s2"
  have fu: "log_frame ?u = log_frame ?s" using 3 4 by simp
  have "bcache.more ?u = bcache.more s2" by (simp add: logged_relse_def)
  from log_fields_more(5)[OF this] have "lh_n ?u = lh_n s2" .
  then have "0 < lh_n ?u" using 3(7) by (auto simp: logged_def)
  moreover have "lg_start ?u = 2" "lg_size ?u = 4" "dev_nblk ?u = 16" "lg_outstanding ?u = 1" "\<not> lg_committing ?u"
    using fu f by (auto simp: log_frame_def) (simp add: mini_def bcache_init_def)
  moreover have "data_block ?u 9" using data_block_frame[OF fu] f(3) by simp
  moreover have "log_ready {} ?u" "held ?u = Map.empty" "view ?u 9 = (\<lambda>_. 7)" "dev_data ?u = ?z" using 3 4 by auto
  ultimately show ?thesis by (intro that[of ?u])
qed

theorem commit_atomic_witness:
  "\<exists>(s :: fslog) s' k r. log_ready {} s \<and> 0 < lh_n s \<and> commit s = Inr ((), s') \<and> view s 9 \<noteq> dev_data s 9 \<and>
    log_init mini_sb (bcache_init (mini (apply_writes (dev_data s)
      (take k (drop (length (dev_writes s)) (dev_writes s')))))) = Inr ((), r) \<and> view r 9 = view s 9"
proof -
  obtain s :: fslog where s: "log_ready {} s" "held s = Map.empty" "view s 9 = (\<lambda>_. 7)" "dev_data s = (\<lambda>_. zero_block)"
    "0 < lh_n s" "data_block s 9" "lg_start s = 2" "lg_size s = 4" "dev_nblk s = 16" by (rule mini_transaction)
  obtain s' where c: "commit s = Inr ((), s')" using commit_ready[OF s(1,2)] by (auto elim!: returnsE)
  let ?k = "Suc (nat (lh_n s))"
  let ?f = "apply_writes (dev_data s) (take ?k (drop (length (dev_writes s)) (dev_writes s')))"
  have boot: "booted s ?f mini_sb (mini ?f)"
    using s by (simp add: booted_def mini_facts(1) mini_sb_def) (simp add: mini_def)
  obtain r where "log_init mini_sb (bcache_init (mini ?f)) = Inr ((), r)" "view r 9 = view s 9"
    using commit_atomic[OF s(1,2) c refl rtranclp.rtrancl_refl boot] s(6) by (auto elim!: returnsE)
  moreover have "view s 9 \<noteq> dev_data s 9" using s by (auto simp: fun_eq_iff)
  ultimately show ?thesis using s c by blast
qed

end
