(* ===== verification/Log_Threads.thy ===== *)
theory Log_Threads
  imports Log
begin

text \<open>
  The threads of \<^verbatim>\<open>src/log.c\<close>: each file system call runs between \<open>begin_op\<close> and \<open>end_op\<close> on its own
  thread, and the critical sections of the threads interleave. A thread that has to wait in
  \<open>begin_op\<close> takes no step until the log has room; the thread whose \<open>end_op\<close> found no other
  operation runs the commit outside the mutex. \<open>n_log_wrote\<close> is thread-local in the code, so each
  thread keeps its own copy here.
\<close>

section \<open>Frames\<close>

lemma bget_more: "bget b s = Inr (h, s') \<Longrightarrow> bcache.more s' = bcache.more s"
  by (auto simp: bget_def lock_buf_def Let_def upd_buf_def split: option.splits if_splits)

lemma bread_more: "bread b s = Inr (h, s') \<Longrightarrow> bcache.more s' = bcache.more s"
  by (auto simp: bread_def read_block_raw_def lock_disk_def unlock_disk_def upd_buf_def os_read_def chain_eq_Inr
      dest: bget_more split: if_splits)

lemma bwrite_more: "bwrite h s = Inr (n, s') \<Longrightarrow> bcache.more s' = bcache.more s"
  by (auto simp: bwrite_def write_block_raw_def lock_disk_def unlock_disk_def os_write_def dev_put_def chain_eq_Inr
      split: if_splits prod.splits)

lemma bunpin_more [simp]: "bcache.more (bunpin h s) = bcache.more s"
  by (simp add: bunpin_def upd_buf_def)

lemmas step_more = bread_more bwrite_more

lemma log_copy_step_more: "ifok (log_copy_step k s) (\<lambda>(u, s'). bcache.more s' = bcache.more s)"
  by (auto simp: ifok_def log_copy_step_def chain_eq_Inr Let_def dest!: step_more)

lemma install_step_more: "ifok (install_step rec k s) (\<lambda>(u, s'). bcache.more s' = bcache.more s)"
  by (auto simp: ifok_def install_step_def chain_eq_Inr Let_def dest!: step_more split: if_splits)

lemma write_log_header_more:
  "write_log_header_to_disk s = Inr ((), s') \<Longrightarrow> bcache.more s' = bcache.more s"
  by (auto simp: write_log_header_to_disk_def chain_eq_Inr Let_def header_loop dest!: step_more)

lemma foreach_more:
  assumes "\<And>x s. ifok (body x s) (\<lambda>(u, s'). bcache.more s' = bcache.more s)" and "foreach xs body s = Inr ((), s')"
  shows "bcache.more s' = bcache.more s"
proof -
  have "ifok (foreach xs body s) (\<lambda>(u, s'). bcache.more s' = bcache.more s)"
  proof (rule foreach_ifok_inv)
    fix x t assume "bcache.more t = bcache.more s"
    then show "ifok (body x t) (\<lambda>(u, s'). bcache.more s' = bcache.more s)" using assms(1)[of x t] by simp
  qed simp
  then show ?thesis using assms(2) by simp
qed

lemma write_from_cache_more: "write_from_cache_to_log s = Inr ((), s') \<Longrightarrow> bcache.more s' = bcache.more s"
  unfolding write_from_cache_to_log_def by (rule foreach_more[OF log_copy_step_more])

lemma install_transaction_more: "install_transaction rec s = Inr ((), s') \<Longrightarrow> bcache.more s' = bcache.more s"
  unfolding install_transaction_def by (rule foreach_more[OF install_step_more])

text \<open>Whatever the cache holds, a commit that returns has emptied the header and changed nothing else in the log.\<close>

lemma commit_control:
  assumes "commit s = Inr ((), s')"
  shows "log_rest s' = log_rest s \<and> lh_n s' = min (lh_n s) 0"
proof (cases "0 < lh_n s")
  case True
  with assms obtain s1 s2 s3 where c: "write_from_cache_to_log s = Inr ((), s1)" "write_log_header_to_disk s1 = Inr ((), s2)"
    "install_transaction False s2 = Inr ((), s3)" "write_log_header_to_disk (s3\<lparr>lh_n := 0\<rparr>) = Inr ((), s')"
    by (auto simp: commit_def chain_eq_Inr)
  have "bcache.more s3 = bcache.more s"
    using write_from_cache_more[OF c(1)] write_log_header_more[OF c(2)] install_transaction_more[OF c(3)] by simp
  then have "bcache.more s' = bcache.more (s\<lparr>lh_n := 0\<rparr>)"
    using write_log_header_more[OF c(4)] lh_n_more[of s3 s 0] by simp
  then have m: "bcache.more s' = bcache.more (s\<lparr>lh_n := 0\<rparr>)" .
  show ?thesis using True log_rest_more[OF m] log_fields_more(5)[OF m] by (simp add: log_rest_def)
qed (use assms in \<open>simp add: commit_def\<close>)

section \<open>Threads\<close>

datatype phase = Outside | Inside uint | Committing | Leaving

type_synonym 'a threads = "'a fslog_scheme \<times> (nat \<Rightarrow> phase)"

text \<open>
  The steps a thread \<open>t\<close> takes. \<open>Inside w\<close> is a thread between \<open>begin_op\<close> and \<open>end_op\<close> that has
  logged \<open>w\<close> writes; \<open>budget\<close> is how many the file system calls allow themselves. \<open>other\<close> stands
  for everything the thread does with the buffers it holds, which is not the log's business.
\<close>

inductive lstep :: "nat \<Rightarrow> 'a threads \<Rightarrow> 'a threads \<Rightarrow> bool" for budget where
  enter: "ph t = Outside \<Longrightarrow> begin_op s = Inr ((), s') \<Longrightarrow>
    lstep budget (s, ph) (s', ph(t := Inside (n_log_wrote s')))"
| log_write: "ph t = Inside w \<Longrightarrow> unat w < budget \<Longrightarrow> logged_write b (s\<lparr>n_log_wrote := w\<rparr>) = Inr ((), s') \<Longrightarrow>
    lstep budget (s, ph) (s', ph(t := Inside (n_log_wrote s')))"
| other_step: "ph t = Inside w \<Longrightarrow> log_rest s' = log_rest s \<Longrightarrow> lh_n s' = lh_n s \<Longrightarrow>
    lstep budget (s, ph) (s', ph)"
| end_last: "ph t = Inside w \<Longrightarrow> end_op_enter s = Inr (True, s') \<Longrightarrow>
    lstep budget (s, ph) (s', ph(t := Committing))"
| end_other: "ph t = Inside w \<Longrightarrow> end_op_enter s = Inr (False, s') \<Longrightarrow>
    lstep budget (s, ph) (s', ph(t := Outside))"
| do_commit: "ph t = Committing \<Longrightarrow> commit s = Inr ((), s') \<Longrightarrow>
    lstep budget (s, ph) (s', ph(t := Leaving))"
| leave_op: "ph t = Leaving \<Longrightarrow> lstep budget (s, ph) (end_op_leave s, ph(t := Outside))"

inductive_cases lstepE: "lstep budget c c'"

section \<open>The invariant\<close>

text \<open>
  \<open>credit\<close> is what a thread inside an operation may still write; the log's entries and the
  threads' credits together fit the \<open>NLOG\<close> blocks \<open>begin_op\<close> reserves from.
\<close>

fun credit :: "phase \<Rightarrow> int" where
  "credit (Inside w) = int MAXOPBLOCKS - int (unat w)"
| "credit _ = 0"

definition inside :: "(nat \<Rightarrow> phase) \<Rightarrow> nat set" where
  "inside ph = {t. \<exists>w. ph t = Inside w}"

definition ending :: "(nat \<Rightarrow> phase) \<Rightarrow> nat set" where
  "ending ph = {t. ph t = Committing \<or> ph t = Leaving}"

definition threads_inv :: "'a threads \<Rightarrow> bool" where
  "threads_inv c \<longleftrightarrow> (case c of (s, ph) \<Rightarrow>
    finite (inside ph) \<and> lg_outstanding s = int (card (inside ph)) \<and>
    (lg_committing s \<longrightarrow> inside ph = {} \<and> (\<exists>t. ending ph = {t})) \<and> (\<not> lg_committing s \<longrightarrow> ending ph = {}) \<and>
    (\<forall>t w. ph t = Inside w \<longrightarrow> unat w \<le> MAXOPBLOCKS) \<and> 0 \<le> lh_n s \<and>
    lh_n s + (\<Sum>t\<in>inside ph. credit (ph t)) \<le> int NLOG)"

definition threads_init :: "'a threads \<Rightarrow> bool" where
  "threads_init c \<longleftrightarrow> (case c of (s, ph) \<Rightarrow> ph = (\<lambda>_. Outside) \<and> lg_outstanding s = 0 \<and> \<not> lg_committing s \<and> lh_n s = 0)"

lemma threads_init_inv: "threads_init c \<Longrightarrow> threads_inv c"
  by (auto simp: threads_init_def threads_inv_def inside_def ending_def NLOG_def)

lemma inside_upd:
  "inside (ph(t := Inside w)) = insert t (inside ph)"
  "inside (ph(t := Outside)) = inside ph - {t}" "inside (ph(t := Committing)) = inside ph - {t}"
  "inside (ph(t := Leaving)) = inside ph - {t}"
  "ending (ph(t := Inside w)) = ending ph - {t}" "ending (ph(t := Outside)) = ending ph - {t}"
  "ending (ph(t := Committing)) = insert t (ending ph)" "ending (ph(t := Leaving)) = insert t (ending ph)"
  by (auto simp: inside_def ending_def)

lemma credit_upd:
  assumes "finite (inside ph)"
  shows "(\<Sum>x\<in>insert t (inside ph). credit ((ph(t := p)) x)) = credit p + (\<Sum>x\<in>inside ph - {t}. credit (ph x))"
    and "(\<Sum>x\<in>inside ph - {t}. credit ((ph(t := p)) x)) = (\<Sum>x\<in>inside ph - {t}. credit (ph x))"
    and "t \<in> inside ph \<Longrightarrow> (\<Sum>x\<in>inside ph. credit (ph x)) = credit (ph t) + (\<Sum>x\<in>inside ph - {t}. credit (ph x))"
proof -
  show same: "(\<Sum>x\<in>inside ph - {t}. credit ((ph(t := p)) x)) = (\<Sum>x\<in>inside ph - {t}. credit (ph x))"
    by (rule sum.cong) auto
  then show "(\<Sum>x\<in>insert t (inside ph). credit ((ph(t := p)) x)) = credit p + (\<Sum>x\<in>inside ph - {t}. credit (ph x))"
    using assms by (simp add: sum.insert_remove)
  show "t \<in> inside ph \<Longrightarrow> (\<Sum>x\<in>inside ph. credit (ph x)) = credit (ph t) + (\<Sum>x\<in>inside ph - {t}. credit (ph x))"
    using assms by (rule sum.remove)
qed

lemma logged_write_control:
  assumes "logged_write b s = Inr ((), s')" "0 \<le> lh_n s"
  shows "lg_outstanding s' = lg_outstanding s" "lg_committing s' = lg_committing s"
    "n_log_wrote s' = n_log_wrote s + 1" "lh_n s \<le> lh_n s'" "lh_n s' \<le> lh_n s + 1"
proof -
  have m: "bcache.more (bpin b t) = bcache.more t" for t :: "'a fslog_scheme" by simp
  have "lg_outstanding s' = lg_outstanding s \<and> lg_committing s' = lg_committing s \<and>
      n_log_wrote s' = n_log_wrote s + 1 \<and> lh_n s \<le> lh_n s' \<and> lh_n s' \<le> lh_n s + 1"
    using assms refl
    by (cases rule: logged_write_cases) (simp_all add: log_fields_more[OF m])
  then show "lg_outstanding s' = lg_outstanding s" "lg_committing s' = lg_committing s"
    "n_log_wrote s' = n_log_wrote s + 1" "lh_n s \<le> lh_n s'" "lh_n s' \<le> lh_n s + 1" by blast+
qed

lemma credits_le: "finite (inside ph) \<Longrightarrow> (\<Sum>t\<in>inside ph. credit (ph t)) \<le> int (card (inside ph)) * int MAXOPBLOCKS"
proof -
  have "credit p \<le> int MAXOPBLOCKS" for p by (cases p) simp_all
  then show ?thesis using sum_bounded_above[of "inside ph" "\<lambda>t. credit (ph t)" "int MAXOPBLOCKS"] by simp
qed

lemma threads_inv_enter:
  assumes inv: "threads_inv (s, ph)" and t: "ph t = Outside" and run: "begin_op s = Inr ((), s')"
  shows "threads_inv (s', ph(t := Inside (n_log_wrote s')))"
proof -
  have s': "s' = s\<lparr>lg_outstanding := lg_outstanding s + 1, n_log_wrote := 0\<rparr>" and c: "\<not> lg_committing s"
    and room: "lh_n s + (lg_outstanding s + 1) * int MAXOPBLOCKS \<le> int NLOG"
    using run by (auto simp: begin_op_def split: if_splits)
  have i: "finite (inside ph)" "lg_outstanding s = int (card (inside ph))" "ending ph = {}" "0 \<le> lh_n s"
    "\<forall>t w. ph t = Inside w \<longrightarrow> unat w \<le> MAXOPBLOCKS"
    using inv c by (auto simp: threads_inv_def)
  have tn: "t \<notin> inside ph" using t by (simp add: inside_def)
  have "(\<Sum>x\<in>insert t (inside ph). credit ((ph(t := Inside 0)) x)) \<le> (int (card (inside ph)) + 1) * int MAXOPBLOCKS"
    using credits_le[OF i(1)] by (simp add: credit_upd(1)[OF i(1)] tn distrib_right del: fun_upd_apply)
  then have "lh_n s + (\<Sum>x\<in>insert t (inside ph). credit ((ph(t := Inside 0)) x)) \<le> int NLOG"
    using room i(2) by simp
  then show ?thesis
    using i tn c by (simp add: threads_inv_def s' inside_upd del: fun_upd_apply) simp
qed

lemma threads_inv_write:
  assumes inv: "threads_inv (s, ph)" and t: "ph t = Inside w" "unat w < budget" "budget \<le> MAXOPBLOCKS"
    and run: "logged_write b (s\<lparr>n_log_wrote := w\<rparr>) = Inr ((), s')"
  shows "threads_inv (s', ph(t := Inside (n_log_wrote s')))"
proof -
  have i: "finite (inside ph)" "lg_outstanding s = int (card (inside ph))" "0 \<le> lh_n s"
    "lg_committing s \<longrightarrow> inside ph = {}" "\<not> lg_committing s \<longrightarrow> ending ph = {}"
    "\<forall>t w. ph t = Inside w \<longrightarrow> unat w \<le> MAXOPBLOCKS"
    "lh_n s + (\<Sum>t\<in>inside ph. credit (ph t)) \<le> int NLOG"
    using inv by (auto simp: threads_inv_def)
  have tn: "t \<in> inside ph" "insert t (inside ph) = inside ph" using t by (auto simp: inside_def)
  then have c: "\<not> lg_committing s" "ending ph = {}" using i by auto
  have f: "lg_outstanding s' = lg_outstanding s" "lg_committing s' = lg_committing s" "n_log_wrote s' = w + 1"
    "lh_n s \<le> lh_n s'" "lh_n s' \<le> lh_n s + 1"
    using logged_write_control[OF run] i(3) by simp_all
  have "unat w < 127" using t by (simp add: MAXOPBLOCKS_def)
  then have u: "unat (w + 1) = unat w + 1" by (simp add: unat_word_ariths)
  have "lh_n s' + (\<Sum>x\<in>insert t (inside ph). credit ((ph(t := Inside (w + 1))) x)) \<le> int NLOG"
    using i(7) f(5) t(1) by (simp add: credit_upd(1)[OF i(1)] credit_upd(3)[OF i(1) tn(1)] u del: fun_upd_apply)
  then show ?thesis
    using i f c tn t u by (simp add: threads_inv_def inside_upd del: fun_upd_apply) simp
qed

lemma threads_inv_end:
  assumes inv: "threads_inv (s, ph)" and t: "ph t = Inside w" and run: "end_op_enter s = Inr (fin, s')"
  shows "threads_inv (s', ph(t := (if fin then Committing else Outside)))"
proof -
  have i: "finite (inside ph)" "lg_outstanding s = int (card (inside ph))" "0 \<le> lh_n s"
    "\<not> lg_committing s \<longrightarrow> ending ph = {}" "\<forall>t w. ph t = Inside w \<longrightarrow> unat w \<le> MAXOPBLOCKS"
    "lh_n s + (\<Sum>t\<in>inside ph. credit (ph t)) \<le> int NLOG"
    using inv by (auto simp: threads_inv_def)
  have tn: "t \<in> inside ph" using t by (auto simp: inside_def)
  have "unat w \<le> MAXOPBLOCKS" using t i(5) by blast
  then have pos: "0 \<le> credit (ph t)" using t by (simp del: of_nat_unat)
  have card: "int (card (inside ph - {t})) = lg_outstanding s - 1"
    using tn i(1,2) by (simp add: card_Diff_singleton of_nat_diff card_gt_0_iff Suc_leI) (metis One_nat_def Suc_leI card_gt_0_iff empty_iff int_ops(2) of_nat_diff)
  have sum: "lh_n s + (\<Sum>x\<in>inside ph - {t}. credit ((ph(t := p)) x)) \<le> int NLOG" for p
    using i(6) pos by (simp only: credit_upd(2)[OF i(1)] credit_upd(3)[OF i(1) tn])
  have run': "\<not> lg_committing s" "fin \<longleftrightarrow> lg_outstanding s = 1"
    "s' = s\<lparr>lg_outstanding := lg_outstanding s - 1, lg_committing := fin\<rparr>"
    using run by (auto simp: end_op_enter_def Let_def split: if_splits)
  have "inside ph - {t} = {}" if fin
    using card that run'(2) i(1) by simp
  moreover have "unat v \<le> MAXOPBLOCKS" if "(ph(t := (if fin then Committing else Outside))) x = Inside v" for x v
    using that i(5) by (cases "x = t"; cases fin) auto
  ultimately show ?thesis
    using i run' card sum by (auto simp: threads_inv_def inside_upd simp del: fun_upd_apply)
qed

lemma lstep_inv:
  assumes "lstep budget c c'" "threads_inv c" "budget \<le> MAXOPBLOCKS"
  shows "threads_inv c'"
  using assms
proof (cases rule: lstep.cases)
  case (enter ph t s s')
  then show ?thesis using threads_inv_enter assms(2) by blast
next
  case (log_write ph t w b s s')
  then show ?thesis using threads_inv_write assms by blast
next
  case (other_step ph t w s' s)
  then show ?thesis using assms(2) by (simp add: threads_inv_def log_rest_def)
next
  case (end_last ph t w s s')
  then show ?thesis using threads_inv_end[of s ph t w True s'] assms(2) by simp
next
  case (end_other ph t w s s')
  then show ?thesis using threads_inv_end[of s ph t w False s'] assms(2) by simp
next
  case (do_commit ph t s s')
  then have e: "t \<in> ending ph" and inv: "threads_inv (s, ph)" using assms(2) by (simp_all add: ending_def)
  then have c: "lg_committing s" "inside ph = {}" "ending ph = {t}" by (auto simp: threads_inv_def)
  have "log_rest s' = log_rest s" "lh_n s' = 0"
    using commit_control[OF do_commit(4)] inv by (auto simp: threads_inv_def)
  then show ?thesis
    using inv c do_commit(3) unfolding do_commit(2)
    by (simp add: threads_inv_def inside_upd log_rest_def)
next
  case (leave_op ph t s)
  then have e: "t \<in> ending ph" and inv: "threads_inv (s, ph)" using assms(2) by (simp_all add: ending_def)
  then have "lg_committing s" "inside ph = {}" "ending ph = {t}" by (auto simp: threads_inv_def)
  then show ?thesis
    using inv leave_op(3) unfolding leave_op(2)
    by (simp add: threads_inv_def inside_upd end_op_leave_def)
qed

lemma reachable_inv:
  assumes "(lstep budget)\<^sup>*\<^sup>* c c'" "threads_init c" "budget \<le> MAXOPBLOCKS"
  shows "threads_inv c'"
  using assms(1)
  by (induction rule: rtranclp_induct) (use assms(2,3) threads_init_inv lstep_inv in blast)+

text \<open>
  C4: while a thread commits, no operation is outstanding, every other thread is outside the file
  system calls, and begin_op blocks.
\<close>

theorem commit_exclusive:
  assumes "(lstep budget)\<^sup>*\<^sup>* c (s, ph)" "threads_init c" "budget \<le> MAXOPBLOCKS"
    and "ph t = Committing \<or> ph t = Leaving"
  shows "lg_outstanding s = 0 \<and> lg_committing s \<and> begin_op s = Inl Blocked \<and>
    (\<forall>u. u \<noteq> t \<longrightarrow> ph u = Outside)"
proof -
  have inv: "threads_inv (s, ph)" by (rule reachable_inv[OF assms(1-3)])
  have "t \<in> ending ph" using assms(4) by (simp add: ending_def)
  then have c: "lg_committing s" "inside ph = {}" "ending ph = {t}" using inv by (auto simp: threads_inv_def)
  then have "ph u = Outside" if "u \<noteq> t" for u
    using that by (cases "ph u") (auto simp: inside_def ending_def)
  then show ?thesis using c inv by (simp add: begin_op_def threads_inv_def)
qed

text \<open>
  C3: with a log of NLOG blocks, as mkfs makes it, and whatever the interleaving of the threads,
  if every operation logs fewer than MAXOPBLOCKS writes then no logged_write of a thread inside an
  operation fails with a full log, and no end_op finds a commit under way.
\<close>

theorem no_thread_error:
  assumes "(lstep budget)\<^sup>*\<^sup>* c (s, ph)" "threads_init c" "budget < MAXOPBLOCKS" "lg_size s = int NLOG"
    and "ph t = Inside w"
  shows "(unat w < budget \<longrightarrow> (\<exists>s'. logged_write b (s\<lparr>n_log_wrote := w\<rparr>) = Inr ((), s'))) \<and>
    (\<exists>fin s'. end_op_enter s = Inr (fin, s') \<and> 0 \<le> lg_outstanding s')"
proof -
  have inv: "threads_inv (s, ph)" by (rule reachable_inv[OF assms(1,2)]) (use assms(3) in simp)
  then have i: "finite (inside ph)" "lg_outstanding s = int (card (inside ph))" "lg_committing s \<longrightarrow> inside ph = {}"
    "\<forall>t w. ph t = Inside w \<longrightarrow> unat w \<le> MAXOPBLOCKS" "lh_n s + (\<Sum>t\<in>inside ph. credit (ph t)) \<le> int NLOG"
    by (auto simp: threads_inv_def)
  have tn: "t \<in> inside ph" using assms(5) by (auto simp: inside_def)
  have out: "1 \<le> lg_outstanding s"
    using tn i(1,2) card_gt_0_iff[of "inside ph"] by (auto simp: Suc_le_eq)
  have pos: "0 \<le> (\<Sum>x\<in>inside ph - {t}. credit (ph x))"
  proof (rule sum_nonneg)
    fix x assume "x \<in> inside ph - {t}"
    then obtain v where "ph x = Inside v" by (auto simp: inside_def)
    then show "0 \<le> credit (ph x)" using i(4) by (simp del: of_nat_unat)
  qed
  have "\<exists>s'. logged_write b (s\<lparr>n_log_wrote := w\<rparr>) = Inr ((), s')" if "unat w < budget"
  proof -
    have "unat w + 2 \<le> MAXOPBLOCKS" using that assms(3) by simp
    then have "2 \<le> credit (ph t)" using assms(5) by (simp del: of_nat_unat)
    then have "lh_n s \<le> int NLOG - 2" using i(5) pos by (simp add: credit_upd(3)[OF i(1) tn])
    then show ?thesis using out assms(4) by (intro logged_write_returns) simp_all
  qed
  moreover have "\<not> lg_committing s" using i(3) tn by blast
  ultimately show ?thesis using out by (auto simp: end_op_enter_def Let_def)
qed

definition empty_log :: "int \<Rightarrow> fslog" where
  "empty_log n = (mini (\<lambda>_. zero_block))\<lparr>lg_size := n, lg_outstanding := 0\<rparr>"

lemma empty_log_enter:
  "threads_init (empty_log n, \<lambda>_. Outside)"
  "lstep budget (empty_log n, \<lambda>_. Outside) (empty_log n\<lparr>lg_outstanding := 1\<rparr>, (\<lambda>_. Outside)(0 := Inside 0))"
proof -
  show "threads_init (empty_log n, \<lambda>_. Outside)" by (simp add: threads_init_def empty_log_def mini_def)
  have "begin_op (empty_log n) = Inr ((), empty_log n\<lparr>lg_outstanding := 1\<rparr>)"
    by (simp add: begin_op_def empty_log_def mini_def NLOG_def MAXOPBLOCKS_def)
  from lstep.enter[OF _ this, of "\<lambda>_. Outside" 0 budget]
  show "lstep budget (empty_log n, \<lambda>_. Outside) (empty_log n\<lparr>lg_outstanding := 1\<rparr>, (\<lambda>_. Outside)(0 := Inside 0))"
    by (simp add: empty_log_def mini_def)
qed

theorem commit_exclusive_witness:
  "\<exists>s ph. (lstep 126)\<^sup>*\<^sup>* (empty_log 4, \<lambda>_. Outside) (s, ph) \<and> ph 0 = Committing \<and> begin_op s = Inl Blocked"
proof -
  let ?s = "empty_log 4\<lparr>lg_outstanding := 1\<rparr>" and ?ph = "(\<lambda>_. Outside)(0 := Inside 0)"
  have "end_op_enter ?s = Inr (True, ?s\<lparr>lg_outstanding := 0, lg_committing := True\<rparr>)"
    by (simp add: end_op_enter_def empty_log_def mini_def Let_def)
  from lstep.end_last[OF _ this, of ?ph 0 0 126]
  have "lstep 126 (?s, ?ph) (?s\<lparr>lg_outstanding := 0, lg_committing := True\<rparr>, ?ph(0 := Committing))" by simp
  then have r: "(lstep 126)\<^sup>*\<^sup>* (empty_log 4, \<lambda>_. Outside) (?s\<lparr>lg_outstanding := 0, lg_committing := True\<rparr>, ?ph(0 := Committing))"
    using empty_log_enter(2)[of 126 4] by (meson converse_rtranclp_into_rtranclp r_into_rtranclp)
  have ph: "(?ph(0 := Committing)) 0 = Committing" by simp
  then show ?thesis
    using commit_exclusive[OF r empty_log_enter(1), of 0] r by (intro exI conjI) (assumption | simp add: MAXOPBLOCKS_def)+
qed

theorem no_thread_error_witness:
  "\<exists>s ph. (lstep 126)\<^sup>*\<^sup>* (empty_log 1016, \<lambda>_. Outside) (s, ph) \<and> ph 0 = Inside 0 \<and>
    (\<exists>s'. logged_write 5 (s\<lparr>n_log_wrote := 0\<rparr>) = Inr ((), s'))"
proof -
  let ?s = "empty_log 1016\<lparr>lg_outstanding := 1\<rparr>" and ?ph = "(\<lambda>_. Outside)(0 := Inside 0)"
  have r: "(lstep 126)\<^sup>*\<^sup>* (empty_log 1016, \<lambda>_. Outside) (?s, ?ph)" using empty_log_enter(2) by blast
  have "\<exists>s'. logged_write 5 (?s\<lparr>n_log_wrote := 0\<rparr>) = Inr ((), s')"
    using no_thread_error[OF r empty_log_enter(1), of 0 0 5]
    by (simp add: MAXOPBLOCKS_def NLOG_def empty_log_def)
  then show ?thesis using r by (intro exI[of _ ?s] exI[of _ ?ph]) simp
qed

section \<open>An overbooked log\<close>

text \<open>
  \<open>begin_op\<close> admits eight operations of \<open>MAXOPBLOCKS\<close> writes each against a log that
  \<open>logged_write\<close> lets hold one block less. \<open>booked n\<close> is eight operations that have logged \<open>n\<close>
  different blocks, one operation after the other.
\<close>

definition booked_phases :: "nat \<Rightarrow> nat \<Rightarrow> phase" where
  "booked_phases n = (\<lambda>t. if t < 8 then Inside (word_of_nat (min MAXOPBLOCKS (n - MAXOPBLOCKS * t))) else Outside)"

definition booked :: "nat \<Rightarrow> fslog \<Rightarrow> bool" where
  "booked n s \<longleftrightarrow> lh_n s = int n \<and> (\<forall>i<n. lh_block s i = word_of_nat i) \<and> lg_outstanding s = 8 \<and>
    \<not> lg_committing s \<and> lg_size s = int NLOG"

lemma booked_enter:
  "k \<le> 8 \<Longrightarrow> \<exists>s. (lstep b)\<^sup>*\<^sup>* (empty_log (int NLOG), \<lambda>_. Outside) (s, \<lambda>t. if t < k then Inside 0 else Outside) \<and>
    lh_n s = 0 \<and> lg_outstanding s = int k \<and> \<not> lg_committing s \<and> lg_size s = int NLOG"
proof (induction k)
  case 0
  then show ?case by (intro exI[of _ "empty_log (int NLOG)"]) (simp add: empty_log_def mini_def)
next
  case (Suc k)
  let ?ph = "\<lambda>t. if t < k then Inside 0 else Outside"
  from Suc obtain s where s: "(lstep b)\<^sup>*\<^sup>* (empty_log (int NLOG), \<lambda>_. Outside) (s, ?ph)"
    "lh_n s = 0" "lg_outstanding s = int k" "\<not> lg_committing s" "lg_size s = int NLOG" by auto
  let ?s = "s\<lparr>lg_outstanding := int k + 1, n_log_wrote := 0\<rparr>"
  have "begin_op s = Inr ((), ?s)"
    using s Suc.prems by (simp add: begin_op_def NLOG_def MAXOPBLOCKS_def)
  from lstep.enter[OF _ this, of ?ph k b] have "lstep b (s, ?ph) (?s, ?ph(k := Inside 0))" by simp
  moreover have "?ph(k := Inside 0) = (\<lambda>t. if t < Suc k then Inside 0 else Outside)" by auto
  ultimately have "(lstep b)\<^sup>*\<^sup>* (empty_log (int NLOG), \<lambda>_. Outside) (?s, \<lambda>t. if t < Suc k then Inside 0 else Outside)"
    using s(1) by (simp add: rtranclp.rtrancl_into_rtrancl)
  then show ?case using s by (intro exI[of _ ?s]) simp
qed

lemma booked_write:
  assumes n: "n < NLOG - 1" and s: "booked n s"
  shows "\<exists>s'. (lstep MAXOPBLOCKS)\<^sup>*\<^sup>* (s, booked_phases n) (s', booked_phases (Suc n)) \<and> booked (Suc n) s'"
proof -
  let ?t = "n div MAXOPBLOCKS" and ?w = "n mod MAXOPBLOCKS"
  let ?W = "word_of_nat ?w :: uint"
  have nt: "n = MAXOPBLOCKS * ?t + ?w" "?w < MAXOPBLOCKS" "?t < 8"
    using n by (simp_all add: NLOG_def MAXOPBLOCKS_def)
  have ph: "booked_phases n ?t = Inside ?W"
    using nt by (simp add: booked_phases_def MAXOPBLOCKS_def minus_mult_div_eq_mod)
  have W: "unat ?W < MAXOPBLOCKS" using nt(2) by (simp add: unsigned_of_nat take_bit_nat_eq_self MAXOPBLOCKS_def)
  let ?u = "upd_buf 0 (bb_blockno_update (\<lambda>_. word_of_nat n)) s"
  have other: "lstep MAXOPBLOCKS (s, booked_phases n) (?u, booked_phases n)"
    by (rule lstep.other_step[of "booked_phases n" ?t ?W, OF ph]) (simp_all add: log_rest_def upd_buf_def)
  have fresh: "find_from (\<lambda>i. lh_block s i = word_of_nat n) 0 n = None"
  proof -
    have "word_of_nat i \<noteq> (word_of_nat n :: uint)" if "i < n" for i
      using that n by (simp add: word_unat_eq_iff unsigned_of_nat take_bit_nat_eq_self NLOG_def MAXOPBLOCKS_def)
    then show ?thesis using s by (auto simp: find_from_None booked_def)
  qed
  let ?v = "(bpin 0 (?u\<lparr>n_log_wrote := ?W + 1, lh_block := (lh_block s)(n := word_of_nat n)\<rparr>))\<lparr>lh_n := int n + 1\<rparr>"
  have "lg_outstanding ?u = 8" "lh_n ?u = int n" "lg_size ?u = int NLOG" "lh_block ?u = lh_block s"
    "bb_blockno (bc_buf ?u 0) = word_of_nat n" using s by (simp_all add: booked_def upd_buf_def)
  then have "logged_write 0 (?u\<lparr>n_log_wrote := ?W\<rparr>) = Inr ((), ?v)"
    using n fresh by (simp add: logged_write_def Let_def bpin_def upd_buf_def NLOG_def MAXOPBLOCKS_def)
  from lstep.log_write[of "booked_phases n" ?t ?W, OF ph W this] have
    wr: "lstep MAXOPBLOCKS (?u, booked_phases n) (?v, (booked_phases n)(?t := Inside (n_log_wrote ?v)))" .
  have eq: "(booked_phases n)(?t := Inside (n_log_wrote ?v)) = booked_phases (Suc n)"
  proof
    fix t
    have "min MAXOPBLOCKS (Suc n - MAXOPBLOCKS * t) = (if t = ?t then Suc ?w else min MAXOPBLOCKS (n - MAXOPBLOCKS * t))"
    proof -
      have split: "n = MAXOPBLOCKS * q + w \<Longrightarrow> w < MAXOPBLOCKS \<Longrightarrow>
          min MAXOPBLOCKS (Suc n - MAXOPBLOCKS * t) = (if t = q then Suc w else min MAXOPBLOCKS (n - MAXOPBLOCKS * t))" for q w
        by (cases t q rule: linorder_cases) (auto simp: MAXOPBLOCKS_def dest!: less_imp_Suc_add)
      show ?thesis using split[OF nt(1,2)] .
    qed
    then show "((booked_phases n)(?t := Inside (n_log_wrote ?v))) t = booked_phases (Suc n) t"
      using nt(3) by (simp add: booked_phases_def bpin_def upd_buf_def add.commute)
  qed
  have "(lstep MAXOPBLOCKS)\<^sup>*\<^sup>* (s, booked_phases n) (?v, booked_phases (Suc n))"
    by (rule converse_rtranclp_into_rtranclp[OF other r_into_rtranclp[of "lstep MAXOPBLOCKS", OF wr[unfolded eq]]])
  moreover have "booked (Suc n) ?v"
    using s by (auto simp: booked_def bpin_def upd_buf_def less_Suc_eq)
  ultimately show ?thesis by blast
qed

lemma booked_all:
  "n \<le> NLOG - 1 \<Longrightarrow>
    \<exists>s. (lstep MAXOPBLOCKS)\<^sup>*\<^sup>* (empty_log (int NLOG), \<lambda>_. Outside) (s, booked_phases n) \<and> booked n s"
proof (induction n)
  case 0
  have "booked_phases 0 = (\<lambda>t. if t < 8 then Inside 0 else Outside)" by (simp add: booked_phases_def cong: if_cong)
  then show ?case using booked_enter[of 8 MAXOPBLOCKS] by (auto simp: booked_def)
next
  case (Suc n)
  then obtain s where "(lstep MAXOPBLOCKS)\<^sup>*\<^sup>* (empty_log (int NLOG), \<lambda>_. Outside) (s, booked_phases n)" "booked n s" by auto
  then show ?case using booked_write[of n s] Suc.prems by (meson Suc_le_lessD rtranclp_trans)
qed

text \<open>
  C40: begin_op admits eight operations of MAXOPBLOCKS writes each, and these can fill the log so
  that a thread that has logged fewer than MAXOPBLOCKS writes stops the file system with too big a
  transaction.
\<close>

theorem overbooked:
  "\<exists>(s :: fslog) ph t w. (lstep MAXOPBLOCKS)\<^sup>*\<^sup>* (empty_log (int NLOG), \<lambda>_. Outside) (s, ph) \<and>
    ph t = Inside w \<and> unat w < MAXOPBLOCKS \<and> (\<forall>b. logged_write b s = Inl (Err_exit ''too big a transaction''))"
proof -
  obtain s where s: "(lstep MAXOPBLOCKS)\<^sup>*\<^sup>* (empty_log (int NLOG), \<lambda>_. Outside) (s, booked_phases (NLOG - 1))" "booked (NLOG - 1) s"
    using booked_all[of "NLOG - 1"] by auto
  have "logged_write b s = Inl (Err_exit ''too big a transaction'')" for b
    using s(2) by (simp add: booked_def logged_write_def NLOG_def MAXOPBLOCKS_def)
  moreover have "booked_phases (NLOG - 1) 7 = Inside 126"
    by (simp add: booked_phases_def NLOG_def MAXOPBLOCKS_def)
  ultimately show ?thesis
    using s(1) by (intro exI[of _ s] exI[of _ "booked_phases (NLOG - 1)"] exI[of _ 7] exI[of _ 126]) (simp add: MAXOPBLOCKS_def)
qed

end
