(* ===== verification/Block_Alloc.thy ===== *)
theory Block_Alloc
  imports Log
begin

text \<open>
  \<^verbatim>\<open>src/block_allocator.c\<close>: the free-block bitmap. \<open>struct bmap_cache\<close> is a copy of the bitmap
  blocks, and per bitmap block the number of allocated blocks and the first free one. An access
  outside the three arrays is \<open>Bad_access\<close>. The mutex \<open>bmap_cache.lock\<close> is not state: every
  function that takes it releases it before it returns. Tests such as \<open>free_cache_index < 0\<close>,
  which compare an unsigned number with 0, never hold and have no branch here.
\<close>

section \<open>State\<close>

definition BPB :: nat where "BPB = BSIZE * 8"

record bmap = fslog +
  fs_sb :: superblock
  bm_cache :: "nat \<Rightarrow> byte"
  bm_first :: "nat \<Rightarrow> int"
  bm_nalloc :: "nat \<Rightarrow> uint"
  bm_n :: uint
  bm_ffc :: uint

section \<open>Operations\<close>

definition bmap_block_statue_get :: "uint \<Rightarrow> 'a bmap_scheme \<Rightarrow> bool res" where
  "bmap_block_statue_get blockno s =
    (let byte = unat blockno div 8; bit = unat blockno mod 8 in
     if byte \<ge> unat (bm_n s) * BSIZE then Inl Bad_access
     else Inr (and (drop_bit bit (bm_cache s byte)) 1 \<noteq> 0))"

definition bmap_block_statue_set :: "uint \<Rightarrow> bool \<Rightarrow> 'a bmap_scheme \<Rightarrow> (unit \<times> 'a bmap_scheme) res" where
  "bmap_block_statue_set blockno i s =
    (let byte = unat blockno div 8; bit = unat blockno mod 8 in
     if byte \<ge> unat (bm_n s) * BSIZE then Inl Bad_access
     else
       let bits_flag = (if i then or (bm_cache s byte) (push_bit bit 1) else and (bm_cache s byte) (not (push_bit bit 1)));
           s = s\<lparr>bm_cache := (bm_cache s)(byte := bits_flag)\<rparr>;
           bmapno = word_of_nat (unat blockno div BPB) + sb_bmapstart (fs_sb s);
           bmap_byte_off = (unat blockno mod BPB) div 8
       in chain (logged_read bmapno s) (\<lambda>(bp, s).
          chain (logged_write bp (set_data bp ((buf_data s bp)(bmap_byte_off := bits_flag)) s)) (\<lambda>(_, s).
          Inr ((), logged_relse bp s))))"

definition bmap2blockno :: "uint \<Rightarrow> uint \<Rightarrow> uint" where
  "bmap2blockno bmapno bmap_cache_index = bmapno + bmap_cache_index * word_of_nat BPB"

definition roundup :: "size_t \<Rightarrow> size_t \<Rightarrow> size_t" where
  "roundup x align = and (x + align - 1) (not (align - 1))"

text \<open>
  The inner loop of \<open>block_allocator_refresh\<close>, with the local variables \<open>first_unalloced\<close> and
  \<open>blockno\<close> beside the state.
\<close>

definition refresh_bit :: "nat \<Rightarrow> (int \<times> uint) \<times> 'a bmap_scheme \<Rightarrow> (unit \<times> (int \<times> uint) \<times> 'a bmap_scheme) res" where
  "refresh_bit i = (\<lambda>((first_unalloced, blockno), s).
    chain (bmap_block_statue_get blockno s) (\<lambda>used.
    if used then Inr ((), (first_unalloced, blockno + 1), s\<lparr>bm_nalloc := (bm_nalloc s)(i := bm_nalloc s i + 1)\<rparr>)
    else Inr ((), ((if first_unalloced = -1 then uint (blockno mod word_of_nat BPB) else first_unalloced), blockno + 1), s)))"

definition refresh_block :: "superblock \<Rightarrow> nat \<Rightarrow> uint \<times> 'a bmap_scheme \<Rightarrow> (unit \<times> uint \<times> 'a bmap_scheme) res" where
  "refresh_block sb i = (\<lambda>(blockno, s).
    chain (logged_read (word_of_nat i + sb_bmapstart sb) s) (\<lambda>(bp, s).
    let s = s\<lparr>bm_cache := (\<lambda>a. if i * BSIZE \<le> a \<and> a < i * BSIZE + BSIZE then buf_data s bp (a - i * BSIZE) else bm_cache s a)\<rparr>;
        s = logged_relse bp s;
        s = s\<lparr>bm_nalloc := (bm_nalloc s)(i := 0)\<rparr>
    in chain (foreach [0..<BPB] (\<lambda>j. refresh_bit i) ((-1, blockno), s)) (\<lambda>(_, (first_unalloced, blockno), s).
    Inr ((), blockno, s\<lparr>bm_first := (bm_first s)(i := first_unalloced)\<rparr>))))"

text \<open>The local \<open>first_free\<close> of the code is computed and not used; \<open>first_free_cache\<close> stays as it was.\<close>

definition block_allocator_refresh :: "superblock \<Rightarrow> 'a bmap_scheme \<Rightarrow> (unit \<times> 'a bmap_scheme) res" where
  "block_allocator_refresh sb s =
    (let ncache_blocks = ucast (roundup (ucast (sb_size sb)) (word_of_nat BPB) div word_of_nat BPB);
         s = s\<lparr>bm_n := ncache_blocks\<rparr>
     in chain (begin_op s) (\<lambda>(_, s).
        chain (foreach [0..<unat ncache_blocks] (refresh_block sb) (0, s)) (\<lambda>(_, _, s).
        end_op s)))"

text \<open>Formatting: the blocks before the data blocks and those past the end of the device
  are marked. The second loop starts at the size as an \<open>int\<close>.\<close>

definition mark_block :: "uint \<Rightarrow> 'a bmap_scheme \<Rightarrow> (unit \<times> 'a bmap_scheme) res" where
  "mark_block b s =
    chain (begin_op s) (\<lambda>(_, s). chain (bmap_block_statue_set b True s) (\<lambda>(_, s). end_op s))"

definition init_meta_blocks_bmap :: "'a bmap_scheme \<Rightarrow> (unit \<times> 'a bmap_scheme) res" where
  "init_meta_blocks_bmap s =
    (let sb = fs_sb s; nmeta_bloks = sb_size sb - sb_nblocks sb in
     chain (foreach [0..<unat nmeta_bloks] (\<lambda>i. mark_block (word_of_nat i)) s) (\<lambda>(_, s).
     foreach [unat (scast (sb_size sb) :: size_t)..<unat (roundup (ucast (sb_size sb)) (word_of_nat BPB))] (\<lambda>i. mark_block (word_of_nat i)) s))"

definition logged_zero_a_block :: "uint \<Rightarrow> 'a bmap_scheme \<Rightarrow> (unit \<times> 'a bmap_scheme) res" where
  "logged_zero_a_block bno s =
    chain (logged_read bno s) (\<lambda>(bp, s).
    chain (logged_write bp (set_data bp zero_block s)) (\<lambda>(_, s).
    Inr ((), logged_relse bp s)))"

text \<open>The search for the next free block of the group stops at the first one; without one it changes nothing.\<close>

function next_free :: "uint \<Rightarrow> nat \<Rightarrow> 'a bmap_scheme \<Rightarrow> 'a bmap_scheme res" where
  "next_free idx i s =
    (if i < BPB then
       chain (bmap_block_statue_get (bmap2blockno (word_of_nat i) idx) s) (\<lambda>used.
       if \<not> used then Inr (s\<lparr>bm_first := (bm_first s)(unat idx := int i)\<rparr>)
       else next_free idx (Suc i) s)
     else Inr s)"
  by pat_completeness auto
termination
  by (relation "measure (\<lambda>(idx, i, s). BPB - i)") auto

declare next_free.simps [simp del]

definition block_alloc :: "'a bmap_scheme \<Rightarrow> (uint \<times> 'a bmap_scheme) res" where
  "block_alloc s =
    (let idx = bm_ffc s in
     if unat idx \<ge> unat (bm_n s) then Inl Bad_access
     else
       let first_free_block = word_of_int (bm_first s (unat idx));
           victim_blockno = bmap2blockno first_free_block idx
       in chain (bmap_block_statue_set victim_blockno True s) (\<lambda>(_, s).
          let s = s\<lparr>bm_nalloc := (bm_nalloc s)(unat idx := bm_nalloc s (unat idx) + 1)\<rparr> in
          chain
            (if bm_nalloc s (unat idx) = word_of_nat BPB then
               let s = s\<lparr>bm_first := (bm_first s)(unat idx := -1)\<rparr> in
               case find_from (\<lambda>i. bm_first s i \<noteq> -1) 0 (unat (bm_n s)) of
                 Some i \<Rightarrow> Inr (s\<lparr>bm_ffc := word_of_nat i\<rparr>)
               | None \<Rightarrow> Inl (Err_exit ''no more free space in disk!'')
             else next_free idx (unat (first_free_block + 1)) s) (\<lambda>s.
          chain (logged_zero_a_block victim_blockno s) (\<lambda>(_, s).
          Inr (victim_blockno, s)))))"

definition block_free :: "uint \<Rightarrow> 'a bmap_scheme \<Rightarrow> (unit \<times> 'a bmap_scheme) res" where
  "block_free blockno s =
    (let cache_index = unat blockno div BPB; bmapno = blockno mod word_of_nat BPB in
     chain (bmap_block_statue_set blockno False s) (\<lambda>(_, s).
     if cache_index \<ge> unat (bm_n s) then Inl Bad_access
     else
       let s = s\<lparr>bm_nalloc := (bm_nalloc s)(cache_index := bm_nalloc s cache_index - 1)\<rparr>;
           s = s\<lparr>bm_first := (bm_first s)(cache_index :=
             (if word_of_int (bm_first s cache_index) > bmapno then sint bmapno else bm_first s cache_index))\<rparr>
       in Inr ((), s\<lparr>bm_ffc := word_of_nat cache_index\<rparr>)))"

section \<open>Bits\<close>

definition bm_bit :: "'a bmap_scheme \<Rightarrow> nat \<Rightarrow> bool" where
  "bm_bit s b = bit (bm_cache s (b div 8)) (b mod 8)"

definition bm_block :: "'a bmap_scheme \<Rightarrow> nat \<Rightarrow> uint" where
  "bm_block s i = word_of_nat i + sb_bmapstart (fs_sb s)"

text \<open>The cached bitmap is the bitmap a reader of the blocks sees.\<close>

definition bm_sync :: "'a bmap_scheme \<Rightarrow> bool" where
  "bm_sync s \<longleftrightarrow> unat (bm_n s) \<le> 131072 \<and> (\<forall>i<unat (bm_n s). data_block s (bm_block s i) \<and>
    (\<forall>j<BSIZE. bm_cache s (i * BSIZE + j) = view s (bm_block s i) j))"

lemma bm_fields_more:
  assumes "fslog.more s' = fslog.more s"
  shows "fs_sb s' = fs_sb s" "bm_cache s' = bm_cache s" "bm_first s' = bm_first s" "bm_nalloc s' = bm_nalloc s"
    "bm_n s' = bm_n s" "bm_ffc s' = bm_ffc s" "bmap.more s' = bmap.more s"
  using assms by (cases s; cases s'; simp)+

lemma log_frame_fslog_more: "log_frame s' = log_frame s \<Longrightarrow> fslog.more s' = fslog.more s"
  by (simp add: log_frame_def)

lemma bm_block_inj: "i < 131072 \<Longrightarrow> j < 131072 \<Longrightarrow> bm_block s i = bm_block s j \<longleftrightarrow> i = j"
  unfolding bm_block_def add_right_cancel by (simp add: word_unat_eq_iff unsigned_of_nat take_bit_nat_eq_self)

lemma byte_bit_split: "c = b \<longleftrightarrow> c div 8 = b div 8 \<and> c mod 8 = b mod 8" for b c :: nat
  by (metis div_mult_mod_eq)

lemma byte_in_range: "unat b div 8 < n * BSIZE \<longleftrightarrow> unat b < n * BPB"
  by (auto simp: BPB_def BSIZE_def)

lemma group_byte: "n div 8 = n div BPB * BSIZE + n mod BPB div 8" "n mod BPB div 8 < BSIZE"
proof -
  have "(n div 32768 * 4096 * 8 + n mod 32768) div 8 = n div 32768 * 4096 + n mod 32768 div 8" by (rule div_mult_self3) simp
  moreover have "n div 32768 * 4096 * 8 + n mod 32768 = n" by (simp add: mult.assoc)
  ultimately show "n div 8 = n div BPB * BSIZE + n mod BPB div 8" by (simp add: BPB_def BSIZE_def)
  show "n mod BPB div 8 < BSIZE" by (simp add: BPB_def BSIZE_def less_mult_imp_div_less)
qed

lemma group_byte_inj: "l < BSIZE \<Longrightarrow> j < BSIZE \<Longrightarrow> k * BSIZE + l = i * BSIZE + j \<longleftrightarrow> k = i \<and> l = j"
proof -
  have dm: "(k * 4096 + l) div 4096 = k \<and> (k * 4096 + l) mod 4096 = l" if "l < 4096" for k l :: nat using that by simp
  show "l < BSIZE \<Longrightarrow> j < BSIZE \<Longrightarrow> ?thesis" using dm[of l k] dm[of j i] unfolding BSIZE_def by metis
qed

lemma bmap_get_eq: "unat b < unat (bm_n s) * BPB \<Longrightarrow> bmap_block_statue_get b s = Inr (bm_bit s (unat b))"
proof -
  have "and (drop_bit k w) 1 \<noteq> 0 \<longleftrightarrow> bit w k" for k and w :: byte
    by (simp add: and_one_eq bit_iff_odd_drop_bit odd_iff_mod_2_eq_one)
  then show "unat b < unat (bm_n s) * BPB \<Longrightarrow> ?thesis"
    unfolding bmap_block_statue_get_def Let_def byte_in_range[symmetric] by (simp add: bm_bit_def)
qed

lemma log_ready_cache [simp]:
  "log_ready X (s\<lparr>bm_cache := f\<rparr>) = log_ready X s" "data_block (s\<lparr>bm_cache := f\<rparr>) b = data_block s b"
  "view (s\<lparr>bm_cache := f\<rparr>) = view s" "held (s\<lparr>bm_cache := f\<rparr>) = held s"
  "log_ready X (s\<lparr>bm_first := g\<rparr>) = log_ready X s" "data_block (s\<lparr>bm_first := g\<rparr>) b = data_block s b"
  "view (s\<lparr>bm_first := g\<rparr>) = view s" "held (s\<lparr>bm_first := g\<rparr>) = held s"
  "log_ready X (s\<lparr>bm_nalloc := k\<rparr>) = log_ready X s" "data_block (s\<lparr>bm_nalloc := k\<rparr>) b = data_block s b"
  "view (s\<lparr>bm_nalloc := k\<rparr>) = view s" "held (s\<lparr>bm_nalloc := k\<rparr>) = held s"
  "log_ready X (s\<lparr>bm_n := n\<rparr>) = log_ready X s" "data_block (s\<lparr>bm_n := n\<rparr>) b = data_block s b"
  "view (s\<lparr>bm_n := n\<rparr>) = view s" "held (s\<lparr>bm_n := n\<rparr>) = held s"
  "log_ready X (s\<lparr>bm_ffc := n\<rparr>) = log_ready X s" "data_block (s\<lparr>bm_ffc := n\<rparr>) b = data_block s b"
  "view (s\<lparr>bm_ffc := n\<rparr>) = view s" "held (s\<lparr>bm_ffc := n\<rparr>) = held s"
  by (rule log_base_cong; simp)+

lemma data_blockF: "log_frame s' = log_frame s \<Longrightarrow> data_block s' = data_block s"
  using data_block_frame[of s' s] by blast

text \<open>The parts of the state the allocator leaves alone.\<close>

definition bm_frame :: "'a bmap_scheme \<Rightarrow> (nat \<times> uint \<times> int \<times> int \<times> bool) \<times> superblock \<times> uint \<times> 'a" where
  "bm_frame s = ((dev_nblk s, lg_start s, lg_size s, lg_outstanding s, lg_committing s), fs_sb s, bm_n s, bmap.more s)"

lemma bm_frame_of_log_frame: "log_frame s' = log_frame s \<Longrightarrow> bm_frame s' = bm_frame s"
  using bm_fields_more[OF log_frame_fslog_more[of s' s]] by (simp add: bm_frame_def log_frame_def)

lemma bm_frameD:
  assumes "bm_frame s' = bm_frame s"
  shows "bm_n s' = bm_n s" "fs_sb s' = fs_sb s" "data_block s' = data_block s" "bm_block s' i = bm_block s i"
    "bmap.more s' = bmap.more s"
  using assms by (simp_all add: bm_frame_def data_block_def bm_block_def fun_eq_iff)

lemma bmap_set_ok:
  assumes ready: "log_ready X s" and sync: "bm_sync s" and run: "bmap_block_statue_set b v s = Inr ((), s')"
  shows "log_ready X s'" "bm_sync s'" "held s' = held s" "bm_frame s' = bm_frame s" "unat b < unat (bm_n s) * BPB"
    "bm_bit s' c = (if c = unat b then v else bm_bit s c)"
    "e \<noteq> bm_block s (unat b div BPB) \<Longrightarrow> view s' e = view s e"
    "bm_first s' = bm_first s" "bm_nalloc s' = bm_nalloc s" "bm_ffc s' = bm_ffc s"
proof -
  let ?i = "unat b div BPB" and ?j = "(unat b mod BPB) div 8" and ?byte = "unat b div 8" and ?bit = "unat b mod 8"
  let ?flag = "if v then or (bm_cache s ?byte) (push_bit ?bit 1) else and (bm_cache s ?byte) (not (push_bit ?bit 1))"
  define t where "t = s\<lparr>bm_cache := (bm_cache s)(?byte := ?flag)\<rparr>"
  show lt: "unat b < unat (bm_n s) * BPB"
    using run unfolding bmap_block_statue_set_def Let_def byte_in_range[symmetric] by (auto split: if_splits)
  have i: "?i < unat (bm_n s)" using lt by (simp add: BPB_def BSIZE_def)
  have j: "?j < BSIZE" "?byte = ?i * BSIZE + ?j" using group_byte by blast+
  have n: "unat (bm_n s) \<le> 131072" using sync by (simp add: bm_sync_def)
  have in_s: "data_block s (bm_block s k)" if "k < unat (bm_n s)" for k using sync that by (simp add: bm_sync_def)
  have blk: "word_of_nat ?i + sb_bmapstart (fs_sb t) = bm_block s ?i" by (simp add: t_def bm_block_def)
  obtain bp s1 s2 where rd: "logged_read (bm_block s ?i) t = Inr (bp, s1)"
    and wr: "logged_write bp (set_data bp ((buf_data s1 bp)(?j := ?flag)) s1) = Inr ((), s2)" and s': "s' = logged_relse bp s2"
    using run byte_in_range[of b "unat (bm_n s)"] lt blk
    by (auto simp: bmap_block_statue_set_def Let_def t_def chain_eq_Inr)
  have rt: "log_ready X t" "data_block t (bm_block s ?i)" using ready in_s[OF i] by (simp_all add: t_def)
  have dat: "buf_data s1 bp = view t (bm_block s ?i)" by (rule lg.read_release(1)[OF rt rd])
  note m = lg.modify_block[OF rt rd wr]
  show "log_ready X s'" "held s' = held s" using m by (simp_all add: s' t_def)
  have more: "fslog.more s' = fslog.more t" using m(4) by (simp add: s' log_frame_def)
  have f: "bm_frame s' = bm_frame t" unfolding s' by (rule bm_frame_of_log_frame[OF m(4)])
  then show frame: "bm_frame s' = bm_frame s" by (simp add: t_def bm_frame_def)
  show "bm_first s' = bm_first s" "bm_nalloc s' = bm_nalloc s" "bm_ffc s' = bm_ffc s"
    using bm_fields_more[OF more] by (simp_all add: t_def)
  have vw: "view s' = (view s)(bm_block s ?i := (view s (bm_block s ?i))(?j := ?flag))"
    using m(2) unfolding dat by (simp add: s' t_def)
  then show "e \<noteq> bm_block s ?i \<Longrightarrow> view s' e = view s e" by simp
  have cache: "bm_cache s' = (bm_cache s)(?byte := ?flag)" using bm_fields_more(2)[OF more] by (simp add: t_def)
  have "bit ?flag k = (if k = ?bit then v else bit (bm_cache s ?byte) k)" if "k < 8" for k
    using that by (auto simp: bit_simps)
  then show "bm_bit s' c = (if c = unat b then v else bm_bit s c)"
    by (auto simp: bm_bit_def cache byte_bit_split[of c "unat b"])
  show "bm_sync s'"
    unfolding bm_sync_def bm_frameD[OF frame] vw
  proof (intro conjI allI impI, goal_cases)
    case 1 show ?case by (rule n)
  next
    case (2 k) then show ?case by (rule in_s)
  next
    case (3 k l)
    have old: "bm_cache s (k * BSIZE + l) = view s (bm_block s k) l" using sync 3 by (simp add: bm_sync_def)
    have same: "bm_block s k = bm_block s ?i \<longleftrightarrow> k = ?i" using bm_block_inj[of k ?i s] 3(1) i n by simp
    have "k * BSIZE + l = ?byte \<longleftrightarrow> k = ?i \<and> l = ?j"
      unfolding j(2) by (rule group_byte_inj[OF 3(2) j(1)])
    then show ?case using old same by (auto simp: cache)
  qed
qed

section \<open>The invariant of the allocator\<close>

text \<open>
  Per group: the number of allocated blocks and the first free one, -1 for none. Every block
  marked free is a block the file system may hand out: not part of the log, not a bitmap block.
\<close>

definition group_used :: "'a bmap_scheme \<Rightarrow> nat \<Rightarrow> nat set" where
  "group_used s i = {j. j < BPB \<and> bm_bit s (i * BPB + j)}"

definition least_free :: "nat set \<Rightarrow> int" where
  "least_free U = (if U = {..<BPB} then -1 else int (LEAST j. j \<notin> U))"

definition bm_counts :: "'a bmap_scheme \<Rightarrow> bool" where
  "bm_counts s \<longleftrightarrow> (\<forall>i<unat (bm_n s).
    unat (bm_nalloc s i) = card (group_used s i) \<and> bm_first s i = least_free (group_used s i))"

definition usable :: "'a bmap_scheme \<Rightarrow> uint \<Rightarrow> bool" where
  "usable s b \<longleftrightarrow> data_block s b \<and> (\<forall>i<unat (bm_n s). b \<noteq> bm_block s i)"

definition bm_inv :: "'a bmap_scheme \<Rightarrow> bool" where
  "bm_inv s \<longleftrightarrow> bm_sync s \<and> bm_counts s \<and>
    (\<forall>b<unat (bm_n s) * BPB. \<not> bm_bit s b \<longrightarrow> usable s (word_of_nat b))"

text \<open>\<open>first_free_cache\<close> names a group with a free block.\<close>

definition bm_ready :: "'a bmap_scheme \<Rightarrow> bool" where
  "bm_ready s \<longleftrightarrow> unat (bm_ffc s) < unat (bm_n s) \<and> bm_first s (unat (bm_ffc s)) \<noteq> -1"

lemma BPB_pos [simp]: "0 < BPB"
  by (simp add: BPB_def BSIZE_def)

lemma group_index_inj: "j < BPB \<Longrightarrow> f < BPB \<Longrightarrow> i * BPB + j = k * BPB + f \<longleftrightarrow> i = k \<and> j = f"
proof -
  have dm: "(i * BPB + j) div BPB = i \<and> (i * BPB + j) mod BPB = j" if "j < BPB" for i j using that by simp
  show "j < BPB \<Longrightarrow> f < BPB \<Longrightarrow> ?thesis" using dm[of j i] dm[of f k] by metis
qed

lemma group_used_upd:
  assumes "\<And>c. bm_bit s' c = (if c = k * BPB + f then v else bm_bit s c)" "f < BPB"
  shows "group_used s' i = (if i = k then (if v then insert f (group_used s k) else group_used s k - {f}) else group_used s i)"
  using assms(2) by (auto simp: group_used_def assms(1) group_index_inj)

lemma group_used_le: "group_used s i \<subseteq> {..<BPB}" "finite (group_used s i)"
  by (auto simp: group_used_def)

lemma least_free_neq:
  assumes "U \<subseteq> {..<BPB}" "least_free U \<noteq> -1"
  obtains f where "least_free U = int f" "f < BPB" "f \<notin> U" "{..<f} \<subseteq> U" "card U < BPB"
proof -
  have ne: "U \<noteq> {..<BPB}" using assms(2) by (auto simp: least_free_def)
  then obtain j where j: "j < BPB" "j \<notin> U" using assms(1) by blast
  let ?f = "LEAST j. j \<notin> U"
  have "?f \<le> j" "?f \<notin> U" using j(2) by (rule Least_le, rule LeastI)
  moreover have "{..<?f} \<subseteq> U" using not_less_Least by blast
  moreover have "card U < card {..<BPB}" using assms(1) ne by (intro psubset_card_mono) auto
  ultimately show ?thesis using j ne by (intro that[of ?f]) (auto simp: least_free_def)
qed

lemma least_free_eqI:
  assumes "j < BPB" "j \<notin> U" "\<And>i. i < j \<Longrightarrow> i \<in> U"
  shows "least_free U = int j"
proof -
  have "(LEAST j. j \<notin> U) = j" using assms(2,3) by (intro Least_equality) (auto simp: not_less[symmetric])
  moreover have "U \<noteq> {..<BPB}" using assms(1,2) by auto
  ultimately show ?thesis by (simp add: least_free_def)
qed

lemma least_free_full: "least_free {..<BPB} = -1"
  by (simp add: least_free_def)

lemma unat_bmap2blockno:
  assumes "unat idx < 131072" "j < BPB"
  shows "unat (bmap2blockno (word_of_nat j) idx) = unat idx * BPB + j"
proof -
  have j: "unat (word_of_nat j :: uint) = j" "unat (word_of_nat BPB :: uint) = BPB"
    using assms(2) by (simp_all add: unsigned_of_nat take_bit_nat_eq_self BPB_def BSIZE_def)
  have lt: "unat idx * BPB + j < 2 ^ 32" using assms by (simp add: BPB_def BSIZE_def)
  then have m: "unat (idx * word_of_nat BPB) = unat idx * BPB"
    by (simp add: unat_word_ariths j)
  show ?thesis unfolding bmap2blockno_def
    using unat_add_lem[of "word_of_nat j :: uint" "idx * word_of_nat BPB"] lt m j(1) by simp
qed

lemma next_free_eq:
  assumes "unat idx < unat (bm_n s)" "unat (bm_n s) \<le> 131072"
  shows "next_free idx i s = Inr (case find_from (\<lambda>j. \<not> bm_bit s (unat idx * BPB + j)) i BPB of
    None \<Rightarrow> s | Some j \<Rightarrow> s\<lparr>bm_first := (bm_first s)(unat idx := int j)\<rparr>)"
proof (induction "BPB - i" arbitrary: i)
  case 0
  then show ?case by (simp add: next_free.simps[of idx i] find_from.simps[of _ i])
next
  case (Suc d)
  then have i: "i < BPB" by simp
  have u: "unat (bmap2blockno (word_of_nat i) idx) = unat idx * BPB + i"
    by (rule unat_bmap2blockno) (use assms i in auto)
  have "unat idx * BPB + i < unat (bm_n s) * BPB"
  proof -
    have "unat idx * BPB + i < Suc (unat idx) * BPB" using i by simp
    also have "\<dots> \<le> unat (bm_n s) * BPB" using assms(1) by (intro mult_le_mono1) simp
    finally show ?thesis .
  qed
  then have "bmap_block_statue_get (bmap2blockno (word_of_nat i) idx) s = Inr (bm_bit s (unat idx * BPB + i))"
    using bmap_get_eq[of "bmap2blockno (word_of_nat i) idx" s] u by simp
  moreover have "next_free idx (Suc i) s = Inr (case find_from (\<lambda>j. \<not> bm_bit s (unat idx * BPB + j)) (Suc i) BPB of
      None \<Rightarrow> s | Some j \<Rightarrow> s\<lparr>bm_first := (bm_first s)(unat idx := int j)\<rparr>)"
    by (rule Suc.hyps(1)) (use Suc.hyps(2) in simp)
  ultimately show ?case using i by (simp add: next_free.simps[of idx i] find_from.simps[of _ i])
qed

lemma logged_zero_ok:
  assumes "log_ready X s" "data_block s b" "logged_zero_a_block b s = Inr ((), s')"
  shows "log_ready X s'" "view s' = (view s)(b := zero_block)" "held s' = held s" "log_frame s' = log_frame s"
proof -
  obtain h s1 s2 where rd: "logged_read b s = Inr (h, s1)" and wr: "logged_write h (set_data h zero_block s1) = Inr ((), s2)"
    and s': "s' = logged_relse h s2"
    using assms(3) by (auto simp: logged_zero_a_block_def chain_eq_Inr)
  show "log_ready X s'" "view s' = (view s)(b := zero_block)" "held s' = held s" "log_frame s' = log_frame s"
    using lg.modify_block[OF assms(1,2) rd wr] by (simp_all add: s')
qed

text \<open>Writing a block that is not a bitmap block leaves the allocator's invariant alone.\<close>

lemma bm_bit_cong: "bm_cache s' = bm_cache s \<Longrightarrow> bm_bit s' = bm_bit s"
  by (simp add: bm_bit_def fun_eq_iff)

lemma bm_same:
  assumes "log_frame s' = log_frame s" "\<And>i. i < unat (bm_n s) \<Longrightarrow> view s' (bm_block s i) = view s (bm_block s i)"
  shows "bm_inv s' = bm_inv s" "bm_ready s' = bm_ready s" "bm_bit s' = bm_bit s" "usable s' b = usable s b"
proof -
  note f = bm_fields_more[OF log_frame_fslog_more[OF assms(1)]]
  note b = bm_frameD[OF bm_frame_of_log_frame[OF assms(1)]]
  show bit: "bm_bit s' = bm_bit s" by (rule bm_bit_cong[OF f(2)])
  have "bm_sync s' = bm_sync s" using assms(2) by (simp add: bm_sync_def b f(2))
  moreover have "bm_counts s' = bm_counts s" by (simp add: bm_counts_def group_used_def bit f)
  moreover show us: "usable s' b = usable s b" for b by (simp add: usable_def b)
  ultimately show "bm_inv s' = bm_inv s" by (simp add: bm_inv_def bit us f)
  show "bm_ready s' = bm_ready s" by (simp add: bm_ready_def f)
qed

lemma bm_groups_cong:
  assumes "bm_cache s' = bm_cache s" "bm_n s' = bm_n s" "fs_sb s' = fs_sb s" "view s' = view s" "data_block s' = data_block s"
  shows "bm_sync s' = bm_sync s" "group_used s' = group_used s" "bm_bit s' = bm_bit s" "usable s' = usable s"
  using assms by (simp_all add: bm_sync_def group_used_def bm_bit_def bm_block_def usable_def fun_eq_iff)

lemma nalloc_Suc:
  assumes "unat (n :: uint) = card U" "U \<subseteq> {..<BPB}" "f < BPB" "f \<notin> U"
  shows "unat (n + 1) = card (insert f U)" "n + 1 = word_of_nat BPB \<longleftrightarrow> insert f U = {..<BPB}"
proof -
  have fin: "finite U" using assms(2) finite_subset by blast
  have "card (insert f U) \<le> card {..<BPB}" using assms(2,3) by (intro card_mono) auto
  then have le: "card (insert f U) \<le> BPB" by simp
  have small: "BPB < 2 ^ 32" by (simp add: BPB_def BSIZE_def)
  show u: "unat (n + 1) = card (insert f U)"
    using assms(1,4) fin le small by (simp add: unat_word_ariths)
  have "insert f U = {..<BPB}" if "card (insert f U) = BPB"
    by (rule card_subset_eq) (use that assms(2,3) in simp_all)
  then have full: "card (insert f U) = BPB \<longleftrightarrow> insert f U = {..<BPB}" by (metis card_lessThan)
  have "unat (word_of_nat BPB :: uint) = BPB"
    using small by (simp add: unsigned_of_nat take_bit_nat_eq_self)
  then show "n + 1 = word_of_nat BPB \<longleftrightarrow> insert f U = {..<BPB}"
    using u full by (simp add: word_unat_eq_iff)
qed

text \<open>
  The second half of \<open>block_alloc\<close>: the counts catch up with the bit just set, and
  \<open>first_free_cache\<close> again names a group with a free block.
\<close>

definition alloc_update :: "uint \<Rightarrow> uint \<Rightarrow> 'a bmap_scheme \<Rightarrow> 'a bmap_scheme res" where
  "alloc_update idx first_free_block s =
    (let s = s\<lparr>bm_nalloc := (bm_nalloc s)(unat idx := bm_nalloc s (unat idx) + 1)\<rparr> in
     if bm_nalloc s (unat idx) = word_of_nat BPB then
       let s = s\<lparr>bm_first := (bm_first s)(unat idx := -1)\<rparr> in
       case find_from (\<lambda>i. bm_first s i \<noteq> -1) 0 (unat (bm_n s)) of
         Some i \<Rightarrow> Inr (s\<lparr>bm_ffc := word_of_nat i\<rparr>)
       | None \<Rightarrow> Inl (Err_exit ''no more free space in disk!'')
     else next_free idx (unat (first_free_block + 1)) s)"

lemma block_alloc_split:
  "block_alloc s =
    (if unat (bm_ffc s) \<ge> unat (bm_n s) then Inl Bad_access
     else let first = word_of_int (bm_first s (unat (bm_ffc s))); b = bmap2blockno first (bm_ffc s) in
       chain (bmap_block_statue_set b True s) (\<lambda>(_, s').
       chain (alloc_update (bm_ffc s) first s') (\<lambda>s'.
       chain (logged_zero_a_block b s') (\<lambda>(_, s'). Inr (b, s')))))"
  by (simp add: block_alloc_def alloc_update_def Let_def)

lemma alloc_update_ok:
  assumes run: "alloc_update idx (word_of_nat f) s = Inr s'"
    and n: "unat idx < unat (bm_n s)" "unat (bm_n s) \<le> 131072" and ffc: "bm_ffc s = idx"
    and groups: "\<forall>i<unat (bm_n s). i \<noteq> unat idx \<longrightarrow>
      unat (bm_nalloc s i) = card (group_used s i) \<and> bm_first s i = least_free (group_used s i)"
    and own: "group_used s (unat idx) = insert f U" "unat (bm_nalloc s (unat idx)) = card U"
    and f: "f < BPB" "f \<notin> U" "{..<f} \<subseteq> U" "U \<subseteq> {..<BPB}"
  shows "bm_counts s'" "bm_ready s'" "\<exists>g k i. s' = s\<lparr>bm_nalloc := k, bm_first := g, bm_ffc := i\<rparr>"
proof -
  let ?k = "unat idx"
  let ?na = "(bm_nalloc s)(?k := bm_nalloc s ?k + 1)"
  define t where "t = s\<lparr>bm_nalloc := ?na\<rparr>"
  note na = nalloc_Suc[OF own(2) f(4,1,2)]
  have gt: "group_used t = group_used s" "bm_bit t = bm_bit s" by (simp_all add: t_def group_used_def bm_bit_def fun_eq_iff)
  have "bm_counts s' \<and> bm_ready s' \<and> (\<exists>g k i. s' = s\<lparr>bm_nalloc := k, bm_first := g, bm_ffc := i\<rparr>)"
  proof (cases "insert f U = {..<BPB}")
    case True
    let ?bf = "(bm_first s)(?k := -1)"
    have "?na ?k = word_of_nat BPB" using na True by simp
    then obtain i where fi: "find_from (\<lambda>i. ?bf i \<noteq> -1) 0 (unat (bm_n s)) = Some i"
      and s': "s' = s\<lparr>bm_nalloc := ?na, bm_first := ?bf, bm_ffc := word_of_nat i\<rparr>"
      using run by (auto simp: alloc_update_def Let_def split: option.splits)
    from find_from_Some[OF fi] have i: "i < unat (bm_n s)" "?bf i \<noteq> -1" by auto
    then have "unat (word_of_nat i :: uint) = i" using n by (simp add: unsigned_of_nat take_bit_nat_eq_self)
    then have "bm_ready s'" using i by (simp add: bm_ready_def s')
    moreover have "group_used s' = group_used s" by (simp add: s' group_used_def bm_bit_def fun_eq_iff)
    then have "bm_counts s'"
      using groups own na(1) True least_free_full by (simp add: bm_counts_def s')
    ultimately show ?thesis using s' by blast
  next
    case False
    have "unat (word_of_nat f + 1 :: uint) = Suc f"
      using f(1) by (simp add: unat_word_ariths unsigned_of_nat take_bit_nat_eq_self BPB_def BSIZE_def)
    moreover have "?na ?k \<noteq> word_of_nat BPB" using na False by simp
    ultimately have "next_free idx (Suc f) t = Inr s'"
      using run by (simp add: alloc_update_def Let_def t_def)
    moreover have "next_free idx (Suc f) t = Inr (case find_from (\<lambda>j. \<not> bm_bit s (?k * BPB + j)) (Suc f) BPB of
        None \<Rightarrow> t | Some j \<Rightarrow> t\<lparr>bm_first := (bm_first t)(?k := int j)\<rparr>)"
      using next_free_eq[of idx t "Suc f"] n by (simp add: gt) (simp add: t_def)
    moreover obtain j where j: "find_from (\<lambda>j. \<not> bm_bit s (?k * BPB + j)) (Suc f) BPB = Some j"
    proof (cases "find_from (\<lambda>j. \<not> bm_bit s (?k * BPB + j)) (Suc f) BPB")
      case None
      then have "bm_bit s (?k * BPB + j)" if "Suc f \<le> j" "j < BPB" for j using that by (auto simp: find_from_None)
      then have "j \<in> insert f U" if "Suc f \<le> j" "j < BPB" for j
        using that unfolding own(1)[symmetric] by (simp add: group_used_def)
      then have "{..<BPB} \<subseteq> insert f U" using f(3) by (auto simp: Suc_le_eq) (meson f(3) lessThan_iff linorder_neqE_nat subsetD)
      then show ?thesis using False f(1,4) by auto
    qed (use that in blast)
    ultimately have s': "s' = s\<lparr>bm_nalloc := ?na, bm_first := (bm_first s)(?k := int j)\<rparr>" by (simp add: t_def)
    from find_from_Some[OF j] have jj: "Suc f \<le> j" "j < BPB" "\<not> bm_bit s (?k * BPB + j)"
      "\<forall>i. Suc f \<le> i \<and> i < j \<longrightarrow> bm_bit s (?k * BPB + i)" by auto
    have "least_free (insert f U) = int j"
    proof (rule least_free_eqI[OF jj(2)])
      show "j \<notin> insert f U" using jj(3) unfolding own(1)[symmetric] by (simp add: group_used_def)
      fix i assume "i < j"
      show "i \<in> insert f U"
      proof (cases "Suc f \<le> i")
        case True
        then show ?thesis using jj \<open>i < j\<close> unfolding own(1)[symmetric] by (simp add: group_used_def)
      next
        case False
        then show ?thesis using f(3) by (cases "i = f") auto
      qed
    qed
    moreover have "group_used s' = group_used s" by (simp add: s' group_used_def bm_bit_def fun_eq_iff)
    ultimately have "bm_counts s'" using groups own na(1) by (simp add: bm_counts_def s')
    moreover have "bm_ready s'" using n ffc by (simp add: bm_ready_def s')
    moreover have "s' = s\<lparr>bm_nalloc := ?na, bm_first := (bm_first s)(?k := int j), bm_ffc := bm_ffc s\<rparr>" by (simp add: s')
    ultimately show ?thesis by blast
  qed
  then show "bm_counts s'" "bm_ready s'" "\<exists>g k i. s' = s\<lparr>bm_nalloc := k, bm_first := g, bm_ffc := i\<rparr>" by blast+
qed

section \<open>Allocating a block\<close>

text \<open>What an operation of the allocator keeps: the bitmap changes only at \<open>b\<close>, no other block that is not part of the bitmap changes.\<close>

definition alloc_step :: "'a bmap_scheme \<Rightarrow> uint \<Rightarrow> bool \<Rightarrow> 'a bmap_scheme \<Rightarrow> bool" where
  "alloc_step s b v s' \<longleftrightarrow> held s' = held s \<and> bm_frame s' = bm_frame s \<and>
    unat b < unat (bm_n s) * BPB \<and> bm_bit s' = (bm_bit s)(unat b := v) \<and>
    (\<forall>c. usable s c \<and> (v \<longrightarrow> c \<noteq> b) \<longrightarrow> view s' c = view s c)"

lemma usable_frame: "bm_frame s' = bm_frame s \<Longrightarrow> usable s' = usable s"
  by (simp add: usable_def bm_frameD[of s' s] fun_eq_iff)

lemma bm_invI:
  assumes "bm_sync s'" "bm_counts s'" "bm_frame s' = bm_frame s" "bm_inv s" "bm_bit s' = (bm_bit s)(unat b := v)"
    and "v \<or> usable s b"
  shows "bm_inv s'"
  using assms by (auto simp: bm_inv_def usable_frame[OF assms(3)] bm_frameD[OF assms(3)])

lemma block_alloc_ok:
  assumes ready: "log_ready X s" and inv: "bm_inv s" "bm_ready s" and run: "block_alloc s = Inr (b, s')"
  shows "log_ready X s'" "bm_inv s'" "bm_ready s'" "alloc_step s b True s'"
    "\<not> bm_bit s (unat b)" "usable s b" "view s' b = zero_block"
proof -
  let ?idx = "bm_ffc s" let ?k = "unat ?idx" and ?U = "group_used s (unat ?idx)"
  have k: "?k < unat (bm_n s)" and fk: "bm_first s ?k \<noteq> -1" and n: "unat (bm_n s) \<le> 131072"
    and sync: "bm_sync s" and counts: "bm_counts s" and free: "\<And>b. b < unat (bm_n s) * BPB \<Longrightarrow> \<not> bm_bit s b \<Longrightarrow> usable s (word_of_nat b)"
    using inv by (auto simp: bm_inv_def bm_ready_def bm_sync_def)
  have c: "unat (bm_nalloc s ?k) = card ?U" "bm_first s ?k = least_free ?U" using counts k by (auto simp: bm_counts_def)
  obtain f where f: "bm_first s ?k = int f" "f < BPB" "f \<notin> ?U" "{..<f} \<subseteq> ?U"
    using least_free_neq[OF group_used_le(1), of s ?k] fk c(2) by metis
  let ?b = "bmap2blockno (word_of_nat f) ?idx"
  have ub: "unat ?b = ?k * BPB + f" by (rule unat_bmap2blockno) (use k n f in auto)
  obtain s1 s2 where 1: "bmap_block_statue_set ?b True s = Inr ((), s1)"
    and 2: "alloc_update ?idx (word_of_nat f) s1 = Inr s2" and 3: "logged_zero_a_block ?b s2 = Inr ((), s')" and b: "b = ?b"
    using run k f(1) by (auto simp: block_alloc_split Let_def chain_eq_Inr)
  note s1 = bmap_set_ok[OF ready sync 1]
  note fr1 = bm_frameD[OF s1(4)]
  have bits1: "bm_bit s1 c = (if c = ?k * BPB + f then True else bm_bit s c)" for c using s1(6) ub by simp
  note gr1 = group_used_upd[of s1 ?k f True s, OF bits1 f(2)]
  have nb: "\<not> bm_bit s (unat b)" using f(2,3) by (simp add: b ub group_used_def)
  have lt: "unat b < unat (bm_n s) * BPB" using s1(5) b by simp
  have us: "usable s b" using free[OF lt nb] by simp
  have pre: "?k < unat (bm_n s1)" "unat (bm_n s1) \<le> 131072" "bm_ffc s1 = ?idx"
    "\<forall>i<unat (bm_n s1). i \<noteq> ?k \<longrightarrow> unat (bm_nalloc s1 i) = card (group_used s1 i) \<and> bm_first s1 i = least_free (group_used s1 i)"
    "group_used s1 ?k = insert f ?U" "unat (bm_nalloc s1 ?k) = card ?U"
    using k n c counts by (simp_all add: fr1 s1(8-10) gr1 bm_counts_def)
  note up = alloc_update_ok[OF 2 pre f(2-4) group_used_le(1)]
  obtain g na i where s2: "s2 = s1\<lparr>bm_nalloc := na, bm_first := g, bm_ffc := i\<rparr>" using up(3) by blast
  have 22: "log_ready X s2" "view s2 = view s1" "held s2 = held s1" "data_block s2 = data_block s1" "bm_frame s2 = bm_frame s1"
    by (simp_all add: s2 s1(1) bm_frame_def fun_eq_iff)
  note cong2 = bm_groups_cong[of s2 s1]
  have sync2: "bm_sync s2" "bm_bit s2 = bm_bit s1" "usable s2 = usable s1"
    using cong2 22 s1(2) by (simp_all add: s2)
  have fr2: "bm_frame s2 = bm_frame s" using 22 s1(4) by simp
  have inv2: "bm_inv s2"
    by (rule bm_invI[OF sync2(1) up(1) fr2 inv(1), of b True]) (auto simp: sync2 bits1 b ub)
  have db: "data_block s2 ?b" using us b by (simp add: usable_def bm_frameD(3)[OF fr2])
  note 33 = logged_zero_ok[OF 22(1) db 3]
  have other: "view s' e = view s e" if "e \<noteq> ?b" "e \<noteq> bm_block s ?k" for e
  proof -
    have "unat ?b div BPB = ?k" using ub f(2) by simp
    then show ?thesis using that s1(7)[of e] by (simp add: 33(2) 22(2))
  qed
  have keep: "view s' (bm_block s2 i) = view s2 (bm_block s2 i)" if "i < unat (bm_n s2)" for i
  proof -
    have "?b \<noteq> bm_block s i" using us that b by (simp add: usable_def bm_frameD[OF fr2])
    then show ?thesis by (simp add: 33(2) bm_frameD[OF fr2])
  qed
  note same = bm_same[OF 33(4) keep]
  show "log_ready X s'" "bm_inv s'" "bm_ready s'" using 33 same inv2 up(2) by simp_all
  show "view s' b = zero_block" by (simp add: 33 b)
  show "\<not> bm_bit s (unat b)" by (rule nb)
  show "usable s b" by (rule us)
  have "bm_frame s' = bm_frame s" using bm_frame_of_log_frame[OF 33(4)] fr2 by simp
  moreover have "bm_bit s' = (bm_bit s)(unat b := True)" using same sync2 bits1 by (auto simp: b ub)
  moreover have "view s' c = view s c" if "usable s c" "c \<noteq> b" for c
    using other[of c] that k b by (auto simp: usable_def)
  moreover have "held s' = held s" using 33 22 s1(3) by simp
  ultimately show "alloc_step s b True s'" using lt by (simp add: alloc_step_def)
qed

section \<open>Freeing a block\<close>

lemma block_free_ok:
  assumes ready: "log_ready X s" and inv: "bm_inv s" and b: "bm_bit s (unat b)" "usable s b"
    and run: "block_free b s = Inr ((), s')"
  shows "log_ready X s'" "bm_inv s'" "bm_ready s'" "alloc_step s b False s'"
proof -
  let ?k = "unat b div BPB" and ?f = "unat b mod BPB"
  let ?U = "group_used s ?k" and ?fw = "b mod word_of_nat BPB"
  have sync: "bm_sync s" and counts: "bm_counts s" and n: "unat (bm_n s) \<le> 131072" using inv by (auto simp: bm_inv_def bm_sync_def)
  obtain s1 where 1: "bmap_block_statue_set b False s = Inr ((), s1)"
    and s': "s' = s1\<lparr>bm_nalloc := (bm_nalloc s1)(?k := bm_nalloc s1 ?k - 1),
      bm_first := (bm_first s1)(?k := if word_of_int (bm_first s1 ?k) > ?fw then sint ?fw else bm_first s1 ?k),
      bm_ffc := word_of_nat ?k\<rparr>"
    using run by (auto simp: block_free_def Let_def chain_eq_Inr split: if_splits)
  note s1 = bmap_set_ok[OF ready sync 1]
  note fr1 = bm_frameD[OF s1(4)]
  have k: "?k < unat (bm_n s)" using s1(5) by (simp add: less_mult_imp_div_less)
  have fB: "?f < BPB" by simp
  have fin: "?f \<in> ?U" using b(1) by (simp add: group_used_def)
  have bits: "bm_bit s1 c = (if c = ?k * BPB + ?f then False else bm_bit s c)" for c using s1(6) by simp
  note gr = group_used_upd[of s1 ?k ?f False s, OF bits fB]
  have fr: "bm_frame s' = bm_frame s" using s1(4) by (simp add: s' bm_frame_def)
  have vw: "view s' = view s1" "held s' = held s1" "log_ready X s'" using s1(1) by (simp_all add: s')
  have sync': "bm_sync s'" "bm_bit s' = bm_bit s1" "group_used s' = group_used s1"
    using bm_groups_cong[of s' s1] s1(2) by (simp_all add: s' fun_eq_iff)
  have BPBw: "unat (word_of_nat BPB :: uint) = BPB" by (simp add: unsigned_of_nat take_bit_nat_eq_self BPB_def BSIZE_def)
  have fw: "unat ?fw = ?f" by (simp add: unat_mod_distrib BPBw)
  have c: "unat (bm_nalloc s ?k) = card ?U" "bm_first s ?k = least_free ?U" using counts k by (auto simp: bm_counts_def)
  have pos: "0 < card ?U" using fin group_used_le(2) by (auto simp: card_gt_0_iff)
  have na: "unat (bm_nalloc s ?k - 1) = card (?U - {?f})"
  proof -
    have "bm_nalloc s ?k \<noteq> 0" using c(1) pos by auto
    from unat_minus_one[OF this] show ?thesis using c(1) fin group_used_le(2)[of s ?k] by simp
  qed
  let ?new = "if word_of_int (bm_first s ?k) > ?fw then sint ?fw else bm_first s ?k"
  have sint: "sint ?fw = int ?f"
  proof -
    have u: "uint ?fw = int ?f" using fw by (metis of_nat_unat)
    have "int ?f < 2 ^ 31" using fB by (simp add: BPB_def BSIZE_def)
    then show ?thesis by (simp add: sint_uint u signed_take_bit_int_eq_self)
  qed
  have new: "?new = least_free (?U - {?f})"
  proof (cases "least_free ?U = -1")
    case True
    then have full: "?U = {..<BPB}" by (auto simp: least_free_def split: if_splits)
    have "least_free (?U - {?f}) = int ?f" by (rule least_free_eqI[OF fB]) (simp_all add: full order.strict_trans[OF _ fB])
    moreover have "?fw < -1"
    proof -
      have "unat ?fw < unat (-1 :: uint)" unfolding fw using fB by (simp add: BPB_def BSIZE_def unsigned_minus_1_eq_mask mask_eq_exp_minus_1)
      then show ?thesis by (simp add: word_less_nat_alt)
    qed
    ultimately show ?thesis using c(2) True sint by simp
  next
    case False
    obtain g where g: "least_free ?U = int g" "g < BPB" "g \<notin> ?U" "{..<g} \<subseteq> ?U"
      using least_free_neq[OF group_used_le(1) False] by metis
    have "unat (word_of_nat g :: uint) = g" using g(2) by (simp add: unsigned_of_nat take_bit_nat_eq_self BPB_def BSIZE_def)
    then have "word_of_nat g > ?fw \<longleftrightarrow> ?f < g" using fw by (simp add: word_less_nat_alt)
    moreover have "least_free (?U - {?f}) = int ?f" if "?f < g"
      by (rule least_free_eqI[OF fB]) (use g(4) that in auto)
    moreover have "least_free (?U - {?f}) = int g" if "\<not> ?f < g"
      by (rule least_free_eqI[OF g(2)]) (use g(3,4) that in auto)
    ultimately show ?thesis using c(2) g(1) sint by auto
  qed
  have "bm_counts s'"
    using counts na new[unfolded c(2)] k unfolding bm_counts_def bm_frameD[OF fr] sync'(3) gr
    by (simp add: s' s1(8,9) split del: if_split cong: if_cong) (simp split: if_split)
  then show "bm_inv s'"
    by (rule bm_invI[OF sync'(1) _ fr inv, of b False]) (use b bits sync' in auto)
  show "log_ready X s'" by (rule vw)
  have "unat (word_of_nat ?k :: uint) = ?k" using k n by (simp add: unsigned_of_nat take_bit_nat_eq_self)
  moreover have "?new \<noteq> -1"
  proof -
    have "?U - {?f} \<noteq> {..<BPB}" using fB by blast
    then have "least_free (?U - {?f}) \<noteq> -1" by (simp add: least_free_def)
    then show ?thesis using new by simp
  qed
  ultimately show "bm_ready s'" using k by (simp add: bm_ready_def bm_frameD[OF fr]) (simp add: s' s1(8) split: if_splits)
  have "view s' c = view s c" if "usable s c" for c
    using s1(7)[of c] that k by (auto simp: vw usable_def)
  moreover have "bm_bit s' = (bm_bit s)(unat b := False)" using sync' bits by auto
  ultimately show "alloc_step s b False s'"
    using s1(3,5) fr vw by (simp add: alloc_step_def)
qed

section \<open>Reading the bitmap at mount\<close>

definition used_upto :: "'a bmap_scheme \<Rightarrow> nat \<Rightarrow> nat \<Rightarrow> nat set" where
  "used_upto s i m = {j. j < m \<and> bm_bit s (i * BPB + j)}"

definition first_upto :: "'a bmap_scheme \<Rightarrow> nat \<Rightarrow> nat \<Rightarrow> int" where
  "first_upto s i m = (if used_upto s i m = {..<m} then -1 else int (LEAST j. j \<notin> used_upto s i m))"

lemma used_upto_Suc:
  "used_upto s i (Suc m) = (if bm_bit s (i * BPB + m) then insert m (used_upto s i m) else used_upto s i m)"
  by (auto simp: used_upto_def less_Suc_eq)

lemma used_upto_le: "used_upto s i m \<subseteq> {..<m}" "finite (used_upto s i m)" "m \<notin> used_upto s i m" "card (used_upto s i m) \<le> m"
proof -
  show 1: "used_upto s i m \<subseteq> {..<m}" "finite (used_upto s i m)" "m \<notin> used_upto s i m" by (auto simp: used_upto_def)
  show "card (used_upto s i m) \<le> m" using card_mono[OF finite_lessThan 1(1)] by simp
qed

lemma least_upto:
  assumes "U \<subseteq> {..<m :: nat}" "U \<noteq> {..<m}" "\<And>j. j < m \<Longrightarrow> j \<in> V \<longleftrightarrow> j \<in> U"
  shows "(LEAST j. j \<notin> V) = (LEAST j. j \<notin> U)"
proof (rule Least_equality)
  obtain j where j: "j < m" "j \<notin> U" using assms(1,2) by blast
  have "(LEAST j. j \<notin> U) < m" using Least_le[of "\<lambda>j. j \<notin> U" j] j by simp
  then show "(LEAST j. j \<notin> U) \<notin> V" using assms(3) LeastI[of "\<lambda>j. j \<notin> U" j] j by blast
  fix k assume "k \<notin> V"
  show "(LEAST j. j \<notin> U) \<le> k"
  proof (cases "k < m")
    case True
    then show ?thesis using assms(3) \<open>k \<notin> V\<close> by (intro Least_le) blast
  qed (use \<open>(LEAST j. j \<notin> U) < m\<close> in simp)
qed

lemma first_upto_Suc:
  "first_upto s i (Suc m) = (if bm_bit s (i * BPB + m) \<or> first_upto s i m \<noteq> -1 then first_upto s i m else int m)"
proof -
  let ?U = "used_upto s i m" and ?V = "used_upto s i (Suc m)"
  note le = used_upto_le[where s = s and i = i and m = m]
  have agree: "j \<in> ?V \<longleftrightarrow> j \<in> ?U" if "j < m" for j using that by (auto simp: used_upto_def)
  show ?thesis
  proof (cases "?U = {..<m}")
    case True
    have "?V = {..<Suc m} \<longleftrightarrow> bm_bit s (i * BPB + m)" using True by (auto simp: used_upto_Suc lessThan_Suc)
    moreover have "(LEAST j. j \<notin> ?V) = m" if "\<not> bm_bit s (i * BPB + m)"
      using that True by (intro Least_equality) (auto simp: used_upto_Suc not_less[symmetric])
    ultimately show ?thesis using True by (simp add: first_upto_def)
  next
    case False
    have "?V \<noteq> {..<Suc m}" using False le agree by (auto simp: set_eq_iff)
    then show ?thesis using False least_upto[OF le(1) False agree] by (simp add: first_upto_def)
  qed
qed

lemma first_upto_BPB: "first_upto s i BPB = least_free (group_used s i)" "used_upto s i BPB = group_used s i"
  by (simp_all add: first_upto_def least_free_def used_upto_def group_used_def)

lemma first_upto_0: "first_upto s i 0 = -1"
  by (simp add: first_upto_def used_upto_def)

lemma refresh_bits:
  assumes i: "i < unat (bm_n s)" and n: "unat (bm_n s) \<le> 131072" and m: "m \<le> BPB"
  shows "foreach [0..<m] (\<lambda>j. refresh_bit i) ((-1, word_of_nat (i * BPB)), s\<lparr>bm_nalloc := (bm_nalloc s)(i := 0)\<rparr>) =
    Inr ((), (first_upto s i m, word_of_nat (i * BPB + m)),
      s\<lparr>bm_nalloc := (bm_nalloc s)(i := word_of_nat (card (used_upto s i m)))\<rparr>)"
  using m
proof (induction m)
  case 0
  have "used_upto s i 0 = {}" by (simp add: used_upto_def)
  then show ?case by (simp only: upt_0 upt_rec[of 0 0] foreach.simps first_upto_0 card.empty semiring_1_class.of_nat_0 add_0_right less_irrefl if_False)
next
  case (Suc m)
  let ?t = "s\<lparr>bm_nalloc := (bm_nalloc s)(i := word_of_nat (card (used_upto s i m)))\<rparr>"
  let ?b = "word_of_nat (i * BPB + m) :: uint"
  have m: "m < BPB" using Suc.prems by simp
  have "i * BPB + m < Suc i * BPB" using m by simp
  also have "\<dots> \<le> unat (bm_n s) * BPB" using i by (intro mult_le_mono1) simp
  finally have lt: "i * BPB + m < unat (bm_n s) * BPB" .
  also have "\<dots> \<le> 2 ^ 32" using n by (simp add: BPB_def BSIZE_def)
  finally have ub: "unat ?b = i * BPB + m" by (simp only: unsigned_of_nat) (simp add: take_bit_nat_eq_self)
  have get: "bmap_block_statue_get ?b ?t = Inr (bm_bit s (i * BPB + m))"
    using bmap_get_eq[of ?b ?t] lt ub by (simp add: bm_bit_def)
  have BPBw: "unat (word_of_nat BPB :: uint) = BPB" by (simp add: unsigned_of_nat take_bit_nat_eq_self BPB_def BSIZE_def)
  have "unat (?b mod word_of_nat BPB) = m" using m by (simp only: unat_mod_distrib BPBw ub) simp
  then have mod: "uint (?b mod word_of_nat BPB) = int m" by (metis of_nat_unat)
  have w: "?b + 1 = word_of_nat (i * BPB + Suc m)" by simp
  have step: "refresh_bit i ((first_upto s i m, ?b), ?t) = Inr ((), (first_upto s i (Suc m), word_of_nat (i * BPB + Suc m)),
      s\<lparr>bm_nalloc := (bm_nalloc s)(i := word_of_nat (card (used_upto s i (Suc m))))\<rparr>)"
    unfolding refresh_bit_def prod.case get chain_Inr mod w
    using used_upto_le[where s = s and i = i and m = m]
    by (simp add: first_upto_Suc used_upto_Suc add.commute del: semiring_1_class.of_nat_mult semiring_1_class.of_nat_add)
  have IH: "foreach [0..<m] (\<lambda>j. refresh_bit i) ((-1, word_of_nat (i * BPB)), s\<lparr>bm_nalloc := (bm_nalloc s)(i := 0)\<rparr>) =
      Inr ((), (first_upto s i m, ?b), ?t)"
    by (rule Suc.IH) (use m in simp)
  show ?case unfolding foreach_upt_Suc[OF le0] IH chain_Inr prod.case by (rule step)
qed

text \<open>
  The super block the code passes to \<open>block_allocator_refresh\<close> need not be the one of the mounted
  file system yet.
\<close>

definition bm_at :: "superblock \<Rightarrow> nat \<Rightarrow> uint" where
  "bm_at sb i = word_of_nat i + sb_bmapstart sb"

lemma bm_at_block: "bm_at (fs_sb s) = bm_block s"
  by (simp add: fun_eq_iff bm_at_def bm_block_def)

definition group_ok :: "superblock \<Rightarrow> 'a bmap_scheme \<Rightarrow> nat \<Rightarrow> bool" where
  "group_ok sb s i \<longleftrightarrow> (\<forall>j<BSIZE. bm_cache s (i * BSIZE + j) = view s (bm_at sb i) j) \<and>
    unat (bm_nalloc s i) = card (group_used s i) \<and> bm_first s i = least_free (group_used s i)"

lemma group_bit: "j < BPB \<Longrightarrow> bm_bit s (i * BPB + j) = bit (bm_cache s (i * BSIZE + j div 8)) (j mod 8)"
proof -
  have "(i * BPB + j) div 8 = i * BSIZE + j div 8"
  proof -
    have "i * BPB + j = i * BSIZE * 8 + j" by (simp add: BPB_def)
    then show ?thesis by (simp only: div_mult_self3[of 8 j])
  qed
  moreover have "(i * BPB + j) mod 8 = j mod 8"
  proof -
    have "i * BPB + j = i * BSIZE * 8 + j" by (simp add: BPB_def)
    then show ?thesis by (simp only: mod_mult_self3)
  qed
  ultimately show ?thesis by (simp add: bm_bit_def)
qed

lemma group_used_bytes:
  assumes "\<And>j. j < BSIZE \<Longrightarrow> bm_cache s' (i * BSIZE + j) = bm_cache s (i * BSIZE + j)"
  shows "group_used s' i = group_used s i"
proof -
  have "j div 8 < BSIZE" if "j < BPB" for j using that by (simp add: BPB_def less_mult_imp_div_less)
  then show ?thesis using assms by (auto simp: group_used_def group_bit)
qed

lemma group_ok_bm:
  "bm_sync s \<and> bm_counts s \<longleftrightarrow> unat (bm_n s) \<le> 131072 \<and> (\<forall>i<unat (bm_n s). data_block s (bm_block s i) \<and> group_ok (fs_sb s) s i)"
  by (auto simp: bm_sync_def bm_counts_def group_ok_def bm_at_block)

text \<open>One turn of the outer loop brings one more group up to date.\<close>

lemma refresh_block_ok:
  assumes ready: "log_ready X s" and i: "i < unat (bm_n s)" and n: "unat (bm_n s) \<le> 131072"
    and blk: "data_block s (bm_at sb i)"
    and old: "\<forall>k<i. group_ok sb s k"
    and run: "refresh_block sb i (word_of_nat (i * BPB), s) = Inr ((), st)"
  obtains s' where "st = (word_of_nat (Suc i * BPB), s')" "log_ready X s'" "view s' = view s" "held s' = held s"
    "bm_frame s' = bm_frame s" "bm_ffc s' = bm_ffc s" "\<forall>k<Suc i. group_ok sb s' k"
proof -
  let ?b = "bm_at sb i"
  obtain h s1 where rd: "logged_read ?b s = Inr (h, s1)"
    using run by (auto simp: refresh_block_def bm_at_def chain_eq_Inr Let_def)
  let ?c = "\<lambda>a. if i * BSIZE \<le> a \<and> a < i * BSIZE + BSIZE then buf_data s1 h (a - i * BSIZE) else bm_cache s1 a"
  define t where "t = logged_relse h (s1\<lparr>bm_cache := ?c\<rparr>)"
  note 1 = lg.rd_law[OF ready blk rd]
  note f1 = bm_fields_more[OF log_frame_fslog_more, of s1 s]
  have dat: "buf_data s1 h = view s ?b" by (rule lg.read_release(1)[OF ready blk rd])
  have h: "log_ready X (s1\<lparr>bm_cache := ?c\<rparr>)" "held (s1\<lparr>bm_cache := ?c\<rparr>) ?b = Some h" using 1 by simp_all
  have bX: "?b \<notin> X" using lg.mod_held[OF ready] 1 by blast
  note 2 = lg.rel_law[OF h bX]
  have hd: "(held s)(?b := None) = held s" using 1 by (simp add: fun_upd_idem)
  have t: "log_ready X t" "view t = view s" "held t = held s" using 1 2 hd by (simp_all add: t_def)
  have lt: "log_frame t = log_frame (s1\<lparr>bm_cache := ?c\<rparr>)" using 2 by (simp add: t_def)
  note ft = bm_fields_more[OF log_frame_fslog_more[OF lt]]
  have frt: "bm_frame t = bm_frame s"
    using bm_frame_of_log_frame[OF lt] bm_frame_of_log_frame[of s1 s] 1 by (simp add: bm_frame_def)
  have fields: "bm_cache t = ?c" "bm_first t = bm_first s" "bm_nalloc t = bm_nalloc s" "bm_ffc t = bm_ffc s"
    using ft f1 1 by simp_all
  note loop = refresh_bits[of i t BPB, unfolded bm_frameD(1)[OF frt], OF i n order_refl]
  define s' where "s' = t\<lparr>bm_nalloc := (bm_nalloc t)(i := word_of_nat (card (group_used t i))),
    bm_first := (bm_first t)(i := least_free (group_used t i))\<rparr>"
  have "st = (word_of_nat (i * BPB + BPB), s')"
    using run rd loop[unfolded first_upto_BPB]
    by (simp add: refresh_block_def bm_at_def[symmetric] Let_def t_def[symmetric] s'_def del: of_nat_add of_nat_mult)
  then have st: "st = (word_of_nat (Suc i * BPB), s')" by (simp add: add.commute)
  have s': "log_ready X s'" "view s' = view s" "held s' = held s" "bm_frame s' = bm_frame s" "bm_ffc s' = bm_ffc s"
    "bm_cache s' = ?c" "group_used s' = group_used t"
    using t frt fields by (simp_all add: s'_def bm_frame_def group_used_def bm_bit_def fun_eq_iff)
  have gi: "group_ok sb s' i"
  proof -
    have "card (group_used t i) \<le> card {..<BPB}" by (rule card_mono) (use group_used_le in auto)
    then have "unat (word_of_nat (card (group_used t i)) :: uint) = card (group_used t i)"
      by (simp add: unsigned_of_nat take_bit_nat_eq_self BPB_def BSIZE_def)
    then show ?thesis
      using dat by (simp add: group_ok_def s'(2,6,7) bm_frameD[OF s'(4)]) (simp add: s'_def)
  qed
  have gk: "group_ok sb s' k" if "k < i" for k
  proof -
    have "k * BSIZE + j < i * BSIZE" if "j < BSIZE" for j
    proof -
      have "k * BSIZE + j < Suc k * BSIZE" using that by simp
      also have "\<dots> \<le> i * BSIZE" using \<open>k < i\<close> by (intro mult_le_mono1) simp
      finally show ?thesis .
    qed
    then have c: "bm_cache s' (k * BSIZE + j) = bm_cache s (k * BSIZE + j)" if "j < BSIZE" for j
      using that f1 1 by (fastforce simp: s'(6))
    then have "group_used s' k = group_used s k" by (intro group_used_bytes) simp
    then show ?thesis
      using old that c fields by (simp add: group_ok_def s'(2) bm_frameD[OF s'(4)]) (simp add: s'_def)
  qed
  show ?thesis
    by (rule that[OF st s'(1-5)]) (use gi gk in \<open>auto simp: less_Suc_eq\<close>)
qed

text \<open>The first turn numbers are exact, so the loop over all groups brings the whole cache up to date.\<close>

lemma refresh_loop_ok:
  assumes ready: "log_ready X s" and n: "unat (bm_n s) \<le> 131072" and m: "m \<le> unat (bm_n s)"
    and blk: "\<forall>i<unat (bm_n s). data_block s (bm_at sb i)"
    and run: "foreach [0..<m] (refresh_block sb) (0, s) = Inr ((), st)"
  obtains s' where "st = (word_of_nat (m * BPB), s')" "log_ready X s'" "view s' = view s" "held s' = held s"
    "bm_frame s' = bm_frame s" "bm_ffc s' = bm_ffc s" "\<forall>k<m. group_ok sb s' k"
  using m run
proof (induction m arbitrary: st thesis)
  case 0
  then have "st = (word_of_nat (0 * BPB), s)" by simp
  then show ?case by (rule 0(1)) (use ready in simp_all)
next
  case (Suc m)
  obtain st1 where r1: "foreach [0..<m] (refresh_block sb) (0, s) = Inr ((), st1)" and step: "refresh_block sb m st1 = Inr ((), st)"
    using Suc.prems(3) unfolding foreach_upt_Suc[OF le0] by (auto simp: chain_eq_Inr)
  obtain s1 where s1: "st1 = (word_of_nat (m * BPB), s1)" "log_ready X s1" "view s1 = view s" "held s1 = held s"
    "bm_frame s1 = bm_frame s" "bm_ffc s1 = bm_ffc s" "\<forall>k<m. group_ok sb s1 k"
    by (rule Suc.IH[OF _ Suc_leD[OF Suc.prems(2)] r1])
  note f = bm_frameD[OF s1(5)]
  have m1: "m < unat (bm_n s1)" "unat (bm_n s1) \<le> 131072" "data_block s1 (bm_at sb m)"
    using Suc.prems(2) n blk by (simp_all add: f)
  obtain s' where s': "st = (word_of_nat (Suc m * BPB), s')" "log_ready X s'" "view s' = view s1" "held s' = held s1"
    "bm_frame s' = bm_frame s1" "bm_ffc s' = bm_ffc s1" "\<forall>k<Suc m. group_ok sb s' k"
    using refresh_block_ok[OF s1(2) m1 s1(7) step[unfolded s1(1)]] by blast
  show ?case by (rule Suc.prems(1)[OF s'(1,2) _ _ _ _ s'(7)]) (use s1 s' in simp_all)
qed

lemma and_not_mask_push: "and w (not (mask n)) = push_bit n (drop_bit n (w :: 'a::len word))"
  by (rule bit_eqI) (auto simp: bit_simps)

lemma unat_roundup:
  fixes x :: uint
  shows "unat (roundup (ucast x) (word_of_nat BPB)) = (unat x + BPB - 1) div BPB * BPB"
    and "unat (ucast (roundup (ucast x) (word_of_nat BPB) div word_of_nat BPB) :: uint) = (unat x + BPB - 1) div BPB"
proof -
  have B: "BPB = 32768" by (simp add: BPB_def BSIZE_def)
  let ?y = "ucast x + 32767 :: size_t" and ?q = "(unat x + 32767) div 32768"
  have lt: "unat x < 4294967296" using unsigned_less[of x] by simp
  then have ux: "unat (ucast x :: size_t) = unat x" by (simp add: unsigned_ucast_eq take_bit_nat_eq_self)
  have uy: "unat ?y = unat x + 32767"
    using lt ux unat_add_lem[of "ucast x :: size_t" 32767] by simp
  have m: "(32767 :: size_t) = mask 15" by (simp add: mask_eq_decr_exp)
  have q: "?q < 4294967296" using lt by (simp add: less_mult_imp_div_less)
  have "roundup (ucast x) (word_of_nat BPB) = and ?y (not 32767)" by (simp add: roundup_def B add.commute)
  then have r: "roundup (ucast x) (word_of_nat BPB) = push_bit 15 (drop_bit 15 ?y)"
    unfolding m and_not_mask_push by simp
  have ur: "unat (roundup (ucast x) (word_of_nat BPB)) = ?q * 32768"
    unfolding r unsigned_push_bit_eq unsigned_drop_bit_eq uy using q
    by (simp add: push_bit_eq_mult drop_bit_eq_div take_bit_nat_eq_self)
  then show "unat (roundup (ucast x) (word_of_nat BPB)) = (unat x + BPB - 1) div BPB * BPB" by (simp add: B)
  have "unat (roundup (ucast x) (word_of_nat BPB) div word_of_nat BPB) = ?q"
    by (simp only: unat_div_distrib ur) (simp add: B)
  then show "unat (ucast (roundup (ucast x) (word_of_nat BPB) div word_of_nat BPB) :: uint) = (unat x + BPB - 1) div BPB"
    using q by (simp add: unsigned_ucast_eq take_bit_nat_eq_self B)
qed

lemma data_block_rest:
  "dev_nblk t = dev_nblk s \<Longrightarrow> lg_start t = lg_start s \<Longrightarrow> lg_size t = lg_size s \<Longrightarrow> data_block t b = data_block s b"
  by (simp add: data_block_def)

text \<open>\<open>end_op\<close> of the only operation, as the layers above see it.\<close>

lemma end_op_alone:
  fixes s :: "'a bmap_scheme"
  assumes "log_ready {} s" "held s = Map.empty" "lg_outstanding s = 1" "\<not> lg_committing s"
  obtains s' where "end_op s = Inr ((), s')" "log_ready {} s'" "held s' = Map.empty" "lh_n s' = 0" "lg_outstanding s' = 0"
    "\<not> lg_committing s'" "fslog.more s' = fslog.more s" "data_block s' = data_block s"
    "\<And>b. data_block s b \<Longrightarrow> view s' b = view s b"
proof -
  obtain s' where "end_op s = Inr ((), s')" "log_ready {} s'" "held s' = Map.empty" "lh_n s' = 0" "lg_outstanding s' = 0"
    "\<not> lg_committing s'" "fslog.more s' = fslog.more s" "dev_nblk s' = dev_nblk s" "lg_start s' = lg_start s" "lg_size s' = lg_size s"
    "\<forall>b. data_block s b \<longrightarrow> view s' b = view s b \<and> dev_data s' b = view s b"
    using end_op_last[OF assms] by (auto elim!: returnsE)
  then show ?thesis by (intro that[of s']) (simp_all add: data_block_def fun_eq_iff)
qed

section \<open>When the allocator returns\<close>

lemma lh_n_frame: "bcache.more s' = bcache.more s \<Longrightarrow> lh_n s' = lh_n s"
  by (rule log_fields_more(5))

text \<open>With at most one block locked, and room for one more entry in the log, a block can be read.\<close>

definition few_held :: "'a bcache_scheme \<Rightarrow> bool" where
  "few_held s \<longleftrightarrow> finite (dom (held s)) \<and> card (dom (held s)) \<le> 1"

lemma few_held_empty [simp]: "held s = Map.empty \<Longrightarrow> few_held s"
  by (simp add: few_held_def)

lemma few_held_one [simp]: "held s = [b \<mapsto> h] \<Longrightarrow> few_held s"
  by (simp add: few_held_def)

lemma few_held_cong: "held s' = held s \<Longrightarrow> few_held s' = few_held s"
  by (simp add: few_held_def)

lemma logged_read_returns:
  assumes ready: "log_ready X s" and free: "held s = Map.empty \<or> few_held s \<and> lh_n s < lg_size s - 1"
    and b: "data_block s b" "held s b = None"
  obtains h s1 where "logged_read b s = Inr (h, s1)"
proof -
  note c = log_readyD[OF ready]
  have n: "lh_n s \<le> lg_size s - 1" "0 \<le> lh_n s" using ready by (auto simp: log_ready_def log_inv_def)
  have "lg_size s \<le> int NLOG" using c(3) by (simp add: geom_def)
  then have "nat (lh_n s) + card (dom (held s)) < NCACHE_BUF"
    using free logged_few(1)[OF c(3) n(1)] n by (auto simp: few_held_def NLOG_def NCACHE_BUF_def)
  moreover have "card (set (logged s)) \<le> nat (lh_n s)" using card_length[of "logged s"] by (simp add: logged_def)
  moreover have "finite (dom (held s))" using free by (auto simp: few_held_def)
  ultimately obtain h s1 where "bread b s = Inr (h, s1)"
    using bc.rd_total[OF c(1,2) data_block_inrange[OF b(1)] b(2)] by fastforce
  then show ?thesis by (intro that) (simp add: logged_read_def)
qed

text \<open>What one read-modify-write costs in the log.\<close>

lemma logged_write_count:
  assumes "logged_write h s = Inr ((), s')"
  shows "n_log_wrote s' = n_log_wrote s + 1"
  using assms by (auto simp: logged_write_def Let_def bpin_def upd_buf_def split: if_splits option.splits)

lemma modify_count:
  assumes ready: "log_ready X s" and b: "data_block s b" and rd: "logged_read b s = Inr (h, s1)"
    and wr: "logged_write h (set_data h d s1) = Inr ((), s2)"
  shows "lh_n (logged_relse h s2) \<le> lh_n s + 1" "n_log_wrote (logged_relse h s2) = n_log_wrote s + 1"
proof -
  let ?t = "set_data h d s1"
  note 1 = lg.rd_law[OF ready b rd]
  have more: "bcache.more s1 = bcache.more s"
    using bc.rd_law[OF log_readyD(1)[OF ready] data_block_inrange[OF b] rd[unfolded logged_read_def]] by simp
  have mt: "bcache.more ?t = bcache.more s" using more by simp
  have ms: "bcache.more (logged_relse h s2) = bcache.more s2" by (simp add: logged_relse_def)
  have h1: "held s1 b = Some h" and r1: "log_ready X s1" and f1: "log_frame s1 = log_frame s" using 1 by auto
  have p: "log_ready (insert b X) ?t" "held ?t b = Some h" "log_frame ?t = log_frame s"
    using logged_put_ok[OF r1 h1] h1 f1 by auto
  have "data_block ?t b" using data_block_frame[OF p(3)] b by simp
  from logged_write_ok[OF p(1,2) this wr] show "lh_n (logged_relse h s2) \<le> lh_n s + 1"
    using log_fields_more[OF mt] log_fields_more[OF ms] by simp
  show "n_log_wrote (logged_relse h s2) = n_log_wrote s + 1"
    using logged_write_count[OF wr] log_fields_more[OF mt] log_fields_more[OF ms] by simp
qed

lemma modify_returns:
  assumes ready: "log_ready X s" and free: "few_held s" "held s b = None" and b: "data_block s b"
    and room: "lh_n s < lg_size s - 1" "1 \<le> lg_outstanding s"
  obtains h s1 s2 where "logged_read b s = Inr (h, s1)"
    "logged_write h (set_data h (D (buf_data s1 h)) s1) = Inr ((), s2)"
    "lh_n (logged_relse h s2) \<le> lh_n s + 1" "buf_data s1 h = view s b"
proof -
  have n: "lg_size s \<le> int NLOG" using log_readyD(3)[OF ready] by (simp add: geom_def)
  obtain h s1 where rd: "logged_read b s = Inr (h, s1)"
    using logged_read_returns[OF ready _ b free(2)] free(1) room(1) by blast
  have more: "bcache.more s1 = bcache.more s"
    using bc.rd_law[OF log_readyD(1)[OF ready] data_block_inrange[OF b] rd[unfolded logged_read_def]] by simp
  let ?t = "set_data h (D (buf_data s1 h)) s1"
  have mt: "bcache.more ?t = bcache.more s" using more by simp
  have lt: "lh_n ?t = lh_n s" "lg_size ?t = lg_size s" "lg_outstanding ?t = lg_outstanding s"
    by (simp_all add: log_fields_more[OF mt])
  obtain s2 where wr: "logged_write h ?t = Inr ((), s2)"
    using logged_write_returns[of ?t h] room n by (auto simp: lt)
  show ?thesis
    by (rule that[OF rd wr modify_count(1)[OF ready b rd wr] lg.read_release(1)[OF ready b rd]])
qed

text \<open>The blocks a caller has locked are blocks in use, so neither the bitmap nor a free block.\<close>

definition held_used :: "'a bmap_scheme \<Rightarrow> bool" where
  "held_used s \<longleftrightarrow> (\<forall>b\<in>dom (held s). usable s b \<and> bm_bit s (unat b))"

lemma held_used_empty [simp]: "held s = Map.empty \<Longrightarrow> held_used s"
  by (simp add: held_used_def)

lemma bmap_set_returns:
  assumes ready: "log_ready X s" and free: "few_held s" "held_used s" and sync: "bm_sync s"
    and room: "lh_n s < lg_size s - 1" "1 \<le> lg_outstanding s" and b: "unat b < unat (bm_n s) * BPB"
  obtains s' where "bmap_block_statue_set b v s = Inr ((), s')" "lh_n s' \<le> lh_n s + 1"
proof -
  let ?byte = "unat b div 8" and ?bit = "unat b mod 8"
  let ?flag = "if v then or (bm_cache s ?byte) (push_bit ?bit 1) else and (bm_cache s ?byte) (not (push_bit ?bit 1))"
  define t where "t = s\<lparr>bm_cache := (bm_cache s)(?byte := ?flag)\<rparr>"
  have i: "unat b div BPB < unat (bm_n s)" using b by (simp add: less_mult_imp_div_less)
  have "held s (bm_block s (unat b div BPB)) = None" using free(2) i by (auto simp: held_used_def usable_def)
  then have t: "log_ready X t" "few_held t" "held t (bm_block s (unat b div BPB)) = None"
    "data_block t (bm_block s (unat b div BPB))" "lh_n t < lg_size t - 1" "1 \<le> lg_outstanding t"
    using assms i by (simp_all add: t_def bm_sync_def few_held_def)
  obtain h s1 s2 where m: "logged_read (bm_block s (unat b div BPB)) t = Inr (h, s1)"
    "logged_write h (set_data h ((buf_data s1 h)(unat b mod BPB div 8 := ?flag)) s1) = Inr ((), s2)"
    "lh_n (logged_relse h s2) \<le> lh_n t + 1"
    by (rule modify_returns[OF t, of "\<lambda>d. d(unat b mod BPB div 8 := ?flag)"])
  have blk: "word_of_nat (unat b div BPB) + sb_bmapstart (fs_sb t) = bm_block s (unat b div BPB)" by (simp add: t_def bm_block_def)
  have "\<not> ?byte \<ge> unat (bm_n s) * BSIZE" using b byte_in_range[of b "unat (bm_n s)"] by simp
  then have "bmap_block_statue_set b v s = Inr ((), logged_relse h s2)"
    using m(1,2) unfolding bmap_block_statue_set_def Let_def t_def[symmetric] blk by simp
  then show ?thesis using m(3) by (intro that) (simp_all add: t_def)
qed

lemma block_free_returns:
  assumes ready: "log_ready X s" and free: "few_held s" "held_used s" and inv: "bm_inv s"
    and room: "lh_n s < lg_size s - 1" "1 \<le> lg_outstanding s" and b: "unat b < unat (bm_n s) * BPB"
  obtains s' where "block_free b s = Inr ((), s')" "lh_n s' \<le> lh_n s + 1"
proof -
  have sync: "bm_sync s" using inv by (simp add: bm_inv_def)
  obtain s1 where 1: "bmap_block_statue_set b False s = Inr ((), s1)" "lh_n s1 \<le> lh_n s + 1"
    by (rule bmap_set_returns[OF ready free sync room b, of False])
  have "bm_n s1 = bm_n s" using bm_frameD[OF bmap_set_ok(4)[OF ready sync 1(1)]] by simp
  then have "\<not> unat (bm_n s1) \<le> unat b div BPB" using b by (simp add: less_mult_imp_div_less not_le)
  then have "\<exists>t. block_free b s = Inr ((), t) \<and> lh_n t = lh_n s1" using 1(1) by (simp add: block_free_def Let_def)
  then show ?thesis using that 1(2) by metis
qed

lemma logged_zero_returns:
  assumes "log_ready X s" "few_held s" "held s b = None" "data_block s b" "lh_n s < lg_size s - 1" "1 \<le> lg_outstanding s"
  obtains s' where "logged_zero_a_block b s = Inr ((), s')" "lh_n s' \<le> lh_n s + 1"
proof -
  obtain h s1 s2 where m: "logged_read b s = Inr (h, s1)"
    "logged_write h (set_data h zero_block s1) = Inr ((), s2)" "lh_n (logged_relse h s2) \<le> lh_n s + 1"
    by (rule modify_returns[OF assms, of "\<lambda>_. zero_block"])
  show ?thesis by (rule that[of "logged_relse h s2"]) (simp_all add: logged_zero_a_block_def m)
qed

definition allocated :: "'a bmap_scheme \<Rightarrow> uint set" where
  "allocated s = {b. unat b < unat (bm_n s) * BPB \<and> bm_bit s (unat b)}"

definition free_blocks :: "'a bmap_scheme \<Rightarrow> uint set" where
  "free_blocks s = {b. unat b < unat (bm_n s) * BPB \<and> \<not> bm_bit s (unat b)}"

text \<open>A group with a free block, and a free block, are the same thing.\<close>

lemma group_has_free:
  assumes "bm_counts s" "unat (bm_n s) \<le> 131072" "i < unat (bm_n s)"
  shows "bm_first s i \<noteq> -1 \<longleftrightarrow> (\<exists>b\<in>free_blocks s. unat b div BPB = i)"
proof -
  have f: "bm_first s i = least_free (group_used s i)" using assms by (simp add: bm_counts_def)
  show ?thesis
  proof
    assume "bm_first s i \<noteq> -1"
    then obtain j where j: "j < BPB" "j \<notin> group_used s i"
      using least_free_neq[OF group_used_le(1), of s i] f by metis
    let ?b = "word_of_nat (i * BPB + j) :: uint"
    have "i * BPB + j < Suc i * BPB" using j by simp
    also have "\<dots> \<le> unat (bm_n s) * BPB" using assms(3) by (intro mult_le_mono1) simp
    finally have lt: "i * BPB + j < unat (bm_n s) * BPB" .
    also have "\<dots> \<le> 2 ^ 32" using assms(2) by (simp add: BPB_def BSIZE_def)
    finally have "unat ?b = i * BPB + j" by (simp only: unsigned_of_nat) (simp add: take_bit_nat_eq_self)
    then show "\<exists>b\<in>free_blocks s. unat b div BPB = i"
      using j lt by (intro bexI[of _ ?b]) (simp_all add: free_blocks_def group_used_def del: of_nat_add of_nat_mult)
  next
    assume "\<exists>b\<in>free_blocks s. unat b div BPB = i"
    then obtain b where "b \<in> free_blocks s" "unat b div BPB = i" by blast
    then have "unat b div BPB = i" "\<not> bm_bit s (unat b)" by (simp_all add: free_blocks_def)
    then have "unat b mod BPB \<notin> group_used s i" by (auto simp: group_used_def)
    then have "group_used s i \<noteq> {..<BPB}" by (metis BPB_pos lessThan_iff mod_less_divisor)
    then show "bm_first s i \<noteq> -1" using f by (simp add: least_free_def)
  qed
qed

lemma alloc_update_returns:
  assumes n: "unat idx < unat (bm_n s)" "unat (bm_n s) \<le> 131072"
    and other: "bm_nalloc s (unat idx) + 1 = word_of_nat BPB \<Longrightarrow> \<exists>i<unat (bm_n s). i \<noteq> unat idx \<and> bm_first s i \<noteq> -1"
  obtains s' where "alloc_update idx f s = Inr s'"
proof -
  let ?na = "(bm_nalloc s)(unat idx := bm_nalloc s (unat idx) + 1)"
  show ?thesis
  proof (cases "?na (unat idx) = word_of_nat BPB")
    case True
    then obtain i where i: "i < unat (bm_n s)" "i \<noteq> unat idx" "bm_first s i \<noteq> -1" using other by auto
    let ?p = "\<lambda>i. ((bm_first s)(unat idx := -1)) i \<noteq> -1"
    have "find_from ?p 0 (unat (bm_n s)) \<noteq> None" using i by (auto simp: find_from_None)
    then obtain k where "find_from ?p 0 (unat (bm_n s)) = Some k" by blast
    then show ?thesis using True that by (simp add: alloc_update_def Let_def)
  next
    case False
    then show ?thesis using that next_free_eq[of idx "s\<lparr>bm_nalloc := ?na\<rparr>"] n by (simp add: alloc_update_def Let_def)
  qed
qed

lemma block_alloc_returns:
  assumes ready: "log_ready X s" and free: "few_held s" "held_used s" and inv: "bm_inv s" "bm_ready s"
    and room: "lh_n s + 2 \<le> lg_size s - 1" "1 \<le> lg_outstanding s" and two: "c \<in> free_blocks s" "e \<in> free_blocks s" "c \<noteq> e"
  shows "\<exists>b s'. block_alloc s = Inr (b, s') \<and> lh_n s' \<le> lh_n s + 2"
proof -
  let ?idx = "bm_ffc s" let ?k = "unat ?idx" and ?U = "group_used s (unat ?idx)"
  have k: "?k < unat (bm_n s)" and fk: "bm_first s ?k \<noteq> -1" and n: "unat (bm_n s) \<le> 131072"
    and sync: "bm_sync s" and counts: "bm_counts s"
    using inv by (auto simp: bm_inv_def bm_ready_def bm_sync_def)
  have c: "unat (bm_nalloc s ?k) = card ?U" "bm_first s ?k = least_free ?U" using counts k by (auto simp: bm_counts_def)
  obtain f where f: "bm_first s ?k = int f" "f < BPB" "f \<notin> ?U" "{..<f} \<subseteq> ?U"
    using least_free_neq[OF group_used_le(1), of s ?k] fk c(2) by metis
  let ?b = "bmap2blockno (word_of_nat f) ?idx"
  have ub: "unat ?b = ?k * BPB + f" by (rule unat_bmap2blockno) (use k n f in auto)
  have "?k * BPB + f < Suc ?k * BPB" using f by simp
  also have "\<dots> \<le> unat (bm_n s) * BPB" using k by (intro mult_le_mono1) simp
  finally have lt: "unat ?b < unat (bm_n s) * BPB" using ub by simp
  have room1: "lh_n s < lg_size s - 1" using room by simp
  obtain s1 where 1: "bmap_block_statue_set ?b True s = Inr ((), s1)" "lh_n s1 \<le> lh_n s + 1"
    by (rule bmap_set_returns[OF ready free sync room1 room(2) lt])
  note s1 = bmap_set_ok[OF ready sync 1(1)]
  note fr1 = bm_frameD[OF s1(4)]
  have bits1: "bm_bit s1 x = (if x = ?k * BPB + f then True else bm_bit s x)" for x using s1(6) ub by simp
  note gr1 = group_used_upd[of s1 ?k f True s, OF bits1 f(2)]
  obtain s2 where 2: "alloc_update ?idx (word_of_nat f) s1 = Inr s2"
  proof (rule alloc_update_returns[of ?idx s1])
    show "?k < unat (bm_n s1)" "unat (bm_n s1) \<le> 131072" using k n by (simp_all add: fr1)
    assume "bm_nalloc s1 ?k + 1 = word_of_nat BPB"
    then have full: "insert f ?U = {..<BPB}"
      using nalloc_Suc(2)[OF c(1) group_used_le(1) f(2,3)] by (simp add: s1(9))
    obtain x where x: "x \<in> free_blocks s" "x \<noteq> ?b" using two by metis
    have "unat x div BPB \<noteq> ?k"
    proof
      assume eq: "unat x div BPB = ?k"
      have "unat x = ?k * BPB + unat x mod BPB" using eq by (metis div_mult_mod_eq)
      moreover have "unat x mod BPB \<in> insert f ?U" unfolding full by simp
      ultimately have "unat x = unat ?b \<or> bm_bit s (unat x)" using ub by (auto simp: group_used_def)
      then show False using x by (auto simp: free_blocks_def word_unat_eq_iff)
    qed
    moreover have i: "unat x div BPB < unat (bm_n s)" using x(1) by (simp add: free_blocks_def less_mult_imp_div_less)
    moreover have "bm_first s (unat x div BPB) \<noteq> -1" using group_has_free[OF counts n i] x(1) by blast
    ultimately show "\<exists>i<unat (bm_n s1). i \<noteq> ?k \<and> bm_first s1 i \<noteq> -1" by (auto simp: fr1 s1(8))
  qed (use that in blast)
  have pre: "?k < unat (bm_n s1)" "unat (bm_n s1) \<le> 131072" "bm_ffc s1 = ?idx"
    "\<forall>i<unat (bm_n s1). i \<noteq> ?k \<longrightarrow> unat (bm_nalloc s1 i) = card (group_used s1 i) \<and> bm_first s1 i = least_free (group_used s1 i)"
    "group_used s1 ?k = insert f ?U" "unat (bm_nalloc s1 ?k) = card ?U"
    using k n c counts by (simp_all add: fr1 s1(8-10) gr1 bm_counts_def)
  obtain g na i where s2: "s2 = s1\<lparr>bm_nalloc := na, bm_first := g, bm_ffc := i\<rparr>"
    using alloc_update_ok(3)[OF 2 pre f(2-4) group_used_le(1)] by blast
  have "\<not> bm_bit s (unat ?b)" using f(2,3) by (simp add: group_used_def ub)
  then have "usable s (word_of_nat (unat ?b))" using inv(1) lt unfolding bm_inv_def by blast
  then have us: "usable s ?b" by simp
  have "lg_outstanding s1 = lg_outstanding s" "lg_size s1 = lg_size s" using s1(4) by (simp_all add: bm_frame_def)
  moreover have "held s ?b = None" using free(2) \<open>\<not> bm_bit s (unat ?b)\<close> by (auto simp: held_used_def)
  ultimately have z: "log_ready X s2" "few_held s2" "held s2 ?b = None" "data_block s2 ?b" "lh_n s2 < lg_size s2 - 1" "1 \<le> lg_outstanding s2"
    using s1(1,3) free us room 1(2) by (simp_all add: s2 fr1 usable_def few_held_def)
  obtain s3 where 3: "logged_zero_a_block ?b s2 = Inr ((), s3)" "lh_n s3 \<le> lh_n s2 + 1" by (rule logged_zero_returns[OF z])
  then have "block_alloc s = Inr (?b, s3)"
    using k f(1) 1(1) 2 by (simp add: block_alloc_split Let_def)
  moreover have "lh_n s3 \<le> lh_n s + 2" using 3(2) 1(2) by (simp add: s2)
  ultimately show ?thesis by blast
qed

lemma upd_set_in:
  assumes "A' = (A)(unat (b::uint) := v)" "unat b < (N::nat)"
  shows "{x::uint. unat x < N \<and> A' (unat x)} = (if v then insert b {x. unat x < N \<and> A (unat x)} else {x. unat x < N \<and> A (unat x)} - {b})"
proof -
  have eq: "unat x = unat b \<longleftrightarrow> x = b" for x :: uint by (rule word_unat_eq_iff[symmetric])
  show ?thesis using assms(2) by (auto simp: assms(1) eq)
qed
lemma upd_set_out:
  assumes "A' = (A)(unat (b::uint) := v)" "unat b < (N::nat)"
  shows "{x::uint. unat x < N \<and> \<not> A' (unat x)} = (if v then {x. unat x < N \<and> \<not> A (unat x)} - {b} else insert b {x. unat x < N \<and> \<not> A (unat x)})"
proof -
  have eq: "unat x = unat b \<longleftrightarrow> x = b" for x :: uint by (rule word_unat_eq_iff[symmetric])
  show ?thesis using assms(2) by (auto simp: assms(1) eq)
qed

lemma allocated_step:
  assumes "alloc_step s b v s'"
  shows "allocated s' = (if v then insert b (allocated s) else allocated s - {b})"
    "free_blocks s' = (if v then free_blocks s - {b} else insert b (free_blocks s))" "usable s' = usable s"
proof -
  have n: "bm_n s' = bm_n s" using assms bm_frameD[of s' s] by (simp add: alloc_step_def)
  have bits: "bm_bit s' = (bm_bit s)(unat b := v)" and lt: "unat b < unat (bm_n s) * BPB"
    using assms by (simp_all add: alloc_step_def)
  show "allocated s' = (if v then insert b (allocated s) else allocated s - {b})"
    unfolding allocated_def n by (rule upd_set_in[OF bits lt])
  show "free_blocks s' = (if v then free_blocks s - {b} else insert b (free_blocks s))"
    unfolding free_blocks_def n by (rule upd_set_out[OF bits lt])
  show "usable s' = usable s" by (rule usable_frame) (use assms in \<open>simp add: alloc_step_def\<close>)
qed

section \<open>The allocator as a set of blocks\<close>

text \<open>
  C12: block_alloc implements taking an element out of the set of free blocks: with two free
  blocks left and room in the log it returns, the block was free and usable, it reads as zeros, it
  and no other block changed its mark, no other usable block changed its contents, and the
  invariant of the bitmap cache holds again.
\<close>

theorem block_alloc_total:
  assumes "log_ready {} s" "held s = Map.empty" "bm_inv s" "bm_ready s"
    and "lh_n s + 2 \<le> lg_size s - 1" "1 \<le> lg_outstanding s"
    and "c \<in> free_blocks s" "e \<in> free_blocks s" "c \<noteq> e"
  shows "returns (block_alloc s) (\<lambda>(b, s'). b \<in> free_blocks s \<and> usable s b \<and> view s' b = zero_block \<and>
    allocated s' = insert b (allocated s) \<and> free_blocks s' = free_blocks s - {b} \<and>
    (\<forall>x. usable s x \<and> x \<noteq> b \<longrightarrow> view s' x = view s x) \<and>
    log_ready {} s' \<and> held s' = Map.empty \<and> bm_inv s' \<and> bm_ready s')"
proof -
  obtain b s' where run: "block_alloc s = Inr (b, s')"
    using block_alloc_returns[OF assms(1) few_held_empty[OF assms(2)] held_used_empty[OF assms(2)] assms(3-)] by blast
  note ok = block_alloc_ok[OF assms(1,3,4) run]
  note step = allocated_step[OF ok(4)]
  have "held s' = Map.empty" "b \<in> free_blocks s" "\<forall>x. usable s x \<and> x \<noteq> b \<longrightarrow> view s' x = view s x"
    using ok(4,5) assms(2) by (simp_all add: alloc_step_def free_blocks_def)
  then show ?thesis using ok step by (simp add: run)
qed

text \<open>
  C36: allocating a block and freeing it again restores the set of allocated blocks, the counters
  and first-free entries of every group, and the contents of every other usable block.
\<close>

theorem alloc_free_roundtrip:
  assumes "log_ready X s" "bm_inv s" "bm_ready s"
    and "block_alloc s = Inr (b, s1)" "block_free b s1 = Inr ((), s2)"
  shows "allocated s2 = allocated s \<and> free_blocks s2 = free_blocks s \<and> bm_inv s2 \<and> bm_ready s2 \<and>
    (\<forall>i<unat (bm_n s). bm_nalloc s2 i = bm_nalloc s i \<and> bm_first s2 i = bm_first s i) \<and>
    (\<forall>x. usable s x \<and> x \<noteq> b \<longrightarrow> view s2 x = view s x)"
proof -
  note a = block_alloc_ok[OF assms(1-4)]
  have a1: "bm_bit s1 (unat b)" "usable s1 b" using a allocated_step(3)[OF a(4)] by (simp_all add: alloc_step_def)
  note f = block_free_ok[OF a(1,2) a1 assms(5)]
  have "(bm_bit s)(unat b := False) = bm_bit s" using a(5) by (simp add: fun_upd_idem)
  then have bits: "bm_bit s2 = bm_bit s" using a(4) f(4) by (simp add: alloc_step_def)
  have "bm_frame s2 = bm_frame s" using a(4) f(4) by (simp add: alloc_step_def)
  then have n: "bm_n s2 = bm_n s" by (rule bm_frameD)
  have "bm_counts s" "bm_counts s2" using assms(2) f(2) by (auto simp: bm_inv_def)
  then have "\<forall>i<unat (bm_n s). bm_nalloc s2 i = bm_nalloc s i \<and> bm_first s2 i = bm_first s i"
    by (simp add: bm_counts_def n group_used_def bits word_unat_eq_iff)
  moreover have "view s2 x = view s x" if "usable s x" "x \<noteq> b" for x
    using that a(4) f(4) allocated_step(3)[OF a(4)] by (simp add: alloc_step_def)
  ultimately show ?thesis using f by (simp add: allocated_def free_blocks_def bits n)
qed

text \<open>The last free block is never handed out.\<close>

theorem last_block_refused:
  assumes "log_ready X s" "bm_inv s" "bm_ready s" "block_alloc s = Inr (b, s')"
  shows "\<exists>c. c \<in> free_blocks s \<and> c \<noteq> b"
proof -
  note a = block_alloc_ok[OF assms]
  have "bm_counts s'" "unat (bm_n s') \<le> 131072" using a(2) by (auto simp: bm_inv_def bm_sync_def)
  then have "\<exists>c\<in>free_blocks s'. unat c div BPB = unat (bm_ffc s')"
    using a(3) group_has_free[of s' "unat (bm_ffc s')"] by (simp add: bm_ready_def)
  then show ?thesis using allocated_step(2)[OF a(4)] by auto
qed

text \<open>
  \<open>first_free_cache\<close> is an unsigned number that no function sets when the device is mounted, so
  it is 0: with no free block in the first group the allocator computes the block number
  \<open>0xffffffff\<close>, although another group may have free blocks.
\<close>

text \<open>
  C39: with first_free_cache 0 and no free block in the first group, as after mounting a device
  whose first group is full, block_alloc addresses block 0xffffffff and accesses the bitmap cache
  outside its bounds, whatever the other groups hold.
\<close>

theorem alloc_full_group:
  assumes "unat (bm_n s) < 131072" "bm_ffc s = 0" "bm_first s 0 = -1"
  shows "block_alloc s = Inl Bad_access"
proof -
  have "bmap2blockno (-1) 0 = -1" by (simp add: bmap2blockno_def)
  moreover have "unat (-1 :: uint) div 8 = 536870911" by (simp add: unsigned_minus_1_eq_mask mask_eq_exp_minus_1)
  moreover have "unat (bm_n s) * BSIZE \<le> 131071 * BSIZE" using assms(1) by (intro mult_le_mono1) simp
  ultimately show ?thesis
    using assms by (simp add: block_alloc_def bmap_block_statue_set_def Let_def BSIZE_def)
qed

section \<open>A small device\<close>

text \<open>64 blocks, one bitmap block at 20, every block marked allocated but 10 and 11.\<close>

definition mini_bits :: "nat \<Rightarrow> byte" where
  "mini_bits j = (if j = 1 then 0xF3 else 0xFF)"

definition mini_bmap :: bmap where
  "mini_bmap = bcache_init \<lparr>dev_nblk = 64, dev_data = (\<lambda>b. if b = 20 then mini_bits else zero_block), dev_writes = [],
    disk_lock = False, clock = (\<lambda>n. \<lparr>tv_sec = word_of_nat n, tv_nsec = 0\<rparr>), ticks = 0, bc_buf = (\<lambda>_. static_buf),
    bc_hash = (\<lambda>_. []), lg_start = 2, lg_size = 8, lg_outstanding = 1, lg_committing = False, lh_n = 0,
    lh_block = (\<lambda>_. 0), n_log_wrote = 0,
    fs_sb = \<lparr>sb_magic = 0, sb_size = 64, sb_nblocks = 43, sb_ninodes = 0, sb_nlog = 8, sb_logstart = 2,
      sb_inodestart = 10, sb_bmapstart = 20\<rparr>,
    bm_cache = mini_bits, bm_first = (\<lambda>_. 10), bm_nalloc = (\<lambda>_. 32766), bm_n = 1, bm_ffc = 0\<rparr>"

lemma mini_bmap_fields:
  "dev_nblk mini_bmap = 64" "dev_data mini_bmap = (\<lambda>b. if b = 20 then mini_bits else zero_block)" "lg_start mini_bmap = 2"
  "lg_size mini_bmap = 8" "lg_outstanding mini_bmap = 1" "lh_n mini_bmap = 0" "sb_bmapstart (fs_sb mini_bmap) = 20"
  "bm_cache mini_bmap = mini_bits" "bm_first mini_bmap = (\<lambda>_. 10)" "bm_nalloc mini_bmap = (\<lambda>_. 32766)"
  "bm_n mini_bmap = 1" "bm_ffc mini_bmap = 0"
  by (simp_all add: mini_bmap_def bcache_init_def)

lemma mini_bmap_ready: "log_ready {} mini_bmap" "held mini_bmap = Map.empty" "b \<noteq> 0 \<Longrightarrow> view mini_bmap b = dev_data mini_bmap b"
proof -
  have "idle {} mini_bmap" unfolding mini_bmap_def by (rule bcache_init_idle) (simp add: fresh_cache_def)
  then show "log_ready {} mini_bmap" "held mini_bmap = Map.empty"
    by (simp_all add: idle_def log_ready_def log_inv_def logged_def geom_def mini_bmap_fields header_n_def NLOG_def MAXOPBLOCKS_def)
  show "b \<noteq> 0 \<Longrightarrow> view mini_bmap b = dev_data mini_bmap b"
    unfolding mini_bmap_def by (subst bcache_init_inv(3)) (simp_all add: fresh_cache_def bcache_init_def)
qed

lemma mini_bmap_bit: "bm_bit mini_bmap j \<longleftrightarrow> j \<noteq> 10 \<and> j \<noteq> 11"
proof -
  have k: "k = 0 \<or> k = 1 \<or> k = 2 \<or> k = 3 \<or> k = 4 \<or> k = 5 \<or> k = 6 \<or> k = 7" if "k < 8" for k :: nat using that by arith
  have all: "bit (0xFF :: byte) (j mod 8)" using k[of "j mod 8"] by (auto simp: bit_iff_odd_drop_bit)
  have f3: "bit (0xF3 :: byte) (j mod 8) \<longleftrightarrow> j mod 8 \<noteq> 2 \<and> j mod 8 \<noteq> 3"
    using k[of "j mod 8"] by (auto simp: bit_iff_odd_drop_bit)
  have "j = 10 \<longleftrightarrow> j div 8 = 1 \<and> j mod 8 = 2" "j = 11 \<longleftrightarrow> j div 8 = 1 \<and> j mod 8 = 3" by presburger+
  then show ?thesis using all f3 by (auto simp: bm_bit_def mini_bmap_fields mini_bits_def)
qed

lemma mini_bmap_used: "group_used mini_bmap 0 = {..<BPB} - {10, 11}"
  by (auto simp: group_used_def mini_bmap_bit)

lemma mini_bmap_inv: "bm_inv mini_bmap" "bm_ready mini_bmap" "10 \<in> free_blocks mini_bmap" "11 \<in> free_blocks mini_bmap"
proof -
  have db: "data_block mini_bmap b \<longleftrightarrow> b \<noteq> 0 \<and> unat b < 64 \<and> \<not> (2 \<le> unat b \<and> unat b < 10)" for b
    by (simp add: data_block_def mini_bmap_fields)
  have "bm_sync mini_bmap" by (simp add: bm_sync_def bm_block_def mini_bmap_fields db mini_bmap_ready(3))
  moreover have "{10, 11} \<subseteq> {..<BPB}" by (simp add: BPB_def BSIZE_def)
  then have "card ({..<BPB} - {10, 11}) = card {..<BPB} - card {10, 11 :: nat}" by (intro card_Diff_subset) auto
  then have "card (group_used mini_bmap 0) = 32766" unfolding mini_bmap_used by (simp add: BPB_def BSIZE_def)
  moreover have "least_free (group_used mini_bmap 0) = int 10"
    unfolding mini_bmap_used by (rule least_free_eqI) (simp_all add: BPB_def BSIZE_def)
  ultimately show "bm_inv mini_bmap"
    by (auto simp: bm_inv_def bm_counts_def mini_bmap_fields mini_bmap_bit usable_def bm_block_def db)
  show "bm_ready mini_bmap" "10 \<in> free_blocks mini_bmap" "11 \<in> free_blocks mini_bmap"
    by (simp_all add: bm_ready_def free_blocks_def mini_bmap_fields mini_bmap_bit BPB_def BSIZE_def)
qed

lemma mini_room: "lh_n mini_bmap + 2 \<le> lg_size mini_bmap - 1" "1 \<le> lg_outstanding mini_bmap"
  by (simp_all add: mini_bmap_fields)

lemma mini_alloc:
  obtains b s1 where "block_alloc mini_bmap = Inr (b, s1)" "lh_n s1 \<le> 2"
  using block_alloc_returns[OF mini_bmap_ready(1) few_held_empty[OF mini_bmap_ready(2)] held_used_empty[OF mini_bmap_ready(2)]
      mini_bmap_inv(1,2) mini_room mini_bmap_inv(3,4)] by (auto simp: mini_bmap_fields)

theorem block_alloc_total_witness:
  "\<exists>b s'. block_alloc mini_bmap = Inr (b, s') \<and> b \<in> {10, 11} \<and> view s' b = zero_block"
proof -
  have "returns (block_alloc mini_bmap) (\<lambda>(b, s'). b \<in> free_blocks mini_bmap \<and> view s' b = zero_block)"
    using block_alloc_total[OF mini_bmap_ready(1,2) mini_bmap_inv(1,2) mini_room mini_bmap_inv(3,4)]
    by (auto elim!: returns_mono)
  moreover have "free_blocks mini_bmap \<subseteq> {10, 11}" by (auto simp: free_blocks_def mini_bmap_bit word_unat_eq_iff)
  ultimately show ?thesis by (auto elim!: returnsE)
qed

theorem alloc_free_roundtrip_witness:
  "\<exists>b s1 s2. block_alloc mini_bmap = Inr (b, s1) \<and> block_free b s1 = Inr ((), s2) \<and> allocated s2 = allocated mini_bmap"
proof -
  note r = mini_bmap_ready(1) mini_bmap_inv(1,2)
  obtain b s1 where a: "block_alloc mini_bmap = Inr (b, s1)" "lh_n s1 \<le> 2" by (rule mini_alloc)
  note k = block_alloc_ok[OF r a(1)]
  have st: "held s1 = held mini_bmap" "bm_frame s1 = bm_frame mini_bmap" "unat b < unat (bm_n mini_bmap) * BPB" using k(4) by (simp_all add: alloc_step_def)
  note f = bm_frameD[OF st(2)]
  have "lh_n s1 < lg_size s1 - 1" "1 \<le> lg_outstanding s1" using a(2) st(2) by (simp_all add: bm_frame_def mini_bmap_fields)
  then obtain s2 where s2: "block_free b s1 = Inr ((), s2)"
    using block_free_returns[OF k(1) _ _ k(2), of b] st f mini_bmap_ready(2) by auto
  then show ?thesis using alloc_free_roundtrip[OF r a(1) s2] a(1) by blast
qed

theorem last_block_refused_witness:
  "\<exists>b s' c. block_alloc mini_bmap = Inr (b, s') \<and> c \<in> free_blocks mini_bmap \<and> c \<noteq> b"
proof -
  obtain b s1 where a: "block_alloc mini_bmap = Inr (b, s1)"
    by (rule mini_alloc)
  then show ?thesis using last_block_refused[OF mini_bmap_ready(1) mini_bmap_inv(1,2) a] by blast
qed

theorem alloc_full_group_witness:
  "block_alloc (mini_bmap\<lparr>bm_first := (\<lambda>i. if i = 0 then -1 else 5), bm_n := 2\<rparr>) = Inl Bad_access"
  by (rule alloc_full_group) (simp_all add: mini_bmap_fields)

lemma refresh_block_returns:
  assumes ready: "log_ready X s" "held s = Map.empty" and i: "i < unat (bm_n s)" and n: "unat (bm_n s) \<le> 131072"
    and blk: "data_block s (bm_at sb i)"
  obtains st where "refresh_block sb i (word_of_nat (i * BPB), s) = Inr ((), st)"
proof -
  obtain h s1 where rd: "logged_read (bm_at sb i) s = Inr (h, s1)" using logged_read_returns[OF ready(1) _ blk] ready(2) by auto
  let ?c = "\<lambda>a. if i * BSIZE \<le> a \<and> a < i * BSIZE + BSIZE then buf_data s1 h (a - i * BSIZE) else bm_cache s1 a"
  define t where "t = logged_relse h (s1\<lparr>bm_cache := ?c\<rparr>)"
  have "fslog.more t = fslog.more (s1\<lparr>bm_cache := ?c\<rparr>)"
    unfolding t_def logged_relse_def by (rule log_fields_more(8)) simp
  then have "bm_n t = bm_n s1" using bm_fields_more(5) by fastforce
  also have "bm_n s1 = bm_n s"
    using lg.rd_law[OF ready(1) blk rd] bm_fields_more(5)[OF log_frame_fslog_more[of s1 s]] by simp
  finally have "i < unat (bm_n t)" "unat (bm_n t) \<le> 131072" using i n by simp_all
  note loop = refresh_bits[OF this order_refl]
  show ?thesis
    by (rule that) (use rd loop in \<open>simp add: refresh_block_def bm_at_def[symmetric] Let_def t_def[symmetric] del: of_nat_add of_nat_mult\<close>)
qed

lemma refresh_loop_returns:
  assumes ready: "log_ready X s" "held s = Map.empty" and n: "unat (bm_n s) \<le> 131072" and m: "m \<le> unat (bm_n s)"
    and blk: "\<forall>i<unat (bm_n s). data_block s (bm_at sb i)"
  shows "\<exists>st. foreach [0..<m] (refresh_block sb) (0, s) = Inr ((), st)"
  using m
proof (induction m)
  case (Suc m)
  then obtain st where st: "foreach [0..<m] (refresh_block sb) (0, s) = Inr ((), st)" by auto
  obtain s1 where s1: "st = (word_of_nat (m * BPB), s1)" "log_ready X s1" "view s1 = view s" "held s1 = held s" "bm_frame s1 = bm_frame s"
    by (rule refresh_loop_ok[OF ready(1) n Suc_leD[OF Suc.prems] blk st])
  note f = bm_frameD[OF s1(5)]
  have "held s1 = Map.empty" "m < unat (bm_n s1)" "unat (bm_n s1) \<le> 131072" "data_block s1 (bm_at sb m)"
    using s1(4) ready(2) Suc.prems n blk by (simp_all add: f)
  from refresh_block_returns[OF s1(2) this] obtain st' where "refresh_block sb m st = Inr ((), st')" unfolding s1(1) .
  then show ?case unfolding foreach_upt_Suc[OF le0] st by simp
qed simp

text \<open>The whole of it, with what it leaves alone.\<close>

lemma refresh_total:
  assumes ready: "log_ready {} s" "held s = Map.empty" "lg_outstanding s = 0" "\<not> lg_committing s"
    and room: "lh_n s + int MAXOPBLOCKS \<le> int NLOG"
    and blk: "\<forall>i<(unat (sb_size sb) + BPB - 1) div BPB. data_block s (bm_at sb i)"
  obtains s' where "block_allocator_refresh sb s = Inr ((), s')" "log_ready {} s'" "held s' = Map.empty"
    "lh_n s' = 0" "lg_outstanding s' = 0" "\<not> lg_committing s'" "unat (bm_n s') = (unat (sb_size sb) + BPB - 1) div BPB"
    "\<forall>i<unat (bm_n s'). group_ok sb s' i" "bm_ffc s' = bm_ffc s" "fs_sb s' = fs_sb s" "bmap.more s' = bmap.more s"
    "data_block s' = data_block s" "dev_nblk s' = dev_nblk s" "lg_start s' = lg_start s" "lg_size s' = lg_size s"
    "\<And>b. data_block s b \<Longrightarrow> view s' b = view s b"
proof -
  let ?w = "ucast (roundup (ucast (sb_size sb)) (word_of_nat BPB) div word_of_nat BPB) :: uint"
  let ?n = "(unat (sb_size sb) + BPB - 1) div BPB"
  have n: "unat ?w = ?n" by (rule unat_roundup)
  have "unat (sb_size sb) < 2 ^ 32" using unsigned_less[of "sb_size sb"] by simp
  then have small: "?n \<le> 131072" by (simp add: BPB_def BSIZE_def)
  define s1 where "s1 = s\<lparr>bm_n := ?w\<rparr>"
  define s2 where "s2 = s1\<lparr>lg_outstanding := 1, n_log_wrote := 0\<rparr>"
  have b: "begin_op s1 = Inr ((), s2)" using ready room by (simp add: begin_op_def s1_def s2_def)
  have db: "data_block s2 x = data_block s x" for x by (rule data_block_rest) (simp_all add: s2_def s1_def)
  have 2: "log_ready {} s2" "held s2 = Map.empty" "unat (bm_n s2) \<le> 131072" "unat ?w \<le> unat (bm_n s2)"
    "\<forall>i<unat (bm_n s2). data_block s2 (bm_at sb i)"
    using ready small blk n by (simp_all add: db) (simp_all add: s2_def s1_def)
  have f2: "view s2 = view s" "bm_ffc s2 = bm_ffc s" "fs_sb s2 = fs_sb s" "bm_n s2 = ?w" "bmap.more s2 = bmap.more s"
    "dev_nblk s2 = dev_nblk s" "lg_start s2 = lg_start s" "lg_size s2 = lg_size s" "lg_outstanding s2 = 1" "\<not> lg_committing s2"
    using ready(4) by (simp_all add: s2_def s1_def)
  obtain st where loop: "foreach [0..<unat ?w] (refresh_block sb) (0, s2) = Inr ((), st)"
    using refresh_loop_returns[OF 2] by blast
  obtain s3 where 3: "st = (word_of_nat (unat ?w * BPB), s3)" "log_ready {} s3" "view s3 = view s2" "held s3 = held s2"
    "bm_frame s3 = bm_frame s2" "bm_ffc s3 = bm_ffc s2" "\<forall>k<unat ?w. group_ok sb s3 k"
    by (rule refresh_loop_ok[OF 2(1,3-5) loop])
  have h3: "held s3 = Map.empty" "lg_outstanding s3 = 1" "\<not> lg_committing s3" "dev_nblk s3 = dev_nblk s2" "lg_start s3 = lg_start s2"
    "lg_size s3 = lg_size s2" using 3(4,5) 2(2) f2 by (simp_all add: bm_frame_def)
  obtain s4 where fin: "end_op s3 = Inr ((), s4)" and 4: "log_ready {} s4" "held s4 = Map.empty" "lh_n s4 = 0" "lg_outstanding s4 = 0"
    "\<not> lg_committing s4" "(dev_nblk s4, lg_start s4, lg_size s4) = (dev_nblk s3, lg_start s3, lg_size s3)" "fslog.more s4 = fslog.more s3"
    "\<And>b. data_block s3 b \<Longrightarrow> view s4 b = view s3 b"
    using end_op_last[OF 3(2) h3(1-3)] by (auto elim!: returnsE)
  note f4 = bm_fields_more[OF 4(7)] and fr = bm_frameD[OF 3(5)]
  have run: "block_allocator_refresh sb s = Inr ((), s4)"
    by (simp add: block_allocator_refresh_def Let_def s1_def[symmetric] b loop 3(1) fin del: of_nat_mult)
  have d4: "data_block s4 = data_block s" using 4(6) h3 f2 by (simp add: fun_eq_iff data_block_def)
  have d3: "data_block s3 = data_block s" using h3 f2 by (simp add: fun_eq_iff data_block_def)
  have "group_ok sb s4 i" if "i < ?n" for i
    using 3(7) that 4(8) blk d3 f4 by (simp add: n group_ok_def group_used_def bm_bit_def)
  then show ?thesis
    by (intro that[OF run 4(1-5)]) (use 4 f4 fr f2 3 h3 d3 d4 n in simp_all)
qed

text \<open>
  C35: block_allocator_refresh returns with the cached bitmap equal to the bitmap blocks on the
  device, with the exact number of allocated blocks and the first free block of every group, for
  the number of groups the size of the file system asks for.
\<close>

theorem refresh_builds_cache:
  assumes ready: "log_ready {} s" "held s = Map.empty" "lg_outstanding s = 0" "\<not> lg_committing s"
    and room: "lh_n s + int MAXOPBLOCKS \<le> int NLOG"
    and blk: "\<forall>i<(unat (sb_size sb) + BPB - 1) div BPB. data_block s (word_of_nat i + sb_bmapstart sb)"
      "sb_bmapstart (fs_sb s) = sb_bmapstart sb"
  shows "returns (block_allocator_refresh sb s) (\<lambda>(_, s'). log_ready {} s' \<and> held s' = Map.empty \<and>
    unat (bm_n s') = (unat (sb_size sb) + BPB - 1) div BPB \<and> bm_sync s' \<and> bm_counts s' \<and> bm_ffc s' = bm_ffc s \<and>
    (\<forall>b. data_block s b \<longrightarrow> view s' b = view s b))"
proof -
  have "bm_at sb i = word_of_nat i + sb_bmapstart sb" for i by (simp add: bm_at_def)
  then obtain s' where 1: "block_allocator_refresh sb s = Inr ((), s')" "log_ready {} s'" "held s' = Map.empty"
    "unat (bm_n s') = (unat (sb_size sb) + BPB - 1) div BPB" "\<forall>i<unat (bm_n s'). group_ok sb s' i" "bm_ffc s' = bm_ffc s"
    "fs_sb s' = fs_sb s" "data_block s' = data_block s" "\<And>b. data_block s b \<Longrightarrow> view s' b = view s b"
    using refresh_total[OF ready room, of sb] blk(1) by metis
  have "bm_at sb = bm_block s'" using blk(2) 1(7) by (simp add: fun_eq_iff bm_at_def bm_block_def)
  moreover have "unat (bm_n s') \<le> 131072" using unsigned_less[of "sb_size sb", where ?'a = nat] unfolding 1(4) by (simp add: BPB_def BSIZE_def)
  ultimately have "bm_sync s'" "bm_counts s'"
    using 1(4,5,7,8) blk by (simp_all add: bm_sync_def bm_counts_def group_ok_def bm_block_def bm_at_def)
  then show ?thesis using 1 by simp
qed

theorem refresh_builds_cache_witness:
  "\<exists>s'. block_allocator_refresh (fs_sb mini_bmap) (mini_bmap\<lparr>lg_outstanding := 0\<rparr>) = Inr ((), s') \<and> bm_n s' = 1 \<and>
    bm_sync s' \<and> bm_counts s'"
proof -
  let ?s = "mini_bmap\<lparr>lg_outstanding := 0\<rparr>"
  have sz: "sb_size (fs_sb mini_bmap) = 64" "\<not> lg_committing mini_bmap" by (simp_all add: mini_bmap_def bcache_init_def)
  have one: "(unat (64 :: uint) + BPB - 1) div BPB = 1" by (simp add: BPB_def BSIZE_def)
  have db: "data_block ?s 20" by (simp add: data_block_def mini_bmap_fields)
  have "returns (block_allocator_refresh (fs_sb mini_bmap) ?s)
      (\<lambda>(_, s'). log_ready {} s' \<and> held s' = Map.empty \<and> unat (bm_n s') = 1 \<and> bm_sync s' \<and> bm_counts s' \<and>
        bm_ffc s' = bm_ffc ?s \<and> (\<forall>b. data_block ?s b \<longrightarrow> view s' b = view ?s b))"
    by (rule refresh_builds_cache[of ?s "fs_sb mini_bmap", unfolded sz one])
      (use mini_bmap_ready sz db in \<open>simp_all add: mini_bmap_fields NLOG_def MAXOPBLOCKS_def\<close>)
  then show ?thesis by (auto elim!: returnsE simp: word_unat_eq_iff)
qed

section \<open>What an operation costs in the log\<close>

text \<open>\<open>logged_as s s' n\<close>: \<open>n\<close> calls of \<open>logged_write\<close>, each with at most one new entry.\<close>

definition logged_as :: "'a fslog_scheme \<Rightarrow> 'a fslog_scheme \<Rightarrow> nat \<Rightarrow> bool" where
  "logged_as s s' n \<longleftrightarrow> n_log_wrote s' = n_log_wrote s + word_of_nat n \<and> lh_n s' \<le> lh_n s + int n"

lemma logged_as_trans: "logged_as s s' m \<Longrightarrow> logged_as s' s'' n \<Longrightarrow> logged_as s s'' (m + n)"
  by (simp add: logged_as_def add.assoc)

lemma logged_as_same: "n_log_wrote s' = n_log_wrote s \<Longrightarrow> lh_n s' = lh_n s \<Longrightarrow> logged_as s s' 0"
  by (simp add: logged_as_def)

lemma modify_logged_as:
  assumes "log_ready X s" "data_block s b" "logged_read b s = Inr (h, s1)" "logged_write h (set_data h d s1) = Inr ((), s2)"
  shows "logged_as s (logged_relse h s2) 1"
  using modify_count[OF assms] by (simp add: logged_as_def)

lemma bmap_set_logged_as:
  assumes ready: "log_ready X s" and sync: "bm_sync s" and run: "bmap_block_statue_set b v s = Inr ((), s')"
  shows "logged_as s s' 1"
proof -
  let ?byte = "unat b div 8" and ?bit = "unat b mod 8" and ?i = "unat b div BPB"
  let ?flag = "if v then or (bm_cache s ?byte) (push_bit ?bit 1) else and (bm_cache s ?byte) (not (push_bit ?bit 1))"
  define t where "t = s\<lparr>bm_cache := (bm_cache s)(?byte := ?flag)\<rparr>"
  note lt = bmap_set_ok(5)[OF ready sync run]
  have i: "?i < unat (bm_n s)" using lt by (simp add: less_mult_imp_div_less)
  have blk: "word_of_nat ?i + sb_bmapstart (fs_sb t) = bm_block s ?i" by (simp add: t_def bm_block_def)
  obtain bp s1 s2 where rd: "logged_read (bm_block s ?i) t = Inr (bp, s1)"
    and wr: "logged_write bp (set_data bp ((buf_data s1 bp)((unat b mod BPB) div 8 := ?flag)) s1) = Inr ((), s2)"
    and s': "s' = logged_relse bp s2"
    using run byte_in_range[of b "unat (bm_n s)"] lt blk
    by (auto simp: bmap_block_statue_set_def Let_def t_def chain_eq_Inr)
  have rt: "log_ready X t" "data_block t (bm_block s ?i)" using ready sync i by (simp_all add: t_def bm_sync_def)
  have "logged_as t s' 1" unfolding s' by (rule modify_logged_as[OF rt rd wr])
  then show ?thesis by (simp add: logged_as_def t_def)
qed

lemma next_free_fields: "next_free i j s = Inr s' \<Longrightarrow> \<exists>g. s' = s\<lparr>bm_first := g\<rparr>"
proof (induction i j s rule: next_free.induct)
  case (1 i j s)
  have none: "s = s\<lparr>bm_first := bm_first s\<rparr>" by simp
  show ?case
  proof (cases "j < BPB")
    case True
    then obtain used where u: "bmap_block_statue_get (bmap2blockno (word_of_nat j) i) s = Inr used"
      and r: "(if \<not> used then Inr (s\<lparr>bm_first := (bm_first s)(unat i := int j)\<rparr>) else next_free i (Suc j) s) = Inr s'"
      using "1.prems" unfolding next_free.simps[of i j] by (auto simp: chain_eq_Inr)
    show ?thesis
    proof (cases used)
      case u': True
      show ?thesis by (rule "1.IH"[OF True u]) (use r u' in simp_all)
    next
      case False
      then show ?thesis using r by auto
    qed
  next
    case False
    then have "s' = s" using "1.prems" unfolding next_free.simps[of i j] by simp
    then show ?thesis using none by metis
  qed
qed

lemma alloc_update_fields:
  assumes "alloc_update i f s = Inr s'"
  shows "\<exists>k g j. s' = s\<lparr>bm_nalloc := k, bm_first := g, bm_ffc := j\<rparr>"
proof -
  let ?na = "(bm_nalloc s)(unat i := bm_nalloc s (unat i) + 1)"
  consider g where "s' = s\<lparr>bm_nalloc := ?na, bm_first := g\<rparr>" | g j where "s' = s\<lparr>bm_nalloc := ?na, bm_first := g, bm_ffc := j\<rparr>"
    using assms next_free_fields[of i "unat (f + 1)" "s\<lparr>bm_nalloc := ?na\<rparr>" s']
    unfolding alloc_update_def Let_def by (auto split: if_splits option.splits)
  then show ?thesis
  proof cases
    case (1 g)
    then have "s' = s\<lparr>bm_nalloc := ?na, bm_first := g, bm_ffc := bm_ffc s\<rparr>" by simp
    then show ?thesis by blast
  qed blast
qed

lemma block_alloc_logged_as:
  assumes ready: "log_ready X s" and inv: "bm_inv s" "bm_ready s" and run: "block_alloc s = Inr (b, s')"
  shows "logged_as s s' 2"
proof -
  obtain s1 s2 where 1: "bmap_block_statue_set b True s = Inr ((), s1)"
    and 2: "alloc_update (bm_ffc s) (word_of_int (bm_first s (unat (bm_ffc s)))) s1 = Inr s2"
    and 3: "logged_zero_a_block b s2 = Inr ((), s')"
    using run by (auto simp: block_alloc_split Let_def chain_eq_Inr split: if_splits)
  have sync: "bm_sync s" using inv by (simp add: bm_inv_def)
  have us: "usable s b" by (rule block_alloc_ok(6)[OF ready inv run])
  note s1 = bmap_set_ok[OF ready sync 1]
  obtain k g j where s2: "s2 = s1\<lparr>bm_nalloc := k, bm_first := g, bm_ffc := j\<rparr>" using alloc_update_fields[OF 2] by blast
  have r2: "log_ready X s2" "data_block s2 b" using s1(1) us bm_frameD(3)[OF s1(4)] by (simp_all add: s2 usable_def)
  obtain h t1 t2 where m: "logged_read b s2 = Inr (h, t1)" "logged_write h (set_data h zero_block t1) = Inr ((), t2)" "s' = logged_relse h t2"
    using 3 by (auto simp: logged_zero_a_block_def chain_eq_Inr)
  have "logged_as s2 s' 1" unfolding m(3) by (rule modify_logged_as[OF r2 m(1,2)])
  then show ?thesis using bmap_set_logged_as[OF ready sync 1] by (simp add: logged_as_def s2)
qed

lemma block_free_logged_as:
  assumes ready: "log_ready X s" and inv: "bm_inv s" and run: "block_free b s = Inr ((), s')"
  shows "logged_as s s' 1"
proof -
  have sync: "bm_sync s" using inv by (simp add: bm_inv_def)
  obtain s1 where "bmap_block_statue_set b False s = Inr ((), s1)" "n_log_wrote s' = n_log_wrote s1" "lh_n s' = lh_n s1"
    using run by (auto simp: block_free_def Let_def chain_eq_Inr split: if_splits)
  then show ?thesis using bmap_set_logged_as[OF ready sync] by (simp add: logged_as_def)
qed

end
