(* ===== verification/Inode.thy ===== *)
theory Inode
  imports Block_Alloc
begin

text \<open>
  The first part of \<^verbatim>\<open>src/inode.c\<close>: inodes on the device and in memory, the table of inodes, and
  the operations up to \<open>iupdate\<close>. A pointer to an in-memory inode is its index in the table; the
  table only grows. An inode's mutex is state, because \<open>ilock\<close> returns with it locked; the spin
  lock of the table and \<open>ialloc_lock\<close> are not. The checks under \<open>DEBUG\<close> are not part of the
  program modelled here.
\<close>

section \<open>State\<close>

definition NDIRECT :: nat where "NDIRECT = 43"
definition NBLOCKADDR :: nat where "NBLOCKADDR = NDIRECT + 3"
definition NINODE_INIT :: nat where "NINODE_INIT = 30"
definition IPB :: nat where "IPB = 16"

definition T_UNUSE :: short where "T_UNUSE = 0"
definition T_DIR :: short where "T_DIR = 1"
definition T_FILE :: short where "T_FILE = 2"
definition T_DEVICE :: short where "T_DEVICE = 3"

text \<open>The fields an in-memory inode shares with the inode on the device.\<close>

record dinode =
  di_type :: short
  di_major :: short
  di_minor :: short
  di_nlink :: short
  di_size :: size_t
  di_atime :: timespec
  di_mtime :: timespec
  di_ctime :: timespec
  di_perm :: uint
  di_addrs :: "nat \<Rightarrow> uint"

record minode = dinode +
  mi_inum :: uint
  mi_ref :: int
  mi_locked :: bool
  mi_valid :: bool

record itable = bmap +
  it_n :: nat
  it_inode :: "nat \<Rightarrow> minode"

definition zero_time :: timespec where
  "zero_time = \<lparr>tv_sec = 0, tv_nsec = 0\<rparr>"

text \<open>What \<open>calloc\<close> returns.\<close>

definition static_inode :: minode where
  "static_inode = \<lparr>di_type = 0, di_major = 0, di_minor = 0, di_nlink = 0, di_size = 0, di_atime = zero_time,
    di_mtime = zero_time, di_ctime = zero_time, di_perm = 0, di_addrs = (\<lambda>_. 0), mi_inum = 0, mi_ref = 0,
    mi_locked = False, mi_valid = False\<rparr>"

definition upd_inode :: "nat \<Rightarrow> (minode \<Rightarrow> minode) \<Rightarrow> 'a itable_scheme \<Rightarrow> 'a itable_scheme" where
  "upd_inode ip f s = s\<lparr>it_inode := (it_inode s)(ip := f (it_inode s ip))\<rparr>"

section \<open>Inodes on the device\<close>

text \<open>\<open>struct dinode\<close> takes 256 bytes: the fields at the offsets the C ABI gives them, then padding.\<close>

definition dinode_off :: "uint \<Rightarrow> nat" where
  "dinode_off inum = unat inum mod IPB * 256"

definition IBLOCK :: "uint \<Rightarrow> 'a bmap_scheme \<Rightarrow> uint" where
  "IBLOCK inum s = word_of_nat (unat inum div IPB) + sb_inodestart (fs_sb s)"

definition get_time :: "block \<Rightarrow> nat \<Rightarrow> timespec" where
  "get_time d off = \<lparr>tv_sec = get64 d off, tv_nsec = get64 d (off + 8)\<rparr>"

definition put_time :: "block \<Rightarrow> nat \<Rightarrow> timespec \<Rightarrow> block" where
  "put_time d off t = put64 (put64 d off (tv_sec t)) (off + 8) (tv_nsec t)"

definition get_addrs :: "block \<Rightarrow> nat \<Rightarrow> nat \<Rightarrow> uint" where
  "get_addrs d off i = (if i < NBLOCKADDR then get32 d (off + 4 * i) else 0)"

definition put_addrs :: "block \<Rightarrow> nat \<Rightarrow> (nat \<Rightarrow> uint) \<Rightarrow> block" where
  "put_addrs d off a = fold (\<lambda>i d. put32 d (off + 4 * i) (a i)) [0..<NBLOCKADDR] d"

text \<open>\<open>ilock\<close> copies the fields out of the block, \<open>iupdate\<close> into it.\<close>

definition get_dinode :: "block \<Rightarrow> nat \<Rightarrow> minode \<Rightarrow> minode" where
  "get_dinode d off ip = ip\<lparr>di_type := get16 d off, di_major := get16 d (off + 2), di_minor := get16 d (off + 4),
    di_nlink := get16 d (off + 6), di_size := get64 d (off + 8), di_perm := get32 d (off + 64),
    di_atime := get_time d (off + 16), di_mtime := get_time d (off + 32), di_ctime := get_time d (off + 48),
    di_addrs := get_addrs d (off + 68)\<rparr>"

definition put_dinode :: "block \<Rightarrow> nat \<Rightarrow> minode \<Rightarrow> block" where
  "put_dinode d off ip =
    (let d = put16 d off (di_type ip);
         d = put16 d (off + 2) (di_major ip);
         d = put16 d (off + 4) (di_minor ip);
         d = put16 d (off + 6) (di_nlink ip);
         d = put64 d (off + 8) (di_size ip);
         d = put32 d (off + 64) (di_perm ip);
         d = put_time d (off + 16) (di_atime ip);
         d = put_time d (off + 32) (di_mtime ip);
         d = put_time d (off + 48) (di_ctime ip)
     in put_addrs d (off + 68) (di_addrs ip))"

definition clear_dinode :: "block \<Rightarrow> nat \<Rightarrow> block" where
  "clear_dinode d off = (\<lambda>a. if off \<le> a \<and> a < off + 256 then 0 else d a)"

section \<open>The table\<close>

definition inode_init :: "superblock \<Rightarrow> 'a itable_scheme \<Rightarrow> (int \<times> 'a itable_scheme) res" where
  "inode_init sb s =
    (let s = s\<lparr>it_n := NINODE_INIT, it_inode := (\<lambda>i. if i < NINODE_INIT then static_inode else it_inode s i)\<rparr>;
         s = s\<lparr>bm_n := 0, bm_ffc := 0\<rparr>
     in chain (block_allocator_refresh sb s) (\<lambda>(_, s). Inr (0, s)))"

definition itable_grow :: "'a itable_scheme \<Rightarrow> 'a itable_scheme" where
  "itable_grow s = s\<lparr>it_n := it_n s * 2,
    it_inode := (\<lambda>i. if it_n s \<le> i \<and> i < it_n s * 2 then static_inode else it_inode s i)\<rparr>"

text \<open>One search of the table: an entry in use for the inode, else the first entry not in use.\<close>

definition iget_search :: "uint \<Rightarrow> 'a itable_scheme \<Rightarrow> (nat \<times> 'a itable_scheme) option" where
  "iget_search inum s =
    (case find_from (\<lambda>i. mi_inum (it_inode s i) = inum \<and> mi_ref (it_inode s i) > 0) 0 (it_n s) of
       Some i \<Rightarrow> Some (i, upd_inode i (\<lambda>ip. ip\<lparr>mi_ref := mi_ref ip + 1\<rparr>) s)
     | None \<Rightarrow>
       (case find_from (\<lambda>i. mi_ref (it_inode s i) = 0) 0 (it_n s) of
          Some i \<Rightarrow> Some (i, upd_inode i (\<lambda>ip. ip\<lparr>mi_inum := inum, mi_ref := 1, mi_valid := False\<rparr>) s)
        | None \<Rightarrow> None))"

text \<open>
  \<open>iget\<close> calls itself after the table has grown. Twice is enough, since the new entries are not
  in use; a third search would be \<open>Hang\<close>.
\<close>

definition iget :: "uint \<Rightarrow> 'a itable_scheme \<Rightarrow> (nat \<times> 'a itable_scheme) res" where
  "iget inum s =
    (case iget_search inum s of
       Some r \<Rightarrow> Inr r
     | None \<Rightarrow> (case iget_search inum (itable_grow s) of Some r \<Rightarrow> Inr r | None \<Rightarrow> Inl Hang))"

definition idup :: "nat \<Rightarrow> 'a itable_scheme \<Rightarrow> nat \<times> 'a itable_scheme" where
  "idup ip s = (ip, upd_inode ip (\<lambda>i. i\<lparr>mi_ref := mi_ref i + 1\<rparr>) s)"

text \<open>\<open>ialloc\<close> scans the inode numbers from 1; \<open>n\<close> is the number of inodes of the super block.\<close>

function ialloc_from :: "nat \<Rightarrow> short \<Rightarrow> nat \<Rightarrow> 'a itable_scheme \<Rightarrow> (nat \<times> 'a itable_scheme) res" where
  "ialloc_from n type inum s =
    (if inum < n then
       chain (logged_read (IBLOCK (word_of_nat inum) s) s) (\<lambda>(bp, s).
       let off = dinode_off (word_of_nat inum) in
       if get16 (buf_data s bp) off = T_UNUSE then
         let s = set_data bp (put16 (clear_dinode (buf_data s bp) off) off type) s in
         chain (logged_write bp s) (\<lambda>(_, s).
         iget (word_of_nat inum) (logged_relse bp s))
       else ialloc_from n type (Suc inum) (logged_relse bp s))
     else Inl (Err_exit ''too much file on disk!''))"
  by pat_completeness auto
termination
  by (relation "measure (\<lambda>(n, type, inum, s). n - inum)") auto

declare ialloc_from.simps [simp del]

definition ialloc :: "short \<Rightarrow> 'a itable_scheme \<Rightarrow> (nat \<times> 'a itable_scheme) res" where
  "ialloc type s = ialloc_from (unat (sb_ninodes (fs_sb s))) type 1 s"

section \<open>Locking and writing back\<close>

definition lock_inode :: "nat \<Rightarrow> 'a itable_scheme \<Rightarrow> (unit \<times> 'a itable_scheme) res" where
  "lock_inode ip s =
    (if mi_locked (it_inode s ip) then Inl Deadlock else Inr ((), upd_inode ip (mi_locked_update (\<lambda>_. True)) s))"

definition ilock :: "nat \<Rightarrow> 'a itable_scheme \<Rightarrow> (unit \<times> 'a itable_scheme) res" where
  "ilock ip s =
    (if mi_ref (it_inode s ip) < 1 then Inl (Err_exit ''ilock got invalid inode'')
     else
       chain (lock_inode ip s) (\<lambda>(_, s).
       if \<not> mi_valid (it_inode s ip) then
         let inum = mi_inum (it_inode s ip) in
         chain (logged_read (IBLOCK inum s) s) (\<lambda>(bp, s).
         let s = upd_inode ip (get_dinode (buf_data s bp) (dinode_off inum)) s;
             s = upd_inode ip (mi_valid_update (\<lambda>_. True)) (logged_relse bp s);
             type = di_type (it_inode s ip)
         in if type = T_UNUSE then Inl (Err_exit ''ilock: ip is unused'')
            else if type \<noteq> T_FILE \<and> type \<noteq> T_DIR \<and> type \<noteq> T_DEVICE then Inl (Err_exit ''ilock: ip has invalid type'')
            else Inr ((), s))
       else Inr ((), s)))"

definition iunlock :: "nat \<Rightarrow> 'a itable_scheme \<Rightarrow> 'a itable_scheme" where
  "iunlock ip s = upd_inode ip (mi_locked_update (\<lambda>_. False)) s"

definition iupdate :: "nat \<Rightarrow> 'a itable_scheme \<Rightarrow> (unit \<times> 'a itable_scheme) res" where
  "iupdate ip s =
    (let inum = mi_inum (it_inode s ip) in
     chain (logged_read (IBLOCK inum s) s) (\<lambda>(bp, s).
     let (t, s) = get_current_timespec s;
         s = upd_inode ip (di_ctime_update (\<lambda>_. t)) s;
         s = set_data bp (put_dinode (buf_data s bp) (dinode_off inum) (it_inode s ip)) s
     in chain (logged_write bp s) (\<lambda>(_, s).
        Inr ((), logged_relse bp s))))"

section \<open>Reading back an inode\<close>

text \<open>The fields of the two structures, without the fields of the table entry.\<close>

abbreviation disk_part :: "'a dinode_scheme \<Rightarrow> dinode" where
  "disk_part \<equiv> dinode.truncate"

definition addrs_ok :: "'a dinode_scheme \<Rightarrow> bool" where
  "addrs_ok i \<longleftrightarrow> (\<forall>k\<ge>NBLOCKADDR. di_addrs i k = 0)"

lemma put_addrs_other:
  "off' + m \<le> off \<or> off + 4 * NBLOCKADDR \<le> off' \<Longrightarrow> get_le m (put_addrs d off a) off' = get_le m d off'"
proof -
  have "get_le m (fold (\<lambda>i d. put32 d (off + 4 * i) (a i)) [0..<n] d) off' = get_le m d off'"
    if "off' + m \<le> off \<or> off + 4 * n \<le> off'" for n
    using that by (induction n) (auto simp: get_put_le_other)
  then show "off' + m \<le> off \<or> off + 4 * NBLOCKADDR \<le> off' \<Longrightarrow> ?thesis" by (simp add: put_addrs_def)
qed

lemma put_addrs_same: "k < NBLOCKADDR \<Longrightarrow> get32 (put_addrs d off a) (off + 4 * k) = a k"
proof -
  have "get32 (fold (\<lambda>i d. put32 d (off + 4 * i) (a i)) [0..<n] d) (off + 4 * k) = a k" if "k < n" for n
    using that
  proof (induction n)
    case (Suc n)
    show ?case
    proof (cases "k = n")
      case True
      then show ?thesis by simp
    next
      case False
      then show ?thesis using Suc by (simp add: get_put_le_other)
    qed
  qed simp
  then show "k < NBLOCKADDR \<Longrightarrow> ?thesis" by (simp add: put_addrs_def)
qed

lemma get_addrs_put: "addrs_ok ip \<Longrightarrow> get_addrs (put_addrs d off (di_addrs ip)) off = di_addrs ip"
  by (auto simp: get_addrs_def put_addrs_same addrs_ok_def fun_eq_iff)

lemma get_addrs_other:
  "off' + 4 * NBLOCKADDR \<le> off \<or> off + 4 * NBLOCKADDR \<le> off' \<Longrightarrow> get_addrs (put_addrs d off a) off' = get_addrs d off'"
  by (auto simp: get_addrs_def put_addrs_other fun_eq_iff)

lemma get_addrs_put_other:
  "off' + 4 * NBLOCKADDR \<le> off \<or> off + n \<le> off' \<Longrightarrow> get_addrs (put_le n d off v) off' = get_addrs d off'"
  by (auto simp: get_addrs_def get_put_le_other fun_eq_iff)

lemma get_put_dinode:
  assumes "addrs_ok ip"
  shows "disk_part (get_dinode (put_dinode d off ip) off jp) = disk_part ip"
  using assms
  by (simp add: dinode.truncate_def get_dinode_def put_dinode_def Let_def put_addrs_other get_put_le_other get_time_def
      put_time_def get_addrs_put)

lemma get_put_dinode_other:
  assumes "off' + 256 \<le> off \<or> off + 256 \<le> off'"
  shows "get_dinode (put_dinode d off ip) off' jp = get_dinode d off' jp"
proof -
  have a: "get_addrs (put_dinode d off ip) (off' + 68) = get_addrs d (off' + 68)"
    unfolding put_dinode_def put_time_def Let_def using assms
    by (auto simp: get_addrs_other get_addrs_put_other NBLOCKADDR_def NDIRECT_def)
  have "get_le m (put_dinode d off ip) (off' + k) = get_le m d (off' + k)" if "k + m \<le> 256" for m k
    unfolding put_dinode_def put_time_def Let_def using assms that
    by (subst put_addrs_other) (auto simp: get_put_le_other NBLOCKADDR_def NDIRECT_def)
  note g = this this[of 0, simplified]
  show ?thesis by (simp add: get_dinode_def get_time_def a g add.assoc del: add_2_eq_Suc')
qed
section \<open>What the layers below see of the table\<close>

lemma upd_inode_table [simp]:
  "it_inode (upd_inode ip f s) = (it_inode s)(ip := f (it_inode s ip))" "it_n (upd_inode ip f s) = it_n s"
  "itable.more (upd_inode ip f s) = itable.more s"
  by (simp_all add: upd_inode_def)

text \<open>The table and the clock are no part of the state the log and the allocator work on.\<close>

lemma upd_inode_base [simp]:
  "dev_nblk (upd_inode ip f s) = dev_nblk s" "lg_start (upd_inode ip f s) = lg_start s" "lg_size (upd_inode ip f s) = lg_size s"
  "lg_outstanding (upd_inode ip f s) = lg_outstanding s" "lg_committing (upd_inode ip f s) = lg_committing s"
  "lh_n (upd_inode ip f s) = lh_n s" "n_log_wrote (upd_inode ip f s) = n_log_wrote s" "fs_sb (upd_inode ip f s) = fs_sb s"
  "bm_n (upd_inode ip f s) = bm_n s" "IBLOCK inum (upd_inode ip f s) = IBLOCK inum s"
  "buf_data (upd_inode ip f s) = buf_data s" "dev_data (upd_inode ip f s) = dev_data s"
  by (simp_all add: upd_inode_def IBLOCK_def buf_data_def fun_eq_iff)

lemma bm_base_cong:
  assumes "fs_sb s' = fs_sb s" "bm_cache s' = bm_cache s" "bm_first s' = bm_first s" "bm_nalloc s' = bm_nalloc s"
    "bm_n s' = bm_n s" "bm_ffc s' = bm_ffc s" "data_block s' = data_block s" "view s' = view s"
  shows "bm_inv s' = bm_inv s" "bm_ready s' = bm_ready s" "bm_bit s' = bm_bit s" "usable s' = usable s"
proof -
  show us: "usable s' = usable s" and bit: "bm_bit s' = bm_bit s"
    using bm_groups_cong[OF assms(2,5,1,8,7)] by simp_all
  show "bm_inv s' = bm_inv s"
    using bm_groups_cong[OF assms(2,5,1,8,7)] assms by (simp add: bm_inv_def bm_counts_def)
  show "bm_ready s' = bm_ready s" using assms by (simp add: bm_ready_def)
qed

lemma upd_inode_view [simp]:
  "view (upd_inode ip f s) = view s" "held (upd_inode ip f s) = held s" "log_ready X (upd_inode ip f s) = log_ready X s"
  "data_block (upd_inode ip f s) = data_block s" "bm_inv (upd_inode ip f s) = bm_inv s" "bm_ready (upd_inode ip f s) = bm_ready s"
  "bm_bit (upd_inode ip f s) = bm_bit s" "usable (upd_inode ip f s) = usable s" "bc_full (upd_inode ip f s) = bc_full s"
proof -
  have "data_block (upd_inode ip f s) b = data_block s b" for b by (rule log_base_cong; simp add: upd_inode_def)
  then show d: "data_block (upd_inode ip f s) = data_block s" by blast
  show v: "view (upd_inode ip f s) = view s" "held (upd_inode ip f s) = held s" "log_ready X (upd_inode ip f s) = log_ready X s"
    by (rule log_base_cong; simp add: upd_inode_def)+
  show "bm_inv (upd_inode ip f s) = bm_inv s" "bm_ready (upd_inode ip f s) = bm_ready s"
    "bm_bit (upd_inode ip f s) = bm_bit s" "usable (upd_inode ip f s) = usable s"
    by (rule bm_base_cong[OF _ _ _ _ _ _ d v(1)]; simp add: upd_inode_def)+
  show "bc_full (upd_inode ip f s) = bc_full s" by (simp add: bc_full_def linked_def upd_inode_def)
qed

lemma tick_view [simp]:
  "view (s\<lparr>ticks := n\<rparr>) = view s" "held (s\<lparr>ticks := n\<rparr>) = held s" "log_ready X (s\<lparr>ticks := n\<rparr>) = log_ready X s"
  "data_block (s\<lparr>ticks := n\<rparr>) = data_block s" "bm_inv (s\<lparr>ticks := n\<rparr>) = bm_inv s" "bm_ready (s\<lparr>ticks := n\<rparr>) = bm_ready s"
  "bm_bit (s\<lparr>ticks := n\<rparr>) = bm_bit s" "usable (s\<lparr>ticks := n\<rparr>) = usable s" for s :: "'a bmap_scheme"
proof -
  have "data_block (s\<lparr>ticks := n\<rparr>) b = data_block s b" for b by (rule log_base_cong; simp)
  then show d: "data_block (s\<lparr>ticks := n\<rparr>) = data_block s" by blast
  show v: "view (s\<lparr>ticks := n\<rparr>) = view s" "held (s\<lparr>ticks := n\<rparr>) = held s" "log_ready X (s\<lparr>ticks := n\<rparr>) = log_ready X s"
    by (rule log_base_cong; simp)+
  show "bm_inv (s\<lparr>ticks := n\<rparr>) = bm_inv s" "bm_ready (s\<lparr>ticks := n\<rparr>) = bm_ready s"
    "bm_bit (s\<lparr>ticks := n\<rparr>) = bm_bit s" "usable (s\<lparr>ticks := n\<rparr>) = usable s"
    by (rule bm_base_cong[OF _ _ _ _ _ _ d v(1)]; simp)+
qed

definition it_frame :: "'a itable_scheme \<Rightarrow> (nat \<times> uint \<times> int \<times> int \<times> bool) \<times> superblock \<times> uint \<times> nat \<times> 'a" where
  "it_frame s = ((dev_nblk s, lg_start s, lg_size s, lg_outstanding s, lg_committing s), fs_sb s, bm_n s, it_n s, itable.more s)"

lemma it_frame_upd [simp]: "it_frame (upd_inode ip f s) = it_frame s" "it_frame (s\<lparr>ticks := n\<rparr>) = it_frame s"
  by (simp_all add: it_frame_def)

lemma it_fields_more:
  assumes "bmap.more s' = bmap.more s"
  shows "it_n s' = it_n s" "it_inode s' = it_inode s" "itable.more s' = itable.more s"
  using assms by (cases s; cases s'; simp)+

lemma it_frame_of_bm_frame:
  assumes "bm_frame s' = bm_frame s"
  shows "it_frame s' = it_frame s" "it_inode s' = it_inode s"
  using assms it_fields_more[OF bm_frameD(5)[OF assms]] by (simp_all add: it_frame_def bm_frame_def)

lemma it_frameD:
  assumes "it_frame s' = it_frame s"
  shows "data_block s' = data_block s" "usable s' = usable s" "fs_sb s' = fs_sb s" "IBLOCK inum s' = IBLOCK inum s" "it_n s' = it_n s"
    "lg_size s' = lg_size s" "lg_outstanding s' = lg_outstanding s" "lg_committing s' = lg_committing s"
  using assms by (simp_all add: it_frame_def data_block_def usable_def bm_block_def IBLOCK_def fun_eq_iff)

text \<open>A write to a block in use by a file or the inodes.\<close>

lemma modify_usable:
  assumes ready: "log_ready X s" and inv: "bm_inv s" and b: "usable s b" and rd: "logged_read b s = Inr (h, s1)"
    and wr: "logged_write h (set_data h d s1) = Inr ((), s2)"
  shows "log_ready X (logged_relse h s2)" "view (logged_relse h s2) = (view s)(b := d)" "held (logged_relse h s2) = held s"
    "bm_frame (logged_relse h s2) = bm_frame s" "bm_inv (logged_relse h s2)" "bm_ready (logged_relse h s2) = bm_ready s"
    "bm_bit (logged_relse h s2) = bm_bit s"
proof -
  have db: "data_block s b" using b by (simp add: usable_def)
  note m = lg.modify_block[OF ready db rd wr]
  show "log_ready X (logged_relse h s2)" "view (logged_relse h s2) = (view s)(b := d)" "held (logged_relse h s2) = held s"
    using m by auto
  show "bm_frame (logged_relse h s2) = bm_frame s" by (rule bm_frame_of_log_frame[OF m(4)])
  have "view (logged_relse h s2) (bm_block s i) = view s (bm_block s i)" if "i < unat (bm_n s)" for i
    using that b m(2) by (auto simp: usable_def)
  note bm_same[OF m(4) this]
  then show "bm_inv (logged_relse h s2)" "bm_ready (logged_relse h s2) = bm_ready s" "bm_bit (logged_relse h s2) = bm_bit s"
    using inv by simp_all
qed

section \<open>Writing an inode back and reading it again\<close>

text \<open>The inode \<open>inum\<close> as the device shows it.\<close>

definition disk_inode :: "'a itable_scheme \<Rightarrow> uint \<Rightarrow> dinode" where
  "disk_inode s inum = disk_part (get_dinode (view s (IBLOCK inum s)) (dinode_off inum) static_inode)"

lemma disk_part_get: "disk_part (get_dinode d off i) = disk_part (get_dinode d off j)"
  by (simp add: dinode.truncate_def get_dinode_def)

lemma dinode_off_le: "dinode_off inum + 256 \<le> BSIZE"
proof -
  have "unat inum mod IPB \<le> 15" by (simp add: IPB_def)
  then show ?thesis by (simp add: dinode_off_def BSIZE_def)
qed

text \<open>Two inodes in one block are in different slots.\<close>

lemma dinode_slots:
  assumes "IBLOCK i s = IBLOCK j s" "i \<noteq> j"
  shows "dinode_off i + 256 \<le> dinode_off j \<or> dinode_off j + 256 \<le> dinode_off i"
proof -
  have u: "unat (word_of_nat (unat k div IPB) :: uint) = unat k div IPB" for k :: uint
  proof -
    have "unat k div IPB \<le> unat k" by simp
    moreover have "unat k < 2 ^ 32" using unsigned_less[of k, where ?'a = nat] by simp
    ultimately have "unat k div IPB < 2 ^ 32" by (rule le_less_trans)
    then show ?thesis by (simp add: unsigned_of_nat take_bit_nat_eq_self)
  qed
  have "(word_of_nat (unat i div IPB) :: uint) = word_of_nat (unat j div IPB)"
    using assms(1) by (simp add: IBLOCK_def)
  then have "unat i div IPB = unat j div IPB" using u by metis
  moreover have "unat i \<noteq> unat j" using assms(2) by (simp add: word_unat_eq_iff)
  ultimately have "unat i mod IPB \<noteq> unat j mod IPB" by (metis div_mult_mod_eq)
  then have "unat i mod IPB < unat j mod IPB \<or> unat j mod IPB < unat i mod IPB" by linarith
  then show ?thesis by (auto simp: dinode_off_def)
qed

lemma iupdate_ok:
  assumes ready: "log_ready X s" and inv: "bm_inv s" and b: "usable s (IBLOCK (mi_inum (it_inode s ip)) s)"
    and run: "iupdate ip s = Inr ((), s')"
  obtains t where "log_ready X s'" "held s' = held s" "it_frame s' = it_frame s" "bm_inv s'" "bm_ready s' = bm_ready s"
    "bm_bit s' = bm_bit s" "it_inode s' = (it_inode s)(ip := (it_inode s ip)\<lparr>di_ctime := t\<rparr>)"
    "view s' = (view s)(IBLOCK (mi_inum (it_inode s ip)) s :=
      put_dinode (view s (IBLOCK (mi_inum (it_inode s ip)) s)) (dinode_off (mi_inum (it_inode s ip))) (it_inode s' ip))"
    "n_log_wrote s' = n_log_wrote s + 1" "lh_n s' \<le> lh_n s + 1"
proof -
  let ?inum = "mi_inum (it_inode s ip)"
  let ?b = "IBLOCK ?inum s"
  have db: "data_block s ?b" using b by (simp add: usable_def)
  obtain h s1 where rd: "logged_read ?b s = Inr (h, s1)"
    using run by (auto simp: iupdate_def Let_def chain_eq_Inr)
  define t where "t = clock s1 (ticks s1)"
  define u where "u = upd_inode ip (di_ctime_update (\<lambda>_. t)) (s1\<lparr>ticks := Suc (ticks s1)\<rparr>)"
  define d where "d = put_dinode (buf_data u h) (dinode_off ?inum) (it_inode u ip)"
  obtain s2 where wr: "logged_write h (set_data h d u) = Inr ((), s2)" and s': "s' = logged_relse h s2"
    using run rd by (auto simp: iupdate_def Let_def chain_eq_Inr get_current_timespec_def t_def[symmetric] u_def[symmetric]
        d_def[symmetric] simp del: upd_inode_base upd_inode_table)
  note 1 = lg.rd_law[OF ready db rd]
  have fr1: "bm_frame s1 = bm_frame s" by (rule bm_frame_of_log_frame) (use 1 in blast)
  note it1 = it_frame_of_bm_frame[OF fr1]
  have X: "?b \<notin> X" using lg.mod_held[OF ready] 1 by blast
  have r1: "log_ready X s1" using 1 by blast
  have ur: "log_ready X u" "held u ?b = Some h" "view u = view s" "data_block u = data_block s"
    using 1 bm_frameD(3)[OF fr1] by (simp_all add: u_def)
  have db2: "data_block u ?b" using ur(4) db by simp
  note 2 = lg.put_write[OF ur(1) X db2 ur(2) wr]
  have h2: "held s2 ?b = Some h" using 2(3) ur(2) by simp
  note 3 = lg.rel_law[OF 2(1) h2 X]
  have dat: "buf_data u h = view s ?b" using lg.read_release(1)[OF ready db rd] by (simp add: u_def buf_data_def)
  have lf: "log_frame s' = log_frame u" using 3 2(4) by (simp add: s')
  have vw: "view s' = (view s)(?b := d)" using 3 2 ur by (simp add: s')
  have same1: "bm_inv s1 = bm_inv s" "bm_ready s1 = bm_ready s" "bm_bit s1 = bm_bit s"
    using bm_same[of s1 s] 1 by simp_all
  have ub: "bm_block u i = bm_block s i" for i using bm_frameD(2)[OF fr1] by (simp add: u_def bm_block_def)
  have un: "bm_n u = bm_n s" using bm_frameD(1)[OF fr1] by (simp add: u_def)
  have "view s' (bm_block u i) = view u (bm_block u i)" if "i < unat (bm_n u)" for i
    using that b ub un by (auto simp: vw ur usable_def)
  note same = bm_same[OF lf this]
  have fr2: "bm_frame s' = bm_frame u" by (rule bm_frame_of_log_frame[OF lf])
  note it2 = it_frame_of_bm_frame[OF fr2]
  have it: "it_inode s' = (it_inode s)(ip := (it_inode s ip)\<lparr>di_ctime := t\<rparr>)" using it1 it2 by (simp add: u_def)
  have bd: "n_log_wrote s' = n_log_wrote s + 1 \<and> lh_n s' \<le> lh_n s + 1"
  proof -
    have m: "bcache.more s1 = bcache.more s"
      using bc.rd_law[OF log_readyD(1)[OF ready] data_block_inrange[OF db] rd[unfolded logged_read_def]] by simp
    have uf: "n_log_wrote u = n_log_wrote s" "lh_n u = lh_n s" using log_fields_more[OF m] by (simp_all add: u_def)
    note p = logged_put_ok[OF ur(1,2), of d]
    have "log_ready (insert ?b X) (set_data h d u)" "held (set_data h d u) ?b = Some h" using p ur by auto
    moreover have "data_block (set_data h d u) ?b" using p db2 data_block_frame by metis
    ultimately have "lh_n s2 \<le> lh_n (set_data h d u) + 1" using logged_write_ok wr by blast
    then show ?thesis using logged_write_count[OF wr] log_fields_more[of s' s2] log_fields_more[of "set_data h d u" u] uf
      by (simp add: s' logged_relse_def)
  qed
  show ?thesis
  proof (rule that[of t])
    show "log_ready X s'" using 3 by (simp add: s')
    have "(held s)(?b := None) = held s" using 1 by (simp add: fun_upd_idem)
    moreover have "held u = held s1" by (simp add: u_def)
    ultimately show "held s' = held s" using 3 2(3) 1 by (simp add: s')
    show "it_frame s' = it_frame s" using it1 it2 by (simp add: u_def)
    show "bm_inv s'" using same same1 inv by (simp add: u_def)
    show "bm_ready s' = bm_ready s" "bm_bit s' = bm_bit s" using same same1 by (simp_all add: u_def)
    show "view s' = (view s)(?b := put_dinode (view s ?b) (dinode_off ?inum) (it_inode s' ip))"
      using vw by (simp add: d_def dat it2(2))
  qed (use it bd in auto)
qed

lemma iupdate_returns:
  assumes "log_ready X s" "few_held s" "held s (IBLOCK (mi_inum (it_inode s ip)) s) = None"
    "data_block s (IBLOCK (mi_inum (it_inode s ip)) s)" "lh_n s < lg_size s - 1" "1 \<le> lg_outstanding s"
  shows "\<exists>s'. iupdate ip s = Inr ((), s')"
proof -
  let ?b = "IBLOCK (mi_inum (it_inode s ip)) s"
  obtain h s1 where rd: "logged_read ?b s = Inr (h, s1)" using logged_read_returns[OF assms(1) _ assms(4,3)] assms(2,5) by blast
  have m: "bcache.more s1 = bcache.more s"
    using bc.rd_law[OF log_readyD(1)[OF assms(1)] data_block_inrange[OF assms(4)] rd[unfolded logged_read_def]] by simp
  have n: "lg_size s \<le> int NLOG" using log_readyD(3)[OF assms(1)] by (simp add: geom_def)
  have "\<exists>s2. logged_write h (set_data h d (upd_inode ip f (s1\<lparr>ticks := k\<rparr>))) = Inr ((), s2)" for d f k
    using logged_write_returns[of "set_data h d (upd_inode ip f (s1\<lparr>ticks := k\<rparr>))" h] assms(5,6) n
      log_fields_more[OF m] log_fields_more[of "set_data h d (upd_inode ip f (s1\<lparr>ticks := k\<rparr>))" "upd_inode ip f (s1\<lparr>ticks := k\<rparr>)"]
    by (simp add: upd_inode_def)
  then show ?thesis by (auto simp: iupdate_def Let_def rd get_current_timespec_def chain_eq_Inr simp del: upd_inode_base upd_inode_table)
qed

lemma ilock_ok:
  assumes ready: "log_ready X s" and b: "mi_valid (it_inode s ip) \<or> data_block s (IBLOCK (mi_inum (it_inode s ip)) s)"
    and inv: "bm_inv s" and run: "ilock ip s = Inr ((), s')"
  shows "log_ready X s'" "held s' = held s" "it_frame s' = it_frame s" "bm_inv s'" "bm_ready s' = bm_ready s"
    "bm_bit s' = bm_bit s" "view s' = view s" "n_log_wrote s' = n_log_wrote s" "lh_n s' = lh_n s"
    "it_inode s' = (it_inode s)(ip := (if mi_valid (it_inode s ip) then it_inode s ip
      else get_dinode (view s (IBLOCK (mi_inum (it_inode s ip)) s)) (dinode_off (mi_inum (it_inode s ip))) (it_inode s ip))
      \<lparr>mi_locked := True, mi_valid := True\<rparr>)"
    "1 \<le> mi_ref (it_inode s ip)" "\<not> mi_locked (it_inode s ip)"
proof -
  let ?inum = "mi_inum (it_inode s ip)"
  let ?b = "IBLOCK ?inum s"
  have g: "\<not> mi_ref (it_inode s ip) < 1" "\<not> mi_locked (it_inode s ip)"
    using run by (auto simp: ilock_def lock_inode_def split: if_splits)
  then show "1 \<le> mi_ref (it_inode s ip)" "\<not> mi_locked (it_inode s ip)" by auto
  define u where "u = upd_inode ip (mi_locked_update (\<lambda>_. True)) s"
  have rdy: "log_ready X u" using ready by (simp add: u_def)
  have *: "log_ready X s' \<and> held s' = held s \<and> it_frame s' = it_frame s \<and> bm_inv s' \<and> bm_ready s' = bm_ready s \<and>
    bm_bit s' = bm_bit s \<and> view s' = view s \<and> n_log_wrote s' = n_log_wrote s \<and> lh_n s' = lh_n s \<and>
    it_inode s' = (it_inode s)(ip := (if mi_valid (it_inode s ip) then it_inode s ip
      else get_dinode (view s ?b) (dinode_off ?inum) (it_inode s ip)) \<lparr>mi_locked := True, mi_valid := True\<rparr>)"
  proof (cases "mi_valid (it_inode s ip)")
    case True
    then have s': "s' = u" using run g by (simp add: ilock_def lock_inode_def u_def Let_def)
    show ?thesis using ready inv True by (simp add: s' u_def fun_eq_iff)
  next
    case False
    then have db: "data_block u ?b" "data_block s ?b" using b by (simp_all add: u_def)
    have nv: "\<not> mi_valid (it_inode u ip)" "IBLOCK (mi_inum (it_inode u ip)) u = ?b" "mi_inum (it_inode u ip) = ?inum"
      using False by (simp_all add: u_def)
    have il: "ilock ip s = chain (logged_read ?b u) (\<lambda>(bp, s).
        let s = upd_inode ip (get_dinode (buf_data s bp) (dinode_off ?inum)) s;
            s = upd_inode ip (mi_valid_update (\<lambda>_. True)) (logged_relse bp s);
            type = di_type (it_inode s ip)
        in if type = T_UNUSE then Inl (Err_exit ''ilock: ip is unused'')
            else if type \<noteq> T_FILE \<and> type \<noteq> T_DIR \<and> type \<noteq> T_DEVICE then Inl (Err_exit ''ilock: ip has invalid type'')
            else Inr ((), s))"
      unfolding ilock_def lock_inode_def using g nv by (simp add: u_def[symmetric] Let_def cong: if_cong)
    obtain h s1 where rd: "logged_read ?b u = Inr (h, s1)" using run unfolding il by (auto simp: chain_eq_Inr)
    define w where "w = logged_relse h (upd_inode ip (get_dinode (buf_data s1 h) (dinode_off ?inum)) s1)"
    have s': "s' = upd_inode ip (mi_valid_update (\<lambda>_. True)) w"
      using run unfolding il by (simp add: rd Let_def w_def split: if_splits)
    note 1 = lg.rd_law[OF rdy db(1) rd]
    have X: "?b \<notin> X" using lg.mod_held[OF rdy] 1 by blast
    have h1: "held (upd_inode ip (get_dinode (buf_data s1 h) (dinode_off ?inum)) s1) ?b = Some h"
      and r1: "log_ready X (upd_inode ip (get_dinode (buf_data s1 h) (dinode_off ?inum)) s1)" using 1 by simp_all
    note 2 = lg.rel_law[OF r1 h1 X]
    have dat: "buf_data s1 h = view s ?b" using lg.read_release(1)[OF rdy db(1) rd] by (simp add: u_def)
    have f1: "bm_frame s1 = bm_frame u" by (rule bm_frame_of_log_frame) (use 1 in blast)
    have f2: "bm_frame w = bm_frame (upd_inode ip (get_dinode (buf_data s1 h) (dinode_off ?inum)) s1)"
      unfolding w_def by (rule bm_frame_of_log_frame) (use 2 in blast)
    note it1 = it_frame_of_bm_frame[OF f1] and it2 = it_frame_of_bm_frame[OF f2]
    have itw: "it_inode w = (it_inode s)(ip := get_dinode (view s ?b) (dinode_off ?inum) (it_inode s ip\<lparr>mi_locked := True\<rparr>))"
      unfolding it2(2) by (simp add: dat it1) (simp add: u_def)
    have gl: "get_dinode d off (i\<lparr>mi_locked := True\<rparr>)\<lparr>mi_valid := True\<rparr> = get_dinode d off i\<lparr>mi_locked := True, mi_valid := True\<rparr>"
      for d off i by (simp add: get_dinode_def)
    have vw: "view w = view s" "held w = held s" "log_ready X w"
      using 1 2 by (simp_all add: w_def u_def fun_upd_idem)
    have same1: "bm_inv s1 = bm_inv u" "bm_ready s1 = bm_ready u" "bm_bit s1 = bm_bit u" using bm_same[of s1 u] 1 by simp_all
    have lfw: "log_frame w = log_frame (upd_inode ip (get_dinode (buf_data s1 h) (dinode_off ?inum)) s1)" unfolding w_def using 2 by blast
    have "view w = view (upd_inode ip (get_dinode (buf_data s1 h) (dinode_off ?inum)) s1)" using 2 by (simp add: w_def)
    note same2 = bm_same[OF lfw fun_cong[OF this]]
    have m: "bcache.more s1 = bcache.more u"
      using bc.rd_law[OF log_readyD(1)[OF rdy] data_block_inrange[OF db(1)] rd[unfolded logged_read_def]] by simp
    have m2: "bcache.more w = bcache.more (upd_inode ip (get_dinode (buf_data s1 h) (dinode_off ?inum)) s1)"
      by (simp add: w_def logged_relse_def)
    show ?thesis
      using False vw same1 same2 inv it1(1) it2(1) itw log_fields_more[OF m] log_fields_more[OF m2]
      by (simp add: s' gl) (simp add: u_def)
  qed
  then show "log_ready X s'" "held s' = held s" "it_frame s' = it_frame s" "bm_inv s'" "bm_ready s' = bm_ready s"
    "bm_bit s' = bm_bit s" "view s' = view s" "n_log_wrote s' = n_log_wrote s" "lh_n s' = lh_n s"
    "it_inode s' = (it_inode s)(ip := (if mi_valid (it_inode s ip) then it_inode s ip
      else get_dinode (view s ?b) (dinode_off ?inum) (it_inode s ip)) \<lparr>mi_locked := True, mi_valid := True\<rparr>)"
    by blast+
qed

lemma disk_inode_cong: "view s' = view s \<Longrightarrow> fs_sb s' = fs_sb s \<Longrightarrow> disk_inode s' = disk_inode s"
  by (rule ext) (simp add: disk_inode_def IBLOCK_def)

lemma iupdate_disk:
  assumes fr: "it_frame s' = it_frame s" and ok: "addrs_ok i"
    and vw: "view s' = (view s)(IBLOCK inum s := put_dinode (view s (IBLOCK inum s)) (dinode_off inum) i)"
  shows "disk_inode s' k = (if k = inum then disk_part i else disk_inode s k)"
proof -
  note f = it_frameD(4)[OF fr]
  show ?thesis
  proof (cases "k = inum")
    case True
    then show ?thesis using ok by (simp add: disk_inode_def f vw get_put_dinode)
  next
    case False
    show ?thesis
    proof (cases "IBLOCK k s = IBLOCK inum s")
      case True
      from dinode_slots[OF this False] show ?thesis
        using True False by (auto simp: disk_inode_def f vw get_put_dinode_other)
    next
      case F: False
      then show ?thesis using False by (simp add: disk_inode_def f vw)
    qed
  qed
qed

text \<open>
  C29: the inode written back by iupdate is the inode on disk, no other inode on disk changes, and
  an entry filled by ilock from it gets the same fields.
\<close>

theorem iupdate_ilock:
  assumes "log_ready X s" "bm_inv s" "usable s (IBLOCK (mi_inum (it_inode s ip)) s)" "addrs_ok (it_inode s ip)"
    and "iupdate ip s = Inr ((), s1)"
  shows "disk_inode s1 (mi_inum (it_inode s ip)) = disk_part (it_inode s1 ip) \<and>
    (\<forall>k. k \<noteq> mi_inum (it_inode s ip) \<longrightarrow> disk_inode s1 k = disk_inode s k) \<and>
    (\<exists>t. it_inode s1 ip = (it_inode s ip)\<lparr>di_ctime := t\<rparr>) \<and>
    (\<forall>jp s2. mi_inum (it_inode s1 jp) = mi_inum (it_inode s ip) \<and> \<not> mi_valid (it_inode s1 jp) \<and> ilock jp s1 = Inr ((), s2) \<longrightarrow>
      disk_part (it_inode s2 jp) = disk_part (it_inode s1 ip))"
proof -
  let ?inum = "mi_inum (it_inode s ip)"
  obtain t where 1: "log_ready X s1" "it_frame s1 = it_frame s" "bm_inv s1" "it_inode s1 = (it_inode s)(ip := (it_inode s ip)\<lparr>di_ctime := t\<rparr>)"
    "view s1 = (view s)(IBLOCK ?inum s := put_dinode (view s (IBLOCK ?inum s)) (dinode_off ?inum) (it_inode s1 ip))"
    by (rule iupdate_ok[OF assms(1-3,5)])
  have ok: "addrs_ok (it_inode s1 ip)" using assms(4) by (simp add: 1(4) addrs_ok_def)
  note d = iupdate_disk[OF 1(2) ok 1(5)]
  have "disk_part (it_inode s2 jp) = disk_part (it_inode s1 ip)"
    if "mi_inum (it_inode s1 jp) = ?inum" "\<not> mi_valid (it_inode s1 jp)" "ilock jp s1 = Inr ((), s2)" for jp s2
  proof -
    have "data_block s1 (IBLOCK ?inum s1)" using assms(3) it_frameD[OF 1(2)] by (simp add: usable_def)
    then have "it_inode s2 jp = get_dinode (view s1 (IBLOCK ?inum s1)) (dinode_off ?inum) (it_inode s1 jp)
      \<lparr>mi_locked := True, mi_valid := True\<rparr>"
      using ilock_ok(10)[OF 1(1) _ 1(3) that(3)] that(1,2) by simp
    then have "disk_part (it_inode s2 jp) = disk_inode s1 ?inum"
      by (simp add: disk_inode_def dinode.truncate_def get_dinode_def)
    then show ?thesis by (simp add: d)
  qed
  then show ?thesis using d 1(4) by auto
qed

lemma ilock_result:
  assumes ready: "log_ready {} s" "held s = Map.empty" and b: "data_block s (IBLOCK (mi_inum (it_inode s ip)) s)"
  shows "if mi_ref (it_inode s ip) < 1 then ilock ip s = Inl (Err_exit ''ilock got invalid inode'')
    else if mi_locked (it_inode s ip) then ilock ip s = Inl Deadlock
    else if mi_valid (it_inode s ip) then returns (ilock ip s) (\<lambda>(_, s'). s' = upd_inode ip (mi_locked_update (\<lambda>_. True)) s)
    else if di_type (disk_inode s (mi_inum (it_inode s ip))) = T_UNUSE then ilock ip s = Inl (Err_exit ''ilock: ip is unused'')
    else if di_type (disk_inode s (mi_inum (it_inode s ip))) \<in> {T_FILE, T_DIR, T_DEVICE} then
      returns (ilock ip s) (\<lambda>(_, s'). disk_part (it_inode s' ip) = disk_inode s (mi_inum (it_inode s ip)) \<and> view s' = view s \<and>
        mi_locked (it_inode s' ip) \<and> mi_valid (it_inode s' ip) \<and> (\<forall>j. j \<noteq> ip \<longrightarrow> it_inode s' j = it_inode s j))
    else ilock ip s = Inl (Err_exit ''ilock: ip has invalid type'')"
proof -
  let ?inum = "mi_inum (it_inode s ip)"
  let ?b = "IBLOCK ?inum s" and ?type = "di_type (disk_inode s (mi_inum (it_inode s ip)))"
  consider "mi_ref (it_inode s ip) < 1" | "\<not> mi_ref (it_inode s ip) < 1" "mi_locked (it_inode s ip)"
    | "\<not> mi_ref (it_inode s ip) < 1" "\<not> mi_locked (it_inode s ip)" "mi_valid (it_inode s ip)"
    | "\<not> mi_ref (it_inode s ip) < 1" "\<not> mi_locked (it_inode s ip)" "\<not> mi_valid (it_inode s ip)" by blast
  then show ?thesis
  proof cases
    case 4
    define u where "u = upd_inode ip (mi_locked_update (\<lambda>_. True)) s"
    have nv: "\<not> mi_valid (it_inode u ip)" "IBLOCK (mi_inum (it_inode u ip)) u = ?b" "mi_inum (it_inode u ip) = ?inum"
      using 4 by (simp_all add: u_def)
    have uu: "log_ready {} u" "held u = Map.empty \<or> few_held u \<and> lh_n u < lg_size u - 1" "data_block u ?b" "held u ?b = None"
      using ready b by (simp_all add: u_def)
    obtain h s1 where rd: "logged_read ?b u = Inr (h, s1)" by (rule logged_read_returns[OF uu])
    have dat: "buf_data s1 h = view s ?b" using lg.read_release(1)[OF uu(1,3) rd] by (simp add: u_def)
    let ?w = "logged_relse h (upd_inode ip (get_dinode (buf_data s1 h) (dinode_off ?inum)) s1)"
    have lr: "logged_relse h (upd_inode ip f t) = upd_inode ip f (logged_relse h t)" for f and t :: "'a itable_scheme"
      by (simp add: logged_relse_def brelse_def upd_inode_def upd_buf_def Let_def current_timestamp_def)
    have ty: "di_type (it_inode ?w ip) = ?type"
      unfolding lr by (simp add: disk_inode_def dat dinode.truncate_def get_dinode_def)
    have il: "ilock ip s = (if ?type = T_UNUSE then Inl (Err_exit ''ilock: ip is unused'')
            else if ?type \<noteq> T_FILE \<and> ?type \<noteq> T_DIR \<and> ?type \<noteq> T_DEVICE then Inl (Err_exit ''ilock: ip has invalid type'')
            else Inr ((), upd_inode ip (mi_valid_update (\<lambda>_. True)) ?w))"
      unfolding ilock_def lock_inode_def using 4 nv ty by (simp add: u_def[symmetric] rd Let_def cong: if_cong)
    have tab: "it_inode ?w = (it_inode u)(ip := get_dinode (buf_data s1 h) (dinode_off ?inum) (it_inode u ip))"
      unfolding lr using it_frame_of_bm_frame(2)[OF bm_frame_of_log_frame[OF lg.read_release(5)[OF uu(1,3) rd]]] by simp
    have gd: "disk_part ((get_dinode d off i)\<lparr>mi_valid := True\<rparr>) = disk_part (get_dinode d off static_inode)"
      "mi_locked ((get_dinode d off i)\<lparr>mi_valid := True\<rparr>) = mi_locked i" "mi_valid ((get_dinode d off i)\<lparr>mi_valid := True\<rparr>) = True" for d off i
      by (simp_all add: dinode.truncate_def get_dinode_def)
    define Q where "Q s' \<longleftrightarrow> disk_part (it_inode s' ip) = disk_inode s ?inum \<and> view s' = view s \<and> mi_locked (it_inode s' ip) \<and>
      mi_valid (it_inode s' ip) \<and> (\<forall>j. j \<noteq> ip \<longrightarrow> it_inode s' j = it_inode s j)" for s' :: "'a itable_scheme"
    have q: "Q s'" if "ilock ip s = Inr ((), s')" for s'
    proof -
      have up: "it_inode (upd_inode ip f t) = (it_inode t)(ip := f (it_inode t ip))" for f and t :: "'a itable_scheme" by simp
      have s': "s' = upd_inode ip (mi_valid_update (\<lambda>_. True)) ?w" using that unfolding il by (simp split: if_splits)
      have "view ?w = view s" unfolding lr using lg.read_release(3)[OF uu(1,3) rd] by (simp add: u_def)
      then have v: "view s' = view s" unfolding s' by simp
      have e: "it_inode s' ip = (get_dinode (view s ?b) (dinode_off ?inum) (it_inode u ip))\<lparr>mi_valid := True\<rparr>" "\<forall>j. j \<noteq> ip \<longrightarrow> it_inode s' j = it_inode s j"
        unfolding s' up unfolding tab unfolding dat by (simp_all add: u_def)
      have lk: "mi_locked (it_inode u ip)" by (simp add: u_def)
      have "disk_part (it_inode s' ip) = disk_inode s ?inum" "mi_locked (it_inode s' ip)" "mi_valid (it_inode s' ip)"
        unfolding e(1) disk_inode_def by (rule gd(1), simp only: gd(2) lk, simp only: gd(3))
      then show ?thesis unfolding Q_def using v e(2) by blast
    qed
    have "if ?type = T_UNUSE then ilock ip s = Inl (Err_exit ''ilock: ip is unused'')
      else if ?type \<in> {T_FILE, T_DIR, T_DEVICE} then returns (ilock ip s) (\<lambda>(_, s'). Q s')
      else ilock ip s = Inl (Err_exit ''ilock: ip has invalid type'')"
      using q unfolding il by auto
    then show ?thesis unfolding Q_def using 4 by (simp only: if_False if_True)
  qed (simp_all add: ilock_def lock_inode_def)
qed

text \<open>
  C33: when no block is locked, ilock ends the process on an entry without references and waits
  for ever on an entry its own thread has locked; an entry that is valid in memory it only locks,
  without a look at the device or at the type; otherwise it reads the inode from the device, ends
  the process when its type is unused or unknown, and returns with the entry locked and valid with
  the fields on the device, no other entry and no block changed.
\<close>

theorem ilock_outcome:
  assumes ready: "log_ready {} s" "held s = Map.empty" and b: "data_block s (IBLOCK (mi_inum (it_inode s ip)) s)"
  shows "if mi_ref (it_inode s ip) < 1 then ilock ip s = Inl (Err_exit ''ilock got invalid inode'')
    else if mi_locked (it_inode s ip) then ilock ip s = Inl Deadlock
    else if mi_valid (it_inode s ip) then returns (ilock ip s) (\<lambda>(_, s'). s' = upd_inode ip (mi_locked_update (\<lambda>_. True)) s)
    else if di_type (disk_inode s (mi_inum (it_inode s ip))) = T_UNUSE then ilock ip s = Inl (Err_exit ''ilock: ip is unused'')
    else if di_type (disk_inode s (mi_inum (it_inode s ip))) \<in> {T_FILE, T_DIR, T_DEVICE} then
      returns (ilock ip s) (\<lambda>(_, s'). disk_part (it_inode s' ip) = disk_inode s (mi_inum (it_inode s ip)) \<and> view s' = view s \<and>
        mi_locked (it_inode s' ip) \<and> mi_valid (it_inode s' ip) \<and> (\<forall>j. j \<noteq> ip \<longrightarrow> it_inode s' j = it_inode s j))
    else ilock ip s = Inl (Err_exit ''ilock: ip has invalid type'')"
  by (rule ilock_result[OF assms])
section \<open>The table as reference counts\<close>

text \<open>
  \<open>entry_of\<close> is the entry in use for an inode, \<open>refcount\<close> how many references the table counts
  for it. The invariant: no inode has two entries in use, and an entry not in use is not locked.
\<close>

definition entry_of :: "'a itable_scheme \<Rightarrow> uint \<Rightarrow> nat option" where
  "entry_of s inum = find_from (\<lambda>i. mi_inum (it_inode s i) = inum \<and> mi_ref (it_inode s i) > 0) 0 (it_n s)"

definition refcount :: "'a itable_scheme \<Rightarrow> uint \<Rightarrow> int" where
  "refcount s inum = (case entry_of s inum of None \<Rightarrow> 0 | Some i \<Rightarrow> mi_ref (it_inode s i))"

definition table_wf :: "'a itable_scheme \<Rightarrow> bool" where
  "table_wf s \<longleftrightarrow> (\<forall>i<it_n s. 0 \<le> mi_ref (it_inode s i) \<and> (mi_ref (it_inode s i) = 0 \<longrightarrow> \<not> mi_locked (it_inode s i))) \<and>
    (\<forall>i<it_n s. \<forall>j<it_n s. mi_ref (it_inode s i) > 0 \<and> mi_ref (it_inode s j) > 0 \<and>
      mi_inum (it_inode s i) = mi_inum (it_inode s j) \<longrightarrow> i = j)"

lemma table_wfI:
  assumes "\<And>i. i < it_n s \<Longrightarrow> 0 \<le> mi_ref (it_inode s i)" "\<And>i. i < it_n s \<Longrightarrow> mi_ref (it_inode s i) = 0 \<Longrightarrow> \<not> mi_locked (it_inode s i)"
    and "\<And>i j. i < it_n s \<Longrightarrow> j < it_n s \<Longrightarrow> mi_ref (it_inode s i) > 0 \<Longrightarrow> mi_ref (it_inode s j) > 0 \<Longrightarrow>
      mi_inum (it_inode s i) = mi_inum (it_inode s j) \<Longrightarrow> i = j"
  shows "table_wf s"
  using assms unfolding table_wf_def by blast

lemma table_wfD:
  assumes "table_wf s"
  shows "i < it_n s \<Longrightarrow> 0 \<le> mi_ref (it_inode s i)" "i < it_n s \<Longrightarrow> mi_ref (it_inode s i) = 0 \<Longrightarrow> \<not> mi_locked (it_inode s i)"
    "i < it_n s \<Longrightarrow> j < it_n s \<Longrightarrow> mi_ref (it_inode s i) > 0 \<Longrightarrow> mi_ref (it_inode s j) > 0 \<Longrightarrow>
      mi_inum (it_inode s i) = mi_inum (it_inode s j) \<Longrightarrow> i = j"
  using assms unfolding table_wf_def by blast+

lemma entry_of_Some:
  assumes "table_wf s"
  shows "entry_of s inum = Some i \<longleftrightarrow> i < it_n s \<and> mi_inum (it_inode s i) = inum \<and> mi_ref (it_inode s i) > 0"
proof
  assume "entry_of s inum = Some i"
  then show "i < it_n s \<and> mi_inum (it_inode s i) = inum \<and> mi_ref (it_inode s i) > 0"
    unfolding entry_of_def by (blast dest: find_from_Some)
next
  assume i: "i < it_n s \<and> mi_inum (it_inode s i) = inum \<and> mi_ref (it_inode s i) > 0"
  then have "entry_of s inum \<noteq> None" by (auto simp: entry_of_def find_from_None)
  then obtain j where j: "entry_of s inum = Some j" by blast
  then have "j < it_n s \<and> mi_inum (it_inode s j) = inum \<and> mi_ref (it_inode s j) > 0"
    unfolding entry_of_def by (blast dest: find_from_Some)
  then show "entry_of s inum = Some i" using j i table_wfD(3)[OF assms, of i j] by auto
qed

lemma refcount_pos:
  assumes "table_wf s"
  shows "refcount s inum > 0 \<longleftrightarrow> entry_of s inum \<noteq> None" "0 \<le> refcount s inum"
proof -
  have "mi_ref (it_inode s i) > 0" if "entry_of s inum = Some i" for i using entry_of_Some[OF assms, of inum i] that by simp
  then show "refcount s inum > 0 \<longleftrightarrow> entry_of s inum \<noteq> None" "0 \<le> refcount s inum"
    by (force simp: refcount_def split: option.splits)+
qed

text \<open>Changing the count of one entry, and taking an entry that is not in use.\<close>

lemma refcount_upd:
  assumes wf: "table_wf s" and ip: "entry_of s inum = Some ip" and n: "it_n s' = it_n s"
    and it: "it_inode s' = (it_inode s)(ip := e)" and e: "mi_inum e = inum" "0 \<le> mi_ref e" "mi_ref e = 0 \<longrightarrow> \<not> mi_locked e"
  shows "table_wf s'" "refcount s' = (refcount s)(inum := mi_ref e)" "mi_ref e > 0 \<Longrightarrow> entry_of s' = entry_of s"
    "mi_ref e = 0 \<Longrightarrow> entry_of s' = (entry_of s)(inum := None)"
proof -
  note i = entry_of_Some[OF wf, of inum ip, THEN iffD1, OF ip]
  have un: "j = ip" if "j < it_n s" "mi_ref (it_inode s j) > 0" "mi_inum (it_inode s j) = inum" for j
    using table_wfD(3)[OF wf, of j ip] i that by simp
  have j: "it_inode s' j = (if j = ip then e else it_inode s j)" for j by (simp add: it)
  show wf': "table_wf s'"
  proof (rule table_wfI; unfold n)
    fix k assume k: "k < it_n s"
    show "0 \<le> mi_ref (it_inode s' k)" using table_wfD(1)[OF wf k] e(2) by (simp add: j)
    show "mi_ref (it_inode s' k) = 0 \<Longrightarrow> \<not> mi_locked (it_inode s' k)" using table_wfD(2)[OF wf k] e(3) by (simp add: j split: if_splits)
  next
    fix k l assume kl: "k < it_n s" "l < it_n s" "mi_ref (it_inode s' k) > 0" "mi_ref (it_inode s' l) > 0"
      "mi_inum (it_inode s' k) = mi_inum (it_inode s' l)"
    show "k = l"
    proof (cases "k = ip")
      case True
      then have sk: "mi_inum (it_inode s' l) = inum" using kl(5) e(1) by (simp add: j)
      show ?thesis
      proof (rule ccontr)
        assume "k \<noteq> l"
        then have "it_inode s' l = it_inode s l" using True by (simp add: j)
        then have "l = ip" using un[OF kl(2)] kl(4) sk by metis
        then show False using \<open>k \<noteq> l\<close> True by simp
      qed
    next
      case False
      then have sk: "it_inode s' k = it_inode s k" by (simp add: j)
      have "l \<noteq> ip"
      proof
        assume "l = ip"
        then have "it_inode s' l = e" by (simp add: j)
        then have "mi_inum (it_inode s k) = inum" "mi_ref (it_inode s k) > 0" using kl(3,5) e(1) sk by auto
        then show False using un[OF kl(1)] False by blast
      qed
      then have "it_inode s' l = it_inode s l" by (simp add: j)
      then show ?thesis using table_wfD(3)[OF wf kl(1,2)] kl(3-5) sk by simp
    qed
  qed
  have en: "entry_of s' k = (if k = inum \<and> mi_ref e = 0 then None else entry_of s k)" for k
  proof (rule option_eqI)
    fix j
    show "entry_of s' k = Some j \<longleftrightarrow> (if k = inum \<and> mi_ref e = 0 then None else entry_of s k) = Some j"
      unfolding entry_of_Some[OF wf'] n using i e by (cases "j = ip") (auto simp: entry_of_Some[OF wf] it dest: un)
  qed
  then show "mi_ref e > 0 \<Longrightarrow> entry_of s' = entry_of s" "mi_ref e = 0 \<Longrightarrow> entry_of s' = (entry_of s)(inum := None)" by auto
  show "refcount s' = (refcount s)(inum := mi_ref e)"
  proof
    fix k
    have "j \<noteq> ip" if "entry_of s k = Some j" "k \<noteq> inum" for j using that i by (auto simp: entry_of_Some[OF wf])
    then show "refcount s' k = ((refcount s)(inum := mi_ref e)) k"
      using ip by (auto simp: refcount_def en it split: option.splits)
  qed
qed

lemma refcount_fresh:
  assumes wf: "table_wf s" and new: "entry_of s inum = None" and ip: "ip < it_n s" "mi_ref (it_inode s ip) = 0" and n: "it_n s' = it_n s"
    and it: "it_inode s' = (it_inode s)(ip := e)" and e: "mi_inum e = inum" "0 < mi_ref e"
  shows "table_wf s'" "refcount s' = (refcount s)(inum := mi_ref e)" "entry_of s' = (entry_of s)(inum \<mapsto> ip)"
proof -
  have no: "\<not> (j < it_n s \<and> mi_inum (it_inode s j) = inum \<and> mi_ref (it_inode s j) > 0)" for j
    using new entry_of_Some[OF wf, of inum j] by simp
  have j: "it_inode s' j = (if j = ip then e else it_inode s j)" for j by (simp add: it)
  show wf': "table_wf s'"
  proof (rule table_wfI; unfold n)
    fix k assume k: "k < it_n s"
    show "0 \<le> mi_ref (it_inode s' k)" using table_wfD(1)[OF wf k] e(2) by (simp add: j)
    show "mi_ref (it_inode s' k) = 0 \<Longrightarrow> \<not> mi_locked (it_inode s' k)" using table_wfD(2)[OF wf k] e(2) by (simp add: j split: if_splits)
  next
    fix k l assume kl: "k < it_n s" "l < it_n s" "mi_ref (it_inode s' k) > 0" "mi_ref (it_inode s' l) > 0"
      "mi_inum (it_inode s' k) = mi_inum (it_inode s' l)"
    show "k = l"
    proof (cases "k = ip")
      case True
      then show ?thesis using kl no[of l] e(1) by (cases "l = ip") (simp_all add: j)
    next
      case False
      then show ?thesis using kl no[of k] e(1) table_wfD(3)[OF wf, of k l] by (cases "l = ip") (simp_all add: j)
    qed
  qed
  show en: "entry_of s' = (entry_of s)(inum \<mapsto> ip)"
  proof (rule ext, rule option_eqI)
    fix k j
    show "entry_of s' k = Some j \<longleftrightarrow> ((entry_of s)(inum \<mapsto> ip)) k = Some j"
      unfolding entry_of_Some[OF wf'] n using ip e no[of j] by (cases "j = ip"; cases "k = inum") (auto simp: entry_of_Some[OF wf] it)
  qed
  show "refcount s' = (refcount s)(inum := mi_ref e)"
  proof
    fix k
    have "j \<noteq> ip" if "entry_of s k = Some j" for j using that ip by (auto simp: entry_of_Some[OF wf])
    then show "refcount s' k = ((refcount s)(inum := mi_ref e)) k"
      by (auto simp: refcount_def en it split: option.splits)
  qed
qed

text \<open>One search succeeds unless every entry is in use for another inode.\<close>

definition got :: "'a itable_scheme \<Rightarrow> uint \<Rightarrow> nat \<Rightarrow> 'a itable_scheme \<Rightarrow> bool" where
  "got s inum ip s' \<longleftrightarrow> table_wf s' \<and> entry_of s' inum = Some ip \<and> refcount s' = (refcount s)(inum := refcount s inum + 1) \<and>
    (\<forall>k. k \<noteq> inum \<longrightarrow> entry_of s' k = entry_of s k) \<and> (\<forall>i<it_n s. i \<noteq> ip \<longrightarrow> it_inode s' i = it_inode s i) \<and>
    (if refcount s inum = 0 then \<not> mi_valid (it_inode s' ip) \<and> \<not> mi_locked (it_inode s' ip)
     else entry_of s inum = Some ip \<and> it_inode s' ip = (it_inode s ip)\<lparr>mi_ref := mi_ref (it_inode s ip) + 1\<rparr>)"

lemma iget_search_ok:
  assumes wf: "table_wf s"
  shows "case iget_search inum s of Some (ip, s') \<Rightarrow> got s inum ip s' \<and> it_n s' = it_n s \<and> (\<exists>f. s' = upd_inode ip f s)
    | None \<Rightarrow> entry_of s inum = None \<and> (\<forall>i<it_n s. mi_ref (it_inode s i) > 0)"
proof (cases "entry_of s inum")
  case (Some i)
  let ?e = "(it_inode s i)\<lparr>mi_ref := mi_ref (it_inode s i) + 1\<rparr>"
  let ?s = "upd_inode i (\<lambda>ip. ip\<lparr>mi_ref := mi_ref ip + 1\<rparr>) s"
  have i: "i < it_n s" "mi_inum (it_inode s i) = inum" "mi_ref (it_inode s i) > 0" using Some entry_of_Some[OF wf] by auto
  have up: "it_n ?s = it_n s" "it_inode ?s = (it_inode s)(i := ?e)" by simp_all
  have e: "mi_inum ?e = inum" "0 \<le> mi_ref ?e" "mi_ref ?e = 0 \<longrightarrow> \<not> mi_locked ?e" using i by simp_all
  note r = refcount_upd[OF wf Some up e]
  have rc: "refcount s inum = mi_ref (it_inode s i)" by (simp add: refcount_def Some)
  have "got s inum i ?s" unfolding got_def using r i Some by (simp add: rc)
  moreover have "iget_search inum s = Some (i, ?s)" using Some by (simp add: iget_search_def entry_of_def)
  ultimately show ?thesis by (auto intro: exI[of _ "\<lambda>ip. ip\<lparr>mi_ref := mi_ref ip + 1\<rparr>"])
next
  case None
  have rc: "refcount s inum = 0" by (simp add: refcount_def None)
  let ?find = "find_from (\<lambda>i. mi_ref (it_inode s i) = 0) 0 (it_n s)"
  show ?thesis
  proof (cases ?find)
    case (Some i)
    let ?e = "(it_inode s i)\<lparr>mi_inum := inum, mi_ref := 1, mi_valid := False\<rparr>"
    let ?s = "upd_inode i (\<lambda>ip. ip\<lparr>mi_inum := inum, mi_ref := 1, mi_valid := False\<rparr>) s"
    have i: "i < it_n s" "mi_ref (it_inode s i) = 0" using find_from_Some[OF Some] by auto
    have up: "it_n ?s = it_n s" "it_inode ?s = (it_inode s)(i := ?e)" by simp_all
    have e: "mi_inum ?e = inum" "0 < mi_ref ?e" by simp_all
    note r = refcount_fresh[OF wf None i up e]
    have "\<not> mi_locked (it_inode s i)" using wf i by (simp add: table_wf_def)
    then have "got s inum i ?s" unfolding got_def using r rc by simp
    moreover have "iget_search inum s = Some (i, ?s)" using None Some by (simp add: iget_search_def entry_of_def)
    ultimately show ?thesis by (auto intro: exI[of _ "\<lambda>ip. ip\<lparr>mi_inum := inum, mi_ref := 1, mi_valid := False\<rparr>"])
  next
    case N: None
    have "iget_search inum s = None" using None N by (simp add: iget_search_def entry_of_def)
    moreover have "mi_ref (it_inode s i) > 0" if "i < it_n s" for i
    proof -
      have "mi_ref (it_inode s i) \<noteq> 0" using N that by (simp add: find_from_None)
      moreover have "0 \<le> mi_ref (it_inode s i)" using wf that by (simp add: table_wf_def)
      ultimately show ?thesis by linarith
    qed
    ultimately show ?thesis using None by simp
  qed
qed

lemma itable_grow_ok:
  assumes wf: "table_wf s"
  shows "table_wf (itable_grow s)" "entry_of (itable_grow s) = entry_of s" "refcount (itable_grow s) = refcount s"
proof -
  have it: "it_inode (itable_grow s) i = (if i < it_n s then it_inode s i else if i < it_n s * 2 then static_inode else it_inode s i)" for i
    by (simp add: itable_grow_def)
  have n: "it_n (itable_grow s) = it_n s * 2" by (simp add: itable_grow_def)
  have z: "mi_ref static_inode = 0" "\<not> mi_locked static_inode" by (simp_all add: static_inode_def)
  show wf': "table_wf (itable_grow s)"
    using table_wfD[OF wf] by (intro table_wfI) (auto simp: n it z split: if_splits)
  show en: "entry_of (itable_grow s) = entry_of s"
  proof (rule ext, rule option_eqI)
    fix k j
    show "entry_of (itable_grow s) k = Some j \<longleftrightarrow> entry_of s k = Some j"
      unfolding entry_of_Some[OF wf'] entry_of_Some[OF wf] n it by (auto simp: z)
  qed
  show "refcount (itable_grow s) = refcount s"
  proof
    fix k
    have "j < it_n s" if "entry_of s k = Some j" for j using that by (simp add: entry_of_Some[OF wf])
    then show "refcount (itable_grow s) k = refcount s k" by (simp add: refcount_def en it split: option.splits)
  qed
qed

lemma iget_got:
  assumes wf: "table_wf s" and n: "0 < it_n s"
  shows "returns (iget inum s) (\<lambda>(ip, s'). got s inum ip s' \<and> it_n s' \<in> {it_n s, 2 * it_n s} \<and>
    (it_n s' = 2 * it_n s \<longrightarrow> refcount s inum = 0 \<and> (\<forall>i<it_n s. mi_ref (it_inode s i) > 0)))"
proof (cases "iget_search inum s")
  case (Some r)
  then show ?thesis using iget_search_ok[OF wf, of inum] n by (auto simp: iget_def)
next
  case None
  note g = itable_grow_ok[OF wf]
  have full: "\<forall>i<it_n s. mi_ref (it_inode s i) > 0" and new: "entry_of s inum = None" using iget_search_ok[OF wf, of inum] None by auto
  have n2: "it_n (itable_grow s) = 2 * it_n s" by (simp add: itable_grow_def)
  have "mi_ref (it_inode (itable_grow s) (it_n s)) = 0" using n by (simp add: itable_grow_def static_inode_def)
  then have "iget_search inum (itable_grow s) \<noteq> None"
    using iget_search_ok[OF g(1), of inum] n n2 by (auto split: option.splits dest!: spec[of _ "it_n s"])
  then obtain ip s' where r: "iget_search inum (itable_grow s) = Some (ip, s')" by auto
  have got: "got (itable_grow s) inum ip s'" "it_n s' = 2 * it_n s" using iget_search_ok[OF g(1), of inum] r n2 by auto
  have "it_inode (itable_grow s) i = it_inode s i" if "i < it_n s" for i using that by (simp add: itable_grow_def)
  moreover have "refcount s inum = 0" by (simp add: refcount_def new)
  ultimately have "got s inum ip s'" using got(1) n2 by (auto simp: got_def g)
  then show ?thesis using None r got(2) full \<open>refcount s inum = 0\<close> by (simp add: iget_def)
qed

text \<open>The search fails exactly when the number has no entry and no entry is free.\<close>

lemma iget_search_None:
  assumes wf: "table_wf s"
  shows "iget_search inum s = None \<longleftrightarrow> entry_of s inum = None \<and> (\<forall>i<it_n s. 0 < mi_ref (it_inode s i))"
proof -
  have f: "find_from (\<lambda>i. mi_ref (it_inode s i) = 0) 0 (it_n s) = None \<longleftrightarrow> (\<forall>i<it_n s. 0 < mi_ref (it_inode s i))"
    using table_wfD(1)[OF wf] by (auto simp: find_from_None order_less_le)
  show ?thesis unfolding iget_search_def entry_of_def f[symmetric] by (simp split: option.split)
qed

lemma iget_size:
  assumes wf: "table_wf s" and run: "iget inum s = Inr (ip, s')"
  shows "it_n s' = (if entry_of s inum = None \<and> (\<forall>i<it_n s. 0 < mi_ref (it_inode s i)) then 2 * it_n s else it_n s)"
proof (cases "iget_search inum s")
  case None
  note g = itable_grow_ok[OF wf]
  have r: "iget_search inum (itable_grow s) = Some (ip, s')" using run None by (simp add: iget_def split: option.splits)
  have "it_n (itable_grow s) = 2 * it_n s" by (simp add: itable_grow_def)
  then show ?thesis using iget_search_ok[OF g(1), of inum] r None iget_search_None[OF wf] by simp
next
  case (Some r)
  then have "it_n s' = it_n s" using iget_search_ok[OF wf, of inum] run by (simp add: iget_def)
  moreover have "\<not> (entry_of s inum = None \<and> (\<forall>i<it_n s. 0 < mi_ref (it_inode s i)))" using Some iget_search_None[OF wf, of inum] by simp
  ultimately show ?thesis by (simp only: if_False)
qed

text \<open>
  C28: iget implements the table of reference counts: it returns the one entry of the inode
  number, the count of this number goes up by one and no other count changes, and the table grows
  by doubling exactly when the number has no entry and every entry is in use.
\<close>

theorem iget_refines:
  assumes wf: "table_wf s" and n: "0 < it_n s"
  shows "returns (iget inum s) (\<lambda>(ip, s'). got s inum ip s' \<and>
    it_n s' = (if entry_of s inum = None \<and> (\<forall>i<it_n s. 0 < mi_ref (it_inode s i)) then 2 * it_n s else it_n s))"
  using iget_got[OF assms, of inum] iget_size[OF wf, of inum] by (auto elim!: returnsE)

lemma idup_ok:
  assumes wf: "table_wf s" and ip: "entry_of s inum = Some ip"
  shows "got s inum ip (snd (idup ip s))" "fst (idup ip s) = ip"
proof -
  have "iget_search inum s = Some (idup ip s)" using ip by (simp add: iget_search_def entry_of_def idup_def)
  then show "got s inum ip (snd (idup ip s))" using iget_search_ok[OF wf, of inum] by (simp add: idup_def)
qed (simp add: idup_def)

section \<open>A small file system\<close>

text \<open>
  128 blocks, the log in 64 to 103, one bitmap block at 20 in which only 48 to 63 are free, the inodes
  in 30 and 31: inode 1 is a directory with its content in block 41, inode 2 a file with its first
  block in block 40. \<open>tab\<close> is the table of inodes, \<open>dat\<close> the contents of the data blocks.
\<close>

definition mini_root :: minode where
  "mini_root = static_inode\<lparr>di_type := T_DIR, di_nlink := 1, di_size := 64, di_addrs := (\<lambda>k. if k = 0 then 41 else 0),
    mi_inum := 1, mi_ref := 1\<rparr>"

definition mini_file :: minode where
  "mini_file = static_inode\<lparr>di_type := T_FILE, di_nlink := 1, di_size := 100, di_addrs := (\<lambda>k. if k = 0 then 40 else 0),
    mi_inum := 2, mi_ref := 1\<rparr>"

definition mini_inodes :: block where
  "mini_inodes = put_dinode (put_dinode zero_block 256 mini_root) 512 mini_file"

definition mini_map :: "nat \<Rightarrow> byte" where
  "mini_map j = (if j = 6 \<or> j = 7 then 0 else 0xFF)"

definition mini_ext :: "(nat \<Rightarrow> minode) \<Rightarrow> (uint \<Rightarrow> block) \<Rightarrow> 'a \<Rightarrow> 'a itable_scheme" where
  "mini_ext tab dat x = bcache_init \<lparr>dev_nblk = 128,
    dev_data = (\<lambda>b. if b = 20 then mini_map else if b = 30 then mini_inodes else if 30 < b \<and> b < 64 then dat b else zero_block),
    dev_writes = [],
    disk_lock = False, clock = (\<lambda>n. \<lparr>tv_sec = word_of_nat n, tv_nsec = 0\<rparr>), ticks = 0, bc_buf = (\<lambda>_. static_buf),
    bc_hash = (\<lambda>_. []), lg_start = 64, lg_size = 40, lg_outstanding = 1, lg_committing = False, lh_n = 0,
    lh_block = (\<lambda>_. 0), n_log_wrote = 0,
    fs_sb = \<lparr>sb_magic = 0, sb_size = 128, sb_nblocks = 24, sb_ninodes = 32, sb_nlog = 40, sb_logstart = 64,
      sb_inodestart = 30, sb_bmapstart = 20\<rparr>,
    bm_cache = mini_map, bm_first = (\<lambda>_. 48), bm_nalloc = (\<lambda>_. 32752), bm_n = 1, bm_ffc = 0,
    it_n = 2, it_inode = tab, \<dots> = x\<rparr>"

abbreviation mini_it :: "(nat \<Rightarrow> minode) \<Rightarrow> (uint \<Rightarrow> block) \<Rightarrow> itable" where
  "mini_it tab dat \<equiv> mini_ext tab dat ()"

lemma mini_it_fields:
  "dev_nblk (mini_ext tab dat x) = 128" "lg_start (mini_ext tab dat x) = 64"
  "lg_size (mini_ext tab dat x) = 40" "lg_outstanding (mini_ext tab dat x) = 1" "lh_n (mini_ext tab dat x) = 0" "sb_bmapstart (fs_sb (mini_ext tab dat x)) = 20"
  "bm_cache (mini_ext tab dat x) = mini_map" "bm_first (mini_ext tab dat x) = (\<lambda>_. 48)" "bm_nalloc (mini_ext tab dat x) = (\<lambda>_. 32752)"
  "bm_n (mini_ext tab dat x) = 1" "bm_ffc (mini_ext tab dat x) = 0" "it_n (mini_ext tab dat x) = 2" "it_inode (mini_ext tab dat x) = tab"
  "sb_inodestart (fs_sb (mini_ext tab dat x)) = 30" "sb_ninodes (fs_sb (mini_ext tab dat x)) = 32" "n_log_wrote (mini_ext tab dat x) = 0" "lg_committing (mini_ext tab dat x) = False"
  "dev_data (mini_ext tab dat x) b = (if b = 20 then mini_map else if b = 30 then mini_inodes else if 30 < b \<and> b < 64 then dat b else zero_block)"
  by (simp_all add: mini_ext_def bcache_init_def)

lemma mini_it_ready: "log_ready {} (mini_ext tab dat x)" "held (mini_ext tab dat x) = Map.empty" "b \<noteq> 0 \<Longrightarrow> view (mini_ext tab dat x) b = dev_data (mini_ext tab dat x) b"
proof -
  have "idle {} (mini_ext tab dat x)" unfolding mini_ext_def by (rule bcache_init_idle) (simp add: fresh_cache_def)
  then show "log_ready {} (mini_ext tab dat x)" "held (mini_ext tab dat x) = Map.empty"
    by (simp_all add: idle_def log_ready_def log_inv_def logged_def geom_def mini_it_fields header_n_def NLOG_def MAXOPBLOCKS_def)
  show "b \<noteq> 0 \<Longrightarrow> view (mini_ext tab dat x) b = dev_data (mini_ext tab dat x) b"
    unfolding mini_ext_def by (subst bcache_init_inv(3)) (simp_all add: fresh_cache_def bcache_init_def)
qed

lemma mini_it_bits: "bm_bit (mini_ext tab dat x) j \<longleftrightarrow> \<not> (48 \<le> j \<and> j < 64)"
proof -
  have k: "k = 0 \<or> k = 1 \<or> k = 2 \<or> k = 3 \<or> k = 4 \<or> k = 5 \<or> k = 6 \<or> k = 7" if "k < 8" for k :: nat using that by arith
  have "bit (0xFF :: byte) (j mod 8)" using k[of "j mod 8"] by (auto simp: bit_iff_odd_drop_bit)
  moreover have "48 \<le> j \<and> j < 64 \<longleftrightarrow> j div 8 = 6 \<or> j div 8 = 7" by presburger
  ultimately show ?thesis by (auto simp: bm_bit_def mini_it_fields mini_map_def)
qed

lemma mini_it_usable: "usable (mini_ext tab dat x) b \<longleftrightarrow> b \<noteq> 0 \<and> unat b < 128 \<and> \<not> (64 \<le> unat b \<and> unat b < 104) \<and> b \<noteq> 20"
  by (simp add: usable_def data_block_def mini_it_fields bm_block_def)

lemma mini_it_inv: "bm_inv (mini_ext tab dat x)" "bm_ready (mini_ext tab dat x)" "16 \<le> card (free_blocks (mini_ext tab dat x))"
proof -
  have db: "data_block (mini_ext tab dat x) b \<longleftrightarrow> b \<noteq> 0 \<and> unat b < 128 \<and> \<not> (64 \<le> unat b \<and> unat b < 104)" for b
    by (simp add: data_block_def mini_it_fields)
  have used: "group_used (mini_ext tab dat x) 0 = {..<BPB} - {48..<64}"
    by (auto simp: group_used_def mini_it_bits)
  have "bm_sync (mini_ext tab dat x)" by (simp add: bm_sync_def bm_block_def mini_it_fields db mini_it_ready(3))
  moreover have "{48..<64} \<subseteq> {..<BPB}" by (auto simp: BPB_def BSIZE_def)
  then have "card ({..<BPB} - {48..<64}) = card {..<BPB} - card {48..<64 :: nat}" by (intro card_Diff_subset) auto
  then have "card (group_used (mini_ext tab dat x) 0) = 32752" unfolding used by (simp add: BPB_def BSIZE_def)
  moreover have "least_free (group_used (mini_ext tab dat x) 0) = int 48"
    unfolding used by (rule least_free_eqI) (simp_all add: BPB_def BSIZE_def)
  moreover have small: "unat (word_of_nat b :: uint) = b" if "b < 64" for b
    using that by (simp add: unsigned_of_nat take_bit_nat_eq_self)
  have us: "usable (mini_ext tab dat x) (word_of_nat b)" if "48 \<le> b" "b < 64" for b
    using that small[OF that(2)] by (auto simp: mini_it_usable word_unat_eq_iff)
  ultimately show "bm_inv (mini_ext tab dat x)"
    by (simp add: bm_inv_def bm_counts_def mini_it_fields mini_it_bits)
  show "bm_ready (mini_ext tab dat x)" by (simp add: bm_ready_def mini_it_fields)
  have "word_of_nat ` {48..<64} \<subseteq> free_blocks (mini_ext tab dat x)"
    by (auto simp: free_blocks_def mini_it_fields mini_it_bits BPB_def BSIZE_def small)
  moreover have "inj_on (word_of_nat :: nat \<Rightarrow> uint) {48..<64}"
    by (rule inj_on_inverseI[of _ unat]) (simp add: small)
  then have "card ((word_of_nat :: nat \<Rightarrow> uint) ` {48..<64}) = 16" by (simp add: card_image)
  ultimately show "16 \<le> card (free_blocks (mini_ext tab dat x))" using card_mono[of "free_blocks (mini_ext tab dat x)"] by (metis finite)
qed

lemma mini_it_IBLOCK: "IBLOCK 1 (mini_ext tab dat x) = 30" "IBLOCK 2 (mini_ext tab dat x) = 30" "dinode_off 1 = 256" "dinode_off 2 = 512"
  by (simp_all add: IBLOCK_def IPB_def dinode_off_def mini_it_fields)

lemma mini_addrs_ok: "addrs_ok mini_root" "addrs_ok mini_file"
  by (simp_all add: addrs_ok_def mini_root_def mini_file_def NBLOCKADDR_def NDIRECT_def)

lemma mini_it_disk: "disk_inode (mini_ext tab dat x) 1 = disk_part mini_root" "disk_inode (mini_ext tab dat x) 2 = disk_part mini_file"
  using mini_addrs_ok
  by (simp_all add: disk_inode_def mini_it_IBLOCK mini_it_ready(3) mini_it_fields mini_inodes_def get_put_dinode get_put_dinode_other)

text \<open>The table after looking both inodes up: entry 0 for the directory, entry 1 for the file.\<close>

definition mini_tab :: "nat \<Rightarrow> minode" where
  "mini_tab i = (if i = 0 then mini_root else if i = 1 then mini_file else static_inode)"

lemma mini_tab_wf: "table_wf (mini_ext mini_tab dat x)"
proof -
  have l: "i < 2 \<longleftrightarrow> i = 0 \<or> i = 1" for i :: nat by arith
  show ?thesis by (rule table_wfI) (auto simp: mini_it_fields mini_tab_def mini_root_def mini_file_def static_inode_def l)
qed

theorem iget_refines_witness:
  "\<exists>ip s'. iget 5 (mini_it mini_tab (\<lambda>_. zero_block)) = Inr (ip, s') \<and> 2 \<le> ip \<and> entry_of s' 5 = Some ip \<and> refcount s' 5 = 1 \<and> refcount s' 1 = 1"
proof -
  let ?s = "mini_it mini_tab (\<lambda>_. zero_block)"
  have l: "i < 2 \<longleftrightarrow> i = 0 \<or> i = 1" for i :: nat by arith
  have f: "mi_inum (it_inode ?s 0) = 1" "mi_inum (it_inode ?s 1) = 2" "mi_ref (it_inode ?s 0) = 1" "mi_ref (it_inode ?s 1) = 1"
    by (simp_all add: mini_it_fields mini_tab_def mini_root_def mini_file_def)
  have n: "it_n ?s = 2" by (simp add: mini_it_fields)
  have e: "entry_of ?s 1 = Some 0" by (simp add: entry_of_Some[OF mini_tab_wf] n f)
  have "entry_of ?s 5 \<noteq> Some i" for i
  proof
    assume "entry_of ?s 5 = Some i"
    then have "i = 0 \<or> i = 1" "mi_inum (it_inode ?s i) = 5" using l[of i] by (simp_all add: entry_of_Some[OF mini_tab_wf] n)
    then show False using f by (auto simp del: One_nat_def)
  qed
  then have e5: "entry_of ?s 5 = None" by (cases "entry_of ?s 5") auto
  have r: "returns (iget 5 ?s) (\<lambda>(ip, s'). got ?s 5 ip s' \<and>
    it_n s' = (if entry_of ?s 5 = None \<and> (\<forall>i<it_n ?s. 0 < mi_ref (it_inode ?s i)) then 2 * it_n ?s else it_n ?s))"
    by (rule iget_refines[OF mini_tab_wf]) (simp add: n)
  then obtain ip s' where g: "iget 5 ?s = Inr (ip, s')" "got ?s 5 ip s'" by (auto elim!: returnsE)
  have rc: "refcount ?s 5 = 0" "refcount ?s 1 = 1" using e e5 f by (simp_all add: refcount_def)
  have k: "entry_of s' 1 = Some 0" "refcount s' 1 = 1" "entry_of s' 5 = Some ip" "refcount s' 5 = 1" "table_wf s'"
    and ot: "i < 2 \<Longrightarrow> i \<noteq> ip \<Longrightarrow> it_inode s' i = it_inode ?s i" for i
    using g(2) rc e n by (auto simp: got_def)
  have "ip \<noteq> 1" 
  proof
    assume "ip = 1"
    have "refcount s' 2 = refcount ?s 2" "entry_of s' 2 = entry_of ?s 2" using g(2) by (auto simp: got_def)
    moreover have "entry_of ?s 2 = Some 1" unfolding entry_of_Some[OF mini_tab_wf] n f by simp
    ultimately show False using k(3,5) \<open>ip = 1\<close> entry_of_Some[OF k(5), of 2 1] entry_of_Some[OF k(5), of 5 1] by simp
  qed
  moreover have "ip \<noteq> 0" using k entry_of_Some[OF k(5), of 1 0] entry_of_Some[OF k(5), of 5 0] by auto
  ultimately have "2 \<le> ip" by arith
  then show ?thesis using g k by blast
qed

theorem iupdate_ilock_witness:
  "\<exists>s1. iupdate 1 (mini_it mini_tab (\<lambda>_. zero_block)) = Inr ((), s1) \<and> di_size (disk_inode s1 2) = 100 \<and> di_type (disk_inode s1 1) = T_DIR"
proof -
  let ?s = "mini_it mini_tab (\<lambda>_. zero_block)"
  have i: "it_inode ?s 1 = mini_file" "mi_inum mini_file = 2" "addrs_ok (it_inode ?s 1)"
    using mini_addrs_ok by (simp_all add: mini_it_fields mini_tab_def mini_file_def)
  have b: "IBLOCK (mi_inum (it_inode ?s 1)) ?s = 30" by (simp only: i mini_it_IBLOCK)
  have u: "usable ?s (IBLOCK (mi_inum (it_inode ?s 1)) ?s)" unfolding b by (simp add: mini_it_usable)
  obtain s1 where s1: "iupdate 1 ?s = Inr ((), s1)"
    using iupdate_returns[OF mini_it_ready(1) few_held_empty[OF mini_it_ready(2)], of mini_tab "\<lambda>_. zero_block" "()" 1] u
    by (auto simp: mini_it_ready(2) mini_it_fields usable_def)
  have "disk_inode s1 2 = disk_part (it_inode s1 1) \<and> disk_inode s1 1 = disk_inode ?s 1 \<and> (\<exists>t. it_inode s1 1 = mini_file\<lparr>di_ctime := t\<rparr>)"
    using iupdate_ilock[OF mini_it_ready(1) mini_it_inv(1) u i(3) s1] unfolding i by simp
  then show ?thesis using s1 by (auto simp: mini_it_disk dinode.truncate_def mini_file_def mini_root_def)
qed

theorem ilock_outcome_witness:
  "\<exists>s'. ilock 1 (mini_it mini_tab (\<lambda>_. zero_block)) = Inr ((), s') \<and> di_addrs (it_inode s' 1) 0 = 40"
proof -
  let ?s = "mini_it mini_tab (\<lambda>_. zero_block)"
  have i: "it_inode ?s 1 = mini_file" "mi_inum mini_file = 2" "mi_ref mini_file = 1" "\<not> mi_locked mini_file" "\<not> mi_valid mini_file"
    by (simp_all add: mini_it_fields mini_tab_def mini_file_def static_inode_def)
  have b: "data_block ?s (IBLOCK (mi_inum (it_inode ?s 1)) ?s)"
    using mini_it_usable[of mini_tab "\<lambda>_. zero_block" "()" 30] by (simp only: i mini_it_IBLOCK usable_def) simp
  have t: "di_type (disk_inode ?s 2) = T_FILE" "di_addrs (disk_inode ?s 2) 0 = 40"
    by (simp_all add: mini_it_disk dinode.truncate_def mini_file_def)
  have "T_FILE \<noteq> T_UNUSE" by (simp add: T_FILE_def T_UNUSE_def)
  then have "returns (ilock 1 ?s) (\<lambda>(_, s'). disk_part (it_inode s' 1) = disk_inode ?s 2 \<and> view s' = view ?s \<and>
      mi_locked (it_inode s' 1) \<and> mi_valid (it_inode s' 1) \<and> (\<forall>j. j \<noteq> 1 \<longrightarrow> it_inode s' j = it_inode ?s j))"
    using ilock_outcome[OF mini_it_ready(1,2) b] unfolding i by (simp add: t i del: One_nat_def)
  then obtain s' where s': "ilock 1 ?s = Inr ((), s')" "disk_part (it_inode s' 1) = disk_inode ?s 2" by (auto elim!: returnsE)
  have "di_addrs (it_inode s' 1) = di_addrs (disk_inode ?s 2)"
    using arg_cong[OF s'(2), of di_addrs] by (simp add: dinode.truncate_def)
  then show ?thesis using s'(1) t(2) by (intro exI[of _ s']) (simp del: One_nat_def)
qed

end
