(* ===== verification/Inode_Map.thy ===== *)
theory Inode_Map
  imports Inode
begin

text \<open>
  The second part of \<^verbatim>\<open>src/inode.c\<close>: the blocks of an inode's content. The first 43 block numbers are
  in the inode, three more name trees of index blocks of depth 1, 2 and 3. Block numbers within a
  file are natural numbers here: the code subtracts only after it has compared.
\<close>

definition NINDIRECT1 :: nat where "NINDIRECT1 = 1024"
definition NINDIRECT2 :: nat where "NINDIRECT2 = NINDIRECT1 * NINDIRECT1"
definition NINDIRECT3 :: nat where "NINDIRECT3 = NINDIRECT1 * NINDIRECT1 * NINDIRECT1"
definition MAXFILE_BLOCKS :: nat where "MAXFILE_BLOCKS = NDIRECT + (NINDIRECT1 + NINDIRECT2 + NINDIRECT3)"
definition MAXFILE_SIZE :: size_t where "MAXFILE_SIZE = word_of_nat (MAXFILE_BLOCKS * BSIZE)"

section \<open>Mapping a block\<close>

definition assert_no_need_to_restart_op :: "'a itable_scheme \<Rightarrow> (unit \<times> 'a itable_scheme) res" where
  "assert_no_need_to_restart_op s =
    (if unat (n_log_wrote s) \<ge> MAXOPBLOCKS - 1 - 3 then Inl (Err_exit ''too many blocks in one op'') else Inr ((), s))"

text \<open>The block number in slot \<open>k\<close> of the inode, allocating the block if there is none.\<close>

definition imap_root :: "nat \<Rightarrow> nat \<Rightarrow> 'a itable_scheme \<Rightarrow> (uint \<times> 'a itable_scheme) res" where
  "imap_root ip k s =
    (let addr = di_addrs (it_inode s ip) k in
     if addr = 0 then
       chain (block_alloc s) (\<lambda>(addr, s).
       Inr (addr, upd_inode ip (\<lambda>i. i\<lparr>di_addrs := (di_addrs i)(k := addr)\<rparr>) s))
     else Inr (addr, s))"

text \<open>The block number in entry \<open>i\<close> of the index block \<open>addr\<close>, allocating the block if there is none.\<close>

definition index_entry :: "block \<Rightarrow> nat \<Rightarrow> uint" where
  "index_entry d i = get32 d (4 * i)"

definition imap_entry :: "uint \<Rightarrow> nat \<Rightarrow> 'a bmap_scheme \<Rightarrow> (uint \<times> 'a bmap_scheme) res" where
  "imap_entry addr i s =
    chain (logged_read addr s) (\<lambda>(bp, s).
    let addr = index_entry (buf_data s bp) i in
    if addr = 0 then
      chain (block_alloc s) (\<lambda>(addr, s).
      chain (logged_write bp (set_data bp (put32 (buf_data s bp) (4 * i) addr) s)) (\<lambda>(_, s).
      Inr (addr, logged_relse bp s)))
    else Inr (addr, logged_relse bp s))"

definition check_entry :: "nat \<Rightarrow> 'a bmap_scheme \<Rightarrow> (unit \<times> 'a bmap_scheme) res" where
  "check_entry i s = (if i * 4 < BSIZE then Inr ((), s) else Inl Assert_failed)"

definition imap2blockno :: "nat \<Rightarrow> uint \<Rightarrow> 'a itable_scheme \<Rightarrow> (uint \<times> 'a itable_scheme) res" where
  "imap2blockno ip bno s =
    chain (assert_no_need_to_restart_op s) (\<lambda>(_, s).
    let bn = unat bno in
    if bn < NDIRECT then imap_root ip bn s
    else let bn = bn - NDIRECT in
    if bn < NINDIRECT1 then
      chain (imap_root ip NDIRECT s) (\<lambda>(addr, s).
      imap_entry addr bn s)
    else let bn = bn - NINDIRECT1 in
    if bn < NINDIRECT2 then
      let entry = bn div NINDIRECT1; offset = bn mod NINDIRECT1 in
      chain (imap_root ip (NDIRECT + 1) s) (\<lambda>(addr, s).
      chain (check_entry entry s) (\<lambda>(_, s).
      chain (imap_entry addr entry s) (\<lambda>(addr, s).
      imap_entry addr offset s)))
    else let bn = bn - NINDIRECT2 in
    if bn < NINDIRECT3 then
      let entryl1 = bn div NINDIRECT2; offsetl1 = bn mod NINDIRECT2;
          entryl2 = offsetl1 div NINDIRECT1; offsetl2 = offsetl1 mod NINDIRECT1 in
      chain (imap_root ip (NDIRECT + 2) s) (\<lambda>(addr, s).
      chain (check_entry entryl1 s) (\<lambda>(_, s).
      chain (imap_entry addr entryl1 s) (\<lambda>(addr, s).
      chain (check_entry entryl2 s) (\<lambda>(_, s).
      chain (imap_entry addr entryl2 s) (\<lambda>(addr, s).
      imap_entry addr offsetl2 s)))))
    else Inl (Err_exit ''imap2blockno: inode too big''))"

section \<open>Truncating to nothing\<close>

text \<open>\<open>free_tree d addr\<close> frees the blocks below the index block \<open>addr\<close> of depth \<open>d\<close>, then \<open>addr\<close>.\<close>

primrec free_tree :: "nat \<Rightarrow> uint \<Rightarrow> 'a bmap_scheme \<Rightarrow> (unit \<times> 'a bmap_scheme) res" where
  "free_tree 0 addr s = block_free addr s"
| "free_tree (Suc d) addr s =
    chain (logged_read addr s) (\<lambda>(bp, s).
    chain (foreach [0..<NINDIRECT1] (\<lambda>i s.
        if index_entry (buf_data s bp) i \<noteq> 0 then free_tree d (index_entry (buf_data s bp) i) s
        else Inr ((), s)) s) (\<lambda>(_, s).
    block_free addr (logged_relse bp s)))"

definition free_root :: "nat \<Rightarrow> nat \<Rightarrow> nat \<Rightarrow> 'a itable_scheme \<Rightarrow> (unit \<times> 'a itable_scheme) res" where
  "free_root ip d k s =
    (if di_addrs (it_inode s ip) k \<noteq> 0 then free_tree d (di_addrs (it_inode s ip) k) s else Inr ((), s))"

definition itrunc :: "nat \<Rightarrow> 'a itable_scheme \<Rightarrow> (unit \<times> 'a itable_scheme) res" where
  "itrunc ip s =
    chain (foreach [0..<NDIRECT] (free_root ip 0) s) (\<lambda>(_, s).
    chain (free_root ip 1 NDIRECT s) (\<lambda>(_, s).
    chain (free_root ip 2 (NDIRECT + 1) s) (\<lambda>(_, s).
    chain (free_root ip 3 (NDIRECT + 2) s) (\<lambda>(_, s).
    iupdate ip (upd_inode ip (\<lambda>i. i\<lparr>di_addrs := (\<lambda>_. 0), di_size := 0\<rparr>) s)))))"

definition iput :: "nat \<Rightarrow> 'a itable_scheme \<Rightarrow> (unit \<times> 'a itable_scheme) res" where
  "iput ip s =
    chain
      (let i = it_inode s ip in
       if mi_ref i = 1 \<and> mi_valid i \<and> di_nlink i = 0 then
         chain (lock_inode ip s) (\<lambda>(_, s).
         chain (itrunc ip s) (\<lambda>(_, s).
         chain (iupdate ip (upd_inode ip (di_type_update (\<lambda>_. T_UNUSE)) s)) (\<lambda>(_, s).
         Inr ((), iunlock ip (upd_inode ip (mi_valid_update (\<lambda>_. False)) s)))))
       else Inr ((), s)) (\<lambda>(_, s).
    Inr ((), upd_inode ip (\<lambda>i. i\<lparr>mi_ref := mi_ref i - 1\<rparr>) s))"

definition iunlockput :: "nat \<Rightarrow> 'a itable_scheme \<Rightarrow> (unit \<times> 'a itable_scheme) res" where
  "iunlockput ip s = iput ip (iunlock ip s)"

section \<open>Truncating to a size\<close>

definition log_op_restart_helper :: "'a bmap_scheme \<Rightarrow> (unit \<times> 'a bmap_scheme) res" where
  "log_op_restart_helper s =
    (if unat (n_log_wrote s) \<ge> MAXOPBLOCKS - 1 - 3 then
       chain (end_op s) (\<lambda>(_, s). begin_op s)
     else Inr ((), s))"

text \<open>The macro \<open>block_free_safe\<close> on a slot of the inode and on an entry of the held index block.\<close>

definition free_safe_root :: "nat \<Rightarrow> nat \<Rightarrow> 'a itable_scheme \<Rightarrow> (unit \<times> 'a itable_scheme) res" where
  "free_safe_root ip k s =
    chain (log_op_restart_helper s) (\<lambda>(_, s).
    chain (block_free (di_addrs (it_inode s ip) k) s) (\<lambda>(_, s).
    Inr ((), upd_inode ip (\<lambda>i. i\<lparr>di_addrs := (di_addrs i)(k := 0)\<rparr>) s)))"

definition free_safe_entry :: "nat \<Rightarrow> nat \<Rightarrow> 'a bmap_scheme \<Rightarrow> (unit \<times> 'a bmap_scheme) res" where
  "free_safe_entry bp i s =
    chain (log_op_restart_helper s) (\<lambda>(_, s).
    chain (block_free (index_entry (buf_data s bp) i) s) (\<lambda>(_, s).
    Inr ((), set_data bp (put32 (buf_data s bp) (4 * i) 0) s)))"

definition read_entry :: "uint \<Rightarrow> nat \<Rightarrow> 'a bmap_scheme \<Rightarrow> (uint \<times> 'a bmap_scheme) res" where
  "read_entry addr i s =
    chain (logged_read addr s) (\<lambda>(bp, s). Inr (index_entry (buf_data s bp) i, logged_relse bp s))"

definition clear_entry :: "uint \<Rightarrow> nat \<Rightarrow> 'a bmap_scheme \<Rightarrow> (unit \<times> 'a bmap_scheme) res" where
  "clear_entry addr i s =
    chain (logged_read addr s) (\<lambda>(bp, s).
    if index_entry (buf_data s bp) i \<noteq> 0 then
      chain (free_safe_entry bp i s) (\<lambda>(_, s).
      chain (logged_write bp s) (\<lambda>(_, s). Inr ((), logged_relse bp s)))
    else Inr ((), logged_relse bp s))"

text \<open>In the second level the code allocates a missing index block, in the others it returns.\<close>

definition imap2blockno_free :: "nat \<Rightarrow> uint \<Rightarrow> 'a itable_scheme \<Rightarrow> (unit \<times> 'a itable_scheme) res" where
  "imap2blockno_free ip bno s =
    chain (assert_no_need_to_restart_op s) (\<lambda>(_, s).
    let bn = unat bno in
    if bn < NDIRECT then
      if di_addrs (it_inode s ip) bn \<noteq> 0 then free_safe_root ip bn s else Inr ((), s)
    else let bn = bn - NDIRECT in
    if bn < NINDIRECT1 then
      let addr = di_addrs (it_inode s ip) NDIRECT in
      if addr = 0 then Inr ((), s) else clear_entry addr bn s
    else let bn = bn - NINDIRECT1 in
    if bn < NINDIRECT2 then
      let entry = bn div NINDIRECT1; offset = bn mod NINDIRECT1 in
      chain (imap_root ip (NDIRECT + 1) s) (\<lambda>(addr, s).
      chain (check_entry entry s) (\<lambda>(_, s).
      chain (read_entry addr entry s) (\<lambda>(addr, s).
      if addr = 0 then Inr ((), s) else clear_entry addr offset s)))
    else let bn = bn - NINDIRECT2 in
    if bn < NINDIRECT3 then
      let entryl1 = bn div NINDIRECT2; offsetl1 = bn mod NINDIRECT2;
          entryl2 = offsetl1 div NINDIRECT1; offsetl2 = offsetl1 mod NINDIRECT1;
          addr = di_addrs (it_inode s ip) (NDIRECT + 2) in
      if addr = 0 then Inr ((), s)
      else
        chain (check_entry entryl1 s) (\<lambda>(_, s).
        chain (read_entry addr entryl1 s) (\<lambda>(addr, s).
        if addr = 0 then Inr ((), s)
        else
          chain (check_entry entryl2 s) (\<lambda>(_, s).
          chain (read_entry addr entryl2 s) (\<lambda>(addr, s).
          if addr = 0 then Inr ((), s) else clear_entry addr offsetl2 s))))
    else Inl (Err_exit ''imap2blockno_free: inode too big''))"

text \<open>
  The loops of \<open>itrunc2size\<close> count an unsigned 32-bit number towards a 64-bit bound; a count past
  the largest file ends in \<open>imap2blockno\<close>, long before it could wrap around.
\<close>

definition itrunc2size :: "nat \<Rightarrow> size_t \<Rightarrow> 'a itable_scheme \<Rightarrow> (int \<times> 'a itable_scheme) res" where
  "itrunc2size ip new_size s =
    chain
      (if new_size = di_size (it_inode s ip) then Inr ((), s)
       else
         chain (if new_size = 0 then itrunc ip s else Inr ((), s)) (\<lambda>(_, s).
         let target = unat (roundup new_size (word_of_nat BSIZE)) div BSIZE;
             origin = unat (roundup (di_size (it_inode s ip)) (word_of_nat BSIZE)) div BSIZE in
         if target \<ge> origin then
           foreach [unat (word_of_nat origin :: uint)..<target] (\<lambda>i s.
             chain (log_op_restart_helper s) (\<lambda>(_, s).
             chain (imap2blockno ip (word_of_nat i) s) (\<lambda>(_, s). Inr ((), s)))) s
         else
           foreach [unat (word_of_nat target :: uint)..<origin] (\<lambda>i s.
             chain (log_op_restart_helper s) (\<lambda>(_, s).
             imap2blockno_free ip (word_of_nat i) s)) s)) (\<lambda>(_, s).
    chain (iupdate ip (upd_inode ip (di_size_update (\<lambda>_. new_size)) s)) (\<lambda>(_, s).
    Inr (0, s)))"

end
