(* ===== verification/Inode_IO.thy ===== *)
theory Inode_IO
  imports Inode_Map
begin

text \<open>
  The third part of \<^verbatim>\<open>src/inode.c\<close>: reading and writing the bytes of an inode, and \<open>stat\<close>. The
  caller's memory is a function from offsets to bytes; lengths and offsets are 64-bit words as in
  the code, the counters of the loops natural numbers that only decrease.
\<close>

section \<open>Restarting the operation\<close>

definition restart_op_on :: "nat \<Rightarrow> nat \<Rightarrow> 'a itable_scheme \<Rightarrow> (unit \<times> 'a itable_scheme) res" where
  "restart_op_on ip nwrote s =
    (if unat (n_log_wrote s) \<ge> nwrote - 1 then
       chain (iupdate ip s) (\<lambda>(_, s).
       chain (end_op (iunlock ip s)) (\<lambda>(_, s).
       chain (begin_op s) (\<lambda>(_, s).
       ilock ip s)))
     else Inr ((), s))"

text \<open>The time stamps after a read and after a write.\<close>

definition touch_atime :: "nat \<Rightarrow> 'a itable_scheme \<Rightarrow> 'a itable_scheme" where
  "touch_atime ip s = (let (t, s) = get_current_timespec s in upd_inode ip (di_atime_update (\<lambda>_. t)) s)"

definition touch_mtime :: "nat \<Rightarrow> 'a itable_scheme \<Rightarrow> 'a itable_scheme" where
  "touch_mtime ip s = (let s = touch_atime ip s in upd_inode ip (\<lambda>i. i\<lparr>di_mtime := di_atime i\<rparr>) s)"

section \<open>Writing\<close>

text \<open>\<open>memmove(bp->data + from, data + doff, n)\<close>.\<close>

definition blit_in :: "block \<Rightarrow> nat \<Rightarrow> (nat \<Rightarrow> byte) \<Rightarrow> nat \<Rightarrow> nat \<Rightarrow> block" where
  "blit_in d from data doff n = (\<lambda>a. if from \<le> a \<and> a < from + n then data (doff + (a - from)) else d a)"

definition write_part :: "nat \<Rightarrow> uint \<Rightarrow> nat \<Rightarrow> (nat \<Rightarrow> byte) \<Rightarrow> nat \<Rightarrow> nat \<Rightarrow> 'a itable_scheme \<Rightarrow> (unit \<times> 'a itable_scheme) res" where
  "write_part ip blk from data doff n s =
    chain (imap2blockno ip blk s) (\<lambda>(addr, s).
    chain (logged_read addr s) (\<lambda>(bp, s).
    chain (logged_write bp (set_data bp (blit_in (buf_data s bp) from data doff n) s)) (\<lambda>(_, s).
    Inr ((), logged_relse bp s))))"

text \<open>The loop over whole blocks; it returns what is left, where it goes on and the block it ends at.\<close>

function write_blocks ::
  "nat \<Rightarrow> (nat \<Rightarrow> byte) \<Rightarrow> nat \<Rightarrow> nat \<Rightarrow> uint \<Rightarrow> 'a itable_scheme \<Rightarrow> ((nat \<times> nat \<times> uint) \<times> 'a itable_scheme) res" where
  "write_blocks ip data nbytes doff blk s =
    (if nbytes > BSIZE then
       chain (restart_op_on ip (MAXOPBLOCKS - 1 - 3 - 1) s) (\<lambda>(_, s).
       chain (write_part ip blk 0 data doff BSIZE s) (\<lambda>(_, s).
       write_blocks ip data (nbytes - BSIZE) (doff + BSIZE) (blk + 1) s))
     else Inr ((nbytes, doff, blk), s))"
  by pat_completeness auto
termination
  by (relation "measure (\<lambda>(ip, data, nbytes, doff, blk, s). nbytes)") (auto simp: BSIZE_def)

declare write_blocks.simps [simp del]

definition inode_write_nbytes_locked ::
  "nat \<Rightarrow> (nat \<Rightarrow> byte) \<Rightarrow> size_t \<Rightarrow> size_t \<Rightarrow> 'a itable_scheme \<Rightarrow> (int \<times> 'a itable_scheme) res" where
  "inode_write_nbytes_locked ip data nbytes off s =
    (if off > MAXFILE_SIZE then Inr (0, s)
     else
       let nbytes = (if off + nbytes > MAXFILE_SIZE then nbytes - (off + nbytes - MAXFILE_SIZE) else nbytes);
           n_write = sint nbytes;
           s = upd_inode ip (\<lambda>i. i\<lparr>di_size := (if di_size i < off + nbytes then off + nbytes else di_size i)\<rparr>) s
       in chain (iupdate ip s) (\<lambda>(_, s).
       let inode_block_start = ucast (off div word_of_nat BSIZE);
           from_start = unat (off mod word_of_nat BSIZE);
           n_left = BSIZE - from_start
       in chain (restart_op_on ip (MAXOPBLOCKS - 1 - 3 - 1) s) (\<lambda>(_, s).
       chain (write_part ip inode_block_start from_start data 0 (min n_left (unat nbytes)) s) (\<lambda>(_, s).
       if unat nbytes \<le> n_left then
         chain (iupdate ip (touch_mtime ip s)) (\<lambda>(_, s). Inr (sint nbytes, s))
       else
         chain (write_blocks ip data (unat nbytes - n_left) n_left (inode_block_start + 1) s) (\<lambda>((nleft, doff, blk), s).
         chain (restart_op_on ip (MAXOPBLOCKS - 3 - 1) s) (\<lambda>(_, s).
         chain (if nleft \<noteq> 0 then write_part ip blk 0 data doff nleft s else Inr ((), s)) (\<lambda>(_, s).
         chain (iupdate ip (touch_mtime ip s)) (\<lambda>(_, s).
         Inr (n_write, s)))))))))"

section \<open>Reading\<close>

text \<open>\<open>memmove(data + doff, bp->data + from, n)\<close>.\<close>

definition blit_out :: "(nat \<Rightarrow> byte) \<Rightarrow> nat \<Rightarrow> block \<Rightarrow> nat \<Rightarrow> nat \<Rightarrow> nat \<Rightarrow> byte" where
  "blit_out data doff d from n = (\<lambda>a. if doff \<le> a \<and> a < doff + n then d (from + (a - doff)) else data a)"

definition read_part :: "nat \<Rightarrow> uint \<Rightarrow> nat \<Rightarrow> (nat \<Rightarrow> byte) \<Rightarrow> nat \<Rightarrow> nat \<Rightarrow> 'a itable_scheme \<Rightarrow> ((nat \<Rightarrow> byte) \<times> 'a itable_scheme) res" where
  "read_part ip blk from data doff n s =
    chain (imap2blockno ip blk s) (\<lambda>(addr, s).
    chain (logged_read addr s) (\<lambda>(bp, s).
    Inr (blit_out data doff (buf_data s bp) from n, logged_relse bp s)))"

function read_blocks ::
  "nat \<Rightarrow> (nat \<Rightarrow> byte) \<Rightarrow> nat \<Rightarrow> nat \<Rightarrow> uint \<Rightarrow> 'a itable_scheme \<Rightarrow> (((nat \<Rightarrow> byte) \<times> nat \<times> nat \<times> uint) \<times> 'a itable_scheme) res" where
  "read_blocks ip data nbytes doff blk s =
    (if nbytes > BSIZE then
       chain (restart_op_on ip (MAXOPBLOCKS - 1 - 3) s) (\<lambda>(_, s).
       chain (read_part ip blk 0 data doff BSIZE s) (\<lambda>(data, s).
       read_blocks ip data (nbytes - BSIZE) (doff + BSIZE) (blk + 1) s))
     else Inr ((data, nbytes, doff, blk), s))"
  by pat_completeness auto
termination
  by (relation "measure (\<lambda>(ip, data, nbytes, doff, blk, s). nbytes)") (auto simp: BSIZE_def)

declare read_blocks.simps [simp del]

text \<open>The bytes read come back in \<open>data\<close>.\<close>

definition inode_read_nbytes_locked ::
  "nat \<Rightarrow> (nat \<Rightarrow> byte) \<Rightarrow> size_t \<Rightarrow> size_t \<Rightarrow> 'a itable_scheme \<Rightarrow> ((int \<times> (nat \<Rightarrow> byte)) \<times> 'a itable_scheme) res" where
  "inode_read_nbytes_locked ip data nbytes off s =
    (let size = di_size (it_inode s ip) in
     if off > size then Inr ((0, data), s)
     else
       let nbytes = (if off + nbytes > size then nbytes - (off + nbytes - size) else nbytes);
           n_read = sint nbytes;
           inode_block_start = ucast (off div word_of_nat BSIZE);
           from_start = unat (off mod word_of_nat BSIZE);
           n_left = BSIZE - from_start
       in chain (read_part ip inode_block_start from_start data 0 (min n_left (unat nbytes)) s) (\<lambda>(data, s).
       if unat nbytes \<le> n_left then
         chain (iupdate ip (touch_atime ip s)) (\<lambda>(_, s). Inr ((sint nbytes, data), s))
       else
         chain (read_blocks ip data (unat nbytes - n_left) n_left (inode_block_start + 1) s) (\<lambda>((data, nleft, doff, blk), s).
         chain (if nleft \<noteq> 0 then
             chain (restart_op_on ip (MAXOPBLOCKS - 1 - 3) s) (\<lambda>(_, s). read_part ip blk 0 data doff nleft s)
           else Inr (data, s)) (\<lambda>(data, s).
         chain (iupdate ip s) (\<lambda>(_, s).
         Inr ((n_read, data), touch_atime ip s))))))"

section \<open>Outside an operation\<close>

definition inode_write_nbytes_unlocked ::
  "nat \<Rightarrow> (nat \<Rightarrow> byte) \<Rightarrow> size_t \<Rightarrow> size_t \<Rightarrow> 'a itable_scheme \<Rightarrow> (int \<times> 'a itable_scheme) res" where
  "inode_write_nbytes_unlocked ip data bytes off s =
    chain (begin_op s) (\<lambda>(_, s).
    chain (ilock ip s) (\<lambda>(_, s).
    chain (inode_write_nbytes_locked ip data bytes off s) (\<lambda>(nbytes, s).
    chain (end_op (iunlock ip s)) (\<lambda>(_, s).
    Inr (nbytes, s)))))"

definition inode_read_nbytes_unlocked ::
  "nat \<Rightarrow> (nat \<Rightarrow> byte) \<Rightarrow> size_t \<Rightarrow> size_t \<Rightarrow> 'a itable_scheme \<Rightarrow> ((int \<times> (nat \<Rightarrow> byte)) \<times> 'a itable_scheme) res" where
  "inode_read_nbytes_unlocked ip data bytes off s =
    chain (begin_op s) (\<lambda>(_, s).
    chain (ilock ip s) (\<lambda>(_, s).
    chain (inode_read_nbytes_locked ip data bytes off s) (\<lambda>(r, s).
    chain (end_op (iunlock ip s)) (\<lambda>(_, s).
    Inr (r, s)))))"

section \<open>Status\<close>

text \<open>The fields of \<open>struct stat\<close> the code sets.\<close>

record stat =
  st_mode :: uint
  st_nlink :: size_t
  st_size :: size_t
  st_ino :: uint
  st_blksize :: nat
  st_atim :: timespec
  st_mtim :: timespec
  st_ctim :: timespec

definition S_IFDIR :: uint where "S_IFDIR = 0x4000"
definition S_IFREG :: uint where "S_IFREG = 0x8000"
definition ENOENT :: int where "ENOENT = 2"

definition stat_inode :: "nat \<Rightarrow> stat \<Rightarrow> 'a itable_scheme \<Rightarrow> int \<times> stat" where
  "stat_inode ip st s =
    (let i = it_inode s ip;
         st = st\<lparr>st_nlink := scast (di_nlink i), st_size := di_size i, st_ino := mi_inum i, st_blksize := BSIZE,
           st_atim := di_atime i, st_ctim := di_ctime i, st_mtim := di_mtime i\<rparr>
     in if di_type i = T_DIR then (0, st\<lparr>st_mode := or S_IFDIR (di_perm i)\<rparr>)
        else if di_type i = T_FILE then (0, st\<lparr>st_mode := or S_IFREG (di_perm i)\<rparr>)
        else (- ENOENT, st))"

definition stat_inum :: "uint \<Rightarrow> stat \<Rightarrow> 'a itable_scheme \<Rightarrow> ((int \<times> stat) \<times> 'a itable_scheme) res" where
  "stat_inum inum st s =
    chain (iget inum s) (\<lambda>(ip, s).
    chain (ilock ip s) (\<lambda>(_, s).
    let r = stat_inode ip st s in
    chain (iunlockput ip s) (\<lambda>(_, s).
    Inr (r, s))))"

end
