(* ===== verification/Directory.thy ===== *)
theory Directory
  imports Inode_IO
begin

text \<open>
  \<^verbatim>\<open>src/directory.c\<close>: names, directory entries and paths. A path is the list of its characters
  before the terminating zero; a buffer for a name is a function from offsets to characters, of
  which the code uses the first 60. A pointer to an inode that may be NULL is an option. The checks
  under \<open>DEBUG\<close> are not part of the program modelled here.
\<close>

section \<open>Names\<close>

definition DIRSIZE :: nat where "DIRSIZE = 60"
definition ROOTINO :: uint where "ROOTINO = 1"

type_synonym name = "nat \<Rightarrow> byte"
type_synonym cpath = "byte list"

text \<open>The sign of \<open>strncmp(a + i, b + i, n)\<close>.\<close>

primrec strncmp :: "nat \<Rightarrow> nat \<Rightarrow> name \<Rightarrow> name \<Rightarrow> int" where
  "strncmp 0 i a b = 0"
| "strncmp (Suc n) i a b =
    (if a i \<noteq> b i then (if a i < b i then -1 else 1)
     else if a i = 0 then 0
     else strncmp n (Suc i) a b)"

definition dirnamecmp :: "name \<Rightarrow> name \<Rightarrow> int" where
  "dirnamecmp a b = strncmp DIRSIZE 0 a b"

definition dirnamencpy :: "name \<Rightarrow> name \<Rightarrow> name" where
  "dirnamencpy a b = (\<lambda>j. if j < DIRSIZE then b j else a j)"

text \<open>
  \<open>strcpy\<close> copies up to the first zero; \<open>cap\<close> is the room in the destination, behind which the
  code would write outside it.
\<close>

definition dirnamecpy :: "nat \<Rightarrow> name \<Rightarrow> name \<Rightarrow> name res" where
  "dirnamecpy cap a b =
    (case find_from (\<lambda>j. b j = 0) 0 cap of
       Some k \<Rightarrow> Inr (\<lambda>j. if j \<le> k then b j else a j)
     | None \<Rightarrow> Inl Bad_access)"

text \<open>\<open>strncpy(a, b, n)\<close>: from the first zero of \<open>b\<close> on, zeros.\<close>

definition strncpy :: "nat \<Rightarrow> name \<Rightarrow> name \<Rightarrow> name" where
  "strncpy n a b = (\<lambda>j. if j < n then (if \<exists>k\<in>set [0..<Suc j]. b k = 0 then 0 else b j) else a j)"

section \<open>Directory entries\<close>

text \<open>\<open>struct dirent\<close>: four bytes for the inode number, then the name.\<close>

definition dirent_size :: nat where "dirent_size = 64"

definition de_inum :: "(nat \<Rightarrow> byte) \<Rightarrow> nat \<Rightarrow> uint" where
  "de_inum buf off = get32 buf off"

definition de_name :: "(nat \<Rightarrow> byte) \<Rightarrow> nat \<Rightarrow> name" where
  "de_name buf off = (\<lambda>j. buf (off + 4 + j))"

text \<open>
  The loops over the entries of a directory of \<open>sz\<close> bytes stop at the first entry that satisfies
  \<open>P\<close>. An entry that is not inside the buffer is an access outside it, and the counter is a signed
  32-bit number that must not overflow.
\<close>

function de_find :: "((nat \<Rightarrow> byte) \<Rightarrow> nat \<Rightarrow> bool) \<Rightarrow> nat \<Rightarrow> (nat \<Rightarrow> byte) \<Rightarrow> nat \<Rightarrow> nat res" where
  "de_find P sz buf off =
    (if off < sz then
       if off + dirent_size > sz then Inl Bad_access
       else if P buf off then Inr off
       else if off + dirent_size \<ge> 2 ^ 31 then Inl Bad_access
       else de_find P sz buf (off + dirent_size)
     else Inr off)"
  by pat_completeness auto
termination
  by (relation "measure (\<lambda>(P, sz, buf, off). sz - off)") (auto simp: dirent_size_def)

declare de_find.simps [simp del]

text \<open>The contents of a directory, read into a fresh buffer, with the size the loops compare with.\<close>

definition read_dir :: "string \<Rightarrow> nat \<Rightarrow> 'a itable_scheme \<Rightarrow> ((nat \<Rightarrow> byte) \<times> 'a itable_scheme) res" where
  "read_dir msg dp s =
    chain (inode_read_nbytes_locked dp (\<lambda>_. 0) (di_size (it_inode s dp)) 0 s) (\<lambda>((n, buf), s).
    if word_of_int n \<noteq> di_size (it_inode s dp) then Inl (Err_exit msg) else Inr (buf, s))"

text \<open>\<open>dirlookup\<close> returns the inode with the offset of its entry.\<close>

definition dirlookup :: "nat \<Rightarrow> name \<Rightarrow> 'a itable_scheme \<Rightarrow> ((nat \<times> nat) option \<times> 'a itable_scheme) res" where
  "dirlookup dp name s =
    chain (read_dir ''dirlookup: failed to read dir'' dp s) (\<lambda>(buf, s).
    let sz = unat (di_size (it_inode s dp)) in
    chain (de_find (\<lambda>buf off. de_inum buf off \<noteq> 0 \<and> dirnamecmp (de_name buf off) name = 0) sz buf 0) (\<lambda>off.
    if off < sz then
      chain (iget (de_inum buf off) s) (\<lambda>(ip, s). Inr (Some (ip, off), s))
    else Inr (None, s)))"

text \<open>
  The 64 bytes \<open>dirlink\<close> writes. Without a free entry \<open>de\<close> points to the last entry or to a fresh
  buffer, and all its bytes are overwritten.
\<close>

definition dirent_bytes :: "name \<Rightarrow> uint \<Rightarrow> nat \<Rightarrow> byte" where
  "dirent_bytes name inum = put32 (\<lambda>j. strncpy DIRSIZE (\<lambda>_. 0) name (j - 4)) 0 inum"

definition dirlink :: "nat \<Rightarrow> name \<Rightarrow> uint \<Rightarrow> 'a itable_scheme \<Rightarrow> (int \<times> 'a itable_scheme) res" where
  "dirlink dp name inum s =
    chain (dirlookup dp name s) (\<lambda>(r, s).
    case r of
      Some (ip, _) \<Rightarrow> chain (iput ip s) (\<lambda>(_, s). Inr (-1, s))
    | None \<Rightarrow>
        chain (if di_size (it_inode s dp) \<noteq> 0 then
            chain (read_dir ''dirlink: read failed'' dp s) (\<lambda>(buf, s).
            chain (de_find (\<lambda>buf off. de_inum buf off = 0) (unat (di_size (it_inode s dp))) buf 0) (\<lambda>off.
            Inr (off, s)))
          else Inr (0, s)) (\<lambda>(off, s).
        chain (inode_write_nbytes_locked dp (dirent_bytes name inum) (word_of_nat dirent_size) (word_of_nat off) s) (\<lambda>(n, s).
        if word_of_int n \<noteq> (word_of_nat dirent_size :: size_t) then Inl (Err_exit ''dirlink: write entry failed'')
        else Inr (0, s))))"

section \<open>Paths\<close>

definition slash :: byte where "slash = 0x2F"

text \<open>
  \<open>skipelem\<close> returns the rest of the path and the buffer with the next element, or nothing when the
  path has no element.
\<close>

definition skipelem :: "cpath \<Rightarrow> name \<Rightarrow> (cpath \<times> name) option" where
  "skipelem path name =
    (let path = dropWhile (\<lambda>c. c = slash) path in
     if path = [] then None
     else
       let elem = takeWhile (\<lambda>c. c \<noteq> slash) path;
           path = dropWhile (\<lambda>c. c \<noteq> slash) path;
           len = length elem;
           name = (if len \<ge> DIRSIZE then (\<lambda>j. if j < DIRSIZE then elem ! j else name j)
             else (\<lambda>j. if j < len then elem ! j else name j)(len := 0))
       in Some (dropWhile (\<lambda>c. c = slash) path, name))"

lemma skipelem_shorter:
  assumes "skipelem path name = Some (rest, name')"
  shows "length rest < length path"
proof -
  let ?p = "dropWhile (\<lambda>c. c = slash) path"
  have ne: "?p \<noteq> []" and rest: "rest = dropWhile (\<lambda>c. c = slash) (dropWhile (\<lambda>c. c \<noteq> slash) ?p)"
    using assms by (auto simp: skipelem_def Let_def split: if_splits)
  have "hd ?p \<noteq> slash" using hd_dropWhile[OF ne] by simp
  then have "length (dropWhile (\<lambda>c. c \<noteq> slash) ?p) < length ?p"
    using ne by (cases ?p) (auto simp: le_imp_less_Suc length_dropWhile_le)
  then show ?thesis
    using length_dropWhile_le[of "\<lambda>c. c = slash" "dropWhile (\<lambda>c. c \<noteq> slash) ?p"] length_dropWhile_le[of "\<lambda>c. c = slash" path]
    by (simp add: rest)
qed

text \<open>The pointer \<open>skiptoend\<close> returns is not set when the path has no element.\<close>

function skiptoend_from :: "cpath option \<Rightarrow> cpath \<Rightarrow> name \<Rightarrow> cpath option" where
  "skiptoend_from last_elem path name =
    (case skipelem path name of
       None \<Rightarrow> last_elem
     | Some (elem, name) \<Rightarrow> skiptoend_from (Some elem) elem name)"
  by pat_completeness auto
termination
  by (relation "measure (\<lambda>(last_elem, path, name). length path)") (auto dest: skipelem_shorter)

declare skiptoend_from.simps [simp del]

definition skiptoend :: "cpath \<Rightarrow> cpath option" where
  "skiptoend path = skiptoend_from None path (\<lambda>_. 0)"

text \<open>\<open>ilock\<close> and \<open>iput\<close> on a pointer that may be NULL.\<close>

definition ilock_ptr :: "nat option \<Rightarrow> 'a itable_scheme \<Rightarrow> (unit \<times> 'a itable_scheme) res" where
  "ilock_ptr p s = (case p of None \<Rightarrow> Inl (Err_exit ''ilock got invalid inode'') | Some ip \<Rightarrow> ilock ip s)"

definition iput_ptr :: "nat option \<Rightarrow> 'a itable_scheme \<Rightarrow> (unit \<times> 'a itable_scheme) res" where
  "iput_ptr p s = (case p of None \<Rightarrow> Inl Bad_access | Some ip \<Rightarrow> iput ip s)"

text \<open>The loop of \<open>namex\<close>; it returns the inode and the buffer with the last element.\<close>

function namex_from :: "nat \<Rightarrow> cpath \<Rightarrow> bool \<Rightarrow> name \<Rightarrow> 'a itable_scheme \<Rightarrow> ((nat option \<times> name) \<times> 'a itable_scheme) res" where
  "namex_from ip path parent name s =
    (case skipelem path name of
       None \<Rightarrow>
         if parent then chain (iput ip s) (\<lambda>(_, s). Inr ((None, name), s)) else Inr ((Some ip, name), s)
     | Some (path, name) \<Rightarrow>
         chain (ilock ip s) (\<lambda>(_, s).
         if di_type (it_inode s ip) \<noteq> T_DIR then
           chain (iunlockput ip s) (\<lambda>(_, s). Inr ((None, name), s))
         else if parent \<and> path = [] then Inr ((Some ip, name), iunlock ip s)
         else
           chain (dirlookup ip name s) (\<lambda>(next, s).
           case next of
             None \<Rightarrow> chain (iunlockput ip s) (\<lambda>(_, s). Inr ((None, name), s))
           | Some (ip', _) \<Rightarrow>
               chain (iunlockput ip s) (\<lambda>(_, s). namex_from ip' path parent name s))))"
  by pat_completeness auto
termination
  by (relation "measure (\<lambda>(ip, path, parent, name, s). length path)") (auto dest: skipelem_shorter)

declare namex_from.simps [simp del]

definition namex :: "cpath \<Rightarrow> bool \<Rightarrow> name \<Rightarrow> 'a itable_scheme \<Rightarrow> ((nat option \<times> name) \<times> 'a itable_scheme) res" where
  "namex path parent name s =
    (if path \<noteq> [] \<and> hd path = slash then
       chain (iget ROOTINO s) (\<lambda>(ip, s). namex_from ip path parent name s)
     else Inl (Err_exit ''cwd not implemented''))"

definition path2inode :: "cpath \<Rightarrow> 'a itable_scheme \<Rightarrow> (nat option \<times> 'a itable_scheme) res" where
  "path2inode path s = chain (namex path False (\<lambda>_. 0) s) (\<lambda>((ip, _), s). Inr (ip, s))"

definition path2parentinode :: "cpath \<Rightarrow> name \<Rightarrow> 'a itable_scheme \<Rightarrow> ((nat option \<times> name) \<times> 'a itable_scheme) res" where
  "path2parentinode path name s = namex path True name s"

end
