(* ===== verification/Path_Names.thy ===== *)
theory Path_Names
  imports Directory
begin

text \<open>
  Names and paths of \<^verbatim>\<open>src/directory.c\<close> as strings: comparing names is comparing the strings in the
  buffers, and taking a path apart with \<open>skipelem\<close> yields the parts between its slashes.
\<close>

section \<open>Names as strings\<close>

text \<open>The string in a buffer for a name ends at its first zero or after 60 characters.\<close>

definition cname :: "name \<Rightarrow> byte list" where
  "cname n = takeWhile (\<lambda>c. c \<noteq> 0) (map n [0..<DIRSIZE])"

lemma strncmp_eq:
  "strncmp n i a b = 0 \<longleftrightarrow> takeWhile (\<lambda>c. c \<noteq> 0) (map a [i..<i + n]) = takeWhile (\<lambda>c. c \<noteq> 0) (map b [i..<i + n])"
proof (induction n arbitrary: i)
  case (Suc n)
  have u: "[i..<i + Suc n] = i # [Suc i..<Suc i + n]" by (simp add: upt_rec[of i])
  show ?case unfolding u using Suc[of "Suc i"] by auto
qed simp

lemma dirnamecmp_eq: "dirnamecmp a b = 0 \<longleftrightarrow> cname a = cname b"
  using strncmp_eq[of DIRSIZE 0 a b] by (simp add: dirnamecmp_def cname_def)

text \<open>What \<open>strncpy\<close> stores is the string, padded with zeros.\<close>

lemma upto_set: "(\<exists>j\<in>set [0..<Suc k]. P j) \<longleftrightarrow> (\<exists>j\<le>k. P j)"
  by (simp only: set_upt atLeastLessThanSuc_atLeastAtMost atLeast0AtMost Bex_def atMost_iff)

lemma strncpy_zero: "k < n \<Longrightarrow> strncpy n a b k = 0 \<longleftrightarrow> (\<exists>j\<le>k. b j = 0)"
  unfolding strncpy_def upto_set by auto

lemma strncpy_nonzero: "k < n \<Longrightarrow> \<forall>j\<le>k. b j \<noteq> 0 \<Longrightarrow> strncpy n a b k = b k"
  unfolding strncpy_def upto_set by auto

lemma takeWhile_map_cong:
  assumes "\<And>k. k < n \<Longrightarrow> f k = 0 \<longleftrightarrow> (\<exists>j\<le>k. g j = 0)" "\<And>k. k < n \<Longrightarrow> \<forall>j\<le>k. g j \<noteq> 0 \<Longrightarrow> f k = g k"
  shows "takeWhile (\<lambda>c. c \<noteq> 0) (map f [0..<n]) = takeWhile (\<lambda>c. c \<noteq> (0::byte)) (map g [0..<n])"
  using assms
proof (induction n)
  case (Suc n)
  have IH: "takeWhile (\<lambda>c. c \<noteq> 0) (map f [0..<n]) = takeWhile (\<lambda>c. c \<noteq> 0) (map g [0..<n])" using Suc by simp
  show ?case
  proof (cases "\<forall>j<n. g j \<noteq> 0")
    case True
    then have "\<forall>j<n. f j \<noteq> 0" using Suc.prems(1) by (metis le_less_trans less_SucI)
    moreover have "f n = 0 \<longleftrightarrow> g n = 0" "g n \<noteq> 0 \<Longrightarrow> f n = g n" using Suc.prems(1,2)[of n] True by (auto simp: le_less)
    moreover have "map f [0..<n] = map g [0..<n]" using Suc.prems(2) True by simp
    ultimately show ?thesis using True by (auto simp: takeWhile_append simp del: map_eq_conv)
  next
    case False
    then obtain j where j: "j < n" "g j = 0" by blast
    then have "f j = 0" using Suc.prems(1)[of j] by auto
    then show ?thesis using IH j by (auto simp: takeWhile_append)
  qed
qed simp

lemma cname_strncpy: "cname (strncpy DIRSIZE a b) = cname b"
  unfolding cname_def by (rule takeWhile_map_cong) (auto simp: strncpy_zero strncpy_nonzero)

section \<open>Paths as lists of elements\<close>

fun split_slash :: "cpath \<Rightarrow> cpath list" where
  "split_slash [] = [[]]"
| "split_slash (c # cs) =
    (if c = slash then [] # split_slash cs
     else (case split_slash cs of [] \<Rightarrow> [[c]] | e # es \<Rightarrow> (c # e) # es))"

definition components :: "cpath \<Rightarrow> cpath list" where
  "components path = filter (\<lambda>e. e \<noteq> []) (split_slash path)"

text \<open>The buffer after an element has been copied to it.\<close>

definition store_name :: "cpath \<Rightarrow> name \<Rightarrow> name" where
  "store_name e nm =
    (if length e \<ge> DIRSIZE then (\<lambda>j. if j < DIRSIZE then e ! j else nm j)
     else (\<lambda>j. if j < length e then e ! j else nm j)(length e := 0))"

lemma split_slash_elem:
  "split_slash p = takeWhile (\<lambda>c. c \<noteq> slash) p # (case dropWhile (\<lambda>c. c \<noteq> slash) p of [] \<Rightarrow> [] | _ # q \<Rightarrow> split_slash q)"
  by (induction p) auto

lemma components_slash [simp]: "components (slash # p) = components p" and components_Nil [simp]: "components [] = []"
  by (simp_all add: components_def)

lemma components_slashes: "components (dropWhile (\<lambda>c. c = slash) p) = components p"
  by (induction p) auto

lemma components_elem:
  assumes "p \<noteq> []" "hd p \<noteq> slash"
  shows "components p = takeWhile (\<lambda>c. c \<noteq> slash) p # components (dropWhile (\<lambda>c. c \<noteq> slash) p)"
proof -
  have ne: "takeWhile (\<lambda>c. c \<noteq> slash) p \<noteq> []" using assms by (cases p) auto
  show ?thesis
  proof (cases "dropWhile (\<lambda>c. c \<noteq> slash) p")
    case Nil
    then show ?thesis unfolding components_def[of p] split_slash_elem[of p] Nil using ne by simp
  next
    case (Cons c q)
    then have "c = slash" using hd_dropWhile[of "\<lambda>c. c \<noteq> slash" p] by simp
    then show ?thesis unfolding components_def[of p] split_slash_elem[of p] using ne Cons by (simp add: components_def)
  qed
qed

lemma components_eq_Nil: "components p = [] \<longleftrightarrow> dropWhile (\<lambda>c. c = slash) p = []"
proof -
  let ?q = "dropWhile (\<lambda>c. c = slash) p"
  have "?q \<noteq> [] \<Longrightarrow> components ?q \<noteq> []" using components_elem[of ?q] hd_dropWhile[of "\<lambda>c. c = slash" p] by simp
  moreover have "?q = [] \<Longrightarrow> components ?q = []" by (simp only: components_Nil)
  ultimately show ?thesis using components_slashes[of p] by metis
qed

lemma skipelem_parses:
  "skipelem path nm = (case components path of [] \<Rightarrow> None
    | e # es \<Rightarrow> Some (dropWhile (\<lambda>c. c = slash) (dropWhile (\<lambda>c. c \<noteq> slash) (dropWhile (\<lambda>c. c = slash) path)), store_name e nm))"
proof -
  let ?q = "dropWhile (\<lambda>c. c = slash) path"
  show ?thesis
  proof (cases "?q = []")
    case False
    have "hd ?q \<noteq> slash" using hd_dropWhile[of "\<lambda>c. c = slash" path] False by blast
    note c = components_elem[OF False this, unfolded components_slashes]
    show ?thesis unfolding skipelem_def Let_def c using False by (simp add: store_name_def)
  qed (simp add: skipelem_def components_eq_Nil[THEN iffD2])
qed

text \<open>One step of \<open>skipelem\<close> takes the first element, and leaves the others.\<close>

lemma skipelem_Cons:
  assumes "components path = e # es"
  obtains rest where "skipelem path nm = Some (rest, store_name e nm)" "components rest = es" "rest = [] \<longleftrightarrow> es = []"
proof -
  let ?q = "dropWhile (\<lambda>c. c = slash) path"
  let ?r = "dropWhile (\<lambda>c. c = slash) (dropWhile (\<lambda>c. c \<noteq> slash) ?q)"
  have ne: "?q \<noteq> []" using assms components_eq_Nil[of path] by auto
  have "hd ?q \<noteq> slash" using hd_dropWhile[of "\<lambda>c. c = slash" path] ne by blast
  note c = components_elem[OF ne this, unfolded components_slashes]
  have es: "components ?r = es" using c assms by (simp add: components_slashes)
  have "?r = [] \<longleftrightarrow> es = []" using es components_eq_Nil[of "dropWhile (\<lambda>c. c \<noteq> slash) ?q"] c assms by simp
  then show ?thesis using that es skipelem_parses[of path nm] assms by simp
qed

text \<open>
  C32: skipelem is the first step of splitting a path at its slashes: it finds no element exactly
  when the path has no component, and otherwise stores the first component (cut to 60 bytes) and
  leaves a path with the other components, which is empty exactly when there are none.
\<close>

theorem skipelem_components:
  "case components path of
     [] \<Rightarrow> skipelem path nm = None
   | e # es \<Rightarrow> \<exists>rest. skipelem path nm = Some (rest, store_name e nm) \<and> components rest = es \<and> (rest = [] \<longleftrightarrow> es = [])"
proof (cases "components path")
  case (Cons e es)
  obtain rest where "skipelem path nm = Some (rest, store_name e nm)" "components rest = es" "rest = [] \<longleftrightarrow> es = []"
    by (rule skipelem_Cons[OF Cons])
  then show ?thesis by (simp add: Cons)
qed (simp add: skipelem_parses)

lemma cname_store: "0 \<notin> set e \<Longrightarrow> cname (store_name e nm) = take DIRSIZE e"
proof (cases "length e \<ge> DIRSIZE")
  case True
  assume z: "0 \<notin> set e"
  have m: "map (store_name e nm) [0..<DIRSIZE] = take DIRSIZE e" using True by (intro nth_equalityI) (auto simp: store_name_def)
  show ?thesis unfolding cname_def m using z by (auto simp: takeWhile_eq_all_conv dest: in_set_takeD)
next
  case False
  assume z: "0 \<notin> set e"
  have u: "[0..<DIRSIZE] = [0..<length e] @ length e # [Suc (length e)..<DIRSIZE]"
    using False by (metis upt_conv_Cons le_add_diff_inverse linorder_not_le nat_less_le upt_add_eq_append zero_le)
  have m: "map (store_name e nm) [0..<length e] = e" using False by (intro nth_equalityI) (auto simp: store_name_def)
  have "takeWhile (\<lambda>c. c \<noteq> 0) (e @ 0 # xs) = e" for xs using z by (induction e) auto
  moreover have "store_name e nm (length e) = 0" using False by (simp add: store_name_def)
  ultimately show ?thesis unfolding cname_def u using False by (simp add: m)
qed

lemma skiptoend_from_eq: "skiptoend_from lst path nm = (if components path = [] then lst else Some [])"
proof (induction "components path" arbitrary: lst path nm)
  case Nil
  then show ?case by (subst skiptoend_from.simps) (simp add: skipelem_parses)
next
  case (Cons e es)
  obtain rest where r: "skipelem path nm = Some (rest, store_name e nm)" "components rest = es" "rest = [] \<longleftrightarrow> es = []"
    by (rule skipelem_Cons[OF Cons(2)[symmetric]])
  have "skiptoend_from (Some rest) rest (store_name e nm) = (if components rest = [] then Some rest else Some [])"
    by (rule Cons(1)) (simp add: r)
  then show ?case using r Cons(2)[symmetric] by (subst skiptoend_from.simps) simp
qed

theorem skiptoend_empty: "skiptoend path = (if components path = [] then None else Some [])"
  by (simp add: skiptoend_def skiptoend_from_eq)

end
