(* ===== verification/Inode_Tree.thy ===== *)
theory Inode_Tree
  imports Inode_Map "HOL-Library.Sublist"
begin

text \<open>
  The block map of an inode as a function: the tree of index blocks below the inode, when it is well
  formed, what \<open>imap2blockno\<close> may change in it, and the file as the contents of its blocks. The
  invariant of the tree is what keeps a file's blocks apart from its own index blocks and from
  everything else on the device.
\<close>

section \<open>The tree of blocks below an inode\<close>

text \<open>
  A path is a slot of the inode and the entries taken in the index blocks from there; \<open>node v r\<close>
  is the block it leads to when \<open>v\<close> gives the contents of the blocks and \<open>r\<close> the slots, or 0.
\<close>

type_synonym path = "nat \<times> nat list"

definition depth :: "nat \<Rightarrow> nat" where
  "depth k = (if k < NDIRECT then 0 else Suc (k - NDIRECT))"

definition tree_path :: "path \<Rightarrow> bool" where
  "tree_path p \<longleftrightarrow> fst p < NBLOCKADDR \<and> length (snd p) \<le> depth (fst p) \<and> (\<forall>i\<in>set (snd p). i < NINDIRECT1)"

definition full_path :: "path \<Rightarrow> bool" where
  "full_path p \<longleftrightarrow> tree_path p \<and> length (snd p) = depth (fst p)"

definition child :: "path \<Rightarrow> nat \<Rightarrow> path" where
  "child p i = (fst p, snd p @ [i])"

definition follow :: "(uint \<Rightarrow> block) \<Rightarrow> uint \<Rightarrow> nat \<Rightarrow> uint" where
  "follow v a i = (if a = 0 then 0 else index_entry (v a) i)"

definition node :: "(uint \<Rightarrow> block) \<Rightarrow> (nat \<Rightarrow> uint) \<Rightarrow> path \<Rightarrow> uint" where
  "node v r p = foldl (follow v) (r (fst p)) (snd p)"

lemma node_root [simp]: "node v r (k, []) = r k"
  by (simp add: node_def)

lemma node_child: "node v r (child p i) = follow v (node v r p) i"
  by (simp add: node_def child_def)

lemma tree_path_child: "tree_path (child p i) \<longleftrightarrow> tree_path p \<and> \<not> full_path p \<and> i < NINDIRECT1"
  by (auto simp: tree_path_def full_path_def child_def)

lemma path_cases:
  obtains k where "p = (k, [])" | q i where "p = child q i"
proof (cases p)
  case (Pair k js)
  then show ?thesis using that by (cases js rule: rev_cases) (auto simp: child_def)
qed

lemma path_induct [case_names root child]:
  assumes "\<And>k. P (k, [])" "\<And>p i. P p \<Longrightarrow> P (child p i)"
  shows "P p"
proof (cases p)
  case (Pair k js)
  have "P (k, js)"
  proof (induction js rule: rev_induct)
    case (snoc i js)
    then show ?case using assms(2)[of "(k, js)" i] by (simp add: child_def)
  qed (rule assms(1))
  then show ?thesis using Pair by simp
qed

lemma child_inject [simp]: "child p i = child q j \<longleftrightarrow> p = q \<and> i = j" "child p i \<noteq> (k, [])" "(k, []) \<noteq> child p i"
  by (auto simp: child_def prod_eq_iff)

lemma child_neq [simp]: "child p i \<noteq> p" "p \<noteq> child p i"
  by (auto simp: child_def prod_eq_iff)

definition path_prefix :: "path \<Rightarrow> path \<Rightarrow> bool" where
  "path_prefix p q \<longleftrightarrow> fst p = fst q \<and> prefix (snd p) (snd q)"

lemma path_prefix_refl [simp]: "path_prefix p p"
  by (simp add: path_prefix_def)

lemma path_prefix_trans: "path_prefix p q \<Longrightarrow> path_prefix q r \<Longrightarrow> path_prefix p r"
  using prefix_order.trans by (auto simp: path_prefix_def)

lemma path_prefix_child [simp]: "path_prefix p (child p i)" "\<not> path_prefix (child p i) p"
  by (auto simp: path_prefix_def child_def)

text \<open>Filling one hole of the tree: nothing else changes.\<close>

lemma node_grow_root:
  assumes zero: "r k = 0" and new: "r' = r(k := b)" "v' b = zero_block"
    and same: "\<And>q. tree_path q \<Longrightarrow> node v r q \<noteq> 0 \<Longrightarrow> \<not> full_path q \<Longrightarrow> v' (node v r q) = v (node v r q)"
    and q: "tree_path q"
  shows "node v' r' q = (if q = (k, []) then b else node v r q)"
  using q
proof (induction q rule: path_induct)
  case (root j)
  then show ?case by (simp add: new(1))
next
  case (child p i)
  then have p: "tree_path p" "\<not> full_path p" by (simp_all add: tree_path_child)
  show ?case
  proof (cases "p = (k, [])")
    case True
    then show ?thesis using child.IH p zero new(2) by (simp add: node_child follow_def index_entry_def)
  next
    case False
    then show ?thesis using child.IH p same[OF p(1) _ p(2)] by (simp add: node_child follow_def)
  qed
qed

lemma node_grow_child:
  assumes hole: "node v r (child p i) = 0" "node v r p \<noteq> 0" "tree_path (child p i)"
    and new: "v' (node v r p) = put32 (v (node v r p)) (4 * i) b" "v' b = zero_block"
    and same: "\<And>q. tree_path q \<Longrightarrow> node v r q \<noteq> 0 \<Longrightarrow> \<not> full_path q \<Longrightarrow> q \<noteq> p \<Longrightarrow> v' (node v r q) = v (node v r q)"
    and q: "tree_path q"
  shows "node v' r q = (if q = child p i then b else node v r q)"
  using q
proof (induction q rule: path_induct)
  case (root j)
  then show ?case by simp
next
  case (child w j)
  then have w: "tree_path w" "\<not> full_path w" by (simp_all add: tree_path_child)
  show ?case
  proof (cases "w = child p i")
    case True
    then show ?thesis using child.IH w hole new(2) by (simp add: node_child follow_def index_entry_def)
  next
    case F: False
    show ?thesis
    proof (cases "w = p")
      case True
      have "get32 (put32 d (4 * i) b) (4 * j) = (if j = i then b else get32 d (4 * j))" for d
        by (cases j i rule: linorder_cases) (simp_all add: get_put_le_other)
      then show ?thesis using True F child.IH w hole new(1) by (simp add: node_child follow_def index_entry_def)
    next
      case False
      then show ?thesis using F child.IH w same[OF w(1) _ w(2) False] by (simp add: node_child follow_def)
    qed
  qed
qed

section \<open>A well-formed tree\<close>

text \<open>Every block of the tree is in use, belongs to no other structure, and occurs at one path only.\<close>

definition tree_ok :: "'a itable_scheme \<Rightarrow> nat \<Rightarrow> bool" where
  "tree_ok s ip \<longleftrightarrow>
    (\<forall>p. tree_path p \<and> node (view s) (di_addrs (it_inode s ip)) p \<noteq> 0 \<longrightarrow>
      usable s (node (view s) (di_addrs (it_inode s ip)) p) \<and> bm_bit s (unat (node (view s) (di_addrs (it_inode s ip)) p))) \<and>
    (\<forall>p q. tree_path p \<and> tree_path q \<and> node (view s) (di_addrs (it_inode s ip)) p \<noteq> 0 \<and>
      node (view s) (di_addrs (it_inode s ip)) p = node (view s) (di_addrs (it_inode s ip)) q \<longrightarrow> p = q)"

abbreviation inode_node :: "'a itable_scheme \<Rightarrow> nat \<Rightarrow> path \<Rightarrow> uint" where
  "inode_node s ip \<equiv> node (view s) (di_addrs (it_inode s ip))"

lemma tree_okD:
  assumes "tree_ok s ip" "tree_path p" "inode_node s ip p \<noteq> 0"
  shows "usable s (inode_node s ip p)" "bm_bit s (unat (inode_node s ip p))"
    "tree_path q \<Longrightarrow> inode_node s ip p = inode_node s ip q \<Longrightarrow> p = q"
  using assms unfolding tree_ok_def by blast+

lemma tree_ok_cong:
  assumes ok: "tree_ok s ip" and n: "\<And>q. tree_path q \<Longrightarrow> inode_node s' ip q = inode_node s ip q"
    and us: "usable s' = usable s" and bits: "\<And>j. bm_bit s j \<Longrightarrow> bm_bit s' j"
  shows "tree_ok s' ip"
  unfolding tree_ok_def
proof (intro conjI allI impI; elim conjE)
  fix p assume p: "tree_path p" "inode_node s' ip p \<noteq> 0"
  then have "inode_node s ip p \<noteq> 0" using n by simp
  from tree_okD(1,2)[OF ok p(1) this] show "usable s' (inode_node s' ip p)" "bm_bit s' (unat (inode_node s' ip p))"
    using n[OF p(1)] us bits by simp_all
next
  fix p q assume "tree_path p" "tree_path q" "inode_node s' ip p \<noteq> 0" "inode_node s' ip p = inode_node s' ip q"
  then show "p = q" using tree_okD(3)[OF ok, of p q] n by simp
qed

lemma tree_ok_grow:
  assumes ok: "tree_ok s ip" and p: "tree_path p" "inode_node s ip p = 0"
    and new: "\<And>q. tree_path q \<Longrightarrow> inode_node s' ip q = (if q = p then b else inode_node s ip q)"
    and b: "usable s b" "\<not> bm_bit s (unat b)" and bits: "bm_bit s' = (bm_bit s)(unat b := True)" and us: "usable s' = usable s"
  shows "tree_ok s' ip"
proof -
  have other: "inode_node s ip q \<noteq> b" if "tree_path q" "inode_node s ip q \<noteq> 0" for q
    using tree_okD(2)[OF ok that] b(2) by auto
  have b0: "b \<noteq> 0" using b(1) by (auto simp: usable_def data_block_def)
  show ?thesis
    unfolding tree_ok_def
  proof (intro conjI allI impI; elim conjE)
    fix q assume q: "tree_path q" "inode_node s' ip q \<noteq> 0"
    then show "usable s' (inode_node s' ip q)" "bm_bit s' (unat (inode_node s' ip q))"
      using b(1) tree_okD(1,2)[OF ok q(1)] by (auto simp: new us bits)
  next
    fix q q' assume q: "tree_path q" "tree_path q'" "inode_node s' ip q \<noteq> 0" "inode_node s' ip q = inode_node s' ip q'"
    show "q = q'"
      using q other[of q] other[of q'] tree_okD(3)[OF ok q(1) _ q(2)] by (auto simp: new split: if_splits)
  qed
qed
section \<open>One step of the map\<close>

text \<open>
  What the map may do on the way to \<open>p\<close>: fill holes at prefixes of \<open>p\<close> with fresh blocks. The
  blocks that are in use and are not index blocks of this inode keep their contents.
\<close>

definition imap_ext :: "'a itable_scheme \<Rightarrow> nat \<Rightarrow> path \<Rightarrow> 'a itable_scheme \<Rightarrow> bool" where
  "imap_ext s ip p s' \<longleftrightarrow> held s' = held s \<and> it_frame s' = it_frame s \<and>
    bm_inv s' \<and> bm_ready s' \<and> tree_ok s' ip \<and>
    (\<exists>r. it_inode s' = (it_inode s)(ip := (it_inode s ip)\<lparr>di_addrs := r\<rparr>)) \<and>
    (addrs_ok (it_inode s ip) \<longrightarrow> addrs_ok (it_inode s' ip)) \<and>
    (\<forall>q. tree_path q \<longrightarrow> inode_node s' ip q = inode_node s ip q \<or>
      inode_node s ip q = 0 \<and> path_prefix q p \<and> \<not> bm_bit s (unat (inode_node s' ip q))) \<and>
    (\<forall>j. bm_bit s j \<longrightarrow> bm_bit s' j) \<and>
    (\<forall>c. usable s c \<and> bm_bit s (unat c) \<and> (\<forall>q. tree_path q \<and> inode_node s ip q = c \<longrightarrow> full_path q) \<longrightarrow> view s' c = view s c)"

lemma imap_extD:
  assumes "imap_ext s ip p s'"
  shows "held s' = held s" "it_frame s' = it_frame s" "bm_inv s'" "bm_ready s'" "tree_ok s' ip"
    "\<exists>r. it_inode s' = (it_inode s)(ip := (it_inode s ip)\<lparr>di_addrs := r\<rparr>)"
    "tree_path q \<Longrightarrow> inode_node s ip q \<noteq> 0 \<Longrightarrow> inode_node s' ip q = inode_node s ip q"
    "tree_path q \<Longrightarrow> \<not> path_prefix q p \<Longrightarrow> inode_node s' ip q = inode_node s ip q"
    "tree_path q \<Longrightarrow> inode_node s' ip q = inode_node s ip q \<or> \<not> bm_bit s (unat (inode_node s' ip q))"
    "bm_bit s j \<Longrightarrow> bm_bit s' j"
    "usable s c \<Longrightarrow> bm_bit s (unat c) \<Longrightarrow> (\<And>q. tree_path q \<Longrightarrow> inode_node s ip q = c \<Longrightarrow> full_path q) \<Longrightarrow> view s' c = view s c"
    "addrs_ok (it_inode s ip) \<Longrightarrow> addrs_ok (it_inode s' ip)"
  using assms unfolding imap_ext_def by blast+

lemma imap_ext_refl:
  "bm_inv s \<Longrightarrow> bm_ready s \<Longrightarrow> tree_ok s ip \<Longrightarrow> it_inode s' = it_inode s \<Longrightarrow> view s' = view s \<Longrightarrow> held s' = held s \<Longrightarrow>
    bm_frame s' = bm_frame s \<Longrightarrow> bm_inv s' \<Longrightarrow> bm_ready s' \<Longrightarrow> bm_bit s' = bm_bit s \<Longrightarrow> imap_ext s ip p s'"
  using it_frame_of_bm_frame[of s' s] usable_frame[of s' s]
  by (auto simp: imap_ext_def tree_ok_def intro!: exI[of _ "di_addrs (it_inode s ip)"])

lemma imap_ext_prefix:
  assumes "imap_ext s ip p s'" "path_prefix p p'"
  shows "imap_ext s ip p' s'"
  using assms path_prefix_trans[OF _ assms(2)] unfolding imap_ext_def by blast

lemma imap_ext_trans:
  assumes ok: "tree_ok s ip" and 1: "imap_ext s ip p s1" and 2: "imap_ext s1 ip p s2"
  shows "imap_ext s ip p s2"
proof -
  note a = imap_extD[OF 1] and b = imap_extD[OF 2]
  obtain r1 r2 where r: "it_inode s1 = (it_inode s)(ip := (it_inode s ip)\<lparr>di_addrs := r1\<rparr>)"
    "it_inode s2 = (it_inode s1)(ip := (it_inode s1 ip)\<lparr>di_addrs := r2\<rparr>)" using a(6) b(6) by blast
  have us: "usable s1 = usable s" using it_frameD(2)[OF a(2)] .
  have n1: "inode_node s1 ip q = inode_node s ip q \<or> inode_node s ip q = 0 \<and> path_prefix q p \<and> \<not> bm_bit s (unat (inode_node s1 ip q))"
    if "tree_path q" for q using 1 that unfolding imap_ext_def by blast
  have n2: "inode_node s2 ip q = inode_node s1 ip q \<or> inode_node s1 ip q = 0 \<and> path_prefix q p \<and> \<not> bm_bit s1 (unat (inode_node s2 ip q))"
    if "tree_path q" for q using 2 that unfolding imap_ext_def by blast
  have n: "inode_node s2 ip q = inode_node s ip q \<or> inode_node s ip q = 0 \<and> path_prefix q p \<and> \<not> bm_bit s (unat (inode_node s2 ip q))"
    if q: "tree_path q" for q
    using n1[OF q] n2[OF q] a(10) by metis
  have v: "view s2 c = view s c" if c: "usable s c" "bm_bit s (unat c)" "\<And>q. tree_path q \<Longrightarrow> inode_node s ip q = c \<Longrightarrow> full_path q" for c
  proof -
    have "view s1 c = view s c" by (rule a(11)[OF c])
    moreover have "full_path q" if "tree_path q" "inode_node s1 ip q = c" for q
      using n1[OF that(1)] that c(2,3) by metis
    then have "view s2 c = view s1 c" using b(11)[of c] c(1) a(10)[OF c(2)] us by simp
    ultimately show ?thesis by simp
  qed
  show ?thesis
    unfolding imap_ext_def using a b n v r by (auto intro!: exI[of _ r2])
qed

text \<open>The two ways to fill a hole.\<close>

lemma imap_ext_grow:
  assumes ok: "tree_ok s ip" and inv: "bm_inv s'" "bm_ready s'" and p: "tree_path p" "inode_node s ip p = 0"
    and new: "\<And>q. tree_path q \<Longrightarrow> inode_node s' ip q = (if q = p then b else inode_node s ip q)"
    and b: "usable s b" "\<not> bm_bit s (unat b)" and bits: "bm_bit s' = (bm_bit s)(unat b := True)" and fr: "it_frame s' = it_frame s"
    and h: "held s' = held s" and r: "it_inode s' = (it_inode s)(ip := (it_inode s ip)\<lparr>di_addrs := r\<rparr>)"
    and ad: "addrs_ok (it_inode s ip) \<Longrightarrow> addrs_ok (it_inode s' ip)"
    and vw: "\<And>c. usable s c \<Longrightarrow> c \<noteq> b \<Longrightarrow> (\<And>q. tree_path q \<Longrightarrow> inode_node s ip q = c \<Longrightarrow> full_path q) \<Longrightarrow> view s' c = view s c"
  shows "imap_ext s ip p s'"
proof -
  have "tree_ok s' ip" by (rule tree_ok_grow[OF ok p new b bits it_frameD(2)[OF fr]])
  moreover have "inode_node s' ip q = inode_node s ip q \<or>
      inode_node s ip q = 0 \<and> path_prefix q p \<and> \<not> bm_bit s (unat (inode_node s' ip q))" if "tree_path q" for q
    using new[OF that] p(2) b(2) by auto
  moreover have "view s' c = view s c" if "usable s c" "bm_bit s (unat c)"
    "\<forall>q. tree_path q \<and> inode_node s ip q = c \<longrightarrow> full_path q" for c
    by (rule vw) (use that b(2) in auto)
  ultimately show ?thesis
    unfolding imap_ext_def using inv h fr r bits ad by auto
qed

lemma imap_root_ok:
  assumes ready: "log_ready X s" and inv: "bm_inv s" "bm_ready s" and ok: "tree_ok s ip" and k: "k < NBLOCKADDR"
    and run: "imap_root ip k s = Inr (a, s')"
  shows "imap_ext s ip (k, []) s'" "log_ready X s'" "inode_node s' ip (k, []) = a" "a \<noteq> 0"
    "di_addrs (it_inode s ip) k = 0 \<Longrightarrow> view s' a = zero_block"
proof -
  let ?r = "di_addrs (it_inode s ip)"
  have *: "imap_ext s ip (k, []) s' \<and> log_ready X s' \<and> inode_node s' ip (k, []) = a \<and> a \<noteq> 0 \<and> (?r k = 0 \<longrightarrow> view s' a = zero_block)"
  proof (cases "?r k = 0")
    case False
    then have "s' = s" "a = ?r k" using run by (auto simp: imap_root_def Let_def)
    then show ?thesis using imap_ext_refl[OF inv ok] inv ready False by simp
  next
    case True
    obtain s1 where al: "block_alloc s = Inr (a, s1)" and s': "s' = upd_inode ip (\<lambda>i. i\<lparr>di_addrs := (di_addrs i)(k := a)\<rparr>) s1"
      using run True by (auto simp: imap_root_def Let_def chain_eq_Inr)
    note b = block_alloc_ok[OF ready inv al]
    have st: "held s1 = held s" "bm_frame s1 = bm_frame s" "bm_bit s1 = (bm_bit s)(unat a := True)"
      "\<And>c. usable s c \<Longrightarrow> c \<noteq> a \<Longrightarrow> view s1 c = view s c" using b(4) by (auto simp: alloc_step_def)
    note it = it_frame_of_bm_frame[OF st(2)]
    have p: "tree_path (k, [])" using k by (simp add: tree_path_def)
    have a0: "a \<noteq> 0" using b(6) by (auto simp: usable_def data_block_def)
    have r': "di_addrs (it_inode s' ip) = ?r(k := a)" by (simp add: s' it(2))
    have nd: "inode_node s' ip q = (if q = (k, []) then a else inode_node s ip q)" if "tree_path q" for q
    proof (rule node_grow_root[OF True r' _ _ that])
      show "view s' a = zero_block" using b(7) by (simp add: s')
      fix q assume q: "tree_path q" "inode_node s ip q \<noteq> 0"
      then have "usable s (inode_node s ip q)" "inode_node s ip q \<noteq> a" using tree_okD(1,2)[OF ok q] b(5) by auto
      then show "view s' (inode_node s ip q) = view s (inode_node s ip q)" using st(4) by (simp add: s')
    qed
    have "imap_ext s ip (k, []) s'"
    proof (rule imap_ext_grow[OF ok _ _ p _ nd b(6) b(5)])
      show "bm_inv s'" "bm_ready s'" using b(2,3) by (simp_all add: s')
      show "it_inode s' = (it_inode s)(ip := (it_inode s ip)\<lparr>di_addrs := ?r(k := a)\<rparr>)" by (simp add: s' it(2))
      show "addrs_ok (it_inode s ip) \<Longrightarrow> addrs_ok (it_inode s' ip)" using k by (auto simp: addrs_ok_def r')
    qed (use st it True in \<open>simp_all add: s'\<close>)
    then show ?thesis using b(1,7) nd[OF p] a0 by (simp add: s')
  qed
  then show "imap_ext s ip (k, []) s'" "log_ready X s'" "inode_node s' ip (k, []) = a" "a \<noteq> 0"
    "di_addrs (it_inode s ip) k = 0 \<Longrightarrow> view s' a = zero_block" by auto
qed
text \<open>An entry of a held index block: the block is read, the hole filled, the block logged and released.\<close>

lemma imap_entry_hole:
  assumes ready: "log_ready X s" and inv: "bm_inv s" "bm_ready s" and a: "usable s a" "bm_bit s (unat a)"
    and zero: "index_entry (view s a) i = 0" and run: "imap_entry a i s = Inr (b, s')"
  shows "log_ready X s'" "bm_inv s'" "bm_ready s'" "held s' = held s" "bm_frame s' = bm_frame s"
    "bm_bit s' = (bm_bit s)(unat b := True)" "usable s b" "\<not> bm_bit s (unat b)"
    "view s' a = put32 (view s a) (4 * i) b" "view s' b = zero_block"
    "\<And>c. usable s c \<Longrightarrow> c \<noteq> a \<Longrightarrow> c \<noteq> b \<Longrightarrow> view s' c = view s c"
proof -
  have db: "data_block s a" using a by (simp add: usable_def)
  obtain h s1 where rd: "logged_read a s = Inr (h, s1)" using run by (auto simp: imap_entry_def chain_eq_Inr)
  note 1 = lg.rd_law[OF ready db rd]
  have dat: "buf_data s1 h = view s a" by (rule lg.read_release(1)[OF ready db rd])
  then obtain s2 s3 where al: "block_alloc s1 = Inr (b, s2)"
    and wr: "logged_write h (set_data h (put32 (buf_data s2 h) (4 * i) b) s2) = Inr ((), s3)" and s': "s' = logged_relse h s3"
    using run rd zero by (auto simp: imap_entry_def chain_eq_Inr Let_def)
  have X: "a \<notin> X" using lg.mod_held[OF ready] 1 by blast
  have ready1: "log_ready X s1" using 1 by blast
  have fr1: "bm_frame s1 = bm_frame s" by (rule bm_frame_of_log_frame) (use 1 in blast)
  have same1: "bm_inv s1 = bm_inv s" "bm_ready s1 = bm_ready s" "bm_bit s1 = bm_bit s" using bm_same[of s1 s] 1 by simp_all
  have inv1: "bm_inv s1" "bm_ready s1" using inv same1 by auto
  note b = block_alloc_ok[OF ready1 inv1 al]
  have us1: "usable s1 = usable s" by (rule usable_frame[OF fr1])
  have st: "held s2 = held s1" "bm_frame s2 = bm_frame s1" "bm_bit s2 = (bm_bit s1)(unat b := True)"
    "\<And>c. usable s c \<Longrightarrow> c \<noteq> b \<Longrightarrow> view s2 c = view s1 c" using b(4) by (auto simp: alloc_step_def us1)
  have ab: "a \<noteq> b" using a(2) b(5) same1 by auto
  have h2: "held s2 a = Some h" using st(1) 1 by simp
  have va: "view s2 a = view s a" using st(4)[OF a(1) ab] 1 by simp
  have dat2: "buf_data s2 h = view s a" using lg.held_data[OF b(1) h2] va by simp
  have fr2: "bm_frame s2 = bm_frame s" using st(2) fr1 by simp
  have us2: "usable s2 = usable s" by (rule usable_frame[OF fr2])
  have db2: "data_block s2 a" using a(1) bm_frameD(3)[OF fr2] by (simp add: usable_def)
  note 3 = lg.put_write[OF b(1) X db2 h2 wr]
  have h3: "held s3 a = Some h" using 3(3) h2 by simp
  note 4 = lg.rel_law[OF 3(1) h3 X]
  have lf: "log_frame s' = log_frame s2" using 4 3(4) by (simp add: s')
  have vw: "view s' = (view s2)(a := put32 (view s a) (4 * i) b)" using 4 3(2) by (simp add: s' dat2)
  have "view s' (bm_block s2 j) = view s2 (bm_block s2 j)" if "j < unat (bm_n s2)" for j
    using that a(1) us2 by (auto simp: vw usable_def bm_frameD[OF fr2])
  note same = bm_same[OF lf this]
  show "log_ready X s'" using 4 by (simp add: s')
  show "bm_inv s'" "bm_ready s'" using same b(2,3) by simp_all
  have "(held s)(a := None) = held s" using 1 by (simp add: fun_upd_idem)
  then show "held s' = held s" using 4 3(3) st(1) 1 by (simp add: s')
  show "bm_frame s' = bm_frame s" using bm_frame_of_log_frame[OF lf] fr2 by simp
  show "bm_bit s' = (bm_bit s)(unat b := True)" using same st(3) same1 by simp
  show "usable s b" "\<not> bm_bit s (unat b)" using b(5,6) us1 same1 by simp_all
  show "view s' a = put32 (view s a) (4 * i) b" by (simp add: vw)
  show "view s' b = zero_block" using b(7) ab by (simp add: vw)
  show "view s' c = view s c" if "usable s c" "c \<noteq> a" "c \<noteq> b" for c using st(4)[OF that(1,3)] that(2) 1 by (simp add: vw)
qed

lemma imap_entry_hit:
  assumes ready: "log_ready X s" and a: "data_block s a"
    and hit: "index_entry (view s a) i \<noteq> 0" and run: "imap_entry a i s = Inr (b, s')"
  shows "log_ready X s'" "view s' = view s" "held s' = held s" "log_frame s' = log_frame s" "b = index_entry (view s a) i"
proof -
  obtain h s1 where rd: "logged_read a s = Inr (h, s1)" using run by (auto simp: imap_entry_def chain_eq_Inr)
  note 1 = lg.read_release[OF ready a rd]
  have "s' = logged_relse h s1 \<and> b = index_entry (view s a) i" using run rd hit by (simp add: imap_entry_def 1(1) Let_def)
  then show "log_ready X s'" "view s' = view s" "held s' = held s" "log_frame s' = log_frame s" "b = index_entry (view s a) i"
    using 1 by auto
qed

lemma imap_entry_ok:
  assumes ready: "log_ready X s" and inv: "bm_inv s" "bm_ready s" and ok: "tree_ok s ip"
    and p: "tree_path (child p i)" "inode_node s ip p = a" "a \<noteq> 0" and run: "imap_entry a i s = Inr (b, s')"
  shows "imap_ext s ip (child p i) s'" "log_ready X s'" "inode_node s' ip (child p i) = b" "b \<noteq> 0"
    "inode_node s ip (child p i) = 0 \<Longrightarrow> view s' b = zero_block"
proof -
  have tp: "tree_path p" "\<not> full_path p" using p(1) by (simp_all add: tree_path_child)
  have np: "inode_node s ip p \<noteq> 0" using p by simp
  have a: "usable s a" "bm_bit s (unat a)" using tree_okD(1,2)[OF ok tp(1) np] p(2) by simp_all
  have nd: "inode_node s ip (child p i) = index_entry (view s a) i" using p by (simp add: node_child follow_def)
  have *: "imap_ext s ip (child p i) s' \<and> log_ready X s' \<and> inode_node s' ip (child p i) = b \<and> b \<noteq> 0 \<and>
    (inode_node s ip (child p i) = 0 \<longrightarrow> view s' b = zero_block)"
  proof (cases "index_entry (view s a) i = 0")
    case False
    have "data_block s a" using a by (simp add: usable_def)
    note 1 = imap_entry_hit[OF ready this False run]
    note same = bm_same[OF 1(4) fun_cong[OF 1(2)]] and f = bm_frame_of_log_frame[OF 1(4)]
    have "imap_ext s ip (child p i) s'"
      by (rule imap_ext_refl[OF inv ok it_frame_of_bm_frame(2)[OF f] 1(2,3) f]) (use same inv in auto)
    then show ?thesis using 1 False nd it_frame_of_bm_frame(2)[OF f] by simp
  next
    case True
    note 1 = imap_entry_hole[OF ready inv a True run]
    note it = it_frame_of_bm_frame[OF 1(5)]
    have b0: "b \<noteq> 0" using 1(7) by (auto simp: usable_def data_block_def)
    have hole: "inode_node s ip (child p i) = 0" using nd True by simp
    have up: "view s' (inode_node s ip p) = put32 (view s (inode_node s ip p)) (4 * i) b" using 1(9) p(2) by simp
    have new: "inode_node s' ip q = (if q = child p i then b else inode_node s ip q)" if q: "tree_path q" for q
    proof -
      have "node (view s') (di_addrs (it_inode s ip)) q = (if q = child p i then b else inode_node s ip q)"
      proof (rule node_grow_child[OF hole np p(1) up 1(10) _ q])
        fix w assume w: "tree_path w" "inode_node s ip w \<noteq> 0" "w \<noteq> p"
        then have "usable s (inode_node s ip w)" "bm_bit s (unat (inode_node s ip w))" using tree_okD(1,2)[OF ok w(1,2)] by auto
        moreover have "inode_node s ip w \<noteq> a" using tree_okD(3)[OF ok w(1,2) tp(1)] p(2) w(3) by auto
        ultimately show "view s' (inode_node s ip w) = view s (inode_node s ip w)" using 1(11) 1(8) by metis
      qed
      then show ?thesis by (simp add: it(2))
    qed
    have "imap_ext s ip (child p i) s'"
    proof (rule imap_ext_grow[OF ok 1(2,3) p(1) hole new 1(7,8,6) it(1) 1(4)])
      show "it_inode s' = (it_inode s)(ip := (it_inode s ip)\<lparr>di_addrs := di_addrs (it_inode s ip)\<rparr>)" by (simp add: it(2))
      show "addrs_ok (it_inode s ip) \<Longrightarrow> addrs_ok (it_inode s' ip)" by (simp add: it(2))
      fix c assume c: "usable s c" "c \<noteq> b" "\<And>q. tree_path q \<Longrightarrow> inode_node s ip q = c \<Longrightarrow> full_path q"
      have "c \<noteq> a" using c(3)[OF tp(1)] tp(2) p(2) by auto
      then show "view s' c = view s c" using 1(11) c(1,2) by blast
    qed
    then show ?thesis using 1(1,10) new[OF p(1)] b0 by simp
  qed
  then show "imap_ext s ip (child p i) s'" "log_ready X s'" "inode_node s' ip (child p i) = b" "b \<noteq> 0"
    "inode_node s ip (child p i) = 0 \<Longrightarrow> view s' b = zero_block" by auto
qed
section \<open>The path of a block of the file\<close>

definition block_path :: "nat \<Rightarrow> path" where
  "block_path n =
    (if n < NDIRECT then (n, [])
     else if n - NDIRECT < NINDIRECT1 then (NDIRECT, [n - NDIRECT])
     else let n = n - NDIRECT - NINDIRECT1 in
       if n < NINDIRECT2 then (NDIRECT + 1, [n div NINDIRECT1, n mod NINDIRECT1])
       else let n = n - NINDIRECT2
         in (NDIRECT + 2, [n div NINDIRECT2, n mod NINDIRECT2 div NINDIRECT1, n mod NINDIRECT2 mod NINDIRECT1]))"

lemmas map_sizes = NDIRECT_def NINDIRECT1_def NINDIRECT2_def NINDIRECT3_def MAXFILE_BLOCKS_def NBLOCKADDR_def

lemma full_block_path: "n < MAXFILE_BLOCKS \<Longrightarrow> full_path (block_path n)"
  by (auto simp: block_path_def Let_def full_path_def tree_path_def depth_def map_sizes less_mult_imp_div_less)

lemma block_path_inj: "block_path n = block_path m \<Longrightarrow> n = m"
proof -
  have 1: "n div b = m div b \<Longrightarrow> n mod b = m mod b \<Longrightarrow> n = m" for n m b :: nat by (metis div_mult_mod_eq)
  have 2: "n = m" if "n div (b * c) = m div (b * c)" "n mod (b * c) div c = m mod (b * c) div c"
    "n mod (b * c) mod c = m mod (b * c) mod c" for n m b c :: nat
    using that by (metis 1)
  assume eq: "block_path n = block_path m"
  then show "n = m"
    by (auto simp: block_path_def Let_def NINDIRECT2_def split: if_splits dest!: 1 2)
qed

text \<open>The map goes down the path of the block.\<close>

fun imap_down :: "uint \<Rightarrow> nat list \<Rightarrow> 'a bmap_scheme \<Rightarrow> (uint \<times> 'a bmap_scheme) res" where
  "imap_down a [] s = Inr (a, s)"
| "imap_down a (i # js) s = chain (imap_entry a i s) (\<lambda>(a, s). imap_down a js s)"

lemma chain_pair_id [simp]: "chain m (\<lambda>(a, s). Inr (a, s)) = m"
  by (cases m) auto

lemma imap2blockno_path:
  assumes "unat bno < MAXFILE_BLOCKS"
  shows "imap2blockno ip bno s = chain (assert_no_need_to_restart_op s) (\<lambda>(_, s).
    chain (imap_root ip (fst (block_path (unat bno))) s) (\<lambda>(a, s). imap_down a (snd (block_path (unat bno))) s))"
proof -
  have chk: "check_entry i s = Inr ((), s)" if "i < NINDIRECT1" for i and s :: "'a itable_scheme"
    using that by (simp add: check_entry_def NINDIRECT1_def BSIZE_def)
  have e: "n div NINDIRECT1 < NINDIRECT1" if "n < NINDIRECT2" for n
    using that by (simp add: NINDIRECT2_def less_mult_imp_div_less)
  have e3: "n div NINDIRECT2 < NINDIRECT1" if "n < NINDIRECT3" for n
    using that by (intro less_mult_imp_div_less) (simp add: NINDIRECT3_def NINDIRECT2_def mult.commute)
  have e2: "n mod NINDIRECT2 div NINDIRECT1 < NINDIRECT1" for n
    by (rule e) (simp add: NINDIRECT2_def NINDIRECT1_def)
  have lim: "unat bno - NDIRECT - NINDIRECT1 - NINDIRECT2 < NINDIRECT3" using assms by (simp add: map_sizes)
  let ?n = "unat bno"
  consider "?n < NDIRECT" | "\<not> ?n < NDIRECT" "?n - NDIRECT < NINDIRECT1"
    | "\<not> ?n < NDIRECT" "\<not> ?n - NDIRECT < NINDIRECT1" "?n - NDIRECT - NINDIRECT1 < NINDIRECT2"
    | "\<not> ?n < NDIRECT" "\<not> ?n - NDIRECT < NINDIRECT1" "\<not> ?n - NDIRECT - NINDIRECT1 < NINDIRECT2" by blast
  then show ?thesis
  proof cases
    case 1
    then have p: "block_path ?n = (?n, [])" by (simp add: block_path_def)
    show ?thesis unfolding p fst_conv snd_conv imap_down.simps chain_pair_id
      using 1 by (simp add: imap2blockno_def Let_def cong: if_cong)
  next
    case 2
    then have p: "block_path ?n = (NDIRECT, [?n - NDIRECT])" by (simp add: block_path_def)
    show ?thesis unfolding p fst_conv snd_conv imap_down.simps chain_pair_id
      using 2 by (simp add: imap2blockno_def Let_def cong: if_cong)
  next
    case 3
    let ?m = "?n - NDIRECT - NINDIRECT1"
    have p: "block_path ?n = (NDIRECT + 1, [?m div NINDIRECT1, ?m mod NINDIRECT1])" using 3 by (simp add: block_path_def Let_def)
    have c: "check_entry (?m div NINDIRECT1) = (\<lambda>s. Inr ((), s :: 'a itable_scheme))" using chk[OF e[OF 3(3)]] by blast
    have *: "imap2blockno ip bno s = chain (assert_no_need_to_restart_op s) (\<lambda>(_, s).
      chain (imap_root ip (NDIRECT + 1) s) (\<lambda>(addr, s).
      chain (check_entry (?m div NINDIRECT1) s) (\<lambda>(_, s).
      chain (imap_entry addr (?m div NINDIRECT1) s) (\<lambda>(addr, s).
      imap_entry addr (?m mod NINDIRECT1) s))))"
      unfolding imap2blockno_def Let_def by (simp only: 3 if_True if_False)
    show ?thesis unfolding * p fst_conv snd_conv imap_down.simps chain_pair_id c chain_Inr prod.case by (rule refl)
  next
    case 4
    let ?m = "?n - NDIRECT - NINDIRECT1 - NINDIRECT2"
    have p: "block_path ?n = (NDIRECT + 2, [?m div NINDIRECT2, ?m mod NINDIRECT2 div NINDIRECT1, ?m mod NINDIRECT2 mod NINDIRECT1])"
      using 4 by (simp add: block_path_def Let_def)
    have c: "check_entry (?m div NINDIRECT2) = (\<lambda>s. Inr ((), s :: 'a itable_scheme))"
      "check_entry (?m mod NINDIRECT2 div NINDIRECT1) = (\<lambda>s. Inr ((), s :: 'a itable_scheme))"
      using chk[OF e3[OF lim]] chk[OF e2] by blast+
    have *: "imap2blockno ip bno s = chain (assert_no_need_to_restart_op s) (\<lambda>(_, s).
      chain (imap_root ip (NDIRECT + 2) s) (\<lambda>(addr, s).
      chain (check_entry (?m div NINDIRECT2) s) (\<lambda>(_, s).
      chain (imap_entry addr (?m div NINDIRECT2) s) (\<lambda>(addr, s).
      chain (check_entry (?m mod NINDIRECT2 div NINDIRECT1) s) (\<lambda>(_, s).
      chain (imap_entry addr (?m mod NINDIRECT2 div NINDIRECT1) s) (\<lambda>(addr, s).
      imap_entry addr (?m mod NINDIRECT2 mod NINDIRECT1) s))))))"
      unfolding imap2blockno_def Let_def by (simp only: 4 lim if_True if_False)
    show ?thesis unfolding * p fst_conv snd_conv imap_down.simps chain_pair_id c chain_Inr prod.case by (rule refl)
  qed
qed

lemma imap2blockno_large: "MAXFILE_BLOCKS \<le> unat bno \<Longrightarrow> \<exists>e. imap2blockno ip bno s = Inl e"
  by (cases "assert_no_need_to_restart_op s")
    (auto simp: imap2blockno_def Let_def MAXFILE_BLOCKS_def)

lemma imap_down_ok:
  assumes "log_ready X s" "bm_inv s" "bm_ready s" "tree_ok s ip"
    and "tree_path (fst p, snd p @ js)" "inode_node s ip p = a" "a \<noteq> 0" "imap_down a js s = Inr (b, s')"
  shows "imap_ext s ip (fst p, snd p @ js) s' \<and> log_ready X s' \<and> inode_node s' ip (fst p, snd p @ js) = b \<and> b \<noteq> 0 \<and>
    (inode_node s ip (fst p, snd p @ js) = 0 \<longrightarrow> view s' b = zero_block)"
  using assms
proof (induction js arbitrary: p a s)
  case Nil
  then show ?case using imap_ext_refl[OF Nil.prems(2-4)] by auto
next
  case (Cons i js)
  obtain c s1 where 1: "imap_entry a i s = Inr (c, s1)" and 2: "imap_down c js s1 = Inr (b, s')"
    using Cons.prems(8) by (auto simp: chain_eq_Inr)
  let ?w = "(fst p, snd p @ i # js)"
  have w: "(fst (child p i), snd (child p i) @ js) = ?w" by (simp add: child_def)
  have tw: "tree_path ?w" by (rule Cons.prems(5))
  then have tc: "tree_path (child p i)" by (auto simp: tree_path_def child_def)
  note e = imap_entry_ok[OF Cons.prems(1-4) tc Cons.prems(6,7) 1]
  note x = imap_extD[OF e(1)]
  have d: "imap_ext s1 ip ?w s' \<and> log_ready X s' \<and> inode_node s' ip ?w = b \<and> b \<noteq> 0 \<and> (inode_node s1 ip ?w = 0 \<longrightarrow> view s' b = zero_block)"
    using Cons.IH[OF e(2) x(3-5) _ e(3,4) 2] tw unfolding w by blast
  have pre: "path_prefix (child p i) ?w" by (simp add: path_prefix_def child_def)
  have "imap_ext s ip ?w s'" using imap_ext_trans[OF Cons.prems(4) imap_ext_prefix[OF e(1) pre]] d by blast
  moreover have "view s' b = zero_block" if z: "inode_node s ip ?w = 0"
  proof (cases js)
    case Nil
    then have "?w = child p i" by (simp add: child_def)
    then show ?thesis using z e(5) 2 Nil by simp
  next
    case (Cons j ks)
    then have "\<not> path_prefix ?w (child p i)" by (auto simp: path_prefix_def child_def prefix_def)
    then have "inode_node s1 ip ?w = 0" using x(8)[OF tw] z by simp
    then show ?thesis using d by blast
  qed
  ultimately show ?case using d by blast
qed
section \<open>The map as a function of block numbers\<close>

text \<open>
  The block that holds block \<open>n\<close> of the file, and the contents of the file as a reader sees them:
  a hole reads as zeros. \<open>apart\<close> inodes have no block in common.
\<close>

definition fblock :: "'a itable_scheme \<Rightarrow> nat \<Rightarrow> nat \<Rightarrow> uint" where
  "fblock s ip n = inode_node s ip (block_path n)"

definition fdata :: "'a itable_scheme \<Rightarrow> nat \<Rightarrow> nat \<Rightarrow> block" where
  "fdata s ip n = (if n < MAXFILE_BLOCKS \<and> fblock s ip n \<noteq> 0 then view s (fblock s ip n) else zero_block)"

definition apart :: "'a itable_scheme \<Rightarrow> nat \<Rightarrow> nat \<Rightarrow> bool" where
  "apart s ip jp \<longleftrightarrow> ip \<noteq> jp \<and> (\<forall>p q. tree_path p \<and> tree_path q \<and> inode_node s ip p \<noteq> 0 \<longrightarrow> inode_node s ip p \<noteq> inode_node s jp q)"

lemma apartD: "apart s ip jp \<Longrightarrow> tree_path p \<Longrightarrow> tree_path q \<Longrightarrow> inode_node s ip p \<noteq> 0 \<Longrightarrow> inode_node s ip p \<noteq> inode_node s jp q"
  unfolding apart_def by blast

lemma node_cong:
  assumes "\<And>q. tree_path q \<Longrightarrow> \<not> full_path q \<Longrightarrow> node v r q \<noteq> 0 \<Longrightarrow> v' (node v r q) = v (node v r q)" and "tree_path p"
  shows "node v' r p = node v r p"
  using assms(2)
proof (induction p rule: path_induct)
  case (child p i)
  then show ?case using assms(1)[of p] by (simp add: tree_path_child node_child follow_def)
qed simp

lemma full_block_pathD: "n < MAXFILE_BLOCKS \<Longrightarrow> tree_path (block_path n)"
  using full_block_path by (simp add: full_path_def)

text \<open>Filling holes changes neither the contents of the file nor those of another one.\<close>

lemma imap_ext_other:
  assumes x: "imap_ext s ip p s'" and jp: "tree_ok s jp" "apart s ip jp"
  shows "tree_ok s' jp" "apart s' ip jp" "\<And>q. tree_path q \<Longrightarrow> inode_node s' jp q = inode_node s jp q" "fdata s' jp = fdata s jp"
proof -
  note d = imap_extD[OF x]
  have ne: "jp \<noteq> ip" using jp(2) by (auto simp: apart_def)
  have it: "it_inode s' jp = it_inode s jp" using d(6) ne by auto
  have vw: "view s' (inode_node s jp q) = view s (inode_node s jp q)" if q: "tree_path q" "inode_node s jp q \<noteq> 0" for q
  proof (rule d(11)[OF tree_okD(1,2)[OF jp(1) q]])
    fix w assume "tree_path w" "inode_node s ip w = inode_node s jp q"
    then show "full_path w" using apartD[OF jp(2), of w q] q by auto
  qed
  show nd: "inode_node s' jp q = inode_node s jp q" if "tree_path q" for q
    unfolding it by (rule node_cong[OF _ that]) (rule vw)
  show "tree_ok s' jp" by (rule tree_ok_cong[OF jp(1) nd it_frameD(2)[OF d(2)] d(10)])
  show "apart s' ip jp"
    unfolding apart_def
  proof (intro conjI allI impI; (elim conjE)?)
    fix p q assume pq: "tree_path p" "tree_path q" "inode_node s' ip p \<noteq> 0"
    show "inode_node s' ip p \<noteq> inode_node s' jp q"
    proof (cases "inode_node s' ip p = inode_node s ip p")
      case True
      then show ?thesis using apartD[OF jp(2) pq(1,2)] pq(3) nd[OF pq(2)] by simp
    next
      case False
      then have "\<not> bm_bit s (unat (inode_node s' ip p))" using d(9)[OF pq(1)] by blast
      then show ?thesis using tree_okD(2)[OF jp(1) pq(2)] nd[OF pq(2)] pq(3) by auto
    qed
  qed (use ne in auto)
  show "fdata s' jp = fdata s jp"
    using nd[OF full_block_pathD] vw[OF full_block_pathD] by (auto simp: fdata_def fblock_def fun_eq_iff)
qed

lemma full_prefix: "full_path q \<Longrightarrow> full_path p \<Longrightarrow> path_prefix q p \<Longrightarrow> q = p"
  by (auto simp: full_path_def path_prefix_def prod_eq_iff prefix_def)

lemma imap2blockno_ok:
  assumes ready: "log_ready X s" and inv: "bm_inv s" "bm_ready s" and ok: "tree_ok s ip" and run: "imap2blockno ip bno s = Inr (b, s')"
  shows "unat bno < MAXFILE_BLOCKS" "imap_ext s ip (block_path (unat bno)) s'" "log_ready X s'" "fblock s' ip (unat bno) = b" "b \<noteq> 0"
    "fblock s ip (unat bno) = 0 \<Longrightarrow> view s' b = zero_block"
proof -
  show n: "unat bno < MAXFILE_BLOCKS" using imap2blockno_large[of bno ip s] run by (cases "MAXFILE_BLOCKS \<le> unat bno") auto
  let ?p = "block_path (unat bno)"
  have tp: "tree_path ?p" by (rule full_block_pathD[OF n])
  have k: "fst ?p < NBLOCKADDR" using tp by (simp add: tree_path_def)
  obtain a s1 where 1: "imap_root ip (fst ?p) s = Inr (a, s1)" and 2: "imap_down a (snd ?p) s1 = Inr (b, s')"
    using run unfolding imap2blockno_path[OF n] by (auto simp: chain_eq_Inr assert_no_need_to_restart_op_def split: if_splits)
  note r = imap_root_ok[OF ready inv ok k 1]
  note x = imap_extD[OF r(1)]
  have pe: "(fst (fst ?p, [] :: nat list), snd (fst ?p, [] :: nat list) @ snd ?p) = ?p" by simp
  have pre: "path_prefix (fst ?p, []) ?p" by (simp add: path_prefix_def)
  have d: "imap_ext s1 ip ?p s' \<and> log_ready X s' \<and> inode_node s' ip ?p = b \<and> b \<noteq> 0 \<and> (inode_node s1 ip ?p = 0 \<longrightarrow> view s' b = zero_block)"
    using imap_down_ok[OF r(2) x(3-5) _ r(3,4) 2] tp unfolding pe by blast
  show "imap_ext s ip ?p s'" using imap_ext_trans[OF ok imap_ext_prefix[OF r(1) pre]] d by blast
  show "log_ready X s'" "fblock s' ip (unat bno) = b" "b \<noteq> 0" using d by (simp_all add: fblock_def)
  show "view s' b = zero_block" if z: "fblock s ip (unat bno) = 0"
  proof (cases "snd ?p")
    case Nil
    then have "?p = (fst ?p, [])" by (metis prod.collapse)
    then have "di_addrs (it_inode s ip) (fst ?p) = 0" using z unfolding fblock_def by (metis node_root)
    then show ?thesis using r(5) 2 Nil by simp
  next
    case (Cons j ks)
    then have "\<not> path_prefix ?p (fst ?p, [])" by (simp add: path_prefix_def)
    then have "inode_node s1 ip ?p = 0" using x(8)[OF tp] z by (simp add: fblock_def)
    then show ?thesis using d by blast
  qed
qed

lemma imap2blockno_fdata:
  assumes ready: "log_ready X s" and inv: "bm_inv s" "bm_ready s" and ok: "tree_ok s ip" and run: "imap2blockno ip bno s = Inr (b, s')"
  shows "n < MAXFILE_BLOCKS \<Longrightarrow> fblock s' ip n = (if n = unat bno then b else fblock s ip n)" "fdata s' ip = fdata s ip"
proof -
  note i = imap2blockno_ok[OF assms]
  note x = imap_extD[OF i(2)]
  show f: "fblock s' ip n = (if n = unat bno then b else fblock s ip n)" if n: "n < MAXFILE_BLOCKS" for n
  proof (cases "n = unat bno")
    case False
    then have "\<not> path_prefix (block_path n) (block_path (unat bno))"
      using full_prefix[OF full_block_path[OF n] full_block_path[OF i(1)]] block_path_inj by blast
    then show ?thesis using False x(8)[OF full_block_pathD[OF n]] by (simp add: fblock_def)
  qed (simp add: i)
  have v: "view s' (fblock s ip n) = view s (fblock s ip n)" if n: "n < MAXFILE_BLOCKS" "fblock s ip n \<noteq> 0" for n
  proof -
    have t: "tree_path (block_path n)" "inode_node s ip (block_path n) \<noteq> 0"
      using full_block_pathD[OF n(1)] n(2) by (simp_all add: fblock_def)
    have "view s' (inode_node s ip (block_path n)) = view s (inode_node s ip (block_path n))"
    proof (rule x(11)[OF tree_okD(1,2)[OF ok t]])
      fix q assume "tree_path q" "inode_node s ip q = inode_node s ip (block_path n)"
      then have "q = block_path n" using tree_okD(3)[OF ok t, of q] by simp
      then show "full_path q" using full_block_path[OF n(1)] by simp
    qed
    then show ?thesis by (simp add: fblock_def)
  qed
  have "fdata s' ip n = fdata s ip n" for n
  proof (cases "n < MAXFILE_BLOCKS \<and> fblock s ip n \<noteq> 0")
    case True
    then have "fblock s' ip n = fblock s ip n" using x(7)[OF full_block_pathD, of n] by (simp add: fblock_def)
    then show ?thesis using True v by (simp add: fdata_def)
  next
    case False
    then show ?thesis using f[of n] i(5,6) by (auto simp: fdata_def)
  qed
  then show "fdata s' ip = fdata s ip" by blast
qed

text \<open>
  C14: imap2blockno implements growing the block list of a file: it returns the block of the
  number asked for, which is the old block or one that was free, the list of blocks changes at
  most there, the contents of this file and of every other file that shares no block with it stay
  the same, and the tree of index blocks is well formed again.
\<close>

theorem imap2blockno_refines:
  assumes "log_ready X s" "bm_inv s" "bm_ready s" "tree_ok s ip" "imap2blockno ip bno s = Inr (b, s')"
  shows "unat bno < MAXFILE_BLOCKS \<and> b \<noteq> 0 \<and> fdata s' ip = fdata s ip \<and>
    (\<forall>n<MAXFILE_BLOCKS. fblock s' ip n = (if n = unat bno then b else fblock s ip n)) \<and>
    (if fblock s ip (unat bno) = 0 then \<not> bm_bit s (unat b) else b = fblock s ip (unat bno)) \<and>
    log_ready X s' \<and> bm_inv s' \<and> bm_ready s' \<and> tree_ok s' ip \<and> held s' = held s \<and>
    (\<forall>jp. tree_ok s jp \<and> apart s ip jp \<longrightarrow> tree_ok s' jp \<and> apart s' ip jp \<and> fdata s' jp = fdata s jp)"
proof -
  note i = imap2blockno_ok[OF assms] and f = imap2blockno_fdata[OF assms]
  note x = imap_extD[OF i(2)]
  have "if fblock s ip (unat bno) = 0 then \<not> bm_bit s (unat b) else b = fblock s ip (unat bno)"
    using x(9)[OF full_block_pathD[OF i(1)]] x(7)[OF full_block_pathD[OF i(1)]] i(4,5) by (auto simp: fblock_def)
  then show ?thesis using i f x imap_ext_other[OF i(2)] by blast
qed

section \<open>What mapping a block costs, and that it succeeds\<close>

lemma logged_as_frame: "bcache.more s' = bcache.more s \<Longrightarrow> logged_as s s' 0"
  using log_fields_more[of s' s] by (simp add: logged_as_def)

lemma logged_read_more: "log_ready X s \<Longrightarrow> data_block s b \<Longrightarrow> logged_read b s = Inr (h, s') \<Longrightarrow> bcache.more s' = bcache.more s"
  unfolding logged_read_def using bc.rd_law[OF log_readyD(1) data_block_inrange, of X s b h s'] by blast

lemma logged_relse_more [simp]: "bcache.more (logged_relse h s) = bcache.more s"
  by (simp add: logged_relse_def)

lemma logged_write_as:
  assumes "log_ready X s" "held s b = Some h" "data_block s b" "logged_write h s = Inr ((), s')"
  shows "logged_as s s' 1"
  using logged_write_ok[OF assms] logged_write_count[OF assms(4)] by (simp add: logged_as_def)

lemma imap_root_cost:
  assumes "log_ready X s" "bm_inv s" "bm_ready s" "imap_root ip k s = Inr (a, s')"
  shows "logged_as s s' (if di_addrs (it_inode s ip) k = 0 then 2 else 0)"
proof (cases "di_addrs (it_inode s ip) k = 0")
  case True
  then obtain s1 where "block_alloc s = Inr (a, s1)" "n_log_wrote s' = n_log_wrote s1" "lh_n s' = lh_n s1"
    using assms(4) by (auto simp: imap_root_def Let_def chain_eq_Inr)
  then show ?thesis using block_alloc_logged_as[OF assms(1-3)] True by (simp add: logged_as_def)
next
  case False
  then show ?thesis using assms(4) by (auto simp: imap_root_def Let_def logged_as_def)
qed

lemma imap_entry_cost:
  assumes ready: "log_ready X s" and inv: "bm_inv s" "bm_ready s" and a: "usable s a" "bm_bit s (unat a)"
    and run: "imap_entry a i s = Inr (b, s')"
  shows "logged_as s s' (if index_entry (view s a) i = 0 then 3 else 0)"
proof -
  have db: "data_block s a" using a by (simp add: usable_def)
  obtain h s1 where rd: "logged_read a s = Inr (h, s1)" using run by (auto simp: imap_entry_def chain_eq_Inr)
  note 1 = lg.rd_law[OF ready db rd]
  have dat: "buf_data s1 h = view s a" by (rule lg.read_release(1)[OF ready db rd])
  have l1: "logged_as s s1 0" by (rule logged_as_frame[OF logged_read_more[OF ready db rd]])
  show ?thesis
  proof (cases "index_entry (view s a) i = 0")
    case False
    then have "s' = logged_relse h s1" using run rd by (simp add: imap_entry_def Let_def dat)
    then show ?thesis using False logged_as_trans[OF l1 logged_as_frame[of "logged_relse h s1" s1]] by simp
  next
    case True
    obtain s2 s3 where al: "block_alloc s1 = Inr (b, s2)"
      and wr: "logged_write h (set_data h (put32 (buf_data s2 h) (4 * i) b) s2) = Inr ((), s3)" and s': "s' = logged_relse h s3"
      using run rd True by (auto simp: imap_entry_def chain_eq_Inr Let_def dat)
    have ready1: "log_ready X s1" using 1 by blast
    have fr1: "bm_frame s1 = bm_frame s" by (rule bm_frame_of_log_frame) (use 1 in blast)
    have "bm_inv s1 = bm_inv s" "bm_ready s1 = bm_ready s" using bm_same[of s1 s] 1 by simp_all
    then have inv1: "bm_inv s1" "bm_ready s1" using inv by auto
    note b = block_alloc_ok[OF ready1 inv1 al]
    have st: "held s2 = held s1" "bm_frame s2 = bm_frame s1" using b(4) by (auto simp: alloc_step_def)
    let ?t = "set_data h (put32 (buf_data s2 h) (4 * i) b) s2"
    have h2: "held s2 a = Some h" using st(1) 1 by simp
    note p = logged_put_ok[OF b(1) h2, of "put32 (buf_data s2 h) (4 * i) b"]
    have "data_block s2 a" using db bm_frameD(3)[OF fr1] bm_frameD(3)[OF st(2)] by simp
    then have dt: "data_block ?t a" using p data_block_frame by metis
    have rt: "log_ready (insert a X) ?t" "held ?t a = Some h" using p h2 by auto
    have t0: "logged_as s2 ?t 0" by (rule logged_as_frame) simp
    note c = logged_as_trans[OF logged_as_trans[OF logged_as_trans[OF l1 block_alloc_logged_as[OF ready1 inv1 al]] t0]
        logged_write_as[OF rt dt wr]]
    have "logged_as s3 s' 0" unfolding s' by (rule logged_as_frame) simp
    note d = logged_as_trans[OF c this]
    have "0 + 2 + 0 + 1 + 0 = (3 :: nat)" by simp
    then show ?thesis using d unfolding True by (simp only: refl if_True)
  qed
qed
definition holes :: "'a itable_scheme \<Rightarrow> nat \<Rightarrow> path \<Rightarrow> nat list \<Rightarrow> nat" where
  "holes s ip p js = (\<Sum>j<length js. if inode_node s ip (fst p, snd p @ take (Suc j) js) = 0 then 1 else 0)"

lemma holes_Cons:
  "holes s ip p (i # js) = (if inode_node s ip (child p i) = 0 then 1 else 0) + holes s ip (child p i) js"
  by (simp add: holes_def sum.lessThan_Suc_shift child_def del: sum.lessThan_Suc)

lemma holes_le: "holes s ip p js \<le> length js"
proof -
  have "holes s ip p js \<le> (\<Sum>j<length js. 1)" unfolding holes_def by (rule sum_mono) simp
  then show ?thesis by simp
qed

text \<open>Filling a hole does not change which of the deeper entries are holes.\<close>

lemma holes_ext:
  assumes x: "imap_ext s ip p s'" and t: "tree_path (fst p, snd p @ js)"
  shows "holes s' ip p js = holes s ip p js"
  unfolding holes_def
proof (rule sum.cong[OF refl])
  fix j assume j: "j \<in> {..<length js}"
  let ?q = "(fst p, snd p @ take (Suc j) js)"
  have "set (take (Suc j) js) \<subseteq> set js" by (rule set_take_subset)
  then have tq: "tree_path ?q" using t j unfolding tree_path_def by auto
  have "\<not> path_prefix ?q p" using j by (auto simp: path_prefix_def prefix_def)
  then have "inode_node s' ip ?q = inode_node s ip ?q" by (rule imap_extD(8)[OF x tq])
  then show "(if inode_node s' ip ?q = 0 then 1 else 0) = (if inode_node s ip ?q = 0 then 1 else (0::nat))" by simp
qed

lemma imap_down_cost:
  assumes "log_ready X s" "bm_inv s" "bm_ready s" "tree_ok s ip"
    and "tree_path (fst p, snd p @ js)" "inode_node s ip p = a" "a \<noteq> 0" "imap_down a js s = Inr (b, s')"
  shows "logged_as s s' (3 * holes s ip p js)"
  using assms
proof (induction js arbitrary: p a s)
  case Nil
  then show ?case by (simp add: logged_as_def holes_def)
next
  case (Cons i js)
  obtain c s1 where 1: "imap_entry a i s = Inr (c, s1)" and 2: "imap_down c js s1 = Inr (b, s')"
    using Cons.prems(8) by (auto simp: chain_eq_Inr)
  have w: "(fst (child p i), snd (child p i) @ js) = (fst p, snd p @ i # js)" by (simp add: child_def)
  have tc: "tree_path (child p i)" using Cons.prems(5) by (auto simp: tree_path_def child_def)
  then have tp: "tree_path p" by (simp add: tree_path_child)
  have tw: "tree_path (fst (child p i), snd (child p i) @ js)" unfolding w by (rule Cons.prems(5))
  note e = imap_entry_ok[OF Cons.prems(1-4) tc Cons.prems(6,7) 1]
  note x = imap_extD[OF e(1)]
  have np: "inode_node s ip p \<noteq> 0" using Cons.prems(6,7) by simp
  have a: "usable s a" "bm_bit s (unat a)" using tree_okD(1,2)[OF Cons.prems(4) tp np] Cons.prems(6) by simp_all
  have nd: "inode_node s ip (child p i) = index_entry (view s a) i" using Cons.prems(6,7) by (simp add: node_child follow_def)
  have c1: "logged_as s s1 (if inode_node s ip (child p i) = 0 then 3 else 0)"
    unfolding nd by (rule imap_entry_cost[OF Cons.prems(1-3) a 1])
  have c2: "logged_as s1 s' (3 * holes s1 ip (child p i) js)"
    by (rule Cons.IH[OF e(2) x(3-5) tw e(3,4) 2])
  have "holes s1 ip (child p i) js = holes s ip (child p i) js" by (rule holes_ext[OF e(1) tw])
  then show ?case using logged_as_trans[OF c1 c2] by (simp add: holes_Cons split: if_splits)
qed

lemma imap2blockno_cost:
  assumes "log_ready X s" "bm_inv s" "bm_ready s" "tree_ok s ip" "imap2blockno ip bno s = Inr (b, s')"
  shows "logged_as s s' ((if di_addrs (it_inode s ip) (fst (block_path (unat bno))) = 0 then 2 else 0) +
    3 * holes s ip (fst (block_path (unat bno)), []) (snd (block_path (unat bno))))"
proof -
  note i = imap2blockno_ok[OF assms]
  let ?p = "block_path (unat bno)"
  have tp: "tree_path ?p" by (rule full_block_pathD[OF i(1)])
  have k: "fst ?p < NBLOCKADDR" using tp by (simp add: tree_path_def)
  obtain a s1 where 1: "imap_root ip (fst ?p) s = Inr (a, s1)" and 2: "imap_down a (snd ?p) s1 = Inr (b, s')"
    using assms(5) unfolding imap2blockno_path[OF i(1)] by (auto simp: chain_eq_Inr assert_no_need_to_restart_op_def split: if_splits)
  note r = imap_root_ok[OF assms(1-4) k 1]
  note x = imap_extD[OF r(1)]
  have tw: "tree_path (fst (fst ?p, [] :: nat list), snd (fst ?p, [] :: nat list) @ snd ?p)" using tp by simp
  have "holes s1 ip (fst ?p, []) (snd ?p) = holes s ip (fst ?p, []) (snd ?p)" by (rule holes_ext[OF r(1) tw])
  then show ?thesis
    using logged_as_trans[OF imap_root_cost[OF assms(1-3) 1] imap_down_cost[OF r(2) x(3-5) tw r(3,4) 2]] by simp
qed

lemma node_append: "node v r (k, js @ ks) = foldl (follow v) (node v r (k, js)) ks"
  by (simp add: node_def)

lemma follow_zero [simp]: "foldl (follow v) 0 js = 0"
  by (induction js) (simp_all add: follow_def)

lemma holes_none: "inode_node s ip (k, js) \<noteq> 0 \<Longrightarrow> di_addrs (it_inode s ip) k \<noteq> 0 \<and> holes s ip (k, []) js = 0"
proof -
  assume nz: "inode_node s ip (k, js) \<noteq> 0"
  have "inode_node s ip (k, take j js) \<noteq> 0" for j
  proof
    assume "inode_node s ip (k, take j js) = 0"
    then have "inode_node s ip (k, take j js @ drop j js) = 0" by (simp only: node_append follow_zero)
    then show False using nz by simp
  qed
  from this[of 0] this show ?thesis by (simp add: holes_def)
qed

lemma holes_all: "di_addrs (it_inode s ip) k = 0 \<Longrightarrow> holes s ip (k, []) js = length js"
proof -
  assume "di_addrs (it_inode s ip) k = 0"
  then have "inode_node s ip (k, js) = 0" for js by (simp add: node_def)
  then show ?thesis by (simp add: holes_def)
qed

lemma imap_cost:
  assumes "log_ready X s" "bm_inv s" "bm_ready s" "tree_ok s ip" "imap2blockno ip bno s = Inr (b, s')"
  shows "(\<exists>n\<le>11. logged_as s s' n) \<and>
    (fblock s ip (unat bno) \<noteq> 0 \<longrightarrow> logged_as s s' 0) \<and>
    (NDIRECT + NINDIRECT1 + NINDIRECT2 \<le> unat bno \<and> di_addrs (it_inode s ip) (NDIRECT + 2) = 0 \<longrightarrow> logged_as s s' 11)"
proof -
  let ?p = "block_path (unat bno)"
  let ?n = "(if di_addrs (it_inode s ip) (fst ?p) = 0 then 2 else 0) + 3 * holes s ip (fst ?p, []) (snd ?p)"
  have c: "logged_as s s' ?n" by (rule imap2blockno_cost[OF assms])
  have "length (snd ?p) \<le> 3" by (simp add: block_path_def Let_def)
  then have "?n \<le> 11" using holes_le[of s ip "(fst ?p, [])" "snd ?p"] by simp
  moreover have "logged_as s s' 0" if "fblock s ip (unat bno) \<noteq> 0"
  proof -
    have "inode_node s ip (fst ?p, snd ?p) \<noteq> 0" using that by (simp add: fblock_def)
    from holes_none[OF this] show ?thesis using c by simp
  qed
  moreover have "logged_as s s' 11" if z: "NDIRECT + NINDIRECT1 + NINDIRECT2 \<le> unat bno" "di_addrs (it_inode s ip) (NDIRECT + 2) = 0"
  proof -
    have "\<not> unat bno < NDIRECT" "\<not> unat bno - NDIRECT < NINDIRECT1" "\<not> unat bno - NDIRECT - NINDIRECT1 < NINDIRECT2"
      using z(1) unfolding NINDIRECT2_def NINDIRECT1_def by linarith+
    then have p: "fst ?p = NDIRECT + 2" "length (snd ?p) = 3" by (simp_all add: block_path_def Let_def)
    have "?n = 11" unfolding p(1) using z(2) holes_all[OF z(2), of "snd ?p"] p(2) by simp
    then show ?thesis using c by simp
  qed
  ultimately show ?thesis using c by blast
qed

text \<open>
  C34: mapping a block of a file makes at most eleven writes to the log, none when the block
  exists, and exactly eleven for the first block of the triply indirect tree.
\<close>

theorem imap_log_cost:
  assumes "log_ready X s" "bm_inv s" "bm_ready s" "tree_ok s ip" "imap2blockno ip bno s = Inr (b, s')"
  shows "(\<exists>n\<le>11. logged_as s s' n) \<and>
    (fblock s ip (unat bno) \<noteq> 0 \<longrightarrow> logged_as s s' 0) \<and>
    (NDIRECT + NINDIRECT1 + NINDIRECT2 \<le> unat bno \<and> di_addrs (it_inode s ip) (NDIRECT + 2) = 0 \<longrightarrow> logged_as s s' 11)"
  by (rule imap_cost[OF assms])

text \<open>Enough free blocks and room in the log make every step return.\<close>

lemma two_free:
  assumes "2 \<le> card (free_blocks s)"
  obtains c e where "c \<in> free_blocks s" "e \<in> free_blocks s" "c \<noteq> e"
proof -
  obtain T where T: "T \<subseteq> free_blocks s" "card T = 2" using obtain_subset_with_card_n[OF assms] by blast
  then obtain c e where "T = {c, e}" "c \<noteq> e" by (auto simp: card_2_iff)
  then show ?thesis using that T(1) by auto
qed

definition room :: "nat \<Rightarrow> nat \<Rightarrow> 'a bmap_scheme \<Rightarrow> bool" where
  "room n m s \<longleftrightarrow> lh_n s + int n \<le> lg_size s - 1 \<and> 1 \<le> lg_outstanding s \<and> m \<le> card (free_blocks s)"

lemma free_blocks_grow:
  assumes "bm_n s' = bm_n s" "bm_bit s' = (bm_bit s)(unat (b :: uint) := True)" "m \<le> card (free_blocks s)"
  shows "m - 1 \<le> card (free_blocks s')"
proof -
  have "free_blocks s - {b} \<subseteq> free_blocks s'" using assms(1,2) by (auto simp: free_blocks_def word_unat_eq_iff)
  then have "card (free_blocks s - {b}) \<le> card (free_blocks s')" by (intro card_mono) auto
  moreover have "card (free_blocks s) - 1 \<le> card (free_blocks s - {b})" by (simp add: card_Diff_singleton_if)
  ultimately show ?thesis using assms(3) by simp
qed

lemma imap_root_returns:
  assumes ready: "log_ready {} s" "held s = Map.empty" and inv: "bm_inv s" "bm_ready s" and rm: "room (n + 2) (Suc m) s" "1 \<le> m"
  obtains a s' where "imap_root ip k s = Inr (a, s')" "room n m s'"
proof (cases "di_addrs (it_inode s ip) k = 0")
  case False
  then show ?thesis by (intro that[of "di_addrs (it_inode s ip) k" s]) (use rm in \<open>simp_all add: imap_root_def Let_def room_def\<close>)
next
  case True
  have "2 \<le> card (free_blocks s)" using rm by (simp add: room_def)
  then obtain c e where ce: "c \<in> free_blocks s" "e \<in> free_blocks s" "c \<noteq> e" by (rule two_free)
  have r: "lh_n s + 2 \<le> lg_size s - 1" "1 \<le> lg_outstanding s" using rm by (simp_all add: room_def)
  obtain a s1 where al: "block_alloc s = Inr (a, s1)" "lh_n s1 \<le> lh_n s + 2"
    using block_alloc_returns[OF ready(1) few_held_empty[OF ready(2)] held_used_empty[OF ready(2)] inv r ce] by blast
  have st: "bm_frame s1 = bm_frame s" "bm_bit s1 = (bm_bit s)(unat a := True)"
    using block_alloc_ok(4)[OF ready(1) inv al(1)] by (simp_all add: alloc_step_def)
  have "lg_size s1 = lg_size s" "lg_outstanding s1 = lg_outstanding s" using st(1) by (simp_all add: bm_frame_def)
  moreover have "m \<le> card (free_blocks s1)" using free_blocks_grow[OF bm_frameD(1)[OF st(1)] st(2), of "Suc m"] rm by (simp add: room_def)
  ultimately have rm1: "room n m s1" using rm al(2) by (simp add: room_def)
  let ?s = "upd_inode ip (\<lambda>i. i\<lparr>di_addrs := (di_addrs i)(k := a)\<rparr>) s1"
  have "free_blocks ?s = free_blocks s1" by (simp add: free_blocks_def)
  then have "room n m ?s" using rm1 by (simp add: room_def)
  then show ?thesis by (intro that[of a ?s]) (simp_all add: imap_root_def Let_def True al(1))
qed

lemma imap_entry_returns:
  assumes ready: "log_ready {} s" "held s = Map.empty" and inv: "bm_inv s" "bm_ready s" and rm: "room (n + 3) (Suc m) s" "1 \<le> m"
    and a: "usable s a" "bm_bit s (unat a)"
  obtains b s' where "imap_entry a i s = Inr (b, s')" "room n m s'"
proof -
  have db: "data_block s a" using a by (simp add: usable_def)
  obtain h s1 where rd: "logged_read a s = Inr (h, s1)"
    using logged_read_returns[OF ready(1) _ db] ready(2) by auto
  note 1 = lg.rd_law[OF ready(1) db rd]
  have dat: "buf_data s1 h = view s a" by (rule lg.read_release(1)[OF ready(1) db rd])
  have l1: "lh_n s1 = lh_n s" using log_fields_more[OF logged_read_more[OF ready(1) db rd]] by simp
  have ready1: "log_ready {} s1" using 1 by blast
  have fr1: "bm_frame s1 = bm_frame s" by (rule bm_frame_of_log_frame) (use 1 in blast)
  have same1: "bm_inv s1 = bm_inv s" "bm_ready s1 = bm_ready s" "bm_bit s1 = bm_bit s" "usable s1 = usable s"
    using bm_same[of s1 s] 1 by (auto simp: fun_eq_iff)
  have inv1: "bm_inv s1" "bm_ready s1" using inv same1 by auto
  have lg1: "lg_size s1 = lg_size s" "lg_outstanding s1 = lg_outstanding s" using fr1 by (simp_all add: bm_frame_def)
  have free1: "free_blocks s1 = free_blocks s" by (simp add: free_blocks_def same1 bm_frameD(1)[OF fr1])
  show ?thesis
  proof (cases "index_entry (view s a) i = 0")
    case False
    have run: "imap_entry a i s = Inr (index_entry (view s a) i, logged_relse h s1)"
      using False by (simp add: imap_entry_def rd Let_def dat)
    note 2 = imap_entry_hit[OF ready(1) db False run]
    have f: "bm_frame (logged_relse h s1) = bm_frame s" by (rule bm_frame_of_log_frame[OF 2(4)])
    have "bm_bit (logged_relse h s1) = bm_bit s" using bm_same(3)[OF 2(4)] 2(2) by simp
    then have "free_blocks (logged_relse h s1) = free_blocks s" by (simp add: free_blocks_def bm_frameD(1)[OF f])
    moreover have "lh_n (logged_relse h s1) = lh_n s" using log_fields_more[of "logged_relse h s1" s1] l1 by simp
    moreover have "lg_size (logged_relse h s1) = lg_size s" "lg_outstanding (logged_relse h s1) = lg_outstanding s"
      using f by (simp_all add: bm_frame_def)
    ultimately have "room n m (logged_relse h s1)" using rm by (simp add: room_def)
    then show ?thesis by (rule that[OF run])
  next
    case True
    have "2 \<le> card (free_blocks s1)" using rm free1 by (simp add: room_def)
    then obtain c e where ce: "c \<in> free_blocks s1" "e \<in> free_blocks s1" "c \<noteq> e" by (rule two_free)
    have h1: "held s1 = [a \<mapsto> h]" using 1 ready(2) by simp
    have hu: "held_used s1" using a by (simp add: held_used_def h1 same1)
    have r: "lh_n s1 + 2 \<le> lg_size s1 - 1" "1 \<le> lg_outstanding s1" using rm by (simp_all add: room_def l1 lg1)
    obtain b s2 where al: "block_alloc s1 = Inr (b, s2)" "lh_n s2 \<le> lh_n s1 + 2"
      using block_alloc_returns[OF ready1 few_held_one[OF h1] hu inv1 r ce] by blast
    have fr2: "bm_frame s2 = bm_frame s1" using block_alloc_ok(4)[OF ready1 inv1 al(1)] by (simp add: alloc_step_def)
    let ?t = "set_data h (put32 (buf_data s2 h) (4 * i) b) s2"
    have mt: "bcache.more ?t = bcache.more s2" by simp
    have lt: "lh_n ?t \<le> lh_n s + 2" "lg_size ?t = lg_size s" "lg_outstanding ?t = lg_outstanding s"
      using log_fields_more[OF mt] al(2) l1 fr2 lg1 by (simp_all add: bm_frame_def)
    have "lg_size s \<le> int NLOG" using log_readyD(3)[OF ready(1)] by (simp add: geom_def)
    then obtain s3 where wr: "logged_write h ?t = Inr ((), s3)"
      using logged_write_returns[of ?t h] lt rm by (auto simp: room_def)
    have run: "imap_entry a i s = Inr (b, logged_relse h s3)"
      using True by (simp add: imap_entry_def rd Let_def dat al(1) wr)
    note 2 = imap_entry_hole[OF ready(1) inv a True run]
    have "lh_n (logged_relse h s3) \<le> lh_n s + 3"
      using imap_entry_cost[OF ready(1) inv a run] True by (simp add: logged_as_def)
    moreover have "lg_size (logged_relse h s3) = lg_size s" "lg_outstanding (logged_relse h s3) = lg_outstanding s"
      using 2(5) by (simp_all add: bm_frame_def)
    moreover have "m \<le> card (free_blocks (logged_relse h s3))"
      using free_blocks_grow[OF bm_frameD(1)[OF 2(5)] 2(6), of "Suc m"] rm by (simp add: room_def)
    ultimately have "room n m (logged_relse h s3)" using rm by (simp add: room_def)
    then show ?thesis by (rule that[OF run])
  qed
qed

lemma imap_down_returns:
  assumes "log_ready {} s" "held s = Map.empty" "bm_inv s" "bm_ready s" "tree_ok s ip"
    and "tree_path (fst p, snd p @ js)" "inode_node s ip p = a" "a \<noteq> 0" "room (n + 3 * length js) (m + length js) s" "1 \<le> m"
  shows "\<exists>b s'. imap_down a js s = Inr (b, s') \<and> room n m s'"
  using assms
proof (induction js arbitrary: p a s)
  case (Cons i js)
  have tc: "tree_path (child p i)" using Cons.prems(6) by (auto simp: tree_path_def child_def)
  then have tp: "tree_path p" by (simp add: tree_path_child)
  have np: "inode_node s ip p \<noteq> 0" using Cons.prems(7,8) by simp
  have a: "usable s a" "bm_bit s (unat a)" using tree_okD(1,2)[OF Cons.prems(5) tp np] Cons.prems(7) by simp_all
  have r: "room ((n + 3 * length js) + 3) (Suc (m + length js)) s" "1 \<le> m + length js" using Cons.prems(9,10) by (simp_all add: add.assoc add.commute[of 3])
  obtain c s1 where 1: "imap_entry a i s = Inr (c, s1)" "room (n + 3 * length js) (m + length js) s1"
    by (rule imap_entry_returns[OF Cons.prems(1-4) r a])
  note e = imap_entry_ok[OF Cons.prems(1,3-5) tc Cons.prems(7,8) 1(1)]
  note x = imap_extD[OF e(1)]
  have h: "held s1 = Map.empty" using x(1) Cons.prems(2) by simp
  have tw: "tree_path (fst (child p i), snd (child p i) @ js)" using Cons.prems(6) by (simp add: child_def)
  show ?case using Cons.IH[OF e(2) h x(3-5) tw e(3,4) 1(2) Cons.prems(10)] 1(1) by simp
qed simp

lemma imap_total:
  assumes "log_ready {} s" "held s = Map.empty" "bm_inv s" "bm_ready s" "tree_ok s ip"
    and bno: "unat bno < MAXFILE_BLOCKS" and w: "unat (n_log_wrote s) < MAXOPBLOCKS - 4"
    and rm: "lh_n s + 11 \<le> lg_size s - 1" "1 \<le> lg_outstanding s" "5 \<le> card (free_blocks s)"
  shows "returns (imap2blockno ip bno s) (\<lambda>(b, s'). b = fblock s' ip (unat bno) \<and> b \<noteq> 0 \<and> lh_n s' \<le> lh_n s + 11 \<and>
    card (free_blocks s) \<le> card (free_blocks s') + 4 \<and> (fblock s ip (unat bno) = 0 \<longrightarrow> view s' b = zero_block))"
proof -
  let ?m = "card (free_blocks s) - 4"
  let ?p = "block_path (unat bno)"
  have tp: "tree_path ?p" by (rule full_block_pathD[OF bno])
  have k: "fst ?p < NBLOCKADDR" using tp by (simp add: tree_path_def)
  have l: "length (snd ?p) \<le> 3" by (simp add: block_path_def Let_def)
  have m1: "1 \<le> ?m" using rm by simp
  have r: "room ((0 + 3 * length (snd ?p)) + 2) (Suc (?m + length (snd ?p))) s" "1 \<le> ?m + length (snd ?p)" using rm l by (simp_all add: room_def)
  obtain a s1 where 1: "imap_root ip (fst ?p) s = Inr (a, s1)" "room (0 + 3 * length (snd ?p)) (?m + length (snd ?p)) s1"
    by (rule imap_root_returns[OF assms(1-4) r])
  note e = imap_root_ok[OF assms(1,3-5) k 1(1)]
  note x = imap_extD[OF e(1)]
  have h: "held s1 = Map.empty" using x(1) assms(2) by simp
  have tw: "tree_path (fst (fst ?p, [] :: nat list), snd (fst ?p, [] :: nat list) @ snd ?p)" using tp by simp
  obtain b s' where 2: "imap_down a (snd ?p) s1 = Inr (b, s')" "room 0 ?m s'"
    using imap_down_returns[OF e(2) h x(3-5) tw e(3,4) 1(2) m1] by auto
  have "assert_no_need_to_restart_op s = Inr ((), s)" using w by (simp add: assert_no_need_to_restart_op_def)
  then have run: "imap2blockno ip bno s = Inr (b, s')" unfolding imap2blockno_path[OF bno] by (simp add: 1(1) 2(1))
  note i = imap2blockno_ok[OF assms(1,3-5) run]
  obtain n where "n \<le> 11" "logged_as s s' n" using imap_cost[OF assms(1,3-5) run] by blast
  then have "lh_n s' \<le> lh_n s + 11" by (simp add: logged_as_def)
  moreover have "card (free_blocks s) \<le> card (free_blocks s') + 4" using 2(2) unfolding room_def by linarith
  ultimately show ?thesis using run i by simp
qed

text \<open>
  C31: inside an operation of the log that has made fewer than MAXOPBLOCKS - 4 writes so far, with
  no block locked, the bitmap and the tree of the file in order, five free blocks and room for
  eleven more writes in the log, imap2blockno returns a block for every number below the largest
  file, uses at most four of the free blocks, and a new block of the file is zero.
\<close>

theorem imap2blockno_total:
  assumes "log_ready {} s" "held s = Map.empty" "bm_inv s" "bm_ready s" "tree_ok s ip"
    and bno: "unat bno < MAXFILE_BLOCKS" and w: "unat (n_log_wrote s) < MAXOPBLOCKS - 4"
    and rm: "lh_n s + 11 \<le> lg_size s - 1" "1 \<le> lg_outstanding s" "5 \<le> card (free_blocks s)"
  shows "returns (imap2blockno ip bno s) (\<lambda>(b, s'). b = fblock s' ip (unat bno) \<and> b \<noteq> 0 \<and> lh_n s' \<le> lh_n s + 11 \<and>
    card (free_blocks s) \<le> card (free_blocks s') + 4 \<and> (fblock s ip (unat bno) = 0 \<longrightarrow> view s' b = zero_block))"
  by (rule imap_total[OF assms])

section \<open>On the small file system\<close>

lemma mini_tree: "tree_ok (mini_ext mini_tab dat x) 1"
proof -
  let ?s = "mini_ext mini_tab dat x"
  have a: "di_addrs (it_inode ?s 1) = (\<lambda>k. if k = 0 then 40 else 0)" by (simp add: mini_it_fields mini_tab_def mini_file_def del: One_nat_def)
  have p: "p = (0, [])" if "tree_path p" "inode_node ?s 1 p \<noteq> 0" for p
  proof (cases "fst p = 0")
    case True
    then show ?thesis using that(1) by (cases p) (simp add: tree_path_def depth_def NDIRECT_def)
  next
    case False
    then have "inode_node ?s 1 p = 0" by (simp add: node_def a del: One_nat_def)
    then show ?thesis using that(2) by simp
  qed
  have n: "inode_node ?s 1 (0, []) = 40" by (simp add: a del: One_nat_def)
  have u: "usable ?s 40" "bm_bit ?s 40" by (simp_all add: mini_it_usable mini_it_bits)
  show ?thesis
    unfolding tree_ok_def
  proof (intro conjI allI impI; elim conjE)
    fix q assume "tree_path q" "inode_node ?s 1 q \<noteq> 0"
    then show "usable ?s (inode_node ?s 1 q)" "bm_bit ?s (unat (inode_node ?s 1 q))" using p[of q] u n by auto
  next
    fix q q' assume "tree_path q" "tree_path q'" "inode_node ?s 1 q \<noteq> 0" "inode_node ?s 1 q = inode_node ?s 1 q'"
    then show "q = q'" using p[of q] p[of q'] by metis
  qed
qed

lemma mini_imap:
  assumes "unat bno < MAXFILE_BLOCKS"
  obtains b s' where "imap2blockno 1 bno (mini_it mini_tab dat) = Inr (b, s')"
proof -
  have "5 \<le> card (free_blocks (mini_it mini_tab dat))" using mini_it_inv(3)[of mini_tab dat "()"] by simp
  then have "returns (imap2blockno 1 bno (mini_it mini_tab dat)) (\<lambda>_. True)"
    using imap_total[OF mini_it_ready(1,2) mini_it_inv(1,2) mini_tree assms, of dat "()"]
    by (auto simp del: One_nat_def simp: mini_it_fields MAXOPBLOCKS_def elim!: returns_mono)
  then show ?thesis using that by (auto elim!: returnsE)
qed

theorem imap2blockno_total_witness:
  "returns (imap2blockno 1 2000000 (mini_it mini_tab (\<lambda>_. zero_block))) (\<lambda>(b, s'). b \<noteq> 0 \<and> lh_n s' \<le> 11)"
proof -
  have "5 \<le> card (free_blocks (mini_it mini_tab (\<lambda>_. zero_block)))" using mini_it_inv(3)[of mini_tab "\<lambda>_. zero_block" "()"] by simp
  then show ?thesis
    using imap2blockno_total[OF mini_it_ready(1,2) mini_it_inv(1,2) mini_tree, of 2000000 "\<lambda>_. zero_block" "()"]
    by (auto simp: mini_it_fields MAXOPBLOCKS_def map_sizes elim!: returns_mono)
qed

theorem imap_log_cost_witness:
  "\<exists>b s'. imap2blockno 1 2000000 (mini_it mini_tab (\<lambda>_. zero_block)) = Inr (b, s') \<and> n_log_wrote s' = 11"
proof -
  let ?s = "mini_it mini_tab (\<lambda>_. zero_block)"
  have n: "unat (2000000 :: uint) < MAXFILE_BLOCKS" "NDIRECT + NINDIRECT1 + NINDIRECT2 \<le> unat (2000000 :: uint)" by (simp_all add: map_sizes)
  obtain b s' where run: "imap2blockno 1 2000000 ?s = Inr (b, s')" by (rule mini_imap[OF n(1)])
  have "di_addrs (it_inode ?s 1) (NDIRECT + 2) = 0" by (simp add: mini_it_fields mini_tab_def mini_file_def)
  then have "logged_as ?s s' 11" using imap_log_cost[OF mini_it_ready(1) mini_it_inv(1,2) mini_tree run] n(2) by blast
  then have "n_log_wrote s' = 11" by (simp add: logged_as_def mini_it_fields)
  then show ?thesis using run by blast
qed

theorem imap2blockno_refines_witness:
  "\<exists>b s'. imap2blockno 1 50 (mini_it mini_tab (\<lambda>b. if b = 40 then (\<lambda>_. 7) else zero_block)) = Inr (b, s') \<and>
    fblock s' 1 50 = b \<and> fblock s' 1 0 = 40 \<and> fdata s' 1 0 = (\<lambda>_. 7)"
proof -
  let ?s = "mini_it mini_tab (\<lambda>b. if b = 40 then (\<lambda>_. 7) else zero_block)"
  have n: "unat (50 :: uint) < MAXFILE_BLOCKS" "(0::nat) < MAXFILE_BLOCKS" "(50::nat) < MAXFILE_BLOCKS" by (simp_all add: map_sizes)
  obtain b s' where run: "imap2blockno 1 50 ?s = Inr (b, s')" by (rule mini_imap[OF n(1)])
  have f0: "fblock ?s 1 0 = 40"
    by (simp add: fblock_def block_path_def NDIRECT_def mini_it_fields mini_tab_def mini_file_def)
  then have d0: "fdata ?s 1 0 = (\<lambda>_. 7)" using n(2) by (simp add: fdata_def mini_it_ready(3) mini_it_fields)
  have "fdata s' 1 = fdata ?s 1" "fblock s' 1 0 = fblock ?s 1 0" "fblock s' 1 50 = b"
    using imap2blockno_refines[OF mini_it_ready(1) mini_it_inv(1,2) mini_tree run] n by auto
  then show ?thesis using run f0 d0 by (intro exI[of _ b] exI[of _ s']) (simp del: One_nat_def)
qed

end
