(* ===== verification/Inode_File.thy ===== *)
theory Inode_File
  imports Inode_IO Inode_Tree
begin

text \<open>
  The contents of a file: what reading and writing do to the bytes of the file, to its size and to
  everything else on the device. The operations may end the current operation of the log and start
  another one on the way; each such step is shown to keep the file as it is.
\<close>

section \<open>A file that is in order\<close>

text \<open>
  The state in which the operations on a locked inode are called: the layers below are in order, no
  block is locked, the tree is well formed, and the block that holds the inode itself is none of the
  file's.
\<close>

definition own_block :: "'a itable_scheme \<Rightarrow> nat \<Rightarrow> bool" where
  "own_block s ip \<longleftrightarrow> (let ib = IBLOCK (mi_inum (it_inode s ip)) s in
    usable s ib \<and> bm_bit s (unat ib) \<and> (\<forall>q. tree_path q \<longrightarrow> inode_node s ip q \<noteq> ib))"

definition file_ok :: "'a itable_scheme \<Rightarrow> nat \<Rightarrow> bool" where
  "file_ok s ip \<longleftrightarrow> log_ready {} s \<and> held s = Map.empty \<and> bm_inv s \<and> bm_ready s \<and> tree_ok s ip \<and> own_block s ip \<and>
    addrs_ok (it_inode s ip) \<and> mi_valid (it_inode s ip) \<and> mi_locked (it_inode s ip) \<and> \<not> lg_committing s"

lemma file_okD:
  assumes "file_ok s ip"
  shows "log_ready {} s" "held s = Map.empty" "bm_inv s" "bm_ready s" "tree_ok s ip" "own_block s ip" "addrs_ok (it_inode s ip)"
    "mi_valid (it_inode s ip)" "mi_locked (it_inode s ip)" "\<not> lg_committing s"
    "usable s (IBLOCK (mi_inum (it_inode s ip)) s)" "bm_bit s (unat (IBLOCK (mi_inum (it_inode s ip)) s))"
    "tree_path q \<Longrightarrow> inode_node s ip q \<noteq> IBLOCK (mi_inum (it_inode s ip)) s"
  using assms unfolding file_ok_def own_block_def Let_def by blast+

text \<open>The fields of the inode that reading and writing leave alone, and the blocks of everything else.\<close>

definition meta :: "minode \<Rightarrow> short \<times> short \<times> size_t \<times> uint \<times> uint \<times> int \<times> bool \<times> bool" where
  "meta i = (di_type i, di_nlink i, di_size i, di_perm i, mi_inum i, mi_ref i, mi_locked i, mi_valid i)"

definition foreign :: "'a itable_scheme \<Rightarrow> nat \<Rightarrow> uint \<Rightarrow> bool" where
  "foreign s ip c \<longleftrightarrow> usable s c \<and> bm_bit s (unat c) \<and> c \<noteq> IBLOCK (mi_inum (it_inode s ip)) s \<and>
    (\<forall>q. tree_path q \<longrightarrow> inode_node s ip q \<noteq> c)"

text \<open>The inodes on the device that share a block with the inode of the file.\<close>

definition slots_keep :: "'a itable_scheme \<Rightarrow> 'a itable_scheme \<Rightarrow> nat \<Rightarrow> bool" where
  "slots_keep s s' ip \<longleftrightarrow> (\<forall>k. k \<noteq> mi_inum (it_inode s ip) \<and> IBLOCK k s = IBLOCK (mi_inum (it_inode s ip)) s \<longrightarrow>
    disk_inode s' k = disk_inode s k)"

definition file_keep :: "'a itable_scheme \<Rightarrow> 'a itable_scheme \<Rightarrow> nat \<Rightarrow> bool" where
  "file_keep s s' ip \<longleftrightarrow> file_ok s' ip \<and> it_frame s' = it_frame s \<and> meta (it_inode s' ip) = meta (it_inode s ip) \<and>
    (\<forall>j. j \<noteq> ip \<longrightarrow> it_inode s' j = it_inode s j) \<and> (\<forall>c. foreign s ip c \<longrightarrow> foreign s' ip c \<and> view s' c = view s c) \<and>
    slots_keep s s' ip"

lemma slots_keep_trans:
  assumes "slots_keep s s1 ip" "slots_keep s1 s2 ip" "it_frame s1 = it_frame s" "mi_inum (it_inode s1 ip) = mi_inum (it_inode s ip)"
  shows "slots_keep s s2 ip"
  using assms(1,2) by (simp add: slots_keep_def assms(4) it_frameD(4)[OF assms(3)])

lemma slots_keep_view:
  assumes "it_frame s' = it_frame s" "view s' (IBLOCK (mi_inum (it_inode s ip)) s) = view s (IBLOCK (mi_inum (it_inode s ip)) s)"
  shows "slots_keep s s' ip"
  using assms(2) by (simp add: slots_keep_def disk_inode_def it_frameD(4)[OF assms(1)])

lemma file_keep_trans:
  assumes 1: "file_keep s s1 ip" and 2: "file_keep s1 s2 ip"
  shows "file_keep s s2 ip"
proof -
  have "it_frame s1 = it_frame s" "meta (it_inode s1 ip) = meta (it_inode s ip)" using 1 by (auto simp: file_keep_def)
  then have "slots_keep s s2 ip"
    using slots_keep_trans[of s s1 ip s2] 1 2 by (simp add: file_keep_def meta_def)
  then show ?thesis using 1 2 unfolding file_keep_def by (metis (no_types))
qed

lemma file_keep_refl: "file_ok s ip \<Longrightarrow> file_keep s s ip"
  by (simp add: file_keep_def slots_keep_def)

lemma file_keepD:
  assumes "file_keep s s' ip"
  shows "file_ok s' ip" "it_frame s' = it_frame s" "meta (it_inode s' ip) = meta (it_inode s ip)"
    "j \<noteq> ip \<Longrightarrow> it_inode s' j = it_inode s j" "foreign s ip c \<Longrightarrow> foreign s' ip c" "foreign s ip c \<Longrightarrow> view s' c = view s c"
    "slots_keep s s' ip"
  using assms unfolding file_keep_def by blast+

lemma metaD:
  assumes "meta i = meta j"
  shows "di_size i = di_size j" "mi_inum i = mi_inum j" "mi_valid i = mi_valid j" "mi_locked i = mi_locked j" "mi_ref i = mi_ref j"
    "di_type i = di_type j"
  using assms by (simp_all add: meta_def)

text \<open>A step that keeps the slots of the inode, the bitmap and the blocks of the tree.\<close>

lemma same_nodes:
  assumes ok: "tree_ok s ip" and a: "di_addrs (it_inode s' ip) = di_addrs (it_inode s ip)"
    and v: "\<And>q. tree_path q \<Longrightarrow> inode_node s ip q \<noteq> 0 \<Longrightarrow> view s' (inode_node s ip q) = view s (inode_node s ip q)"
    and us: "usable s' = usable s" and bits: "bm_bit s' = bm_bit s"
  shows "tree_path q \<Longrightarrow> inode_node s' ip q = inode_node s ip q" "tree_ok s' ip" "fdata s' ip = fdata s ip"
proof -
  show n: "inode_node s' ip q = inode_node s ip q" if "tree_path q" for q
    unfolding a by (rule node_cong[OF _ that]) (rule v)
  show "tree_ok s' ip" by (rule tree_ok_cong[OF ok n us]) (simp_all add: bits)
  show "fdata s' ip = fdata s ip"
    using n[OF full_block_pathD] v[OF full_block_pathD] by (auto simp: fdata_def fblock_def fun_eq_iff)
qed

lemma keep_same_nodes:
  assumes ok: "file_ok s ip" and a: "di_addrs (it_inode s' ip) = di_addrs (it_inode s ip)"
    and st: "log_ready {} s'" "held s' = Map.empty" "bm_inv s'" "bm_ready s'" "bm_bit s' = bm_bit s" "it_frame s' = it_frame s"
    and it: "meta (it_inode s' ip) = meta (it_inode s ip)" "\<And>j. j \<noteq> ip \<Longrightarrow> it_inode s' j = it_inode s j"
    and v: "\<And>c. usable s c \<Longrightarrow> c \<noteq> IBLOCK (mi_inum (it_inode s ip)) s \<Longrightarrow> view s' c = view s c" and sl: "slots_keep s s' ip"
  shows "file_keep s s' ip \<and> fdata s' ip = fdata s ip"
proof -
  note d = file_okD[OF ok] and f = it_frameD[OF st(6)] and m = metaD[OF it(1)]
  have vn: "view s' (inode_node s ip q) = view s (inode_node s ip q)" if "tree_path q" "inode_node s ip q \<noteq> 0" for q
    by (rule v) (use tree_okD(1)[OF d(5) that] d(13)[OF that(1)] in auto)
  note n = same_nodes[OF d(5) a vn f(2) st(5)]
  have "own_block s' ip" using d(11-13) by (simp add: own_block_def Let_def f m st(5) n(1))
  then have "file_ok s' ip" using d st n(2) a f m by (simp add: file_ok_def addrs_ok_def)
  moreover have "foreign s' ip c \<and> view s' c = view s c" if "foreign s ip c" for c
    using that v n(1) by (simp add: foreign_def f m st(5))
  ultimately show ?thesis using st(6) it n(3) sl by (simp add: file_keep_def)
qed

text \<open>Writing the inode back, and changes of its time stamps.\<close>

lemma iupdate_keep:
  assumes ok: "file_ok s ip" and run: "iupdate ip s = Inr ((), s')"
  shows "file_keep s s' ip" "fdata s' ip = fdata s ip" "logged_as s s' 1"
proof -
  note d = file_okD[OF ok]
  obtain t where 1: "log_ready {} s'" "held s' = held s" "it_frame s' = it_frame s" "bm_inv s'" "bm_ready s' = bm_ready s"
    "bm_bit s' = bm_bit s" "it_inode s' = (it_inode s)(ip := (it_inode s ip)\<lparr>di_ctime := t\<rparr>)"
    "view s' = (view s)(IBLOCK (mi_inum (it_inode s ip)) s :=
      put_dinode (view s (IBLOCK (mi_inum (it_inode s ip)) s)) (dinode_off (mi_inum (it_inode s ip))) (it_inode s' ip))"
    "n_log_wrote s' = n_log_wrote s + 1" "lh_n s' \<le> lh_n s + 1"
    by (rule iupdate_ok[OF d(1,3,11) run])
  have "addrs_ok (it_inode s' ip)" using d(7) by (simp add: 1(7) addrs_ok_def)
  note dk = iupdate_disk[OF 1(3) this 1(8)]
  have sl: "slots_keep s s' ip" by (simp add: slots_keep_def dk)
  have "file_keep s s' ip \<and> fdata s' ip = fdata s ip"
    by (rule keep_same_nodes[OF ok]) (use 1 d sl in \<open>simp_all add: meta_def\<close>)
  then show "file_keep s s' ip" "fdata s' ip = fdata s ip" by auto
  show "logged_as s s' 1" using 1(9,10) by (simp add: logged_as_def)
qed

lemma upd_keep:
  assumes ok: "file_ok s ip" and f: "\<And>i. meta (f i) = meta i" "\<And>i. di_addrs (f i) = di_addrs i"
  shows "file_keep s (upd_inode ip f s) ip" "fdata (upd_inode ip f s) ip = fdata s ip"
proof -
  have "file_keep s (upd_inode ip f s) ip \<and> fdata (upd_inode ip f s) ip = fdata s ip"
    by (rule keep_same_nodes[OF ok]) (use file_okD[OF ok] f in \<open>simp_all add: slots_keep_view\<close>)
  then show "file_keep s (upd_inode ip f s) ip" "fdata (upd_inode ip f s) ip = fdata s ip" by auto
qed

lemma tick_keep:
  assumes ok: "file_ok s ip"
  shows "file_keep s (s\<lparr>ticks := n\<rparr>) ip" "fdata (s\<lparr>ticks := n\<rparr>) ip = fdata s ip"
proof -
  have "file_keep s (s\<lparr>ticks := n\<rparr>) ip \<and> fdata (s\<lparr>ticks := n\<rparr>) ip = fdata s ip"
    by (rule keep_same_nodes[OF ok]) (use file_okD[OF ok] in \<open>simp_all add: slots_keep_view\<close>)
  then show "file_keep s (s\<lparr>ticks := n\<rparr>) ip" "fdata (s\<lparr>ticks := n\<rparr>) ip = fdata s ip" by auto
qed

lemma touch_keep:
  assumes ok: "file_ok s ip"
  shows "file_keep s (touch_atime ip s) ip" "fdata (touch_atime ip s) ip = fdata s ip"
    "file_keep s (touch_mtime ip s) ip" "fdata (touch_mtime ip s) ip = fdata s ip"
proof -
  let ?t = "clock s (ticks s)"
  note 1 = tick_keep[OF ok, of "Suc (ticks s)"]
  note 2 = upd_keep[OF file_keepD(1)[OF 1(1)], of "di_atime_update (\<lambda>_. ?t)"]
  have a: "touch_atime ip s = upd_inode ip (di_atime_update (\<lambda>_. ?t)) (s\<lparr>ticks := Suc (ticks s)\<rparr>)"
    by (simp add: touch_atime_def get_current_timespec_def)
  show k: "file_keep s (touch_atime ip s) ip" "fdata (touch_atime ip s) ip = fdata s ip"
    unfolding a using file_keep_trans[OF 1(1) 2(1)] 1(2) 2(2) by (simp_all add: meta_def)
  note 3 = upd_keep[OF file_keepD(1)[OF k(1)], of "\<lambda>i. i\<lparr>di_mtime := di_atime i\<rparr>"]
  show "file_keep s (touch_mtime ip s) ip" "fdata (touch_mtime ip s) ip = fdata s ip"
    unfolding touch_mtime_def Let_def using file_keep_trans[OF k(1) 3(1)] k(2) 3(2) by (simp_all add: meta_def)
qed

text \<open>
  An entry of the table is \<open>synced\<close> when the inode on the device has the same fields, up to the time
  stamps. Writing back makes it so; stamps do not matter.
\<close>

definition core :: "'a dinode_scheme \<Rightarrow> dinode" where
  "core i = (disk_part i)\<lparr>di_atime := zero_time, di_mtime := zero_time, di_ctime := zero_time\<rparr>"

definition synced :: "'a itable_scheme \<Rightarrow> nat \<Rightarrow> bool" where
  "synced s ip \<longleftrightarrow> core (it_inode s ip) = core (disk_inode s (mi_inum (it_inode s ip)))"

lemma core_eq:
  "core i = core j \<longleftrightarrow> di_type i = di_type j \<and> di_major i = di_major j \<and> di_minor i = di_minor j \<and> di_nlink i = di_nlink j \<and>
    di_size i = di_size j \<and> di_perm i = di_perm j \<and> di_addrs i = di_addrs j"
  by (auto simp: core_def dinode.truncate_def)

lemma core_disk [simp]: "core (disk_part i) = core i"
  by (simp add: core_eq) (simp add: dinode.truncate_def)

lemma iupdate_synced:
  assumes ok: "file_ok s ip" and run: "iupdate ip s = Inr ((), s')"
  shows "synced s' ip"
proof -
  note d = file_okD[OF ok]
  obtain t where 1: "it_frame s' = it_frame s" "it_inode s' = (it_inode s)(ip := (it_inode s ip)\<lparr>di_ctime := t\<rparr>)"
    "view s' = (view s)(IBLOCK (mi_inum (it_inode s ip)) s :=
      put_dinode (view s (IBLOCK (mi_inum (it_inode s ip)) s)) (dinode_off (mi_inum (it_inode s ip))) (it_inode s' ip))"
    by (rule iupdate_ok[OF d(1,3,11) run])
  have "addrs_ok (it_inode s' ip)" using d(7) by (simp add: 1(2) addrs_ok_def)
  note dk = iupdate_disk[OF 1(1) this 1(3)]
  have "mi_inum (it_inode s' ip) = mi_inum (it_inode s ip)" by (simp add: 1(2))
  then show ?thesis by (simp add: synced_def dk)
qed

lemma touch_synced: "synced s ip \<Longrightarrow> synced (touch_atime ip s) ip"
proof -
  let ?s = "touch_atime ip s"
  have "disk_inode ?s = disk_inode s" by (rule disk_inode_cong) (simp_all add: touch_atime_def get_current_timespec_def)
  then show "synced s ip \<Longrightarrow> synced ?s ip"
    by (simp add: synced_def core_eq) (simp add: touch_atime_def get_current_timespec_def)
qed

text \<open>Mapping a block.\<close>

lemma imap_keep:
  assumes ok: "file_ok s ip" and run: "imap2blockno ip bno s = Inr (b, s')"
  shows "file_keep s s' ip" "fdata s' ip = fdata s ip" "fblock s' ip (unat bno) = b" "b \<noteq> 0" "unat bno < MAXFILE_BLOCKS"
proof -
  note d = file_okD[OF ok]
  note i = imap2blockno_ok[OF d(1,3-5) run]
  note x = imap_extD[OF i(2)]
  note f = it_frameD[OF x(2)]
  obtain r where r: "it_inode s' = (it_inode s)(ip := (it_inode s ip)\<lparr>di_addrs := r\<rparr>)" using x(6) by blast
  have m: "meta (it_inode s' ip) = meta (it_inode s ip)" "mi_inum (it_inode s' ip) = mi_inum (it_inode s ip)"
    by (simp_all add: r meta_def)
  have fr: "inode_node s' ip q \<noteq> c" if "bm_bit s (unat c)" "\<And>q. tree_path q \<Longrightarrow> inode_node s ip q \<noteq> c" "tree_path q" for c q
    using x(9)[OF that(3)] that by metis
  have "own_block s' ip" unfolding own_block_def Let_def m(2) f
    using d(11,12) x(10) fr[OF d(12) d(13)] by auto
  moreover have "addrs_ok (it_inode s' ip)" by (rule x(12)[OF d(7)])
  ultimately have k: "file_ok s' ip"
    using d i(3) x(1,3-5) f(8) metaD(3,4)[OF m(1)] by (simp add: file_ok_def)
  have "foreign s' ip c \<and> view s' c = view s c" if c: "foreign s ip c" for c
  proof -
    have "view s' c = view s c" by (rule x(11)) (use c in \<open>auto simp: foreign_def\<close>)
    moreover have "inode_node s' ip q \<noteq> c" if "tree_path q" for q using fr[OF _ _ that, of c] c by (auto simp: foreign_def simp del: split_paired_All)
    ultimately show ?thesis using c x(10) by (auto simp: foreign_def f m(2) simp del: split_paired_All)
  qed
  moreover have "slots_keep s s' ip" by (rule slots_keep_view[OF x(2)], rule x(11)) (use d(11-13) in auto)
  ultimately show "file_keep s s' ip" unfolding file_keep_def using k x(2) m(1) r by auto
  show "fdata s' ip = fdata s ip" by (rule imap2blockno_fdata[OF d(1,3-5) run])
  show "fblock s' ip (unat bno) = b" "b \<noteq> 0" "unat bno < MAXFILE_BLOCKS" using i by simp_all
qed
text \<open>Writing a block of the file.\<close>

lemma full_write_keep:
  assumes ok: "file_ok s ip" and n: "n < MAXFILE_BLOCKS" "fblock s ip n \<noteq> 0"
    and st: "log_ready {} s'" "held s' = Map.empty" "bm_frame s' = bm_frame s" "bm_inv s'" "bm_ready s'" "bm_bit s' = bm_bit s"
    and v: "view s' = (view s)(fblock s ip n := d)"
  shows "file_keep s s' ip \<and> fdata s' ip = (fdata s ip)(n := d)"
proof -
  note k = file_okD[OF ok] and it = it_frame_of_bm_frame[OF st(3)]
  note f = it_frameD[OF it(1)]
  let ?p = "block_path n"
  have tp: "tree_path ?p" "full_path ?p" using full_block_path[OF n(1)] by (simp_all add: full_path_def)
  have np: "inode_node s ip ?p \<noteq> 0" using n(2) by (simp add: fblock_def)
  have nd: "inode_node s' ip q = inode_node s ip q" if "tree_path q" for q
    unfolding it(2)
  proof (rule node_cong[OF _ that])
    fix w assume w: "tree_path w" "\<not> full_path w" "inode_node s ip w \<noteq> 0"
    have "w = ?p" if "inode_node s ip w = inode_node s ip ?p" by (rule tree_okD(3)[OF k(5) w(1,3) tp(1) that])
    then show "view s' (inode_node s ip w) = view s (inode_node s ip w)" using w(2) tp(2) by (auto simp: v fblock_def)
  qed
  note nd' = nd[unfolded it(2)]
  have "tree_ok s' ip" by (rule tree_ok_cong[OF k(5) nd f(2)]) (simp_all add: st(6))
  moreover have "own_block s' ip" using k(11-13) by (simp add: own_block_def Let_def f it(2) st(6) nd' del: split_paired_All)
  ultimately have "file_ok s' ip" using k st f by (simp add: file_ok_def it(2))
  moreover have "foreign s' ip c \<and> view s' c = view s c" if c: "foreign s ip c" for c
  proof -
    have "c \<noteq> fblock s ip n" using c tp(1) unfolding foreign_def fblock_def by blast
    then show ?thesis using c nd' by (simp add: foreign_def f it(2) st(6) v del: split_paired_All)
  qed
  moreover have "slots_keep s s' ip"
    by (rule slots_keep_view[OF it(1)]) (use k(13)[OF tp(1)] in \<open>simp add: v fblock_def\<close>)
  ultimately have keep: "file_keep s s' ip" using it by (simp add: file_keep_def)
  have fb: "fblock s' ip m = fblock s ip m" if "m < MAXFILE_BLOCKS" for m
    unfolding fblock_def by (rule nd[OF full_block_pathD[OF that]])
  have ne: "fblock s ip m \<noteq> fblock s ip n" if "m < MAXFILE_BLOCKS" "m \<noteq> n" for m
    using tree_okD(3)[OF k(5) tp(1) np full_block_pathD[OF that(1)]] block_path_inj[of n m] that(2) by (auto simp: fblock_def)
  have "fdata s' ip = (fdata s ip)(n := d)"
  proof
    fix m
    show "fdata s' ip m = ((fdata s ip)(n := d)) m"
      using fb[of m] ne[of m] n by (auto simp: fdata_def v)
  qed
  then show ?thesis using keep by blast
qed

lemma write_part_keep:
  assumes ok: "file_ok s ip" and run: "write_part ip blk from data doff n s = Inr ((), s')"
  shows "file_keep s s' ip" "fdata s' ip = (fdata s ip)(unat blk := blit_in (fdata s ip (unat blk)) from data doff n)"
    "unat blk < MAXFILE_BLOCKS"
proof -
  obtain a s1 h s2 s3 where 1: "imap2blockno ip blk s = Inr (a, s1)" and 2: "logged_read a s1 = Inr (h, s2)"
    and 3: "logged_write h (set_data h (blit_in (buf_data s2 h) from data doff n) s2) = Inr ((), s3)" and s': "s' = logged_relse h s3"
    using run by (auto simp: write_part_def chain_eq_Inr)
  note i = imap_keep[OF ok 1]
  show "unat blk < MAXFILE_BLOCKS" by (rule i(5))
  have ok1: "file_ok s1 ip" by (rule file_keepD(1)[OF i(1)])
  note d = file_okD[OF ok1]
  have nz: "fblock s1 ip (unat blk) \<noteq> 0" using i(3,4) by simp
  have us: "usable s1 a" using tree_okD(1)[OF d(5) full_block_pathD[OF i(5)]] nz i(3) by (simp add: fblock_def)
  have db: "data_block s1 a" using us by (simp add: usable_def)
  note m = modify_usable[OF d(1,3) us 2 3]
  have dat: "buf_data s2 h = fdata s ip (unat blk)"
  proof -
    have "buf_data s2 h = fdata s1 ip (unat blk)" using lg.read_release(1)[OF d(1) db 2] i(3,4,5) by (simp add: fdata_def)
    then show ?thesis using i(2) by simp
  qed
  have "file_keep s1 s' ip \<and> fdata s' ip = (fdata s1 ip)(unat blk := blit_in (buf_data s2 h) from data doff n)"
    by (rule full_write_keep[OF ok1 i(5) nz]) (use m d i(3) in \<open>simp_all add: s'\<close>)
  then show "file_keep s s' ip" "fdata s' ip = (fdata s ip)(unat blk := blit_in (fdata s ip (unat blk)) from data doff n)"
    using file_keep_trans[OF i(1)] i(2) by (auto simp: dat)
qed

lemma read_part_keep:
  assumes ok: "file_ok s ip" and run: "read_part ip blk from data doff n s = Inr (data', s')"
  shows "file_keep s s' ip" "fdata s' ip = fdata s ip" "data' = blit_out data doff (fdata s ip (unat blk)) from n" "unat blk < MAXFILE_BLOCKS"
proof -
  obtain a s1 h s2 where 1: "imap2blockno ip blk s = Inr (a, s1)" and 2: "logged_read a s1 = Inr (h, s2)"
    and s': "s' = logged_relse h s2" "data' = blit_out data doff (buf_data s2 h) from n"
    using run by (auto simp: read_part_def chain_eq_Inr)
  note i = imap_keep[OF ok 1]
  show "unat blk < MAXFILE_BLOCKS" by (rule i(5))
  have ok1: "file_ok s1 ip" by (rule file_keepD(1)[OF i(1)])
  note d = file_okD[OF ok1]
  have nz: "fblock s1 ip (unat blk) \<noteq> 0" using i(3,4) by simp
  have us: "usable s1 a" using tree_okD(1)[OF d(5) full_block_pathD[OF i(5)]] nz i(3) by (simp add: fblock_def)
  have db: "data_block s1 a" using us by (simp add: usable_def)
  note m = lg.read_release[OF d(1) db 2]
  have "buf_data s2 h = fdata s1 ip (unat blk)" using m(1) i(3,4,5) by (simp add: fdata_def)
  then show "data' = blit_out data doff (fdata s ip (unat blk)) from n" using i(2) s'(2) by simp
  have f: "bm_frame s' = bm_frame s1" unfolding s' by (rule bm_frame_of_log_frame[OF m(5)])
  note it = it_frame_of_bm_frame[OF f]
  have same: "bm_inv s' = bm_inv s1" "bm_ready s' = bm_ready s1" "bm_bit s' = bm_bit s1"
    using bm_same[OF m(5)] m(3) by (simp_all add: s')
  have "file_keep s1 s' ip \<and> fdata s' ip = fdata s1 ip"
    by (rule keep_same_nodes[OF ok1]) (use same m d it in \<open>simp_all add: s' slots_keep_view\<close>)
  then show "file_keep s s' ip" "fdata s' ip = fdata s ip" using file_keep_trans[OF i(1)] i(2) by auto
qed

section \<open>Ending an operation and starting the next\<close>

lemma end_op_step:
  fixes s :: "'a fslog_scheme"
  assumes st: "log_ready {} s" "held s = Map.empty" "\<not> lg_committing s" and run: "end_op s = Inr (u, s1)"
  shows "log_ready {} s1 \<and> held s1 = Map.empty \<and> lg_outstanding s1 = lg_outstanding s - 1 \<and> \<not> lg_committing s1 \<and>
    (dev_nblk s1, lg_start s1, lg_size s1, fslog.more s1) = (dev_nblk s, lg_start s, lg_size s, fslog.more s) \<and>
    (\<forall>b. data_block s b \<longrightarrow> view s1 b = view s b)"
proof (cases "lg_outstanding s = 1")
  case True
  then show ?thesis using end_op_last[OF st(1,2) True st(3)] run by (auto elim!: returnsE)
next
  case False
  then have "s1 = s\<lparr>lg_outstanding := lg_outstanding s - 1\<rparr>" using end_op_other[OF st(1) False st(3)] run by auto
  then show ?thesis using st by simp
qed

lemma txn_restart:
  fixes s :: "'a itable_scheme"
  assumes st: "log_ready {} s" "held s = Map.empty" "\<not> lg_committing s" and run: "end_op s = Inr ((), s1)" "begin_op s1 = Inr ((), s')"
  shows "log_ready {} s'" "held s' = Map.empty" "it_frame s' = it_frame s" "it_inode s' = it_inode s"
    "bm_inv s' = bm_inv s" "bm_ready s' = bm_ready s" "bm_bit s' = bm_bit s" "data_block s b \<Longrightarrow> view s' b = view s b" "n_log_wrote s' = 0"
proof -
  note e = end_op_step[OF st run(1)]
  have "log_ready {} s1" using e by blast
  note b = begin_op_ok[OF run(2) this]
  have s': "s' = s1\<lparr>lg_outstanding := lg_outstanding s1 + 1, n_log_wrote := 0\<rparr>"
    using run(2) by (auto simp: begin_op_def split: if_splits)
  have more: "fslog.more s' = fslog.more s" using e by (simp add: s')
  note f = bm_fields_more[OF more]
  note g = it_fields_more[OF f(7)]
  show "log_ready {} s'" "held s' = Map.empty" "n_log_wrote s' = 0" using b e by simp_all
  show v: "data_block s b \<Longrightarrow> view s' b = view s b" for b using b e by simp
  show fr: "it_frame s' = it_frame s" using e f g st(3) by (simp add: it_frame_def s')
  show "it_inode s' = it_inode s" by (rule g)
  show bit: "bm_bit s' = bm_bit s" by (rule bm_bit_cong[OF f(2)])
  note ff = it_frameD[OF fr]
  show "bm_ready s' = bm_ready s" by (simp add: bm_ready_def f)
  have "bm_sync s' = bm_sync s"
  proof -
    have bb: "bm_block s' = bm_block s" by (simp add: bm_block_def f fun_eq_iff)
    show ?thesis by (auto simp: bm_sync_def ff(1) bb f v)
  qed
  then show "bm_inv s' = bm_inv s" by (simp add: bm_inv_def bm_counts_def group_used_def bit ff(2) f)
qed

lemma restart_keep:
  assumes ok: "file_ok s ip" and run: "restart_op_on ip k s = Inr ((), s')"
  shows "file_keep s s' ip" "fdata s' ip = fdata s ip"
proof -
  have "file_keep s s' ip \<and> fdata s' ip = fdata s ip"
  proof (cases "unat (n_log_wrote s) \<ge> k - 1")
    case False
    then show ?thesis using run file_keep_refl[OF ok] by (simp add: restart_op_on_def)
  next
    case True
    then obtain s1 s2 s3 where 1: "iupdate ip s = Inr ((), s1)" and 2: "end_op (iunlock ip s1) = Inr ((), s2)"
      and 3: "begin_op s2 = Inr ((), s3)" and 4: "ilock ip s3 = Inr ((), s')"
      using run by (auto simp: restart_op_on_def chain_eq_Inr)
    note u = iupdate_keep[OF ok 1]
    have ok1: "file_ok s1 ip" by (rule file_keepD(1)[OF u(1)])
    note d = file_okD[OF ok1]
    have ul: "log_ready {} (iunlock ip s1)" "held (iunlock ip s1) = Map.empty" "\<not> lg_committing (iunlock ip s1)"
      using d by (simp_all add: iunlock_def)
    note t = txn_restart[OF ul 2 3]
    have it3: "it_inode s3 ip = it_inode s1 ip\<lparr>mi_locked := False\<rparr>" "\<And>j. j \<noteq> ip \<Longrightarrow> it_inode s3 j = it_inode s1 j"
      using t(4) by (simp_all add: iunlock_def)
    have va: "mi_valid (it_inode s3 ip)" using it3 d(8) by simp
    have inv3: "bm_inv s3" using t(5) d(3) by (simp add: iunlock_def)
    note l = ilock_ok[OF t(1) disjI1[OF va] inv3 4]
    have v: "view s' c = view s1 c" if "usable s1 c" for c
      using t(8)[of c] that l(7) by (simp add: iunlock_def usable_def)
    have "file_keep s1 s' ip \<and> fdata s' ip = fdata s1 ip"
    proof (rule keep_same_nodes[OF ok1])
      show "meta (it_inode s' ip) = meta (it_inode s1 ip)" using va d(9) by (simp add: l(10) it3 meta_def)
      show "di_addrs (it_inode s' ip) = di_addrs (it_inode s1 ip)" using va by (simp add: l(10) it3)
      show fr: "it_frame s' = it_frame s1" using l(3) t(3) by (simp add: iunlock_def)
      show "slots_keep s1 s' ip" by (rule slots_keep_view[OF fr]) (use v d(11) in simp)
    qed (use l t d it3 v inv3 in \<open>simp_all add: iunlock_def\<close>)
    then show ?thesis using file_keep_trans[OF u(1)] u(2) by auto
  qed
  then show "file_keep s s' ip" "fdata s' ip = fdata s ip" by auto
qed
section \<open>Bytes\<close>

definition fbytes :: "'a itable_scheme \<Rightarrow> nat \<Rightarrow> nat \<Rightarrow> byte" where
  "fbytes s ip pos = fdata s ip (pos div BSIZE) (pos mod BSIZE)"

definition upd_bytes :: "(nat \<Rightarrow> byte) \<Rightarrow> nat \<Rightarrow> nat \<Rightarrow> (nat \<Rightarrow> byte) \<Rightarrow> nat \<Rightarrow> byte" where
  "upd_bytes f start n g pos = (if start \<le> pos \<and> pos < start + n then g (pos - start) else f pos)"

lemma upd_bytes_0 [simp]: "upd_bytes f start 0 g = f"
  by (auto simp: upd_bytes_def fun_eq_iff)

lemma upd_bytes_append: "upd_bytes (upd_bytes f start n g) (start + n) m (\<lambda>j. g (n + j)) = upd_bytes f start (n + m) g"
  by (auto simp: upd_bytes_def fun_eq_iff)

lemma fbytes_cong: "fdata s' ip = fdata s ip \<Longrightarrow> fbytes s' ip = fbytes s ip"
  by (simp add: fbytes_def fun_eq_iff)

lemma block_pos:
  assumes "from + n \<le> BSIZE"
  shows "k * BSIZE + from \<le> pos \<and> pos < k * BSIZE + from + n \<longleftrightarrow> pos div BSIZE = k \<and> from \<le> pos mod BSIZE \<and> pos mod BSIZE < from + n"
proof -
  have p: "pos = pos div BSIZE * BSIZE + pos mod BSIZE" "pos mod BSIZE < BSIZE" by simp_all
  show ?thesis
  proof (cases "pos div BSIZE = k")
    case True
    then show ?thesis using p by (metis add_le_cancel_left add_less_cancel_left add.assoc)
  next
    case False
    have "\<not> (k * BSIZE + from \<le> pos \<and> pos < k * BSIZE + from + n)"
    proof
      assume a: "k * BSIZE + from \<le> pos \<and> pos < k * BSIZE + from + n"
      then have "k * BSIZE \<le> pos" "pos < (k + 1) * BSIZE" using assms by simp_all
      then have "k \<le> pos div BSIZE" "pos div BSIZE < k + 1"
        by (simp_all add: less_eq_div_iff_mult_less_eq less_mult_imp_div_less)
      then show False using False by simp
    qed
    then show ?thesis using False by simp
  qed
qed

lemma blit_bytes:
  assumes "from + n \<le> BSIZE" and f: "fdata s' ip = (fdata s ip)(k := blit_in (fdata s ip k) from data doff n)"
  shows "fbytes s' ip = upd_bytes (fbytes s ip) (k * BSIZE + from) n (\<lambda>j. data (doff + j))"
proof
  fix pos
  have "pos mod BSIZE - from = pos - (k * BSIZE + from)" if "pos div BSIZE = k"
    using that by (metis diff_diff_left minus_div_mult_eq_mod)
  then show "fbytes s' ip pos = upd_bytes (fbytes s ip) (k * BSIZE + from) n (\<lambda>j. data (doff + j)) pos"
    unfolding upd_bytes_def block_pos[OF assms(1)] by (auto simp: fbytes_def f blit_in_def)
qed

lemma write_part_bytes:
  assumes "file_ok s ip" "write_part ip blk from data doff n s = Inr ((), s')" "from + n \<le> BSIZE"
  shows "file_keep s s' ip" "fbytes s' ip = upd_bytes (fbytes s ip) (unat blk * BSIZE + from) n (\<lambda>j. data (doff + j))"
  using write_part_keep[OF assms(1,2)] blit_bytes[OF assms(3)] by blast+

text \<open>The number of the next block does not wrap around below the largest file.\<close>

lemma unat_next_block:
  assumes "unat (blk :: uint) * BSIZE + BSIZE < MAXFILE_BLOCKS * BSIZE"
  shows "unat (blk + 1) = Suc (unat blk)"
proof -
  have "Suc (unat blk) * BSIZE < MAXFILE_BLOCKS * BSIZE" using assms by simp
  then have "Suc (unat blk) < MAXFILE_BLOCKS" by (simp only: mult_less_cancel2)
  then have "Suc (unat blk) < 2 ^ 32" by (simp add: map_sizes)
  then show ?thesis by (simp add: unat_word_ariths)
qed

lemma write_blocks_ok:
  assumes "file_ok s ip" "unat blk * BSIZE + nb \<le> MAXFILE_BLOCKS * BSIZE"
    and "write_blocks ip data nb doff blk s = Inr ((nleft, doff', blk'), s')"
  obtains k where "nb = k + nleft" "nleft \<le> BSIZE" "doff' = doff + k" "unat blk' * BSIZE = unat blk * BSIZE + k" "file_keep s s' ip"
    "fbytes s' ip = upd_bytes (fbytes s ip) (unat blk * BSIZE) k (\<lambda>j. data (doff + j))"
proof -
  have "\<exists>k. nb = k + nleft \<and> nleft \<le> BSIZE \<and> doff' = doff + k \<and> unat blk' * BSIZE = unat blk * BSIZE + k \<and> file_keep s s' ip \<and>
    fbytes s' ip = upd_bytes (fbytes s ip) (unat blk * BSIZE) k (\<lambda>j. data (doff + j))"
    using assms
  proof (induction nb arbitrary: doff blk s rule: less_induct)
    case (less nb)
    show ?case
    proof (cases "nb > BSIZE")
      case False
      then have "nleft = nb" "doff' = doff" "blk' = blk" "s' = s" using less.prems(3) by (simp_all add: write_blocks.simps[of ip data nb])
      then show ?thesis using False file_keep_refl[OF less.prems(1)] by (intro exI[of _ 0]) simp
    next
      case True
      then obtain s1 s2 where 1: "restart_op_on ip (MAXOPBLOCKS - 1 - 3 - 1) s = Inr ((), s1)"
        and 2: "write_part ip blk 0 data doff BSIZE s1 = Inr ((), s2)"
        and 3: "write_blocks ip data (nb - BSIZE) (doff + BSIZE) (blk + 1) s2 = Inr ((nleft, doff', blk'), s')"
        using less.prems(3) by (auto simp: write_blocks.simps[of ip data nb] chain_eq_Inr)
      note r = restart_keep[OF less.prems(1) 1]
      note w = write_part_bytes[OF file_keepD(1)[OF r(1)] 2]
      have k2: "file_keep s s2 ip" using file_keep_trans[OF r(1)] w(1) by simp
      have b2: "fbytes s2 ip = upd_bytes (fbytes s ip) (unat blk * BSIZE) BSIZE (\<lambda>j. data (doff + j))"
        using w(2) fbytes_cong[OF r(2)] by simp
      have nx: "unat (blk + 1) = Suc (unat blk)" by (rule unat_next_block) (use less.prems(2) True in simp)
      have lim: "unat (blk + 1) * BSIZE + (nb - BSIZE) \<le> MAXFILE_BLOCKS * BSIZE" using less.prems(2) True by (simp add: nx)
      have lt: "nb - BSIZE < nb" using True BSIZE_pos by linarith
      obtain k where k: "nb - BSIZE = k + nleft" "nleft \<le> BSIZE" "doff' = doff + BSIZE + k"
        "unat blk' * BSIZE = unat (blk + 1) * BSIZE + k" "file_keep s2 s' ip"
        "fbytes s' ip = upd_bytes (fbytes s2 ip) (unat (blk + 1) * BSIZE) k (\<lambda>j. data (doff + BSIZE + j))"
        using less.IH[OF lt file_keepD(1)[OF k2] lim 3] by blast
      have "fbytes s' ip = upd_bytes (fbytes s ip) (unat blk * BSIZE) (BSIZE + k) (\<lambda>j. data (doff + j))"
        using k(6) upd_bytes_append[of "fbytes s ip" "unat blk * BSIZE" BSIZE "\<lambda>j. data (doff + j)" k]
        by (simp add: b2 nx add.assoc add.commute[of BSIZE])
      then show ?thesis using k True file_keep_trans[OF k2 k(5)] by (intro exI[of _ "BSIZE + k"]) (simp add: nx)
    qed
  qed
  then show ?thesis using that by blast
qed
section \<open>Writing and reading\<close>

lemma unat_MAXFILE_SIZE: "unat MAXFILE_SIZE = MAXFILE_BLOCKS * BSIZE"
  by (simp add: MAXFILE_SIZE_def map_sizes BSIZE_def)

lemma unat_BSIZE: "unat (word_of_nat BSIZE :: size_t) = BSIZE"
  by (simp add: BSIZE_def)

lemma sint_small: "unat (w :: size_t) < 2 ^ 63 \<Longrightarrow> sint w = int (unat w)"
proof -
  assume w: "unat w < 2 ^ 63"
  define n where "n = unat w"
  have "int n < int (2 ^ 63)" using w unfolding n_def[symmetric] by (simp only: of_nat_less_iff)
  then have "signed_take_bit 63 (int n) = int n" by (intro signed_take_bit_int_eq_self) simp_all
  then show ?thesis by (simp add: sint_uint n_def)
qed

lemma unat_plus_small: "unat a + unat (b :: size_t) < 2 ^ 64 \<Longrightarrow> unat (a + b) = unat a + unat b"
  by (simp add: unat_word_ariths)

text \<open>The block an offset is in, and its place there.\<close>

lemma offset_block:
  assumes "unat (off :: size_t) \<le> MAXFILE_BLOCKS * BSIZE"
  shows "unat (ucast (off div word_of_nat BSIZE) :: uint) = unat off div BSIZE" "unat (off mod word_of_nat BSIZE) = unat off mod BSIZE"
proof -
  have d: "unat (off div word_of_nat BSIZE) = unat off div BSIZE" by (simp add: unat_div_distrib unat_BSIZE)
  have "unat off div BSIZE \<le> MAXFILE_BLOCKS * BSIZE div BSIZE" using assms by (rule div_le_mono)
  then have "unat off div BSIZE < 2 ^ 32" by (simp add: map_sizes)
  then show "unat (ucast (off div word_of_nat BSIZE) :: uint) = unat off div BSIZE"
    by (simp add: unsigned_ucast_eq d take_bit_nat_eq_self)
  show "unat (off mod word_of_nat BSIZE) = unat off mod BSIZE" by (simp add: unat_mod_distrib unat_BSIZE)
qed

text \<open>The length after the clamp.\<close>

definition clamped :: "size_t \<Rightarrow> size_t \<Rightarrow> size_t \<Rightarrow> size_t" where
  "clamped nbytes off lim = (if off + nbytes > lim then nbytes - (off + nbytes - lim) else nbytes)"

lemma unat_clamped:
  assumes "unat off + unat nbytes < 2 ^ 64" "off \<le> lim"
  shows "unat (clamped nbytes off lim) = min (unat nbytes) (unat lim - unat off)"
proof -
  have a: "unat (off + nbytes) = unat off + unat nbytes" by (rule unat_plus_small[OF assms(1)])
  have e: "nbytes - (off + nbytes - lim) = lim - off" by simp
  have "unat (lim - off) = unat lim - unat off" using assms(2) by (simp add: unat_sub)
  then show ?thesis using assms(2) by (auto simp: clamped_def e word_less_nat_alt word_le_nat_alt a)
qed

definition grown :: "size_t \<Rightarrow> size_t \<Rightarrow> minode \<Rightarrow> minode" where
  "grown off n i = i\<lparr>di_size := (if di_size i < off + n then off + n else di_size i)\<rparr>"

lemma grow_keep:
  assumes ok: "file_ok s ip"
  shows "file_ok (upd_inode ip (grown off n) s) ip" "fbytes (upd_inode ip (grown off n) s) ip = fbytes s ip"
    "foreign (upd_inode ip (grown off n) s) ip = foreign s ip"
proof -
  let ?s = "upd_inode ip (grown off n) s"
  have a: "di_addrs (it_inode ?s ip) = di_addrs (it_inode s ip)" "mi_inum (it_inode ?s ip) = mi_inum (it_inode s ip)" by (simp_all add: grown_def)
  note d = file_okD[OF ok]
  have n: "inode_node ?s ip = inode_node s ip" using a by simp
  have t: "tree_ok ?s ip" by (rule tree_ok_cong[OF d(5)]) (use a in simp_all)
  have "own_block ?s ip" using d(6) unfolding own_block_def Let_def n a(2) by simp
  then show "file_ok ?s ip" using d t a by (simp add: file_ok_def addrs_ok_def) (simp add: grown_def)
  show "fbytes ?s ip = fbytes s ip" by (rule fbytes_cong) (simp add: fdata_def fblock_def n fun_eq_iff grown_def)
  show "foreign ?s ip = foreign s ip" by (simp add: fun_eq_iff foreign_def n grown_def)
qed

lemma write_steps:
  assumes ok: "file_ok s ip" and fits: "unat off + unat nbytes < 2 ^ 64"
    and run: "inode_write_nbytes_locked ip data nbytes off s = Inr (r, s')" and False: "\<not> off > MAXFILE_SIZE"
    and m: "m = min (unat nbytes) (unat MAXFILE_SIZE - unat off)" and n_def: "n = clamped nbytes off MAXFILE_SIZE"
  shows "r = int m" "file_keep (upd_inode ip (grown off n) s) s' ip" "fbytes s' ip = upd_bytes (fbytes s ip) (unat off) m data"
    "unat (off + n) = unat off + m" "synced s' ip"
proof -
  note m_def = m
  have n: "unat n = m" unfolding n_def m_def by (rule unat_clamped[OF fits]) (use False in simp)
  define B where "B = unat MAXFILE_SIZE"
  have B: "B = MAXFILE_BLOCKS * BSIZE" by (simp add: B_def unat_MAXFILE_SIZE)
  have le: "unat off \<le> B" using False by (simp add: B_def word_le_nat_alt not_less)
  have lim: "unat off + m \<le> B" using le by (simp add: m_def B_def)
  have small: "B < 2 ^ 63" by (simp add: B map_sizes BSIZE_def)
  have sn: "sint n = int m" using sint_small[of n] n lim small by simp
  have un: "unat (off + n) = unat off + m" using unat_plus_small[of off n] n lim small by simp
  define blk :: uint where "blk = ucast (off div word_of_nat BSIZE)"
  define fr where "fr = unat (off mod word_of_nat BSIZE)"
  have bf: "unat blk = unat off div BSIZE" "fr = unat off mod BSIZE" using offset_block[OF le[unfolded B]] by (simp_all add: blk_def fr_def)
  have pos: "unat blk * BSIZE + fr = unat off" by (simp add: bf)
  have frB: "fr < BSIZE" by (simp add: bf)
  define s0 where "s0 = upd_inode ip (grown off n) s"
  note g = grow_keep[OF ok, of off n, folded s0_def]
  obtain s1 s2 s3 where 1: "iupdate ip s0 = Inr ((), s1)" and 2: "restart_op_on ip (MAXOPBLOCKS - 1 - 3 - 1) s1 = Inr ((), s2)"
    and 3: "write_part ip blk fr data 0 (min (BSIZE - fr) m) s2 = Inr ((), s3)"
    and rest: "(if m \<le> BSIZE - fr then chain (iupdate ip (touch_mtime ip s3)) (\<lambda>(_, s). Inr (int m, s))
       else chain (write_blocks ip data (m - (BSIZE - fr)) (BSIZE - fr) (blk + 1) s3) (\<lambda>((nleft, doff, blk), s).
         chain (restart_op_on ip (MAXOPBLOCKS - 3 - 1) s) (\<lambda>(_, s).
         chain (if nleft \<noteq> 0 then write_part ip blk 0 data doff nleft s else Inr ((), s)) (\<lambda>(_, s).
         chain (iupdate ip (touch_mtime ip s)) (\<lambda>(_, s).
         Inr (int m, s)))))) = Inr (r, s')"
    using run False
    unfolding inode_write_nbytes_locked_def Let_def clamped_def[symmetric] n_def[symmetric] grown_def[symmetric] s0_def[symmetric]
      blk_def[symmetric] fr_def[symmetric] n sn
    by (auto simp: chain_eq_Inr)
  note k1 = iupdate_keep(1,2)[OF g(1) 1]
  note k2 = restart_keep[OF file_keepD(1)[OF k1(1)] 2]
  have kk2: "file_keep s0 s2 ip" using file_keep_trans[OF k1(1) k2(1)] .
  note w = write_part_bytes[OF file_keepD(1)[OF kk2] 3]
  have k3: "file_keep s0 s3 ip" using file_keep_trans[OF kk2] w(1) frB by simp
  have b2: "fbytes s2 ip = fbytes s ip" using fbytes_cong[OF k1(2)] fbytes_cong[OF k2(2)] g(2) by simp
  have b3: "fbytes s3 ip = upd_bytes (fbytes s ip) (unat off) (min (BSIZE - fr) m) data"
    using w(2) frB by (simp add: b2 pos)
  have fin: "r = int m \<and> file_keep s0 s' ip \<and> fbytes s' ip = upd_bytes (fbytes s ip) (unat off) m data \<and> synced s' ip"
    if t: "chain (iupdate ip (touch_mtime ip t)) (\<lambda>(_, s). Inr (int m, s)) = Inr (r, s')"
      "file_keep s0 t ip" "fbytes t ip = upd_bytes (fbytes s ip) (unat off) m data" for t
  proof -
    note tk = touch_keep(3,4)[OF file_keepD(1)[OF t(2)]]
    obtain u where u: "iupdate ip (touch_mtime ip t) = Inr ((), u)" "r = int m" "s' = u" using t(1) by (auto simp: chain_eq_Inr)
    note uk = iupdate_keep(1,2)[OF file_keepD(1)[OF tk(1)] u(1)]
    show ?thesis
      using u iupdate_synced[OF file_keepD(1)[OF tk(1)] u(1)] file_keep_trans[OF t(2) file_keep_trans[OF tk(1) uk(1)]] fbytes_cong[OF uk(2)] fbytes_cong[OF tk(2)] t(3) by simp
  qed
  have "r = int m \<and> file_keep s0 s' ip \<and> fbytes s' ip = upd_bytes (fbytes s ip) (unat off) m data \<and> synced s' ip"
  proof (cases "m \<le> BSIZE - fr")
    case True
    then have "min (BSIZE - fr) m = m" by simp
    then show ?thesis using fin[of s3] rest True k3 b3 by simp
  next
    case F: False
    let ?d = "BSIZE - fr"
    obtain nleft doff blk' s4 s5 s6 where 4: "write_blocks ip data (m - ?d) ?d (blk + 1) s3 = Inr ((nleft, doff, blk'), s4)"
      and 5: "restart_op_on ip (MAXOPBLOCKS - 3 - 1) s4 = Inr ((), s5)"
      and 6: "(if nleft \<noteq> 0 then write_part ip blk' 0 data doff nleft s5 else Inr ((), s5)) = Inr ((), s6)"
      and 7: "chain (iupdate ip (touch_mtime ip s6)) (\<lambda>(_, s). Inr (int m, s)) = Inr (r, s')"
      using rest F by (auto simp: chain_eq_Inr)
    have off': "unat blk * BSIZE + BSIZE + (m - ?d) = unat off + m" using pos frB F by linarith
    then have nx: "unat (blk + 1) = Suc (unat blk)" by (intro unat_next_block) (use lim F B in linarith)
    have l4: "unat (blk + 1) * BSIZE + (m - ?d) \<le> MAXFILE_BLOCKS * BSIZE" using off' lim by (simp add: nx B)
    obtain k where k: "m - ?d = k + nleft" "nleft \<le> BSIZE" "doff = ?d + k" "unat blk' * BSIZE = unat (blk + 1) * BSIZE + k"
      "file_keep s3 s4 ip" "fbytes s4 ip = upd_bytes (fbytes s3 ip) (unat (blk + 1) * BSIZE) k (\<lambda>j. data (?d + j))"
      by (rule write_blocks_ok[OF file_keepD(1)[OF k3] l4 4])
    note r5 = restart_keep[OF file_keepD(1)[OF k(5)] 5]
    have st: "unat (blk + 1) * BSIZE = unat off + ?d" using pos frB by (simp add: nx)
    have mn: "min ?d m = ?d" using F by simp
    have b4: "fbytes s5 ip = upd_bytes (fbytes s ip) (unat off) (?d + k) data"
      using k(6) fbytes_cong[OF r5(2)] upd_bytes_append[of "fbytes s ip" "unat off" ?d data k] by (simp add: b3 st mn)
    have k5: "file_keep s0 s5 ip" using file_keep_trans[OF k3 file_keep_trans[OF k(5) r5(1)]] .
    have "file_keep s0 s6 ip \<and> fbytes s6 ip = upd_bytes (fbytes s ip) (unat off) m data"
    proof (cases "nleft = 0")
      case True
      then have "?d + k = m" using k(1) F by simp
      then show ?thesis using 6 True k5 b4 by simp
    next
      case N: False
      then have run6: "write_part ip blk' 0 data doff nleft s5 = Inr ((), s6)" using 6 by simp
      note w6 = write_part_bytes[OF file_keepD(1)[OF k5] run6]
      have tot: "?d + k + nleft = m" using k(1) F by simp
      have p6: "unat blk' * BSIZE + 0 = unat off + (?d + k)" using k(4) st by simp
      have "fbytes s6 ip = upd_bytes (fbytes s ip) (unat off) m data"
        using w6(2) k(2) upd_bytes_append[of "fbytes s ip" "unat off" "?d + k" data nleft] unfolding p6 b4 k(3) tot by simp
      then show ?thesis using file_keep_trans[OF k5] w6(1) k(2) by simp
    qed
    then show ?thesis using fin[OF 7] by blast
  qed
  then show "r = int m" "file_keep (upd_inode ip (grown off n) s) s' ip" "fbytes s' ip = upd_bytes (fbytes s ip) (unat off) m data" "synced s' ip"
    unfolding s0_def by auto
  show "unat (off + n) = unat off + m" by (rule un)
qed

lemma write_bytes:
  assumes ok: "file_ok s ip" and fits: "unat off + unat nbytes < 2 ^ 64"
    and run: "inode_write_nbytes_locked ip data nbytes off s = Inr (r, s')"
  shows "if off > MAXFILE_SIZE then r = 0 \<and> s' = s
    else let m = min (unat nbytes) (unat MAXFILE_SIZE - unat off) in
      r = int m \<and> file_ok s' ip \<and> fbytes s' ip = upd_bytes (fbytes s ip) (unat off) m data \<and>
      unat (di_size (it_inode s' ip)) = max (unat (di_size (it_inode s ip))) (unat off + m) \<and>
      (\<forall>c. foreign s ip c \<longrightarrow> foreign s' ip c \<and> view s' c = view s c) \<and> (\<forall>j. j \<noteq> ip \<longrightarrow> it_inode s' j = it_inode s j)"
proof (cases "off > MAXFILE_SIZE")
  case True
  then show ?thesis using run by (simp add: inode_write_nbytes_locked_def)
next
  case False
  define n where "n = clamped nbytes off MAXFILE_SIZE"
  define m where "m = min (unat nbytes) (unat MAXFILE_SIZE - unat off)"
  note R = write_steps[OF ok fits run False m_def n_def]
  note kd = file_keepD[OF R(2)]
  have "di_size (it_inode s' ip) = (if di_size (it_inode s ip) < off + n then off + n else di_size (it_inode s ip))"
    using metaD(1)[OF kd(3)] by (simp add: grown_def)
  then have "unat (di_size (it_inode s' ip)) = max (unat (di_size (it_inode s ip))) (unat off + m)"
    by (simp add: word_less_nat_alt R(4))
  moreover have "foreign s' ip c \<and> view s' c = view s c" if "foreign s ip c" for c
    using kd(5,6)[of c] that grow_keep(3)[OF ok] by simp
  moreover have "it_inode s' j = it_inode s j" if "j \<noteq> ip" for j using kd(4)[OF that] that by simp
  ultimately show ?thesis using R kd(1) False by (simp add: m_def[symmetric] Let_def)
qed

text \<open>
  C13: a write to a locked inode stores exactly the bytes asked for, clamped at the largest file,
  leaves every other byte of the file, every other inode and every block of the rest of the file
  system as they were, sets the size to the larger of the old size and the end of the write, and
  reports the number of bytes, also when it ends and starts operations of the log on the way.
\<close>

theorem inode_write_bytes:
  assumes ok: "file_ok s ip" and fits: "unat off + unat nbytes < 2 ^ 64"
    and run: "inode_write_nbytes_locked ip data nbytes off s = Inr (r, s')"
  shows "if off > MAXFILE_SIZE then r = 0 \<and> s' = s
    else let m = min (unat nbytes) (unat MAXFILE_SIZE - unat off) in
      r = int m \<and> file_ok s' ip \<and> fbytes s' ip = upd_bytes (fbytes s ip) (unat off) m data \<and>
      unat (di_size (it_inode s' ip)) = max (unat (di_size (it_inode s ip))) (unat off + m) \<and>
      (\<forall>c. foreign s ip c \<longrightarrow> foreign s' ip c \<and> view s' c = view s c) \<and> (\<forall>j. j \<noteq> ip \<longrightarrow> it_inode s' j = it_inode s j)"
  by (rule write_bytes[OF assms])
section \<open>Reading\<close>

lemma read_part_bytes:
  assumes "file_ok s ip" "read_part ip blk from data doff n s = Inr (data', s')" "from + n \<le> BSIZE"
  shows "file_keep s s' ip" "fbytes s' ip = fbytes s ip" "data' = upd_bytes data doff n (\<lambda>j. fbytes s ip (unat blk * BSIZE + from + j))"
proof -
  note r = read_part_keep[OF assms(1,2)]
  show "file_keep s s' ip" "fbytes s' ip = fbytes s ip" using r(1) fbytes_cong[OF r(2)] by simp_all
  have f: "fbytes s ip (unat blk * BSIZE + from + j) = fdata s ip (unat blk) (from + j)" if "j < n" for j
    using that assms(3) by (simp add: fbytes_def add.assoc)
  show "data' = upd_bytes data doff n (\<lambda>j. fbytes s ip (unat blk * BSIZE + from + j))"
  proof
    fix a
    have "a - doff < n" if "doff \<le> a" "a < doff + n" using that by linarith
    from f[OF this] show "data' a = upd_bytes data doff n (\<lambda>j. fbytes s ip (unat blk * BSIZE + from + j)) a"
      by (auto simp only: r(3) blit_out_def upd_bytes_def split: if_split)
  qed
qed

lemma read_blocks_ok:
  assumes "file_ok s ip" "unat blk * BSIZE + nb \<le> MAXFILE_BLOCKS * BSIZE"
    and "read_blocks ip data nb doff blk s = Inr ((data', nleft, doff', blk'), s')"
  obtains k where "nb = k + nleft" "nleft \<le> BSIZE" "doff' = doff + k" "unat blk' * BSIZE = unat blk * BSIZE + k" "file_keep s s' ip"
    "fbytes s' ip = fbytes s ip" "data' = upd_bytes data doff k (\<lambda>j. fbytes s ip (unat blk * BSIZE + j))"
proof -
  have "\<exists>k. nb = k + nleft \<and> nleft \<le> BSIZE \<and> doff' = doff + k \<and> unat blk' * BSIZE = unat blk * BSIZE + k \<and> file_keep s s' ip \<and>
    fbytes s' ip = fbytes s ip \<and> data' = upd_bytes data doff k (\<lambda>j. fbytes s ip (unat blk * BSIZE + j))"
    using assms
  proof (induction nb arbitrary: data doff blk s rule: less_induct)
    case (less nb)
    show ?case
    proof (cases "nb > BSIZE")
      case False
      then have "nleft = nb" "doff' = doff" "blk' = blk" "s' = s" "data' = data"
        using less.prems(3) by (simp_all add: read_blocks.simps[of ip data nb])
      then show ?thesis using False file_keep_refl[OF less.prems(1)] by (intro exI[of _ 0]) simp
    next
      case True
      then obtain s1 data1 s2 where 1: "restart_op_on ip (MAXOPBLOCKS - 1 - 3) s = Inr ((), s1)"
        and 2: "read_part ip blk 0 data doff BSIZE s1 = Inr (data1, s2)"
        and 3: "read_blocks ip data1 (nb - BSIZE) (doff + BSIZE) (blk + 1) s2 = Inr ((data', nleft, doff', blk'), s')"
        using less.prems(3) by (auto simp: read_blocks.simps[of ip data nb] chain_eq_Inr)
      note r = restart_keep[OF less.prems(1) 1]
      note w = read_part_bytes[OF file_keepD(1)[OF r(1)] 2]
      have k2: "file_keep s s2 ip" using file_keep_trans[OF r(1)] w(1) by simp
      have b2: "fbytes s2 ip = fbytes s ip" "data1 = upd_bytes data doff BSIZE (\<lambda>j. fbytes s ip (unat blk * BSIZE + j))"
        using w(2,3) fbytes_cong[OF r(2)] by simp_all
      have nx: "unat (blk + 1) = Suc (unat blk)" by (rule unat_next_block) (use less.prems(2) True in simp)
      have lim: "unat (blk + 1) * BSIZE + (nb - BSIZE) \<le> MAXFILE_BLOCKS * BSIZE" using less.prems(2) True by (simp add: nx)
      have lt: "nb - BSIZE < nb" using True BSIZE_pos by linarith
      obtain k where k: "nb - BSIZE = k + nleft" "nleft \<le> BSIZE" "doff' = doff + BSIZE + k"
        "unat blk' * BSIZE = unat (blk + 1) * BSIZE + k" "file_keep s2 s' ip" "fbytes s' ip = fbytes s2 ip"
        "data' = upd_bytes data1 (doff + BSIZE) k (\<lambda>j. fbytes s2 ip (unat (blk + 1) * BSIZE + j))"
        using less.IH[OF lt file_keepD(1)[OF k2] lim 3] by blast
      have "data' = upd_bytes data doff (BSIZE + k) (\<lambda>j. fbytes s ip (unat blk * BSIZE + j))"
        using k(7) unfolding b2 nx using upd_bytes_append[of data doff BSIZE "\<lambda>j. fbytes s ip (unat blk * BSIZE + j)" k]
        by (simp add: algebra_simps)
      then show ?thesis using k b2(1) True file_keep_trans[OF k2 k(5)] by (intro exI[of _ "BSIZE + k"]) (simp add: nx)
    qed
  qed
  then show ?thesis using that by blast
qed

lemma read_steps:
  assumes ok: "file_ok s ip" and fits: "unat off + unat nbytes < 2 ^ 64" and sz: "di_size (it_inode s ip) \<le> MAXFILE_SIZE"
    and run: "inode_read_nbytes_locked ip data nbytes off s = Inr ((r, data'), s')" and False: "\<not> off > di_size (it_inode s ip)"
    and m: "m = min (unat nbytes) (unat (di_size (it_inode s ip)) - unat off)"
  shows "r = int m" "file_keep s s' ip" "fbytes s' ip = fbytes s ip" "data' = upd_bytes data 0 m (\<lambda>j. fbytes s ip (unat off + j))"
    "synced s' ip"
proof -
  define size where "size = di_size (it_inode s ip)"
  define n where "n = clamped nbytes off size"
  have m_def: "m = min (unat nbytes) (unat size - unat off)" by (simp add: m size_def)
  have n: "unat n = m" unfolding n_def m_def by (rule unat_clamped[OF fits]) (use False size_def in simp)
  have sB: "unat size \<le> MAXFILE_BLOCKS * BSIZE" using sz by (simp add: size_def word_le_nat_alt unat_MAXFILE_SIZE)
  have le: "unat off \<le> unat size" using False by (simp add: size_def word_le_nat_alt not_less)
  have lim: "unat off + m \<le> MAXFILE_BLOCKS * BSIZE" using le sB by (simp add: m_def)
  have small: "MAXFILE_BLOCKS * BSIZE < 2 ^ 63" by (simp add: map_sizes BSIZE_def)
  have sn: "sint n = int m" using sint_small[of n] n lim small by simp
  define blk :: uint where "blk = ucast (off div word_of_nat BSIZE)"
  define fr where "fr = unat (off mod word_of_nat BSIZE)"
  have offB: "unat off \<le> MAXFILE_BLOCKS * BSIZE" using le sB by simp
  have bf: "unat blk = unat off div BSIZE" "fr = unat off mod BSIZE" using offset_block[OF offB] by (simp_all add: blk_def fr_def)
  have pos: "unat blk * BSIZE + fr = unat off" by (simp add: bf)
  have frB: "fr < BSIZE" by (simp add: bf)
  obtain data1 s1 where 1: "read_part ip blk fr data 0 (min (BSIZE - fr) m) s = Inr (data1, s1)"
    and rest: "(if m \<le> BSIZE - fr then chain (iupdate ip (touch_atime ip s1)) (\<lambda>(_, s). Inr ((int m, data1), s))
       else chain (read_blocks ip data1 (m - (BSIZE - fr)) (BSIZE - fr) (blk + 1) s1) (\<lambda>((data, nleft, doff, blk), s).
         chain (if nleft \<noteq> 0 then
             chain (restart_op_on ip (MAXOPBLOCKS - 1 - 3) s) (\<lambda>(_, s). read_part ip blk 0 data doff nleft s)
           else Inr (data, s)) (\<lambda>(data, s).
         chain (iupdate ip s) (\<lambda>(_, s).
         Inr ((int m, data), touch_atime ip s))))) = Inr ((r, data'), s')"
    using run False
    unfolding inode_read_nbytes_locked_def Let_def clamped_def[symmetric] size_def[symmetric] n_def[symmetric]
      blk_def[symmetric] fr_def[symmetric] n sn
    by (auto simp: chain_eq_Inr)
  note r1 = read_part_bytes[OF ok 1]
  have k1: "file_keep s s1 ip" "fbytes s1 ip = fbytes s ip" "data1 = upd_bytes data 0 (min (BSIZE - fr) m) (\<lambda>j. fbytes s ip (unat off + j))"
    using r1 frB by (simp_all add: pos)
  have "r = int m \<and> file_keep s s' ip \<and> fbytes s' ip = fbytes s ip \<and> data' = upd_bytes data 0 m (\<lambda>j. fbytes s ip (unat off + j)) \<and> synced s' ip"
  proof (cases "m \<le> BSIZE - fr")
    case True
    then obtain s2 where u: "iupdate ip (touch_atime ip s1) = Inr ((), s2)" "r = int m" "data' = data1" "s' = s2"
      using rest by (auto simp: chain_eq_Inr)
    note t = touch_keep(1,2)[OF file_keepD(1)[OF k1(1)]]
    note k = iupdate_keep(1,2)[OF file_keepD(1)[OF t(1)] u(1)]
    have "min (BSIZE - fr) m = m" using True by simp
    then show ?thesis using u iupdate_synced[OF file_keepD(1)[OF t(1)] u(1)] k1 file_keep_trans[OF k1(1) file_keep_trans[OF t(1) k(1)]] fbytes_cong[OF t(2)] fbytes_cong[OF k(2)] by simp
  next
    case F: False
    let ?d = "BSIZE - fr"
    obtain data2 nleft doff blk' s2 data3 s3 s4 where 2: "read_blocks ip data1 (m - ?d) ?d (blk + 1) s1 = Inr ((data2, nleft, doff, blk'), s2)"
      and 3: "(if nleft \<noteq> 0 then chain (restart_op_on ip (MAXOPBLOCKS - 1 - 3) s2) (\<lambda>(_, s). read_part ip blk' 0 data2 doff nleft s)
           else Inr (data2, s2)) = Inr (data3, s3)"
      and 4: "iupdate ip s3 = Inr ((), s4)" "r = int m" "data' = data3" "s' = touch_atime ip s4"
      using rest F by (auto simp: chain_eq_Inr)
    have off': "unat blk * BSIZE + BSIZE + (m - ?d) = unat off + m" using pos frB F by linarith
    then have nx: "unat (blk + 1) = Suc (unat blk)" by (intro unat_next_block) (use lim F in linarith)
    have l4: "unat (blk + 1) * BSIZE + (m - ?d) \<le> MAXFILE_BLOCKS * BSIZE" using off' lim by (simp add: nx)
    obtain k where k: "m - ?d = k + nleft" "nleft \<le> BSIZE" "doff = ?d + k" "unat blk' * BSIZE = unat (blk + 1) * BSIZE + k"
      "file_keep s1 s2 ip" "fbytes s2 ip = fbytes s1 ip" "data2 = upd_bytes data1 ?d k (\<lambda>j. fbytes s1 ip (unat (blk + 1) * BSIZE + j))"
      by (rule read_blocks_ok[OF file_keepD(1)[OF k1(1)] l4 2])
    have st: "unat (blk + 1) * BSIZE = unat off + ?d" using pos frB by (simp add: nx)
    have mn: "min ?d m = ?d" using F by simp
    have d2: "data2 = upd_bytes data 0 (?d + k) (\<lambda>j. fbytes s ip (unat off + j))"
      using k(7) upd_bytes_append[of data 0 ?d "\<lambda>j. fbytes s ip (unat off + j)" k] by (simp add: k1 st mn add.assoc)
    have k2: "file_keep s s2 ip" using file_keep_trans[OF k1(1) k(5)] .
    have "file_keep s s3 ip \<and> fbytes s3 ip = fbytes s ip \<and> data3 = upd_bytes data 0 m (\<lambda>j. fbytes s ip (unat off + j))"
    proof (cases "nleft = 0")
      case True
      then have "?d + k = m" using k(1) F by simp
      then show ?thesis using 3 True k2 d2 k(6) k1(2) by simp
    next
      case N: False
      obtain s5 where 5: "restart_op_on ip (MAXOPBLOCKS - 1 - 3) s2 = Inr ((), s5)" "read_part ip blk' 0 data2 doff nleft s5 = Inr (data3, s3)"
        using 3 N by (auto simp: chain_eq_Inr)
      note r5 = restart_keep[OF file_keepD(1)[OF k2] 5(1)]
      have k5: "file_keep s s5 ip" "fbytes s5 ip = fbytes s ip" using file_keep_trans[OF k2 r5(1)] fbytes_cong[OF r5(2)] k(6) k1(2) by simp_all
      note r6 = read_part_bytes[OF file_keepD(1)[OF k5(1)] 5(2)]
      have tot: "?d + k + nleft = m" using k(1) F by simp
      have p6: "unat blk' * BSIZE + 0 = unat off + (?d + k)" using k(4) st by simp
      have "data3 = upd_bytes data 0 m (\<lambda>j. fbytes s ip (unat off + j))"
        using r6(3) k(2) upd_bytes_append[of data 0 "?d + k" "\<lambda>j. fbytes s ip (unat off + j)" nleft] unfolding p6 k5(2) d2 k(3) tot
        by (simp add: add.assoc)
      then show ?thesis using file_keep_trans[OF k5(1)] r6(1,2) k(2) k5(2) by simp
    qed
    then have k3: "file_keep s s3 ip" "fbytes s3 ip = fbytes s ip" "data3 = upd_bytes data 0 m (\<lambda>j. fbytes s ip (unat off + j))" by auto
    note u = iupdate_keep(1,2)[OF file_keepD(1)[OF k3(1)] 4(1)]
    note t = touch_keep(1,2)[OF file_keepD(1)[OF u(1)]]
    show ?thesis using 4 touch_synced[OF iupdate_synced[OF file_keepD(1)[OF k3(1)] 4(1)]] k3 file_keep_trans[OF k3(1) file_keep_trans[OF u(1) t(1)]] fbytes_cong[OF u(2)] fbytes_cong[OF t(2)] by simp
  qed
  then show "r = int m" "file_keep s s' ip" "fbytes s' ip = fbytes s ip" "data' = upd_bytes data 0 m (\<lambda>j. fbytes s ip (unat off + j))"
    "synced s' ip" by auto
qed

lemma read_bytes:
  assumes ok: "file_ok s ip" and fits: "unat off + unat nbytes < 2 ^ 64" and sz: "di_size (it_inode s ip) \<le> MAXFILE_SIZE"
    and run: "inode_read_nbytes_locked ip data nbytes off s = Inr ((r, data'), s')"
  shows "if off > di_size (it_inode s ip) then r = 0 \<and> data' = data \<and> s' = s
    else let m = min (unat nbytes) (unat (di_size (it_inode s ip)) - unat off) in
      r = int m \<and> data' = upd_bytes data 0 m (\<lambda>j. fbytes s ip (unat off + j)) \<and> file_ok s' ip \<and> fbytes s' ip = fbytes s ip \<and>
      di_size (it_inode s' ip) = di_size (it_inode s ip) \<and>
      (\<forall>c. foreign s ip c \<longrightarrow> foreign s' ip c \<and> view s' c = view s c) \<and> (\<forall>j. j \<noteq> ip \<longrightarrow> it_inode s' j = it_inode s j)"
proof (cases "off > di_size (it_inode s ip)")
  case True
  then show ?thesis using run by (simp add: inode_read_nbytes_locked_def)
next
  case False
  note R = read_steps[OF ok fits sz run False refl]
  note kd = file_keepD[OF R(2)]
  show ?thesis using False R kd metaD(1)[OF kd(3)] by (simp add: Let_def)
qed

text \<open>
  C30: a read from a locked inode delivers exactly the bytes of the file from the offset on,
  clamped at the size of the file, reports their number, and leaves the bytes and size of the
  file, every other inode and every block of the rest of the file system as they were, although it
  may allocate blocks for holes.
\<close>

theorem inode_read_bytes:
  assumes ok: "file_ok s ip" and fits: "unat off + unat nbytes < 2 ^ 64" and sz: "di_size (it_inode s ip) \<le> MAXFILE_SIZE"
    and run: "inode_read_nbytes_locked ip data nbytes off s = Inr ((r, data'), s')"
  shows "if off > di_size (it_inode s ip) then r = 0 \<and> data' = data \<and> s' = s
    else let m = min (unat nbytes) (unat (di_size (it_inode s ip)) - unat off) in
      r = int m \<and> data' = upd_bytes data 0 m (\<lambda>j. fbytes s ip (unat off + j)) \<and> file_ok s' ip \<and> fbytes s' ip = fbytes s ip \<and>
      di_size (it_inode s' ip) = di_size (it_inode s ip) \<and>
      (\<forall>c. foreign s ip c \<longrightarrow> foreign s' ip c \<and> view s' c = view s c) \<and> (\<forall>j. j \<noteq> ip \<longrightarrow> it_inode s' j = it_inode s j)"
  by (rule read_bytes[OF assms])

theorem write_read_roundtrip:
  assumes ok: "file_ok s ip" and lim: "unat off + unat nbytes \<le> unat MAXFILE_SIZE" "di_size (it_inode s ip) \<le> MAXFILE_SIZE"
    and wr: "inode_write_nbytes_locked ip data nbytes off s = Inr (r, s1)"
    and rd: "inode_read_nbytes_locked ip buf nbytes off s1 = Inr ((r', buf'), s2)"
  shows "r = int (unat nbytes) \<and> r' = int (unat nbytes) \<and> (\<forall>j<unat nbytes. buf' j = data j)"
proof -
  have fits: "unat off + unat nbytes < 2 ^ 64"
  proof -
    have "unat MAXFILE_SIZE < 2 ^ 64" by (simp add: unat_MAXFILE_SIZE map_sizes BSIZE_def)
    then show ?thesis using lim(1) by simp
  qed
  have o: "\<not> off > MAXFILE_SIZE" using lim(1) by (simp add: word_less_nat_alt)
  have m: "min (unat nbytes) (unat MAXFILE_SIZE - unat off) = unat nbytes" using lim(1) by simp
  note w = write_bytes[OF ok fits wr]
  have w1: "r = int (unat nbytes)" "file_ok s1 ip" "fbytes s1 ip = upd_bytes (fbytes s ip) (unat off) (unat nbytes) data"
    "unat (di_size (it_inode s1 ip)) = max (unat (di_size (it_inode s ip))) (unat off + unat nbytes)"
    using w o unfolding Let_def m by simp_all
  have sz: "di_size (it_inode s1 ip) \<le> MAXFILE_SIZE" using lim by (simp add: word_le_nat_alt w1(4))
  have o1: "\<not> off > di_size (it_inode s1 ip)" by (simp add: word_less_nat_alt w1(4))
  have m1: "min (unat nbytes) (unat (di_size (it_inode s1 ip)) - unat off) = unat nbytes" unfolding w1(4) by simp
  have r1: "r' = int (unat nbytes)" "buf' = upd_bytes buf 0 (unat nbytes) (\<lambda>j. fbytes s1 ip (unat off + j))"
    using read_bytes[OF w1(2) fits sz rd] o1 unfolding Let_def m1 by simp_all
  then show ?thesis using w1(1) by (simp add: w1(3) upd_bytes_def)
qed

section \<open>Enough room\<close>

text \<open>
  The log has room for \<open>w\<close> more writes, which do not make the operation restart, and \<open>f\<close> blocks are
  free. With enough of both, reading and writing inside one block return.
\<close>

definition quota :: "nat \<Rightarrow> nat \<Rightarrow> 'a itable_scheme \<Rightarrow> bool" where
  "quota w f s \<longleftrightarrow> lh_n s + int w \<le> lg_size s - 1 \<and> 1 \<le> lg_outstanding s \<and> f \<le> card (free_blocks s) \<and> unat (n_log_wrote s) + w < 121"

lemma quota_mono: "quota w f s \<Longrightarrow> w' \<le> w \<Longrightarrow> f' \<le> f \<Longrightarrow> quota w' f' s"
  by (simp add: quota_def)

lemma quota_step:
  assumes q: "quota (n + w) (m + f) s" and l: "logged_as s s' k" "k \<le> n" and f: "it_frame s' = it_frame s"
    and free: "card (free_blocks s) \<le> card (free_blocks s') + m"
  shows "quota w f s'"
proof -
  have "unat (n_log_wrote s + word_of_nat k) \<le> unat (n_log_wrote s) + k" unfolding unat_word_ariths
    by (rule order_trans[OF mod_less_eq_dividend]) (simp add: unsigned_of_nat take_bit_nat_less_eq_self)
  then show ?thesis using q l free it_frameD[OF f] by (simp add: quota_def logged_as_def)
qed

lemma free_blocks_cong: "it_frame s' = it_frame s \<Longrightarrow> bm_bit s' = bm_bit s \<Longrightarrow> free_blocks s' = free_blocks s"
  by (simp add: free_blocks_def it_frame_def)

text \<open>The direct blocks a file has. Reading and writing in them needs no room for the map.\<close>

definition direct :: "'a itable_scheme \<Rightarrow> nat \<Rightarrow> nat \<Rightarrow> bool" where
  "direct s ip k \<longleftrightarrow> k < NDIRECT \<and> di_addrs (it_inode s ip) k \<noteq> 0"

definition more_direct :: "'a itable_scheme \<Rightarrow> 'a itable_scheme \<Rightarrow> nat \<Rightarrow> bool" where
  "more_direct s s' ip \<longleftrightarrow> (\<forall>k. direct s ip k \<longrightarrow> direct s' ip k)"

definition map_need :: "'a itable_scheme \<Rightarrow> nat \<Rightarrow> nat \<Rightarrow> nat \<Rightarrow> nat \<Rightarrow> bool" where
  "map_need s ip k cw cf \<longleftrightarrow> cw = 11 \<and> cf = 4 \<or> cw = 0 \<and> cf = 0 \<and> direct s ip k"

lemma more_direct_trans: "more_direct s s1 ip \<Longrightarrow> more_direct s1 s2 ip \<Longrightarrow> more_direct s s2 ip"
  by (simp add: more_direct_def)

lemma more_direct_same: "di_addrs (it_inode s' ip) = di_addrs (it_inode s ip) \<Longrightarrow> more_direct s s' ip"
  by (simp add: more_direct_def direct_def)

lemma map_need_more: "map_need s ip k cw cf \<Longrightarrow> more_direct s s' ip \<Longrightarrow> map_need s' ip k cw cf"
  by (auto simp: map_need_def more_direct_def)

lemma touch_direct: "more_direct s (touch_atime ip s) ip" "more_direct s (touch_mtime ip s) ip"
  by (rule more_direct_same; simp add: touch_atime_def touch_mtime_def get_current_timespec_def Let_def)+

lemma iupdate_quota:
  assumes ok: "file_ok s ip" and q: "quota (1 + w) f s"
  obtains s' where "iupdate ip s = Inr ((), s')" "quota w f s'" "more_direct s s' ip"
proof -
  note d = file_okD[OF ok]
  have db: "data_block s (IBLOCK (mi_inum (it_inode s ip)) s)" using d(11) by (simp add: usable_def)
  obtain s' where run: "iupdate ip s = Inr ((), s')"
    using iupdate_returns[OF d(1) few_held_empty[OF d(2)] _ db] q by (auto simp: d(2) quota_def)
  note k = iupdate_keep[OF ok run] iupdate_ok[OF d(1,3,11) run]
  have "bm_bit s' = bm_bit s" "it_frame s' = it_frame s"
    by (rule iupdate_ok[OF d(1,3,11) run]; simp)+
  then have q': "quota w f s'" using quota_step[of 1 w 0 f s s' 1] q iupdate_keep(3)[OF ok run] free_blocks_cong[of s' s] by simp
  have "di_addrs (it_inode s' ip) = di_addrs (it_inode s ip)" by (rule iupdate_ok[OF d(1,3,11) run]) simp
  then show ?thesis by (intro that[OF run q'] more_direct_same)
qed

lemma imap_direct:
  assumes ok: "file_ok s ip" and run: "imap2blockno ip blk s = Inr (b, s')"
  shows "more_direct s s' ip" "unat blk < NDIRECT \<Longrightarrow> direct s' ip (unat blk)"
proof -
  note d = file_okD[OF ok]
  note i = imap2blockno_ok[OF d(1,3-5) run]
  note x = imap_extD[OF i(2)]
  have e: "fblock t ip k = di_addrs (it_inode t ip) k" if "k < NDIRECT" for t :: "'a itable_scheme" and k
    using that by (simp add: fblock_def block_path_def)
  show "unat blk < NDIRECT \<Longrightarrow> direct s' ip (unat blk)" using i(4,5) e by (simp add: direct_def)
  have "di_addrs (it_inode s' ip) k \<noteq> 0" if "direct s ip k" for k
  proof -
    have k: "k < NDIRECT" "k < MAXFILE_BLOCKS" using that by (simp_all add: direct_def map_sizes)
    show ?thesis using x(7)[OF full_block_pathD[OF k(2)]] that e[OF k(1), of s] e[OF k(1), of s'] by (simp add: direct_def fblock_def)
  qed
  then show "more_direct s s' ip" by (simp add: more_direct_def direct_def)
qed

lemma imap_quota:
  assumes ok: "file_ok s ip" and need: "map_need s ip (unat blk) cw cf" and q: "quota (cw + w) (cf + f) s" "1 \<le> f" and n: "unat blk < MAXFILE_BLOCKS"
  obtains b s' where "imap2blockno ip blk s = Inr (b, s')" "quota w f s'"
proof (cases "direct s ip (unat blk)")
  case True
  have "unat (n_log_wrote s) < 121" using q by (simp add: quota_def)
  then have "imap2blockno ip blk s = Inr (di_addrs (it_inode s ip) (unat blk), s)"
    using True by (simp add: imap2blockno_def assert_no_need_to_restart_op_def MAXOPBLOCKS_def direct_def imap_root_def)
  then show ?thesis by (rule that) (rule quota_mono[OF q(1)]; simp)
next
  case False
  then have q: "quota (11 + w) (4 + f) s" "1 \<le> f" using q need by (auto simp: map_need_def)
  note d = file_okD[OF ok]
  have "returns (imap2blockno ip blk s) (\<lambda>(b, s'). card (free_blocks s) \<le> card (free_blocks s') + 4)"
    using imap2blockno_total[OF d(1-5) n] q by (auto simp: quota_def MAXOPBLOCKS_def elim!: returns_mono)
  then obtain b s' where r: "imap2blockno ip blk s = Inr (b, s')" "card (free_blocks s) \<le> card (free_blocks s') + 4"
    by (auto elim!: returnsE)
  obtain k where k: "k \<le> 11" "logged_as s s' k" using imap_log_cost[OF d(1,3-5) r(1)] by blast
  have "quota w f s'" by (rule quota_step[OF q(1) k(2,1) file_keepD(2)[OF imap_keep(1)[OF ok r(1)]] r(2)])
  then show ?thesis by (rule that[OF r(1)])
qed

lemma read_quota:
  assumes ok: "file_ok s ip" and need: "map_need s ip (unat blk) cw cf" and q: "quota (cw + w) (cf + f) s" "1 \<le> f"
    and n: "unat blk < MAXFILE_BLOCKS"
  obtains data' s' where "read_part ip blk from data doff k s = Inr (data', s')" "quota w f s'" "more_direct s s' ip"
    "unat blk < NDIRECT \<Longrightarrow> direct s' ip (unat blk)"
proof -
  obtain a s1 where 1: "imap2blockno ip blk s = Inr (a, s1)" "quota w f s1" by (rule imap_quota[OF ok need q n])
  note dk = imap_direct[OF ok 1(1)]
  note i = imap_keep[OF ok 1(1)]
  note d = file_okD[OF file_keepD(1)[OF i(1)]]
  have us: "usable s1 a" using tree_okD(1)[OF d(5) full_block_pathD[OF n]] i(3,4) by (simp add: fblock_def)
  have db: "data_block s1 a" using us by (simp add: usable_def)
  obtain h s2 where 2: "logged_read a s1 = Inr (h, s2)" by (rule logged_read_returns[OF d(1) _ db]) (simp_all add: d(2))
  note m = lg.read_release[OF d(1) db 2]
  have run: "read_part ip blk from data doff k s = Inr (blit_out data doff (buf_data s2 h) from k, logged_relse h s2)"
    by (simp add: read_part_def 1(1) 2)
  have fr: "bm_frame (logged_relse h s2) = bm_frame s1" by (rule bm_frame_of_log_frame[OF m(5)])
  note it = it_frame_of_bm_frame[OF fr]
  have "bm_bit (logged_relse h s2) = bm_bit s1" using bm_same[OF m(5)] m(3) by simp
  moreover have "lh_n (logged_relse h s2) = lh_n s1 \<and> n_log_wrote (logged_relse h s2) = n_log_wrote s1"
    using log_fields_more[OF logged_read_more[OF d(1) db 2]] log_fields_more[of "logged_relse h s2" s2] by simp
  ultimately have "quota w f (logged_relse h s2)" using 1(2) it_frameD[OF it(1)] free_blocks_cong[OF it(1)] by (simp add: quota_def)
  then show ?thesis using dk by (intro that[OF run]) (simp_all add: more_direct_def direct_def it(2))
qed

lemma write_quota:
  assumes ok: "file_ok s ip" and need: "map_need s ip (unat blk) cw cf" and q: "quota (cw + 1 + w) (cf + f) s" "1 \<le> f"
    and n: "unat blk < MAXFILE_BLOCKS"
  obtains s' where "write_part ip blk from data doff k s = Inr ((), s')" "quota w f s'" "more_direct s s' ip"
    "unat blk < NDIRECT \<Longrightarrow> direct s' ip (unat blk)"
proof -
  have q': "quota (cw + (1 + w)) (cf + f) s" using q(1) by (simp add: quota_def)
  obtain a s1 where 1: "imap2blockno ip blk s = Inr (a, s1)" "quota (1 + w) f s1" by (rule imap_quota[OF ok need q' q(2) n])
  note dk = imap_direct[OF ok 1(1)]
  note i = imap_keep[OF ok 1(1)]
  note d = file_okD[OF file_keepD(1)[OF i(1)]]
  have us: "usable s1 a" using tree_okD(1)[OF d(5) full_block_pathD[OF n]] i(3,4) by (simp add: fblock_def)
  have db: "data_block s1 a" using us by (simp add: usable_def)
  have r: "lh_n s1 < lg_size s1 - 1" "1 \<le> lg_outstanding s1" using 1(2) by (simp_all add: quota_def)
  have h: "few_held s1" "held s1 a = None" using few_held_empty[OF d(2)] d(2) by simp_all
  obtain h s2 s3 where 2: "logged_read a s1 = Inr (h, s2)"
    and 3: "logged_write h (set_data h (blit_in (buf_data s2 h) from data doff k) s2) = Inr ((), s3)"
    by (rule modify_returns[OF d(1) h db r, of "\<lambda>d. blit_in d from data doff k"])
  note m = modify_usable[OF d(1,3) us 2 3]
  have run: "write_part ip blk from data doff k s = Inr ((), logged_relse h s3)" by (simp add: write_part_def 1(1) 2 3)
  have fr: "it_frame (logged_relse h s3) = it_frame s1" "it_inode (logged_relse h s3) = it_inode s1" using m it_frame_of_bm_frame by blast+
  have "logged_as s1 (logged_relse h s3) 1" using modify_count[OF d(1) db 2 3] by (simp add: logged_as_def)
  moreover have "free_blocks (logged_relse h s3) = free_blocks s1" using m by (intro free_blocks_cong[OF fr(1)]) simp
  ultimately have "quota w f (logged_relse h s3)" using quota_step[of 1 w 0 f s1 _ 1, OF _ _ _ fr(1)] 1(2) by simp
  then show ?thesis using dk by (intro that[OF run]) (simp_all add: more_direct_def direct_def fr(2))
qed

lemma touch_quota: "quota w f (touch_atime ip s) = quota w f s" "quota w f (touch_mtime ip s) = quota w f s"
  by (simp_all add: quota_def touch_atime_def touch_mtime_def get_current_timespec_def Let_def free_blocks_def)

lemma restart_not_needed: "quota w f s \<Longrightarrow> 122 \<le> k \<Longrightarrow> restart_op_on ip k s = Inr ((), s)"
  by (auto simp: quota_def restart_op_on_def)

lemma write_total:
  assumes ok: "file_ok s ip" and need: "map_need s ip (unat off div BSIZE) cw cf" and q: "quota (3 + cw + w) (cf + f) s" "1 \<le> f"
    and lim: "unat off < unat MAXFILE_SIZE" "unat off mod BSIZE + unat nbytes \<le> BSIZE"
  obtains s' where "inode_write_nbytes_locked ip data nbytes off s = Inr (int (unat nbytes), s')" "file_ok s' ip"
    "fbytes s' ip = upd_bytes (fbytes s ip) (unat off) (unat nbytes) data" "quota w f s'"
    "unat (di_size (it_inode s' ip)) = max (unat (di_size (it_inode s ip))) (unat off + unat nbytes)"
    "more_direct s s' ip" "unat off div BSIZE < NDIRECT \<Longrightarrow> direct s' ip (unat off div BSIZE)"
proof -
  let ?s0 = "upd_inode ip (grown off nbytes) s"
  have B: "unat MAXFILE_SIZE = MAXFILE_BLOCKS * BSIZE" by (rule unat_MAXFILE_SIZE)
  note ob = offset_block[OF less_imp_le[OF lim(1), unfolded B]]
  have k: "unat off div BSIZE < MAXFILE_BLOCKS" using lim(1) unfolding B by (simp add: less_mult_imp_div_less)
  have "unat off + unat nbytes \<le> unat off div BSIZE * BSIZE + BSIZE"
    using lim(2) div_mult_mod_eq[of "unat off" BSIZE] by linarith
  also have "\<dots> \<le> unat MAXFILE_SIZE" unfolding B using k mult_le_mono1[of "Suc (unat off div BSIZE)" MAXFILE_BLOCKS BSIZE] by simp
  finally have fit: "unat off + unat nbytes \<le> unat MAXFILE_SIZE" .
  have small: "unat MAXFILE_SIZE < 2 ^ 63" by (simp add: B map_sizes BSIZE_def)
  have le: "\<not> off > MAXFILE_SIZE" "\<not> off + nbytes > MAXFILE_SIZE"
    using lim(1) unat_plus_small[of off nbytes] fit small by (simp_all add: word_less_nat_alt)
  have q0: "quota (1 + (cw + 1 + (1 + w))) (cf + f) ?s0" using q by (simp add: quota_def free_blocks_def)
  have g: "file_ok ?s0 ip" by (rule grow_keep[OF ok])
  obtain s1 where 1: "iupdate ip ?s0 = Inr ((), s1)" "quota (cw + 1 + (1 + w)) (cf + f) s1" "more_direct ?s0 s1 ip" by (rule iupdate_quota[OF g q0])
  have m1: "more_direct s s1 ip" by (rule more_direct_trans[OF more_direct_same 1(3)]) (simp add: grown_def)
  have ok1: "file_ok s1 ip" by (rule file_keepD(1)[OF iupdate_keep(1)[OF g 1(1)]])
  let ?blk = "ucast (off div word_of_nat BSIZE) :: uint"
  have b: "unat ?blk = unat off div BSIZE" "unat ?blk < MAXFILE_BLOCKS" using k ob by simp_all
  have need1: "map_need s1 ip (unat ?blk) cw cf" using map_need_more[OF need m1] b(1) by simp
  obtain s2 where 2: "write_part ip ?blk (unat (off mod word_of_nat BSIZE)) data 0 (unat nbytes) s1 = Inr ((), s2)" "quota (1 + w) f s2"
    "more_direct s1 s2 ip" "unat ?blk < NDIRECT \<Longrightarrow> direct s2 ip (unat ?blk)"
    by (rule write_quota[OF ok1 need1 1(2) q(2) b(2)]) blast
  have ok2: "file_ok (touch_mtime ip s2) ip" by (rule file_keepD(1)[OF touch_keep(3)[OF file_keepD(1)[OF write_part_keep(1)[OF ok1 2(1)]]]])
  have q2: "quota (1 + w) f (touch_mtime ip s2)" using 2(2) by (simp add: touch_quota)
  obtain s3 where 3: "iupdate ip (touch_mtime ip s2) = Inr ((), s3)" "quota w f s3" "more_direct (touch_mtime ip s2) s3 ip" by (rule iupdate_quota[OF ok2 q2])
  have m23: "more_direct s2 s3 ip" by (rule more_direct_trans[OF touch_direct(2) 3(3)])
  have m3: "more_direct s s3 ip" by (rule more_direct_trans[OF m1 more_direct_trans[OF 2(3) m23]])
  have d3: "unat off div BSIZE < NDIRECT \<Longrightarrow> direct s3 ip (unat off div BSIZE)" using 2(4) m23 b(1) by (simp add: more_direct_def)
  have "restart_op_on ip (MAXOPBLOCKS - 1 - 3 - 1) s1 = Inr ((), s1)" by (rule restart_not_needed[OF 1(2)]) (simp add: MAXOPBLOCKS_def)
  moreover have mn: "min (BSIZE - unat off mod BSIZE) (unat nbytes) = unat nbytes" "unat nbytes \<le> BSIZE - unat off mod BSIZE" using lim(2) by simp_all
  ultimately have run: "inode_write_nbytes_locked ip data nbytes off s = Inr (sint nbytes, s3)"
    using le 1(1) 2(1) 3(1) ob by (simp add: inode_write_nbytes_locked_def Let_def grown_def[abs_def])
  have "unat off + unat nbytes < 2 ^ 64" using fit small by simp
  note w = write_bytes[OF ok this run]
  have "min (unat nbytes) (unat MAXFILE_SIZE - unat off) = unat nbytes" using fit by simp
  then show ?thesis using w le(1) sint_small[of nbytes] fit small run 3(2) m3 d3 by (intro that[of s3]) (simp_all add: Let_def)
qed

theorem write_in_block_total:
  assumes "file_ok s ip" "quota 14 5 s" "unat off < unat MAXFILE_SIZE" "unat off mod BSIZE + unat nbytes \<le> BSIZE"
  shows "returns (inode_write_nbytes_locked ip data nbytes off s) (\<lambda>(r, s'). r = int (unat nbytes) \<and> file_ok s' ip \<and>
    fbytes s' ip = upd_bytes (fbytes s ip) (unat off) (unat nbytes) data)"
proof -
  have n: "map_need s ip (unat off div BSIZE) 11 4" by (simp add: map_need_def)
  have q: "quota (3 + 11 + 0) (4 + 1) s" using assms(2) by simp
  show ?thesis by (rule write_total[OF assms(1) n q order_refl assms(3,4), of data]) simp
qed

lemma read_total:
  assumes ok: "file_ok s ip" and need: "map_need s ip (unat off div BSIZE) cw cf" and q: "quota (1 + cw + w) (cf + f) s" "1 \<le> f"
    and lim: "unat off + unat nbytes \<le> unat (di_size (it_inode s ip))" "unat off < unat MAXFILE_SIZE"
      "unat off mod BSIZE + unat nbytes \<le> BSIZE" "di_size (it_inode s ip) \<le> MAXFILE_SIZE"
  obtains data' s' where "inode_read_nbytes_locked ip data nbytes off s = Inr ((int (unat nbytes), data'), s')"
    "data' = upd_bytes data 0 (unat nbytes) (\<lambda>j. fbytes s ip (unat off + j))" "file_ok s' ip" "fbytes s' ip = fbytes s ip"
    "quota w f s'" "more_direct s s' ip" "unat off div BSIZE < NDIRECT \<Longrightarrow> direct s' ip (unat off div BSIZE)"
proof -
  have B: "unat MAXFILE_SIZE = MAXFILE_BLOCKS * BSIZE" by (rule unat_MAXFILE_SIZE)
  have lim': "unat off < MAXFILE_BLOCKS * BSIZE" using lim(2) by (simp add: B)
  note ob = offset_block[OF less_imp_le[OF lim']]
  have k: "unat off div BSIZE < MAXFILE_BLOCKS" using lim' by (simp add: less_mult_imp_div_less)
  have small: "unat MAXFILE_SIZE < 2 ^ 63" by (simp add: B map_sizes BSIZE_def)
  have fit: "unat off + unat nbytes < 2 ^ 64" using lim(1,4) small by (simp add: word_le_nat_alt)
  have le: "\<not> off > di_size (it_inode s ip)" "\<not> off + nbytes > di_size (it_inode s ip)"
    using lim unat_plus_small[OF fit] by (simp_all add: word_less_nat_alt)
  have q1: "quota (cw + (1 + w)) (cf + f) s" using q by (simp add: quota_def)
  let ?blk = "ucast (off div word_of_nat BSIZE) :: uint"
  have b: "unat ?blk = unat off div BSIZE" "unat ?blk < MAXFILE_BLOCKS" using k ob by simp_all
  obtain d s1 where 1: "read_part ip ?blk (unat (off mod word_of_nat BSIZE)) data 0 (unat nbytes) s = Inr (d, s1)" "quota (1 + w) f s1"
    "more_direct s s1 ip" "unat ?blk < NDIRECT \<Longrightarrow> direct s1 ip (unat ?blk)"
    by (rule read_quota[OF ok need[folded b(1)] q1 q(2) b(2)]) blast
  have ok1: "file_ok (touch_atime ip s1) ip" by (rule file_keepD(1)[OF touch_keep(1)[OF file_keepD(1)[OF read_part_keep(1)[OF ok 1(1)]]]])
  have q2: "quota (1 + w) f (touch_atime ip s1)" using 1(2) by (simp add: touch_quota)
  obtain s2 where 2: "iupdate ip (touch_atime ip s1) = Inr ((), s2)" "quota w f s2" "more_direct (touch_atime ip s1) s2 ip" by (rule iupdate_quota[OF ok1 q2])
  have m12: "more_direct s1 s2 ip" by (rule more_direct_trans[OF touch_direct(1) 2(3)])
  have m2: "more_direct s s2 ip" by (rule more_direct_trans[OF 1(3) m12])
  have d2: "unat off div BSIZE < NDIRECT \<Longrightarrow> direct s2 ip (unat off div BSIZE)" using 1(4) m12 b(1) by (simp add: more_direct_def)
  have mn: "min (BSIZE - unat off mod BSIZE) (unat nbytes) = unat nbytes" "unat nbytes \<le> BSIZE - unat off mod BSIZE" using lim(3) by simp_all
  then have run: "inode_read_nbytes_locked ip data nbytes off s = Inr ((sint nbytes, d), s2)"
    using le 1(1) 2(1) ob by (simp add: inode_read_nbytes_locked_def Let_def)
  note w = read_bytes[OF ok fit lim(4) run]
  have "min (unat nbytes) (unat (di_size (it_inode s ip)) - unat off) = unat nbytes" using lim(1) by simp
  then show ?thesis using w le(1) run 2(2) m2 d2 by (intro that[of d s2]) (simp_all add: Let_def)
qed

theorem read_in_block_total:
  assumes "file_ok s ip" "quota 12 5 s" "unat off + unat nbytes \<le> unat (di_size (it_inode s ip))"
    "unat off < unat (di_size (it_inode s ip))" "unat off mod BSIZE + unat nbytes \<le> BSIZE" "di_size (it_inode s ip) \<le> MAXFILE_SIZE"
  shows "returns (inode_read_nbytes_locked ip data nbytes off s) (\<lambda>((r, data'), s'). r = int (unat nbytes) \<and>
    data' = upd_bytes data 0 (unat nbytes) (\<lambda>j. fbytes s ip (unat off + j)) \<and> file_ok s' ip \<and> fbytes s' ip = fbytes s ip)"
proof -
  have n: "map_need s ip (unat off div BSIZE) 11 4" by (simp add: map_need_def)
  have q: "quota (1 + 11 + 0) (4 + 1) s" using assms(2) by simp
  have l: "unat off < unat MAXFILE_SIZE" using assms(4,6) by (simp add: word_le_nat_alt)
  show ?thesis by (rule read_total[OF assms(1) n q order_refl assms(3) l assms(5,6), of data]) simp
qed

text \<open>At the very end of the largest file the code asks for a block that does not exist.\<close>

theorem write_at_limit:
  assumes ok: "file_ok s ip" and q: "quota 1 1 s"
  shows "inode_write_nbytes_locked ip data nbytes MAXFILE_SIZE s = Inl (Err_exit ''imap2blockno: inode too big'')"
proof -
  define n where "n = clamped nbytes MAXFILE_SIZE MAXFILE_SIZE"
  let ?s0 = "upd_inode ip (grown MAXFILE_SIZE n) s"
  note B = unat_MAXFILE_SIZE
  note ob = offset_block[of MAXFILE_SIZE, unfolded B, OF order_refl]
  have q0: "quota (1 + 0) 1 ?s0" using q by (simp add: quota_def free_blocks_def)
  obtain s1 where 1: "iupdate ip ?s0 = Inr ((), s1)" by (rule iupdate_quota[OF grow_keep(1)[OF ok] q0])
  have c: "n_log_wrote s1 = n_log_wrote s + 1" using iupdate_keep(3)[OF grow_keep(1)[OF ok] 1] by (simp add: logged_as_def)
  have "unat (n_log_wrote s + 1) < 121" using q unat_word_ariths(1)[of "n_log_wrote s" 1] by (simp add: quota_def)
  then have r: "restart_op_on ip (MAXOPBLOCKS - 1 - 3 - 1) s1 = Inr ((), s1)" "assert_no_need_to_restart_op s1 = Inr ((), s1)"
    by (auto simp: restart_op_on_def assert_no_need_to_restart_op_def MAXOPBLOCKS_def c)
  let ?blk = "ucast (MAXFILE_SIZE div word_of_nat BSIZE) :: uint"
  have "unat ?blk = MAXFILE_BLOCKS" using ob by simp
  then have "imap2blockno ip ?blk s1 = Inl (Err_exit ''imap2blockno: inode too big'')"
    by (simp add: imap2blockno_def r Let_def MAXFILE_BLOCKS_def)
  then show ?thesis
    using 1 r(1) by (simp add: inode_write_nbytes_locked_def Let_def write_part_def grown_def[abs_def] n_def clamped_def)
qed

section \<open>On the small file system\<close>

definition mini_open :: "nat \<Rightarrow> minode" where
  "mini_open i = (if i = 1 then mini_file\<lparr>mi_valid := True, mi_locked := True\<rparr> else mini_tab i)"

lemma mini_entry_ok:
  assumes tab: "tab 1 = mini_file\<lparr>mi_valid := True, mi_locked := True, di_type := ty, di_size := sz\<rparr>"
  shows "file_ok (mini_ext tab dat x) 1"
proof -
  let ?s = "mini_ext tab dat x" and ?t = "mini_ext mini_tab dat x"
  have i: "it_inode ?s 1 = mini_file\<lparr>mi_valid := True, mi_locked := True, di_type := ty, di_size := sz\<rparr>" "it_inode ?t 1 = mini_file"
    using tab by (simp_all add: mini_it_fields mini_tab_def)
  have a: "di_addrs (it_inode ?s 1) = di_addrs (it_inode ?t 1)" "mi_inum (it_inode ?s 1) = 2" unfolding i by (simp_all add: mini_file_def)
  have v: "view ?s b = view ?t b" if "b \<noteq> 0" for b using that by (simp add: mini_it_ready(3) mini_it_fields)
  have us: "usable ?s = usable ?t" by (simp add: fun_eq_iff mini_it_usable)
  have bits: "bm_bit ?s = bm_bit ?t" by (simp add: fun_eq_iff mini_it_bits)
  note n = same_nodes[OF mini_tree a(1) v us bits]
  have t: "tree_ok ?s 1" by (rule n(2))
  have nd: "inode_node ?t 1 q \<noteq> 30" if "tree_path q" for q
  proof
    assume e: "inode_node ?t 1 q = 30"
    have p0: "tree_path (0, [])" by (simp add: tree_path_def depth_def NBLOCKADDR_def NDIRECT_def)
    show False
    proof (cases "fst q = 0")
      case True
      then have "q = (0, [])" using that by (cases q) (simp add: tree_path_def depth_def NDIRECT_def)
      then show False using e by (simp add: i mini_file_def del: One_nat_def)
    next
      case False
      then have "inode_node ?t 1 q = 0" by (simp add: node_def i mini_file_def del: One_nat_def)
      then show False using e by simp
    qed
  qed
  have "own_block ?s 1" unfolding own_block_def Let_def a(2) mini_it_IBLOCK
    using n(1) nd by (auto simp: mini_it_usable mini_it_bits simp del: One_nat_def split_paired_All)
  then show ?thesis using t mini_addrs_ok(2)
    unfolding file_ok_def i by (simp add: mini_it_ready(1,2) mini_it_inv(1,2) mini_it_fields addrs_ok_def del: One_nat_def)
qed

lemma mini_file_ok: "file_ok (mini_ext mini_open dat x) 1"
  by (rule mini_entry_ok[of _ 100 T_FILE]) (simp add: mini_open_def mini_file_def)

lemma mini_quota: "w < 39 \<Longrightarrow> f \<le> 16 \<Longrightarrow> quota w f (mini_ext tab dat x)"
  using mini_it_inv(3)[of tab dat x] by (simp add: quota_def mini_it_fields)


text \<open>Writing into the second block of the file, which has none yet.\<close>

lemma mini_written:
  obtains s1 where "inode_write_nbytes_locked 1 (\<lambda>_. 7) 10 4098 (mini_it mini_open (\<lambda>_. zero_block)) = Inr (10, s1)" "file_ok s1 1" "quota 14 5 s1"
    "unat (di_size (it_inode s1 1)) = 4108"
proof -
  let ?s = "mini_it mini_open (\<lambda>_. zero_block)"
  have q: "quota (3 + 11 + 14) (4 + 5) ?s" "1 \<le> (5::nat)" by (simp_all add: mini_quota)
  have nd: "map_need ?s 1 (unat (4098 :: size_t) div BSIZE) 11 4" by (simp add: map_need_def)
  have l: "unat (4098 :: size_t) < unat MAXFILE_SIZE" "unat (4098 :: size_t) mod BSIZE + unat (10 :: size_t) \<le> BSIZE"
    by (simp_all add: unat_MAXFILE_SIZE map_sizes BSIZE_def)
  have "unat (di_size (it_inode ?s 1)) = 100" by (simp add: mini_it_fields mini_open_def mini_file_def)
  then have m: "max (unat (di_size (it_inode ?s 1))) (unat (4098 :: size_t) + unat (10 :: size_t)) = 4108" by (simp del: One_nat_def)
  have n: "int (unat (10 :: size_t)) = 10" by simp
  obtain s1 where w: "inode_write_nbytes_locked 1 (\<lambda>_. 7) 10 4098 ?s = Inr (10, s1)" "file_ok s1 1" "quota 14 5 s1"
    "unat (di_size (it_inode s1 1)) = 4108"
    by (rule write_total[OF mini_file_ok nd q l, of "\<lambda>_. 7", unfolded m n]) blast
  show ?thesis by (rule that[OF w])
qed

theorem inode_write_bytes_witness:
  "\<exists>s1. inode_write_nbytes_locked 1 (\<lambda>_. 7) 10 4098 (mini_it mini_open (\<lambda>_. zero_block)) = Inr (10, s1) \<and> file_ok s1 1 \<and>
    fbytes s1 1 4100 = 7 \<and> fbytes s1 1 0 = fbytes (mini_it mini_open (\<lambda>_. zero_block)) 1 0"
proof -
  let ?s = "mini_it mini_open (\<lambda>_. zero_block)"
  obtain s1 where s1: "inode_write_nbytes_locked 1 (\<lambda>_. 7) 10 4098 ?s = Inr (10, s1)" by (rule mini_written)
  have l: "unat (4098 :: size_t) + unat (10 :: size_t) < 2 ^ 64" "\<not> (4098 :: size_t) > MAXFILE_SIZE"
    by (simp_all add: word_less_nat_alt unat_MAXFILE_SIZE map_sizes BSIZE_def)
  have m: "min (unat (10 :: size_t)) (unat MAXFILE_SIZE - unat (4098 :: size_t)) = 10"
    by (simp add: unat_MAXFILE_SIZE map_sizes BSIZE_def)
  have "file_ok s1 1 \<and> fbytes s1 1 = upd_bytes (fbytes ?s 1) (unat (4098 :: size_t)) 10 (\<lambda>_. 7)"
    using inode_write_bytes[OF mini_file_ok l(1) s1] l(2) unfolding Let_def m by (simp only: if_False)
  then show ?thesis using s1 by (intro exI[of _ s1]) (simp add: upd_bytes_def del: One_nat_def)
qed

theorem write_in_block_total_witness:
  "\<exists>s1. inode_write_nbytes_locked 1 (\<lambda>_. 7) 10 4098 (mini_it mini_open (\<lambda>_. zero_block)) = Inr (10, s1) \<and> fbytes s1 1 4107 = 7"
proof -
  let ?s = "mini_it mini_open (\<lambda>_. zero_block)"
  have "quota 14 5 ?s" by (simp add: mini_quota)
  then show ?thesis using write_in_block_total[OF mini_file_ok, of "\<lambda>_. zero_block" "()" 4098 10 "\<lambda>_. 7"]
    by (auto simp: unat_MAXFILE_SIZE map_sizes BSIZE_def upd_bytes_def simp del: One_nat_def elim!: returnsE)
qed

theorem write_at_limit_witness:
  "inode_write_nbytes_locked 1 (\<lambda>_. 7) 0 MAXFILE_SIZE (mini_it mini_open (\<lambda>_. zero_block)) = Inl (Err_exit ''imap2blockno: inode too big'')"
  by (rule write_at_limit[OF mini_file_ok]) (simp add: mini_quota)

lemma mini_file_read:
  assumes "file_ok s 1" "quota 14 5 s" "unat (di_size (it_inode s 1)) = 4108"
  obtains d s2 where "inode_read_nbytes_locked 1 buf 10 4098 s = Inr ((10, d), s2)" "d = upd_bytes buf 0 10 (\<lambda>j. fbytes s 1 (4098 + j))"
proof -
  have q: "quota (1 + 11 + 0) (4 + 1) s" by (rule quota_mono[OF assms(2)]) simp_all
  have nd: "map_need s 1 (unat (4098 :: size_t) div BSIZE) 11 4" by (simp add: map_need_def)
  have l: "unat (4098 :: size_t) + unat (10 :: size_t) \<le> unat (di_size (it_inode s 1))" "unat (4098 :: size_t) < unat MAXFILE_SIZE"
    "unat (4098 :: size_t) mod BSIZE + unat (10 :: size_t) \<le> BSIZE" "di_size (it_inode s 1) \<le> MAXFILE_SIZE"
    using assms(3) by (simp_all add: word_le_nat_alt unat_MAXFILE_SIZE map_sizes BSIZE_def)
  show ?thesis by (rule read_total[OF assms(1) nd q order_refl l, of buf]) (use that in simp)
qed

theorem read_in_block_total_witness:
  "\<exists>d s2. inode_read_nbytes_locked 1 (\<lambda>_. 0) 10 20 (mini_it mini_open (\<lambda>_. zero_block)) = Inr ((10, d), s2)"
proof -
  let ?s = "mini_it mini_open (\<lambda>_. zero_block)"
  have q: "quota 12 5 ?s" by (simp add: mini_quota)
  have "di_size (it_inode ?s 1) = 100" by (simp add: mini_it_fields mini_open_def mini_file_def)
  then show ?thesis using read_in_block_total[OF mini_file_ok q, of 20 10 "\<lambda>_. 0"]
    by (auto simp: BSIZE_def word_le_nat_alt unat_MAXFILE_SIZE map_sizes simp del: One_nat_def elim!: returnsE)
qed

theorem inode_read_bytes_witness:
  "\<exists>s1 d s2. inode_write_nbytes_locked 1 (\<lambda>_. 7) 10 4098 (mini_it mini_open (\<lambda>_. zero_block)) = Inr (10, s1) \<and>
    inode_read_nbytes_locked 1 (\<lambda>_. 0) 10 4098 s1 = Inr ((10, d), s2) \<and> fbytes s2 1 = fbytes s1 1 \<and> d 3 = fbytes s1 1 4101"
proof -
  obtain s1 where 1: "inode_write_nbytes_locked 1 (\<lambda>_. 7) 10 4098 (mini_it mini_open (\<lambda>_. zero_block)) = Inr (10, s1)"
    "file_ok s1 1" "quota 14 5 s1" "unat (di_size (it_inode s1 1)) = 4108" by (rule mini_written)
  obtain d s2 where 2: "inode_read_nbytes_locked 1 (\<lambda>_. 0) 10 4098 s1 = Inr ((10, d), s2)" by (rule mini_file_read[OF 1(2-4)])
  have l: "unat (4098 :: size_t) + unat (10 :: size_t) < 2 ^ 64" "di_size (it_inode s1 1) \<le> MAXFILE_SIZE" "\<not> 4098 > di_size (it_inode s1 1)"
    using 1(4) by (simp_all add: word_le_nat_alt word_less_nat_alt unat_MAXFILE_SIZE map_sizes BSIZE_def)
  have m: "min (unat (10 :: size_t)) (unat (di_size (it_inode s1 1)) - unat (4098 :: size_t)) = 10" unfolding 1(4) by simp
  have "d = upd_bytes (\<lambda>_. 0) 0 10 (\<lambda>j. fbytes s1 1 (unat (4098 :: size_t) + j)) \<and> fbytes s2 1 = fbytes s1 1"
    using inode_read_bytes[OF 1(2) l(1,2) 2] l(3) unfolding Let_def m by (simp only: if_False)
  then show ?thesis using 1(1) 2 by (intro exI[of _ s1] exI[of _ d] exI[of _ s2]) (simp add: upd_bytes_def del: One_nat_def)
qed

theorem write_read_roundtrip_witness:
  "\<exists>s1 d s2. inode_write_nbytes_locked 1 (\<lambda>_. 7) 10 4098 (mini_it mini_open (\<lambda>_. zero_block)) = Inr (10, s1) \<and>
    inode_read_nbytes_locked 1 (\<lambda>_. 0) 10 4098 s1 = Inr ((10, d), s2) \<and> d 3 = 7"
proof -
  obtain s1 where 1: "inode_write_nbytes_locked 1 (\<lambda>_. 7) 10 4098 (mini_it mini_open (\<lambda>_. zero_block)) = Inr (10, s1)"
    "file_ok s1 1" "quota 14 5 s1" "unat (di_size (it_inode s1 1)) = 4108" by (rule mini_written)
  obtain d s2 where 2: "inode_read_nbytes_locked 1 (\<lambda>_. 0) 10 4098 s1 = Inr ((10, d), s2)" by (rule mini_file_read[OF 1(2-4)])
  let ?s = "mini_it mini_open (\<lambda>_. zero_block)"
  have l: "unat (4098 :: size_t) + unat (10 :: size_t) \<le> unat MAXFILE_SIZE" "di_size (it_inode ?s 1) \<le> MAXFILE_SIZE"
    by (simp_all add: word_le_nat_alt unat_MAXFILE_SIZE map_sizes BSIZE_def mini_it_fields mini_open_def mini_file_def)
  have "\<forall>j<unat (10 :: size_t). d j = 7" using write_read_roundtrip[OF mini_file_ok l 1(1) 2] by blast
  then have "d 3 = 7" by simp
  then show ?thesis using 1(1) 2 by blast
qed

end
