(* ===== verification/File_Ops.thy ===== *)
theory File_Ops
  imports Directory
begin

text \<open>
  \<^verbatim>\<open>src/file.c\<close>: the table of open files and the handlers FUSE calls. A \<open>struct file *\<close> is an index in
  the table, in a \<open>fuse_file_info\<close> an option since it may be NULL. A handler returns its result, what
  it leaves in the memory it got a pointer to, and the state. The arguments a handler ignores are
  left out; local buffers that are not initialised hold zeros before their first use.
\<close>

section \<open>Open files\<close>

datatype fd_type = FD_NONE | FD_INODE | FD_DEVICE

record ofile =
  f_type :: fd_type
  f_ref :: int
  f_readable :: int
  f_writable :: int
  f_ip :: "nat option"
  f_off :: size_t

record ftab = itable +
  ft_n :: nat
  ft_file :: "nat \<Rightarrow> ofile"

record fuse_info =
  fi_flags :: uint
  fi_fh :: "nat option"

definition NFILE_INIT :: nat where "NFILE_INIT = 50"

definition EEXIST :: int where "EEXIST = 17"
definition ENOTDIR :: int where "ENOTDIR = 20"
definition EISDIR :: int where "EISDIR = 21"
definition EINVAL :: int where "EINVAL = 22"
definition ENOTEMPTY :: int where "ENOTEMPTY = 39"
definition O_RDONLY :: uint where "O_RDONLY = 0"
definition O_WRONLY :: uint where "O_WRONLY = 1"
definition O_RDWR :: uint where "O_RDWR = 2"
definition O_CREAT :: uint where "O_CREAT = 0x40"
definition RENAME_NOREPLACE :: uint where "RENAME_NOREPLACE = 1"
definition RENAME_EXCHANGE :: uint where "RENAME_EXCHANGE = 2"
definition FSMAGIC :: uint where "FSMAGIC = 0x636A6673"

text \<open>What \<open>calloc\<close> returns.\<close>

definition static_file :: ofile where
  "static_file = \<lparr>f_type = FD_NONE, f_ref = 0, f_readable = 0, f_writable = 0, f_ip = None, f_off = 0\<rparr>"

definition upd_file :: "nat \<Rightarrow> (ofile \<Rightarrow> ofile) \<Rightarrow> 'a ftab_scheme \<Rightarrow> 'a ftab_scheme" where
  "upd_file f g s = s\<lparr>ft_file := (ft_file s)(f := g (ft_file s f))\<rparr>"

definition ftable_grow :: "'a ftab_scheme \<Rightarrow> 'a ftab_scheme" where
  "ftable_grow s = s\<lparr>ft_n := 2 * ft_n s,
    ft_file := (\<lambda>i. if ft_n s \<le> i \<and> i < 2 * ft_n s then static_file else ft_file s i)\<rparr>"

definition file_init :: "'a ftab_scheme \<Rightarrow> 'a ftab_scheme" where
  "file_init s = s\<lparr>ft_n := NFILE_INIT, ft_file := (\<lambda>i. if i < NFILE_INIT then static_file else ft_file s i)\<rparr>"

definition filealloc :: "'a ftab_scheme \<Rightarrow> nat \<times> 'a ftab_scheme" where
  "filealloc s =
    (case find_from (\<lambda>i. f_ref (ft_file s i) = 0) 0 (ft_n s) of
       Some f \<Rightarrow> (f, upd_file f (f_ref_update (\<lambda>_. 1)) s)
     | None \<Rightarrow>
         let s = ftable_grow s; f = ft_n s div 2 in (f, upd_file f (f_ref_update (\<lambda>_. 1)) s))"

definition filedup :: "nat \<Rightarrow> 'a ftab_scheme \<Rightarrow> (nat \<times> 'a ftab_scheme) res" where
  "filedup f s =
    (if f_ref (ft_file s f) < 1 then Inl (Err_exit ''filedup: ref < 1'')
     else Inr (f, upd_file f (\<lambda>x. x\<lparr>f_ref := f_ref x + 1\<rparr>) s))"

definition fileclose :: "nat \<Rightarrow> 'a ftab_scheme \<Rightarrow> (unit \<times> 'a ftab_scheme) res" where
  "fileclose f s =
    (if f_ref (ft_file s f) < 1 then Inl (Err_exit ''fileclose: ref < 1'')
     else
       let s = upd_file f (\<lambda>x. x\<lparr>f_ref := f_ref x - 1\<rparr>) s in
       if f_ref (ft_file s f) > 0 then Inr ((), s)
       else
         let ip = f_ip (ft_file s f);
             s = upd_file f (f_ref_update (\<lambda>_. 0)) s
         in chain (begin_op s) (\<lambda>(_, s).
         chain (iput_ptr ip s) (\<lambda>(_, s).
         end_op s)))"

definition filestat :: "nat \<Rightarrow> stat \<Rightarrow> 'a ftab_scheme \<Rightarrow> ((int \<times> stat) \<times> 'a ftab_scheme) res" where
  "filestat f st s =
    (if f_type (ft_file s f) = FD_INODE then
       chain (begin_op s) (\<lambda>(_, s).
       chain (ilock_ptr (f_ip (ft_file s f)) s) (\<lambda>(_, s).
       let ip = the (f_ip (ft_file s f));
           res = stat_inode ip st s
       in chain (end_op (iunlock ip s)) (\<lambda>(_, s).
       Inr (res, s))))
     else Inl (Err_exit ''filestat: unknown file type''))"

section \<open>Looking at files\<close>

definition myfuse_getattr :: "cpath \<Rightarrow> stat \<Rightarrow> 'a ftab_scheme \<Rightarrow> ((int \<times> stat) \<times> 'a ftab_scheme) res" where
  "myfuse_getattr path st s =
    chain (begin_op s) (\<lambda>(_, s).
    chain (path2inode path s) (\<lambda>(p, s).
    case p of
      None \<Rightarrow> chain (end_op s) (\<lambda>(_, s). Inr ((- ENOENT, st), s))
    | Some ip \<Rightarrow>
        chain (ilock ip s) (\<lambda>(_, s).
        let res = stat_inode ip st s in
        chain (iunlockput ip s) (\<lambda>(_, s).
        chain (end_op s) (\<lambda>(_, s).
        Inr (res, s))))))"

text \<open>
  \<open>filler\<close> is the function FUSE passes; it adds an entry to its buffer and returns whether the
  buffer is full. The name is copied to a buffer of 61 characters; the bytes that may be read for
  it end with the bytes of the directory.
\<close>

function readdir_from ::
  "('b \<Rightarrow> name \<Rightarrow> stat \<Rightarrow> 'b \<times> int) \<Rightarrow> nat \<Rightarrow> (nat \<Rightarrow> byte) \<Rightarrow> nat \<Rightarrow> 'b \<Rightarrow> name \<Rightarrow> stat \<Rightarrow> 'a itable_scheme \<Rightarrow> ('b \<times> 'a itable_scheme) res" where
  "readdir_from filler dp dirbuf off buf file_name st s =
    (let sz = unat (di_size (it_inode s dp)) in
     if off < sz then
       if off + dirent_size > sz then Inl Bad_access
       else
         let inum = de_inum dirbuf off in
         chain
           (if inum = 0 then Inr (False, buf, file_name, st, s)
            else
              chain (dirnamecpy (min (DIRSIZE + 1) (sz - (off + 4))) file_name (de_name dirbuf off)) (\<lambda>file_name.
              chain (if inum \<noteq> mi_inum (it_inode s dp) then stat_inum inum st s else Inr (stat_inode dp st s, s)) (\<lambda>((stat_res, st), s).
              if stat_res = 0 then
                let (buf, r) = filler buf file_name st in Inr (r \<noteq> 0, buf, file_name, st, s)
              else Inr (False, buf, file_name, st, s)))) (\<lambda>(stop, buf, file_name, st, s).
         if stop then Inr (buf, s)
         else if off + dirent_size \<ge> 2 ^ 31 then Inl Bad_access
         else readdir_from filler dp dirbuf (off + dirent_size) buf file_name st s)
     else Inr (buf, s))"
  by pat_completeness auto
termination
  by (relation "measure (\<lambda>(filler, dp, dirbuf, off, buf, file_name, st, s). 2 ^ 31 - off)") (auto simp: dirent_size_def)

declare readdir_from.simps [simp del]

definition myfuse_readdir ::
  "('b \<Rightarrow> name \<Rightarrow> stat \<Rightarrow> 'b \<times> int) \<Rightarrow> 'b \<Rightarrow> stat \<Rightarrow> fuse_info option \<Rightarrow> 'a ftab_scheme \<Rightarrow> ((int \<times> 'b) \<times> 'a ftab_scheme) res" where
  "myfuse_readdir filler buf st fi s =
    (case fi of
       None \<Rightarrow> Inr ((- ENOENT, buf), s)
     | Some fi \<Rightarrow>
         chain (begin_op s) (\<lambda>(_, s).
         case fi_fh fi of
           None \<Rightarrow> Inl Bad_access
         | Some f \<Rightarrow>
             (case f_ip (ft_file s f) of
                None \<Rightarrow> chain (end_op s) (\<lambda>(_, s). Inr ((- ENOENT, buf), s))
              | Some dp \<Rightarrow>
                  chain (ilock dp s) (\<lambda>(_, s).
                  chain (inode_read_nbytes_locked dp (\<lambda>_. 0) (di_size (it_inode s dp)) 0 s) (\<lambda>((n, dirbuf), s).
                  if word_of_int n \<noteq> di_size (it_inode s dp) then
                    chain (end_op (iunlock dp s)) (\<lambda>(_, s). Inl (Err_exit ''dirlookup: failed to read dir''))
                  else
                    chain (readdir_from filler dp dirbuf 0 buf (\<lambda>_. 0) st s) (\<lambda>(buf, s).
                    chain (end_op (iunlock dp s)) (\<lambda>(_, s).
                    Inr ((0, buf), s))))))))"

section \<open>Opening and closing\<close>

definition open_file :: "nat \<Rightarrow> uint \<Rightarrow> ofile \<Rightarrow> ofile" where
  "open_file ip flags f =
    (let f = f\<lparr>f_type := FD_INODE, f_ip := Some ip\<rparr> in
     if and flags O_RDONLY \<noteq> 0 then f\<lparr>f_readable := 1, f_writable := 0\<rparr>
     else if and flags O_WRONLY \<noteq> 0 then f\<lparr>f_readable := 0, f_writable := 1\<rparr>
     else if and flags O_RDWR \<noteq> 0 then f\<lparr>f_readable := 1, f_writable := 1\<rparr>
     else f\<lparr>f_readable := 1, f_writable := 1\<rparr>)"

definition myfuse_opendir :: "cpath \<Rightarrow> fuse_info \<Rightarrow> 'a ftab_scheme \<Rightarrow> ((int \<times> fuse_info) \<times> 'a ftab_scheme) res" where
  "myfuse_opendir path fi s =
    chain (begin_op s) (\<lambda>(_, s).
    chain (path2inode path s) (\<lambda>(p, s).
    case p of
      None \<Rightarrow> chain (end_op s) (\<lambda>(_, s). Inr ((- ENOENT, fi), s))
    | Some ip \<Rightarrow>
        chain (ilock ip s) (\<lambda>(_, s).
        if di_type (it_inode s ip) \<noteq> T_DIR then
          chain (iunlockput ip s) (\<lambda>(_, s).
          chain (end_op s) (\<lambda>(_, s).
          Inr ((- ENOTDIR, fi), s)))
        else
          let (f, s) = filealloc s;
              s = upd_file f (\<lambda>x. x\<lparr>f_type := FD_INODE, f_ip := Some ip\<rparr>) s;
              fi = fi\<lparr>fi_fh := Some f\<rparr>
          in chain (end_op (iunlock ip s)) (\<lambda>(_, s). Inr ((0, fi), s)))))"

text \<open>The tail of \<open>myfuse_open\<close>, with the inode found or created.\<close>

definition open_inode :: "nat \<Rightarrow> fuse_info \<Rightarrow> 'a ftab_scheme \<Rightarrow> ((int \<times> fuse_info) \<times> 'a ftab_scheme) res" where
  "open_inode ip fi s =
    chain (ilock ip s) (\<lambda>(_, s).
    let (f, s) = filealloc s;
        s = upd_file f (open_file ip (fi_flags fi)) s;
        fi = fi\<lparr>fi_fh := Some f\<rparr>
    in chain (end_op (iunlock ip s)) (\<lambda>(_, s). Inr ((0, fi), s)))"

text \<open>Without \<open>O_CREAT\<close> and a file the operation of the log is not ended.\<close>

definition myfuse_open :: "cpath \<Rightarrow> fuse_info \<Rightarrow> 'a ftab_scheme \<Rightarrow> ((int \<times> fuse_info) \<times> 'a ftab_scheme) res" where
  "myfuse_open path fi s =
    chain (begin_op s) (\<lambda>(_, s).
    chain (path2inode path s) (\<lambda>(p, s).
    case p of
      Some ip \<Rightarrow> open_inode ip fi s
    | None \<Rightarrow>
        if and (fi_flags fi) O_CREAT = 0 then Inr ((- ENOENT, fi), s)
        else
          chain (path2parentinode path (\<lambda>_. 0) s) (\<lambda>((d, filename), s).
          case d of
            None \<Rightarrow> chain (end_op s) (\<lambda>(_, s). Inr ((- ENOENT, fi), s))
          | Some dp \<Rightarrow>
              chain (ialloc T_FILE s) (\<lambda>(ip, s).
              let s = upd_inode ip (\<lambda>i. i\<lparr>di_nlink := di_nlink i + 1\<rparr>) s in
              chain (iupdate dp s) (\<lambda>(_, s).
              chain (ilock dp s) (\<lambda>(_, s).
              chain (dirlink dp filename (mi_inum (it_inode s ip)) s) (\<lambda>(_, s).
              chain (iunlockput dp s) (\<lambda>(_, s).
              open_inode ip fi s))))))))"

definition release_internal :: "fuse_info option \<Rightarrow> 'a ftab_scheme \<Rightarrow> (fuse_info option \<times> 'a ftab_scheme) res" where
  "release_internal fi s =
    (case fi of
       None \<Rightarrow> Inr (fi, s)
     | Some i \<Rightarrow>
         (case fi_fh i of
            None \<Rightarrow> Inr (fi, s)
          | Some f \<Rightarrow> chain (fileclose f s) (\<lambda>(_, s). Inr (Some (i\<lparr>fi_fh := None\<rparr>), s))))"

definition myfuse_release :: "fuse_info option \<Rightarrow> 'a ftab_scheme \<Rightarrow> ((int \<times> fuse_info option) \<times> 'a ftab_scheme) res" where
  "myfuse_release fi s = chain (release_internal fi s) (\<lambda>(fi, s). Inr ((0, fi), s))"

definition myfuse_releasedir :: "fuse_info option \<Rightarrow> 'a ftab_scheme \<Rightarrow> ((int \<times> fuse_info option) \<times> 'a ftab_scheme) res" where
  "myfuse_releasedir fi s = chain (release_internal fi s) (\<lambda>(fi, s). Inr ((0, fi), s))"

section \<open>Making and removing names\<close>

text \<open>When the name exists, \<open>dp\<close> stays locked and referenced.\<close>

definition stamp_inode :: "nat \<Rightarrow> 'a itable_scheme \<Rightarrow> 'a itable_scheme" where
  "stamp_inode ip s =
    (let (t, s) = get_current_timespec s in
     upd_inode ip (\<lambda>i. i\<lparr>di_atime := t, di_mtime := t, di_ctime := t\<rparr>) s)"

definition myfuse_mkdir :: "cpath \<Rightarrow> uint \<Rightarrow> 'a ftab_scheme \<Rightarrow> (int \<times> 'a ftab_scheme) res" where
  "myfuse_mkdir path mode s =
    chain (begin_op s) (\<lambda>(_, s).
    chain (path2parentinode path (\<lambda>_. 0) s) (\<lambda>((d, name), s).
    chain (ialloc T_DIR s) (\<lambda>(ip, s).
    chain (ilock ip s) (\<lambda>(_, s).
    chain (ilock_ptr d s) (\<lambda>(_, s).
    let dp = the d in
    chain (dirlink dp name (mi_inum (it_inode s ip)) s) (\<lambda>(r, s).
    if r \<noteq> 0 then
      chain (iunlockput ip s) (\<lambda>(_, s).
      chain (end_op s) (\<lambda>(_, s).
      Inr (- EEXIST, s)))
    else
      chain (iunlockput dp s) (\<lambda>(_, s).
      let s = stamp_inode ip (upd_inode ip (\<lambda>i. i\<lparr>di_nlink := 1, di_perm := mode\<rparr>) s) in
      chain (iupdate ip s) (\<lambda>(_, s).
      chain (iunlockput ip s) (\<lambda>(_, s).
      chain (end_op s) (\<lambda>(_, s).
      Inr (0, s)))))))))))"

text \<open>Writing a zero entry at the offset \<open>dirlookup\<close> found.\<close>

definition clear_dirent :: "nat \<Rightarrow> nat \<Rightarrow> 'a itable_scheme \<Rightarrow> (unit \<times> 'a itable_scheme) res" where
  "clear_dirent dp off s =
    chain (inode_write_nbytes_locked dp (\<lambda>_. 0) (word_of_nat dirent_size) (word_of_nat off) s) (\<lambda>(_, s). Inr ((), s))"

definition myfuse_unlink :: "cpath \<Rightarrow> 'a ftab_scheme \<Rightarrow> (int \<times> 'a ftab_scheme) res" where
  "myfuse_unlink path s =
    chain (begin_op s) (\<lambda>(_, s).
    chain (path2inode path s) (\<lambda>(p, s).
    case p of
      None \<Rightarrow> chain (end_op s) (\<lambda>(_, s). Inr (- ENOENT, s))
    | Some ip \<Rightarrow>
        chain (path2parentinode path (\<lambda>_. 0) s) (\<lambda>((d, name), s).
        chain (ilock_ptr d s) (\<lambda>(_, s).
        let dp = the d in
        chain (ilock ip s) (\<lambda>(_, s).
        if di_nlink (it_inode s ip) = 0 then
          chain (iunlockput dp s) (\<lambda>(_, s).
          chain (iunlockput ip s) (\<lambda>(_, s).
          chain (end_op s) (\<lambda>(_, s).
          Inr (- ENOENT, s))))
        else
          let s = upd_inode ip (\<lambda>i. i\<lparr>di_nlink := di_nlink i - 1\<rparr>) s in
          chain (if di_nlink (it_inode s ip) = 0 then
              chain (dirlookup dp name s) (\<lambda>(r, s).
              case r of
                None \<Rightarrow> Inr ((), s)
              | Some (found_ip, poff) \<Rightarrow>
                  chain (clear_dirent dp poff s) (\<lambda>(_, s).
                  iput found_ip s))
            else Inr ((), s)) (\<lambda>(_, s).
          chain (iupdate ip s) (\<lambda>(_, s).
          chain (iunlockput ip s) (\<lambda>(_, s).
          chain (iunlockput dp s) (\<lambda>(_, s).
          chain (end_op s) (\<lambda>(_, s).
          Inr (0, s)))))))))))"

text \<open>Whether the directory has an entry in use.\<close>

definition rmdir_check :: "nat \<Rightarrow> 'a ftab_scheme \<Rightarrow> (bool \<times> 'a ftab_scheme) res" where
  "rmdir_check ip s =
    (if di_size (it_inode s ip) \<noteq> 0 then
       chain (inode_read_nbytes_locked ip (\<lambda>_. 0) (di_size (it_inode s ip)) 0 s) (\<lambda>((n, buf), s).
       if word_of_int n \<noteq> di_size (it_inode s ip) then
         chain (iunlockput ip s) (\<lambda>(_, s).
         chain (end_op s) (\<lambda>(_, s).
         Inl (Err_exit ''myfuse_rmdir: inode_read_nbytes_unlocked failed to read'')))
       else
         let sz = unat (di_size (it_inode s ip)) in
         chain (de_find (\<lambda>buf off. de_inum buf off \<noteq> 0) sz buf 0) (\<lambda>off.
         Inr (off < sz, s)))
     else Inr (False, s))"

definition myfuse_rmdir :: "cpath \<Rightarrow> 'a ftab_scheme \<Rightarrow> (int \<times> 'a ftab_scheme) res" where
  "myfuse_rmdir path s =
    chain (begin_op s) (\<lambda>(_, s).
    chain (path2inode path s) (\<lambda>(p, s).
    case p of
      None \<Rightarrow> chain (end_op s) (\<lambda>(_, s). Inr (- ENOENT, s))
    | Some ip \<Rightarrow>
        chain (ilock ip s) (\<lambda>(_, s).
        chain (rmdir_check ip s) (\<lambda>(used, s).
        if used then
          chain (iunlockput ip s) (\<lambda>(_, s).
          chain (end_op s) (\<lambda>(_, s).
          Inr (- ENOTEMPTY, s)))
        else
          chain (path2parentinode path (\<lambda>_. 0) s) (\<lambda>((d, name), s).
          chain (ilock_ptr d s) (\<lambda>(_, s).
          let dp = the d;
              s = upd_inode ip (\<lambda>i. i\<lparr>di_nlink := di_nlink i - 1\<rparr>) s
          in chain (if di_nlink (it_inode s ip) = 0 then
              chain (dirlookup dp name s) (\<lambda>(r, s).
              case r of
                None \<Rightarrow> Inr ((), s)
              | Some (_, poff) \<Rightarrow> clear_dirent dp poff s)
            else Inr ((), s)) (\<lambda>(_, s).
          chain (iupdate ip s) (\<lambda>(_, s).
          chain (iunlockput dp s) (\<lambda>(_, s).
          chain (iunlockput ip s) (\<lambda>(_, s).
          chain (end_op s) (\<lambda>(_, s).
          Inr (0, s))))))))))))"

definition myfuse_create :: "cpath \<Rightarrow> uint \<Rightarrow> fuse_info \<Rightarrow> 'a ftab_scheme \<Rightarrow> ((int \<times> fuse_info) \<times> 'a ftab_scheme) res" where
  "myfuse_create path mode fi s =
    (if and mode S_IFREG = 0 then Inl (Err_exit ''must be regular file'')
     else
       chain (begin_op s) (\<lambda>(_, s).
       chain (path2parentinode path (\<lambda>_. 0) s) (\<lambda>((d, filename), s).
       case d of
         None \<Rightarrow> chain (end_op s) (\<lambda>(_, s). Inr ((- ENOENT, fi), s))
       | Some dp \<Rightarrow>
           chain (ialloc T_FILE s) (\<lambda>(ip, s).
           chain (ilock ip s) (\<lambda>(_, s).
           let s = upd_inode ip (\<lambda>i. i\<lparr>di_nlink := di_nlink i + 1, di_perm := and mode 0x1FF\<rparr>) s;
               s = stamp_inode ip s
           in chain (iupdate ip s) (\<lambda>(_, s).
           chain (ilock dp s) (\<lambda>(_, s).
           chain (dirlink dp filename (mi_inum (it_inode s ip)) s) (\<lambda>(_, s).
           chain (iunlockput dp s) (\<lambda>(_, s).
           let (f, s) = filealloc s;
               s = upd_file f (open_file ip mode) s;
               fi = fi\<lparr>fi_fh := Some f\<rparr>
           in chain (end_op (iunlock ip s)) (\<lambda>(_, s). Inr ((0, fi), s)))))))))))"

section \<open>Contents and attributes\<close>

text \<open>The count of bytes, a \<open>long\<close>, is returned as an \<open>int\<close>.\<close>

definition to_int :: "int \<Rightarrow> int" where
  "to_int n = sint (word_of_int n :: uint)"

definition myfuse_read :: "(nat \<Rightarrow> byte) \<Rightarrow> size_t \<Rightarrow> size_t \<Rightarrow> fuse_info \<Rightarrow> 'a ftab_scheme \<Rightarrow> ((int \<times> (nat \<Rightarrow> byte)) \<times> 'a ftab_scheme) res" where
  "myfuse_read buf sz offset fi s =
    (case fi_fh fi of
       None \<Rightarrow> Inl Bad_access
     | Some f \<Rightarrow>
         (case f_ip (ft_file s f) of
            None \<Rightarrow> chain (begin_op s) (\<lambda>(_, s). Inl (Err_exit ''ilock got invalid inode''))
          | Some ip \<Rightarrow> chain (inode_read_nbytes_unlocked ip buf sz offset s) (\<lambda>((n, buf), s). Inr ((to_int n, buf), s))))"

definition myfuse_write :: "(nat \<Rightarrow> byte) \<Rightarrow> size_t \<Rightarrow> size_t \<Rightarrow> fuse_info \<Rightarrow> 'a ftab_scheme \<Rightarrow> (int \<times> 'a ftab_scheme) res" where
  "myfuse_write buf sz offset fi s =
    (case fi_fh fi of
       None \<Rightarrow> Inl Bad_access
     | Some f \<Rightarrow>
         (case f_ip (ft_file s f) of
            None \<Rightarrow> chain (begin_op s) (\<lambda>(_, s). Inl (Err_exit ''ilock got invalid inode''))
          | Some ip \<Rightarrow> chain (inode_write_nbytes_unlocked ip buf sz offset s) (\<lambda>(n, s). Inr (to_int n, s))))"

definition myfuse_truncate :: "cpath \<Rightarrow> size_t \<Rightarrow> 'a ftab_scheme \<Rightarrow> (int \<times> 'a ftab_scheme) res" where
  "myfuse_truncate path sz s =
    chain (begin_op s) (\<lambda>(_, s).
    chain (path2inode path s) (\<lambda>(p, s).
    case p of
      None \<Rightarrow> chain (end_op s) (\<lambda>(_, s). Inr (- ENOENT, s))
    | Some ip \<Rightarrow>
        if di_type (it_inode s ip) = T_DIR then chain (end_op s) (\<lambda>(_, s). Inr (- EISDIR, s))
        else
          chain (ilock ip s) (\<lambda>(_, s).
          chain (itrunc2size ip sz s) (\<lambda>(_, s).
          chain (iunlockput ip s) (\<lambda>(_, s).
          chain (end_op s) (\<lambda>(_, s).
          Inr (0, s)))))))"

definition myfuse_access :: "cpath \<Rightarrow> 'a ftab_scheme \<Rightarrow> (int \<times> 'a ftab_scheme) res" where
  "myfuse_access path s =
    chain (begin_op s) (\<lambda>(_, s).
    chain (path2inode path s) (\<lambda>(p, s).
    case p of
      None \<Rightarrow> Inr (- ENOENT, s)
    | Some ip \<Rightarrow>
        chain (iput ip s) (\<lambda>(_, s).
        chain (end_op s) (\<lambda>(_, s).
        Inr (0, s)))))"

definition myfuse_chmod :: "cpath \<Rightarrow> uint \<Rightarrow> 'a ftab_scheme \<Rightarrow> (int \<times> 'a ftab_scheme) res" where
  "myfuse_chmod path mode s =
    chain (begin_op s) (\<lambda>(_, s).
    chain (path2inode path s) (\<lambda>(p, s).
    case p of
      None \<Rightarrow> Inr (- ENOENT, s)
    | Some ip \<Rightarrow>
        chain (ilock ip s) (\<lambda>(_, s).
        let s = upd_inode ip (\<lambda>i. i\<lparr>di_perm := and mode 0x1FF\<rparr>) s in
        chain (iupdate ip s) (\<lambda>(_, s).
        chain (iunlockput ip s) (\<lambda>(_, s).
        chain (end_op s) (\<lambda>(_, s).
        Inr (0, s)))))))"

datatype whence = SEEK_SET | SEEK_CUR | SEEK_END | SEEK_OTHER

text \<open>The sum for \<open>SEEK_CUR\<close> is signed and undefined when it overflows, the one for \<open>SEEK_END\<close> is not.\<close>

definition myfuse_lseek :: "size_t \<Rightarrow> whence \<Rightarrow> fuse_info \<Rightarrow> 'a ftab_scheme \<Rightarrow> (int \<times> 'a ftab_scheme) res" where
  "myfuse_lseek off wh fi s =
    (case fi_fh fi of
       None \<Rightarrow> Inl Bad_access
     | Some f \<Rightarrow>
         chain (ilock_ptr (f_ip (ft_file s f)) s) (\<lambda>(_, s).
         let ip = the (f_ip (ft_file s f)) in
         chain
           (case wh of
              SEEK_SET \<Rightarrow> let s = upd_file f (f_off_update (\<lambda>_. off)) s in Inr (sint (f_off (ft_file s f)), s)
            | SEEK_CUR \<Rightarrow>
                let sum = sint (f_off (ft_file s f)) + sint off in
                if sum < - (2 ^ 63) \<or> sum \<ge> 2 ^ 63 then Inl Bad_access
                else let s = upd_file f (f_off_update (\<lambda>_. word_of_int sum)) s in Inr (sint (f_off (ft_file s f)), s)
            | SEEK_END \<Rightarrow>
                let s = upd_file f (f_off_update (\<lambda>_. di_size (it_inode s ip) + off)) s in Inr (sint (f_off (ft_file s f)), s)
            | SEEK_OTHER \<Rightarrow> Inr (- EINVAL, s)) (\<lambda>(result, s).
         Inr (result, iunlock ip s))))"

section \<open>Renaming\<close>

text \<open>\<open>iput(dirlookup(dp, name, &poff))\<close> and a zero entry at \<open>poff\<close>.\<close>

definition unlink_name :: "nat \<Rightarrow> name \<Rightarrow> 'a itable_scheme \<Rightarrow> (unit \<times> 'a itable_scheme) res" where
  "unlink_name dp name s =
    chain (dirlookup dp name s) (\<lambda>(r, s).
    case r of
      None \<Rightarrow> Inl Bad_access
    | Some (ip, poff) \<Rightarrow>
        chain (iput ip s) (\<lambda>(_, s).
        clear_dirent dp poff s))"

definition rename_onto ::
  "nat option \<Rightarrow> name \<Rightarrow> nat \<Rightarrow> nat \<Rightarrow> nat \<Rightarrow> name \<Rightarrow> uint \<Rightarrow> 'a itable_scheme \<Rightarrow> (int \<times> 'a itable_scheme) res" where
  "rename_onto target_dp target_name target_ip from_ip from_dp from_name flags s =
    (if di_type (it_inode s target_ip) = T_DIR then
       chain (ilock target_ip s) (\<lambda>(_, s).
       chain (dirlink target_ip from_name (mi_inum (it_inode s from_ip)) s) (\<lambda>(_, s).
       Inr (0, iunlock target_ip s)))
     else if and flags RENAME_EXCHANGE \<noteq> 0 then
       chain (ilock_ptr target_dp s) (\<lambda>(_, s).
       let dp = the target_dp in
       chain (ilock target_ip s) (\<lambda>(_, s).
       chain (unlink_name dp target_name s) (\<lambda>(_, s).
       chain (dirlink dp from_name (mi_inum (it_inode s from_ip)) s) (\<lambda>(_, s).
       chain (dirlink from_dp from_name (mi_inum (it_inode s target_ip)) s) (\<lambda>(_, s).
       Inr (0, iunlock dp (iunlock target_ip s)))))))
     else if and flags RENAME_NOREPLACE \<noteq> 0 then Inr (- EEXIST, s)
     else Inr (0, s))"

definition iput_opt :: "nat option \<Rightarrow> 'a itable_scheme \<Rightarrow> (unit \<times> 'a itable_scheme) res" where
  "iput_opt p s = (case p of None \<Rightarrow> Inr ((), s) | Some ip \<Rightarrow> iput ip s)"

definition myfuse_rename :: "cpath \<Rightarrow> cpath \<Rightarrow> uint \<Rightarrow> 'a ftab_scheme \<Rightarrow> (int \<times> 'a ftab_scheme) res" where
  "myfuse_rename from_path target flags s =
    chain (begin_op s) (\<lambda>(_, s).
    chain (path2inode target s) (\<lambda>(target_ip, s).
    chain (path2parentinode target (\<lambda>_. 0) s) (\<lambda>((target_dp, target_name), s).
    chain (path2inode from_path s) (\<lambda>(from_ip, s).
    chain (path2parentinode from_path (\<lambda>_. 0) s) (\<lambda>((from_dp, from_name), s).
    if target_ip = None \<and> target_dp = None \<or> from_ip = None \<or> from_dp = None then Inr (- ENOENT, s)
    else
      let fip = the from_ip; fdp = the from_dp in
      chain (ilock fip s) (\<lambda>(_, s).
      chain (ilock fdp s) (\<lambda>(_, s).
      chain (unlink_name fdp from_name s) (\<lambda>(_, s).
      let s = iunlock fip (iunlock fdp s) in
      chain
        (case target_ip of
           None \<Rightarrow>
             (let dp = the target_dp in
              chain (ilock dp s) (\<lambda>(_, s).
              chain (dirlink dp target_name (mi_inum (it_inode s fip)) s) (\<lambda>(_, s).
              Inr (0, iunlock dp s))))
         | Some tip \<Rightarrow> rename_onto target_dp target_name tip fip fdp from_name flags s) (\<lambda>(res, s).
      chain (iput_opt target_ip s) (\<lambda>(_, s).
      chain (iput_opt target_dp s) (\<lambda>(_, s).
      chain (iput_opt from_ip s) (\<lambda>(_, s).
      chain (iput_opt from_dp s) (\<lambda>(_, s).
      chain (end_op s) (\<lambda>(_, s).
      Inr (res, s)))))))))))))))"

section \<open>Statistics\<close>

text \<open>The fields of \<open>struct statvfs\<close> the code sets.\<close>

record statvfs =
  f_blocks :: nat
  f_bsize :: nat
  f_bfree :: nat
  f_fsid :: uint
  f_namemax :: nat

definition count_free :: "nat \<Rightarrow> 'a bmap_scheme \<Rightarrow> nat res" where
  "count_free n s =
    chain (foreach [0..<n] (\<lambda>i k. chain (bmap_block_statue_get (word_of_nat i) s) (\<lambda>b. Inr ((), if b then k else k + 1))) 0) (\<lambda>(_, k).
    Inr k)"

definition myfuse_statfs :: "statvfs \<Rightarrow> 'a ftab_scheme \<Rightarrow> (int \<times> statvfs) res" where
  "myfuse_statfs buf s =
    chain (count_free (unat (sb_size (fs_sb s))) s) (\<lambda>n.
    Inr (0, buf\<lparr>f_blocks := unat (sb_nblocks (fs_sb s)), f_bsize := BSIZE, f_bfree := n, f_fsid := FSMAGIC, f_namemax := DIRSIZE\<rparr>))"

end
