(* ===== verification/Dir_Map.thy ===== *)
theory Dir_Map
  imports Path_Names Inode_File File_Ops
begin

text \<open>
  A directory as a partial map from names to inode numbers, and what \<open>dirlookup\<close>, \<open>dirlink\<close> and
  clearing an entry do to this map, to the rest of the file system and to the table of inodes.
\<close>

section \<open>The entries of a directory\<close>

definition slot_inum :: "(nat \<Rightarrow> byte) \<Rightarrow> nat \<Rightarrow> uint" where
  "slot_inum f k = de_inum f (dirent_size * k)"

definition slot_name :: "(nat \<Rightarrow> byte) \<Rightarrow> nat \<Rightarrow> byte list" where
  "slot_name f k = cname (de_name f (dirent_size * k))"

text \<open>The first entry in use with the name counts.\<close>

definition slot_of :: "(nat \<Rightarrow> byte) \<Rightarrow> nat \<Rightarrow> byte list \<Rightarrow> nat option" where
  "slot_of f n nm = find_from (\<lambda>k. slot_inum f k \<noteq> 0 \<and> slot_name f k = nm) 0 n"

definition slots_map :: "(nat \<Rightarrow> byte) \<Rightarrow> nat \<Rightarrow> byte list \<Rightarrow> uint option" where
  "slots_map f n nm = map_option (slot_inum f) (slot_of f n nm)"

definition slots_distinct :: "(nat \<Rightarrow> byte) \<Rightarrow> nat \<Rightarrow> bool" where
  "slots_distinct f n \<longleftrightarrow> (\<forall>i<n. \<forall>j<n. slot_inum f i \<noteq> 0 \<and> slot_inum f j \<noteq> 0 \<and> slot_name f i = slot_name f j \<longrightarrow> i = j)"

lemma slot_cong:
  assumes "\<And>j. j < dirent_size \<Longrightarrow> f (dirent_size * k + j) = g (dirent_size * k + j)"
  shows "slot_inum f k = slot_inum g k" "slot_name f k = slot_name g k"
proof -
  show "slot_inum f k = slot_inum g k"
    unfolding slot_inum_def de_inum_def by (rule get_le_cong) (use assms in \<open>simp add: dirent_size_def\<close>)
  have "de_name f (dirent_size * k) j = de_name g (dirent_size * k) j" if "j < DIRSIZE" for j
    using assms[of "4 + j"] that by (simp add: de_name_def dirent_size_def DIRSIZE_def add.assoc)
  then have "map (de_name f (dirent_size * k)) [0..<DIRSIZE] = map (de_name g (dirent_size * k)) [0..<DIRSIZE]" by simp
  then show "slot_name f k = slot_name g k" by (simp only: slot_name_def cname_def)
qed

lemma slot_bytes_apart:
  assumes "k \<noteq> l" "j < dirent_size"
  shows "\<not> (dirent_size * l \<le> dirent_size * k + j \<and> dirent_size * k + j < dirent_size * l + dirent_size)"
  using assms by (cases "k < l") (auto simp: dirent_size_def)

lemma find_from_cong:
  assumes "\<And>i. a \<le> i \<Longrightarrow> i < b \<Longrightarrow> p i = q i"
  shows "find_from p a b = find_from q a b"
  using assms
proof (induction p a b rule: find_from.induct)
  case (1 p a b)
  then show ?case by (subst (1 2) find_from.simps) auto
qed

lemma find_fromI:
  "a \<le> i \<Longrightarrow> i < b \<Longrightarrow> p i \<Longrightarrow> (\<And>j. a \<le> j \<Longrightarrow> j < i \<Longrightarrow> \<not> p j) \<Longrightarrow> find_from p a b = Some i"
  by (cases "find_from p a b") (auto simp: find_from_None dest!: find_from_Some intro: linorder_cases[of i])

lemma slots_map_cong:
  assumes "\<And>k. k < n \<Longrightarrow> slot_inum f k = slot_inum g k" "\<And>k. k < n \<Longrightarrow> slot_name f k = slot_name g k"
  shows "slot_of f n = slot_of g n" "slots_map f n = slots_map g n"
proof -
  show s: "slot_of f n = slot_of g n" unfolding slot_of_def fun_eq_iff using assms by (auto intro: find_from_cong)
  have "slot_inum f k = slot_inum g k" if "slot_of g n nm = Some k" for k nm
    using find_from_Some[of _ 0 n k] that assms(1) by (simp add: slot_of_def)
  then show "slots_map f n = slots_map g n" by (auto simp: slots_map_def s fun_eq_iff split: option.split intro!: option.map_cong)
qed

lemma slots_map_None: "slots_map f n nm = None \<longleftrightarrow> (\<forall>k<n. slot_inum f k \<noteq> 0 \<longrightarrow> slot_name f k \<noteq> nm)"
  by (auto simp: slots_map_def slot_of_def find_from_None)

text \<open>Filling a free entry, the last one included, with a name that is not in the directory.\<close>

lemma slots_map_link:
  assumes k: "k < n'" "n \<le> n'" "n' \<le> n + 1" "k < n \<Longrightarrow> slot_inum f k = 0" "n' = n + 1 \<Longrightarrow> k = n"
    and new: "slot_inum g k = i" "i \<noteq> 0" "slot_name g k = nm"
    and old: "\<And>j. j \<noteq> k \<Longrightarrow> slot_inum g j = slot_inum f j \<and> slot_name g j = slot_name f j"
    and fresh: "slots_map f n nm = None"
  shows "slots_map g n' = (slots_map f n)(nm \<mapsto> i)" "slots_distinct f n \<Longrightarrow> slots_distinct g n'"
proof -
  have ltn: "j < n" if "j < n'" "j \<noteq> k" for j using that k by arith
  have no: "slot_name f j \<noteq> nm" if "j < n" "slot_inum f j \<noteq> 0" for j using fresh that by (simp add: slots_map_None)
  have "slot_of g n' nm = Some k"
    unfolding slot_of_def by (rule find_fromI) (use k new old no ltn in auto)
  moreover have "slot_of g n' m = slot_of f n m" if "m \<noteq> nm" for m
  proof (cases "slot_of f n m")
    case None
    have "\<not> (slot_inum g j \<noteq> 0 \<and> slot_name g j = m)" if j: "j < n'" for j
    proof (cases "j = k")
      case False
      then show ?thesis using None[unfolded slot_of_def find_from_None] old[of j] ltn[OF j] by auto
    qed (use new that \<open>m \<noteq> nm\<close> in auto)
    then have "slot_of g n' m = None" by (simp add: slot_of_def find_from_None)
    then show ?thesis using None by simp
  next
    case (Some j)
    note j = find_from_Some[OF Some[unfolded slot_of_def]]
    have jk: "j \<noteq> k" using j k by auto
    have "slot_of g n' m = Some j" unfolding slot_of_def
    proof (rule find_fromI)
      show "slot_inum g j \<noteq> 0 \<and> slot_name g j = m" using j old[OF jk] by simp
      fix l assume "l < j"
      then show "\<not> (slot_inum g l \<noteq> 0 \<and> slot_name g l = m)" using j old[of l] that new by (cases "l = k") auto
    qed (use j k in auto)
    then show ?thesis using Some by simp
  qed
  moreover have "slot_inum g j = slot_inum f j" if "slot_of f n m = Some j" for j m
    using find_from_Some[OF that[unfolded slot_of_def]] k old[of j] by (cases "j = k") auto
  ultimately show "slots_map g n' = (slots_map f n)(nm \<mapsto> i)"
    using new by (auto simp: slots_map_def fun_eq_iff split: option.split intro!: option.map_cong)
  show "slots_distinct f n \<Longrightarrow> slots_distinct g n'"
    unfolding slots_distinct_def using old new no ltn by metis
qed

text \<open>Clearing the entry of a name.\<close>

lemma slots_map_unlink:
  assumes k: "k < n" "slot_of f n nm = Some k" and d: "slots_distinct f n" and new: "slot_inum g k = 0"
    and old: "\<And>j. j \<noteq> k \<Longrightarrow> slot_inum g j = slot_inum f j \<and> slot_name g j = slot_name f j"
  shows "slots_map g n = (slots_map f n)(nm := None)" "slots_distinct g n"
proof -
  note kk = find_from_Some[OF k(2)[unfolded slot_of_def]]
  have "slots_map g n nm = None" unfolding slots_map_None
  proof (intro allI impI)
    fix j assume "j < n" "slot_inum g j \<noteq> 0"
    then show "slot_name g j \<noteq> nm" using new old[of j] kk d by (cases "j = k") (auto simp: slots_distinct_def)
  qed
  moreover have "slots_map g n m = slots_map f n m" if m: "m \<noteq> nm" for m
  proof -
    have "slot_of g n m = slot_of f n m" unfolding slot_of_def
      by (rule find_from_cong) (use kk old new m in \<open>metis\<close>)
    moreover have "slot_inum g j = slot_inum f j" if "slot_of f n m = Some j" for j
      using find_from_Some[OF that[unfolded slot_of_def]] kk m old[of j] by (cases "j = k") auto
    ultimately show ?thesis by (auto simp: slots_map_def split: option.split intro!: option.map_cong)
  qed
  ultimately show "slots_map g n = (slots_map f n)(nm := None)" by (auto simp: fun_eq_iff)
  show "slots_distinct g n" using d old new unfolding slots_distinct_def by metis
qed

section \<open>Scanning\<close>

lemma de_find_slots:
  assumes n: "dirent_size * n < 2 ^ 31" and k: "k \<le> n"
  shows "de_find P (dirent_size * n) buf (dirent_size * k) =
    Inr (dirent_size * (case find_from (\<lambda>j. P buf (dirent_size * j)) k n of Some j \<Rightarrow> j | None \<Rightarrow> n))"
  using k
proof (induction "n - k" arbitrary: k)
  case 0
  then show ?case by (subst de_find.simps, subst find_from.simps) simp
next
  case (Suc m)
  then have lt: "k < n" by simp
  have e: "dirent_size * k < dirent_size * n" "dirent_size * k + dirent_size \<le> dirent_size * n" "dirent_size * k + dirent_size = dirent_size * Suc k"
    using lt mult_le_mono2[of "Suc k" n dirent_size] by (simp_all add: dirent_size_def)
  have IH: "de_find P (dirent_size * n) buf (dirent_size * Suc k) =
    Inr (dirent_size * (case find_from (\<lambda>j. P buf (dirent_size * j)) (Suc k) n of Some j \<Rightarrow> j | None \<Rightarrow> n))"
    by (rule Suc(1)) (use Suc(2) lt in auto)
  have nb: "\<not> dirent_size * k + dirent_size \<ge> 2 ^ 31" using e n by linarith
  show ?case
  proof (cases "P buf (dirent_size * k)")
    case True
    then show ?thesis using lt e by (subst de_find.simps, subst find_from.simps) simp
  next
    case False
    have "de_find P (dirent_size * n) buf (dirent_size * k) = de_find P (dirent_size * n) buf (dirent_size * Suc k)"
      using False e nb by (subst de_find.simps) (simp del: mult_Suc_right)
    then show ?thesis using IH lt False by (subst find_from.simps) simp
  qed
qed


section \<open>A directory that is in order\<close>

definition dir_slots :: "'a itable_scheme \<Rightarrow> nat \<Rightarrow> nat" where
  "dir_slots s dp = unat (di_size (it_inode s dp)) div dirent_size"

definition dir_of :: "'a itable_scheme \<Rightarrow> nat \<Rightarrow> byte list \<Rightarrow> uint option" where
  "dir_of s dp = slots_map (fbytes s dp) (dir_slots s dp)"

definition dir_ok :: "'a itable_scheme \<Rightarrow> nat \<Rightarrow> bool" where
  "dir_ok s dp \<longleftrightarrow> file_ok s dp \<and> table_wf s \<and> dp < it_n s \<and> dirent_size dvd unat (di_size (it_inode s dp)) \<and>
    unat (di_size (it_inode s dp)) < 2 ^ 31 \<and> slots_distinct (fbytes s dp) (dir_slots s dp)"

lemma dir_okD:
  assumes "dir_ok s dp"
  shows "file_ok s dp" "table_wf s" "dp < it_n s" "dirent_size dvd unat (di_size (it_inode s dp))"
    "unat (di_size (it_inode s dp)) < 2 ^ 31" "slots_distinct (fbytes s dp) (dir_slots s dp)"
    "unat (di_size (it_inode s dp)) = dirent_size * dir_slots s dp"
  using assms by (simp_all add: dir_ok_def dir_slots_def)

text \<open>Steps on the directory alone keep the table.\<close>

lemma keep_table:
  assumes "file_keep s s' ip" and wf: "table_wf s"
  shows "it_n s' = it_n s" "table_wf s'" "entry_of s' = entry_of s" "refcount s' = refcount s"
proof -
  note k = file_keepD[OF assms(1)]
  show n: "it_n s' = it_n s" by (rule it_frameD(5)[OF k(2)])
  have m: "mi_ref (it_inode s' j) = mi_ref (it_inode s j)" "mi_inum (it_inode s' j) = mi_inum (it_inode s j)"
    "mi_locked (it_inode s' j) = mi_locked (it_inode s j)" for j
    using metaD[OF k(3)] k(4)[of j] by (cases "j = ip"; simp)+
  show "table_wf s'" using wf by (simp add: table_wf_def n m)
  show e: "entry_of s' = entry_of s" by (simp add: entry_of_def n m fun_eq_iff)
  show "refcount s' = refcount s" by (simp add: refcount_def e m fun_eq_iff split: option.split)
qed

lemma grow_view [simp]:
  "view (itable_grow s) = view s" "held (itable_grow s) = held s" "log_ready X (itable_grow s) = log_ready X s"
  "data_block (itable_grow s) = data_block s" "bm_inv (itable_grow s) = bm_inv s" "bm_ready (itable_grow s) = bm_ready s"
  "bm_bit (itable_grow s) = bm_bit s" "usable (itable_grow s) = usable s" "lg_committing (itable_grow s) = lg_committing s"
  "IBLOCK inum (itable_grow s) = IBLOCK inum s"
proof -
  have "data_block (itable_grow s) b = data_block s b" for b by (rule log_base_cong; simp add: itable_grow_def)
  then show d: "data_block (itable_grow s) = data_block s" by blast
  show v: "view (itable_grow s) = view s" "held (itable_grow s) = held s" "log_ready X (itable_grow s) = log_ready X s"
    by (rule log_base_cong; simp add: itable_grow_def)+
  show "bm_inv (itable_grow s) = bm_inv s" "bm_ready (itable_grow s) = bm_ready s"
    "bm_bit (itable_grow s) = bm_bit s" "usable (itable_grow s) = usable s"
    by (rule bm_base_cong[OF _ _ _ _ _ _ d v(1)]; simp add: itable_grow_def)+
qed (simp_all add: itable_grow_def IBLOCK_def)

text \<open>A change of the table that leaves the inode of the file alone but for its references.\<close>

lemma file_table:
  assumes ok: "file_ok s ip" and it: "it_inode s' ip = (it_inode s ip)\<lparr>mi_ref := r\<rparr>"
    and base: "view s' = view s" "held s' = held s" "log_ready {} s'" "bm_inv s'" "bm_ready s'" "bm_bit s' = bm_bit s"
      "usable s' = usable s" "lg_committing s' = lg_committing s" "\<And>inum. IBLOCK inum s' = IBLOCK inum s"
  shows "file_ok s' ip" "fbytes s' ip = fbytes s ip"
proof -
  note d = file_okD[OF ok]
  have a: "di_addrs (it_inode s' ip) = di_addrs (it_inode s ip)" by (simp add: it)
  have v: "view s' c = view s c" for c by (simp add: base)
  note n = same_nodes[OF d(5) a v base(7,6)]
  have "own_block s' ip" using d(11-13) n(1) by (simp add: own_block_def Let_def it base)
  then show "file_ok s' ip" using d n(2) base by (simp add: file_ok_def it addrs_ok_def)
  show "fbytes s' ip = fbytes s ip" by (rule fbytes_cong[OF n(3)])
qed

lemma iget_form: "iget inum s = Inr (ip, s') \<Longrightarrow> \<exists>f. s' = upd_inode ip f s \<or> s' = upd_inode ip f (itable_grow s)"
  by (auto simp: iget_def iget_search_def split: option.splits)

lemma iget_keep:
  assumes ok: "file_ok s dp" and wf: "table_wf s" and dp: "dp < it_n s" and run: "iget inum s = Inr (ip, s')"
  shows "got s inum ip s'" "file_ok s' dp" "fbytes s' dp = fbytes s dp" "it_n s \<le> it_n s'"
    "\<exists>r. it_inode s' dp = (it_inode s dp)\<lparr>mi_ref := r\<rparr>" "mi_ref (it_inode s dp) > 0"
    "\<And>b. foreign s dp b \<Longrightarrow> view s' b = view s b"
proof -
  have n: "0 < it_n s" using dp by simp
  have g: "got s inum ip s' \<and> it_n s' \<in> {it_n s, 2 * it_n s}"
    using iget_got[OF wf n, of inum] run by simp
  then show got: "got s inum ip s'" and "it_n s \<le> it_n s'" by auto
  show ref: "mi_ref (it_inode s dp) > 0" using table_wfD(1,2)[OF wf dp] file_okD(9)[OF ok] by (cases "mi_ref (it_inode s dp) = 0") auto
  show it: "\<exists>r. it_inode s' dp = (it_inode s dp)\<lparr>mi_ref := r\<rparr>"
  proof (cases "dp = ip")
    case False
    then have "it_inode s' dp = (it_inode s dp)\<lparr>mi_ref := mi_ref (it_inode s dp)\<rparr>" using got dp unfolding got_def by simp
    then show ?thesis by blast
  next
    case True
    show ?thesis
    proof (cases "refcount s inum = 0")
      case False
      then show ?thesis using got True unfolding got_def by auto
    next
      case z: True
      then have "entry_of s inum = None" using refcount_pos(1)[OF wf, of inum] by simp
      moreover have "\<exists>f. s' = upd_inode ip f s \<or> s' = upd_inode ip f (itable_grow s)" by (rule iget_form[OF run])
      moreover have "mi_ref (it_inode s ip) = 0 \<or> it_n s \<le> ip"
        using run \<open>entry_of s inum = None\<close> n
        by (auto simp: iget_def iget_search_def entry_of_def[symmetric] itable_grow_ok(2)[OF wf] split: option.splits dest!: find_from_Some)
          (auto simp: itable_grow_def split: if_splits)
      ultimately show ?thesis using True ref dp by simp
    qed
  qed
  obtain f where s': "s' = upd_inode ip f s \<or> s' = upd_inode ip f (itable_grow s)" using iget_form[OF run] by blast
  note d = file_okD[OF ok]
  obtain r where r: "it_inode s' dp = (it_inode s dp)\<lparr>mi_ref := r\<rparr>" using it by blast
  have base: "view s' = view s" "held s' = held s" "log_ready {} s'" "bm_inv s'" "bm_ready s'" "bm_bit s' = bm_bit s"
    "usable s' = usable s" "lg_committing s' = lg_committing s" "IBLOCK k s' = IBLOCK k s" for k
    using s' d by auto
  show "file_ok s' dp" "fbytes s' dp = fbytes s dp" by (rule file_table[OF ok r base])+
  show "view s' b = view s b" for b by (simp add: base)
qed


section \<open>Looking a name up\<close>

lemma small_size: "unat w < 2 ^ 31 + 64 \<Longrightarrow> w \<le> MAXFILE_SIZE"
  by (simp add: word_le_nat_alt unat_MAXFILE_SIZE map_sizes BSIZE_def)

lemma read_dir_ok:
  assumes ok: "dir_ok s dp" and run: "read_dir msg dp s = Inr (buf, s')"
  shows "file_keep s s' dp" "fbytes s' dp = fbytes s dp" "j < unat (di_size (it_inode s dp)) \<Longrightarrow> buf j = fbytes s dp j" "synced s' dp"
proof -
  note d = dir_okD[OF ok]
  let ?sz = "di_size (it_inode s dp)"
  obtain n where r: "inode_read_nbytes_locked dp (\<lambda>_. 0) ?sz 0 s = Inr ((n, buf), s')"
    using run by (auto simp: read_dir_def chain_eq_Inr split: if_splits)
  have m: "unat ?sz = min (unat ?sz) (unat ?sz - unat (0 :: size_t))" by simp
  have f: "unat (0 :: size_t) + unat ?sz < 2 ^ 64" using d(5) by simp
  have le: "?sz \<le> MAXFILE_SIZE" by (rule small_size) (use d(5) in simp)
  note R = read_steps[OF d(1) f le r _ m]
  show "file_keep s s' dp" "fbytes s' dp = fbytes s dp" "synced s' dp" using R(2,3,5) by simp_all
  show "j < unat ?sz \<Longrightarrow> buf j = fbytes s dp j" using R(4) by (simp add: upd_bytes_def)
qed

lemma dir_keep:
  assumes ok: "dir_ok s dp" and k: "file_keep s s' dp" "fbytes s' dp = fbytes s dp"
  shows "dir_ok s' dp" "dir_of s' dp = dir_of s dp" "dir_slots s' dp = dir_slots s dp"
proof -
  note d = dir_okD[OF ok]
  note kd = file_keepD[OF k(1)]
  note t = keep_table[OF k(1) d(2)]
  have sz: "di_size (it_inode s' dp) = di_size (it_inode s dp)" using metaD(1)[OF kd(3)] .
  show n: "dir_slots s' dp = dir_slots s dp" by (simp add: dir_slots_def sz)
  show "dir_ok s' dp" using d kd(1) t by (simp add: dir_ok_def sz n k(2))
  show "dir_of s' dp = dir_of s dp" by (simp add: dir_of_def n k(2))
qed

text \<open>The scans find the entries of the map.\<close>

lemma dir_scan:
  assumes ok: "dir_ok s dp" and buf: "\<And>j. j < unat (di_size (it_inode s dp)) \<Longrightarrow> buf j = fbytes s dp j"
  shows "de_find (\<lambda>buf off. de_inum buf off \<noteq> 0 \<and> dirnamecmp (de_name buf off) nm = 0) (unat (di_size (it_inode s dp))) buf 0 =
      Inr (dirent_size * (case slot_of (fbytes s dp) (dir_slots s dp) (cname nm) of Some k \<Rightarrow> k | None \<Rightarrow> dir_slots s dp))" (is ?lookup)
    "de_find (\<lambda>buf off. de_inum buf off = 0) (unat (di_size (it_inode s dp))) buf 0 =
      Inr (dirent_size * (case find_from (\<lambda>k. slot_inum (fbytes s dp) k = 0) 0 (dir_slots s dp) of Some k \<Rightarrow> k | None \<Rightarrow> dir_slots s dp))" (is ?free)
    "k < dir_slots s dp \<Longrightarrow> de_inum buf (dirent_size * k) = slot_inum (fbytes s dp) k"
proof -
  note d = dir_okD[OF ok]
  let ?n = "dir_slots s dp" and ?f = "fbytes s dp"
  have lim: "dirent_size * ?n < 2 ^ 31" using d(5,7) by simp
  have c: "slot_inum buf k = slot_inum ?f k" "slot_name buf k = slot_name ?f k" if "k < ?n" for k
  proof -
    have "dirent_size * k + j < unat (di_size (it_inode s dp))" if "j < dirent_size" for j
      unfolding d(7) using that \<open>k < ?n\<close> mult_le_mono2[of "Suc k" ?n dirent_size] by simp
    then show "slot_inum buf k = slot_inum ?f k" "slot_name buf k = slot_name ?f k" using slot_cong[of buf k ?f] buf by auto
  qed
  have "slot_of buf ?n (cname nm) = slot_of ?f ?n (cname nm)" using slots_map_cong(1)[OF c] by simp
  then show ?lookup using de_find_slots[OF lim, of 0 "\<lambda>buf off. de_inum buf off \<noteq> 0 \<and> dirnamecmp (de_name buf off) nm = 0" buf]
    unfolding d(7) by (simp add: slot_of_def slot_inum_def slot_name_def dirnamecmp_eq)
  have "find_from (\<lambda>k. slot_inum buf k = 0) 0 ?n = find_from (\<lambda>k. slot_inum ?f k = 0) 0 ?n" by (rule find_from_cong) (simp add: c)
  then show ?free using de_find_slots[OF lim, of 0 "\<lambda>buf off. de_inum buf off = 0" buf] unfolding d(7) by (simp add: slot_inum_def)
  show "k < ?n \<Longrightarrow> de_inum buf (dirent_size * k) = slot_inum ?f k" using c(1)[of k] by (simp add: slot_inum_def)
qed

lemma dirlookup_steps:
  assumes ok: "dir_ok s dp" and run: "dirlookup dp nm s = Inr (r, s')"
  obtains s1 where "file_keep s s1 dp" "fbytes s1 dp = fbytes s dp" "dir_ok s1 dp" "dir_of s1 dp = dir_of s dp" "synced s1 dp"
    "case slot_of (fbytes s dp) (dir_slots s dp) (cname nm) of None \<Rightarrow> r = None \<and> s' = s1
     | Some k \<Rightarrow> k < dir_slots s dp \<and> (\<exists>ip. r = Some (ip, dirent_size * k) \<and> iget (slot_inum (fbytes s dp) k) s1 = Inr (ip, s'))"
proof -
  obtain buf s1 where rd: "read_dir ''dirlookup: failed to read dir'' dp s = Inr (buf, s1)"
    using run by (auto simp: dirlookup_def chain_eq_Inr)
  note R = read_dir_ok[OF ok rd]
  note K = dir_keep[OF ok R(1,2)]
  let ?k = "slot_of (fbytes s dp) (dir_slots s dp) (cname nm)"
  have sz: "di_size (it_inode s1 dp) = di_size (it_inode s dp)" using metaD(1)[OF file_keepD(3)[OF R(1)]] .
  have sn: "unat (di_size (it_inode s dp)) = dirent_size * dir_slots s dp" by (rule dir_okD(7)[OF ok])
  note S = dir_scan[OF ok R(3)]
  have "case ?k of None \<Rightarrow> r = None \<and> s' = s1
     | Some k \<Rightarrow> k < dir_slots s dp \<and> (\<exists>ip. r = Some (ip, dirent_size * k) \<and> iget (slot_inum (fbytes s dp) k) s1 = Inr (ip, s'))"
  proof (cases ?k)
    case None
    then show ?thesis using run by (simp add: dirlookup_def rd sz Let_def S(1)) (simp add: sn)
  next
    case (Some k)
    then have k: "k < dir_slots s dp" using find_from_Some unfolding slot_of_def by blast
    then have "dirent_size * k < unat (di_size (it_inode s dp))" by (simp add: sn dirent_size_def)
    then show ?thesis using run k Some S(3)[OF _ k] by (auto simp: dirlookup_def rd sz Let_def S(1) chain_eq_Inr)
  qed
  then show ?thesis using that R K by blast
qed

lemma dir_iget:
  assumes ok: "dir_ok s dp" and run: "iget inum s = Inr (ip, s')"
  shows "dir_ok s' dp" "dir_of s' dp = dir_of s dp" "dir_slots s' dp = dir_slots s dp" "got s inum ip s'" "fbytes s' dp = fbytes s dp"
proof -
  note d = dir_okD[OF ok]
  note g = iget_keep[OF d(1-3) run]
  show "got s inum ip s'" "fbytes s' dp = fbytes s dp" using g by simp_all
  obtain r where r: "it_inode s' dp = (it_inode s dp)\<lparr>mi_ref := r\<rparr>" using g(5) by blast
  then show n: "dir_slots s' dp = dir_slots s dp" by (simp add: dir_slots_def)
  show "dir_of s' dp = dir_of s dp" by (simp add: dir_of_def n g(3))
  show "dir_ok s' dp" using d g n r by (simp add: dir_ok_def got_def)
qed

lemma dirlookup_result:
  assumes ok: "dir_ok s dp" and run: "dirlookup dp nm s = Inr (r, s')"
  shows "dir_ok s' dp \<and> dir_of s' dp = dir_of s dp \<and>
    (case dir_of s dp (cname nm) of
       None \<Rightarrow> r = None \<and> refcount s' = refcount s
     | Some inum \<Rightarrow> \<exists>ip off. r = Some (ip, off) \<and> entry_of s' inum = Some ip \<and> refcount s' = (refcount s)(inum := refcount s inum + 1) \<and>
         off < unat (di_size (it_inode s dp)) \<and> de_inum (fbytes s dp) off = inum \<and> cname (de_name (fbytes s dp) off) = cname nm)"
proof -
  obtain s1 where s1: "file_keep s s1 dp" "fbytes s1 dp = fbytes s dp" "dir_ok s1 dp" "dir_of s1 dp = dir_of s dp" "synced s1 dp"
    and c: "case slot_of (fbytes s dp) (dir_slots s dp) (cname nm) of None \<Rightarrow> r = None \<and> s' = s1
     | Some k \<Rightarrow> k < dir_slots s dp \<and> (\<exists>ip. r = Some (ip, dirent_size * k) \<and> iget (slot_inum (fbytes s dp) k) s1 = Inr (ip, s'))"
    by (rule dirlookup_steps[OF ok run])
  note t = keep_table[OF s1(1) dir_okD(2)[OF ok]]
  show ?thesis
  proof (cases "slot_of (fbytes s dp) (dir_slots s dp) (cname nm)")
    case None
    then have "dir_of s dp (cname nm) = None" by (simp add: dir_of_def slots_map_def)
    then show ?thesis using c None s1 t by simp
  next
    case (Some k)
    then obtain ip where ip: "k < dir_slots s dp" "r = Some (ip, dirent_size * k)" "iget (slot_inum (fbytes s dp) k) s1 = Inr (ip, s')" using c by auto
    note g = dir_iget[OF s1(3) ip(3)]
    have m: "dir_of s dp (cname nm) = Some (slot_inum (fbytes s dp) k)" using Some by (simp add: dir_of_def slots_map_def)
    have "slot_name (fbytes s dp) k = cname nm" using find_from_Some[OF Some[unfolded slot_of_def]] by simp
    moreover have "dirent_size * k < unat (di_size (it_inode s dp))" using ip(1) by (simp add: dir_okD(7)[OF ok] dirent_size_def)
    ultimately show ?thesis using g s1(4) t(4) ip(2) unfolding m got_def by (simp add: slot_name_def slot_inum_def)
  qed
qed

text \<open>
  C17: dirlookup is the lookup in this map: for a name that is there it returns the table entry of
  the inode with one more reference and the offset of an entry with this name and number, for
  another name it returns nothing and keeps no reference, and it changes neither the map nor the
  order of the directory.
\<close>

theorem dirlookup_refines:
  assumes "dir_ok s dp" "dirlookup dp nm s = Inr (r, s')"
  shows "dir_ok s' dp \<and> dir_of s' dp = dir_of s dp \<and>
    (case dir_of s dp (cname nm) of
       None \<Rightarrow> r = None \<and> refcount s' = refcount s
     | Some inum \<Rightarrow> \<exists>ip off. r = Some (ip, off) \<and> entry_of s' inum = Some ip \<and> refcount s' = (refcount s)(inum := refcount s inum + 1) \<and>
         off < unat (di_size (it_inode s dp)) \<and> de_inum (fbytes s dp) off = inum \<and> cname (de_name (fbytes s dp) off) = cname nm)"
  by (rule dirlookup_result[OF assms])


lemma get_le_shift: "get_le n (\<lambda>j. b (off + j)) k = get_le n b (off + k)"
  by (induction n arbitrary: k) simp_all

lemma get32_entry: "get32 g (dirent_size * k) = get32 (\<lambda>j. g (dirent_size * k + j)) 0"
  by (simp add: get_le_shift)

section \<open>Writing an entry\<close>

lemma table_cong:
  assumes n: "it_n s' = it_n s" and m: "\<And>j. mi_ref (it_inode s' j) = mi_ref (it_inode s j)" "\<And>j. mi_inum (it_inode s' j) = mi_inum (it_inode s j)"
    "\<And>j. mi_locked (it_inode s' j) = mi_locked (it_inode s j)"
  shows "table_wf s' = table_wf s" "entry_of s' = entry_of s" "refcount s' = refcount s"
proof -
  show "table_wf s' = table_wf s" by (simp add: table_wf_def n m)
  show e: "entry_of s' = entry_of s" by (simp add: entry_of_def n m fun_eq_iff)
  show "refcount s' = refcount s" by (simp add: refcount_def e m fun_eq_iff split: option.split)
qed

lemma write_entry:
  assumes ok: "dir_ok s dp" and k: "k \<le> dir_slots s dp" "dirent_size * Suc k < 2 ^ 31"
    and run: "inode_write_nbytes_locked dp dat (word_of_nat dirent_size) (word_of_nat (dirent_size * k)) s = Inr (r, s')"
  shows "r = int dirent_size" "file_ok s' dp" "fbytes s' dp = upd_bytes (fbytes s dp) (dirent_size * k) dirent_size dat"
    "dir_slots s' dp = max (dir_slots s dp) (Suc k)" "it_n s' = it_n s" "table_wf s'" "entry_of s' = entry_of s" "refcount s' = refcount s"
    "unat (di_size (it_inode s' dp)) = dirent_size * dir_slots s' dp"
    "foreign s dp c \<Longrightarrow> foreign s' dp c \<and> view s' c = view s c"
proof -
  note d = dir_okD[OF ok]
  let ?off = "word_of_nat (dirent_size * k) :: size_t" and ?n = "word_of_nat dirent_size :: size_t"
  have u: "unat ?off = dirent_size * k" "unat ?n = dirent_size" unfolding unsigned_of_nat using k(2)
    by (simp_all add: take_bit_nat_eq_self dirent_size_def)
  have s31: "unat ?off + unat ?n < 2 ^ 31" unfolding u using k(2) by simp
  have lim: "unat ?off + unat ?n \<le> unat MAXFILE_SIZE" using s31 by (simp add: unat_MAXFILE_SIZE map_sizes BSIZE_def)
  have le: "\<not> ?off > MAXFILE_SIZE" using lim by (simp add: word_less_nat_alt)
  have m: "dirent_size = min (unat ?n) (unat MAXFILE_SIZE - unat ?off)" unfolding u using k(2) by (simp add: unat_MAXFILE_SIZE map_sizes BSIZE_def)
  have fits: "unat ?off + unat ?n < 2 ^ 64" using s31 by simp
  note R = write_steps[OF d(1) fits run le m refl]
  let ?g = "upd_inode dp (grown ?off (clamped ?n ?off MAXFILE_SIZE)) s"
  note kd = file_keepD[OF R(2)]
  show "r = int dirent_size" "file_ok s' dp" "fbytes s' dp = upd_bytes (fbytes s dp) (dirent_size * k) dirent_size dat"
    using R kd(1) u by simp_all
  have "mi_ref (it_inode ?g j) = mi_ref (it_inode s j)" "mi_inum (it_inode ?g j) = mi_inum (it_inode s j)"
    "mi_locked (it_inode ?g j) = mi_locked (it_inode s j)" for j by (simp_all add: grown_def)
  note g = table_cong[OF _ this]
  note t = keep_table[OF R(2), unfolded g(1)[OF upd_inode_table(2)]]
  show "it_n s' = it_n s" "table_wf s'" "entry_of s' = entry_of s" "refcount s' = refcount s"
    using t d(2) g(2,3) by simp_all
  have "di_size (it_inode s' dp) = (if di_size (it_inode s dp) < ?off + clamped ?n ?off MAXFILE_SIZE
      then ?off + clamped ?n ?off MAXFILE_SIZE else di_size (it_inode s dp))"
    using metaD(1)[OF kd(3)] by (simp add: grown_def)
  then have "unat (di_size (it_inode s' dp)) = max (unat (di_size (it_inode s dp))) (dirent_size * k + dirent_size)"
    using R(4) by (simp add: word_less_nat_alt u max_def del: of_nat_mult)
  also have "\<dots> = dirent_size * max (dir_slots s dp) (Suc k)" unfolding d(7) by (simp add: max_def dirent_size_def)
  finally have sz: "unat (di_size (it_inode s' dp)) = dirent_size * max (dir_slots s dp) (Suc k)" .
  then show "dir_slots s' dp = max (dir_slots s dp) (Suc k)" by (simp add: dir_slots_def dirent_size_def)
  then show "unat (di_size (it_inode s' dp)) = dirent_size * dir_slots s' dp" using sz by simp
  show "foreign s dp c \<Longrightarrow> foreign s' dp c \<and> view s' c = view s c" using kd(5,6)[of c] grow_keep(3)[OF d(1)] by simp
qed

lemma slot_upd:
  assumes f: "g = upd_bytes f (dirent_size * k) dirent_size dat"
  shows "slot_inum g k = de_inum dat 0" "slot_name g k = cname (de_name dat 0)"
    "j \<noteq> k \<Longrightarrow> slot_inum g j = slot_inum f j \<and> slot_name g j = slot_name f j"
proof -
  have e: "g (dirent_size * k + j) = dat j" if "j < dirent_size" for j using that by (simp add: f upd_bytes_def)
  show "slot_inum g k = de_inum dat 0" unfolding slot_inum_def de_inum_def
  proof -
    have "get32 (\<lambda>j. g (dirent_size * k + j)) 0 = get32 dat 0" by (rule get_le_cong) (use e in \<open>simp add: dirent_size_def\<close>)
    then show "get32 g (dirent_size * k) = get32 dat 0" by (simp only: get32_entry)
  qed
  have "de_name g (dirent_size * k) j = de_name dat 0 j" if "j < DIRSIZE" for j
    using e[of "4 + j"] that by (simp add: de_name_def dirent_size_def DIRSIZE_def add.assoc)
  then have "map (de_name g (dirent_size * k)) [0..<DIRSIZE] = map (de_name dat 0) [0..<DIRSIZE]" by simp
  then show "slot_name g k = cname (de_name dat 0)" by (simp only: slot_name_def cname_def)
  assume "j \<noteq> k"
  then have "g (dirent_size * j + i) = f (dirent_size * j + i)" if "i < dirent_size" for i
    using slot_bytes_apart[of j k i] that by (auto simp: f upd_bytes_def)
  then show "slot_inum g j = slot_inum f j \<and> slot_name g j = slot_name f j" using slot_cong[of g j f] by auto
qed

lemma dirent_bytes_entry: "de_inum (dirent_bytes nm inum) 0 = inum" "cname (de_name (dirent_bytes nm inum) 0) = cname nm"
proof -
  show "de_inum (dirent_bytes nm inum) 0 = inum" by (simp add: de_inum_def dirent_bytes_def)
  have "de_name (dirent_bytes nm inum) 0 j = strncpy DIRSIZE (\<lambda>_. 0) nm j" for j
    by (simp add: de_name_def dirent_bytes_def put_le_def)
  then have "de_name (dirent_bytes nm inum) 0 = strncpy DIRSIZE (\<lambda>_. 0) nm" by blast
  then show "cname (de_name (dirent_bytes nm inum) 0) = cname nm" by (simp add: cname_strncpy)
qed


text \<open>\<open>iput\<close> on a reference just taken by \<open>iget\<close> only gives it back.\<close>

lemma iput_got_returns:
  assumes g: "got s inum ip s'"
  shows "iput ip s' = Inr ((), upd_inode ip (\<lambda>i. i\<lparr>mi_ref := mi_ref i - 1\<rparr>) s')" "mi_ref (it_inode s' ip) = refcount s inum + 1"
proof -
  have ip: "entry_of s' inum = Some ip" "refcount s' = (refcount s)(inum := refcount s inum + 1)" using g by (simp_all add: got_def)
  show rc: "mi_ref (it_inode s' ip) = refcount s inum + 1"
    using ip(2)[THEN fun_cong, of inum] ip(1) by (simp add: refcount_def[of s'])
  have "\<not> (mi_ref (it_inode s' ip) = 1 \<and> mi_valid (it_inode s' ip))" using g rc by (auto simp: got_def)
  then show "iput ip s' = Inr ((), upd_inode ip (\<lambda>i. i\<lparr>mi_ref := mi_ref i - 1\<rparr>) s')" by (auto simp: iput_def Let_def)
qed

lemma iput_got:
  assumes g: "got s inum ip s'" and wf: "table_wf s" and run: "iput ip s' = Inr (u, t)"
  shows "t = upd_inode ip (\<lambda>i. i\<lparr>mi_ref := mi_ref i - 1\<rparr>) s'" "table_wf t" "refcount t = refcount s"
proof -
  have ip: "table_wf s'" "entry_of s' inum = Some ip" "refcount s' = (refcount s)(inum := refcount s inum + 1)" using g by (simp_all add: got_def)
  note e = entry_of_Some[OF ip(1), of inum ip, THEN iffD1, OF ip(2)]
  note rc = iput_got_returns(2)[OF g]
  show t: "t = upd_inode ip (\<lambda>i. i\<lparr>mi_ref := mi_ref i - 1\<rparr>) s'" using run iput_got_returns(1)[OF g] by simp
  have n: "it_n t = it_n s'" by (simp add: t)
  let ?e = "(it_inode s' ip)\<lparr>mi_ref := mi_ref (it_inode s' ip) - 1\<rparr>"
  have it: "it_inode t = (it_inode s')(ip := ?e)" by (auto simp: t fun_eq_iff)
  have nn: "0 \<le> mi_ref ?e" using refcount_pos(2)[OF wf] rc by simp
  have nl: "mi_ref ?e = 0 \<longrightarrow> \<not> mi_locked ?e" using g rc by (auto simp: got_def)
  note u = refcount_upd[OF ip(1,2) n it _ nn nl]
  show "table_wf t" by (rule u(1)) (simp add: e)
  have "refcount t = (refcount s')(inum := mi_ref ?e)" by (rule u(2)) (simp add: e)
  then show "refcount t = refcount s" by (simp add: ip(3) rc)
qed

lemma dir_iput:
  assumes ok: "dir_ok s dp" and g: "got s0 inum ip s" "table_wf s0" and run: "iput ip s = Inr (u, t)"
  shows "dir_ok t dp" "dir_of t dp = dir_of s dp" "refcount t = refcount s0" "dir_slots t dp = dir_slots s dp"
proof -
  note i = iput_got[OF g run]
  note d = dir_okD[OF ok]
  have it: "it_inode t dp = (it_inode s dp)\<lparr>mi_ref := if dp = ip then mi_ref (it_inode s dp) - 1 else mi_ref (it_inode s dp)\<rparr>" by (simp add: i(1))
  have ft: "file_ok t dp" "fbytes t dp = fbytes s dp" using file_okD[OF d(1)] by (intro file_table[OF d(1) it]; simp add: i(1))+
  show n: "dir_slots t dp = dir_slots s dp" by (simp add: dir_slots_def it)
  show "dir_of t dp = dir_of s dp" by (simp add: dir_of_def n ft(2))
  show "dir_ok t dp" using d i(2) ft n by (simp add: dir_ok_def it) (simp add: i(1))
  show "refcount t = refcount s0" by (rule i(3))
qed

section \<open>Adding a name\<close>

text \<open>The steps of \<open>dirlink\<close>: either the name is found and its inode given back, or an entry is written.\<close>

lemma dirlink_steps:
  assumes ok: "dir_ok s dp" and run: "dirlink dp nm inum s = Inr (r, s')"
  obtains (found) k ip s0 s1 where "slot_of (fbytes s dp) (dir_slots s dp) (cname nm) = Some k" "r = -1"
      "file_keep s s0 dp" "fbytes s0 dp = fbytes s dp" "dir_ok s0 dp" "dir_of s0 dp = dir_of s dp" "synced s0 dp"
      "iget (slot_inum (fbytes s dp) k) s0 = Inr (ip, s1)" "iput ip s1 = Inr ((), s')"
    | (new) k s2 x where "slot_of (fbytes s dp) (dir_slots s dp) (cname nm) = None" "r = 0"
      "k = (case find_from (\<lambda>k. slot_inum (fbytes s dp) k = 0) 0 (dir_slots s dp) of Some k \<Rightarrow> k | None \<Rightarrow> dir_slots s dp)"
      "file_keep s s2 dp" "fbytes s2 dp = fbytes s dp" "dir_ok s2 dp" "synced s2 dp" "dir_slots s2 dp = dir_slots s dp"
      "inode_write_nbytes_locked dp (dirent_bytes nm inum) (word_of_nat dirent_size) (word_of_nat (dirent_size * k)) s2 = Inr (x, s')"
proof -
  obtain q s1 where q: "dirlookup dp nm s = Inr (q, s1)" using run by (auto simp: dirlink_def chain_eq_Inr)
  note d = dir_okD[OF ok]
  obtain s0 where s0: "file_keep s s0 dp" "fbytes s0 dp = fbytes s dp" "dir_ok s0 dp" "dir_of s0 dp = dir_of s dp" "synced s0 dp"
    and c: "case slot_of (fbytes s dp) (dir_slots s dp) (cname nm) of None \<Rightarrow> q = None \<and> s1 = s0
     | Some k \<Rightarrow> k < dir_slots s dp \<and> (\<exists>ip. q = Some (ip, dirent_size * k) \<and> iget (slot_inum (fbytes s dp) k) s0 = Inr (ip, s1))"
    by (rule dirlookup_steps[OF ok q])
  show ?thesis
  proof (cases "slot_of (fbytes s dp) (dir_slots s dp) (cname nm)")
    case (Some k)
    then obtain ip where ip: "q = Some (ip, dirent_size * k)" "iget (slot_inum (fbytes s dp) k) s0 = Inr (ip, s1)" using c by auto
    have p: "iput ip s1 = Inr ((), s')" "r = -1" using run q ip by (auto simp: dirlink_def chain_eq_Inr)
    show ?thesis by (rule found[OF Some p(2) s0 ip(2) p(1)])
  next
    case None
    then have q0: "q = None" "s1 = s0" using c by simp_all
    let ?n = "dir_slots s dp" and ?f = "fbytes s dp"
    define k where "k = (case find_from (\<lambda>k. slot_inum ?f k = 0) 0 ?n of Some k \<Rightarrow> k | None \<Rightarrow> ?n)"
    have sz0: "di_size (it_inode s0 dp) = di_size (it_inode s dp)" using metaD(1)[OF file_keepD(3)[OF s0(1)]] .
    have n0: "dir_slots s0 dp = ?n" by (simp add: dir_slots_def sz0)
    obtain s2 where s2: "file_keep s s2 dp" "fbytes s2 dp = ?f" "dir_ok s2 dp" "synced s2 dp" "dir_slots s2 dp = ?n"
      and w: "chain (inode_write_nbytes_locked dp (dirent_bytes nm inum) (word_of_nat dirent_size) (word_of_nat (dirent_size * k)) s2)
        (\<lambda>(n, s). if word_of_int n \<noteq> (word_of_nat dirent_size :: size_t) then Inl (Err_exit ''dirlink: write entry failed'') else Inr (0, s)) = Inr (r, s')"
    proof (cases "di_size (it_inode s dp) = 0")
      case True
      then have "?n = 0" by (simp add: dir_slots_def)
      then have "k = 0" by (simp add: k_def find_from.simps)
      then have "chain (inode_write_nbytes_locked dp (dirent_bytes nm inum) (word_of_nat dirent_size) (word_of_nat (dirent_size * k)) s0)
        (\<lambda>(n, s). if word_of_int n \<noteq> (word_of_nat dirent_size :: size_t) then Inl (Err_exit ''dirlink: write entry failed'') else Inr (0, s)) = Inr (r, s')"
        using run q q0 True sz0 by (simp add: dirlink_def)
      then show ?thesis using s0 n0 by (intro that[of s0]) simp_all
    next
      case False
      then obtain buf s2 where rd: "read_dir ''dirlink: read failed'' dp s0 = Inr (buf, s2)"
        using run q q0 sz0 by (auto simp: dirlink_def chain_eq_Inr)
      note R = read_dir_ok[OF s0(3) rd]
      note K = dir_keep[OF s0(3) R(1,2)]
      have sz2: "di_size (it_inode s2 dp) = di_size (it_inode s0 dp)" using metaD(1)[OF file_keepD(3)[OF R(1)]] .
      have "de_find (\<lambda>buf off. de_inum buf off = 0) (unat (di_size (it_inode s2 dp))) buf 0 = Inr (dirent_size * k)"
        using dir_scan(2)[OF s0(3) R(3)] by (simp add: sz2 k_def n0 s0(2) split: option.splits)
      then have "chain (inode_write_nbytes_locked dp (dirent_bytes nm inum) (word_of_nat dirent_size) (word_of_nat (dirent_size * k)) s2)
        (\<lambda>(n, s). if word_of_int n \<noteq> (word_of_nat dirent_size :: size_t) then Inl (Err_exit ''dirlink: write entry failed'') else Inr (0, s)) = Inr (r, s')"
        using run q q0 False sz0 rd by (simp add: dirlink_def)
      then show ?thesis using that[OF file_keep_trans[OF s0(1) R(1)] _ K(1) R(4)] R(2) s0(2) K(3) n0 by simp
    qed
    obtain x where x: "inode_write_nbytes_locked dp (dirent_bytes nm inum) (word_of_nat dirent_size) (word_of_nat (dirent_size * k)) s2 = Inr (x, s')" "r = 0"
      using w by (auto simp: chain_eq_Inr split: if_splits)
    show ?thesis by (rule new[OF None x(2) k_def s2 x(1)])
  qed
qed

lemma dirlink_result:
  assumes ok: "dir_ok s dp" and inum: "inum \<noteq> 0" and room: "unat (di_size (it_inode s dp)) + dirent_size < 2 ^ 31"
    and run: "dirlink dp nm inum s = Inr (r, s')"
  shows "dir_ok s' dp \<and> refcount s' = refcount s \<and>
    unat (di_size (it_inode s' dp)) \<le> unat (di_size (it_inode s dp)) + dirent_size \<and>
    (case dir_of s dp (cname nm) of
       Some _ \<Rightarrow> r = -1 \<and> dir_of s' dp = dir_of s dp
     | None \<Rightarrow> r = 0 \<and> dir_of s' dp = (dir_of s dp)(cname nm \<mapsto> inum))"
proof (cases rule: dirlink_steps[OF ok run, case_names found new])
  case (found k ip s0 s1)
  note d = dir_okD[OF ok]
  note g = dir_iget[OF found(5,8)]
  note u = dir_iput[OF g(1,4) dir_okD(2)[OF found(5)] found(9)]
  have "dir_of s dp (cname nm) \<noteq> None" using found(1) by (simp add: dir_of_def slots_map_def)
  moreover have "dir_slots s' dp = dir_slots s dp" using u(4) g(3) metaD(1)[OF file_keepD(3)[OF found(3)]] by (simp add: dir_slots_def)
  then have "unat (di_size (it_inode s' dp)) = unat (di_size (it_inode s dp))" using dir_okD(7)[OF u(1)] d(7) by simp
  ultimately show ?thesis using u g found(2,6) keep_table(4)[OF found(3) d(2)] by auto
next
  case (new k s2 x)
  note d = dir_okD[OF ok]
  let ?n = "dir_slots s dp" and ?f = "fbytes s dp"
  have kn: "k \<le> ?n" "k < ?n \<Longrightarrow> slot_inum ?f k = 0" unfolding new(3) by (auto dest: find_from_Some split: option.splits)
  have k31: "dirent_size * Suc k < 2 ^ 31" using room mult_le_mono2[OF kn(1), of dirent_size] unfolding d(7) mult_Suc_right by linarith
  have k2: "k \<le> dir_slots s2 dp" using kn(1) new(8) by simp
  note W = write_entry[OF new(6) k2 k31 new(9)]
  note U = slot_upd[OF W(3), unfolded dirent_bytes_entry new(5)]
  have n': "dir_slots s' dp = max ?n (Suc k)" using W(4) new(8) by simp
  have fresh: "slots_map ?f ?n (cname nm) = None" using new(1) by (simp add: slots_map_def)
  note L = slots_map_link[of k "dir_slots s' dp" ?n ?f "fbytes s' dp" inum "cname nm", OF _ _ _ kn(2) _ U(1) inum U(2) U(3) fresh]
  have m: "dir_of s' dp = (dir_of s dp)(cname nm \<mapsto> inum)" unfolding dir_of_def by (rule L(1)) (use n' kn in auto)
  have ds: "slots_distinct (fbytes s' dp) (dir_slots s' dp)" by (rule L(2)) (use n' kn d(6) in auto)
  have "unat (di_size (it_inode s' dp)) < 2 ^ 31" using W(9) n' k31 d(5,7) by (simp add: max_def)
  then have "dir_ok s' dp" using W(2,5,6,9) ds dir_okD(3)[OF new(6)] by (simp add: dir_ok_def)
  moreover have "dirent_size * dir_slots s' dp \<le> dirent_size * Suc ?n" by (rule mult_le_mono2) (use n' kn(1) in simp)
  then have "unat (di_size (it_inode s' dp)) \<le> unat (di_size (it_inode s dp)) + dirent_size" unfolding W(9) d(7) by simp
  moreover have "refcount s2 = refcount s" by (rule keep_table(4)[OF new(4) d(2)])
  ultimately show ?thesis using m W(8) new(2) fresh by (simp add: dir_of_def)
qed


text \<open>
  C16: on a directory in order, seen as a map from names to inode numbers, dirlink adds the name
  with its number and returns 0 when the name is not there, and returns -1 and changes nothing
  when it is; the directory stays in order (no two entries in use with the same name) and no
  reference is kept.
\<close>

theorem dirlink_refines:
  assumes "dir_ok s dp" "inum \<noteq> 0" "unat (di_size (it_inode s dp)) + dirent_size < 2 ^ 31" "dirlink dp nm inum s = Inr (r, s')"
  shows "dir_ok s' dp \<and> refcount s' = refcount s \<and>
    (case dir_of s dp (cname nm) of
       Some _ \<Rightarrow> r = -1 \<and> dir_of s' dp = dir_of s dp
     | None \<Rightarrow> r = 0 \<and> dir_of s' dp = (dir_of s dp)(cname nm \<mapsto> inum))"
  using dirlink_result[OF assms] by blast

section \<open>Removing a name\<close>

lemma clear_result:
  assumes ok: "dir_ok s dp" and k: "k < dir_slots s dp" "slot_of (fbytes s dp) (dir_slots s dp) nm = Some k"
    and run: "clear_dirent dp (dirent_size * k) s = Inr (u, s')"
  shows "dir_ok s' dp" "dir_of s' dp = (dir_of s dp)(nm := None)" "refcount s' = refcount s"
proof -
  note d = dir_okD[OF ok]
  obtain x where x: "inode_write_nbytes_locked dp (\<lambda>_. 0) (word_of_nat dirent_size) (word_of_nat (dirent_size * k)) s = Inr (x, s')"
    using run by (auto simp: clear_dirent_def chain_eq_Inr)
  have k31: "dirent_size * Suc k < 2 ^ 31"
    using d(5) mult_le_mono2[of "Suc k" "dir_slots s dp" dirent_size] k(1) unfolding d(7) by simp
  note W = write_entry[OF ok less_imp_le[OF k(1)] k31 x]
  note U = slot_upd[OF W(3)]
  have n: "dir_slots s' dp = dir_slots s dp" using W(4) k(1) by simp
  have z: "slot_inum (fbytes s' dp) k = 0" using U(1) by (simp add: de_inum_def)
  note L = slots_map_unlink[OF k d(6) z U(3)]
  show "dir_of s' dp = (dir_of s dp)(nm := None)" unfolding dir_of_def n by (rule L(1))
  show "dir_ok s' dp" using W(2,5,6,9) L(2) d(3,5,7) n by (simp add: dir_ok_def)
  show "refcount s' = refcount s" by (rule W(8))
qed

lemma unlink_name_result:
  assumes ok: "dir_ok s dp" and run: "unlink_name dp nm s = Inr (u, s')"
  shows "dir_ok s' dp \<and> refcount s' = refcount s \<and> dir_of s dp (cname nm) \<noteq> None \<and> dir_of s' dp = (dir_of s dp)(cname nm := None)"
proof -
  obtain q s1 where q: "dirlookup dp nm s = Inr (q, s1)" using run by (auto simp: unlink_name_def chain_eq_Inr)
  obtain s0 where s0: "file_keep s s0 dp" "fbytes s0 dp = fbytes s dp" "dir_ok s0 dp" "dir_of s0 dp = dir_of s dp" "synced s0 dp"
    and c: "case slot_of (fbytes s dp) (dir_slots s dp) (cname nm) of None \<Rightarrow> q = None \<and> s1 = s0
     | Some k \<Rightarrow> k < dir_slots s dp \<and> (\<exists>ip. q = Some (ip, dirent_size * k) \<and> iget (slot_inum (fbytes s dp) k) s0 = Inr (ip, s1))"
    by (rule dirlookup_steps[OF ok q])
  note t0 = keep_table[OF s0(1) dir_okD(2)[OF ok]]
  have "q \<noteq> None" using run q by (cases q) (simp_all add: unlink_name_def)
  then obtain k ip where k: "slot_of (fbytes s dp) (dir_slots s dp) (cname nm) = Some k" "k < dir_slots s dp"
    "q = Some (ip, dirent_size * k)" "iget (slot_inum (fbytes s dp) k) s0 = Inr (ip, s1)" using c by (auto split: option.splits)
  obtain s2 where s2: "iput ip s1 = Inr ((), s2)" "clear_dirent dp (dirent_size * k) s2 = Inr (u, s')"
    using run q k by (auto simp: unlink_name_def chain_eq_Inr)
  note g = dir_iget[OF s0(3) k(4)]
  note i = iput_got(1)[OF g(4) dir_okD(2)[OF s0(3)] s2(1)]
  note p = dir_iput[OF g(1,4) dir_okD(2)[OF s0(3)] s2(1)]
  have it: "it_inode s2 dp = (it_inode s1 dp)\<lparr>mi_ref := if dp = ip then mi_ref (it_inode s1 dp) - 1 else mi_ref (it_inode s1 dp)\<rparr>" by (simp add: i)
  have n: "dir_slots s2 dp = dir_slots s dp"
    using g(3) metaD(1)[OF file_keepD(3)[OF s0(1)]] by (simp add: dir_slots_def it)
  have f: "fbytes s2 dp = fbytes s dp"
    using file_okD[OF dir_okD(1)[OF g(1)]] by (subst file_table(2)[OF dir_okD(1)[OF g(1)] it]) (simp_all add: i g(5) s0(2))
  have k2: "k < dir_slots s2 dp" "slot_of (fbytes s2 dp) (dir_slots s2 dp) (cname nm) = Some k" using k n f by simp_all
  note C = clear_result[OF p(1) k2 s2(2)]
  have "dir_of s dp (cname nm) \<noteq> None" using k(1) by (simp add: dir_of_def slots_map_def)
  then show ?thesis using C p g s0(4) t0(4) by simp
qed

text \<open>
  C25: the removal of a name in rename (look it up, drop the reference, zero its entry) removes
  this name and no other from the map, keeps the directory in order and keeps no reference, and
  returns only if the name was there.
\<close>

theorem unlink_name_refines:
  assumes "dir_ok s dp" "unlink_name dp nm s = Inr (u, s')"
  shows "dir_ok s' dp \<and> refcount s' = refcount s \<and> dir_of s dp (cname nm) \<noteq> None \<and> dir_of s' dp = (dir_of s dp)(cname nm := None)"
  by (rule unlink_name_result[OF assms])

section \<open>A directory as a table of names\<close>

text \<open>
  What the handlers rely on when they add, remove and look up names: \<open>names\<close> is a map, the three
  operations work on it and keep \<open>ok\<close>, and adding a name needs \<open>room\<close>.
\<close>

locale name_table =
  fixes ok :: "'s \<Rightarrow> bool" and room :: "'s \<Rightarrow> bool" and key :: "'n \<Rightarrow> 'k" and names :: "'s \<Rightarrow> 'k \<Rightarrow> 'i option"
    and valid :: "'i \<Rightarrow> bool"
    and find :: "'n \<Rightarrow> 's \<Rightarrow> ('p option \<times> 's) res" and names_of :: "'s \<Rightarrow> 'p \<Rightarrow> 'i"
    and add :: "'n \<Rightarrow> 'i \<Rightarrow> 's \<Rightarrow> (int \<times> 's) res" and remove :: "'n \<Rightarrow> 's \<Rightarrow> (unit \<times> 's) res"
  assumes find: "ok s \<Longrightarrow> find nm s = Inr (r, s') \<Longrightarrow>
      ok s' \<and> names s' = names s \<and> map_option (names_of s') r = names s (key nm)"
    and add: "ok s \<Longrightarrow> room s \<Longrightarrow> valid i \<Longrightarrow> add nm i s = Inr (n, s') \<Longrightarrow>
      ok s' \<and> (if names s (key nm) = None then n = 0 \<and> names s' = (names s)(key nm \<mapsto> i) else n = -1 \<and> names s' = names s)"
    and remove: "ok s \<Longrightarrow> remove nm s = Inr ((), s') \<Longrightarrow>
      ok s' \<and> names s (key nm) \<noteq> None \<and> names s' = (names s)(key nm := None)"
begin

lemma find_added:
  assumes "ok s" "room s" "valid i" "add nm i s = Inr (0, s1)" "find nm' s1 = Inr (r, s2)"
  shows "ok s2 \<and> map_option (names_of s2) r = (if key nm' = key nm then Some i else names s (key nm'))"
  using add[OF assms(1-4)] find[OF _ assms(5)] by (auto split: if_splits)

lemma remove_added:
  assumes "ok s" "room s" "valid i" "add nm i s = Inr (0, s1)" "remove nm s1 = Inr ((), s2)"
  shows "ok s2 \<and> names s2 = names s"
  using add[OF assms(1-4)] remove[OF _ assms(5)] by (auto split: if_splits)

lemma find_removed:
  assumes "ok s" "remove nm s = Inr ((), s1)" "find nm s1 = Inr (r, s2)"
  shows "r = None"
  using remove[OF assms(1,2)] find[OF _ assms(3)] by auto

lemma moved:
  assumes "ok s" "room s1" "valid i" "remove nm s = Inr ((), s1)" "add nm' i s1 = Inr (0, s2)"
  shows "ok s2 \<and> names s2 = (names s)(key nm := None, key nm' \<mapsto> i)"
  using remove[OF assms(1,4)] add[OF _ assms(2,3,5)] by (auto split: if_splits)

end

definition dir_room :: "nat \<Rightarrow> 'a itable_scheme \<Rightarrow> bool" where
  "dir_room dp s \<longleftrightarrow> unat (di_size (it_inode s dp)) + dirent_size < 2 ^ 31"

interpretation nt: name_table "\<lambda>s. dir_ok s dp" "dir_room dp" cname "\<lambda>s. dir_of s dp" "\<lambda>inum. inum \<noteq> 0"
  "dirlookup dp" "\<lambda>s (ip, off). mi_inum (it_inode s ip)" "dirlink dp" "unlink_name dp" for dp
proof unfold_locales
  fix s s' :: "'a itable_scheme" and nm r
  assume ok: "dir_ok s dp" and run: "dirlookup dp nm s = Inr (r, s')"
  note R = dirlookup_result[OF ok run]
  then have "table_wf s'" by (simp add: dir_ok_def)
  note e = entry_of_Some[OF this]
  show "dir_ok s' dp \<and> dir_of s' dp = dir_of s dp \<and> map_option (\<lambda>(ip, off). mi_inum (it_inode s' ip)) r = dir_of s dp (cname nm)"
    using R e by (auto split: option.splits)
next
  fix s s' :: "'a itable_scheme" and nm r and i :: uint
  assume h: "dir_ok s dp" "dir_room dp s" "i \<noteq> 0" "dirlink dp nm i s = Inr (r, s')"
  show "dir_ok s' dp \<and> (if dir_of s dp (cname nm) = None then r = 0 \<and> dir_of s' dp = (dir_of s dp)(cname nm \<mapsto> i)
    else r = -1 \<and> dir_of s' dp = dir_of s dp)"
    using dirlink_result[OF h(1,3) h(2)[unfolded dir_room_def] h(4)] by (auto split: option.splits)
next
  fix s s' :: "'a itable_scheme" and nm
  assume h: "dir_ok s dp" "unlink_name dp nm s = Inr ((), s')"
  show "dir_ok s' dp \<and> dir_of s dp (cname nm) \<noteq> None \<and> dir_of s' dp = (dir_of s dp)(cname nm := None)"
    using unlink_name_result[OF h] by simp
qed


text \<open>
  Adding, looking up and removing a name in a directory of one block return when the log has room
  for a few writes. The block of the directory is mapped by the first access.
\<close>

lemma table_quota: "quota w f (upd_inode ip g s) = quota w f s" "quota w f (itable_grow s) = quota w f s"
  by (simp add: quota_def free_blocks_def) (simp add: quota_def free_blocks_def itable_grow_def bm_bit_def)

lemma table_direct: "(\<And>i. di_addrs (g i) = di_addrs i) \<Longrightarrow> direct (upd_inode ip g s) dp k = direct s dp k"
  by (simp add: direct_def)

lemma one_block: "unat (di_size (it_inode s dp)) \<le> BSIZE \<Longrightarrow> di_size (it_inode s dp) \<le> MAXFILE_SIZE"
  by (simp add: word_le_nat_alt unat_MAXFILE_SIZE map_sizes BSIZE_def)

lemma read_dir_total:
  assumes ok: "dir_ok s dp" and sz: "unat (di_size (it_inode s dp)) \<le> BSIZE"
    and need: "map_need s dp 0 cw cf" and q: "quota (1 + cw + w) (cf + f) s" "1 \<le> f"
  obtains buf s' where "read_dir msg dp s = Inr (buf, s')" "quota w f s'" "direct s' dp 0"
proof -
  note d = dir_okD[OF ok]
  have l: "unat (0 :: size_t) + unat (di_size (it_inode s dp)) \<le> unat (di_size (it_inode s dp))" "unat (0 :: size_t) < unat MAXFILE_SIZE"
    "unat (0 :: size_t) mod BSIZE + unat (di_size (it_inode s dp)) \<le> BSIZE"
    using sz by (simp_all add: unat_MAXFILE_SIZE map_sizes BSIZE_def)
  have n: "map_need s dp (unat (0 :: size_t) div BSIZE) cw cf" using need by simp
  obtain buf s' where r: "inode_read_nbytes_locked dp (\<lambda>_. 0) (di_size (it_inode s dp)) 0 s = Inr ((int (unat (di_size (it_inode s dp))), buf), s')"
    "file_ok s' dp" "fbytes s' dp = fbytes s dp" "quota w f s'" "direct s' dp 0"
    by (rule read_total[OF d(1) n q l one_block[OF sz], of "\<lambda>_. 0"]) (simp add: NDIRECT_def)
  have m: "unat (di_size (it_inode s dp)) = min (unat (di_size (it_inode s dp))) (unat (di_size (it_inode s dp)) - unat (0 :: size_t))" by simp
  have f: "unat (0 :: size_t) + unat (di_size (it_inode s dp)) < 2 ^ 64" using d(5) by simp
  note R = read_steps[OF d(1) f one_block[OF sz] r(1) _ m]
  have "di_size (it_inode s' dp) = di_size (it_inode s dp)" using metaD(1)[OF file_keepD(3)[OF R(2)]] by simp
  then have "read_dir msg dp s = Inr (buf, s')" by (simp add: read_dir_def r(1))
  then show ?thesis using r(4,5) by (rule that)
qed

lemma iget_total:
  assumes wf: "table_wf s" and n: "0 < it_n s" and q: "quota w f s" and dp: "direct s dp 0" "dp < it_n s" "mi_ref (it_inode s dp) > 0"
  obtains ip s' where "iget inum s = Inr (ip, s')" "quota w f s'" "direct s' dp 0" "got s inum ip s'"
proof -
  obtain ip s' where r: "iget inum s = Inr (ip, s')" "got s inum ip s'" using iget_got[OF wf n, of inum] by (auto elim!: returnsE)
  have q': "quota w f s'" using iget_form[OF r(1)] q by (auto simp: table_quota)
  have "direct s' dp 0" if "dp \<noteq> ip" using r(2) dp that by (simp add: got_def direct_def)
  moreover have "direct s' dp 0" if e: "dp = ip"
  proof (cases "refcount s inum = 0")
    case False
    then have "it_inode s' ip = (it_inode s ip)\<lparr>mi_ref := mi_ref (it_inode s ip) + 1\<rparr>" using r(2) by (simp add: got_def)
    then show ?thesis using dp e by (simp add: direct_def)
  next
    case True
    then have z: "entry_of s inum = None" using refcount_pos(1)[OF wf, of inum] by simp
    have "mi_ref (it_inode s ip) = 0 \<or> it_n s \<le> ip"
      using r(1) z n
      by (auto simp: iget_def iget_search_def entry_of_def[symmetric] itable_grow_ok(2)[OF wf] split: option.splits dest!: find_from_Some)
        (auto simp: itable_grow_def split: if_splits)
    then show ?thesis using dp e by simp
  qed
  ultimately show ?thesis using r q' that by blast
qed

lemma dir_ref: "dir_ok s dp \<Longrightarrow> mi_ref (it_inode s dp) > 0"
  using table_wfD(1,2)[of s dp] by (force simp: dir_ok_def file_ok_def)

lemma dirlookup_total:
  assumes ok: "dir_ok s dp" and sz: "unat (di_size (it_inode s dp)) \<le> BSIZE"
    and need: "map_need s dp 0 cw cf" and q: "quota (1 + cw + w) (cf + f) s" "1 \<le> f"
  obtains r s' where "dirlookup dp nm s = Inr (r, s')" "quota w f s'" "direct s' dp 0"
proof -
  obtain buf s1 where rd: "read_dir ''dirlookup: failed to read dir'' dp s = Inr (buf, s1)" "quota w f s1" "direct s1 dp 0"
    by (rule read_dir_total[OF ok sz need q])
  note R = read_dir_ok[OF ok rd(1)]
  note K = dir_keep[OF ok R(1,2)]
  have sz1: "di_size (it_inode s1 dp) = di_size (it_inode s dp)" using metaD(1)[OF file_keepD(3)[OF R(1)]] .
  note S = dir_scan(1)[OF ok R(3), of nm]
  define off where "off = dirent_size * (case slot_of (fbytes s dp) (dir_slots s dp) (cname nm) of Some k \<Rightarrow> k | None \<Rightarrow> dir_slots s dp)"
  note S = S[folded off_def]
  note d1 = dir_okD[OF K(1)]
  show ?thesis
  proof (cases "off < unat (di_size (it_inode s dp))")
    case False
    then have "dirlookup dp nm s = Inr (None, s1)" by (simp add: dirlookup_def rd(1) sz1 S Let_def)
    then show ?thesis using rd(2,3) by (rule that)
  next
    case True
    have n: "0 < it_n s1" using d1(3) by simp
    obtain ip s2 where g: "iget (de_inum buf off) s1 = Inr (ip, s2)" "quota w f s2" "direct s2 dp 0"
      by (rule iget_total[OF d1(2) n rd(2,3) d1(3) dir_ref[OF K(1)], of "de_inum buf off"])
    then have "dirlookup dp nm s = Inr (Some (ip, off), s2)" using True by (simp add: dirlookup_def rd(1) sz1 S Let_def)
    then show ?thesis using g(2,3) by (rule that)
  qed
qed

lemma entry_write_total:
  assumes ok: "dir_ok s dp" and k: "k \<le> dir_slots s dp" "dirent_size * Suc k \<le> BSIZE"
    and d0: "direct s dp 0" and q: "quota (3 + w) f s" "1 \<le> f"
  obtains s' where "inode_write_nbytes_locked dp dat (word_of_nat dirent_size) (word_of_nat (dirent_size * k)) s = Inr (int dirent_size, s')"
    "quota w f s'" "direct s' dp 0"
proof -
  let ?off = "word_of_nat (dirent_size * k) :: size_t" and ?n = "word_of_nat dirent_size :: size_t"
  have u: "unat ?off = dirent_size * k" "unat ?n = dirent_size" unfolding unsigned_of_nat using k(2)
    by (simp_all add: take_bit_nat_eq_self dirent_size_def BSIZE_def)
  have dv: "unat ?off div BSIZE = 0" "unat ?off mod BSIZE = dirent_size * k" unfolding u using k(2) by (simp_all add: dirent_size_def BSIZE_def)
  have l: "unat ?off < unat MAXFILE_SIZE" "unat ?off mod BSIZE + unat ?n \<le> BSIZE" unfolding dv u using k(2)
    by (simp_all add: dirent_size_def BSIZE_def unat_MAXFILE_SIZE map_sizes)
  have need: "map_need s dp (unat ?off div BSIZE) 0 0" unfolding dv using d0 by (simp add: map_need_def)
  have q0: "quota (3 + 0 + w) (0 + f) s" using q(1) by simp
  obtain s' where "inode_write_nbytes_locked dp dat ?n ?off s = Inr (int (unat ?n), s')" "quota w f s'" "more_direct s s' dp"
    by (rule write_total[OF dir_okD(1)[OF ok] need q0 q(2) l, of dat]) blast
  then show ?thesis using d0 that unfolding u by (simp add: more_direct_def)
qed

lemma dirlink_returns:
  assumes ok: "dir_ok s dp" and sz: "unat (di_size (it_inode s dp)) + dirent_size \<le> BSIZE"
    and need: "map_need s dp 0 cw cf" and q: "quota (1 + cw + (4 + w)) (cf + f) s" "1 \<le> f"
  obtains r s' where "dirlink dp nm inum s = Inr (r, s')" "quota w f s'" "direct s' dp 0"
proof -
  have sz': "unat (di_size (it_inode s dp)) \<le> BSIZE" using sz by simp
  obtain p s1 where lk: "dirlookup dp nm s = Inr (p, s1)" "quota (4 + w) f s1" "direct s1 dp 0"
    by (rule dirlookup_total[OF ok sz' need q, of nm])
  note d = dir_okD[OF ok]
  obtain s0 where s0: "file_keep s s0 dp" "fbytes s0 dp = fbytes s dp" "dir_ok s0 dp" "dir_of s0 dp = dir_of s dp" "synced s0 dp"
    and c: "case slot_of (fbytes s dp) (dir_slots s dp) (cname nm) of None \<Rightarrow> p = None \<and> s1 = s0
     | Some k \<Rightarrow> k < dir_slots s dp \<and> (\<exists>ip. p = Some (ip, dirent_size * k) \<and> iget (slot_inum (fbytes s dp) k) s0 = Inr (ip, s1))"
    by (rule dirlookup_steps[OF ok lk(1)])
  show ?thesis
  proof (cases p)
    case (Some x)
    then obtain k ip where ip: "p = Some (ip, dirent_size * k)" "iget (slot_inum (fbytes s dp) k) s0 = Inr (ip, s1)"
      using c by (auto split: option.splits)
    note g = dir_iget[OF s0(3) ip(2)]
    have run: "dirlink dp nm inum s = Inr (-1, upd_inode ip (\<lambda>i. i\<lparr>mi_ref := mi_ref i - 1\<rparr>) s1)"
      by (simp add: dirlink_def lk(1) ip(1) iput_got_returns(1)[OF g(4)])
    have "quota w f s1" by (rule quota_mono[OF lk(2)]) simp_all
    then show ?thesis using lk(3) by (intro that[OF run]) (simp_all add: table_quota table_direct)
  next
    case None
    then have s1: "s1 = s0" using c by (auto split: option.splits)
    have sz0: "di_size (it_inode s0 dp) = di_size (it_inode s dp)" using metaD(1)[OF file_keepD(3)[OF s0(1)]] .
    have n0: "dir_slots s0 dp = dir_slots s dp" by (simp add: dir_slots_def sz0)
    obtain off s2 k where s2: "(if di_size (it_inode s1 dp) \<noteq> 0 then
            chain (read_dir ''dirlink: read failed'' dp s1) (\<lambda>(buf, s).
            chain (de_find (\<lambda>buf off. de_inum buf off = 0) (unat (di_size (it_inode s dp))) buf 0) (\<lambda>off.
            Inr (off, s)))
          else Inr (0, s1)) = Inr (off, s2)" "off = dirent_size * k" "k \<le> dir_slots s2 dp" "dir_ok s2 dp"
          "dir_slots s2 dp = dir_slots s dp" "quota (3 + w) f s2" "direct s2 dp 0"
    proof (cases "di_size (it_inode s1 dp) = 0")
      case True
      have "quota (3 + w) f s1" by (rule quota_mono[OF lk(2)]) simp_all
      then show ?thesis using True s0(3) n0 lk(3) by (intro that[of 0 s1 0]) (simp_all add: s1)
    next
      case False
      have need0: "map_need s0 dp 0 0 0" using lk(3) by (simp add: map_need_def s1)
      have q0: "quota (1 + 0 + (3 + w)) (0 + f) s0" using lk(2) by (simp add: s1)
      have sz0': "unat (di_size (it_inode s0 dp)) \<le> BSIZE" using sz' sz0 by simp
      obtain buf s2 where rd: "read_dir ''dirlink: read failed'' dp s0 = Inr (buf, s2)" "quota (3 + w) f s2" "direct s2 dp 0"
        by (rule read_dir_total[OF s0(3) sz0' need0 q0 q(2)])
      note R = read_dir_ok[OF s0(3) rd(1)]
      note K = dir_keep[OF s0(3) R(1,2)]
      have sz2: "di_size (it_inode s2 dp) = di_size (it_inode s0 dp)" using metaD(1)[OF file_keepD(3)[OF R(1)]] .
      let ?k = "case find_from (\<lambda>k. slot_inum (fbytes s0 dp) k = 0) 0 (dir_slots s0 dp) of Some k \<Rightarrow> k | None \<Rightarrow> dir_slots s0 dp"
      have "?k \<le> dir_slots s0 dp" by (auto dest: find_from_Some split: option.splits)
      then show ?thesis using False rd K n0 dir_scan(2)[OF s0(3) R(3)] sz0 sz2
        by (intro that[of "dirent_size * ?k" s2 ?k]) (simp_all add: s1)
    qed
    have "dirent_size * Suc (dir_slots s dp) \<le> BSIZE" using sz d(7) by simp
    then have kB: "dirent_size * Suc k \<le> BSIZE" using mult_le_mono2[of k "dir_slots s dp" dirent_size] s2(3,5) unfolding mult_Suc_right by linarith
    obtain s3 where w: "inode_write_nbytes_locked dp (dirent_bytes nm inum) (word_of_nat dirent_size) (word_of_nat (dirent_size * k)) s2 = Inr (int dirent_size, s3)"
      "quota w f s3" "direct s3 dp 0"
      by (rule entry_write_total[OF s2(4,3) kB s2(7,6) q(2)])
    have "dirlink dp nm inum s = Inr (0, s3)"
    proof (cases "di_size (it_inode s1 dp) = 0")
      case True
      then show ?thesis using s2(1) w(1)[folded s2(2)] None lk(1) by (simp add: dirlink_def)
    next
      case False
      then obtain buf where b: "read_dir ''dirlink: read failed'' dp s1 = Inr (buf, s2)"
        "de_find (\<lambda>buf off. de_inum buf off = 0) (unat (di_size (it_inode s2 dp))) buf 0 = Inr off"
        using s2(1) by (auto simp: chain_eq_Inr)
      then show ?thesis using False w(1)[folded s2(2)] None lk(1) by (simp add: dirlink_def)
    qed
    then show ?thesis using w(2,3) by (rule that)
  qed
qed


lemma unlink_returns:
  assumes ok: "dir_ok s dp" and sz: "unat (di_size (it_inode s dp)) \<le> BSIZE" and nm: "dir_of s dp (cname nm) \<noteq> None"
    and need: "map_need s dp 0 cw cf" and q: "quota (1 + cw + (3 + w)) (cf + f) s" "1 \<le> f"
  obtains s' where "unlink_name dp nm s = Inr ((), s')" "quota w f s'" "direct s' dp 0"
proof -
  obtain p s1 where lk: "dirlookup dp nm s = Inr (p, s1)" "quota (3 + w) f s1" "direct s1 dp 0"
    by (rule dirlookup_total[OF ok sz need q, of nm])
  note d = dir_okD[OF ok]
  obtain s0 where s0: "file_keep s s0 dp" "fbytes s0 dp = fbytes s dp" "dir_ok s0 dp" "dir_of s0 dp = dir_of s dp" "synced s0 dp"
    and c: "case slot_of (fbytes s dp) (dir_slots s dp) (cname nm) of None \<Rightarrow> p = None \<and> s1 = s0
     | Some k \<Rightarrow> k < dir_slots s dp \<and> (\<exists>ip. p = Some (ip, dirent_size * k) \<and> iget (slot_inum (fbytes s dp) k) s0 = Inr (ip, s1))"
    by (rule dirlookup_steps[OF ok lk(1)])
  obtain k ip where ip: "k < dir_slots s dp" "p = Some (ip, dirent_size * k)" "iget (slot_inum (fbytes s dp) k) s0 = Inr (ip, s1)"
    using c nm by (auto simp: dir_of_def slots_map_def split: option.splits)
  note g = dir_iget[OF s0(3) ip(3)]
  obtain s2 where p: "iput ip s1 = Inr ((), s2)" "s2 = upd_inode ip (\<lambda>i. i\<lparr>mi_ref := mi_ref i - 1\<rparr>) s1"
    using iput_got_returns(1)[OF g(4)] by blast
  note i = dir_iput[OF g(1,4) dir_okD(2)[OF s0(3)] p(1)]
  have q2: "quota (3 + w) f s2" "direct s2 dp 0" using lk(2,3) by (simp_all add: p(2) table_quota table_direct)
  have n: "dir_slots s2 dp = dir_slots s dp"
    using g(3) metaD(1)[OF file_keepD(3)[OF s0(1)]] i(4) by (simp add: dir_slots_def)
  have k2: "k \<le> dir_slots s2 dp" using ip(1) n by simp
  have kB: "dirent_size * Suc k \<le> BSIZE"
    using sz mult_le_mono2[of "Suc k" "dir_slots s dp" dirent_size] ip(1) unfolding d(7) by linarith
  obtain s3 where w: "inode_write_nbytes_locked dp (\<lambda>_. 0) (word_of_nat dirent_size) (word_of_nat (dirent_size * k)) s2 = Inr (int dirent_size, s3)"
    "quota w f s3" "direct s3 dp 0"
    by (rule entry_write_total[OF i(1) k2 kB q2(2,1) q(2)])
  have "unlink_name dp nm s = Inr ((), s3)" using w(1) by (simp add: unlink_name_def lk(1) ip(2) p(1) clear_dirent_def)
  then show ?thesis using w(2,3) by (rule that)
qed

theorem dirlink_total:
  assumes "dir_ok s dp" "inum \<noteq> 0" "unat (di_size (it_inode s dp)) + dirent_size \<le> BSIZE" "quota 16 5 s"
  shows "returns (dirlink dp nm inum s) (\<lambda>(r, s'). dir_ok s' dp \<and> r = (if dir_of s dp (cname nm) = None then 0 else -1) \<and>
    dir_of s' dp (cname nm) = (if dir_of s dp (cname nm) = None then Some inum else dir_of s dp (cname nm)))"
proof -
  have need: "map_need s dp 0 11 4" by (simp add: map_need_def)
  have q: "quota (1 + 11 + (4 + 0)) (4 + 1) s" using assms(4) by simp
  obtain r s' where run: "dirlink dp nm inum s = Inr (r, s')" by (rule dirlink_returns[OF assms(1,3) need q]) auto
  have "unat (di_size (it_inode s dp)) + dirent_size < 2 ^ 31" using assms(3) by (simp add: BSIZE_def)
  then show ?thesis using dirlink_result[OF assms(1,2) _ run] by (auto simp: run split: option.splits)
qed

section \<open>On the small file system\<close>

text \<open>Entry 1 of the table as a directory without entries.\<close>

definition mini_dir :: "nat \<Rightarrow> minode" where
  "mini_dir i = (if i = 1 then mini_file\<lparr>mi_valid := True, mi_locked := True, di_type := T_DIR, di_size := 0\<rparr> else mini_tab i)"

abbreviation mini_ds :: itable where "mini_ds \<equiv> mini_it mini_dir (\<lambda>_. zero_block)"

definition nm_a :: name where "nm_a = (\<lambda>_. 0)(0 := 97)"
definition nm_b :: name where "nm_b = (\<lambda>_. 0)(0 := 98)"

lemma mini_dir_ok: "dir_ok mini_ds 1"
proof -
  have l: "i < 2 \<longleftrightarrow> i = 0 \<or> i = 1" for i :: nat by arith
  have "table_wf mini_ds"
    by (rule table_wfI) (auto simp: mini_it_fields mini_dir_def mini_tab_def mini_root_def mini_file_def static_inode_def l)
  moreover have "file_ok mini_ds 1" by (rule mini_entry_ok[of _ 0 T_DIR]) (simp add: mini_dir_def)
  moreover have "di_size (it_inode mini_ds 1) = 0" by (simp add: mini_it_fields mini_dir_def)
  ultimately show ?thesis by (simp add: dir_ok_def dir_slots_def slots_distinct_def mini_it_fields del: One_nat_def)
qed

lemma mini_dir_empty: "dir_of mini_ds 1 = Map.empty"
  by (simp add: dir_of_def dir_slots_def mini_it_fields mini_dir_def slots_map_def slot_of_def find_from.simps fun_eq_iff)

lemma names_ab: "cname nm_a = [97]" "cname nm_b = [98]"
  by (simp_all add: cname_def nm_a_def nm_b_def DIRSIZE_def upt_conv_Cons)

lemma mini_link_a:
  obtains s1 where "dirlink 1 nm_a 2 mini_ds = Inr (0, s1)" "dir_ok s1 1" "dir_of s1 1 = [[97] \<mapsto> 2]" "quota 30 10 s1" "direct s1 1 0"
    "unat (di_size (it_inode s1 1)) \<le> 64"
proof -
  have d: "direct mini_ds 1 0" by (simp add: direct_def mini_it_fields mini_dir_def mini_file_def NDIRECT_def)
  have n: "map_need mini_ds 1 0 0 0" using d by (simp add: map_need_def)
  have q: "quota (1 + 0 + (4 + 30)) (0 + 10) mini_ds" "1 \<le> (10 :: nat)" by (simp_all add: mini_quota)
  have z: "di_size (it_inode mini_ds 1) = 0" by (simp add: mini_it_fields mini_dir_def)
  then have sz: "unat (di_size (it_inode mini_ds 1)) + dirent_size \<le> BSIZE" "unat (di_size (it_inode mini_ds 1)) + dirent_size < 2 ^ 31"
    by (simp_all add: dirent_size_def BSIZE_def del: One_nat_def)
  obtain r s1 where run: "dirlink 1 nm_a 2 mini_ds = Inr (r, s1)" "quota 30 10 s1" "direct s1 1 0"
    by (rule dirlink_returns[OF mini_dir_ok sz(1) n q])
  note R = dirlink_result[OF mini_dir_ok _ sz(2) run(1)]
  have "r = 0 \<and> dir_ok s1 1 \<and> dir_of s1 1 = [[97] \<mapsto> 2]" using R by (simp add: mini_dir_empty names_ab del: One_nat_def)
  moreover have "unat (di_size (it_inode s1 1)) \<le> 64" using R z by (simp add: dirent_size_def del: One_nat_def)
  ultimately show ?thesis using run that by blast
qed


theorem dirlookup_after_dirlink:
  assumes "dir_ok s dp" "dir_room dp s" "inum \<noteq> 0" "dirlink dp nm inum s = Inr (0, s1)" "dirlookup dp nm' s1 = Inr (r, s2)"
  shows "dir_ok s2 dp \<and> map_option (\<lambda>(ip, off). mi_inum (it_inode s2 ip)) r =
    (if cname nm' = cname nm then Some inum else dir_of s dp (cname nm'))"
  by (rule nt.find_added[OF assms])

theorem unlink_after_dirlink:
  assumes "dir_ok s dp" "dir_room dp s" "inum \<noteq> 0" "dirlink dp nm inum s = Inr (0, s1)" "unlink_name dp nm s1 = Inr ((), s2)"
  shows "dir_ok s2 dp \<and> dir_of s2 dp = dir_of s dp"
  by (rule nt.remove_added[OF assms])

lemma mini_lookup_a:
  assumes s1: "dir_ok s1 1" "dir_of s1 1 = [[97] \<mapsto> 2]" "quota 30 10 s1" "direct s1 1 0" "unat (di_size (it_inode s1 1)) \<le> 64"
  obtains r s2 where "dirlookup 1 nm s1 = Inr (r, s2)"
proof -
  have n: "map_need s1 1 0 0 0" using s1(4) by (simp add: map_need_def)
  have q: "quota (1 + 0 + 29) (0 + 10) s1" using s1(3) by simp
  have z: "unat (di_size (it_inode s1 1)) \<le> BSIZE" using s1(5) by (simp add: BSIZE_def)
  show ?thesis by (rule dirlookup_total[OF s1(1) z n q _ that]) simp_all
qed

lemma mini_unlink_a:
  assumes s1: "dir_ok s1 1" "dir_of s1 1 = [[97] \<mapsto> 2]" "quota 30 10 s1" "direct s1 1 0" "unat (di_size (it_inode s1 1)) \<le> 64"
  obtains s2 where "unlink_name 1 nm_a s1 = Inr ((), s2)"
proof -
  have n: "map_need s1 1 0 0 0" using s1(4) by (simp add: map_need_def)
  have q: "quota (1 + 0 + (3 + 26)) (0 + 10) s1" using s1(3) by simp
  have z: "unat (di_size (it_inode s1 1)) \<le> BSIZE" using s1(5) by (simp add: BSIZE_def)
  have f: "dir_of s1 1 (cname nm_a) \<noteq> None" unfolding s1(2) by (simp add: names_ab)
  show ?thesis by (rule unlink_returns[OF s1(1) z f n q _ that]) simp_all
qed

lemma mini_dir_room: "dir_room 1 mini_ds"
  by (simp add: dir_room_def mini_it_fields mini_dir_def dirent_size_def)

theorem dirlink_refines_witness:
  "\<exists>s1. dirlink 1 nm_a 2 mini_ds = Inr (0, s1) \<and> dir_of s1 1 = [[97] \<mapsto> 2]"
proof -
  obtain s1 where s1: "dirlink 1 nm_a 2 mini_ds = Inr (0, s1)" by (rule mini_link_a)
  have "dir_of s1 1 = [[97] \<mapsto> 2]"
    using dirlink_refines[OF mini_dir_ok _ mini_dir_room[unfolded dir_room_def] s1] by (simp add: mini_dir_empty names_ab del: One_nat_def)
  then show ?thesis using s1 by blast
qed

theorem dirlookup_refines_witness:
  "\<exists>s1 r s2. dirlink 1 nm_a 2 mini_ds = Inr (0, s1) \<and> dirlookup 1 nm_a s1 = Inr (r, s2) \<and> r \<noteq> None \<and> dir_of s2 1 = [[97] \<mapsto> 2]"
proof -
  obtain s1 where s1: "dirlink 1 nm_a 2 mini_ds = Inr (0, s1)" "dir_ok s1 1" "dir_of s1 1 = [[97] \<mapsto> 2]" "quota 30 10 s1" "direct s1 1 0"
    "unat (di_size (it_inode s1 1)) \<le> 64" by (rule mini_link_a)
  obtain r s2 where s2: "dirlookup 1 nm_a s1 = Inr (r, s2)" by (rule mini_lookup_a[OF s1(2-6)])
  have "r \<noteq> None \<and> dir_of s2 1 = [[97] \<mapsto> 2]" using dirlookup_refines[OF s1(2) s2] by (auto simp: s1(3) names_ab simp del: One_nat_def)
  then show ?thesis using s1(1) s2 by blast
qed

theorem unlink_name_refines_witness:
  "\<exists>s1 s2. dirlink 1 nm_a 2 mini_ds = Inr (0, s1) \<and> unlink_name 1 nm_a s1 = Inr ((), s2) \<and> dir_of s2 1 [97] = None"
proof -
  obtain s1 where s1: "dirlink 1 nm_a 2 mini_ds = Inr (0, s1)" "dir_ok s1 1" "dir_of s1 1 = [[97] \<mapsto> 2]" "quota 30 10 s1" "direct s1 1 0"
    "unat (di_size (it_inode s1 1)) \<le> 64" by (rule mini_link_a)
  obtain s2 where s2: "unlink_name 1 nm_a s1 = Inr ((), s2)" by (rule mini_unlink_a[OF s1(2-6)])
  have "dir_of s2 1 [97] = None" using unlink_name_refines[OF s1(2) s2] by (simp add: names_ab del: One_nat_def)
  then show ?thesis using s1(1) s2 by blast
qed

theorem dirlookup_after_dirlink_witness:
  "\<exists>s1 r s2. dirlink 1 nm_a 2 mini_ds = Inr (0, s1) \<and> dirlookup 1 nm_a s1 = Inr (r, s2) \<and>
    map_option (\<lambda>(ip, off). mi_inum (it_inode s2 ip)) r = Some 2"
proof -
  obtain s1 where s1: "dirlink 1 nm_a 2 mini_ds = Inr (0, s1)" "dir_ok s1 1" "dir_of s1 1 = [[97] \<mapsto> 2]" "quota 30 10 s1" "direct s1 1 0"
    "unat (di_size (it_inode s1 1)) \<le> 64" by (rule mini_link_a)
  obtain r s2 where s2: "dirlookup 1 nm_a s1 = Inr (r, s2)" by (rule mini_lookup_a[OF s1(2-6)])
  have "map_option (\<lambda>(ip, off). mi_inum (it_inode s2 ip)) r = Some 2"
    using dirlookup_after_dirlink[OF mini_dir_ok mini_dir_room _ s1(1) s2] by simp
  then show ?thesis using s1(1) s2 by blast
qed

theorem unlink_after_dirlink_witness:
  "\<exists>s1 s2. dirlink 1 nm_a 2 mini_ds = Inr (0, s1) \<and> unlink_name 1 nm_a s1 = Inr ((), s2) \<and> dir_of s2 1 = Map.empty"
proof -
  obtain s1 where s1: "dirlink 1 nm_a 2 mini_ds = Inr (0, s1)" "dir_ok s1 1" "dir_of s1 1 = [[97] \<mapsto> 2]" "quota 30 10 s1" "direct s1 1 0"
    "unat (di_size (it_inode s1 1)) \<le> 64" by (rule mini_link_a)
  obtain s2 where s2: "unlink_name 1 nm_a s1 = Inr ((), s2)" by (rule mini_unlink_a[OF s1(2-6)])
  have "dir_of s2 1 = Map.empty"
    using unlink_after_dirlink[OF mini_dir_ok mini_dir_room _ s1(1) s2] by (simp add: mini_dir_empty del: One_nat_def)
  then show ?thesis using s1(1) s2 by blast
qed

theorem dirlink_total_witness:
  "\<exists>s1. dirlink 1 nm_b 7 mini_ds = Inr (0, s1) \<and> dir_of s1 1 [98] = Some 7"
proof -
  have "quota 16 5 mini_ds" by (simp add: mini_quota)
  moreover have "unat (di_size (it_inode mini_ds 1)) + dirent_size \<le> BSIZE"
    by (simp add: mini_it_fields mini_dir_def dirent_size_def BSIZE_def)
  ultimately show ?thesis using dirlink_total[OF mini_dir_ok, of 7 nm_b]
    by (auto simp: mini_dir_empty names_ab simp del: One_nat_def elim!: returnsE)
qed

end
