(* ===== verification/Mount.thy ===== *)
theory Mount
  imports File_Ops
begin

text \<open>
  Starting the file system, \<open>myfuse_init\<close> of \<^verbatim>\<open>src/main.c\<close>, and formatting a device,
  \<^verbatim>\<open>mkfs/mkfs.myfuse.cc\<close> and \<^verbatim>\<open>mkfs/mkfs.myfuse-util.cc\<close>. The number of sectors and the result of opening
  the device are arguments; \<^verbatim>\<open>Programs\<close> has the \<open>main\<close> functions around them.
\<close>

section \<open>The super block on the device\<close>

definition SUPERBLOCK_ID :: uint where "SUPERBLOCK_ID = 1"
definition superblock_bytes :: nat where "superblock_bytes = 32"

definition get_superblock :: "block \<Rightarrow> superblock" where
  "get_superblock d = \<lparr>sb_magic = get32 d 0, sb_size = get32 d 4, sb_nblocks = get32 d 8, sb_ninodes = get32 d 12,
    sb_nlog = get32 d 16, sb_logstart = get32 d 20, sb_inodestart = get32 d 24, sb_bmapstart = get32 d 28\<rparr>"

definition put_superblock :: "block \<Rightarrow> superblock \<Rightarrow> block" where
  "put_superblock d sb =
    put32 (put32 (put32 (put32 (put32 (put32 (put32 (put32 d 0 (sb_magic sb)) 4 (sb_size sb)) 8 (sb_nblocks sb))
      12 (sb_ninodes sb)) 16 (sb_nlog sb)) 20 (sb_logstart sb)) 24 (sb_inodestart sb)) 28 (sb_bmapstart sb)"

section \<open>Mounting\<close>

text \<open>FUSE keeps the result of \<open>myfuse_init\<close> for the handlers; here it becomes \<open>fs_sb\<close>.\<close>

definition myfuse_init :: "int \<Rightarrow> 'a ftab_scheme \<Rightarrow> (unit \<times> 'a ftab_scheme) res" where
  "myfuse_init fd s =
    chain (block_device_init fd s) (\<lambda>(_, s).
    chain (read_block_raw_nbytes SUPERBLOCK_ID zero_block (word_of_nat superblock_bytes) s) (\<lambda>((n, d), s).
    if n \<noteq> int superblock_bytes then Inl (Err_exit ''failed to read super block'')
    else
      let sb = get_superblock d in
      if sb_magic sb \<noteq> FSMAGIC then Inl (Err_exit ''disk magic not match! read %x'')
      else
        chain (log_init sb (bcache_init s)) (\<lambda>(_, s).
        chain (inode_init sb s) (\<lambda>(_, s).
        Inr ((), (file_init s)\<lparr>fs_sb := sb\<rparr>)))))"

section \<open>Requests\<close>

text \<open>
  The table \<open>myfuse_oper\<close> of \<^verbatim>\<open>src/main.c\<close> says which handler serves which request of FUSE. A request
  carries the arguments its handler uses, a reply the result and what the handler leaves in the
  memory the request points to.
\<close>

datatype 'b request =
    Getattr cpath stat
  | Access cpath
  | Create cpath uint fuse_info
  | Opendir cpath fuse_info
  | Readdir 'b stat "fuse_info option"
  | Mkdir cpath uint
  | Unlink cpath
  | Rmdir cpath
  | Truncate cpath size_t
  | Open cpath fuse_info
  | Read "nat \<Rightarrow> byte" size_t size_t fuse_info
  | Write "nat \<Rightarrow> byte" size_t size_t fuse_info
  | Release "fuse_info option"
  | Releasedir "fuse_info option"
  | Chmod cpath uint
  | Lseek size_t whence fuse_info
  | Rename cpath cpath uint
  | Statfs statvfs

datatype 'b reply =
    Plain (code: int)
  | With_stat (code: int) stat
  | With_info (code: int) "fuse_info option"
  | With_entries (code: int) 'b
  | With_bytes (code: int) "nat \<Rightarrow> byte"
  | With_statvfs (code: int) statvfs

definition reply_as :: "('c \<Rightarrow> 'b reply) \<Rightarrow> ('c \<times> 's) res \<Rightarrow> ('b reply \<times> 's) res" where
  "reply_as f m = chain m (\<lambda>(r, s). Inr (f r, s))"

primrec serve ::
  "('b \<Rightarrow> name \<Rightarrow> stat \<Rightarrow> 'b \<times> int) \<Rightarrow> 'b request \<Rightarrow> 'a ftab_scheme \<Rightarrow> ('b reply \<times> 'a ftab_scheme) res" where
  "serve filler (Getattr path st) s = reply_as (\<lambda>(r, st). With_stat r st) (myfuse_getattr path st s)"
| "serve filler (Access path) s = reply_as Plain (myfuse_access path s)"
| "serve filler (Create path mode fi) s = reply_as (\<lambda>(r, fi). With_info r (Some fi)) (myfuse_create path mode fi s)"
| "serve filler (Opendir path fi) s = reply_as (\<lambda>(r, fi). With_info r (Some fi)) (myfuse_opendir path fi s)"
| "serve filler (Readdir buf st fi) s = reply_as (\<lambda>(r, buf). With_entries r buf) (myfuse_readdir filler buf st fi s)"
| "serve filler (Mkdir path mode) s = reply_as Plain (myfuse_mkdir path mode s)"
| "serve filler (Unlink path) s = reply_as Plain (myfuse_unlink path s)"
| "serve filler (Rmdir path) s = reply_as Plain (myfuse_rmdir path s)"
| "serve filler (Truncate path sz) s = reply_as Plain (myfuse_truncate path sz s)"
| "serve filler (Open path fi) s = reply_as (\<lambda>(r, fi). With_info r (Some fi)) (myfuse_open path fi s)"
| "serve filler (Read buf sz off fi) s = reply_as (\<lambda>(r, buf). With_bytes r buf) (myfuse_read buf sz off fi s)"
| "serve filler (Write buf sz off fi) s = reply_as Plain (myfuse_write buf sz off fi s)"
| "serve filler (Release fi) s = reply_as (\<lambda>(r, fi). With_info r fi) (myfuse_release fi s)"
| "serve filler (Releasedir fi) s = reply_as (\<lambda>(r, fi). With_info r fi) (myfuse_releasedir fi s)"
| "serve filler (Chmod path mode) s = reply_as Plain (myfuse_chmod path mode s)"
| "serve filler (Lseek off wh fi) s = reply_as Plain (myfuse_lseek off wh fi s)"
| "serve filler (Rename from_path target flags) s = reply_as Plain (myfuse_rename from_path target flags s)"
| "serve filler (Statfs buf) s = chain (myfuse_statfs buf s) (\<lambda>(r, buf). Inr (With_statvfs r buf, s))"

section \<open>Formatting\<close>

definition sector_per_block :: uint where "sector_per_block = 8"

text \<open>The arithmetic is that of unsigned 32-bit numbers and wraps around.\<close>

definition init_super_block :: "uint \<Rightarrow> superblock" where
  "init_super_block disk_size =
    (let nlog = word_of_nat NLOG;
         nbitmap = ucast (roundup (ucast disk_size) (word_of_nat BPB) div word_of_nat BPB);
         ninode_blocks = disk_size div 50 + 1;
         ninodes = ninode_blocks * word_of_nat IPB;
         nmeta_blocks = 2 + nlog + ninode_blocks + nbitmap;
         nblocks = disk_size - nmeta_blocks
     in \<lparr>sb_magic = FSMAGIC, sb_size = disk_size, sb_nblocks = nblocks, sb_ninodes = ninodes, sb_nlog = nlog,
       sb_logstart = 2, sb_inodestart = 2 + nlog, sb_bmapstart = 2 + nlog + ninode_blocks\<rparr>)"

definition add_rootinode :: "'a itable_scheme \<Rightarrow> (unit \<times> 'a itable_scheme) res" where
  "add_rootinode s =
    chain (begin_op s) (\<lambda>(_, s).
    chain (ialloc T_DIR s) (\<lambda>(ip, s).
    if mi_inum (it_inode s ip) \<noteq> ROOTINO then Inl Assert_failed
    else
      chain (ilock ip s) (\<lambda>(_, s).
      let s = stamp_inode ip (upd_inode ip (\<lambda>i. i\<lparr>di_nlink := 1, di_type := T_DIR\<rparr>) s) in
      chain (iupdate ip s) (\<lambda>(_, s).
      chain (iunlockput ip s) (\<lambda>(_, s).
      end_op s)))))"

text \<open>Zeros in all blocks before the data blocks, then the super block; the results are ignored.\<close>

definition write_meta :: "superblock \<Rightarrow> 'a device_scheme \<Rightarrow> (unit \<times> 'a device_scheme) res" where
  "write_meta sb s =
    chain (foreach [0..<unat (sb_size sb - sb_nblocks sb)] (\<lambda>i s.
      chain (write_block_raw (word_of_nat i) zero_block s) (\<lambda>(_, s). Inr ((), s))) s) (\<lambda>(_, s).
    chain (write_block_raw 1 (put_superblock zero_block sb) s) (\<lambda>(_, s).
    Inr ((), s)))"

definition zero_bitmap :: "superblock \<Rightarrow> 'a bmap_scheme \<Rightarrow> (unit \<times> 'a bmap_scheme) res" where
  "zero_bitmap sb s =
    foreach [0..<unat (roundup (ucast (sb_size sb)) (word_of_nat BPB) div word_of_nat BPB)] (\<lambda>i s.
      chain (begin_op s) (\<lambda>(_, s).
      chain (logged_zero_a_block (sb_bmapstart sb + word_of_nat i) s) (\<lambda>(_, s).
      end_op s))) s"

definition mkfs :: "uint \<Rightarrow> int \<Rightarrow> 'a itable_scheme \<Rightarrow> (int \<times> 'a itable_scheme) res" where
  "mkfs sector_size fd s =
    (let block_size = sector_size div sector_per_block in
     if block_size \<le> 100 then Inl (Err_exit ''block size too small'')
     else
       chain (block_device_init fd s) (\<lambda>(_, s).
       let sb = init_super_block block_size;
           s = s\<lparr>fs_sb := sb\<rparr>
       in chain (write_meta sb s) (\<lambda>(_, s).
       chain (log_init sb (bcache_init s)) (\<lambda>(_, s).
       chain (inode_init sb s) (\<lambda>(_, s).
       chain (zero_bitmap sb s) (\<lambda>(_, s).
       chain (block_allocator_refresh sb s) (\<lambda>(_, s).
       chain (init_meta_blocks_bmap s) (\<lambda>(_, s).
       chain (block_allocator_refresh sb s) (\<lambda>(_, s).
       chain (begin_op s) (\<lambda>(_, s).
       chain (logged_read 1 s) (\<lambda>(sbi, s).
       chain (logged_write sbi (set_data sbi (put_superblock (buf_data s sbi) sb) s)) (\<lambda>(_, s).
       chain (end_op (logged_relse sbi s)) (\<lambda>(_, s).
       chain (add_rootinode s) (\<lambda>(_, s).
       Inr (0, s)))))))))))))))"

end
