(* ===== verification/File_System.thy ===== *)
theory File_System
  imports Dir_Map Mount
begin

text \<open>
  The whole file system on the device as a map from inode numbers to files, \<open>abs_fs\<close>, and the invariant
  \<open>fs_phys\<close> between the operations on inodes: what the table holds agrees with the device, and the trees
  of all files are in order and apart. Each operation on one inode is shown to keep the invariant and
  to change the map at this inode at most.
\<close>

section \<open>Inodes on the device\<close>

text \<open>The content of an inode on the device: the blocks of its tree and its bytes.\<close>

definition node_at :: "'a itable_scheme \<Rightarrow> uint \<Rightarrow> path \<Rightarrow> uint" where
  "node_at s k = node (view s) (di_addrs (disk_inode s k))"

definition bytes_at :: "'a itable_scheme \<Rightarrow> uint \<Rightarrow> nat \<Rightarrow> byte" where
  "bytes_at s k pos =
    (let b = node_at s k (block_path (pos div BSIZE)) in
     if pos div BSIZE < MAXFILE_BLOCKS \<and> b \<noteq> 0 then view s b (pos mod BSIZE) else 0)"

definition blocks_at :: "'a itable_scheme \<Rightarrow> uint \<Rightarrow> uint set" where
  "blocks_at s k = {b. b \<noteq> 0 \<and> (\<exists>p. tree_path p \<and> node_at s k p = b)}"

definition tree_at :: "'a itable_scheme \<Rightarrow> uint \<Rightarrow> bool" where
  "tree_at s k \<longleftrightarrow>
    (\<forall>p. tree_path p \<and> node_at s k p \<noteq> 0 \<longrightarrow> usable s (node_at s k p) \<and> bm_bit s (unat (node_at s k p))) \<and>
    (\<forall>p q. tree_path p \<and> tree_path q \<and> node_at s k p \<noteq> 0 \<and> node_at s k p = node_at s k q \<longrightarrow> p = q)"

text \<open>The inode numbers of the device, and the file system as a map from them to files.\<close>

definition inum_ok :: "'a itable_scheme \<Rightarrow> uint \<Rightarrow> bool" where
  "inum_ok s k \<longleftrightarrow> 0 < unat k \<and> unat k < unat (sb_ninodes (fs_sb s))"

record afile =
  af_type :: short
  af_nlink :: short
  af_size :: size_t
  af_perm :: uint
  af_bytes :: "nat \<Rightarrow> byte"

definition abs_fs :: "'a itable_scheme \<Rightarrow> uint \<Rightarrow> afile option" where
  "abs_fs s k =
    (let d = disk_inode s k in
     if inum_ok s k \<and> di_type d \<noteq> T_UNUSE
     then Some \<lparr>af_type = di_type d, af_nlink = di_nlink d, af_size = di_size d, af_perm = di_perm d, af_bytes = bytes_at s k\<rparr>
     else None)"

definition entry_file :: "'a itable_scheme \<Rightarrow> nat \<Rightarrow> afile" where
  "entry_file s ip =
    (let i = it_inode s ip in
     \<lparr>af_type = di_type i, af_nlink = di_nlink i, af_size = di_size i, af_perm = di_perm i, af_bytes = fbytes s ip\<rparr>)"

text \<open>What no operation changes: the super block, in memory and on its block, the size of the device, the place of the log, the number
  of bitmap blocks, and the layers above.\<close>

definition geo :: "'a itable_scheme \<Rightarrow> superblock \<times> block \<times> nat \<times> uint \<times> int \<times> uint \<times> 'a" where
  "geo s = (fs_sb s, view s SUPERBLOCK_ID, dev_nblk s, lg_start s, lg_size s, bm_n s, itable.more s)"

lemma geo_frame: "it_frame s' = it_frame s \<Longrightarrow> view s' SUPERBLOCK_ID = view s SUPERBLOCK_ID \<Longrightarrow> geo s' = geo s"
  by (simp add: geo_def it_frame_def)

lemma geo_table [simp]: "geo (upd_inode ip f s) = geo s" "geo (itable_grow s) = geo s" "geo (iunlock ip s) = geo s"
  by (simp_all add: geo_def iunlock_def) (simp_all add: itable_grow_def upd_inode_def)

lemma geo_sb: "geo s' = geo s \<Longrightarrow> fs_sb s' = fs_sb s" "geo s' = geo s \<Longrightarrow> lg_size s' = lg_size s"
  "geo s' = geo s \<Longrightarrow> data_block s' = data_block s"
  by (simp_all add: geo_def data_block_def fun_eq_iff)

section \<open>A file system in order\<close>

text \<open>
  Between two operations of this layer: no block is locked, the entries of the table that hold an
  inode agree with the device, every inode block is in use, and the trees of the files are in order
  and share no block with each other and with the inodes.
\<close>

definition fs_base :: "'a itable_scheme \<Rightarrow> bool" where
  "fs_base s \<longleftrightarrow> log_ready {} s \<and> held s = Map.empty \<and> bm_inv s \<and> bm_ready s \<and> \<not> lg_committing s"

definition fs_table :: "'a itable_scheme \<Rightarrow> bool" where
  "fs_table s \<longleftrightarrow> table_wf s \<and> 0 < it_n s \<and>
    (\<forall>i<it_n s. mi_ref (it_inode s i) > 0 \<and> mi_valid (it_inode s i) \<longrightarrow> synced s i \<and> abs_fs s (mi_inum (it_inode s i)) \<noteq> None)"

text \<open>The block of the super block belongs to no file.\<close>

definition super_ok :: "'a itable_scheme \<Rightarrow> bool" where
  "super_ok s \<longleftrightarrow> usable s SUPERBLOCK_ID \<and> bm_bit s (unat SUPERBLOCK_ID) \<and> (\<forall>k. inum_ok s k \<longrightarrow> IBLOCK k s \<noteq> SUPERBLOCK_ID) \<and>
    (\<forall>k\<in>dom (abs_fs s). SUPERBLOCK_ID \<notin> blocks_at s k)"

lemma super_okI:
  assumes "usable s SUPERBLOCK_ID" "bm_bit s (unat SUPERBLOCK_ID)" "\<And>k. inum_ok s k \<Longrightarrow> IBLOCK k s \<noteq> SUPERBLOCK_ID"
    "\<And>k a. abs_fs s k = Some a \<Longrightarrow> SUPERBLOCK_ID \<notin> blocks_at s k"
  shows "super_ok s"
  using assms by (auto simp: super_ok_def)

definition fs_disk :: "'a itable_scheme \<Rightarrow> bool" where
  "fs_disk s \<longleftrightarrow> super_ok s \<and>
    (\<forall>k. inum_ok s k \<longrightarrow> usable s (IBLOCK k s) \<and> bm_bit s (unat (IBLOCK k s))) \<and>
    (\<forall>k\<in>dom (abs_fs s). di_type (disk_inode s k) \<in> {T_DIR, T_FILE, T_DEVICE} \<and> tree_at s k \<and>
      (\<forall>j. inum_ok s j \<longrightarrow> IBLOCK j s \<notin> blocks_at s k) \<and>
      (\<forall>j\<in>dom (abs_fs s). j \<noteq> k \<longrightarrow> blocks_at s k \<inter> blocks_at s j = {}))"

definition fs_phys :: "'a itable_scheme \<Rightarrow> bool" where
  "fs_phys s \<longleftrightarrow> fs_base s \<and> fs_table s \<and> fs_disk s"

lemma fs_physD:
  assumes "fs_phys s"
  shows "log_ready {} s" "held s = Map.empty" "bm_inv s" "bm_ready s" "\<not> lg_committing s"
    "table_wf s" "0 < it_n s"
    "i < it_n s \<Longrightarrow> mi_ref (it_inode s i) > 0 \<Longrightarrow> mi_valid (it_inode s i) \<Longrightarrow> synced s i"
    "i < it_n s \<Longrightarrow> mi_ref (it_inode s i) > 0 \<Longrightarrow> mi_valid (it_inode s i) \<Longrightarrow> abs_fs s (mi_inum (it_inode s i)) \<noteq> None"
    "inum_ok s k \<Longrightarrow> usable s (IBLOCK k s)" "inum_ok s k \<Longrightarrow> bm_bit s (unat (IBLOCK k s))"
    "abs_fs s k = Some a \<Longrightarrow> di_type (disk_inode s k) \<in> {T_DIR, T_FILE, T_DEVICE}"
    "abs_fs s k = Some a \<Longrightarrow> tree_at s k"
    "abs_fs s k = Some a \<Longrightarrow> inum_ok s j \<Longrightarrow> IBLOCK j s \<notin> blocks_at s k"
    "abs_fs s k = Some a \<Longrightarrow> abs_fs s j = Some a' \<Longrightarrow> j \<noteq> k \<Longrightarrow> blocks_at s k \<inter> blocks_at s j = {}"
    "usable s SUPERBLOCK_ID" "bm_bit s (unat SUPERBLOCK_ID)" "inum_ok s k \<Longrightarrow> IBLOCK k s \<noteq> SUPERBLOCK_ID"
    "abs_fs s k = Some a \<Longrightarrow> SUPERBLOCK_ID \<notin> blocks_at s k"
  using assms unfolding fs_phys_def fs_base_def fs_table_def fs_disk_def super_ok_def by blast+

lemma fs_diskI:
  assumes "\<And>k. inum_ok s k \<Longrightarrow> usable s (IBLOCK k s)" "\<And>k. inum_ok s k \<Longrightarrow> bm_bit s (unat (IBLOCK k s))"
    "\<And>k a. abs_fs s k = Some a \<Longrightarrow> di_type (disk_inode s k) \<in> {T_DIR, T_FILE, T_DEVICE}"
    "\<And>k a. abs_fs s k = Some a \<Longrightarrow> tree_at s k"
    "\<And>k a j. abs_fs s k = Some a \<Longrightarrow> inum_ok s j \<Longrightarrow> IBLOCK j s \<notin> blocks_at s k"
    "\<And>k a j a'. abs_fs s k = Some a \<Longrightarrow> abs_fs s j = Some a' \<Longrightarrow> j \<noteq> k \<Longrightarrow> blocks_at s k \<inter> blocks_at s j = {}"
    "super_ok s"
  shows "fs_disk s"
  using assms unfolding fs_disk_def dom_def by blast

lemma blocks_at_iff: "b \<in> blocks_at s k \<longleftrightarrow> b \<noteq> 0 \<and> (\<exists>p. tree_path p \<and> node_at s k p = b)"
  by (simp add: blocks_at_def)

lemma node_in_blocks: "tree_path p \<Longrightarrow> node_at s k p \<noteq> 0 \<Longrightarrow> node_at s k p \<in> blocks_at s k"
  unfolding blocks_at_def by blast

lemma tree_atD:
  assumes "tree_at s k" "tree_path p" "node_at s k p \<noteq> 0"
  shows "usable s (node_at s k p)" "bm_bit s (unat (node_at s k p))"
    "tree_path q \<Longrightarrow> node_at s k p = node_at s k q \<Longrightarrow> p = q"
  using assms unfolding tree_at_def by blast+

lemma tree_at_blocks:
  assumes "tree_at s k" "b \<in> blocks_at s k"
  shows "usable s b" "bm_bit s (unat b)"
  using assms tree_atD(1,2)[OF assms(1)] by (auto simp: blocks_at_def simp del: split_paired_Ex)

lemma abs_fs_Some:
  "abs_fs s k = Some a \<longleftrightarrow> inum_ok s k \<and> di_type (disk_inode s k) \<noteq> T_UNUSE \<and>
    a = \<lparr>af_type = di_type (disk_inode s k), af_nlink = di_nlink (disk_inode s k), af_size = di_size (disk_inode s k),
      af_perm = di_perm (disk_inode s k), af_bytes = bytes_at s k\<rparr>"
  by (auto simp: abs_fs_def Let_def)

text \<open>An entry that agrees with the device has the content of the inode.\<close>

lemma entry_disk:
  assumes sy: "synced s ip" and k: "mi_inum (it_inode s ip) = k"
  shows "inode_node s ip = node_at s k" "tree_ok s ip = tree_at s k" "fbytes s ip = bytes_at s k"
    "inum_ok s k \<Longrightarrow> abs_fs s k = (if di_type (it_inode s ip) \<noteq> T_UNUSE then Some (entry_file s ip) else None)"
proof -
  have c: "di_addrs (it_inode s ip) = di_addrs (disk_inode s k)" "di_type (it_inode s ip) = di_type (disk_inode s k)"
    "di_nlink (it_inode s ip) = di_nlink (disk_inode s k)" "di_size (it_inode s ip) = di_size (disk_inode s k)"
    "di_perm (it_inode s ip) = di_perm (disk_inode s k)"
    using sy k by (simp_all add: synced_def core_eq)
  show n: "inode_node s ip = node_at s k" by (simp add: node_at_def c)
  show "tree_ok s ip = tree_at s k" by (simp add: tree_ok_def tree_at_def n)
  show b: "fbytes s ip = bytes_at s k"
    by (simp add: fun_eq_iff fbytes_def bytes_at_def fdata_def fblock_def n Let_def zero_block_def)
  show "inum_ok s k \<Longrightarrow> abs_fs s k = (if di_type (it_inode s ip) \<noteq> T_UNUSE then Some (entry_file s ip) else None)"
    by (simp add: abs_fs_def entry_file_def Let_def c b)
qed

lemma disk_addrs_ok: "addrs_ok (disk_inode s k)"
  by (simp add: disk_inode_def addrs_ok_def dinode.truncate_def get_dinode_def get_addrs_def)

section \<open>What a step leaves alone\<close>

lemma same_file:
  assumes d: "disk_inode s' k = disk_inode s k" and v: "\<And>b. b \<in> blocks_at s k \<Longrightarrow> view s' b = view s b"
  shows "tree_path q \<Longrightarrow> node_at s' k q = node_at s k q" "blocks_at s' k = blocks_at s k" "bytes_at s' k = bytes_at s k"
    "fs_sb s' = fs_sb s \<Longrightarrow> abs_fs s' k = abs_fs s k"
proof -
  show n: "node_at s' k q = node_at s k q" if "tree_path q" for q
    unfolding node_at_def d
    by (rule node_cong[OF _ that]) (rule v[OF node_in_blocks[unfolded node_at_def]])
  then show "blocks_at s' k = blocks_at s k" unfolding blocks_at_def by (metis (no_types, lifting))
  have "view s' (node_at s k q) = view s (node_at s k q)" if "tree_path q" "node_at s k q \<noteq> 0" for q
    using v node_in_blocks[OF that] by blast
  then show b: "bytes_at s' k = bytes_at s k"
    by (auto simp: fun_eq_iff bytes_at_def Let_def n full_block_pathD)
  show "fs_sb s' = fs_sb s \<Longrightarrow> abs_fs s' k = abs_fs s k" by (simp add: abs_fs_def Let_def d b inum_ok_def)
qed

lemma tree_at_cong:
  assumes t: "tree_at s k" and n: "\<And>q. tree_path q \<Longrightarrow> node_at s' k q = node_at s k q" and us: "usable s' = usable s"
    and bits: "\<And>b. b \<in> blocks_at s k \<Longrightarrow> bm_bit s' (unat b)"
  shows "tree_at s' k"
  unfolding tree_at_def
proof (intro conjI allI impI; elim conjE)
  fix p assume p: "tree_path p" "node_at s' k p \<noteq> 0"
  then have "node_at s k p \<noteq> 0" using n by simp
  then show "usable s' (node_at s' k p)" "bm_bit s' (unat (node_at s' k p))"
    using tree_atD(1)[OF t p(1)] n[OF p(1)] us bits[OF node_in_blocks[OF p(1)]] by simp_all
next
  fix p q assume "tree_path p" "tree_path q" "node_at s' k p \<noteq> 0" "node_at s' k p = node_at s' k q"
  then show "p = q" using tree_atD(3)[OF t, of p q] n by simp
qed

text \<open>Two states, of machines with other layers on top too, that show the same blocks.\<close>

lemma same_device:
  assumes ok: "fs_phys s" and v: "\<And>b. usable s b \<Longrightarrow> view s' b = view s b" and us: "usable s' = usable s"
    and bits: "\<And>b. usable s b \<Longrightarrow> bm_bit s (unat b) \<Longrightarrow> bm_bit s' (unat b)" and sb: "fs_sb s' = fs_sb s"
  shows "inum_ok s' = inum_ok s" "IBLOCK k s' = IBLOCK k s" "inum_ok s k \<Longrightarrow> disk_inode s' k = disk_inode s k" "abs_fs s' = abs_fs s"
    "fs_disk s'" "abs_fs s k = Some a \<Longrightarrow> blocks_at s' k = blocks_at s k"
proof -
  note d = fs_physD[OF ok]
  show io: "inum_ok s' = inum_ok s" by (simp add: fun_eq_iff inum_ok_def sb)
  show ib: "IBLOCK k s' = IBLOCK k s" for k by (simp add: IBLOCK_def sb)
  show di: "disk_inode s' k = disk_inode s k" if "inum_ok s k" for k by (simp add: disk_inode_def ib v d(10)[OF that])
  have bl: "usable s b" if "abs_fs s k = Some a" "b \<in> blocks_at s k" for k a b
    by (rule tree_at_blocks(1)[OF d(13)[OF that(1)] that(2)])
  have f: "node_at s' k q = node_at s k q" "blocks_at s' k = blocks_at s k" "abs_fs s' k = abs_fs s k"
    if "abs_fs s k = Some a" "tree_path q" for k a q
  proof -
    have "inum_ok s k" using that(1) by (simp add: abs_fs_Some)
    note same_file[OF di[OF this] v[OF bl[OF that(1)]]]
    then show "node_at s' k q = node_at s k q" "blocks_at s' k = blocks_at s k" "abs_fs s' k = abs_fs s k" using sb that(2) by simp_all
  qed
  have tp: "tree_path (0, [])" by (simp add: tree_path_def NBLOCKADDR_def NDIRECT_def)
  show "abs_fs s k = Some a \<Longrightarrow> blocks_at s' k = blocks_at s k" by (rule f(2)[OF _ tp])
  show a: "abs_fs s' = abs_fs s"
  proof
    fix k
    show "abs_fs s' k = abs_fs s k"
    proof (cases "abs_fs s k")
      case None
      then show ?thesis using di[of k] by (auto simp: abs_fs_def Let_def io split: if_splits)
    qed (use f(3)[OF _ tp] in simp)
  qed
  have "super_ok s'"
    by (rule super_okI; (unfold a io ib us)?) (use d(16-18) bits d(19) f(2)[OF _ tp] in auto)
  then show "fs_disk s'"
  proof (intro fs_diskI; (unfold a io ib us)?)
    fix k a assume k: "abs_fs s k = Some a"
    show "tree_at s' k"
    proof (rule tree_at_cong[OF d(13)[OF k] f(1)[OF k] us])
      fix b assume "b \<in> blocks_at s k"
      then show "bm_bit s' (unat b)" by (intro bits tree_at_blocks[OF d(13)[OF k]])
    qed
    show "di_type (disk_inode s' k) \<in> {T_DIR, T_FILE, T_DEVICE}" using d(12)[OF k] k di[of k] by (simp add: abs_fs_Some)
    show "inum_ok s j \<Longrightarrow> IBLOCK j s \<notin> blocks_at s' k" for j using d(14)[OF k] f(2)[OF k tp] by simp
    show "abs_fs s j = Some a' \<Longrightarrow> j \<noteq> k \<Longrightarrow> blocks_at s' k \<inter> blocks_at s' j = {}" for j a'
      using d(15)[OF k] f(2)[OF k tp] f(2)[OF _ tp, of j] by simp
  qed (use d(10,11) bits in \<open>auto simp: usable_def\<close>)
qed

text \<open>Steps that change no block: only the table and the references have to be looked at.\<close>

lemma view_step:
  assumes ok: "fs_phys s" and v: "\<And>b. usable s b \<Longrightarrow> view s' b = view s b" and us: "usable s' = usable s"
    and bits: "bm_bit s' = bm_bit s" and sb: "fs_sb s' = fs_sb s"
  shows "inum_ok s' = inum_ok s" "IBLOCK k s' = IBLOCK k s" "inum_ok s k \<Longrightarrow> disk_inode s' k = disk_inode s k" "abs_fs s' = abs_fs s"
    "fs_disk s'"
  by (rule same_device[OF ok v us _ sb]; simp add: bits)+

text \<open>A table that agrees with the one before in the entries in use that hold an inode.\<close>

lemma table_step:
  assumes ok: "fs_table s" and wf: "table_wf s'" "0 < it_n s'" and a: "abs_fs s' = abs_fs s"
    and di: "\<And>k. inum_ok s k \<Longrightarrow> disk_inode s' k = disk_inode s k"
    and e: "\<And>i. i < it_n s' \<Longrightarrow> mi_ref (it_inode s' i) > 0 \<Longrightarrow> mi_valid (it_inode s' i) \<Longrightarrow>
      (i < it_n s \<and> mi_ref (it_inode s i) > 0 \<and> mi_valid (it_inode s i) \<and> mi_inum (it_inode s' i) = mi_inum (it_inode s i) \<and>
        core (it_inode s' i) = core (it_inode s i)) \<or>
      (abs_fs s (mi_inum (it_inode s' i)) \<noteq> None \<and> core (it_inode s' i) = core (disk_inode s (mi_inum (it_inode s' i))))"
  shows "fs_table s'"
  unfolding fs_table_def a
proof (intro conjI allI impI; (elim conjE)?)
  have io: "inum_ok s k" if "abs_fs s k \<noteq> None" for k using that by (auto simp: abs_fs_def Let_def split: if_splits)
  fix i assume i: "i < it_n s'" "0 < mi_ref (it_inode s' i)" "mi_valid (it_inode s' i)"
  from e[OF this] have "synced s' i \<and> abs_fs s (mi_inum (it_inode s' i)) \<noteq> None"
  proof (elim disjE conjE)
    assume o: "i < it_n s" "mi_ref (it_inode s i) > 0" "mi_valid (it_inode s i)" "mi_inum (it_inode s' i) = mi_inum (it_inode s i)"
      "core (it_inode s' i) = core (it_inode s i)"
    then have "synced s i" "abs_fs s (mi_inum (it_inode s i)) \<noteq> None" using ok unfolding fs_table_def by blast+
    then show ?thesis using o di[OF io] by (simp add: synced_def)
  next
    assume o: "abs_fs s (mi_inum (it_inode s' i)) \<noteq> None" "core (it_inode s' i) = core (disk_inode s (mi_inum (it_inode s' i)))"
    then show ?thesis using di[OF io[OF o(1)]] by (simp add: synced_def)
  qed
  then show "synced s' i" "abs_fs s (mi_inum (it_inode s' i)) \<noteq> None" by auto
qed (use wf in auto)

section \<open>The operations of the table\<close>

lemma fs_physI: "fs_base s \<Longrightarrow> fs_table s \<Longrightarrow> fs_disk s \<Longrightarrow> fs_phys s"
  by (simp add: fs_phys_def)

lemma fs_tableD: "fs_phys s \<Longrightarrow> fs_table s"
  by (simp add: fs_phys_def)

lemma fs_iget:
  assumes ok: "fs_phys s" and run: "iget inum s = Inr (ip, s')"
  shows "fs_phys s'" "abs_fs s' = abs_fs s" "got s inum ip s'" "geo s' = geo s"
proof -
  note d = fs_physD[OF ok]
  have g: "got s inum ip s' \<and> it_n s' \<in> {it_n s, 2 * it_n s}" using iget_got[OF d(6,7), of inum] run by simp
  obtain f where f: "s' = upd_inode ip f s \<or> s' = upd_inode ip f (itable_grow s)" using iget_form[OF run] by blast
  have base: "view s' = view s" "held s' = held s" "log_ready {} s'" "bm_inv s'" "bm_ready s'" "bm_bit s' = bm_bit s"
    "usable s' = usable s" "lg_committing s' = lg_committing s"
    using f d by auto
  have sb: "fs_sb s' = fs_sb s" using f by (auto simp: itable_grow_def)
  note v = view_step[OF ok fun_cong[OF base(1)] base(7,6) sb]
  have grown: "mi_ref (it_inode s' i) = 0" if "it_n s \<le> i" "i < it_n s'" "i \<noteq> ip" for i
    using f that by (auto simp: itable_grow_def static_inode_def)
  have "fs_table s'"
  proof (rule table_step[OF fs_tableD[OF ok] _ _ v(4,3)])
    show "table_wf s'" "0 < it_n s'" using g d(7) by (auto simp: got_def)
    fix i assume i: "i < it_n s'" "mi_ref (it_inode s' i) > 0" "mi_valid (it_inode s' i)"
    show "(i < it_n s \<and> mi_ref (it_inode s i) > 0 \<and> mi_valid (it_inode s i) \<and> mi_inum (it_inode s' i) = mi_inum (it_inode s i) \<and>
        core (it_inode s' i) = core (it_inode s i)) \<or>
      (abs_fs s (mi_inum (it_inode s' i)) \<noteq> None \<and> core (it_inode s' i) = core (disk_inode s (mi_inum (it_inode s' i))))"
    proof (cases "i = ip")
      case True
      then have nz: "refcount s inum \<noteq> 0" using g i(3) by (auto simp: got_def)
      then have e: "entry_of s inum = Some ip" "it_inode s' ip = (it_inode s ip)\<lparr>mi_ref := mi_ref (it_inode s ip) + 1\<rparr>"
        using g by (auto simp: got_def)
      then show ?thesis using entry_of_Some[OF d(6), of inum ip] i True by (simp add: core_eq)
    next
      case False
      then have lt: "i < it_n s" using grown[of i] i by (cases "i < it_n s") auto
      then have "it_inode s' i = it_inode s i" using g False by (simp add: got_def)
      then show ?thesis using i lt by simp
    qed
  qed
  then show "fs_phys s'" using base d v(5) by (intro fs_physI) (simp_all add: fs_base_def)
  show "abs_fs s' = abs_fs s" "got s inum ip s'" "geo s' = geo s" using v(4) g f by auto
qed

text \<open>Changes of the reference count and of the lock.\<close>

lemma fs_upd:
  assumes ok: "fs_phys s" and wf: "table_wf (upd_inode ip f s)"
    and f: "core (f (it_inode s ip)) = core (it_inode s ip)" "mi_inum (f (it_inode s ip)) = mi_inum (it_inode s ip)"
      "mi_valid (f (it_inode s ip)) \<Longrightarrow> mi_ref (f (it_inode s ip)) > 0 \<Longrightarrow> mi_valid (it_inode s ip) \<and> mi_ref (it_inode s ip) > 0"
  shows "fs_phys (upd_inode ip f s)" "abs_fs (upd_inode ip f s) = abs_fs s"
proof -
  let ?s = "upd_inode ip f s"
  note d = fs_physD[OF ok]
  have v: "view ?s b = view s b" "usable ?s = usable s" "bm_bit ?s = bm_bit s" "fs_sb ?s = fs_sb s" for b by simp_all
  note w = view_step[OF ok v]
  have "fs_table ?s"
    by (rule table_step[OF fs_tableD[OF ok] wf _ w(4,3)]) (use d(7) f in \<open>auto split: if_splits\<close>)
  then show "fs_phys ?s" using d w(5) by (intro fs_physI) (simp_all add: fs_base_def)
  show "abs_fs ?s = abs_fs s" by (rule w(4))
qed

lemma fs_iunlock:
  assumes ok: "fs_phys s"
  shows "fs_phys (iunlock ip s)" "abs_fs (iunlock ip s) = abs_fs s" "refcount (iunlock ip s) = refcount s" "entry_of (iunlock ip s) = entry_of s"
    "geo (iunlock ip s) = geo s"
proof -
  show "geo (iunlock ip s) = geo s" by simp
  note d = fs_physD[OF ok]
  have r: "mi_ref (it_inode (iunlock ip s) j) = mi_ref (it_inode s j)" "mi_inum (it_inode (iunlock ip s) j) = mi_inum (it_inode s j)" for j
    by (simp_all add: iunlock_def)
  have e: "entry_of (iunlock ip s) = entry_of s" unfolding entry_of_def r by (simp add: iunlock_def)
  then show "entry_of (iunlock ip s) = entry_of s" .
  show "refcount (iunlock ip s) = refcount s" by (simp add: refcount_def e r fun_eq_iff split: option.split)
  have n: "it_n (iunlock ip s) = it_n s" "mi_locked (it_inode (iunlock ip s) j) \<Longrightarrow> mi_locked (it_inode s j)" for j
    by (simp_all add: iunlock_def split: if_splits)
  have wf: "table_wf (iunlock ip s)"
    by (rule table_wfI; unfold r n(1)) (use table_wfD[OF d(6)] n(2) in blast)+
  show "fs_phys (iunlock ip s)" "abs_fs (iunlock ip s) = abs_fs s"
    unfolding iunlock_def by (rule fs_upd[OF ok wf[unfolded iunlock_def]]; simp add: core_eq)+
qed

text \<open>Giving back a reference to an inode that has a name.\<close>

lemma iput_named:
  assumes ok: "fs_phys s" and e: "entry_of s k = Some ip" and a: "abs_fs s k = Some a"
    and nl: "af_nlink a \<noteq> 0 \<or> mi_ref (it_inode s ip) \<noteq> 1"
  shows "iput ip s = Inr ((), upd_inode ip (\<lambda>i. i\<lparr>mi_ref := mi_ref i - 1\<rparr>) s)"
proof -
  note d = fs_physD[OF ok]
  have ip: "ip < it_n s" "mi_inum (it_inode s ip) = k" "mi_ref (it_inode s ip) > 0" using e entry_of_Some[OF d(6)] by auto
  have "\<not> (mi_ref (it_inode s ip) = 1 \<and> mi_valid (it_inode s ip) \<and> di_nlink (it_inode s ip) = 0)"
  proof
    assume c: "mi_ref (it_inode s ip) = 1 \<and> mi_valid (it_inode s ip) \<and> di_nlink (it_inode s ip) = 0"
    then have "synced s ip" using d(8) ip by blast
    then have "di_nlink (disk_inode s k) = 0" using c ip(2) by (simp add: synced_def core_eq)
    then show False using nl a c by (simp add: abs_fs_Some)
  qed
  then show ?thesis by (auto simp: iput_def Let_def)
qed

lemma fs_iput:
  assumes ok: "fs_phys s" and e: "entry_of s k = Some ip" and a: "abs_fs s k = Some a"
    and nl: "af_nlink a \<noteq> 0 \<or> mi_ref (it_inode s ip) \<noteq> 1" and ul: "mi_ref (it_inode s ip) = 1 \<Longrightarrow> \<not> mi_locked (it_inode s ip)"
    and run: "iput ip s = Inr (u, s')"
  shows "s' = upd_inode ip (\<lambda>i. i\<lparr>mi_ref := mi_ref i - 1\<rparr>) s" "fs_phys s'" "abs_fs s' = abs_fs s"
    "refcount s' = (refcount s)(k := refcount s k - 1)"
    "j \<noteq> k \<or> refcount s k \<noteq> 1 \<Longrightarrow> entry_of s' j = entry_of s j" "geo s' = geo s"
proof -
  note d = fs_physD[OF ok]
  have ip: "ip < it_n s" "mi_inum (it_inode s ip) = k" "mi_ref (it_inode s ip) > 0" using e entry_of_Some[OF d(6)] by auto
  show s': "s' = upd_inode ip (\<lambda>i. i\<lparr>mi_ref := mi_ref i - 1\<rparr>) s" using run iput_named[OF ok e a nl] by simp
  show "geo s' = geo s" by (simp add: s')
  let ?e = "(it_inode s ip)\<lparr>mi_ref := mi_ref (it_inode s ip) - 1\<rparr>"
  have n: "it_n s' = it_n s" and it: "it_inode s' = (it_inode s)(ip := ?e)" by (simp_all add: s')
  have "mi_inum ?e = k" "0 \<le> mi_ref ?e" "mi_ref ?e = 0 \<longrightarrow> \<not> mi_locked ?e" using ip ul by simp_all
  note u = refcount_upd[OF d(6) e n it this]
  show "fs_phys s'" "abs_fs s' = abs_fs s"
    unfolding s' by (rule fs_upd[OF ok u(1)[unfolded s']]; use ip in \<open>simp add: core_eq\<close>)+
  have "refcount s k = mi_ref (it_inode s ip)" by (simp add: refcount_def e)
  then show "refcount s' = (refcount s)(k := refcount s k - 1)" using u(2) by simp
  then show "j \<noteq> k \<or> refcount s k \<noteq> 1 \<Longrightarrow> entry_of s' j = entry_of s j"
    using u(3,4) ip(3) \<open>refcount s k = mi_ref (it_inode s ip)\<close> by (cases "mi_ref ?e = 0") auto
qed

lemma fs_ilock:
  assumes ok: "fs_phys s" and e: "entry_of s k = Some ip" and a: "abs_fs s k = Some a" and run: "ilock ip s = Inr (u, s')"
  shows "fs_phys s'" "abs_fs s' = abs_fs s" "refcount s' = refcount s" "entry_of s' = entry_of s"
    "mi_locked (it_inode s' ip)" "mi_valid (it_inode s' ip)" "synced s' ip" "file_ok s' ip" "entry_file s' ip = a"
    "mi_inum (it_inode s' ip) = k" "it_n s' = it_n s" "\<And>j. j \<noteq> ip \<Longrightarrow> it_inode s' j = it_inode s j" "geo s' = geo s"
proof -
  note d = fs_physD[OF ok]
  have ip: "ip < it_n s" "mi_inum (it_inode s ip) = k" "mi_ref (it_inode s ip) > 0" using e entry_of_Some[OF d(6)] by auto
  have io: "inum_ok s k" using a by (simp add: abs_fs_Some)
  have db: "mi_valid (it_inode s ip) \<or> data_block s (IBLOCK (mi_inum (it_inode s ip)) s)"
    using d(10)[OF io] ip(2) by (simp add: usable_def)
  have run': "ilock ip s = Inr ((), s')" using run by simp
  note l = ilock_ok[OF d(1) db d(3) run']
  note fr = it_frameD[OF l(3)]
  note v = view_step[OF ok fun_cong[OF l(7)] fr(2) l(6) fr(3)]
  show "geo s' = geo s" by (rule geo_frame[OF l(3) fun_cong[OF l(7)]])
  show n: "it_n s' = it_n s" by (rule fr(5))
  let ?i = "if mi_valid (it_inode s ip) then it_inode s ip
      else get_dinode (view s (IBLOCK (mi_inum (it_inode s ip)) s)) (dinode_off (mi_inum (it_inode s ip))) (it_inode s ip)"
  have it: "it_inode s' ip = ?i\<lparr>mi_locked := True, mi_valid := True\<rparr>" "\<And>j. j \<noteq> ip \<Longrightarrow> it_inode s' j = it_inode s j"
    by (simp_all add: l(10))
  have m: "mi_ref (it_inode s' j) = mi_ref (it_inode s j)" "mi_inum (it_inode s' j) = mi_inum (it_inode s j)"
    "j \<noteq> ip \<Longrightarrow> mi_locked (it_inode s' j) = mi_locked (it_inode s j)" for j
    by (cases "j = ip"; simp add: it get_dinode_def)+
  show "\<And>j. j \<noteq> ip \<Longrightarrow> it_inode s' j = it_inode s j" "mi_locked (it_inode s' ip)" "mi_valid (it_inode s' ip)"
    using it by simp_all
  show mk: "mi_inum (it_inode s' ip) = k" by (simp add: m ip(2))
  show en: "entry_of s' = entry_of s" by (simp add: entry_of_def n m fun_eq_iff)
  show "refcount s' = refcount s" by (simp add: refcount_def en m fun_eq_iff split: option.split)
  have wf: "table_wf s'"
  proof (rule table_wfI; unfold n m)
    fix i assume i: "i < it_n s" "mi_ref (it_inode s i) = 0"
    then have "i \<noteq> ip" using ip(3) by auto
    then show "\<not> mi_locked (it_inode s' i)" using table_wfD(2)[OF d(6) i] m(3) by simp
  qed (use table_wfD[OF d(6)] in blast)+
  have cr: "core (it_inode s' ip) = core (disk_inode s k)"
  proof (cases "mi_valid (it_inode s ip)")
    case True
    then have "synced s ip" using d(8) ip by blast
    then show ?thesis using True ip(2) by (simp add: it synced_def core_eq)
  next
    case False
    then show ?thesis unfolding disk_inode_def core_disk by (simp add: it ip(2) core_eq get_dinode_def)
  qed
  have ft: "fs_table s'"
  proof (rule table_step[OF fs_tableD[OF ok] wf _ v(4,3)])
    show "0 < it_n s'" using n d(7) by simp
    fix i assume i: "i < it_n s'" "mi_ref (it_inode s' i) > 0" "mi_valid (it_inode s' i)"
    show "(i < it_n s \<and> mi_ref (it_inode s i) > 0 \<and> mi_valid (it_inode s i) \<and> mi_inum (it_inode s' i) = mi_inum (it_inode s i) \<and>
        core (it_inode s' i) = core (it_inode s i)) \<or>
      (abs_fs s (mi_inum (it_inode s' i)) \<noteq> None \<and> core (it_inode s' i) = core (disk_inode s (mi_inum (it_inode s' i))))"
      using i cr a mk n by (cases "i = ip") (simp_all add: it(2))
  qed
  then show ph: "fs_phys s'" using l d v(5) fr(8) by (intro fs_physI) (simp_all add: fs_base_def)
  note d' = fs_physD[OF ph]
  show ab: "abs_fs s' = abs_fs s" by (rule v(4))
  show sy: "synced s' ip" using cr v(3)[OF io] by (simp add: synced_def mk)
  note ed = entry_disk[OF sy mk]
  have a': "abs_fs s' k = Some a" using a ab by simp
  have io': "inum_ok s' k" using a' by (simp add: abs_fs_Some)
  show "entry_file s' ip = a" using ed(4)[OF io'] a' by (simp split: if_splits)
  have "addrs_ok (it_inode s' ip)" using disk_addrs_ok[of s k] cr by (simp add: addrs_ok_def core_eq)
  moreover have "own_block s' ip"
    using d'(10,11)[OF io'] d'(14)[OF a' io'] unfolding own_block_def Let_def mk ed(1) blocks_at_iff
    by (auto simp: usable_def data_block_def simp del: split_paired_All split_paired_Ex)
  ultimately show "file_ok s' ip" using d' it ed(2) d'(13)[OF a'] by (simp add: file_ok_def)
qed

section \<open>Reading and writing one file\<close>

text \<open>
  A step that keeps everything outside the file of one entry, after which the entry agrees with the
  device, changes the file system at this one inode number.
\<close>

lemma fs_file_step:
  assumes ok: "fs_phys s" and e: "entry_of s k = Some ip" "mi_valid (it_inode s ip)"
    and g: "mi_inum (g (it_inode s ip)) = mi_inum (it_inode s ip)" "mi_ref (g (it_inode s ip)) = mi_ref (it_inode s ip)"
      "mi_locked (g (it_inode s ip)) = mi_locked (it_inode s ip)" "di_addrs (g (it_inode s ip)) = di_addrs (it_inode s ip)"
      "di_type (g (it_inode s ip)) = di_type (it_inode s ip)"
    and fk: "file_keep (upd_inode ip g s) s' ip" and sy: "synced s' ip"
  shows "fs_phys s'" "abs_fs s' = (abs_fs s)(k \<mapsto> entry_file s' ip)" "refcount s' = refcount s" "entry_of s' = entry_of s"
    "af_type (entry_file s' ip) = di_type (it_inode s ip)" "geo s' = geo s"
proof -
  let ?s = "upd_inode ip g s"
  note d = fs_physD[OF ok] and f = file_keepD[OF fk]
  note m = metaD[OF f(3)]
  have ip: "ip < it_n s" "mi_inum (it_inode s ip) = k" "mi_ref (it_inode s ip) > 0" using e(1) entry_of_Some[OF d(6)] by auto
  have mk: "mi_inum (it_inode s' ip) = k" using m g ip by simp
  have sy0: "synced s ip" and ak: "abs_fs s k \<noteq> None" using d(8,9) ip e(2) by blast+
  note e0 = entry_disk[OF sy0 ip(2)]
  have io: "inum_ok s k" using ak by (auto simp: abs_fs_Some)
  have frm: "it_frame s' = it_frame s" using f(2) by simp
  note fr = it_frameD[OF frm]
  have io': "inum_ok s' = inum_ok s" by (simp add: fun_eq_iff inum_ok_def fr(3))
  have fgn: "foreign ?s ip = foreign s ip" by (rule ext) (simp add: foreign_def g)
  have other: "it_inode s' j = it_inode s j" if "j \<noteq> ip" for j using f(4)[OF that] that by simp
  have mm: "mi_ref (it_inode s' j) = mi_ref (it_inode s j)" "mi_inum (it_inode s' j) = mi_inum (it_inode s j)"
    "mi_locked (it_inode s' j) = mi_locked (it_inode s j)" for j using m g other by (cases "j = ip"; simp)+
  have en: "entry_of s' = entry_of s" by (simp add: entry_of_def mm fr(5) fun_eq_iff)
  then show "entry_of s' = entry_of s" .
  show "refcount s' = refcount s" by (simp add: refcount_def en mm fun_eq_iff split: option.split)
  have wf: "table_wf s'" by (rule table_wfI; unfold mm fr(5)) (use table_wfD[OF d(6)] in blast)+
  have ty: "di_type (it_inode s' ip) = di_type (it_inode s ip)" using m(6) g(5) by simp
  then show "af_type (entry_file s' ip) = di_type (it_inode s ip)" by (simp add: entry_file_def Let_def)
  have tyk: "di_type (it_inode s ip) \<in> {T_DIR, T_FILE, T_DEVICE}"
    using d(12) ak sy0 ip(2) by (auto simp: synced_def core_eq)
  have fg: "foreign s ip c" if "usable s c" "bm_bit s (unat c)" "c \<noteq> IBLOCK k s" "c \<notin> blocks_at s k" for c
    using that unfolding foreign_def ip(2) e0(1) blocks_at_iff by (auto simp: usable_def data_block_def simp del: split_paired_All split_paired_Ex)
  have fg': "view s' c = view s c" "c \<notin> blocks_at s' k" "bm_bit s' (unat c)" if "foreign s ip c" for c
  proof -
    have c: "foreign s' ip c" "view s' c = view s c" using f(5,6)[of c] that fgn by simp_all
    then show "view s' c = view s c" by simp
    show "c \<notin> blocks_at s' k" "bm_bit s' (unat c)"
      using c(1) unfolding foreign_def entry_disk(1)[OF sy mk] blocks_at_iff by (auto simp del: split_paired_All split_paired_Ex)
  qed
  have sup: "foreign s ip SUPERBLOCK_ID" by (rule fg[OF d(16,17) d(18)[OF io, symmetric]]) (use ak d(19) in blast)
  show "geo s' = geo s" by (rule geo_frame[OF frm fg'(1)[OF sup]])
  have ibf: "foreign s ip (IBLOCK j s)" if "inum_ok s j" "IBLOCK j s \<noteq> IBLOCK k s" for j
    using fg[OF d(10,11)[OF that(1)] that(2)] d(14)[OF _ that(1)] ak by blast
  have di: "disk_inode s' j = disk_inode s j" if "inum_ok s j" "j \<noteq> k" for j
  proof (cases "IBLOCK j s = IBLOCK k s")
    case True
    then have "disk_inode s' j = disk_inode ?s j" using f(7) that(2) ip g unfolding slots_keep_def by (simp add: IBLOCK_def)
    also have "disk_inode ?s j = disk_inode s j" by (rule fun_cong[OF disk_inode_cong]) simp_all
    finally show ?thesis .
  next
    case False
    show ?thesis using fg'(1)[OF ibf[OF that(1) False]] by (simp add: disk_inode_def fr(4))
  qed
  have bf: "foreign s ip b" if j: "abs_fs s j = Some a" "j \<noteq> k" "b \<in> blocks_at s j" for j a b
  proof (rule fg)
    show "usable s b" "bm_bit s (unat b)" using tree_at_blocks[OF d(13)[OF j(1)] j(3)] by simp_all
    show "b \<noteq> IBLOCK k s" using d(14)[OF j(1) io] j(3) by auto
    show "b \<notin> blocks_at s k" using ak d(15)[OF j(1)] j(2,3) by blast
  qed
  have sf: "tree_path q \<Longrightarrow> node_at s' j q = node_at s j q" "blocks_at s' j = blocks_at s j" "abs_fs s' j = abs_fs s j"
    if j: "abs_fs s j = Some a" "j \<noteq> k" for j a q
  proof -
    have "inum_ok s j" using j(1) by (simp add: abs_fs_Some)
    note same_file[OF di[OF this j(2)] fg'(1)[OF bf[OF j]]]
    then show "tree_path q \<Longrightarrow> node_at s' j q = node_at s j q" "blocks_at s' j = blocks_at s j" "abs_fs s' j = abs_fs s j"
      using fr(3) by simp_all
  qed
  have abk: "abs_fs s' k = Some (entry_file s' ip)"
    using entry_disk(4)[OF sy mk] io io' ty tyk by (auto simp: T_UNUSE_def T_DIR_def T_FILE_def T_DEVICE_def)
  show ab: "abs_fs s' = (abs_fs s)(k \<mapsto> entry_file s' ip)"
  proof
    fix j
    show "abs_fs s' j = ((abs_fs s)(k \<mapsto> entry_file s' ip)) j"
    proof (cases "j = k \<or> abs_fs s j \<noteq> None")
      case True
      then show ?thesis using abk sf(3)[of j] by auto
    next
      case False
      then show ?thesis using di[of j] by (auto simp: abs_fs_def Let_def io' split: if_splits)
    qed
  qed
  have old: "abs_fs s j = Some a" if "abs_fs s' j = Some a" "j \<noteq> k" for j a using that by (simp add: ab)
  have ft: "fs_table s'"
    unfolding fs_table_def
  proof (intro conjI allI impI; (elim conjE)?)
    fix i assume i: "i < it_n s'" "0 < mi_ref (it_inode s' i)" "mi_valid (it_inode s' i)"
    have "synced s' i \<and> abs_fs s' (mi_inum (it_inode s' i)) \<noteq> None"
    proof (cases "i = ip")
      case True
      then show ?thesis using sy abk mk by simp
    next
      case False
      have it: "it_inode s' i = it_inode s i" by (rule other[OF False])
      have i': "i < it_n s" "mi_ref (it_inode s i) > 0" "mi_valid (it_inode s i)" using i it fr(5) by simp_all
      have s: "synced s i" "abs_fs s (mi_inum (it_inode s i)) \<noteq> None" using d(8,9)[OF i'] by auto
      have ne: "mi_inum (it_inode s i) \<noteq> k" using table_wfD(3)[OF d(6) i'(1) ip(1) i'(2) ip(3)] False ip(2) by auto
      have "inum_ok s (mi_inum (it_inode s i))" using s(2) by (auto simp: abs_fs_Some)
      then show ?thesis using s di[OF _ ne] ne by (simp add: synced_def it ab)
    qed
    then show "synced s' i" "abs_fs s' (mi_inum (it_inode s' i)) \<noteq> None" by auto
  qed (use wf d(7) fr(5) in auto)
  note F = file_okD[OF f(1)]
  have ibk: "IBLOCK j s \<notin> blocks_at s' k" if "inum_ok s j" for j
  proof (cases "IBLOCK j s = IBLOCK k s")
    case True
    then show ?thesis using F(13) unfolding mk entry_disk(1)[OF sy mk] fr(4) blocks_at_iff by (auto simp del: split_paired_All split_paired_Ex)
  next
    case False
    show ?thesis by (rule fg'(2)[OF ibf[OF that False]])
  qed
  have dis: "blocks_at s' k \<inter> blocks_at s j = {}" if "abs_fs s j = Some a" "j \<noteq> k" for j a
    using fg'(2)[OF bf[OF that]] by blast
  have "super_ok s'"
  proof (rule super_okI; (unfold io' fr(2,4))?)
    show "SUPERBLOCK_ID \<notin> blocks_at s' j" if "abs_fs s' j = Some a" for j a
      using fg'(2)[OF sup] sf(2)[OF old[OF that]] d(19)[OF old[OF that]] by (cases "j = k") auto
  qed (use d(16,18) fg'(3)[OF sup] in simp_all)
  then have fd: "fs_disk s'"
  proof (intro fs_diskI; (unfold io' fr(2,4))?)
    fix j assume j: "inum_ok s j"
    show "usable s (IBLOCK j s)" by (rule d(10)[OF j])
    show "bm_bit s' (unat (IBLOCK j s))"
    proof (cases "IBLOCK j s = IBLOCK k s")
      case True
      then show ?thesis using F(12) unfolding mk fr(4) by simp
    next
      case False
      show ?thesis by (rule fg'(3)[OF ibf[OF j False]])
    qed
  next
    fix j a assume j: "abs_fs s' j = Some a"
    show "di_type (disk_inode s' j) \<in> {T_DIR, T_FILE, T_DEVICE}"
    proof (cases "j = k")
      case True
      then show ?thesis using sy mk tyk ty by (auto simp: synced_def core_eq)
    next
      case False
      note jo = old[OF j False]
      have "inum_ok s j" using jo by (simp add: abs_fs_Some)
      then show ?thesis using d(12)[OF jo] di[OF _ False] by simp
    qed
    show "tree_at s' j"
    proof (cases "j = k")
      case True
      then show ?thesis using F(5) entry_disk(2)[OF sy mk] by simp
    next
      case False
      note jo = old[OF j False]
      show ?thesis by (rule tree_at_cong[OF d(13)[OF jo] sf(1)[OF jo False] fr(2)]) (simp_all add: fg'(3)[OF bf[OF jo False]])
    qed
    show "IBLOCK l s \<notin> blocks_at s' j" if "inum_ok s l" for l
      using ibk[OF that] sf(2)[OF old[OF j]] d(14)[OF old[OF j] that] by (cases "j = k") auto
    show "blocks_at s' j \<inter> blocks_at s' l = {}" if l: "abs_fs s' l = Some a'" "l \<noteq> j" for l a'
    proof -
      consider "j = k" "l \<noteq> k" | "l = k" "j \<noteq> k" | "j \<noteq> k" "l \<noteq> k" using l(2) by blast
      then show ?thesis
      proof cases
        case 1
        then show ?thesis using dis[OF old[OF l(1) 1(2)] 1(2)] sf(2)[OF old[OF l(1) 1(2)] 1(2)] by simp
      next
        case 2
        then show ?thesis using dis[OF old[OF j 2(2)] 2(2)] sf(2)[OF old[OF j 2(2)] 2(2)] by blast
      next
        case 3
        then show ?thesis using d(15)[OF old[OF j 3(1)] old[OF l(1) 3(2)] l(2)] sf(2)[OF old[OF j 3(1)] 3(1)] sf(2)[OF old[OF l(1) 3(2)] 3(2)] by simp
      qed
    qed
  qed
  show "fs_phys s'" using F ft fd by (intro fs_physI) (simp_all add: fs_base_def)
qed

text \<open>A step that keeps the file itself changes nothing.\<close>

lemma fs_keep_step:
  assumes ok: "fs_phys s" and e: "entry_of s k = Some ip" "mi_valid (it_inode s ip)"
    and fk: "file_keep s s' ip" "fbytes s' ip = fbytes s ip" and sy: "synced s' ip"
  shows "fs_phys s'" "abs_fs s' = abs_fs s" "refcount s' = refcount s" "entry_of s' = entry_of s" "geo s' = geo s"
proof -
  note d = fs_physD[OF ok]
  have ip: "ip < it_n s" "mi_inum (it_inode s ip) = k" "mi_ref (it_inode s ip) > 0" using e(1) entry_of_Some[OF d(6)] by auto
  have id: "upd_inode ip (\<lambda>i. i) s = s" by (simp add: upd_inode_def)
  have fk': "file_keep (upd_inode ip (\<lambda>i. i) s) s' ip" using fk(1) by (simp add: id)
  note st = fs_file_step[OF ok e _ _ _ _ _ fk' sy, simplified]
  show "fs_phys s'" "refcount s' = refcount s" "entry_of s' = entry_of s" "geo s' = geo s" using st by simp_all
  have sy0: "synced s ip" and ak: "abs_fs s k \<noteq> None" using d(8,9) ip e(2) by blast+
  have "abs_fs s k = Some (entry_file s ip)"
    using entry_disk(4)[OF sy0 ip(2)] ak sy0 ip(2) by (auto simp: abs_fs_Some synced_def core_eq)
  moreover have "entry_file s' ip = entry_file s ip"
    using file_keepD(3)[OF fk(1)] fk(2) by (simp add: entry_file_def Let_def meta_def)
  ultimately show "abs_fs s' = abs_fs s" using st(2) by (simp add: fun_upd_idem)
qed

end
