(* ===== verification/Name_Space.thy ===== *)
theory Name_Space
  imports File_System
begin

text \<open>
  Paths in the file system \<open>abs_fs\<close>: walking along the names of the directories, \<^verbatim>\<open>namex\<close> of
  \<^verbatim>\<open>directory.c\<close> as an implementation of this walk, and the requests of \<^verbatim>\<open>file.c\<close> that rest on it.
\<close>

section \<open>Names and paths\<close>

text \<open>The names in a file that is a directory, and a file system in which the directories are in order.\<close>

definition names_dir :: "afile \<Rightarrow> byte list \<Rightarrow> uint option" where
  "names_dir a = slots_map (af_bytes a) (unat (af_size a) div dirent_size)"

definition dir_form :: "afile \<Rightarrow> bool" where
  "dir_form a \<longleftrightarrow> dirent_size dvd unat (af_size a) \<and> unat (af_size a) < 2 ^ 31 \<and>
    slots_distinct (af_bytes a) (unat (af_size a) div dirent_size)"

text \<open>The root is a directory, and every name leads to an inode in use with a link.\<close>

definition names_ok :: "(uint \<Rightarrow> afile option) \<Rightarrow> bool" where
  "names_ok fs \<longleftrightarrow> (\<exists>a. fs ROOTINO = Some a \<and> af_type a = T_DIR \<and> af_nlink a \<noteq> 0) \<and>
    (\<forall>k a. fs k = Some a \<and> af_type a = T_DIR \<longrightarrow> dir_form a \<and>
      (\<forall>nm j. names_dir a nm = Some j \<longrightarrow> (\<exists>b. fs j = Some b \<and> af_nlink b \<noteq> 0)))"

definition fs_ok :: "'a itable_scheme \<Rightarrow> bool" where
  "fs_ok s \<longleftrightarrow> fs_phys s \<and> names_ok (abs_fs s)"

lemma names_okD:
  assumes "names_ok fs"
  shows "\<exists>a. fs ROOTINO = Some a \<and> af_type a = T_DIR \<and> af_nlink a \<noteq> 0"
    "fs k = Some a \<Longrightarrow> af_type a = T_DIR \<Longrightarrow> dir_form a"
    "fs k = Some a \<Longrightarrow> af_type a = T_DIR \<Longrightarrow> names_dir a nm = Some j \<Longrightarrow> \<exists>b. fs j = Some b \<and> af_nlink b \<noteq> 0"
  using assms unfolding names_ok_def by blast+

text \<open>
  One step from a directory to the inode of a name, of which the first 60 bytes count, and walking
  along the elements of a path.
\<close>

definition child_of :: "(uint \<Rightarrow> afile option) \<Rightarrow> cpath \<Rightarrow> uint \<Rightarrow> uint option" where
  "child_of fs e k =
    (case fs k of
       None \<Rightarrow> None
     | Some a \<Rightarrow> if af_type a = T_DIR then names_dir a (take DIRSIZE e) else None)"

primrec walk :: "(uint \<Rightarrow> afile option) \<Rightarrow> cpath list \<Rightarrow> uint \<Rightarrow> uint option" where
  "walk fs [] k = Some k"
| "walk fs (e # es) k = Option.bind (child_of fs e k) (walk fs es)"

definition walk_parent :: "(uint \<Rightarrow> afile option) \<Rightarrow> cpath list \<Rightarrow> uint \<Rightarrow> uint option" where
  "walk_parent fs es k =
    (if es = [] then None
     else Option.bind (walk fs (butlast es) k) (\<lambda>j. if \<exists>a. fs j = Some a \<and> af_type a = T_DIR then Some j else None))"

text \<open>Both walks in the order in which the code makes its tests.\<close>

fun walk_to :: "(uint \<Rightarrow> afile option) \<Rightarrow> bool \<Rightarrow> cpath list \<Rightarrow> uint \<Rightarrow> uint option" where
  "walk_to fs parent [] k = (if parent then None else Some k)"
| "walk_to fs parent (e # es) k =
    (if \<exists>a. fs k = Some a \<and> af_type a = T_DIR then
       if parent \<and> es = [] then Some k else Option.bind (child_of fs e k) (walk_to fs parent es)
     else None)"

lemma child_of_dir: "child_of fs e k = Some j \<Longrightarrow> \<exists>a. fs k = Some a \<and> af_type a = T_DIR"
  by (auto simp: child_of_def split: option.splits if_splits)

lemma walk_to_walk: "walk_to fs False es k = walk fs es k"
proof (induction es arbitrary: k)
  case (Cons e es)
  then have i: "walk_to fs False es = walk fs es" by blast
  show ?case using child_of_dir[of fs e k] by (cases "child_of fs e k") (auto simp: i)
qed simp

lemma walk_to_parent: "walk_to fs True es k = walk_parent fs es k"
proof (induction es arbitrary: k)
  case (Cons e es)
  then have i: "walk_to fs True es = walk_parent fs es" by blast
  show ?case using child_of_dir[of fs e k] by (cases "child_of fs e k") (auto simp: i walk_parent_def)
qed (simp add: walk_parent_def)

section \<open>Looking up a name in a file system in order\<close>

text \<open>The references the table counts, as a function from inode numbers.\<close>

definition add_ref :: "uint \<Rightarrow> int \<Rightarrow> (uint \<Rightarrow> int) \<Rightarrow> uint \<Rightarrow> int" where
  "add_ref k n f = f(k := f k + n)"

lemma add_ref_back [simp]: "add_ref k n (add_ref k (- n) f) = f" "add_ref k (- n) (add_ref k n f) = f"
  "add_ref k (1 - 1) f = f" "add_ref k 0 f = f"
  by (simp_all add: add_ref_def)

lemma add_ref_swap: "add_ref j m (add_ref k n f) = add_ref k n (add_ref j m f)"
  by (auto simp: add_ref_def fun_eq_iff)

text \<open>An entry of the table that is locked and holds its inode.\<close>

definition open_at :: "'a itable_scheme \<Rightarrow> uint \<Rightarrow> nat \<Rightarrow> bool" where
  "open_at s k ip \<longleftrightarrow> entry_of s k = Some ip \<and> mi_locked (it_inode s ip) \<and> mi_valid (it_inode s ip) \<and> file_ok s ip \<and> synced s ip"

lemma open_entry:
  assumes ok: "fs_phys s" and o: "open_at s k ip"
  shows "abs_fs s k = Some (entry_file s ip)" "ip < it_n s" "mi_inum (it_inode s ip) = k" "mi_ref (it_inode s ip) > 0"
proof -
  note d = fs_physD[OF ok]
  show ip: "ip < it_n s" "mi_inum (it_inode s ip) = k" "mi_ref (it_inode s ip) > 0"
    using o entry_of_Some[OF d(6)] by (auto simp: open_at_def)
  have v: "mi_valid (it_inode s ip)" "synced s ip" using o by (simp_all add: open_at_def)
  have "abs_fs s k \<noteq> None" using d(9)[OF ip(1,3) v(1)] ip(2) by simp
  then show "abs_fs s k = Some (entry_file s ip)"
    using entry_disk(4)[OF v(2) ip(2)] v(2) ip(2) by (auto simp: abs_fs_Some synced_def core_eq)
qed

lemma open_dir_ok:
  assumes ok: "fs_ok s" and o: "open_at s k ip" and a: "abs_fs s k = Some a" and ty: "af_type a = T_DIR"
  shows "dir_ok s ip" "dir_of s ip = names_dir a"
proof -
  note p = open_entry[OF _ o]
  have ph: "fs_phys s" "names_ok (abs_fs s)" using ok by (simp_all add: fs_ok_def)
  have e: "a = entry_file s ip" using p(1)[OF ph(1)] a by simp
  have sz: "af_size a = di_size (it_inode s ip)" "af_bytes a = fbytes s ip" by (simp_all add: e entry_file_def Let_def)
  have f: "dir_form a" by (rule names_okD(2)[OF ph(2) a ty])
  show "dir_ok s ip"
    using f fs_physD(6)[OF ph(1)] p(2)[OF ph(1)] o by (simp add: dir_ok_def dir_form_def sz dir_slots_def open_at_def)
  show "dir_of s ip = names_dir a" by (simp add: dir_of_def names_dir_def sz dir_slots_def)
qed

lemma fs_dirlookup:
  assumes ok: "fs_ok s" and o: "open_at s k dp" and a: "abs_fs s k = Some a" "af_type a = T_DIR"
    and run: "dirlookup dp nm s = Inr (r, s')"
  shows "fs_phys s'" "abs_fs s' = abs_fs s" "entry_of s' k = Some dp"
    "case names_dir a (cname nm) of
       None \<Rightarrow> r = None \<and> refcount s' = refcount s
     | Some j \<Rightarrow> \<exists>ip off. r = Some (ip, off) \<and> entry_of s' j = Some ip \<and> refcount s' = add_ref j 1 (refcount s)"
    "geo s' = geo s"
proof -
  have ph: "fs_phys s" using ok by (simp add: fs_ok_def)
  note D = open_dir_ok[OF ok o a]
  obtain s1 where s1: "file_keep s s1 dp" "fbytes s1 dp = fbytes s dp" "dir_ok s1 dp" "dir_of s1 dp = dir_of s dp" "synced s1 dp"
    and c: "case slot_of (fbytes s dp) (dir_slots s dp) (cname nm) of None \<Rightarrow> r = None \<and> s' = s1
     | Some i \<Rightarrow> i < dir_slots s dp \<and> (\<exists>ip. r = Some (ip, dirent_size * i) \<and> iget (slot_inum (fbytes s dp) i) s1 = Inr (ip, s'))"
    by (rule dirlookup_steps[OF D(1) run])
  have eo: "entry_of s k = Some dp" "mi_valid (it_inode s dp)" using o by (simp_all add: open_at_def)
  note st = fs_keep_step[OF ph eo s1(1,2,5)]
  have nd: "names_dir a (cname nm) = map_option (slot_inum (fbytes s dp)) (slot_of (fbytes s dp) (dir_slots s dp) (cname nm))"
    using D(2)[THEN fun_cong, of "cname nm"] by (simp add: dir_of_def slots_map_def)
  have "fs_phys s' \<and> abs_fs s' = abs_fs s \<and> geo s' = geo s \<and> entry_of s' k = Some dp \<and>
    (case names_dir a (cname nm) of
       None \<Rightarrow> r = None \<and> refcount s' = refcount s
     | Some j \<Rightarrow> \<exists>ip off. r = Some (ip, off) \<and> entry_of s' j = Some ip \<and> refcount s' = add_ref j 1 (refcount s))"
  proof (cases "slot_of (fbytes s dp) (dir_slots s dp) (cname nm)")
    case None
    then show ?thesis using c st eo by (simp add: nd)
  next
    case (Some i)
    let ?j = "slot_inum (fbytes s dp) i"
    obtain ip where ip: "r = Some (ip, dirent_size * i)" "iget ?j s1 = Inr (ip, s')" using c Some by auto
    note g = fs_iget[OF st(1) ip(2)]
    have "entry_of s' k = Some dp"
    proof (cases "k = ?j")
      case False
      then show ?thesis using g(3) st(4) eo by (simp add: got_def)
    next
      case True
      have "entry_of s1 ?j = Some dp" using True st(4) eo by simp
      then have "refcount s1 ?j \<noteq> 0" using refcount_pos(1)[OF fs_physD(6)[OF st(1)], of ?j] by simp
      then have "entry_of s1 ?j = Some ip" using g(3) by (simp add: got_def)
      then show ?thesis using g(3) \<open>entry_of s1 ?j = Some dp\<close> unfolding True by (simp add: got_def)
    qed
    then show ?thesis using g st(2,3,5) ip(1) Some by (simp add: nd got_def add_ref_def)
  qed
  then show "fs_phys s'" "abs_fs s' = abs_fs s" "entry_of s' k = Some dp"
    "case names_dir a (cname nm) of
       None \<Rightarrow> r = None \<and> refcount s' = refcount s
     | Some j \<Rightarrow> \<exists>ip off. r = Some (ip, off) \<and> entry_of s' j = Some ip \<and> refcount s' = add_ref j 1 (refcount s)"
    "geo s' = geo s" by auto
qed

lemma fs_put:
  assumes ok: "fs_phys s" and e: "entry_of s k = Some ip" and a: "abs_fs s k = Some a" "af_nlink a \<noteq> 0"
    and run: "iunlockput ip s = Inr (u, s')"
  shows "fs_phys s'" "abs_fs s' = abs_fs s" "refcount s' = add_ref k (- 1) (refcount s)"
    "j \<noteq> k \<or> refcount s k \<noteq> 1 \<Longrightarrow> entry_of s' j = entry_of s j" "geo s' = geo s"
proof -
  let ?t = "iunlock ip s"
  note l = fs_iunlock[OF ok, of ip]
  have r: "iput ip ?t = Inr (u, s')" using run by (simp add: iunlockput_def)
  have "entry_of ?t k = Some ip" "abs_fs ?t k = Some a" and ul: "\<not> mi_locked (it_inode ?t ip)" using e a l by (simp_all add: iunlock_def)
  note p = fs_iput[OF l(1) this(1,2) disjI1[OF a(2)] ul r]
  show "fs_phys s'" "abs_fs s' = abs_fs s" "refcount s' = add_ref k (- 1) (refcount s)"
    using p l by (simp_all add: add_ref_def)
  show "j \<noteq> k \<or> refcount s k \<noteq> 1 \<Longrightarrow> entry_of s' j = entry_of s j" using p(5) l by simp
  show "geo s' = geo s" using p(6) l by simp
qed

lemma fs_lock:
  assumes ok: "fs_phys s" and e: "entry_of s k = Some ip" and a: "abs_fs s k = Some a" and run: "ilock ip s = Inr (u, s')"
  shows "fs_phys s'" "abs_fs s' = abs_fs s" "refcount s' = refcount s" "entry_of s' = entry_of s" "open_at s' k ip" "entry_file s' ip = a"
    "geo s' = geo s"
  using fs_ilock[OF assms] e by (simp_all add: open_at_def)

section \<open>Resolving a path\<close>

text \<open>
  What \<open>namex\<close> returns for the walk: the entry of the inode it reaches with one more reference, or
  nothing. \<open>k\<close> is the inode the walk starts from, whose reference it takes over.
\<close>

definition resolved :: "'a itable_scheme \<Rightarrow> 'a itable_scheme \<Rightarrow> uint \<Rightarrow> uint option \<Rightarrow> nat option \<Rightarrow> bool" where
  "resolved s s' k w r \<longleftrightarrow> fs_phys s' \<and> abs_fs s' = abs_fs s \<and> geo s' = geo s \<and>
    (case w of
       None \<Rightarrow> r = None \<and> refcount s' = add_ref k (- 1) (refcount s)
     | Some j \<Rightarrow> \<exists>jp. r = Some jp \<and> entry_of s' j = Some jp \<and> refcount s' = add_ref j 1 (add_ref k (- 1) (refcount s)))"

lemma add_ref_add: "add_ref k m (add_ref k n f) = add_ref k (n + m) f"
  by (simp add: add_ref_def add.assoc)

lemma components_set: "e \<in> set (components path) \<Longrightarrow> set e \<subseteq> set path"
proof -
  have "\<forall>e\<in>set (split_slash path). set e \<subseteq> set path"
    by (induction path) (fastforce split: list.splits if_splits)+
  then show "e \<in> set (components path) \<Longrightarrow> set e \<subseteq> set path" by (simp add: components_def)
qed

lemma skipelem_rest: "skipelem path nm = Some (rest, nm') \<Longrightarrow> set rest \<subseteq> set path"
  by (auto simp: skipelem_def Let_def split: if_splits dest!: set_dropWhileD)

lemma resolved_step:
  assumes r: "resolved s2 s' j w p" and s2: "abs_fs s2 = abs_fs s" "refcount s2 = add_ref j 1 (add_ref k (- 1) (refcount s))"
    "geo s2 = geo s"
  shows "resolved s s' k w p"
  using r by (auto simp: resolved_def s2 add_ref_add split: option.splits)

lemma namex_from_ok:
  assumes "fs_ok s" "entry_of s k = Some ip" "abs_fs s k = Some a" "af_nlink a \<noteq> 0" "0 \<notin> set path"
    and "namex_from ip path parent nm s = Inr ((r, nm'), s')" "parent \<Longrightarrow> components path = [] \<Longrightarrow> mi_ref (it_inode s ip) = 1 \<Longrightarrow> \<not> mi_locked (it_inode s ip)"
  shows "resolved s s' k (walk_to (abs_fs s) parent (components path) k) r \<and>
    (parent \<and> r \<noteq> None \<longrightarrow> cname nm' = take DIRSIZE (last (components path)))"
  using assms
proof (induction "components path" arbitrary: s k ip a path nm)
  case Nil
  have sk: "skipelem path nm = None" using skipelem_components[of path nm] Nil(1)[symmetric] by simp
  show ?case
  proof (cases parent)
    case False
    then have "r = Some ip" "s' = s" using Nil.prems(6) sk by (auto simp: namex_from.simps[of ip path])
    then show ?thesis using Nil.prems(1,2) False unfolding Nil(1)[symmetric] by (simp add: resolved_def fs_ok_def add_ref_add)
  next
    case True
    then obtain u where run: "iput ip s = Inr (u, s')" "r = None" using Nil.prems(6) sk by (auto simp: namex_from.simps[of ip path] chain_eq_Inr)
    have ph: "fs_phys s" using Nil.prems(1) by (simp add: fs_ok_def)
    note p = fs_iput[OF ph Nil.prems(2,3) disjI1[OF Nil.prems(4)] Nil.prems(7)[OF True Nil(1)[symmetric]] run(1)]
    show ?thesis using p run(2) True unfolding Nil(1)[symmetric] by (simp add: resolved_def add_ref_def)
  qed
next
  case (Cons e es)
  note prems = Cons.prems
  have ph: "fs_phys s" "names_ok (abs_fs s)" using prems(1) by (simp_all add: fs_ok_def)
  note comp = Cons.hyps(2)[symmetric]
  obtain rest where sk: "skipelem path nm = Some (rest, store_name e nm)" "components rest = es" "rest = [] \<longleftrightarrow> es = []"
    using skipelem_components[of path nm] unfolding comp by auto
  let ?nm = "store_name e nm"
  have "e \<in> set (components path)" by (simp add: comp)
  then have e0: "0 \<notin> set e" "0 \<notin> set rest" using components_set skipelem_rest[OF sk(1)] prems(5) by blast+
  have cn: "cname ?nm = take DIRSIZE e" by (rule cname_store[OF e0(1)])
  obtain s1 where il: "ilock ip s = Inr ((), s1)" and run1: "(if di_type (it_inode s1 ip) \<noteq> T_DIR then
           chain (iunlockput ip s1) (\<lambda>(_, s). Inr ((None, ?nm), s))
         else if parent \<and> rest = [] then Inr ((Some ip, ?nm), iunlock ip s1)
         else
           chain (dirlookup ip ?nm s1) (\<lambda>(next, s).
           case next of
             None \<Rightarrow> chain (iunlockput ip s) (\<lambda>(_, s). Inr ((None, ?nm), s))
           | Some (ip', _) \<Rightarrow>
               chain (iunlockput ip s) (\<lambda>(_, s). namex_from ip' rest parent ?nm s))) = Inr ((r, nm'), s')"
    using prems(6) sk(1) by (auto simp: namex_from.simps[of ip path] chain_eq_Inr)
  note l = fs_lock[OF ph(1) prems(2,3) il]
  have ty: "di_type (it_inode s1 ip) = af_type a" using l(6) by (auto simp: entry_file_def Let_def)
  have ae: "entry_of s1 k = Some ip" "abs_fs s1 k = Some a" using prems(2,3) l by simp_all
  show ?case
  proof (cases "af_type a = T_DIR")
    case False
    then obtain u where p: "iunlockput ip s1 = Inr (u, s')" "r = None" using run1 ty by (auto simp: chain_eq_Inr)
    note q = fs_put[OF l(1) ae prems(4) p(1)]
    have w: "walk_to (abs_fs s) parent (e # es) k = None" using False prems(3) by auto
    show ?thesis using q l p(2) unfolding comp w by (simp add: resolved_def)
  next
    case dir: True
    have isdir: "\<exists>a. abs_fs s k = Some a \<and> af_type a = T_DIR" using dir prems(3) by auto
    show ?thesis
    proof (cases "parent \<and> rest = []")
      case True
      then have run2: "r = Some ip" "nm' = ?nm" "s' = iunlock ip s1" using run1 ty dir by auto
      have w: "walk_to (abs_fs s) parent (e # es) k = Some k" using True sk(3) isdir by auto
      show ?thesis using fs_iunlock[OF l(1), of ip] l ae run2 cn True sk(3) unfolding comp w by (simp add: resolved_def add_ref_add)
    next
      case False
      then obtain q s2 where dl: "dirlookup ip ?nm s1 = Inr (q, s2)" and run2: "(case q of
             None \<Rightarrow> chain (iunlockput ip s2) (\<lambda>(_, s). Inr ((None, ?nm), s))
           | Some (ip', _) \<Rightarrow> chain (iunlockput ip s2) (\<lambda>(_, s). namex_from ip' rest parent ?nm s)) = Inr ((r, nm'), s')"
        using run1 ty dir by (auto simp: chain_eq_Inr)
      have ok1: "fs_ok s1" using l ph by (simp add: fs_ok_def)
      note D = fs_dirlookup[OF ok1 l(5) ae(2) dir dl]
      have ae2: "entry_of s2 k = Some ip" "abs_fs s2 k = Some a" using D ae by simp_all
      have ch: "child_of (abs_fs s) e k = names_dir a (take DIRSIZE e)" using prems(3) dir by (simp add: child_of_def)
      have w: "walk_to (abs_fs s) parent (e # es) k = Option.bind (names_dir a (take DIRSIZE e)) (walk_to (abs_fs s) parent es)"
        using isdir False sk(3) ch by auto
      show ?thesis
      proof (cases "names_dir a (take DIRSIZE e)")
        case None
        then have q0: "q = None" "refcount s2 = refcount s1" using D(4) cn by simp_all
        then obtain u where p: "iunlockput ip s2 = Inr (u, s')" "r = None" using run2 by (auto simp: chain_eq_Inr)
        note t = fs_put[OF D(1) ae2 prems(4) p(1)]
        show ?thesis using t D(2,5) q0 l p(2) None unfolding comp w by (simp add: resolved_def)
      next
        case (Some j)
        then obtain ip' off where q0: "q = Some (ip', off)" "entry_of s2 j = Some ip'" "refcount s2 = add_ref j 1 (refcount s1)" using D(4) cn by auto
        then obtain u s3 where p: "iunlockput ip s2 = Inr (u, s3)" "namex_from ip' rest parent ?nm s3 = Inr ((r, nm'), s')"
          using run2 by (auto simp: chain_eq_Inr)
        note t = fs_put[OF D(1) ae2 prems(4) p(1)]
        obtain b where b: "abs_fs s j = Some b" "af_nlink b \<noteq> 0" using names_okD(3)[OF ph(2) prems(3) dir Some] by blast
        have ab3: "abs_fs s3 = abs_fs s" using t(2) D(2) l(2) by simp
        have "refcount s1 k > 0" using refcount_pos(1)[OF fs_physD(6)[OF l(1)], of k] ae by simp
        then have "j \<noteq> k \<or> refcount s2 k \<noteq> 1" by (simp add: q0(3) add_ref_def)
        then have e3: "entry_of s3 j = Some ip'" using t(4) q0(2) by simp
        have ok3: "fs_ok s3" using t(1) ab3 ph by (simp add: fs_ok_def)
        have sb3: "geo s3 = geo s" using t(5) D(5) l(7) by simp
        have rc: "refcount s3 = add_ref j 1 (add_ref k (- 1) (refcount s))" by (simp add: t(3) q0(3) l(3) add_ref_swap[of k])
        have pe: "parent \<Longrightarrow> es \<noteq> []" using False sk(3) by simp
        have I: "resolved s3 s' j (walk_to (abs_fs s3) parent (components rest) j) r \<and>
          (parent \<and> r \<noteq> None \<longrightarrow> cname nm' = take DIRSIZE (last (components rest)))"
          by (rule Cons.hyps(1)[OF sk(2)[symmetric] ok3 e3 _ b(2) e0(2) p(2)]) (use ab3 b(1) pe sk(2) in simp_all)
        show ?thesis using pe resolved_step[OF conjunct1[OF I] ab3 rc sb3] I Some unfolding comp w sk(2) ab3 by simp
      qed
    qed
  qed
qed

lemma fs_namex:
  assumes ok: "fs_ok s" and z: "0 \<notin> set path" and run: "namex path parent nm s = Inr ((r, nm'), s')"
  shows "fs_ok s'" "abs_fs s' = abs_fs s"
    "case walk_to (abs_fs s) parent (components path) ROOTINO of
       None \<Rightarrow> r = None \<and> refcount s' = refcount s
     | Some j \<Rightarrow> \<exists>jp. r = Some jp \<and> entry_of s' j = Some jp \<and> refcount s' = add_ref j 1 (refcount s)"
    "parent \<Longrightarrow> r \<noteq> None \<Longrightarrow> cname nm' = take DIRSIZE (last (components path))" "geo s' = geo s"
proof -
  have ph: "fs_phys s" "names_ok (abs_fs s)" using ok by (simp_all add: fs_ok_def)
  obtain ip s1 where g: "iget ROOTINO s = Inr (ip, s1)" and n: "namex_from ip path parent nm s1 = Inr ((r, nm'), s')"
    using run by (auto simp: namex_def chain_eq_Inr split: if_splits)
  note G = fs_iget[OF ph(1) g]
  obtain a where a: "abs_fs s ROOTINO = Some a" "af_nlink a \<noteq> 0" using names_okD(1)[OF ph(2)] by blast
  have ok1: "fs_ok s1" using G ph by (simp add: fs_ok_def)
  have e: "entry_of s1 ROOTINO = Some ip" "abs_fs s1 ROOTINO = Some a" using G a by (simp_all add: got_def)
  have rc: "refcount s1 = add_ref ROOTINO 1 (refcount s)" using G(3) by (simp add: got_def add_ref_def)
  have "\<not> mi_locked (it_inode s1 ip)" if "mi_ref (it_inode s1 ip) = 1"
  proof -
    have "refcount s1 ROOTINO = 1" using that by (simp add: refcount_def e)
    then have "refcount s ROOTINO = 0" by (simp add: rc add_ref_def)
    then show ?thesis using G(3) by (simp add: got_def)
  qed
  then have N: "resolved s1 s' ROOTINO (walk_to (abs_fs s1) parent (components path) ROOTINO) r \<and>
    (parent \<and> r \<noteq> None \<longrightarrow> cname nm' = take DIRSIZE (last (components path)))"
    by (rule namex_from_ok[OF ok1 e a(2) z n])
  then show "abs_fs s' = abs_fs s" "fs_ok s'" "geo s' = geo s" using G ph by (simp_all add: resolved_def fs_ok_def)
  have "add_ref ROOTINO (- 1) (refcount s1) = refcount s" by (simp add: rc)
  then show "case walk_to (abs_fs s) parent (components path) ROOTINO of
       None \<Rightarrow> r = None \<and> refcount s' = refcount s
     | Some j \<Rightarrow> \<exists>jp. r = Some jp \<and> entry_of s' j = Some jp \<and> refcount s' = add_ref j 1 (refcount s)"
    using conjunct1[OF N] by (simp add: resolved_def G(2) split: option.splits)
  show "parent \<Longrightarrow> r \<noteq> None \<Longrightarrow> cname nm' = take DIRSIZE (last (components path))" using N by simp
qed

lemma fs_path2inode:
  assumes ok: "fs_ok s" and z: "0 \<notin> set path" and run: "path2inode path s = Inr (r, s')"
  shows "fs_ok s' \<and> abs_fs s' = abs_fs s \<and>
    (case walk (abs_fs s) (components path) ROOTINO of
       None \<Rightarrow> r = None \<and> refcount s' = refcount s
     | Some j \<Rightarrow> \<exists>jp. r = Some jp \<and> entry_of s' j = Some jp \<and> refcount s' = add_ref j 1 (refcount s))"
proof -
  obtain nm' where "namex path False (\<lambda>_. 0) s = Inr ((r, nm'), s')" using run by (auto simp: path2inode_def chain_eq_Inr)
  note N = fs_namex[OF ok z this]
  show ?thesis using N(1-3) by (simp add: walk_to_walk)
qed

lemma fs_path2parentinode:
  assumes ok: "fs_ok s" and z: "0 \<notin> set path" and run: "path2parentinode path nm s = Inr ((r, nm'), s')"
  shows "fs_ok s' \<and> abs_fs s' = abs_fs s \<and>
    (case walk_parent (abs_fs s) (components path) ROOTINO of
       None \<Rightarrow> r = None \<and> refcount s' = refcount s
     | Some j \<Rightarrow> \<exists>jp. r = Some jp \<and> entry_of s' j = Some jp \<and> refcount s' = add_ref j 1 (refcount s) \<and>
         cname nm' = take DIRSIZE (last (components path)))"
proof -
  note N = fs_namex[OF ok z run[unfolded path2parentinode_def]]
  show ?thesis using N(1-4) by (auto simp: walk_to_parent split: option.splits)
qed

lemma path_super:
  assumes "fs_ok s" "0 \<notin> set path"
  shows "path2inode path s = Inr (r, s') \<Longrightarrow> geo s' = geo s" "path2parentinode path nm s = Inr ((r, nm'), s') \<Longrightarrow> geo s' = geo s"
  using fs_namex(5)[OF assms] by (auto simp: path2inode_def path2parentinode_def chain_eq_Inr)

section \<open>Operations of the log around a request\<close>

lemma fs_same_table:
  fixes s s' :: "'a itable_scheme"
  assumes ok: "fs_phys s" and base: "log_ready {} s'" "held s' = Map.empty" "\<not> lg_committing s'"
    and v: "\<And>b. data_block s b \<Longrightarrow> view s' b = view s b" and nb: "dev_nblk s' = dev_nblk s" "lg_start s' = lg_start s" "lg_size s' = lg_size s"
    and more: "fslog.more s' = fslog.more s"
  shows "fs_phys s'" "abs_fs s' = abs_fs s" "refcount s' = refcount s" "entry_of s' = entry_of s" "it_inode s' = it_inode s" "it_n s' = it_n s"
    "geo s' = geo s"
proof -
  note d = fs_physD[OF ok]
  note f = bm_fields_more[OF more]
  note g = it_fields_more[OF f(7)]
  show it: "it_inode s' = it_inode s" "it_n s' = it_n s" by (rule g)+
  show "geo s' = geo s" using nb f(1,5) g(3) v[of SUPERBLOCK_ID] d(16) by (simp add: geo_def usable_def)
  have db: "data_block s' = data_block s" by (simp add: fun_eq_iff data_block_def nb)
  have bb: "bm_block s' = bm_block s" by (simp add: bm_block_def f fun_eq_iff)
  have us: "usable s' = usable s" by (simp add: usable_def db bb f fun_eq_iff)
  have bit: "bm_bit s' = bm_bit s" by (rule bm_bit_cong[OF f(2)])
  have rd: "bm_ready s' = bm_ready s" by (simp add: bm_ready_def f)
  have "bm_sync s' = bm_sync s" by (auto simp: bm_sync_def db bb f v)
  then have inv: "bm_inv s' = bm_inv s" by (simp add: bm_inv_def bm_counts_def group_used_def bit us f)
  have vu: "usable s b \<Longrightarrow> view s' b = view s b" for b using v by (simp add: usable_def)
  note w = view_step[OF ok vu us bit f(1)]
  show en: "entry_of s' = entry_of s" by (simp add: entry_of_def it fun_eq_iff)
  then show "refcount s' = refcount s" by (simp add: refcount_def it fun_eq_iff split: option.split)
  have wf: "table_wf s'" "0 < it_n s'" using d(6,7) by (simp_all add: table_wf_def it)
  have "fs_table s'" by (rule table_step[OF fs_tableD[OF ok] wf w(4,3)]) (simp_all add: it)
  then show "fs_phys s'" using base inv rd d w(5) by (intro fs_physI) (simp_all add: fs_base_def)
  show "abs_fs s' = abs_fs s" by (rule w(4))
qed

lemma fs_begin_op:
  fixes s s' :: "'a itable_scheme"
  assumes ok: "fs_phys s" and run: "begin_op s = Inr (u, s')"
  shows "fs_phys s'" "abs_fs s' = abs_fs s" "refcount s' = refcount s" "entry_of s' = entry_of s" "it_inode s' = it_inode s" "it_n s' = it_n s"
    "geo s' = geo s"
proof -
  note d = fs_physD[OF ok]
  have run': "begin_op s = Inr ((), s')" using run by simp
  note b = begin_op_ok[OF run' d(1)]
  have s': "s' = s\<lparr>lg_outstanding := lg_outstanding s + 1, n_log_wrote := 0\<rparr>" using run by (auto simp: begin_op_def split: if_splits)
  have m: "fslog.more s' = fslog.more s" "dev_nblk s' = dev_nblk s" "lg_start s' = lg_start s" "lg_size s' = lg_size s" by (simp_all add: s')
  have "log_ready {} s'" "held s' = Map.empty" "\<not> lg_committing s'" "\<And>b. view s' b = view s b" using b d by simp_all
  note fs_same_table[OF ok this(1-4) m(2-4) m(1)]
  then show "fs_phys s'" "abs_fs s' = abs_fs s" "refcount s' = refcount s" "entry_of s' = entry_of s" "it_inode s' = it_inode s" "it_n s' = it_n s" "geo s' = geo s" by auto
qed

text \<open>When no operation is open, nothing waits in the log.\<close>

definition flushed :: "'a fslog_scheme \<Rightarrow> bool" where
  "flushed s \<longleftrightarrow> (lg_outstanding s = 0 \<longrightarrow> lh_n s = 0)"

lemma fs_end_op:
  fixes s s' :: "'a itable_scheme"
  assumes ok: "fs_phys s" and run: "end_op s = Inr (u, s')"
  shows "fs_phys s'" "abs_fs s' = abs_fs s" "refcount s' = refcount s" "entry_of s' = entry_of s" "it_inode s' = it_inode s" "it_n s' = it_n s"
    "geo s' = geo s" "flushed s'"
proof -
  note d = fs_physD[OF ok]
  note e = end_op_step[OF d(1,2,5) run]
  show "flushed s'"
    unfolding flushed_def
  proof
    assume "lg_outstanding s' = 0"
    then have one: "lg_outstanding s = 1" using e by simp
    show "lh_n s' = 0" using end_op_last[OF d(1,2) one d(5)] run by (auto elim!: returnsE)
  qed
  have base: "log_ready {} s'" "held s' = Map.empty" "\<not> lg_committing s'" "\<And>b. data_block s b \<Longrightarrow> view s' b = view s b"
    "dev_nblk s' = dev_nblk s" "lg_start s' = lg_start s" "lg_size s' = lg_size s" "fslog.more s' = fslog.more s"
    using e by simp_all
  note fs_same_table[OF ok base]
  then show "fs_phys s'" "abs_fs s' = abs_fs s" "refcount s' = refcount s" "entry_of s' = entry_of s" "it_inode s' = it_inode s" "it_n s' = it_n s" "geo s' = geo s" by auto
qed

section \<open>Requests that look at a file\<close>

lemma walk_named:
  assumes ok: "names_ok fs" and w: "walk fs es k = Some j" and k: "fs k = Some a" "af_nlink a \<noteq> 0"
  shows "\<exists>b. fs j = Some b \<and> af_nlink b \<noteq> 0"
  using w k
proof (induction es arbitrary: k a)
  case (Cons e es)
  then obtain l where l: "child_of fs e k = Some l" "walk fs es l = Some j" by (auto simp: bind_eq_Some_conv)
  then have "af_type a = T_DIR" "names_dir a (take DIRSIZE e) = Some l" using Cons.prems(2) by (auto simp: child_of_def split: if_splits)
  then obtain b where "fs l = Some b" "af_nlink b \<noteq> 0" using names_okD(3)[OF ok Cons.prems(2)] by blast
  then show ?case using Cons.IH[OF l(2)] by blast
qed simp

lemma walk_root:
  assumes "names_ok fs" "walk fs es ROOTINO = Some j"
  obtains a where "fs j = Some a" "af_nlink a \<noteq> 0"
  using walk_named[OF assms] names_okD(1)[OF assms(1)] that by blast

text \<open>What \<open>stat\<close> shows of a file.\<close>

definition stat_of :: "uint \<Rightarrow> afile \<Rightarrow> int \<Rightarrow> stat \<Rightarrow> bool" where
  "stat_of k a r st \<longleftrightarrow> st_ino st = k \<and> st_size st = af_size a \<and> st_nlink st = scast (af_nlink a) \<and> st_blksize st = BSIZE \<and>
    (if af_type a = T_DIR then r = 0 \<and> st_mode st = or S_IFDIR (af_perm a)
     else if af_type a = T_FILE then r = 0 \<and> st_mode st = or S_IFREG (af_perm a)
     else r = - ENOENT)"

lemma stat_inode_of:
  assumes "mi_inum (it_inode s ip) = k" "entry_file s ip = a"
  shows "stat_of k a (fst (stat_inode ip st s)) (snd (stat_inode ip st s))"
  using assms by (auto simp: stat_of_def stat_inode_def entry_file_def Let_def)

lemma fs_getattr:
  assumes ok: "fs_ok s" and z: "0 \<notin> set path" and run: "myfuse_getattr path st s = Inr ((r, st'), s')"
  shows "fs_ok s' \<and> abs_fs s' = abs_fs s \<and> refcount s' = refcount s \<and> geo s' = geo s \<and> flushed s' \<and>
    (case walk (abs_fs s) (components path) ROOTINO of
       None \<Rightarrow> r = - ENOENT \<and> st' = st
     | Some k \<Rightarrow> \<exists>a. abs_fs s k = Some a \<and> stat_of k a r st')"
proof -
  have ph: "fs_phys s" "names_ok (abs_fs s)" using ok by (simp_all add: fs_ok_def)
  obtain s1 p s2 where 1: "begin_op s = Inr ((), s1)" "path2inode path s1 = Inr (p, s2)"
    and rest: "(case p of
      None \<Rightarrow> chain (end_op s2) (\<lambda>(_, s). Inr ((- ENOENT, st), s))
    | Some ip \<Rightarrow>
        chain (ilock ip s2) (\<lambda>(_, s).
        let res = stat_inode ip st s in
        chain (iunlockput ip s) (\<lambda>(_, s).
        chain (end_op s) (\<lambda>(_, s).
        Inr (res, s))))) = Inr ((r, st'), s')"
    using run by (auto simp: myfuse_getattr_def chain_eq_Inr)
  note b = fs_begin_op[OF ph(1) 1(1)]
  have ok1: "fs_ok s1" using b ph by (simp add: fs_ok_def)
  note P = fs_path2inode[OF ok1 z 1(2)]
  have ph2: "fs_phys s2" using P by (simp add: fs_ok_def)
  have g2: "geo s2 = geo s" using path_super(1)[OF ok1 z 1(2)] b(7) by simp
  show ?thesis
  proof (cases "walk (abs_fs s) (components path) ROOTINO")
    case None
    then have p: "p = None" "refcount s2 = refcount s" using P b by simp_all
    then obtain u where e: "end_op s2 = Inr (u, s')" "r = - ENOENT" "st' = st" using rest by (auto simp: chain_eq_Inr)
    note E = fs_end_op[OF ph2 e(1)]
    show ?thesis using E P p e b ph g2 None by (simp add: fs_ok_def)
  next
    case (Some k)
    then obtain ip where p: "p = Some ip" "entry_of s2 k = Some ip" "refcount s2 = add_ref k 1 (refcount s)" using P b by auto
    obtain a where a: "abs_fs s k = Some a" "af_nlink a \<noteq> 0" by (rule walk_root[OF ph(2) Some])
    obtain s3 s4 u where 3: "ilock ip s2 = Inr ((), s3)" "iunlockput ip s3 = Inr ((), s4)" "end_op s4 = Inr (u, s')"
      and res: "stat_inode ip st s3 = (r, st')"
      using rest p(1) by (auto simp: chain_eq_Inr Let_def)
    have a2: "abs_fs s2 k = Some a" using a P b by simp
    note L = fs_lock[OF ph2 p(2) a2 3(1)]
    have a3: "abs_fs s3 k = Some a" "entry_of s3 k = Some ip" using L a2 p(2) by simp_all
    note U = fs_put[OF L(1) a3(2,1) a(2) 3(2)]
    note E = fs_end_op[OF U(1) 3(3)]
    have "stat_of k a r st'" using stat_inode_of[OF open_entry(3)[OF L(1,5)] L(6), of st] res by simp
    then show ?thesis using E U L P p b ph g2 a Some by (simp add: fs_ok_def)
  qed
qed

section \<open>Requests return\<close>

text \<open>The entries that may be locked.\<close>

definition locks_in :: "nat set \<Rightarrow> 'a itable_scheme \<Rightarrow> bool" where
  "locks_in X s \<longleftrightarrow> (\<forall>i<it_n s. mi_locked (it_inode s i) \<longrightarrow> i \<in> X)"

lemma ilock_returns:
  assumes ok: "fs_phys s" and e: "entry_of s k = Some ip" and a: "abs_fs s k = Some a" and ul: "\<not> mi_locked (it_inode s ip)"
  obtains s' where "ilock ip s = Inr ((), s')"
proof -
  note d = fs_physD[OF ok]
  have ip: "ip < it_n s" "mi_inum (it_inode s ip) = k" "mi_ref (it_inode s ip) > 0" using e entry_of_Some[OF d(6)] by auto
  have "data_block s (IBLOCK (mi_inum (it_inode s ip)) s)" using d(10)[of k] a ip(2) by (simp add: abs_fs_Some usable_def)
  note o = ilock_result[OF d(1,2) this]
  have "di_type (disk_inode s k) \<noteq> T_UNUSE \<and> di_type (disk_inode s k) \<in> {T_FILE, T_DIR, T_DEVICE}"
    using d(12)[OF a] by (auto simp: T_UNUSE_def T_DIR_def T_FILE_def T_DEVICE_def)
  then have "\<exists>s'. ilock ip s = Inr ((), s')" using o ip ul by (auto elim!: returnsE split: if_splits)
  then show ?thesis using that by blast
qed

lemma ilock_locks:
  assumes ok: "fs_phys s" and e: "entry_of s k = Some ip" and a: "abs_fs s k = Some a" and run: "ilock ip s = Inr (u, s')"
    and q: "locks_in X s" "quota w f s"
  shows "locks_in (insert ip X) s'" "quota w f s'"
proof -
  note l = fs_ilock[OF ok e a run]
  show "locks_in (insert ip X) s'" using q(1) l(11,12) unfolding locks_in_def by (metis insertCI)
  note d = fs_physD[OF ok]
  have ip: "mi_inum (it_inode s ip) = k" using e entry_of_Some[OF d(6)] by auto
  have db: "mi_valid (it_inode s ip) \<or> data_block s (IBLOCK (mi_inum (it_inode s ip)) s)"
    using d(10)[of k] a ip by (simp add: abs_fs_Some usable_def)
  have run': "ilock ip s = Inr ((), s')" using run by simp
  note m = ilock_ok[OF d(1) db d(3) run']
  show "quota w f s'" using q(2) free_blocks_cong[OF m(3,6)] it_frameD[OF m(3)] m(8,9) by (simp add: quota_def)
qed

lemma iunlock_locks: "locks_in (insert ip X) s \<Longrightarrow> locks_in X (iunlock ip s)"
  by (auto simp: locks_in_def iunlock_def)

lemma iput_locks: "locks_in X s \<Longrightarrow> locks_in X (upd_inode ip (\<lambda>i. i\<lparr>mi_ref := n i\<rparr>) s)"
  by (auto simp: locks_in_def split: if_splits)

lemma put_returns:
  assumes ok: "fs_phys s" and e: "entry_of s k = Some ip" and a: "abs_fs s k = Some a" "af_nlink a \<noteq> 0"
    and q: "locks_in (insert ip X) s" "quota w f s"
  obtains s' where "iunlockput ip s = Inr ((), s')" "locks_in X s'" "quota w f s'"
proof -
  note l = fs_iunlock[OF ok, of ip]
  have e': "entry_of (iunlock ip s) k = Some ip" "abs_fs (iunlock ip s) k = Some a" using l e a by simp_all
  let ?t = "upd_inode ip (\<lambda>i. i\<lparr>mi_ref := mi_ref i - 1\<rparr>) (iunlock ip s)"
  have "iunlockput ip s = Inr ((), ?t)" using iput_named[OF l(1) e' disjI1[OF a(2)]] by (simp add: iunlockput_def)
  moreover have "locks_in X ?t" by (rule iput_locks[OF iunlock_locks[OF q(1)]])
  moreover have "quota w f ?t" using q(2) by (simp add: table_quota iunlock_def)
  ultimately show ?thesis by (rule that)
qed

lemma iget_locks:
  assumes ok: "fs_phys s" and r: "iget inum s = Inr (ip, s')"
  shows "quota w f s' = quota w f s" "locks_in X s \<Longrightarrow> locks_in X s'"
proof -
  note d = fs_physD[OF ok]
  have g: "got s inum ip s'" by (rule fs_iget[OF ok r])
  obtain h where f: "s' = upd_inode ip h s \<or> s' = upd_inode ip h (itable_grow s)" using iget_form[OF r] by blast
  show "quota w f s' = quota w f s" using f by (auto simp: table_quota)
  show "locks_in X s'" if q: "locks_in X s"
    unfolding locks_in_def
  proof (intro allI impI)
    fix i assume i: "i < it_n s'" "mi_locked (it_inode s' i)"
    show "i \<in> X"
    proof (cases "i = ip")
      case True
      then have nz: "refcount s inum \<noteq> 0" using g i(2) by (auto simp: got_def)
      then have e: "entry_of s inum = Some ip" "it_inode s' ip = (it_inode s ip)\<lparr>mi_ref := mi_ref (it_inode s ip) + 1\<rparr>"
        using g by (auto simp: got_def)
      then show ?thesis using entry_of_Some[OF d(6), of inum ip] i(2) True q by (auto simp: locks_in_def)
    next
      case False
      have "i < it_n s" using f i False by (cases "i < it_n s") (auto simp: itable_grow_def static_inode_def)
      then show ?thesis using i(2) False q g by (simp add: locks_in_def got_def)
    qed
  qed
qed

lemma dirlookup_locks:
  assumes ok: "fs_ok s" and o: "open_at s k dp" and a: "abs_fs s k = Some a" "af_type a = T_DIR"
    and run: "dirlookup dp nm s = Inr (r, s')" and q: "locks_in X s"
  shows "locks_in X s'"
proof -
  have ph: "fs_phys s" using ok by (simp add: fs_ok_def)
  note D = open_dir_ok[OF ok o a]
  obtain s1 where s1: "file_keep s s1 dp" "fbytes s1 dp = fbytes s dp" "dir_ok s1 dp" "dir_of s1 dp = dir_of s dp" "synced s1 dp"
    and c: "case slot_of (fbytes s dp) (dir_slots s dp) (cname nm) of None \<Rightarrow> r = None \<and> s' = s1
     | Some i \<Rightarrow> i < dir_slots s dp \<and> (\<exists>ip. r = Some (ip, dirent_size * i) \<and> iget (slot_inum (fbytes s dp) i) s1 = Inr (ip, s'))"
    by (rule dirlookup_steps[OF D(1) run])
  have eo: "entry_of s k = Some dp" "mi_valid (it_inode s dp)" using o by (simp_all add: open_at_def)
  note st = fs_keep_step[OF ph eo s1(1,2,5)]
  note fk = file_keepD[OF s1(1)]
  have "mi_locked (it_inode s1 j) = mi_locked (it_inode s j)" for j using metaD(4)[OF fk(3)] fk(4)[of j] by (cases "j = dp") simp_all
  then have l1: "locks_in X s1" using q it_frameD(5)[OF fk(2)] by (simp add: locks_in_def)
  show ?thesis
  proof (cases "slot_of (fbytes s dp) (dir_slots s dp) (cname nm)")
    case None
    then show ?thesis using c l1 by simp
  next
    case (Some i)
    then obtain ip where ip: "iget (slot_inum (fbytes s dp) i) s1 = Inr (ip, s')" using c by auto
    show ?thesis by (rule iget_locks(2)[OF st(1) ip l1])
  qed
qed

text \<open>
  With room in the log for twelve writes and four free blocks for each element of the path, resolving
  a path returns, when no directory is larger than a block.
\<close>

definition small_dirs :: "(uint \<Rightarrow> afile option) \<Rightarrow> bool" where
  "small_dirs fs \<longleftrightarrow> (\<forall>k a. fs k = Some a \<and> af_type a = T_DIR \<longrightarrow> unat (af_size a) \<le> BSIZE)"

lemma namex_from_total:
  assumes "fs_ok s" "entry_of s k = Some ip" "abs_fs s k = Some a" "af_nlink a \<noteq> 0" "0 \<notin> set path" "locks_in {} s"
    and "small_dirs (abs_fs s)" "quota (12 * length (components path) + w) (4 * length (components path) + f) s" "1 \<le> f"
  shows "\<exists>r nm' s'. namex_from ip path parent nm s = Inr ((r, nm'), s') \<and> quota w f s' \<and> locks_in {} s'"
  using assms
proof (induction "components path" arbitrary: s k ip a path nm)
  case Nil
  have ph: "fs_phys s" using Nil.prems(1) by (simp add: fs_ok_def)
  have sk: "skipelem path nm = None" using skipelem_components[of path nm] Nil(1)[symmetric] by simp
  have "iput ip s = Inr ((), upd_inode ip (\<lambda>i. i\<lparr>mi_ref := mi_ref i - 1\<rparr>) s)"
    by (rule iput_named[OF ph Nil.prems(2,3) disjI1[OF Nil.prems(4)]])
  then show ?case using sk Nil.prems(6,8) iput_locks[OF Nil.prems(6)] unfolding Nil(1)[symmetric]
    by (simp add: namex_from.simps[of ip path] table_quota)
next
  case (Cons e es)
  note prems = Cons.prems
  have ph: "fs_phys s" "names_ok (abs_fs s)" using prems(1) by (simp_all add: fs_ok_def)
  note comp = Cons.hyps(2)[symmetric]
  obtain rest where sk: "skipelem path nm = Some (rest, store_name e nm)" "components rest = es" "rest = [] \<longleftrightarrow> es = []"
    using skipelem_components[of path nm] unfolding comp by auto
  let ?nm = "store_name e nm"
  have "e \<in> set (components path)" by (simp add: comp)
  then have e0: "0 \<notin> set e" "0 \<notin> set rest" using components_set skipelem_rest[OF sk(1)] prems(5) by blast+
  have q0: "quota (1 + 11 + (12 * length es + w)) (4 + (4 * length es + f)) s" using prems(8) unfolding comp by (simp add: add.assoc)
  have qm: "quota w f t" if "quota (12 * length es + w) (4 * length es + f) t" for t :: "'a itable_scheme" by (rule quota_mono[OF that]) simp_all
  have qm1: "quota (12 * length es + w) (4 * length es + f) t" if "quota (1 + 11 + (12 * length es + w)) (4 + (4 * length es + f)) t"
    for t :: "'a itable_scheme" by (rule quota_mono[OF that]) simp_all
  have ip: "ip < it_n s" using prems(2) entry_of_Some[OF fs_physD(6)[OF ph(1)]] by auto
  then have ul: "\<not> mi_locked (it_inode s ip)" using prems(6) by (auto simp: locks_in_def)
  obtain s1 where il: "ilock ip s = Inr ((), s1)" by (rule ilock_returns[OF ph(1) prems(2,3) ul])
  note l = fs_lock[OF ph(1) prems(2,3) il] and lq = ilock_locks[OF ph(1) prems(2,3) il prems(6) q0]
  have ty: "di_type (it_inode s1 ip) = af_type a" using l(6) by (auto simp: entry_file_def Let_def)
  have ae: "entry_of s1 k = Some ip" "abs_fs s1 k = Some a" using prems(2,3) l by simp_all
  have nx: "namex_from ip path parent nm s = (if di_type (it_inode s1 ip) \<noteq> T_DIR then
           chain (iunlockput ip s1) (\<lambda>(_, s). Inr ((None, ?nm), s))
         else if parent \<and> rest = [] then Inr ((Some ip, ?nm), iunlock ip s1)
         else
           chain (dirlookup ip ?nm s1) (\<lambda>(next, s).
           case next of
             None \<Rightarrow> chain (iunlockput ip s) (\<lambda>(_, s). Inr ((None, ?nm), s))
           | Some (ip', _) \<Rightarrow>
               chain (iunlockput ip s) (\<lambda>(_, s). namex_from ip' rest parent ?nm s)))"
    using sk(1) il by (simp add: namex_from.simps[of ip path])
  show ?case
  proof (cases "af_type a = T_DIR \<and> \<not> (parent \<and> rest = [])")
    case False
    obtain s2 where p: "iunlockput ip s1 = Inr ((), s2)" "locks_in {} s2" "quota (1 + 11 + (12 * length es + w)) (4 + (4 * length es + f)) s2"
      by (rule put_returns[OF l(1) ae prems(4) lq])
    have "locks_in {} (iunlock ip s1)" "quota w f (iunlock ip s1)"
      using iunlock_locks[OF lq(1)] qm[OF qm1[OF lq(2)]] by (simp_all add: iunlock_def table_quota)
    then show ?thesis using False p qm[OF qm1[OF p(3)]] unfolding nx ty by auto
  next
    case True
    have ok1: "fs_ok s1" using l ph by (simp add: fs_ok_def)
    note D = open_dir_ok[OF ok1 l(5) ae(2) conjunct1[OF True]]
    have sz: "unat (di_size (it_inode s1 ip)) \<le> BSIZE"
    proof -
      have "unat (af_size a) \<le> BSIZE" using prems(3,7) True unfolding small_dirs_def by blast
      moreover have "af_size a = di_size (it_inode s1 ip)" using l(6) by (auto simp: entry_file_def Let_def)
      ultimately show ?thesis by simp
    qed
    have need: "map_need s1 ip 0 11 4" by (simp add: map_need_def)
    have f1: "1 \<le> 4 * length es + f" using prems(9) by simp
    obtain q s2 where dl: "dirlookup ip ?nm s1 = Inr (q, s2)" and q2: "quota (12 * length es + w) (4 * length es + f) s2"
      by (rule dirlookup_total[OF D(1) sz need lq(2) f1])
    note F = fs_dirlookup[OF ok1 l(5) ae(2) conjunct1[OF True] dl]
    have lk2: "locks_in (insert ip {}) s2" by (rule dirlookup_locks[OF ok1 l(5) ae(2) conjunct1[OF True] dl lq(1)])
    have ae2: "entry_of s2 k = Some ip" "abs_fs s2 k = Some a" using F ae by simp_all
    obtain s3 where p: "iunlockput ip s2 = Inr ((), s3)" "locks_in {} s3" "quota (12 * length es + w) (4 * length es + f) s3"
      by (rule put_returns[OF F(1) ae2 prems(4) lk2 q2])
    note P = fs_put[OF F(1) ae2 prems(4) p(1)]
    show ?thesis
    proof (cases q)
      case None
      then show ?thesis using True dl p qm[OF p(3)] unfolding nx ty by auto
    next
      case (Some r)
      have cn: "cname ?nm = take DIRSIZE e" by (rule cname_store[OF e0(1)])
      obtain j ip' off where j: "names_dir a (take DIRSIZE e) = Some j" "q = Some (ip', off)" "entry_of s2 j = Some ip'"
        "refcount s2 = add_ref j 1 (refcount s1)"
        using F(4) Some cn by (auto split: option.splits)
      obtain b where b: "abs_fs s j = Some b" "af_nlink b \<noteq> 0" using names_okD(3)[OF ph(2) prems(3) conjunct1[OF True] j(1)] by blast
      have ab3: "abs_fs s3 = abs_fs s" using P(2) F(2) l(2) by simp
      have "refcount s1 k > 0" using refcount_pos(1)[OF fs_physD(6)[OF l(1)], of k] ae by simp
      then have "j \<noteq> k \<or> refcount s2 k \<noteq> 1" by (simp add: j(4) add_ref_def)
      then have e3: "entry_of s3 j = Some ip'" using P(4) j(3) by simp
      have ok3: "fs_ok s3" using P(1) ab3 ph by (simp add: fs_ok_def)
      have "\<exists>r nm' s'. namex_from ip' rest parent ?nm s3 = Inr ((r, nm'), s') \<and> quota w f s' \<and> locks_in {} s'"
        by (rule Cons.hyps(1)[OF sk(2)[symmetric] ok3 e3 _ b(2) e0(2) p(2)]) (use ab3 b(1) p(3) prems(7,9) sk(2) in simp_all)
      then show ?thesis using True dl j(2) p(1) unfolding nx ty by auto
    qed
  qed
qed

lemma path_total:
  assumes ok: "fs_ok s" and z: "0 \<notin> set path" and sl: "path \<noteq> []" "hd path = slash" and l: "locks_in {} s" and sm: "small_dirs (abs_fs s)"
    and q: "quota (12 * length (components path) + w) (4 * length (components path) + f) s" "1 \<le> f"
  shows "\<exists>r s'. path2inode path s = Inr (r, s') \<and> quota w f s' \<and> locks_in {} s'"
    "\<exists>r nm' s'. path2parentinode path nm s = Inr ((r, nm'), s') \<and> quota w f s' \<and> locks_in {} s'"
proof -
  have ph: "fs_phys s" "names_ok (abs_fs s)" using ok by (simp_all add: fs_ok_def)
  note d = fs_physD[OF ph(1)]
  obtain ip s1 where g: "iget ROOTINO s = Inr (ip, s1)" using iget_got[OF d(6,7), of ROOTINO] by (auto elim!: returnsE)
  note G = fs_iget[OF ph(1) g] and L = iget_locks[OF ph(1) g]
  obtain a where a: "abs_fs s ROOTINO = Some a" "af_nlink a \<noteq> 0" using names_okD(1)[OF ph(2)] by blast
  have ok1: "fs_ok s1" using G ph by (simp add: fs_ok_def)
  have e: "entry_of s1 ROOTINO = Some ip" "abs_fs s1 ROOTINO = Some a" using G a by (simp_all add: got_def)
  have sm1: "small_dirs (abs_fs s1)" using sm G by simp
  have q1: "quota (12 * length (components path) + w) (4 * length (components path) + f) s1" using q(1) L(1) by simp
  have n: "\<exists>r nm' s'. namex path parent nm s = Inr ((r, nm'), s') \<and> quota w f s' \<and> locks_in {} s'" for parent nm
    using namex_from_total[OF ok1 e a(2) z L(2)[OF l] sm1 q1 q(2), of parent nm] sl g by (simp add: namex_def)
  show "\<exists>r nm' s'. path2parentinode path nm s = Inr ((r, nm'), s') \<and> quota w f s' \<and> locks_in {} s'"
    unfolding path2parentinode_def by (rule n)
  show "\<exists>r s'. path2inode path s = Inr (r, s') \<and> quota w f s' \<and> locks_in {} s'"
    using n[of False "\<lambda>_. 0"] by (auto simp: path2inode_def)
qed

section \<open>A file system with one file\<close>

text \<open>The small file system, with the file 2 under the name \<open>a\<close> in the root, and an empty table.\<close>

definition mini_names :: "uint \<Rightarrow> block" where
  "mini_names b = (if b = 41 then (\<lambda>j. if j < dirent_size then dirent_bytes nm_a 2 j else 0) else zero_block)"

abbreviation mini_fs :: "'a \<Rightarrow> 'a itable_scheme" where
  "mini_fs x \<equiv> mini_ext (\<lambda>_. static_inode) mini_names x"

lemma mini_inum: "inum_ok (mini_fs x) k \<longleftrightarrow> 0 < unat k \<and> unat k < 32"
  by (simp add: inum_ok_def mini_it_fields)

lemma mini_block:
  assumes "unat k < 32"
  shows "IBLOCK k (mini_fs x) = (if unat k < 16 then 30 else 31)"
proof -
  have "unat k div 16 = (if unat k < 16 then 0 else 1)" using assms by auto
  then show ?thesis by (simp add: IBLOCK_def mini_it_fields IPB_def)
qed

lemma mini_unused:
  assumes "unat k < 32" "k \<noteq> 1" "k \<noteq> 2"
  shows "di_type (disk_inode (mini_fs x) k) = T_UNUSE"
proof -
  have z: "di_type (get_dinode zero_block off i) = T_UNUSE" for off i
    by (simp add: get_dinode_def zero_block_def T_UNUSE_def)
  show ?thesis
  proof (cases "unat k < 16")
    case False
    then show ?thesis using assms(1)
      by (simp add: disk_inode_def mini_block mini_it_ready(3) mini_it_fields mini_names_def z dinode.truncate_def)
  next
    case True
    have off: "dinode_off k = unat k * 256" using True by (simp add: dinode_off_def IPB_def)
    have "unat k \<noteq> 1" "unat k \<noteq> 2" using assms(2,3) by (auto simp: word_unat_eq_iff)
    then have sep: "dinode_off k + 256 \<le> 256 \<or> 256 + 256 \<le> dinode_off k" "dinode_off k + 256 \<le> 512 \<or> 512 + 256 \<le> dinode_off k"
      unfolding off by arith+
    have "get_dinode mini_inodes (dinode_off k) i = get_dinode zero_block (dinode_off k) i" for i
      unfolding mini_inodes_def using sep by (simp add: get_put_dinode_other)
    then show ?thesis using True assms(1)
      by (simp add: disk_inode_def mini_block mini_it_ready(3) mini_it_fields z dinode.truncate_def)
  qed
qed

lemma mini_node:
  assumes a: "di_addrs (disk_inode s k) = (\<lambda>i. if i = 0 then c else 0)" and p: "tree_path p"
  shows "node_at s k p = (if p = (0, []) then c else 0)"
proof (cases "fst p = 0")
  case True
  then show ?thesis using p by (cases p) (simp add: tree_path_def depth_def NDIRECT_def node_at_def a)
next
  case False
  then have "node_at s k p = 0" by (simp add: node_at_def node_def a)
  then show ?thesis using False by auto
qed

lemma mini_blocks:
  assumes a: "di_addrs (disk_inode s k) = (\<lambda>i. if i = 0 then c else 0)" and c: "c \<noteq> 0"
  shows "blocks_at s k = {c}" "usable s c \<Longrightarrow> bm_bit s (unat c) \<Longrightarrow> tree_at s k"
proof -
  have p0: "tree_path (0, [])" by (simp add: tree_path_def NBLOCKADDR_def)
  note n = mini_node[OF a]
  have "b \<in> blocks_at s k \<longleftrightarrow> b = c" for b
  proof
    assume "b \<in> blocks_at s k"
    then obtain p where "tree_path p" "node_at s k p = b" "b \<noteq> 0" unfolding blocks_at_def by blast
    then show "b = c" using n[of p] by (simp split: if_splits)
  next
    assume "b = c"
    then show "b \<in> blocks_at s k" using node_in_blocks[OF p0, of s k] n[OF p0] c by simp
  qed
  then show "blocks_at s k = {c}" by blast
  have u: "p = (0, [])" if "tree_path p" "node_at s k p \<noteq> 0" for p using n[OF that(1)] that(2) by (simp split: if_splits)
  show "tree_at s k" if "usable s c" "bm_bit s (unat c)"
    unfolding tree_at_def
  proof (intro conjI allI impI; elim conjE)
    fix p assume "tree_path p" "node_at s k p \<noteq> 0"
    then show "usable s (node_at s k p)" "bm_bit s (unat (node_at s k p))" using u[of p] n[OF p0] that by simp_all
  next
    fix p q assume "tree_path p" "tree_path q" "node_at s k p \<noteq> 0" "node_at s k p = node_at s k q"
    then show "p = q" using u[of p] u[of q] by metis
  qed
qed

lemma mini_afs:
  "abs_fs (mini_fs x) 1 = Some \<lparr>af_type = T_DIR, af_nlink = 1, af_size = 64, af_perm = 0, af_bytes = bytes_at (mini_fs x) 1\<rparr>"
  "abs_fs (mini_fs x) 2 = Some \<lparr>af_type = T_FILE, af_nlink = 1, af_size = 100, af_perm = 0, af_bytes = bytes_at (mini_fs x) 2\<rparr>"
  "k \<noteq> 1 \<Longrightarrow> k \<noteq> 2 \<Longrightarrow> abs_fs (mini_fs x) k = None"
proof -
  have "inum_ok (mini_fs x) 1" "inum_ok (mini_fs x) 2" by (simp_all add: mini_inum)
  then show "abs_fs (mini_fs x) 1 = Some \<lparr>af_type = T_DIR, af_nlink = 1, af_size = 64, af_perm = 0, af_bytes = bytes_at (mini_fs x) 1\<rparr>"
    "abs_fs (mini_fs x) 2 = Some \<lparr>af_type = T_FILE, af_nlink = 1, af_size = 100, af_perm = 0, af_bytes = bytes_at (mini_fs x) 2\<rparr>"
    by (simp_all add: abs_fs_Some mini_it_disk) (simp_all add: dinode.truncate_def mini_root_def mini_file_def T_UNUSE_def T_DIR_def T_FILE_def static_inode_def)
  show "k \<noteq> 1 \<Longrightarrow> k \<noteq> 2 \<Longrightarrow> abs_fs (mini_fs x) k = None"
    using mini_unused[of k x] by (auto simp: abs_fs_def Let_def mini_inum)
qed

lemma mini_addrs:
  "di_addrs (disk_inode (mini_fs x) 1) = (\<lambda>i. if i = 0 then 41 else 0)" "di_addrs (disk_inode (mini_fs x) 2) = (\<lambda>i. if i = 0 then 40 else 0)"
  by (simp_all add: mini_it_disk dinode.truncate_def mini_root_def mini_file_def)

lemma mini_two: "abs_fs (mini_fs x) k = Some a \<Longrightarrow> k = 1 \<or> k = 2"
  using mini_afs(3)[of k x] by auto

lemma mini_phys: "fs_phys (mini_fs x)"
proof (rule fs_physI)
  show "fs_base (mini_fs x)" by (simp add: fs_base_def mini_it_ready(1,2) mini_it_inv(1,2) mini_it_fields)
  have "table_wf (mini_fs x)" by (rule table_wfI) (simp_all add: mini_it_fields static_inode_def)
  then show "fs_table (mini_fs x)" by (simp add: fs_table_def mini_it_fields static_inode_def)
  have us: "usable (mini_fs x) c" "bm_bit (mini_fs x) (unat c)" if "c \<in> {30, 31, 40, 41}" for c using that by (auto simp: mini_it_usable mini_it_bits)
  note b = mini_blocks(1)[OF mini_addrs(1)[of x]] mini_blocks(1)[OF mini_addrs(2)[of x]]
  note t = mini_blocks(2)[OF mini_addrs(1)[of x]] mini_blocks(2)[OF mini_addrs(2)[of x]]
  have ib: "IBLOCK j (mini_fs x) \<in> {30, 31}" if "inum_ok (mini_fs x) j" for j
    using that mini_block[of j x] by (simp add: mini_inum)
  have c: "blocks_at (mini_fs x) k = {if k = 1 then 41 else 40}" if "abs_fs (mini_fs x) k = Some a" for k a
    using mini_two[OF that] b by auto
  have "super_ok (mini_fs x)"
  proof (rule super_okI)
    show "usable (mini_fs x) SUPERBLOCK_ID" "bm_bit (mini_fs x) (unat SUPERBLOCK_ID)"
      by (simp_all add: SUPERBLOCK_ID_def mini_it_usable mini_it_bits)
    show "SUPERBLOCK_ID \<notin> blocks_at (mini_fs x) k" if "abs_fs (mini_fs x) k = Some a" for k a
      unfolding c[OF that] by (simp add: SUPERBLOCK_ID_def)
  qed (use ib in \<open>fastforce simp: SUPERBLOCK_ID_def\<close>)
  then show "fs_disk (mini_fs x)"
  proof (intro fs_diskI)
    fix k a assume k: "abs_fs (mini_fs x) k = Some a"
    show "di_type (disk_inode (mini_fs x) k) \<in> {T_DIR, T_FILE, T_DEVICE}"
      using mini_two[OF k] by (auto simp: mini_it_disk dinode.truncate_def mini_root_def mini_file_def)
    have "tree_at (mini_fs x) 1" "tree_at (mini_fs x) 2" by (rule t; simp add: mini_it_usable mini_it_bits)+
    then show "tree_at (mini_fs x) k" using mini_two[OF k] by blast
    show "IBLOCK j (mini_fs x) \<notin> blocks_at (mini_fs x) k" if "inum_ok (mini_fs x) j" for j
      using ib[OF that] unfolding c[OF k] by auto
    show "blocks_at (mini_fs x) k \<inter> blocks_at (mini_fs x) j = {}" if "abs_fs (mini_fs x) j = Some a'" "j \<noteq> k" for j a'
      using mini_two[OF k] mini_two[OF that(1)] that(2) unfolding c[OF k] c[OF that(1)] by auto
  next
    fix k assume "inum_ok (mini_fs x) k"
    then have "IBLOCK k (mini_fs x) \<in> {30, 31, 40, 41}" using ib by blast
    then show "usable (mini_fs x) (IBLOCK k (mini_fs x))" "bm_bit (mini_fs x) (unat (IBLOCK k (mini_fs x)))" by (rule us)+
  qed
qed

lemma mini_root_bytes: "j < 64 \<Longrightarrow> bytes_at (mini_fs x) 1 j = dirent_bytes nm_a 2 j"
proof -
  assume j: "j < 64"
  have d: "j div BSIZE = 0" "j mod BSIZE = j" using j by (simp_all add: BSIZE_def)
  have n: "node_at (mini_fs x) 1 (block_path 0) = 41" by (simp add: node_at_def mini_addrs block_path_def NDIRECT_def)
  show ?thesis using j unfolding bytes_at_def d n Let_def
    by (simp add: mini_it_ready(3) mini_it_fields mini_names_def dirent_size_def MAXFILE_BLOCKS_def NDIRECT_def)
qed

lemma mini_root_names: "af_bytes a = bytes_at (mini_fs x) 1 \<Longrightarrow> af_size a = 64 \<Longrightarrow> names_dir a = [[97] \<mapsto> 2] \<and> dir_form a"
proof -
  assume a: "af_bytes a = bytes_at (mini_fs x) 1" "af_size a = 64"
  have c: "slot_inum (af_bytes a) 0 = slot_inum (dirent_bytes nm_a 2) 0" "slot_name (af_bytes a) 0 = slot_name (dirent_bytes nm_a 2) 0"
    unfolding a by (rule slot_cong; simp add: mini_root_bytes dirent_size_def)+
  have s: "slot_inum (af_bytes a) 0 = 2" "slot_name (af_bytes a) 0 = [97]"
    unfolding c by (simp_all add: slot_inum_def slot_name_def dirent_bytes_entry names_ab)
  have "names_dir a nm = ([[97] \<mapsto> 2]) nm" for nm
    using s by (simp add: names_dir_def a(2) dirent_size_def slots_map_def slot_of_def find_from.simps)
  moreover have "dir_form a" by (simp add: dir_form_def a(2) dirent_size_def slots_distinct_def)
  ultimately show ?thesis by blast
qed

lemma mini_fs_ok: "fs_ok (mini_fs x)"
proof -
  have "names_ok (abs_fs (mini_fs x))"
    unfolding names_ok_def
  proof (intro conjI allI impI; (elim conjE)?)
    show "\<exists>a. abs_fs (mini_fs x) ROOTINO = Some a \<and> af_type a = T_DIR \<and> af_nlink a \<noteq> 0"
      using mini_afs(1)[of x] by (simp add: ROOTINO_def)
    fix k a assume k: "abs_fs (mini_fs x) k = Some a" "af_type a = T_DIR"
    have "k = 1" using mini_two[OF k(1)] k mini_afs(2)[of x] by (auto simp: T_DIR_def T_FILE_def)
    then have a: "af_bytes a = bytes_at (mini_fs x) 1" "af_size a = 64" using k mini_afs(1)[of x] by auto
    show "dir_form a" using mini_root_names[OF a] by blast
    show "\<exists>b. abs_fs (mini_fs x) j = Some b \<and> af_nlink b \<noteq> 0" if "names_dir a nm = Some j" for nm j
      using that mini_root_names[OF a] mini_afs(2)[of x] by (auto split: if_splits)
  qed
  then show ?thesis using mini_phys by (simp add: fs_ok_def)
qed

section \<open>Requests return, and what they return\<close>

text \<open>What \<open>begin_op\<close> asks for before a request that writes \<open>w\<close> blocks to the log and takes \<open>f\<close> free ones.\<close>

definition op_room :: "nat \<Rightarrow> nat \<Rightarrow> 'a itable_scheme \<Rightarrow> bool" where
  "op_room w f s \<longleftrightarrow> lh_n s + (lg_outstanding s + 1) * int MAXOPBLOCKS \<le> int NLOG \<and> 0 \<le> lg_outstanding s \<and>
    lh_n s + int w \<le> lg_size s - 1 \<and> w < 121 \<and> f \<le> card (free_blocks s)"

lemma begin_returns:
  assumes ok: "fs_phys s" and r: "op_room w f s" and l: "locks_in X s"
  obtains s' where "begin_op s = Inr ((), s')" "quota w f s'" "locks_in X s'"
proof -
  let ?s = "s\<lparr>lg_outstanding := lg_outstanding s + 1, n_log_wrote := 0\<rparr>"
  have b: "begin_op s = Inr ((), ?s)" using r fs_physD(5)[OF ok] by (simp add: begin_op_def op_room_def)
  have "bm_bit ?s = bm_bit s" by (simp add: bm_bit_def fun_eq_iff)
  then have "free_blocks ?s = free_blocks s" by (simp add: free_blocks_def)
  then have "quota w f ?s" using r by (simp add: quota_def op_room_def)
  moreover have "locks_in X ?s" using l by (simp add: locks_in_def)
  ultimately show ?thesis by (rule that[OF b])
qed

lemma end_returns:
  assumes ok: "fs_phys s" and l: "locks_in X s"
  obtains s' where "end_op s = Inr ((), s')" "locks_in X s'"
proof -
  note d = fs_physD[OF ok]
  have "\<exists>s'. end_op s = Inr ((), s')"
    using end_op_last[OF d(1,2) _ d(5)] end_op_other[OF d(1) _ d(5)] by (cases "lg_outstanding s = 1") (auto elim!: returnsE)
  then obtain s' where e: "end_op s = Inr ((), s')" by blast
  have "locks_in X s'" using fs_end_op(5,6)[OF ok e] l by (simp add: locks_in_def)
  then show ?thesis by (rule that[OF e])
qed

lemma getattr_returns:
  assumes ok: "fs_ok s" and z: "0 \<notin> set path" and sl: "path \<noteq> []" "hd path = slash" and l: "locks_in {} s" and sm: "small_dirs (abs_fs s)"
    and q: "op_room (12 * length (components path)) (4 * length (components path) + 1) s"
  shows "\<exists>r st' s'. myfuse_getattr path st s = Inr ((r, st'), s') \<and> locks_in {} s'"
proof -
  have ph: "fs_phys s" "names_ok (abs_fs s)" using ok by (simp_all add: fs_ok_def)
  obtain s1 where 1: "begin_op s = Inr ((), s1)" "quota (12 * length (components path) + 0) (4 * length (components path) + 1) s1" "locks_in {} s1"
    by (rule begin_returns[OF ph(1) q l]) simp
  note b = fs_begin_op[OF ph(1) 1(1)]
  have ok1: "fs_ok s1" using b ph by (simp add: fs_ok_def)
  have sm1: "small_dirs (abs_fs s1)" using sm b by simp
  obtain p s2 where 2: "path2inode path s1 = Inr (p, s2)" "quota 0 1 s2" "locks_in {} s2"
    using path_total(1)[OF ok1 z sl 1(3) sm1 1(2)] by auto
  note P = fs_path2inode[OF ok1 z 2(1)]
  have ph2: "fs_phys s2" using P by (simp add: fs_ok_def)
  show ?thesis
  proof (cases p)
    case None
    obtain s3 where "end_op s2 = Inr ((), s3)" "locks_in {} s3" by (rule end_returns[OF ph2 2(3)])
    then show ?thesis using 1(1) 2(1) None by (simp add: myfuse_getattr_def)
  next
    case (Some ip)
    then obtain k where k: "walk (abs_fs s) (components path) ROOTINO = Some k" "entry_of s2 k = Some ip" using P b by (auto split: option.splits)
    obtain a where a: "abs_fs s k = Some a" "af_nlink a \<noteq> 0" by (rule walk_root[OF ph(2) k(1)])
    have a2: "abs_fs s2 k = Some a" using a P b by simp
    have "ip < it_n s2" using k(2) entry_of_Some[OF fs_physD(6)[OF ph2]] by auto
    then have ul: "\<not> mi_locked (it_inode s2 ip)" using 2(3) by (auto simp: locks_in_def)
    obtain s3 where 3: "ilock ip s2 = Inr ((), s3)" by (rule ilock_returns[OF ph2 k(2) a2 ul])
    note L = fs_lock[OF ph2 k(2) a2 3] and Q = ilock_locks[OF ph2 k(2) a2 3 2(3,2)]
    have a3: "abs_fs s3 k = Some a" "entry_of s3 k = Some ip" using L a2 k(2) by simp_all
    obtain s4 where 4: "iunlockput ip s3 = Inr ((), s4)" "locks_in {} s4" "quota 0 1 s4" by (rule put_returns[OF L(1) a3(2,1) a(2) Q])
    note U = fs_put[OF L(1) a3(2,1) a(2) 4(1)]
    obtain s5 where "end_op s4 = Inr ((), s5)" "locks_in {} s5" by (rule end_returns[OF U(1) 4(2)])
    then show ?thesis using 1(1) 2(1) 3 4(1) Some by (simp add: myfuse_getattr_def Let_def)
  qed
qed

text \<open>
  C8: resolving a path implements walking along its elements in the map of the file system: it
  returns the entry of the inode the walk reaches with one more reference, or nothing and no
  reference when the walk ends early, and changes neither the files nor their order.
\<close>

theorem path2inode_refines:
  assumes "fs_ok s" "0 \<notin> set path" "path2inode path s = Inr (r, s')"
  shows "fs_ok s' \<and> abs_fs s' = abs_fs s \<and>
    (case walk (abs_fs s) (components path) ROOTINO of
       None \<Rightarrow> r = None \<and> refcount s' = refcount s
     | Some j \<Rightarrow> \<exists>jp. r = Some jp \<and> entry_of s' j = Some jp \<and> refcount s' = add_ref j 1 (refcount s))"
  by (rule fs_path2inode[OF assms])

theorem path2parentinode_refines:
  assumes "fs_ok s" "0 \<notin> set path" "path2parentinode path nm s = Inr ((r, nm'), s')"
  shows "fs_ok s' \<and> abs_fs s' = abs_fs s \<and>
    (case walk_parent (abs_fs s) (components path) ROOTINO of
       None \<Rightarrow> r = None \<and> refcount s' = refcount s
     | Some j \<Rightarrow> \<exists>jp. r = Some jp \<and> entry_of s' j = Some jp \<and> refcount s' = add_ref j 1 (refcount s) \<and>
         cname nm' = take DIRSIZE (last (components path)))"
  by (rule fs_path2parentinode[OF assms])

text \<open>
  C19: a getattr that returns answers ENOENT and leaves the buffer as it was when the path leads
  nowhere; when the path leads to a file it stores its number, size, links and block size, answers
  0 with the mode for a directory or a regular file, and answers ENOENT for a device inode; it
  leaves the file system and all references as they were.
\<close>

theorem getattr_refines:
  assumes "fs_ok s" "0 \<notin> set path" "myfuse_getattr path st s = Inr ((r, st'), s')"
  shows "fs_ok s' \<and> abs_fs s' = abs_fs s \<and> refcount s' = refcount s \<and>
    (case walk (abs_fs s) (components path) ROOTINO of
       None \<Rightarrow> r = - ENOENT \<and> st' = st
     | Some k \<Rightarrow> \<exists>a. abs_fs s k = Some a \<and> stat_of k a r st')"
  using fs_getattr[OF assms] by blast

text \<open>
  C23: on a file system in order whose directories fit into a block, with no inode locked, getattr
  of an absolute path returns and leaves no inode locked, when four blocks for each element of the
  path and one more are free, and the log can admit an operation and has room for twelve writes
  for each element, at most 120 in all, which means at most ten elements.
\<close>

theorem getattr_total:
  assumes "fs_ok s" "0 \<notin> set path" "path \<noteq> []" "hd path = slash" "locks_in {} s" "small_dirs (abs_fs s)"
    and "op_room (12 * length (components path)) (4 * length (components path) + 1) s"
  shows "\<exists>r st' s'. myfuse_getattr path st s = Inr ((r, st'), s') \<and> locks_in {} s'"
  by (rule getattr_returns[OF assms])

section \<open>The theorems at the small file system\<close>

definition path_a :: cpath where "path_a = [slash, 97]"
definition path_b :: cpath where "path_b = [slash, 97, slash, 98]"

abbreviation mini_req :: ftab where
  "mini_req \<equiv> mini_fs (ftab.fields 1 (\<lambda>_. static_file))"

lemma mini_paths: "components path_a = [[97]]" "components path_b = [[97], [98]]" "0 \<notin> set path_a" "0 \<notin> set path_b"
  "path_a \<noteq> []" "hd path_a = slash" "path_b \<noteq> []" "hd path_b = slash"
  by (simp_all add: components_def path_a_def path_b_def slash_def)

lemma mini_child: "child_of (abs_fs (mini_fs x)) e 1 = (if take DIRSIZE e = [97] then Some 2 else None)"
  using mini_afs(1)[of x] mini_root_names[of _ x] by (simp add: child_of_def)

lemma mini_walk: "walk (abs_fs (mini_fs x)) (components path_a) ROOTINO = Some 2" "walk (abs_fs (mini_fs x)) (components path_b) ROOTINO = None"
  "walk_parent (abs_fs (mini_fs x)) (components path_a) ROOTINO = Some 1"
proof -
  have "child_of (abs_fs (mini_fs x)) e 2 = None" for e using mini_afs(2)[of x] by (simp add: child_of_def T_FILE_def T_DIR_def)
  then show "walk (abs_fs (mini_fs x)) (components path_a) ROOTINO = Some 2" "walk (abs_fs (mini_fs x)) (components path_b) ROOTINO = None"
    using mini_child[of x] by (simp_all add: mini_paths ROOTINO_def DIRSIZE_def)
  show "walk_parent (abs_fs (mini_fs x)) (components path_a) ROOTINO = Some 1"
    using mini_afs(1)[of x] by (simp add: mini_paths walk_parent_def ROOTINO_def)
qed

lemma mini_small: "small_dirs (abs_fs (mini_fs x))" "locks_in X (mini_fs x)"
proof -
  have "unat (af_size a) \<le> BSIZE" if "abs_fs (mini_fs x) k = Some a" for k a
    using mini_two[OF that] that mini_afs(1,2)[of x] by (auto simp: BSIZE_def)
  then show "small_dirs (abs_fs (mini_fs x))" unfolding small_dirs_def by blast
  show "locks_in X (mini_fs x)" by (simp add: locks_in_def mini_it_fields static_inode_def)
qed

lemma mini_refs: "refcount (mini_fs x) k = 0"
proof -
  have "entry_of (mini_fs x) k = None" by (simp add: entry_of_def find_from_None mini_it_fields static_inode_def)
  then show ?thesis by (simp add: refcount_def)
qed

lemma mini_room_op: "w \<le> 39 \<Longrightarrow> f \<le> 16 \<Longrightarrow> op_room w f (mini_fs x)"
  using mini_it_inv(3)[of "\<lambda>_. static_inode" mini_names x] by (simp add: op_room_def mini_it_fields NLOG_def MAXOPBLOCKS_def)

theorem path2inode_refines_witness:
  "\<exists>jp s'. path2inode path_a (mini_fs ()) = Inr (Some jp, s') \<and> entry_of s' 2 = Some jp \<and> refcount s' 2 = 1 \<and> refcount s' 1 = 0"
proof -
  have q: "quota (12 * length (components path_a) + 0) (4 * length (components path_a) + 1) (mini_fs ())" by (simp add: mini_paths mini_quota)
  obtain r s' where run: "path2inode path_a (mini_fs ()) = Inr (r, s')"
    using path_total(1)[OF mini_fs_ok mini_paths(3,5,6) mini_small(2,1) q] by auto
  show ?thesis using path2inode_refines[OF mini_fs_ok mini_paths(3) run] run by (auto simp: mini_walk add_ref_def mini_refs)
qed

theorem path2parentinode_refines_witness:
  "\<exists>jp nm' s'. path2parentinode path_a (\<lambda>_. 0) (mini_fs ()) = Inr ((Some jp, nm'), s') \<and> entry_of s' 1 = Some jp \<and> cname nm' = [97]"
proof -
  have q: "quota (12 * length (components path_a) + 0) (4 * length (components path_a) + 1) (mini_fs ())" by (simp add: mini_paths mini_quota)
  obtain r nm' s' where run: "path2parentinode path_a (\<lambda>_. 0) (mini_fs ()) = Inr ((r, nm'), s')"
    using path_total(2)[OF mini_fs_ok mini_paths(3,5,6) mini_small(2,1) q] by blast
  show ?thesis using path2parentinode_refines[OF mini_fs_ok mini_paths(3) run, unfolded mini_walk] run by (auto simp: mini_paths DIRSIZE_def)
qed

lemma mini_getattr:
  obtains r st' s' where "myfuse_getattr path_a st mini_req = Inr ((r, st'), s')"
proof -
  have q: "op_room (12 * length (components path_a)) (4 * length (components path_a) + 1) mini_req" by (simp add: mini_paths mini_room_op)
  show ?thesis using getattr_returns[OF mini_fs_ok mini_paths(3,5,6) mini_small(2,1) q] that by blast
qed

theorem getattr_refines_witness:
  "\<exists>st st' s'. myfuse_getattr path_a st mini_req = Inr ((0, st'), s') \<and> st_ino st' = 2 \<and> st_size st' = 100 \<and> st_mode st' = S_IFREG"
proof -
  fix st
  obtain r st' s' where run: "myfuse_getattr path_a st mini_req = Inr ((r, st'), s')" by (rule mini_getattr)
  have "stat_of 2 \<lparr>af_type = T_FILE, af_nlink = 1, af_size = 100, af_perm = 0, af_bytes = bytes_at mini_req 2\<rparr> r st'"
    using getattr_refines[OF mini_fs_ok mini_paths(3) run] by (simp add: mini_walk mini_afs(2))
  then show ?thesis using run by (auto simp: stat_of_def T_FILE_def T_DIR_def)
qed

theorem getattr_total_witness:
  "\<exists>st r st' s'. myfuse_getattr path_b st mini_req = Inr ((r, st'), s') \<and> locks_in {} s'"
proof -
  have q: "op_room (12 * length (components path_b)) (4 * length (components path_b) + 1) mini_req" by (simp add: mini_paths mini_room_op)
  show ?thesis using getattr_total[OF mini_fs_ok mini_paths(4,7,8) mini_small(2,1) q] by blast
qed

end
