(* ===== verification/Inode_Trunc.thy ===== *)
theory Inode_Trunc
  imports Inode_File
begin

text \<open>
  Truncation to nothing, \<^verbatim>\<open>itrunc\<close> of \<^verbatim>\<open>inode.c\<close>: \<open>free_tree\<close> frees the blocks of one tree of index
  blocks while the index blocks on the way down are locked, and the whole operation frees exactly
  the blocks of the file.
\<close>

section \<open>The blocks below a path\<close>

definition under :: "(uint \<Rightarrow> block) \<Rightarrow> (nat \<Rightarrow> uint) \<Rightarrow> path \<Rightarrow> uint set" where
  "under v r p = node v r ` {q. tree_path q \<and> path_prefix p q \<and> node v r q \<noteq> 0}"

lemma underI: "tree_path q \<Longrightarrow> path_prefix p q \<Longrightarrow> node v r q \<noteq> 0 \<Longrightarrow> node v r q \<in> under v r p"
  unfolding under_def by blast

lemma underE:
  assumes "b \<in> under v r p"
  obtains q where "b = node v r q" "tree_path q" "path_prefix p q" "node v r q \<noteq> 0"
  using assms unfolding under_def by blast

lemma path_below:
  assumes "path_prefix p q"
  shows "q = p \<or> (\<exists>i. path_prefix (child p i) q \<and> (tree_path q \<longrightarrow> i < NINDIRECT1))"
proof -
  obtain js where q: "fst q = fst p" "snd q = snd p @ js" using assms by (auto simp: path_prefix_def prefix_def)
  show ?thesis
  proof (cases js)
    case (Cons i js')
    then have "path_prefix (child p i) q \<and> (tree_path q \<longrightarrow> i < NINDIRECT1)" using q by (auto simp: path_prefix_def child_def tree_path_def)
    then show ?thesis by blast
  qed (use q in \<open>auto simp: prod_eq_iff\<close>)
qed

lemma path_siblings: "path_prefix (child p i) q \<Longrightarrow> path_prefix (child p j) q \<Longrightarrow> i = j"
  by (auto simp: path_prefix_def child_def prefix_def)

lemma node_below_zero: "path_prefix p q \<Longrightarrow> node v r p = 0 \<Longrightarrow> node v r q = 0"
  using node_append[of v r "fst p" "snd p"] by (cases p, cases q) (auto simp: path_prefix_def prefix_def)

lemma under_zero: "node v r p = 0 \<Longrightarrow> under v r p = {}"
  unfolding under_def using node_below_zero by blast

lemma under_full:
  assumes "full_path p" "node v r p \<noteq> 0"
  shows "under v r p = {node v r p}"
proof -
  have "q = p" if "tree_path q" "path_prefix p q" for q
    using path_below[OF that(2)] that assms(1) by (auto simp: path_prefix_def child_def prefix_def tree_path_def full_path_def)
  then have "b = node v r p" if "b \<in> under v r p" for b using that by (elim underE) blast
  moreover have "node v r p \<in> under v r p" using assms by (intro underI) (simp_all add: full_path_def)
  ultimately show ?thesis by blast
qed

lemma under_index:
  assumes "tree_path p" "node v r p \<noteq> 0"
  shows "under v r p = insert (node v r p) (\<Union>i<NINDIRECT1. under v r (child p i))"
proof
  show "under v r p \<subseteq> insert (node v r p) (\<Union>i<NINDIRECT1. under v r (child p i))"
  proof
    fix b assume "b \<in> under v r p"
    then obtain q where q: "b = node v r q" "tree_path q" "path_prefix p q" "node v r q \<noteq> 0" by (rule underE)
    then show "b \<in> insert (node v r p) (\<Union>i<NINDIRECT1. under v r (child p i))" using path_below[OF q(3)] underI[OF q(2) _ q(4)] by blast
  qed
  have "b \<in> under v r p" if b: "b \<in> under v r (child p i)" for i b
  proof -
    obtain q where q: "b = node v r q" "tree_path q" "path_prefix (child p i) q" "node v r q \<noteq> 0" using b by (rule underE)
    then show ?thesis using underI[OF q(2) path_prefix_trans[OF path_prefix_child(1) q(3)] q(4)] by simp
  qed
  then show "insert (node v r p) (\<Union>i<NINDIRECT1. under v r (child p i)) \<subseteq> under v r p" using assms by (auto intro: underI)
qed

section \<open>Freeing a tree\<close>

text \<open>The step from \<open>s\<close> to \<open>s'\<close> frees the blocks \<open>B\<close> and nothing else.\<close>

definition freed :: "uint set \<Rightarrow> 'a bmap_scheme \<Rightarrow> uint set \<Rightarrow> 'a bmap_scheme \<Rightarrow> bool" where
  "freed X s B s' \<longleftrightarrow> log_ready X s' \<and> bm_inv s' \<and> (bm_ready s \<or> B \<noteq> {} \<longrightarrow> bm_ready s') \<and> held s' = held s \<and> bm_frame s' = bm_frame s \<and>
    (\<forall>j. bm_bit s' j \<longleftrightarrow> bm_bit s j \<and> j \<notin> unat ` B) \<and> (\<forall>c. usable s c \<longrightarrow> view s' c = view s c)"

lemma freedD:
  assumes "freed X s B s'"
  shows "log_ready X s'" "bm_inv s'" "bm_ready s \<Longrightarrow> bm_ready s'" "held s' = held s" "bm_frame s' = bm_frame s"
    "bm_bit s' j \<longleftrightarrow> bm_bit s j \<and> j \<notin> unat ` B" "usable s c \<Longrightarrow> view s' c = view s c" "usable s' = usable s"
  using assms usable_frame unfolding freed_def by blast+

lemma freed_refl: "log_ready X s \<Longrightarrow> bm_inv s \<Longrightarrow> freed X s {} s"
  by (simp add: freed_def)

lemma freed_trans: "freed X s B s1 \<Longrightarrow> freed X s1 C s2 \<Longrightarrow> freed X s (B \<union> C) s2"
  using usable_frame[of s1 s] unfolding freed_def by (auto simp: image_Un)

lemma freed_block:
  assumes "log_ready X s" "bm_inv s" "bm_bit s (unat b)" "usable s b" "block_free b s = Inr ((), s')"
  shows "freed X s {b} s'"
  using block_free_ok[OF assms] by (simp add: freed_def alloc_step_def)

lemma free_tree_ok:
  assumes p: "tree_path p" "depth (fst p) = length (snd p) + d" "node v r p \<noteq> 0"
    and nodes: "\<And>q. tree_path q \<Longrightarrow> path_prefix p q \<Longrightarrow> node v r q \<noteq> 0 \<Longrightarrow>
      usable s (node v r q) \<and> bm_bit s (unat (node v r q)) \<and> view s (node v r q) = v (node v r q)"
    and inj: "\<And>q q'. tree_path q \<Longrightarrow> tree_path q' \<Longrightarrow> node v r q \<noteq> 0 \<Longrightarrow> node v r q = node v r q' \<Longrightarrow> q = q'"
    and st: "log_ready X s" "bm_inv s" and run: "free_tree d (node v r p) s = Inr ((), s')"
  shows "freed X s (under v r p) s'"
  using p nodes st run
proof (induction d arbitrary: p s s')
  case 0
  have "full_path p" using 0 by (simp add: full_path_def)
  then show ?case using freed_block[OF 0(5,6) _ _ 0(7)[unfolded free_tree.simps]] 0(4)[OF 0(1)] 0(3) by (simp add: under_full)
next
  case (Suc d)
  let ?a = "node v r p" and ?U = "\<lambda>i. \<Union>j<i. under v r (child p j)"
  have a: "usable s ?a" "bm_bit s (unat ?a)" "view s ?a = v ?a" using Suc.prems(4)[OF Suc.prems(1)] Suc.prems(3) by simp_all
  have db: "data_block s ?a" using a by (simp add: usable_def)
  obtain h s1 s2 where rd: "logged_read ?a s = Inr (h, s1)"
    and loop: "foreach [0..<NINDIRECT1] (\<lambda>i s. if index_entry (buf_data s h) i \<noteq> 0 then free_tree d (index_entry (buf_data s h) i) s
        else Inr ((), s)) s1 = Inr ((), s2)" and fr: "block_free ?a (logged_relse h s2) = Inr ((), s')"
    using Suc.prems(7) by (auto simp: chain_eq_Inr)
  note 1 = lg.rd_law[OF Suc.prems(5) db rd]
  have X: "?a \<notin> X" using lg.mod_held[OF Suc.prems(5)] 1 by blast
  have fr1: "bm_frame s1 = bm_frame s" by (rule bm_frame_of_log_frame) (use 1 in blast)
  have same1: "bm_inv s1 = bm_inv s" "bm_ready s1 = bm_ready s" "bm_bit s1 = bm_bit s" using bm_same[of s1 s] 1 by simp_all
  have us1: "usable s1 = usable s" by (rule usable_frame[OF fr1])
  have nd: "usable s1 (node v r q)" "bm_bit s1 (unat (node v r q))" "view s1 (node v r q) = v (node v r q)"
    if "tree_path q" "path_prefix p q" "node v r q \<noteq> 0" for q using Suc.prems(4)[OF that] 1 same1 us1 by simp_all
  have out: "unat (node v r q) \<notin> unat ` ?U i" if q: "tree_path q" "node v r q \<noteq> 0" "q = p \<or> path_prefix (child p i) q" for q i
  proof
    assume "unat (node v r q) \<in> unat ` ?U i"
    then obtain j where j: "j < i" "node v r q \<in> under v r (child p j)" unfolding image_iff word_unat_eq_iff[symmetric] by blast
    then obtain q' where q': "node v r q = node v r q'" "tree_path q'" "path_prefix (child p j) q'" by (elim underE) blast
    have "q = q'" by (rule inj[OF q(1) q'(2) q(2) q'(1)])
    then show False using q(3) q'(3) j path_siblings[of p i q j] by auto
  qed
  have "ifok (foreach [0..<NINDIRECT1] (\<lambda>i s. if index_entry (buf_data s h) i \<noteq> 0 then free_tree d (index_entry (buf_data s h) i) s
        else Inr ((), s)) s1) (\<lambda>(u, t). freed X s1 (?U NINDIRECT1) t)"
  proof (rule foreach_upt_ifok)
    show "freed X s1 (?U 0) s1" using 1 same1 Suc.prems(6) by (simp add: freed_refl)
  next
    fix i t assume i: "i < NINDIRECT1" and t: "freed X s1 (?U i) t"
    note f = freedD[OF t]
    have "held t ?a = Some h" using f(4) 1 by simp
    then have "buf_data t h = v ?a" using lg.held_data[OF f(1)] f(7)[of ?a] nd[OF Suc.prems(1) path_prefix_refl Suc.prems(3)] by simp
    then have e: "index_entry (buf_data t h) i = node v r (child p i)" by (simp add: node_child follow_def Suc.prems(3))
    have c: "tree_path (child p i)" "depth (fst (child p i)) = length (snd (child p i)) + d"
      using Suc.prems(1,2) i by (simp_all add: tree_path_child full_path_def) (simp add: child_def)
    have U: "?U (Suc i) = ?U i \<union> under v r (child p i)" by (auto simp: less_Suc_eq)
    show "ifok (if index_entry (buf_data t h) i \<noteq> 0 then free_tree d (index_entry (buf_data t h) i) t else Inr ((), t)) (\<lambda>(u, t). freed X s1 (?U (Suc i)) t)"
    proof (cases "node v r (child p i) = 0")
      case True
      then show ?thesis unfolding U using t by (simp add: e under_zero)
    next
      case False
      have below: "usable t (node v r q) \<and> bm_bit t (unat (node v r q)) \<and> view t (node v r q) = v (node v r q)"
        if q: "tree_path q" "path_prefix (child p i) q" "node v r q \<noteq> 0" for q
        using nd[OF q(1) path_prefix_trans[OF path_prefix_child(1) q(2)] q(3)] out[OF q(1,3)] q(2) f(6)[of "unat (node v r q)"] f(7,8) by simp
      have "freed X t (under v r (child p i)) t'" if "free_tree d (node v r (child p i)) t = Inr ((), t')" for t'
        using Suc.IH[OF c False below f(1,2) that] .
      then show ?thesis unfolding U using freed_trans[OF t] False by (auto simp: e ifok_def)
    qed
  qed simp
  then have L: "freed X s1 (?U NINDIRECT1) s2" using loop by simp
  note f = freedD[OF L]
  have h2: "held s2 ?a = Some h" using f(4) 1 by simp
  note 4 = lg.rel_law[OF f(1) h2 X]
  have fr4: "bm_frame (logged_relse h s2) = bm_frame s2" by (rule bm_frame_of_log_frame) (use 4 in blast)
  have same4: "bm_inv (logged_relse h s2) = bm_inv s2" "bm_ready (logged_relse h s2) = bm_ready s2" "bm_bit (logged_relse h s2) = bm_bit s2"
    using bm_same[of "logged_relse h s2" s2] 4 by simp_all
  have "(held s)(?a := None) = held s" using 1 by (simp add: fun_upd_idem)
  then have "held (logged_relse h s2) = held s" using 4 f(4) 1 by simp
  then have F: "freed X s (?U NINDIRECT1) (logged_relse h s2)"
    using 4 L 1 same1 same4 fr1 fr4 us1 by (simp add: freed_def)
  have "bm_bit (logged_relse h s2) (unat ?a)" using out[OF Suc.prems(1,3), of NINDIRECT1] f(6) same1 same4 a by simp
  moreover have "usable (logged_relse h s2) ?a" using freedD(8)[OF F] a by simp
  ultimately have "freed X (logged_relse h s2) {?a} s'" using freed_block[OF _ _ _ _ fr] 4 same4 f(2) by simp
  from freed_trans[OF F this] show ?case using under_index[OF Suc.prems(1,3)] by simp
qed

section \<open>Truncating to nothing\<close>

definition file_blocks :: "'a itable_scheme \<Rightarrow> nat \<Rightarrow> uint set" where
  "file_blocks s ip = (\<Union>k<NBLOCKADDR. under (view s) (di_addrs (it_inode s ip)) (k, []))"

lemma file_blocks_node: "b \<in> file_blocks s ip \<longleftrightarrow> b \<noteq> 0 \<and> (\<exists>p. tree_path p \<and> inode_node s ip p = b)"
proof
  assume "b \<in> file_blocks s ip"
  then obtain k where "b \<in> under (view s) (di_addrs (it_inode s ip)) (k, [])" by (auto simp: file_blocks_def)
  then obtain q where "b = inode_node s ip q" "tree_path q" "inode_node s ip q \<noteq> 0" by (rule underE)
  then show "b \<noteq> 0 \<and> (\<exists>p. tree_path p \<and> inode_node s ip p = b)" by (intro conjI exI[of _ q]) simp_all
next
  assume "b \<noteq> 0 \<and> (\<exists>p. tree_path p \<and> inode_node s ip p = b)"
  then obtain p where p: "tree_path p" "inode_node s ip p = b" "b \<noteq> 0" by blast
  have "path_prefix (fst p, []) p" "fst p < NBLOCKADDR" using p(1) by (simp_all add: path_prefix_def tree_path_def)
  then show "b \<in> file_blocks s ip" using underI[OF p(1), of "(fst p, [])"] p by (auto simp: file_blocks_def)
qed

lemma free_root_ok:
  assumes ok: "file_ok s ip" and K: "freed {} s (\<Union>k<K. under (view s) (di_addrs (it_inode s ip)) (k, [])) t"
    and k: "K < NBLOCKADDR" "depth K = d" and run: "free_root ip d K t = Inr ((), t')"
  shows "freed {} s (\<Union>k<Suc K. under (view s) (di_addrs (it_inode s ip)) (k, [])) t'"
proof -
  let ?v = "view s" and ?r = "di_addrs (it_inode s ip)"
  let ?U = "\<lambda>K. \<Union>k<K. under ?v ?r (k, [])"
  note d = file_okD[OF ok] and f = freedD[OF K]
  have it: "it_inode t ip = it_inode s ip" using it_frame_of_bm_frame(2)[OF f(5)] by simp
  have U: "?U (Suc K) = ?U K \<union> under ?v ?r (K, [])" by (auto simp: less_Suc_eq)
  have tp: "tree_path (K, [])" using k by (simp add: tree_path_def)
  show ?thesis
  proof (cases "?r K = 0")
    case True
    then show ?thesis using run K by (simp add: U free_root_def it under_zero)
  next
    case False
    then have run': "free_tree d (node ?v ?r (K, [])) t = Inr ((), t')" using run by (simp add: free_root_def it)
    have nodes: "usable t (node ?v ?r q) \<and> bm_bit t (unat (node ?v ?r q)) \<and> view t (node ?v ?r q) = ?v (node ?v ?r q)"
      if q: "tree_path q" "path_prefix (K, []) q" "node ?v ?r q \<noteq> 0" for q
    proof -
      have "node ?v ?r q \<notin> ?U K"
      proof
        assume "node ?v ?r q \<in> ?U K"
        then obtain k' where k': "k' < K" "node ?v ?r q \<in> under ?v ?r (k', [])" by blast
        from k'(2) obtain q' where q': "node ?v ?r q = node ?v ?r q'" "tree_path q'" "path_prefix (k', []) q'" by (elim underE) blast
        have "q = q'" by (rule tree_okD(3)[OF d(5) q(1,3) q'(2,1)])
        then show False using q(2) q'(3) k'(1) by (simp add: path_prefix_def)
      qed
      then have "unat (node ?v ?r q) \<notin> unat ` ?U K" unfolding image_iff word_unat_eq_iff[symmetric] by blast
      then show ?thesis using tree_okD(1,2)[OF d(5) q(1,3)] f(6-8) by simp
    qed
    have inj: "q = q'" if "tree_path q" "tree_path q'" "node ?v ?r q \<noteq> 0" "node ?v ?r q = node ?v ?r q'" for q q'
      by (rule tree_okD(3)[OF d(5) that(1,3,2,4)])
    have dp: "depth (fst (K, [])) = length (snd (K, [])) + d" using k by simp
    have "freed {} t (under ?v ?r (K, [])) t'" by (rule free_tree_ok[OF tp dp _ nodes inj f(1,2) run']) (use False in simp_all)
    then show ?thesis unfolding U by (rule freed_trans[OF K])
  qed
qed

lemma itrunc_steps:
  assumes ok: "file_ok s ip" and run: "itrunc ip s = Inr ((), s')"
  obtains t where "freed {} s (file_blocks s ip) t"
    "iupdate ip (upd_inode ip (\<lambda>i. i\<lparr>di_addrs := (\<lambda>_. 0), di_size := 0\<rparr>) t) = Inr ((), s')"
proof -
  let ?U = "\<lambda>K. \<Union>k<K. under (view s) (di_addrs (it_inode s ip)) (k, [])"
  obtain t1 t2 t3 t4 where r: "foreach [0..<NDIRECT] (free_root ip 0) s = Inr ((), t1)" "free_root ip 1 NDIRECT t1 = Inr ((), t2)"
    "free_root ip 2 (NDIRECT + 1) t2 = Inr ((), t3)" "free_root ip 3 (NDIRECT + 2) t3 = Inr ((), t4)"
    "iupdate ip (upd_inode ip (\<lambda>i. i\<lparr>di_addrs := (\<lambda>_. 0), di_size := 0\<rparr>) t4) = Inr ((), s')"
    using run by (auto simp: itrunc_def chain_eq_Inr)
  have "ifok (foreach [0..<NDIRECT] (free_root ip 0) s) (\<lambda>(u, t). freed {} s (?U NDIRECT) t)"
  proof (rule foreach_upt_ifok)
    show "freed {} s (?U 0) s" using freed_refl file_okD[OF ok] by simp
    show "ifok (free_root ip 0 k t) (\<lambda>(u, t). freed {} s (?U (Suc k)) t)" if "k < NDIRECT" "freed {} s (?U k) t" for k t
      using free_root_ok[OF ok that(2), of 0] that(1) by (auto simp: ifok_def depth_def NBLOCKADDR_def)
  qed simp
  then have 1: "freed {} s (?U NDIRECT) t1" using r(1) by simp
  have 2: "freed {} s (?U (Suc NDIRECT)) t2" by (rule free_root_ok[OF ok 1 _ _ r(2)]) (simp_all add: depth_def NBLOCKADDR_def)
  have 3: "freed {} s (?U (Suc (Suc NDIRECT))) t3" by (rule free_root_ok[OF ok 2, of 2]) (use r(3) in \<open>simp_all add: depth_def NBLOCKADDR_def\<close>)
  have 4: "freed {} s (?U (Suc (Suc (Suc NDIRECT)))) t4" by (rule free_root_ok[OF ok 3, of 3]) (use r(4) in \<open>simp_all add: depth_def NBLOCKADDR_def eval_nat_numeral\<close>)
  have "NBLOCKADDR = Suc (Suc (Suc NDIRECT))" by (simp add: NBLOCKADDR_def)
  then show ?thesis using that[OF _ r(5)] 4 by (simp only: file_blocks_def)
qed

text \<open>
  C15: truncating a file to nothing frees exactly the blocks of its tree, data and index blocks at
  every depth, and no other block; the file is then empty, the invariant holds, and apart from the
  block of the inode no block of the file system and no other inode changes.
\<close>

theorem itrunc_frees:
  assumes ok: "file_ok s ip" and run: "itrunc ip s = Inr ((), s')"
  shows "file_ok s' ip \<and> di_size (it_inode s' ip) = 0 \<and> fdata s' ip = (\<lambda>_. zero_block) \<and>
    (\<forall>b. bm_bit s' (unat b) \<longleftrightarrow> bm_bit s (unat b) \<and> b \<notin> file_blocks s ip) \<and>
    (\<forall>c. usable s c \<and> c \<noteq> IBLOCK (mi_inum (it_inode s ip)) s \<longrightarrow> view s' c = view s c) \<and>
    (\<forall>j. j \<noteq> ip \<longrightarrow> it_inode s' j = it_inode s j)"
proof -
  obtain t where t: "freed {} s (file_blocks s ip) t"
    and up: "iupdate ip (upd_inode ip (\<lambda>i. i\<lparr>di_addrs := (\<lambda>_. 0), di_size := 0\<rparr>) t) = Inr ((), s')" by (rule itrunc_steps[OF ok run])
  let ?t = "upd_inode ip (\<lambda>i. i\<lparr>di_addrs := (\<lambda>_. 0), di_size := 0\<rparr>) t"
  note d = file_okD[OF ok] and f = freedD[OF t]
  note fr = it_frame_of_bm_frame[OF f(5)]
  note g = it_frameD[OF fr(1)]
  have ib: "IBLOCK (mi_inum (it_inode ?t ip)) ?t = IBLOCK (mi_inum (it_inode s ip)) s" by (simp add: fr(2) g(4))
  have us: "usable ?t (IBLOCK (mi_inum (it_inode ?t ip)) ?t)" unfolding ib using d(11) f(8) by simp
  have rt: "log_ready {} ?t" "bm_inv ?t" using f by simp_all
  obtain c where u: "log_ready {} s'" "held s' = held ?t" "it_frame s' = it_frame ?t" "bm_inv s'" "bm_ready s' = bm_ready ?t"
    "bm_bit s' = bm_bit ?t" "it_inode s' = (it_inode ?t)(ip := (it_inode ?t ip)\<lparr>di_ctime := c\<rparr>)"
    "view s' = (view ?t)(IBLOCK (mi_inum (it_inode ?t ip)) ?t :=
      put_dinode (view ?t (IBLOCK (mi_inum (it_inode ?t ip)) ?t)) (dinode_off (mi_inum (it_inode ?t ip))) (it_inode s' ip))"
    "n_log_wrote s' = n_log_wrote ?t + 1" "lh_n s' \<le> lh_n ?t + 1"
    by (rule iupdate_ok[OF rt us up])
  note h = it_frameD[OF u(3)]
  have z: "di_addrs (it_inode s' ip) = (\<lambda>_. 0)" by (simp add: u(7))
  have nz: "inode_node s' ip q = 0" for q unfolding z by (cases q) (simp add: node_def)
  have bits: "bm_bit s' (unat b) \<longleftrightarrow> bm_bit s (unat b) \<and> b \<notin> file_blocks s ip" for b
    using f(6)[of "unat b"] by (auto simp: u(6) image_iff word_unat_eq_iff[symmetric])
  let ?ib = "IBLOCK (mi_inum (it_inode s ip)) s"
  have ib': "IBLOCK (mi_inum (it_inode s' ip)) s' = ?ib" using ib by (simp add: u(7) h(4))
  have "?ib \<notin> file_blocks s ip" using d(13) by (auto simp: file_blocks_node simp del: split_paired_All split_paired_Ex)
  then have "own_block s' ip" unfolding own_block_def Let_def ib' using d(11,12) bits nz h(2) g(2) by (auto simp: usable_def data_block_def)
  moreover have "tree_ok s' ip" by (simp add: tree_ok_def nz)
  ultimately have "file_ok s' ip" using d f u g h by (simp add: file_ok_def addrs_ok_def fr(2))
  moreover have "fdata s' ip = (\<lambda>_. zero_block)" by (simp add: fdata_def fblock_def nz fun_eq_iff)
  moreover have "view s' c = view s c" if "usable s c" "c \<noteq> ?ib" for c using that f(7)[of c] unfolding u(8) ib by simp
  moreover have "it_inode s' j = it_inode s j" if "j \<noteq> ip" for j using that by (simp add: u(7) fr(2))
  ultimately show ?thesis using bits by (simp add: u(7))
qed

section \<open>On the small file system\<close>


lemma free_root_none: "(\<And>k. k \<in> set ks \<Longrightarrow> di_addrs (it_inode s ip) k = 0) \<Longrightarrow> foreach ks (free_root ip d) s = Inr ((), s)"
  by (induction ks) (simp_all add: free_root_def)

theorem itrunc_frees_witness:
  "\<exists>s'. itrunc 1 (mini_it mini_open (\<lambda>_. zero_block)) = Inr ((), s') \<and> bm_bit (mini_it mini_open (\<lambda>_. zero_block)) 40 \<and> \<not> bm_bit s' 40 \<and>
    di_size (it_inode s' 1) = 0"
proof -
  let ?s = "mini_it mini_open (\<lambda>_. zero_block)"
  have a: "di_addrs (it_inode ?s 1) = (\<lambda>k. if k = 0 then 40 else 0)" by (simp add: mini_it_fields mini_open_def mini_file_def)
  have b40: "bm_bit ?s 40" by (simp add: mini_it_bits)
  obtain t where t: "block_free 40 ?s = Inr ((), t)" "lh_n t \<le> 1"
    using block_free_returns[OF mini_it_ready(1) few_held_empty[OF mini_it_ready(2)] held_used_empty[OF mini_it_ready(2)] mini_it_inv(1),
        of mini_open "\<lambda>_. zero_block" "()" 40] by (auto simp: mini_it_fields BPB_def BSIZE_def)
  have us: "usable ?s 40" "usable ?s 30" by (simp_all add: mini_it_usable)
  have fr: "freed {} ?s {40} t" by (rule freed_block[OF mini_it_ready(1) mini_it_inv(1) _ us(1) t(1)]) (simp add: mini_it_bits)
  note f = freedD[OF fr]
  note g = it_frame_of_bm_frame[OF f(5)]
  have ns: "[0..<NDIRECT] = 0 # [1..<NDIRECT]" by (simp add: upt_conv_Cons NDIRECT_def)
  have at: "di_addrs (it_inode t 1) = (\<lambda>k. if k = 0 then 40 else 0)" using a g(2) by simp
  have "free_root 1 0 0 ?s = Inr ((), t)" using t(1) by (simp add: free_root_def a del: One_nat_def)
  moreover have "foreach [1..<NDIRECT] (free_root 1 0) t = Inr ((), t)" by (rule free_root_none) (simp add: at del: One_nat_def)
  ultimately have 1: "foreach [0..<NDIRECT] (free_root 1 0) ?s = Inr ((), t)" unfolding ns by simp
  have 2: "free_root 1 d (NDIRECT + k) t = Inr ((), t)" for d k by (simp add: free_root_def at NDIRECT_def del: One_nat_def)
  let ?t = "upd_inode 1 (\<lambda>i. i\<lparr>di_addrs := (\<lambda>_. 0), di_size := 0\<rparr>) t"
  have inum: "mi_inum (it_inode ?t 1) = 2" using g(2) by (simp add: mini_it_fields mini_open_def mini_file_def)
  have ib: "IBLOCK (mi_inum (it_inode ?t 1)) ?t = 30" unfolding inum using it_frameD(4)[OF g(1), of 2] mini_it_IBLOCK(2)[of mini_open "\<lambda>_. zero_block" "()"] by simp
  have rt: "log_ready {} ?t" "few_held ?t" using f(1,4) mini_it_ready(2)[of mini_open "\<lambda>_. zero_block" "()"] by simp_all
  have hd: "held ?t (IBLOCK (mi_inum (it_inode ?t 1)) ?t) = None" using f(4) mini_it_ready(2)[of mini_open "\<lambda>_. zero_block" "()"] by simp
  have db: "data_block ?t (IBLOCK (mi_inum (it_inode ?t 1)) ?t)" unfolding ib using us(2) it_frameD(1)[OF g(1)] by (simp add: usable_def)
  have rm: "lh_n ?t < lg_size ?t - 1" "1 \<le> lg_outstanding ?t" using t(2) it_frameD(6,7)[OF g(1)] by (simp_all add: mini_it_fields)
  obtain s' where 3: "iupdate 1 ?t = Inr ((), s')" using iupdate_returns[OF rt hd db rm] by blast
  have run: "itrunc 1 ?s = Inr ((), s')" using 1 2[of 1 0] 2[of 2 1] 2[of 3 2] 3 by (simp add: itrunc_def del: One_nat_def)
  have n: "40 \<in> file_blocks ?s 1"
    unfolding file_blocks_node by (intro conjI exI[of _ "(0, [])"]) (simp_all add: a tree_path_def NBLOCKADDR_def depth_def NDIRECT_def del: One_nat_def)
  have "\<not> bm_bit s' (unat (40 :: uint)) \<and> di_size (it_inode s' 1) = 0" using itrunc_frees[OF mini_file_ok run] n by blast
  then show ?thesis using run b40 by auto
qed

end
