(* ===== verification/Requests.thy ===== *)
theory Requests
  imports Name_Space Inode_Trunc
begin

text \<open>
  Requests that change the file system, as operations on the map \<open>abs_fs\<close>: writing an open inode,
  giving an inode number to a new file, and the handlers of \<^verbatim>\<open>file.c\<close> built on them.
\<close>

section \<open>Writing an open inode\<close>

lemma entry_file_sel:
  "af_type (entry_file s ip) = di_type (it_inode s ip)" "af_nlink (entry_file s ip) = di_nlink (it_inode s ip)"
  "af_size (entry_file s ip) = di_size (it_inode s ip)" "af_perm (entry_file s ip) = di_perm (it_inode s ip)"
  "af_bytes (entry_file s ip) = fbytes s ip"
  by (simp_all add: entry_file_def Let_def)

text \<open>
  After the fields of an open entry were changed by \<open>g\<close>, operations on the file that write the inode
  back at the end change the file system at this inode alone.
\<close>

definition field_change :: "(minode \<Rightarrow> minode) \<Rightarrow> bool" where
  "field_change g \<longleftrightarrow> (\<forall>i. mi_inum (g i) = mi_inum i \<and> mi_ref (g i) = mi_ref i \<and> mi_locked (g i) = mi_locked i \<and>
    mi_valid (g i) = mi_valid i \<and> di_addrs (g i) = di_addrs i \<and> di_type (g i) = di_type i)"

lemma field_changeD:
  assumes "field_change g"
  shows "mi_inum (g i) = mi_inum i" "mi_ref (g i) = mi_ref i" "mi_locked (g i) = mi_locked i" "mi_valid (g i) = mi_valid i"
    "di_addrs (g i) = di_addrs i" "di_type (g i) = di_type i"
  using assms by (simp_all add: field_change_def)

lemma changed_file_ok:
  assumes ok: "file_ok s ip" and g: "field_change g"
  shows "file_ok (upd_inode ip g s) ip" "fbytes (upd_inode ip g s) ip = fbytes s ip"
proof -
  let ?s = "upd_inode ip g s"
  note g = field_changeD[OF g]
  note d = file_okD[OF ok]
  have n: "inode_node ?s ip = inode_node s ip" using g by simp
  have t: "tree_ok ?s ip" using d(5) unfolding tree_ok_def n by simp
  have "own_block ?s ip" using d(6) unfolding own_block_def Let_def n by (simp add: g)
  then show "file_ok ?s ip" using d t by (simp add: file_ok_def addrs_ok_def g)
  show "fbytes ?s ip = fbytes s ip" by (rule fbytes_cong) (simp add: fdata_def fblock_def n fun_eq_iff g)
qed

lemma open_change:
  assumes ok: "fs_phys s" and o: "open_at s k ip" and g: "field_change g"
    and fk: "file_keep (upd_inode ip g s) s' ip" and sy: "synced s' ip"
  shows "fs_phys s'" "abs_fs s' = (abs_fs s)(k \<mapsto> entry_file s' ip)" "refcount s' = refcount s" "entry_of s' = entry_of s"
    "open_at s' k ip" "af_type (entry_file s' ip) = di_type (it_inode s ip)" "it_n s' = it_n s" "j \<noteq> ip \<Longrightarrow> it_inode s' j = it_inode s j"
    "geo s' = geo s"
proof -
  note gd = field_changeD[OF g]
  have e: "entry_of s k = Some ip" "mi_valid (it_inode s ip)" "mi_locked (it_inode s ip)" using o by (simp_all add: open_at_def)
  note st = fs_file_step[OF ok e(1,2) gd(1,2,3,5,6) fk sy]
  note f = file_keepD[OF fk]
  show "fs_phys s'" "abs_fs s' = (abs_fs s)(k \<mapsto> entry_file s' ip)" "refcount s' = refcount s" "entry_of s' = entry_of s"
    "af_type (entry_file s' ip) = di_type (it_inode s ip)" "geo s' = geo s" by (rule st)+
  show "it_n s' = it_n s" using it_frameD(5)[OF f(2)] by simp
  show "j \<noteq> ip \<Longrightarrow> it_inode s' j = it_inode s j" using f(4)[of j] by simp
  show "open_at s' k ip" using st(4) e f(1) sy metaD(3,4)[OF f(3)] by (simp add: open_at_def gd)
qed

lemma open_iupdate:
  assumes ok: "fs_phys s" and o: "open_at s k ip" and g: "field_change g" and run: "iupdate ip (upd_inode ip g s) = Inr (u, s')"
  shows "fs_phys s'" "abs_fs s' = (abs_fs s)(k \<mapsto> entry_file (upd_inode ip g s) ip)" "refcount s' = refcount s" "entry_of s' = entry_of s"
    "open_at s' k ip" "it_n s' = it_n s" "j \<noteq> ip \<Longrightarrow> it_inode s' j = it_inode s j" "geo s' = geo s"
proof -
  have fo: "file_ok s ip" using o by (simp add: open_at_def)
  note c = changed_file_ok[OF fo g]
  have run': "iupdate ip (upd_inode ip g s) = Inr ((), s')" using run by simp
  note u = iupdate_keep[OF c(1) run']
  note st = open_change[OF ok o g u(1) iupdate_synced[OF c(1) run']]
  have "entry_file s' ip = entry_file (upd_inode ip g s) ip"
    using file_keepD(3)[OF u(1)] fbytes_cong[OF u(2)] by (simp add: entry_file_def Let_def meta_def)
  then show "abs_fs s' = (abs_fs s)(k \<mapsto> entry_file (upd_inode ip g s) ip)" using st(2) by simp
  show "fs_phys s'" "refcount s' = refcount s" "entry_of s' = entry_of s" "open_at s' k ip" "it_n s' = it_n s"
    "j \<noteq> ip \<Longrightarrow> it_inode s' j = it_inode s j" "geo s' = geo s" using st by simp_all
qed

lemma open_write:
  assumes ok: "fs_phys s" and o: "open_at s k ip" and fits: "unat off + unat n < 2 ^ 64" and off: "\<not> off > MAXFILE_SIZE"
    and run: "inode_write_nbytes_locked ip data n off s = Inr (r, s')"
  shows "fs_phys s'" "abs_fs s' = (abs_fs s)(k \<mapsto> entry_file s' ip)" "refcount s' = refcount s" "entry_of s' = entry_of s" "open_at s' k ip"
    "r = int (min (unat n) (unat MAXFILE_SIZE - unat off))"
    "fbytes s' ip = upd_bytes (fbytes s ip) (unat off) (min (unat n) (unat MAXFILE_SIZE - unat off)) data"
    "unat (di_size (it_inode s' ip)) = max (unat (di_size (it_inode s ip))) (unat off + min (unat n) (unat MAXFILE_SIZE - unat off))"
    "di_type (it_inode s' ip) = di_type (it_inode s ip)" "di_nlink (it_inode s' ip) = di_nlink (it_inode s ip)"
    "di_perm (it_inode s' ip) = di_perm (it_inode s ip)" "it_n s' = it_n s" "j \<noteq> ip \<Longrightarrow> it_inode s' j = it_inode s j"
    "geo s' = geo s"
proof -
  have fo: "file_ok s ip" using o by (simp add: open_at_def)
  note W = write_steps[OF fo fits run off refl refl]
  have g: "field_change (grown off (clamped n off MAXFILE_SIZE))" by (simp add: field_change_def grown_def)
  note st = open_change[OF ok o g W(2,5)]
  show "fs_phys s'" "abs_fs s' = (abs_fs s)(k \<mapsto> entry_file s' ip)" "refcount s' = refcount s" "entry_of s' = entry_of s" "open_at s' k ip"
    "r = int (min (unat n) (unat MAXFILE_SIZE - unat off))"
    "fbytes s' ip = upd_bytes (fbytes s ip) (unat off) (min (unat n) (unat MAXFILE_SIZE - unat off)) data"
    "it_n s' = it_n s" "j \<noteq> ip \<Longrightarrow> it_inode s' j = it_inode s j" "geo s' = geo s"
    by (use st W in simp_all)
  note m = file_keepD(3)[OF W(2)]
  show "unat (di_size (it_inode s' ip)) = max (unat (di_size (it_inode s ip))) (unat off + min (unat n) (unat MAXFILE_SIZE - unat off))"
    using metaD(1)[OF m] W(4) by (simp add: grown_def word_less_nat_alt)
  show "di_type (it_inode s' ip) = di_type (it_inode s ip)" "di_nlink (it_inode s' ip) = di_nlink (it_inode s ip)"
    "di_perm (it_inode s' ip) = di_perm (it_inode s ip)" using m by (simp_all add: meta_def grown_def)
qed

section \<open>Giving an inode number to a file and taking it back\<close>

text \<open>A step that changes the inode \<open>k\<close> on the device and leaves the others and their blocks alone.\<close>

lemma inode_step:
  assumes ok: "fs_phys s" and io: "inum_ok s k" and fr: "usable s' = usable s" "fs_sb s' = fs_sb s"
    and di: "\<And>j. inum_ok s j \<Longrightarrow> j \<noteq> k \<Longrightarrow> disk_inode s' j = disk_inode s j"
    and bl: "\<And>j a b. abs_fs s j = Some a \<Longrightarrow> j \<noteq> k \<Longrightarrow> b \<in> blocks_at s j \<Longrightarrow> view s' b = view s b \<and> bm_bit s' (unat b)"
    and ib: "\<And>j. inum_ok s j \<Longrightarrow> bm_bit s' (unat (IBLOCK j s))" "bm_bit s' (unat SUPERBLOCK_ID)"
    and new: "di_type (disk_inode s' k) \<in> {T_UNUSE, T_DIR, T_FILE, T_DEVICE}" "\<And>p. tree_path p \<Longrightarrow> node_at s' k p = 0"
  shows "fs_disk s'" "j \<noteq> k \<Longrightarrow> abs_fs s' j = abs_fs s j"
proof -
  note d = fs_physD[OF ok]
  have iok: "inum_ok s' = inum_ok s" by (simp add: fun_eq_iff inum_ok_def fr)
  have ibl: "IBLOCK j s' = IBLOCK j s" for j by (simp add: IBLOCK_def fr)
  have b0: "blocks_at s' k = {}" using new(2) by (auto simp: blocks_at_def)
  have t0: "tree_at s' k" using new(2) unfolding tree_at_def by blast
  have sf: "tree_path q \<Longrightarrow> node_at s' j q = node_at s j q" "blocks_at s' j = blocks_at s j" "abs_fs s' j = abs_fs s j"
    if j: "abs_fs s j = Some a" "j \<noteq> k" for j a q
  proof -
    have "inum_ok s j" using j(1) by (simp add: abs_fs_Some)
    then have e: "disk_inode s' j = disk_inode s j" by (rule di[OF _ j(2)])
    have v: "\<And>b. b \<in> blocks_at s j \<Longrightarrow> view s' b = view s b" using bl[OF j] by blast
    show "tree_path q \<Longrightarrow> node_at s' j q = node_at s j q" "blocks_at s' j = blocks_at s j" "abs_fs s' j = abs_fs s j"
      using same_file[OF e v] fr(2) by simp_all
  qed
  show ab: "abs_fs s' j = abs_fs s j" if "j \<noteq> k" for j
  proof (cases "abs_fs s j")
    case None
    then show ?thesis using di[of j] that by (auto simp: abs_fs_def Let_def iok split: if_splits)
  qed (use sf(3) that in simp)
  have "super_ok s'"
  proof (rule super_okI; (unfold iok ibl fr(1))?)
    fix j a assume "abs_fs s' j = Some a"
    then show "SUPERBLOCK_ID \<notin> blocks_at s' j" using b0 ab[of j] sf(2)[of j a] d(19)[of j a] by (cases "j = k") simp_all
  qed (use d(16,18) ib(2) in simp_all)
  then show "fs_disk s'"
  proof (intro fs_diskI; (unfold iok ibl fr(1))?)
    fix j assume j: "inum_ok s j"
    show "usable s (IBLOCK j s)" by (rule d(10)[OF j])
    show "bm_bit s' (unat (IBLOCK j s))" by (rule ib(1)[OF j])
  next
    fix j a assume j: "abs_fs s' j = Some a"
    have old: "abs_fs s j = Some a" if "j \<noteq> k" using ab[OF that] j by simp
    have ty0: "di_type (disk_inode s' j) \<noteq> T_UNUSE" using j by (simp add: abs_fs_Some)
    show "di_type (disk_inode s' j) \<in> {T_DIR, T_FILE, T_DEVICE}"
    proof (cases "j = k")
      case False
      then have "inum_ok s j" using old by (simp add: abs_fs_Some)
      then show ?thesis using d(12)[OF old[OF False]] di[OF _ False] by simp
    qed (use new ty0 in auto)
    show "tree_at s' j"
    proof (cases "j = k")
      case False
      show ?thesis by (rule tree_at_cong[OF d(13)[OF old[OF False]] sf(1)[OF old[OF False] False] fr(1)])
          (simp_all add: bl[OF old[OF False] False])
    qed (use t0 in simp)
    show "IBLOCK l s \<notin> blocks_at s' j" if "inum_ok s l" for l
      using b0 d(14)[OF old that] sf(2)[OF old] by (cases "j = k") auto
    show "blocks_at s' j \<inter> blocks_at s' l = {}" if l: "abs_fs s' l = Some a'" "l \<noteq> j" for l a'
    proof (cases "j = k \<or> l = k")
      case False
      then have "abs_fs s l = Some a'" using ab[of l] l(1) by simp
      then show ?thesis using d(15)[OF old _ l(2)] sf(2)[OF old] sf(2)[of l a'] False by auto
    qed (use b0 in auto)
  qed
qed

text \<open>Taking an inode number that is not in use: \<open>ialloc\<close> fills the inode with zeros and sets its type.\<close>

lemma get_le_within:
  assumes "\<And>j. off \<le> j \<Longrightarrow> j < off + 256 \<Longrightarrow> d j = d' j" "m + n \<le> 256"
  shows "(get_le n d (off + m) :: 'a::len word) = get_le n d' (off + m)"
  by (rule get_le_cong) (use assms(2) in \<open>simp add: assms(1)\<close>)

lemma get_dinode_cong:
  assumes "\<And>j. off \<le> j \<Longrightarrow> j < off + 256 \<Longrightarrow> d j = d' j"
  shows "get_dinode d off i = get_dinode d' off i"
proof -
  note l = get_le_within[OF assms, simplified add.assoc]
  have l0: "get16 d off = get16 d' off" using l[where m = 0 and n = 2 and 'a = 16] by simp
  have "get_addrs d (off + 68) k = get_addrs d' (off + 68) k" for k
    using l[where m = "68 + 4 * k" and n = 4 and 'a = 32] by (simp add: get_addrs_def NBLOCKADDR_def NDIRECT_def add.assoc)
  then have a: "get_addrs d (off + 68) = get_addrs d' (off + 68)" by blast
  show ?thesis unfolding get_dinode_def get_time_def by (simp add: l l0 a add.assoc del: add_2_eq_Suc')
qed

lemma clear_zero:
  assumes "2 \<le> m" "m + n \<le> 256"
  shows "(get_le n (put16 (clear_dinode d off) off t) (off + m) :: 'a::len word) = 0"
proof -
  have "get_le n (put16 (clear_dinode d off) off t) (off + m) = (get_le n zero_block (off + m) :: 'a word)"
    by (rule get_le_cong) (use assms in \<open>simp add: put_le_def clear_dinode_def zero_block_def\<close>)
  then show ?thesis by simp
qed

lemma clear_dinode_get:
  "off + 256 \<le> off' \<or> off' + 256 \<le> off \<Longrightarrow> get_dinode (put16 (clear_dinode d off) off t) off' i = get_dinode d off' i"
  "disk_part (get_dinode (put16 (clear_dinode d off) off t) off i) = disk_part (static_inode\<lparr>di_type := t\<rparr>)"
proof -
  show "off + 256 \<le> off' \<or> off' + 256 \<le> off \<Longrightarrow> get_dinode (put16 (clear_dinode d off) off t) off' i = get_dinode d off' i"
    by (rule get_dinode_cong) (auto simp: put_le_def clear_dinode_def)
  let ?d = "put16 (clear_dinode d off) off t"
  have t: "get16 ?d off = t" by simp
  have "get_addrs ?d (off + 68) k = 0" for k
    using clear_zero[where m = "68 + 4 * k" and n = 4 and 'a = 32, of d off t] by (simp add: get_addrs_def NBLOCKADDR_def NDIRECT_def add.assoc)
  then have a: "get_addrs ?d (off + 68) = (\<lambda>_. 0)" by blast
  show "disk_part (get_dinode ?d off i) = disk_part (static_inode\<lparr>di_type := t\<rparr>)"
    unfolding get_dinode_def get_time_def by (simp add: clear_zero t a add.assoc static_inode_def zero_time_def dinode.truncate_def del: add_2_eq_Suc')
qed


text \<open>Reading a block and letting it go.\<close>

lemma fs_peek:
  fixes s :: "'a itable_scheme"
  assumes ok: "fs_phys s" and us: "usable s b" and run: "logged_read b s = Inr (h, s1)"
  shows "buf_data s1 h = view s b" "fs_phys (logged_relse h s1)" "abs_fs (logged_relse h s1) = abs_fs s"
    "refcount (logged_relse h s1) = refcount s" "entry_of (logged_relse h s1) = entry_of s" "it_inode (logged_relse h s1) = it_inode s"
    "it_n (logged_relse h s1) = it_n s" "fs_sb (logged_relse h s1) = fs_sb s"
    "geo (logged_relse h s1) = geo s"
proof -
  note d = fs_physD[OF ok]
  have db: "data_block s b" using us by (simp add: usable_def)
  note m = lg.read_release[OF d(1) db run]
  show "buf_data s1 h = view s b" by (rule m(1))
  let ?t = "logged_relse h s1"
  have f: "bm_frame ?t = bm_frame s" by (rule bm_frame_of_log_frame[OF m(5)])
  note it = it_frame_of_bm_frame[OF f] and same = bm_same[OF m(5)]
  note fr = it_frameD[OF it(1)]
  show "it_inode ?t = it_inode s" "it_n ?t = it_n s" "fs_sb ?t = fs_sb s" "geo ?t = geo s" using it fr geo_frame[OF it(1)] m by simp_all
  have v: "view ?t = view s" using m by simp
  have bi: "bm_inv ?t" "bm_ready ?t" "bm_bit ?t = bm_bit s" using same m d by simp_all
  note w = view_step[OF ok fun_cong[OF v] fr(2) bi(3) fr(3)]
  show "entry_of ?t = entry_of s" by (simp add: entry_of_def it fr fun_eq_iff)
  then show "refcount ?t = refcount s" by (simp add: refcount_def it fun_eq_iff split: option.split)
  have "table_wf ?t" "0 < it_n ?t" using d(6,7) by (simp_all add: table_wf_def it fr)
  then have "fs_table ?t" by (rule table_step[OF fs_tableD[OF ok] _ _ w(4,3)]) (simp_all add: it fr)
  then show "fs_phys ?t" using m d bi w(5) fr(8) by (intro fs_physI) (simp_all add: fs_base_def)
  show "abs_fs ?t = abs_fs s" by (rule w(4))
qed

definition new_file :: "short \<Rightarrow> afile" where
  "new_file t = \<lparr>af_type = t, af_nlink = 0, af_size = 0, af_perm = 0, af_bytes = (\<lambda>_. 0)\<rparr>"

lemma zero_addrs_node: "di_addrs (disk_inode s k) = (\<lambda>_. 0) \<Longrightarrow> node_at s k p = 0"
  by (simp add: node_at_def node_def)

lemma fs_take_inode:
  fixes s :: "'a itable_scheme"
  assumes ok: "fs_phys s" and io: "inum_ok s k" and free: "di_type (disk_inode s k) = T_UNUSE" and t: "t \<in> {T_DIR, T_FILE, T_DEVICE}"
    and rd: "logged_read (IBLOCK k s) s = Inr (h, s1)"
    and wr: "logged_write h (set_data h (put16 (clear_dinode (buf_data s1 h) (dinode_off k)) (dinode_off k) t) s1) = Inr ((), s2)"
  shows "fs_phys (logged_relse h s2)" "abs_fs (logged_relse h s2) = (abs_fs s)(k \<mapsto> new_file t)"
    "refcount (logged_relse h s2) = refcount s" "entry_of (logged_relse h s2) = entry_of s"
    "it_inode (logged_relse h s2) = it_inode s" "it_n (logged_relse h s2) = it_n s" "geo (logged_relse h s2) = geo s"
proof -
  note d = fs_physD[OF ok]
  let ?t = "logged_relse h s2"
  let ?b = "IBLOCK k s"
  let ?d = "put16 (clear_dinode (view s ?b) (dinode_off k)) (dinode_off k) t"
  have us: "usable s ?b" by (rule d(10)[OF io])
  have dat: "buf_data s1 h = view s ?b" by (rule fs_peek(1)[OF ok us rd])
  note m = modify_usable[OF d(1,3) us rd wr[unfolded dat]]
  note it = it_frame_of_bm_frame[OF m(4)]
  note fr = it_frameD[OF it(1)]
  show "it_inode ?t = it_inode s" "it_n ?t = it_n s" "geo ?t = geo s" using it fr geo_frame[OF it(1)] m(2) d(18)[OF io] by simp_all
  have ibl: "IBLOCK j ?t = IBLOCK j s" for j by (rule fr(4))
  have dk: "disk_inode ?t j = (if j = k then disk_part (static_inode\<lparr>di_type := t\<rparr>) else disk_inode s j)" for j
  proof (cases "j = k")
    case True
    then show ?thesis unfolding disk_inode_def ibl m(2) by (simp only: True fun_upd_same clear_dinode_get(2)) simp
  next
    case False
    show ?thesis
    proof (cases "IBLOCK j s = ?b")
      case True
      note sl = dinode_slots[OF True False]
      have "disk_inode ?t j = disk_part (get_dinode ?d (dinode_off j) static_inode)" unfolding disk_inode_def ibl m(2) by (simp add: True)
      also have "get_dinode ?d (dinode_off j) static_inode = get_dinode (view s ?b) (dinode_off j) static_inode"
        by (rule clear_dinode_get(1)) (use sl in auto)
      finally show ?thesis using False by (simp add: disk_inode_def True)
    next
      case F: False
      then show ?thesis using False by (simp add: disk_inode_def ibl m(2))
    qed
  qed
  have z: "di_addrs (disk_inode ?t k) = (\<lambda>_. 0)" by (simp add: dk dinode.truncate_def static_inode_def)
  have vb: "view ?t b = view s b" if "b \<noteq> ?b" for b using that m(2) by simp
  have nb: "b \<noteq> ?b" if "abs_fs s j = Some a" "b \<in> blocks_at s j" for j a b using d(14)[OF that(1) io] that(2) by auto
  have bl: "view ?t b = view s b \<and> bm_bit ?t (unat b)" if "abs_fs s j = Some a" "j \<noteq> k" "b \<in> blocks_at s j" for j a b
    using vb[OF nb[OF that(1,3)]] tree_at_blocks(2)[OF d(13)[OF that(1)] that(3)] m(7) by simp
  have di: "disk_inode ?t j = disk_inode s j" if "inum_ok s j" "j \<noteq> k" for j using dk that by simp
  have ty: "di_type (disk_inode ?t k) = t" by (simp add: dk dinode.truncate_def)
  have ib: "bm_bit ?t (unat (IBLOCK j s))" if "inum_ok s j" for j using d(11)[OF that] m(7) by simp
  have sb: "bm_bit ?t (unat SUPERBLOCK_ID)" using d(17) m(7) by simp
  have tt: "di_type (disk_inode ?t k) \<in> {T_UNUSE, T_DIR, T_FILE, T_DEVICE}" using ty t by auto
  note st = inode_step[OF ok io fr(2,3) di bl ib sb tt zero_addrs_node[OF z]]
  have kn: "abs_fs s k = None" using free by (simp add: abs_fs_def)
  have nt: "t \<noteq> T_UNUSE" using t by (auto simp: T_UNUSE_def T_DIR_def T_FILE_def T_DEVICE_def)
  have "bytes_at ?t k = (\<lambda>_. 0)" by (simp add: fun_eq_iff bytes_at_def zero_addrs_node[OF z])
  then have "abs_fs ?t k = Some (new_file t)"
    using io nt by (simp add: abs_fs_Some new_file_def inum_ok_def fr(3) dk) (simp add: dinode.truncate_def static_inode_def)
  then show ab: "abs_fs ?t = (abs_fs s)(k \<mapsto> new_file t)" using st(2) by auto
  show en: "entry_of ?t = entry_of s" by (simp add: entry_of_def it fr fun_eq_iff)
  then show "refcount ?t = refcount s" by (simp add: refcount_def it fun_eq_iff split: option.split)
  have wf: "table_wf ?t" "0 < it_n ?t" using d(6,7) by (simp_all add: table_wf_def it fr)
  have ft: "fs_table ?t"
    unfolding fs_table_def
  proof (intro conjI allI impI; (elim conjE)?)
    fix i assume i: "i < it_n ?t" "0 < mi_ref (it_inode ?t i)" "mi_valid (it_inode ?t i)"
    then have i': "i < it_n s" "mi_ref (it_inode s i) > 0" "mi_valid (it_inode s i)" by (simp_all add: it fr)
    have s: "synced s i" "abs_fs s (mi_inum (it_inode s i)) \<noteq> None" using d(8,9)[OF i'] by auto
    then have ne: "mi_inum (it_inode s i) \<noteq> k" using kn by auto
    show "synced ?t i" using s(1) ne by (simp add: synced_def it dk)
    show "abs_fs ?t (mi_inum (it_inode ?t i)) \<noteq> None" using s(2) ne by (simp add: ab it)
  qed (use wf in auto)
  show "fs_phys ?t" using m d ft st(1) fr(8) by (intro fs_physI) (simp_all add: fs_base_def)
qed

text \<open>\<open>ialloc\<close> takes a free number, gives it an empty file, and returns an entry for it.\<close>

lemma fs_ialloc_from:
  assumes "fs_phys s" "n = unat (sb_ninodes (fs_sb s))" "0 < inum" "t \<in> {T_DIR, T_FILE, T_DEVICE}"
    and "ialloc_from n t inum s = Inr (ip, s')"
  shows "\<exists>k. inum_ok s k \<and> abs_fs s k = None \<and> fs_phys s' \<and> abs_fs s' = (abs_fs s)(k \<mapsto> new_file t) \<and> entry_of s' k = Some ip \<and>
    refcount s' = add_ref k 1 (refcount s) \<and> geo s' = geo s \<and> (\<forall>j. j \<noteq> k \<longrightarrow> entry_of s' j = entry_of s j)"
  using assms
proof (induction n t inum s rule: ialloc_from.induct)
  case (1 n t inum s)
  note prems = "1.prems"
  let ?k = "word_of_nat inum :: uint"
  have lt: "inum < n" using prems(5) by (auto simp: ialloc_from.simps[of n] split: if_splits)
  have "n < 2 ^ 32" unfolding prems(2) using unsigned_less[of "sb_ninodes (fs_sb s)", where ?'a = nat] by simp
  then have u: "unat ?k = inum" using lt by (simp add: unsigned_of_nat take_bit_nat_eq_self)
  have io: "inum_ok s ?k" using lt prems(2,3) u by (simp add: inum_ok_def)
  have us: "usable s (IBLOCK ?k s)" by (rule fs_physD(10)[OF prems(1) io])
  obtain bp s1 where rd: "logged_read (IBLOCK ?k s) s = Inr (bp, s1)" using prems(5) lt by (auto simp: ialloc_from.simps[of n] chain_eq_Inr)
  note pk = fs_peek[OF prems(1) us rd]
  have ty: "get16 (buf_data s1 bp) (dinode_off ?k) = di_type (disk_inode s ?k)"
    by (simp add: pk(1) disk_inode_def dinode.truncate_def get_dinode_def)
  show ?case
  proof (cases "di_type (disk_inode s ?k) = T_UNUSE")
    case True
    then obtain s2 where wr: "logged_write bp (set_data bp (put16 (clear_dinode (buf_data s1 bp) (dinode_off ?k)) (dinode_off ?k) t) s1) = Inr ((), s2)"
      and g: "iget ?k (logged_relse bp s2) = Inr (ip, s')"
      using prems(5) lt rd ty by (auto simp: ialloc_from.simps[of n] chain_eq_Inr Let_def)
    note T = fs_take_inode[OF prems(1) io True prems(4) rd wr]
    note G = fs_iget[OF T(1) g]
    show ?thesis using io True G T by (intro exI[of _ ?k]) (auto simp: got_def add_ref_def abs_fs_def)
  next
    case False
    then have r: "ialloc_from n t (Suc inum) (logged_relse bp s1) = Inr (ip, s')"
      using prems(5) lt rd ty False unfolding ialloc_from.simps[of n t inum s] by simp
    have f: "get16 (buf_data s1 bp) (dinode_off ?k) \<noteq> T_UNUSE" using False ty by simp
    have "\<exists>k. inum_ok (logged_relse bp s1) k \<and> abs_fs (logged_relse bp s1) k = None \<and> fs_phys s' \<and>
      abs_fs s' = (abs_fs (logged_relse bp s1))(k \<mapsto> new_file t) \<and> entry_of s' k = Some ip \<and>
      refcount s' = add_ref k 1 (refcount (logged_relse bp s1)) \<and> geo s' = geo (logged_relse bp s1) \<and> (\<forall>j. j \<noteq> k \<longrightarrow> entry_of s' j = entry_of (logged_relse bp s1) j)"
      by (rule "1.IH"[OF lt rd _ refl f]) (use pk prems r in simp_all)
    moreover have "inum_ok (logged_relse bp s1) = inum_ok s" by (simp add: inum_ok_def pk fun_eq_iff)
    ultimately show ?thesis unfolding pk(3-5,9) by (simp add: fun_upd_def)
  qed
qed

lemma fs_ialloc:
  assumes "fs_phys s" "t \<in> {T_DIR, T_FILE, T_DEVICE}" "ialloc t s = Inr (ip, s')"
  obtains k where "inum_ok s k" "abs_fs s k = None" "fs_phys s'" "abs_fs s' = (abs_fs s)(k \<mapsto> new_file t)" "entry_of s' k = Some ip"
    "refcount s' = add_ref k 1 (refcount s)" "\<And>j. j \<noteq> k \<Longrightarrow> entry_of s' j = entry_of s j" "geo s' = geo s"
  using fs_ialloc_from[OF assms(1) refl _ assms(2), of 1 ip s'] assms(3) by (auto simp: ialloc_def)

section \<open>Open entries across steps\<close>

text \<open>What a step keeps that works on other inodes: the entries that are locked and hold their inode.\<close>

definition locks_kept :: "nat set \<Rightarrow> 'a itable_scheme \<Rightarrow> 'a itable_scheme \<Rightarrow> bool" where
  "locks_kept X s s' \<longleftrightarrow>
    (\<forall>i<it_n s. i \<notin> X \<and> mi_locked (it_inode s i) \<and> mi_valid (it_inode s i) \<longrightarrow>
      i < it_n s' \<and> mi_locked (it_inode s' i) \<and> mi_valid (it_inode s' i))"

lemma locks_keptI:
  assumes "\<And>i. i < it_n s \<Longrightarrow> i \<notin> X \<Longrightarrow> mi_locked (it_inode s i) \<Longrightarrow> mi_valid (it_inode s i) \<Longrightarrow>
    i < it_n s' \<and> mi_locked (it_inode s' i) \<and> mi_valid (it_inode s' i)"
  shows "locks_kept X s s'"
  using assms by (simp add: locks_kept_def)

lemma locks_kept_refl: "locks_kept X s s"
  by (simp add: locks_kept_def)

lemma locks_kept_trans: "locks_kept X s t \<Longrightarrow> locks_kept X t u \<Longrightarrow> locks_kept X s u"
  unfolding locks_kept_def by blast

lemma open_atI:
  assumes ok: "fs_phys s" and e: "entry_of s k = Some ip" and l: "mi_locked (it_inode s ip)" "mi_valid (it_inode s ip)"
  shows "open_at s k ip"
proof -
  note d = fs_physD[OF ok]
  have ip: "ip < it_n s" "mi_inum (it_inode s ip) = k" "mi_ref (it_inode s ip) > 0" using e entry_of_Some[OF d(6)] by auto
  have sy: "synced s ip" and "abs_fs s k \<noteq> None" using d(8,9) ip l(2) by blast+
  then obtain a where a: "abs_fs s k = Some a" by blast
  have io: "inum_ok s k" using a by (simp add: abs_fs_Some)
  note ed = entry_disk[OF sy ip(2)]
  have "core (it_inode s ip) = core (disk_inode s k)" using sy ip(2) by (simp add: synced_def)
  then have "addrs_ok (it_inode s ip)" using disk_addrs_ok[of s k] by (simp add: addrs_ok_def core_eq)
  moreover have "own_block s ip"
    using d(10,11)[OF io] d(14)[OF a io] unfolding own_block_def Let_def ip(2) ed(1) blocks_at_iff
    by (auto simp: usable_def data_block_def simp del: split_paired_All split_paired_Ex)
  ultimately have "file_ok s ip" using d l ed(2) d(13)[OF a] by (simp add: file_ok_def)
  then show ?thesis using e l sy by (simp add: open_at_def)
qed

lemma open_kept:
  assumes o: "open_at s k ip" and k: "locks_kept X s s'" "ip \<notin> X" and ok: "fs_phys s" "fs_phys s'" and e: "entry_of s' k = Some ip"
  shows "open_at s' k ip"
proof (rule open_atI[OF ok(2) e])
  have "ip < it_n s" by (rule open_entry(2)[OF ok(1) o])
  then show "mi_locked (it_inode s' ip)" "mi_valid (it_inode s' ip)" using o k unfolding locks_kept_def open_at_def by blast+
qed

lemma put_form:
  assumes ok: "fs_phys s" and e: "entry_of s k = Some ip" and a: "abs_fs s k = Some a" "af_nlink a \<noteq> 0"
    and run: "iunlockput ip s = Inr (u, s')"
  shows "s' = upd_inode ip (\<lambda>i. i\<lparr>mi_ref := mi_ref i - 1\<rparr>) (iunlock ip s)" "locks_kept {ip} s s'"
proof -
  note l = fs_iunlock[OF ok, of ip]
  have e': "entry_of (iunlock ip s) k = Some ip" "abs_fs (iunlock ip s) k = Some a" using l e a by simp_all
  show s': "s' = upd_inode ip (\<lambda>i. i\<lparr>mi_ref := mi_ref i - 1\<rparr>) (iunlock ip s)"
    using run iput_named[OF l(1) e' disjI1[OF a(2)]] by (simp add: iunlockput_def)
  show "locks_kept {ip} s s'" by (rule locks_keptI) (simp add: s' iunlock_def)
qed

lemma lock_kept:
  assumes ok: "fs_phys s" and e: "entry_of s k = Some ip" and a: "abs_fs s k = Some a" and run: "ilock ip s = Inr (u, s')"
  shows "locks_kept X s s'"
proof (rule locks_keptI)
  note l = fs_ilock[OF ok e a run]
  fix i assume "i < it_n s" "mi_locked (it_inode s i)" "mi_valid (it_inode s i)"
  then show "i < it_n s' \<and> mi_locked (it_inode s' i) \<and> mi_valid (it_inode s' i)" using l by (cases "i = ip") simp_all
qed

lemma got_kept:
  assumes ok: "fs_phys s" and run: "iget inum s = Inr (ip, s')"
  shows "locks_kept X s s'"
proof (rule locks_keptI)
  note d = fs_physD[OF ok]
  have g: "got s inum ip s' \<and> it_n s' \<in> {it_n s, 2 * it_n s}" using iget_got[OF d(6,7), of inum] run by simp
  fix i assume i: "i < it_n s" "mi_locked (it_inode s i)" "mi_valid (it_inode s i)"
  have n: "i < it_n s'" using g i(1) by auto
  show "i < it_n s' \<and> mi_locked (it_inode s' i) \<and> mi_valid (it_inode s' i)"
  proof (cases "i = ip")
    case False
    then show ?thesis using n g i by (simp add: got_def)
  next
    case True
    have r: "mi_ref (it_inode s i) > 0" using table_wfD(1,2)[OF d(6) i(1)] i(2) by force
    have e: "entry_of s' inum = Some ip" "table_wf s'" using g by (simp_all add: got_def)
    show ?thesis
    proof (cases "refcount s inum = 0")
      case False
      then show ?thesis using True g n i by (simp add: got_def)
    next
      case rc: True
      obtain f where "s' = upd_inode ip f s \<or> s' = upd_inode ip f (itable_grow s)" using iget_form[OF run] by blast
      have "mi_inum (it_inode s i) \<noteq> inum"
      proof
        assume "mi_inum (it_inode s i) = inum"
        then have "entry_of s inum = Some i" using entry_of_Some[OF d(6)] i(1) r by blast
        then show False using rc refcount_pos(1)[OF d(6), of inum] by simp
      qed
      moreover have "entry_of s' (mi_inum (it_inode s i)) = entry_of s (mi_inum (it_inode s i))" using g calculation by (simp add: got_def)
      moreover have "entry_of s (mi_inum (it_inode s i)) = Some i" using entry_of_Some[OF d(6)] i(1) r by blast
      ultimately have "mi_inum (it_inode s' i) = mi_inum (it_inode s i)" using entry_of_Some[OF e(2)] by metis
      moreover have "mi_inum (it_inode s' ip) = inum" using entry_of_Some[OF e(2)] e(1) by blast
      ultimately show ?thesis using True \<open>mi_inum (it_inode s i) \<noteq> inum\<close> by simp
    qed
  qed
qed

section \<open>Directories in a changed file system\<close>

lemma dir_formD:
  assumes "dir_form a"
  shows "dirent_size dvd unat (af_size a)" "unat (af_size a) < 2 ^ 31"
  using assms by (simp_all add: dir_form_def)

text \<open>A new file that is no name's, and a change of a file that keeps what the names need.\<close>

lemma names_ok_new:
  assumes ok: "names_ok fs" and k: "fs k = None" and d: "af_type a = T_DIR \<Longrightarrow> dir_form a \<and> names_dir a = Map.empty"
  shows "names_ok (fs(k \<mapsto> a))"
  unfolding names_ok_def
proof (intro conjI allI impI; (elim conjE)?)
  have r: "\<exists>a. fs ROOTINO = Some a \<and> af_type a = T_DIR \<and> af_nlink a \<noteq> 0" by (rule names_okD(1)[OF ok])
  then have "k \<noteq> ROOTINO" using k by auto
  then show "\<exists>b. (fs(k \<mapsto> a)) ROOTINO = Some b \<and> af_type b = T_DIR \<and> af_nlink b \<noteq> 0" using r by auto
  fix j b assume j: "(fs(k \<mapsto> a)) j = Some b" "af_type b = T_DIR"
  show "dir_form b" using j d names_okD(2)[OF ok, of j b] by (cases "j = k") auto
  fix nm l assume n: "names_dir b nm = Some l"
  have "j \<noteq> k" using j d n by auto
  then obtain c where "fs l = Some c" "af_nlink c \<noteq> 0" using names_okD(3)[OF ok, of j b] j n by auto
  then show "\<exists>c. (fs(k \<mapsto> a)) l = Some c \<and> af_nlink c \<noteq> 0" using k by (cases "l = k") auto
qed

lemma names_ok_change:
  assumes ok: "names_ok fs" and k: "fs k = Some a" "af_type b = af_type a" "af_nlink a \<noteq> 0 \<Longrightarrow> af_nlink b \<noteq> 0"
    and d: "af_type b = T_DIR \<Longrightarrow> dir_form b"
      "\<And>nm j. af_type b = T_DIR \<Longrightarrow> names_dir b nm = Some j \<Longrightarrow> names_dir a nm = Some j \<or> (\<exists>c. (fs(k \<mapsto> b)) j = Some c \<and> af_nlink c \<noteq> 0)"
  shows "names_ok (fs(k \<mapsto> b))"
proof -
  have keep: "\<exists>c. (fs(k \<mapsto> b)) l = Some c \<and> af_nlink c \<noteq> 0" if "fs l = Some c" "af_nlink c \<noteq> 0" for l c using that k by auto
  show ?thesis
    unfolding names_ok_def
  proof (intro conjI allI impI; (elim conjE)?)
    obtain r where r: "fs ROOTINO = Some r" "af_type r = T_DIR" "af_nlink r \<noteq> 0" using names_okD(1)[OF ok] by blast
    then show "\<exists>a. (fs(k \<mapsto> b)) ROOTINO = Some a \<and> af_type a = T_DIR \<and> af_nlink a \<noteq> 0" using k by auto
    fix j c assume j: "(fs(k \<mapsto> b)) j = Some c" "af_type c = T_DIR"
    show "dir_form c" using j d(1) names_okD(2)[OF ok, of j c] by (cases "j = k") auto
    fix nm l assume n: "names_dir c nm = Some l"
    show "\<exists>e. (fs(k \<mapsto> b)) l = Some e \<and> af_nlink e \<noteq> 0"
    proof (cases "j = k")
      case False
      then have "fs j = Some c" using j(1) by simp
      from names_okD(3)[OF ok this j(2) n] keep show ?thesis by blast
    next
      case True
      then have "c = b" using j by simp
      then have "names_dir a nm = Some l \<or> (\<exists>e. (fs(k \<mapsto> b)) l = Some e \<and> af_nlink e \<noteq> 0)" using d(2) j(2) n by blast
      then show ?thesis using names_okD(3)[OF ok k(1)] keep j(2) k(2) \<open>c = b\<close> by metis
    qed
  qed
qed

lemma names_dir_cong: "af_bytes b = af_bytes a \<Longrightarrow> af_size b = af_size a \<Longrightarrow> names_dir b = names_dir a \<and> dir_form b = dir_form a"
  by (simp add: names_dir_def dir_form_def)

lemma empty_dir: "names_dir (new_file t) = Map.empty" "dir_form (new_file t)"
  by (simp_all add: names_dir_def dir_form_def new_file_def slots_map_def slot_of_def find_from.simps slots_distinct_def fun_eq_iff)

text \<open>Giving back a reference that was just taken.\<close>

lemma fs_get_put:
  assumes ok: "fs_phys s" and g: "iget inum s = Inr (ip, s1)" and p: "iput ip s1 = Inr (u, s')"
  shows "fs_phys s'" "abs_fs s' = abs_fs s" "refcount s' = refcount s" "entry_of s' = entry_of s" "locks_kept X s s'"
    "geo s' = geo s"
proof -
  note d = fs_physD[OF ok]
  note G = fs_iget[OF ok g]
  note i = iput_got[OF G(3) d(6) p]
  have ip: "entry_of s1 inum = Some ip" "refcount s1 = (refcount s)(inum := refcount s inum + 1)" using G(3) by (simp_all add: got_def)
  note r1 = iput_got_returns(2)[OF G(3)]
  have pos: "0 \<le> refcount s inum" by (rule refcount_pos(2)[OF d(6)])
  show "fs_phys s'" "abs_fs s' = abs_fs s"
  proof -
    have "fs_phys (upd_inode ip (\<lambda>i. i\<lparr>mi_ref := mi_ref i - 1\<rparr>) s1) \<and> abs_fs (upd_inode ip (\<lambda>i. i\<lparr>mi_ref := mi_ref i - 1\<rparr>) s1) = abs_fs s1"
      using fs_upd[OF G(1), of ip "\<lambda>i. i\<lparr>mi_ref := mi_ref i - 1\<rparr>"] i(1,2) r1 pos by (simp add: core_eq)
    then show "fs_phys s'" "abs_fs s' = abs_fs s" using i(1) G(2) by simp_all
  qed
  show rc: "refcount s' = refcount s" by (rule i(3))
  show "entry_of s' = entry_of s"
  proof
    fix j
    have it: "mi_inum (it_inode s' l) = mi_inum (it_inode s1 l)" "it_n s' = it_n s1" for l by (simp_all add: i(1))
    show "entry_of s' j = entry_of s j"
    proof (cases "entry_of s j")
      case None
      then have "refcount s j = 0" by (simp add: refcount_def)
      then show ?thesis using None refcount_pos(1)[OF i(2), of j] rc by simp
    next
      case (Some l)
      have pj: "refcount s j > 0" using refcount_pos(1)[OF d(6), of j] Some by simp
      have e1: "entry_of s1 j = Some l" using G(3) Some pj by (cases "j = inum") (simp_all add: got_def)
      have a: "l < it_n s1" "mi_inum (it_inode s1 l) = j" using e1 entry_of_Some[of s1 j l] G(3) by (simp_all add: got_def)
      obtain m where m: "entry_of s' j = Some m" using refcount_pos(1)[OF i(2), of j] rc pj by auto
      then have b: "m < it_n s1" "mi_inum (it_inode s1 m) = j" "mi_ref (it_inode s' m) > 0"
        using entry_of_Some[OF i(2), of j m] it by auto
      have "mi_ref (it_inode s1 m) > 0" using b(3) by (simp add: i(1) split: if_splits)
      then have "entry_of s1 j = Some m" using entry_of_Some[of s1 j m] G(3) b by (simp add: got_def)
      then show ?thesis using m e1 Some by simp
    qed
  qed
  show "geo s' = geo s" using G(4) by (simp add: i(1))
  have "locks_kept X s1 s'" by (rule locks_keptI) (auto simp: i(1))
  then show "locks_kept X s s'" by (rule locks_kept_trans[OF got_kept[OF ok g]])
qed

lemma keep_locks:
  assumes ok: "fs_phys s" and fk: "file_keep s s' ip"
  shows "locks_kept X s s'"
proof (rule locks_keptI)
  note f = file_keepD[OF fk]
  fix i assume i: "i < it_n s" "mi_locked (it_inode s i)" "mi_valid (it_inode s i)"
  show "i < it_n s' \<and> mi_locked (it_inode s' i) \<and> mi_valid (it_inode s' i)"
    using i keep_table(1)[OF fk fs_physD(6)[OF ok]] metaD[OF f(3)] f(4)[of i] by (cases "i = ip") simp_all
qed

text \<open>Adding a name: the directory is the only file that changes.\<close>

lemma fs_dirlink:
  assumes ok: "fs_ok s" and o: "open_at s p dp" and a: "abs_fs s p = Some a" "af_type a = T_DIR"
    and inum: "inum \<noteq> 0" and room: "unat (af_size a) + dirent_size < 2 ^ 31" and run: "dirlink dp nm inum s = Inr (r, s')"
  shows "fs_phys s' \<and> refcount s' = refcount s \<and> entry_of s' = entry_of s \<and> locks_kept X s s' \<and> geo s' = geo s \<and>
    (case names_dir a (cname nm) of
       Some _ \<Rightarrow> r = -1 \<and> abs_fs s' = abs_fs s
     | None \<Rightarrow> r = 0 \<and> (\<exists>b. abs_fs s' = (abs_fs s)(p \<mapsto> b) \<and> names_dir b = (names_dir a)(cname nm \<mapsto> inum) \<and> dir_form b \<and>
         af_type b = T_DIR \<and> af_nlink b = af_nlink a \<and> af_perm b = af_perm a \<and>
         unat (af_size b) \<le> unat (af_size a) + dirent_size))"
proof -
  have ph: "fs_phys s" using ok by (simp add: fs_ok_def)
  note D = open_dir_ok[OF ok o a]
  have eo: "entry_of s p = Some dp" "mi_valid (it_inode s dp)" "mi_locked (it_inode s dp)" using o by (simp_all add: open_at_def)
  have en: "a = entry_file s dp" using open_entry(1)[OF ph o] a by simp
  have sz: "af_size a = di_size (it_inode s dp)" by (simp add: en entry_file_sel)
  have room': "unat (di_size (it_inode s dp)) + dirent_size < 2 ^ 31" using room sz by simp
  note R = dirlink_result[OF D(1) inum room' run]
  show ?thesis
  proof (cases rule: dirlink_steps[OF D(1) run, case_names found new])
    case (found k ip s0 s1)
    note st = fs_keep_step[OF ph eo(1,2) found(3,4,7)]
    note lk = keep_locks[OF ph found(3)]
    note t = fs_get_put[OF st(1) found(8,9)]
    have "names_dir a (cname nm) \<noteq> None" using found(1) D(2)[symmetric] by (simp add: slots_map_def dir_of_def)
    then show ?thesis using t st found(2) locks_kept_trans[OF lk t(5)] by auto
  next
    case (new k s2 x)
    note st = fs_keep_step[OF ph eo(1,2) new(4,5,7)]
    note kp = keep_locks[OF ph new(4)]
    have o2: "open_at s2 p dp"
      by (rule open_atI[OF st(1)]) (use st(4) eo metaD[OF file_keepD(3)[OF new(4)]] in simp_all)
    note dd = dir_okD[OF D(1)]
    have kn: "k \<le> dir_slots s dp" unfolding new(3) by (auto dest: find_from_Some split: option.splits)
    have k31: "dirent_size * Suc k < 2 ^ 31" using room' mult_le_mono2[OF kn, of dirent_size] unfolding dd(7) mult_Suc_right by linarith
    let ?off = "word_of_nat (dirent_size * k) :: size_t" and ?n = "word_of_nat dirent_size :: size_t"
    have u: "unat ?off = dirent_size * k" "unat ?n = dirent_size" unfolding unsigned_of_nat using k31
      by (simp_all add: take_bit_nat_eq_self dirent_size_def)
    have fits: "unat ?off + unat ?n < 2 ^ 64" using k31 unfolding u by simp
    have le: "\<not> ?off > MAXFILE_SIZE" using k31 u by (simp add: word_less_nat_alt unat_MAXFILE_SIZE map_sizes BSIZE_def)
    note W = open_write[OF st(1) o2 fits le new(9)]
    have lk: "locks_kept X s2 s'"
    proof (rule locks_keptI)
      fix i assume i: "i < it_n s2" "mi_locked (it_inode s2 i)" "mi_valid (it_inode s2 i)"
      show "i < it_n s' \<and> mi_locked (it_inode s' i) \<and> mi_valid (it_inode s' i)"
        using i W(5,12,13) by (cases "i = dp") (simp_all add: open_at_def)
    qed
    have a': "entry_file s dp = a" using en by simp
    let ?b = "entry_file s' dp"
    have ab: "abs_fs s' = (abs_fs s)(p \<mapsto> ?b)" using W(2) st(2) by simp
    have nm: "names_dir ?b = dir_of s' dp" by (simp add: names_dir_def dir_of_def dir_slots_def entry_file_sel)
    have na: "names_dir a (cname nm) = None" using new(1) D(2)[symmetric] by (simp add: dir_of_def slots_map_def)
    have ndo: "dir_of s' dp = (dir_of s dp)(cname nm \<mapsto> inum)" using R na D(2) by simp
    have "dir_ok s' dp" using R by blast
    then have df: "dir_form ?b" using dir_okD(4-6)[of s' dp] by (simp add: dir_form_def entry_file_sel dir_slots_def)
    have szb: "unat (af_size ?b) \<le> unat (af_size a) + dirent_size" using R sz by (simp add: entry_file_sel)
    have mt: "af_type ?b = T_DIR" "af_nlink ?b = af_nlink a" "af_perm ?b = af_perm a"
      using W(9-11) metaD[OF file_keepD(3)[OF new(4)]] a(2) file_keepD(3)[OF new(4)] by (simp_all add: en entry_file_sel meta_def)
    show ?thesis
      using W(1,3,4,14) st(3,4,5) locks_kept_trans[OF kp lk] na new(2) ab nm ndo D(2) df mt szb by auto
  qed
qed

section \<open>Freeing a file with its last reference\<close>

lemma file_blocks_at: "synced s ip \<Longrightarrow> mi_inum (it_inode s ip) = k \<Longrightarrow> file_blocks s ip = blocks_at s k"
  using entry_disk(1)[of s ip k] by (auto simp: file_blocks_node blocks_at_iff simp del: split_paired_All split_paired_Ex)

lemma fs_free:
  assumes ok: "fs_phys s" and e: "entry_of s k = Some ip" and a: "abs_fs s k = Some a" "af_nlink a = 0"
    and r: "mi_ref (it_inode s ip) = 1" "mi_valid (it_inode s ip)" and run: "iput ip s = Inr (u, s')"
  shows "fs_phys s'" "abs_fs s' = (abs_fs s)(k := None)" "refcount s' = (refcount s)(k := 0)" "entry_of s' = (entry_of s)(k := None)"
    "locks_kept {ip} s s'" "it_n s' = it_n s" "geo s' = geo s"
proof -
  note d = fs_physD[OF ok]
  have ip: "ip < it_n s" "mi_inum (it_inode s ip) = k" using e entry_of_Some[OF d(6)] by auto
  have sy: "synced s ip" using d(8) ip r by simp
  have nl: "di_nlink (it_inode s ip) = 0" using a sy ip(2) by (simp add: abs_fs_Some synced_def core_eq)
  let ?s = "upd_inode ip (mi_locked_update (\<lambda>_. True)) s"
  obtain s2 s3 where ul: "\<not> mi_locked (it_inode s ip)" and tr: "itrunc ip ?s = Inr ((), s2)"
    and up: "iupdate ip (upd_inode ip (di_type_update (\<lambda>_. T_UNUSE)) s2) = Inr ((), s3)"
    and s': "s' = upd_inode ip (\<lambda>i. i\<lparr>mi_ref := mi_ref i - 1\<rparr>) (iunlock ip (upd_inode ip (mi_valid_update (\<lambda>_. False)) s3))"
    using run r nl by (auto simp: iput_def Let_def chain_eq_Inr lock_inode_def split: if_splits)
  have wf: "table_wf ?s"
  proof (rule table_wfI)
    fix i assume i: "i < it_n ?s"
    show "0 \<le> mi_ref (it_inode ?s i)" using table_wfD(1)[OF d(6), of i] i by (cases "i = ip") simp_all
    show "\<not> mi_locked (it_inode ?s i)" if "mi_ref (it_inode ?s i) = 0"
      using table_wfD(2)[OF d(6), of i] i that r(1) by (cases "i = ip") simp_all
    show "i = j" if "j < it_n ?s" "mi_ref (it_inode ?s i) > 0" "mi_ref (it_inode ?s j) > 0" "mi_inum (it_inode ?s i) = mi_inum (it_inode ?s j)" for j
      using table_wfD(3)[OF d(6), of i j] i that by (simp split: if_splits)
  qed
  have ph: "fs_phys ?s" "abs_fs ?s = abs_fs s" by (rule fs_upd[OF ok wf]; simp add: core_eq)+
  have mm: "mi_inum (it_inode ?s i) = mi_inum (it_inode s i)" "mi_ref (it_inode ?s i) = mi_ref (it_inode s i)" for i by simp_all
  have "entry_of ?s = entry_of s" unfolding entry_of_def mm by simp
  then have o: "open_at ?s k ip" by (intro open_atI[OF ph(1)]) (use e r in simp_all)
  then have fo: "file_ok ?s ip" by (simp add: open_at_def)
  have io: "inum_ok s k" using a by (simp add: abs_fs_Some)
  obtain t where t: "freed {} ?s (file_blocks ?s ip) t"
    and up1: "iupdate ip (upd_inode ip (\<lambda>i. i\<lparr>di_addrs := (\<lambda>_. 0), di_size := 0\<rparr>) t) = Inr ((), s2)" by (rule itrunc_steps[OF fo tr])
  let ?t = "upd_inode ip (\<lambda>i. i\<lparr>di_addrs := (\<lambda>_. 0), di_size := 0\<rparr>) t"
  note f = freedD[OF t]
  note fr = it_frame_of_bm_frame[OF f(5)]
  note g = it_frameD[OF fr(1)]
  have fb: "file_blocks ?s ip = blocks_at s k"
  proof -
    have di: "disk_inode ?s = disk_inode s" by (rule disk_inode_cong) simp_all
    then have "synced ?s ip" using sy by (simp add: synced_def core_eq)
    then have "file_blocks ?s ip = blocks_at ?s k" using ip(2) by (intro file_blocks_at) simp_all
    then show ?thesis by (simp add: blocks_at_def node_at_def di)
  qed
  let ?ib = "IBLOCK k s"
  have i2: "it_inode t = it_inode ?s" by (rule fr(2))
  have ibt: "IBLOCK j ?t = IBLOCK j s" for j by (simp add: g(4))
  have ib1: "IBLOCK (mi_inum (it_inode ?t ip)) ?t = ?ib" by (simp add: i2 ip(2) g(4))
  have us: "usable ?t (IBLOCK (mi_inum (it_inode ?t ip)) ?t)" unfolding ib1 using d(10)[OF io] f(8) by simp
  have rt: "log_ready {} ?t" "bm_inv ?t" using f by simp_all
  obtain c where u: "log_ready {} s2" "held s2 = held ?t" "it_frame s2 = it_frame ?t" "bm_inv s2" "bm_ready s2 = bm_ready ?t"
    "bm_bit s2 = bm_bit ?t" "it_inode s2 = (it_inode ?t)(ip := (it_inode ?t ip)\<lparr>di_ctime := c\<rparr>)"
    "view s2 = (view ?t)(IBLOCK (mi_inum (it_inode ?t ip)) ?t :=
      put_dinode (view ?t (IBLOCK (mi_inum (it_inode ?t ip)) ?t)) (dinode_off (mi_inum (it_inode ?t ip))) (it_inode s2 ip))"
    "n_log_wrote s2 = n_log_wrote ?t + 1" "lh_n s2 \<le> lh_n ?t + 1"
    by (rule iupdate_ok[OF rt us up1])
  let ?u = "upd_inode ip (di_type_update (\<lambda>_. T_UNUSE)) s2"
  note h = it_frameD[OF u(3)]
  have iu: "mi_inum (it_inode ?u ip) = k" by (simp add: u(7) i2 ip(2))
  have ib2: "IBLOCK (mi_inum (it_inode ?u ip)) ?u = ?ib" unfolding iu by (simp add: h(4) g(4))
  have us2: "usable ?u (IBLOCK (mi_inum (it_inode ?u ip)) ?u)" unfolding ib2 using d(10)[OF io] f(8) h(2) by simp
  have ru: "log_ready {} ?u" "bm_inv ?u" using u by simp_all
  obtain c' where v: "log_ready {} s3" "held s3 = held ?u" "it_frame s3 = it_frame ?u" "bm_inv s3" "bm_ready s3 = bm_ready ?u"
    "bm_bit s3 = bm_bit ?u" "it_inode s3 = (it_inode ?u)(ip := (it_inode ?u ip)\<lparr>di_ctime := c'\<rparr>)"
    "view s3 = (view ?u)(IBLOCK (mi_inum (it_inode ?u ip)) ?u :=
      put_dinode (view ?u (IBLOCK (mi_inum (it_inode ?u ip)) ?u)) (dinode_off (mi_inum (it_inode ?u ip))) (it_inode s3 ip))"
    "n_log_wrote s3 = n_log_wrote ?u + 1" "lh_n s3 \<le> lh_n ?u + 1"
    by (rule iupdate_ok[OF ru us2 up])
  note k3 = it_frameD[OF v(3)]
  have ao: "addrs_ok (it_inode s2 ip)" "addrs_ok (it_inode s3 ip)" by (simp_all add: u(7) v(7) addrs_ok_def)
  have vs: "view s' = view s3" "usable s' = usable s" "fs_sb s' = fs_sb s" "bm_bit s' = bm_bit s3" "it_n s' = it_n s"
    "log_ready {} s' = log_ready {} s3" "held s' = held s3" "bm_inv s' = bm_inv s3" "bm_ready s' = bm_ready s3" "lg_committing s' = lg_committing s3"
    using f(8) g h k3 by (simp_all add: s' iunlock_def)
  show "it_n s' = it_n s" by (rule vs(5))
  have vsup: "view s3 SUPERBLOCK_ID = view s SUPERBLOCK_ID"
    using f(7)[of SUPERBLOCK_ID] d(16) d(18)[OF io] unfolding v(8) ib2 by (simp add: u(8)[unfolded ib1])
  have "geo s3 = geo s" by (rule geo_frame[OF _ vsup]) (use v(3) u(3) fr(1) in simp)
  then show "geo s' = geo s" by (simp add: s')
  have ibs: "IBLOCK j s' = IBLOCK j s" for j by (simp add: IBLOCK_def vs(3))
  have d2: "disk_inode s2 j = (if j = k then disk_part (it_inode s2 ip) else disk_inode ?t j)" for j
    using iupdate_disk[OF u(3) ao(1) u(8), of j] i2 ip(2) by simp
  have d3: "disk_inode s3 j = (if j = k then disk_part (it_inode s3 ip) else disk_inode ?u j)" for j
    using iupdate_disk[OF v(3) ao(2) v(8), of j] iu by simp
  have dt: "disk_inode ?t j = disk_inode s j" if "inum_ok s j" for j
    using f(7)[of "IBLOCK j s"] d(10)[OF that] by (simp add: disk_inode_def g(4))
  have du: "disk_inode ?u = disk_inode s2" by (rule disk_inode_cong) simp_all
  have ds: "disk_inode s' = disk_inode s3" by (simp add: disk_inode_def fun_eq_iff vs(1) ibs k3(4) h(4) g(4))
  have di: "disk_inode s' j = disk_inode s j" if "inum_ok s j" "j \<noteq> k" for j
    using that d3[of j] d2[of j] dt[of j] by (simp add: ds du)
  have dk: "di_type (disk_inode s' k) = T_UNUSE" "di_addrs (disk_inode s' k) = (\<lambda>_. 0)"
    by (simp_all add: ds d3 v(7) u(7) dinode.truncate_def)
  have bit: "bm_bit s' j \<longleftrightarrow> bm_bit s j \<and> j \<notin> unat ` blocks_at s k" for j
    using f(6)[of j] by (simp add: vs(4) v(6) u(6) fb)
  have bit': "bm_bit s' (unat b)" if "bm_bit s (unat b)" "b \<notin> blocks_at s k" for b
    using that bit[of "unat b"] by (auto simp: word_unat_eq_iff[symmetric])
  have vw: "view s' b = view s b" if "usable s b" "b \<noteq> ?ib" for b
    using that f(7)[of b] unfolding vs(1) v(8) ib2 by (simp add: u(8)[unfolded ib1])
  have bl: "view s' b = view s b \<and> bm_bit s' (unat b)" if j: "abs_fs s j = Some a'" "j \<noteq> k" "b \<in> blocks_at s j" for j a' b
  proof -
    have "b \<noteq> ?ib" "b \<notin> blocks_at s k" using d(14)[OF j(1) io] d(15)[OF j(1) a(1)] j by auto
    then show ?thesis using vw bit' tree_at_blocks[OF d(13)[OF j(1)] j(3)] by blast
  qed
  have ib: "bm_bit s' (unat (IBLOCK j s))" if "inum_ok s j" for j
    by (rule bit'[OF d(11)[OF that] d(14)[OF a(1) that]])
  have tt: "di_type (disk_inode s' k) \<in> {T_UNUSE, T_DIR, T_FILE, T_DEVICE}" by (simp add: dk)
  note st = inode_step[OF ok io vs(2,3) di bl ib bit'[OF d(17) d(19)[OF a(1)]] tt zero_addrs_node[OF dk(2)]]
  have "abs_fs s' k = None" by (simp add: abs_fs_def dk)
  then show ab: "abs_fs s' = (abs_fs s)(k := None)" using st(2) by auto
  let ?e = "it_inode s' ip"
  have it: "it_inode s' = (it_inode s)(ip := ?e)" by (auto simp: s' iunlock_def v(7) u(7) i2 fun_eq_iff)
  have ee: "mi_inum ?e = k" "mi_ref ?e = 0" "\<not> mi_locked ?e" using r ip(2) by (simp_all add: s' iunlock_def v(7) u(7) i2)
  have e3: "0 \<le> mi_ref ?e" "mi_ref ?e = 0 \<longrightarrow> \<not> mi_locked ?e" using ee by simp_all
  note w = refcount_upd[OF d(6) e vs(5) it ee(1) e3]
  show "refcount s' = (refcount s)(k := 0)" "entry_of s' = (entry_of s)(k := None)" using w(2,4) ee(2) by simp_all
  have oth: "it_inode s' i = it_inode s i" if "i \<noteq> ip" for i using it that by (metis fun_upd_other)
  show "locks_kept {ip} s s'" by (rule locks_keptI) (simp add: oth vs(5))
  have ft: "fs_table s'"
    unfolding fs_table_def
  proof (intro conjI allI impI; (elim conjE)?)
    fix i assume i: "i < it_n s'" "0 < mi_ref (it_inode s' i)" "mi_valid (it_inode s' i)"
    have ne: "i \<noteq> ip" using i(2) ee(2) by auto
    have i': "i < it_n s" "mi_ref (it_inode s i) > 0" "mi_valid (it_inode s i)" using i oth[OF ne] vs(5) by simp_all
    have s: "synced s i" "abs_fs s (mi_inum (it_inode s i)) \<noteq> None" using d(8,9)[OF i'] by auto
    have nk: "mi_inum (it_inode s i) \<noteq> k" using table_wfD(3)[OF d(6) i'(1) ip(1) i'(2)] r(1) ne ip(2) by auto
    have "inum_ok s (mi_inum (it_inode s i))" using s(2) by (auto simp: abs_fs_Some)
    then show "synced s' i" "abs_fs s' (mi_inum (it_inode s' i)) \<noteq> None" using s di[OF _ nk] nk by (simp_all add: synced_def oth[OF ne] ab)
  qed (use w(1) d(7) vs(5) in auto)
  have "fs_base s'" using v u f d g h k3 by (simp add: fs_base_def vs)
  then show "fs_phys s'" using ft st(1) by (intro fs_physI) simp_all
qed

end
