(* ===== verification/Op_Balance.thy ===== *)
theory Op_Balance
  imports Mount Log_Threads
begin

text \<open>
  Which handlers end the operation of the log they begin. Everything between \<open>begin_op\<close> and
  \<open>end_op\<close> leaves the count of outstanding operations alone, or restarts the operation.
\<close>

section \<open>Nobody else counts the operations\<close>

named_theorems counts "what a call does to the count of outstanding operations"

lemma more_outstanding: "bcache.more s' = bcache.more s \<Longrightarrow> lg_outstanding s' = lg_outstanding s"
  using log_fields_more(3)[of s' s] by simp

lemma begin_op_count: "begin_op s = Inr (u, s') \<Longrightarrow> lg_outstanding s' = lg_outstanding s + 1"
  by (auto simp: begin_op_def split: if_splits)

lemma end_op_count: "end_op s = Inr (u, s') \<Longrightarrow> lg_outstanding s' = lg_outstanding s - 1"
  using commit_control by (fastforce simp: end_op_def end_op_enter_def end_op_leave_def chain_eq_Inr Let_def log_rest_def split: if_splits)

lemma logged_read_count [counts]: "logged_read b s = Inr (h, s') \<Longrightarrow> lg_outstanding s' = lg_outstanding s"
  unfolding logged_read_def by (drule bread_more) (rule more_outstanding)

lemma logged_write_outs [counts]: "logged_write h s = Inr (u, s') \<Longrightarrow> lg_outstanding s' = lg_outstanding s"
  by (auto simp: logged_write_def Let_def bpin_def upd_buf_def split: if_splits option.splits)

lemma logged_relse_outs [simp]: "lg_outstanding (logged_relse h s) = lg_outstanding s"
  by (rule more_outstanding) (simp add: logged_relse_def brelse_def Let_def upd_buf_def current_timestamp_def split: prod.splits)

lemma set_data_outs [simp]: "lg_outstanding (set_data h d s) = lg_outstanding s"
  using log_fields_more(3)[of "set_data h d s" s] by simp

lemma foreach_outs:
  fixes s :: "'a fslog_scheme"
  assumes "\<And>x t t'. body x t = Inr ((), t') \<Longrightarrow> lg_outstanding t' = lg_outstanding t" and "foreach xs body s = Inr (u, s')"
  shows "lg_outstanding s' = lg_outstanding s"
  using assms(2)
proof (induction xs arbitrary: s)
  case (Cons x xs)
  then obtain t where "body x s = Inr ((), t)" "foreach xs body t = Inr (u, s')" by (auto simp: chain_eq_Inr)
  then show ?case using Cons.IH assms(1) by metis
qed simp

lemma bmap_set_outs [counts]: "bmap_block_statue_set b v s = Inr (u, s') \<Longrightarrow> lg_outstanding s' = lg_outstanding s"
  by (auto simp: bmap_block_statue_set_def chain_eq_Inr Let_def dest!: counts split: if_splits)

lemma logged_zero_outs [counts]: "logged_zero_a_block b s = Inr (u, s') \<Longrightarrow> lg_outstanding s' = lg_outstanding s"
  by (auto simp: logged_zero_a_block_def chain_eq_Inr dest!: counts)

lemma next_free_outs [counts]: "next_free idx i s = Inr s' \<Longrightarrow> lg_outstanding s' = lg_outstanding s"
proof (induction idx i s rule: next_free.induct)
  case (1 idx i s)
  then show ?case by (subst (asm) next_free.simps) (auto simp: chain_eq_Inr split: if_splits)
qed

lemma block_alloc_outs [counts]: "block_alloc s = Inr (b, s') \<Longrightarrow> lg_outstanding s' = lg_outstanding s"
  by (auto simp: block_alloc_def chain_eq_Inr Let_def dest!: counts split: if_splits option.splits)

lemma block_free_outs [counts]: "block_free b s = Inr (u, s') \<Longrightarrow> lg_outstanding s' = lg_outstanding s"
  by (auto simp: block_free_def chain_eq_Inr Let_def dest!: counts split: if_splits)

section \<open>Inodes\<close>

lemma upd_inode_outs [simp]: "lg_outstanding (upd_inode ip f s) = lg_outstanding s"
  by (simp add: upd_inode_def)

lemma iunlock_outs [simp]: "lg_outstanding (iunlock ip s) = lg_outstanding s"
  by (simp add: iunlock_def)

lemma iget_outs [counts]: "iget inum s = Inr (ip, s') \<Longrightarrow> lg_outstanding s' = lg_outstanding s"
  by (auto simp: iget_def iget_search_def itable_grow_def split: option.splits)

lemma ialloc_from_outs: "ialloc_from n type inum s = Inr (ip, s') \<Longrightarrow> lg_outstanding s' = lg_outstanding s"
proof (induction n type inum s rule: ialloc_from.induct)
  case (1 n type inum s)
  from "1.prems" obtain h t where n: "inum < n" and rd: "logged_read (IBLOCK (word_of_nat inum) s) s = Inr (h, t)"
    by (subst (asm) ialloc_from.simps) (auto simp: chain_eq_Inr split: if_splits)
  have e: "lg_outstanding t = lg_outstanding s" by (rule counts(1)[OF rd])
  show ?case
  proof (cases "get16 (buf_data t h) (dinode_off (word_of_nat inum)) = T_UNUSE")
    case True
    then show ?thesis using "1.prems" n by (subst (asm) ialloc_from.simps) (auto simp: rd e Let_def chain_eq_Inr dest!: counts)
  next
    case False
    then have "ialloc_from n type (Suc inum) (logged_relse h t) = Inr (ip, s')"
      using "1.prems" n by (subst (asm) ialloc_from.simps) (simp add: rd)
    then show ?thesis using "1.IH"[OF n rd refl refl False] e by simp
  qed
qed

lemma ialloc_outs [counts]: "ialloc type s = Inr (ip, s') \<Longrightarrow> lg_outstanding s' = lg_outstanding s"
  unfolding ialloc_def by (rule ialloc_from_outs)

lemma lock_inode_outs [counts]: "lock_inode ip s = Inr (u, s') \<Longrightarrow> lg_outstanding s' = lg_outstanding s"
  by (auto simp: lock_inode_def split: if_splits)

lemma ilock_outs [counts]: "ilock ip s = Inr (u, s') \<Longrightarrow> lg_outstanding s' = lg_outstanding s"
  by (auto simp: ilock_def chain_eq_Inr Let_def dest!: counts split: if_splits)

lemma iupdate_outs [counts]: "iupdate ip s = Inr (u, s') \<Longrightarrow> lg_outstanding s' = lg_outstanding s"
  by (auto simp: iupdate_def chain_eq_Inr Let_def get_current_timespec_def dest!: counts)

lemma imap_root_outs [counts]: "imap_root ip k s = Inr (a, s') \<Longrightarrow> lg_outstanding s' = lg_outstanding s"
  by (auto simp: imap_root_def chain_eq_Inr Let_def dest!: counts split: if_splits)

lemma imap_entry_outs [counts]: "imap_entry a i s = Inr (b, s') \<Longrightarrow> lg_outstanding s' = lg_outstanding s"
  by (auto simp: imap_entry_def chain_eq_Inr Let_def dest!: counts split: if_splits)

lemma check_entry_outs [counts]: "check_entry i s = Inr (u, s') \<Longrightarrow> lg_outstanding s' = lg_outstanding s"
  by (auto simp: check_entry_def split: if_splits)

lemma assert_outs [counts]: "assert_no_need_to_restart_op s = Inr (u, s') \<Longrightarrow> lg_outstanding s' = lg_outstanding s"
  by (auto simp: assert_no_need_to_restart_op_def split: if_splits)

lemma imap2blockno_outs [counts]: "imap2blockno ip b s = Inr (a, s') \<Longrightarrow> lg_outstanding s' = lg_outstanding s"
  by (auto simp: imap2blockno_def chain_eq_Inr Let_def dest!: counts split: if_splits)

lemma free_tree_outs: "free_tree d a s = Inr (u, s') \<Longrightarrow> lg_outstanding s' = lg_outstanding s"
proof (induction d arbitrary: a s s' u)
  case (Suc d)
  then show ?case by (auto simp: chain_eq_Inr split: if_splits dest!: counts foreach_outs[rotated])
qed (auto dest!: counts)

lemmas [counts] = free_tree_outs

lemma free_root_outs [counts]: "free_root ip d k s = Inr (u, s') \<Longrightarrow> lg_outstanding s' = lg_outstanding s"
  by (auto simp: free_root_def dest!: counts split: if_splits)

lemma free_roots_outs [counts]: "foreach xs (free_root ip d) s = Inr (u, s') \<Longrightarrow> lg_outstanding s' = lg_outstanding s"
proof (induction xs arbitrary: s)
  case (Cons x xs)
  then show ?case by (auto simp: chain_eq_Inr dest!: counts)
qed simp

lemma itrunc_outs [counts]: "itrunc ip s = Inr (u, s') \<Longrightarrow> lg_outstanding s' = lg_outstanding s"
  by (auto simp: itrunc_def chain_eq_Inr dest!: counts)

lemma iput_outs [counts]: "iput ip s = Inr (u, s') \<Longrightarrow> lg_outstanding s' = lg_outstanding s"
  by (auto simp: iput_def chain_eq_Inr Let_def dest!: counts split: if_splits)

lemma iunlockput_outs [counts]: "iunlockput ip s = Inr (u, s') \<Longrightarrow> lg_outstanding s' = lg_outstanding s"
  by (auto simp: iunlockput_def dest!: counts)

lemma restart_helper_outs [counts]: "log_op_restart_helper s = Inr (u, s') \<Longrightarrow> lg_outstanding s' = lg_outstanding s"
  by (auto simp: log_op_restart_helper_def chain_eq_Inr dest!: begin_op_count end_op_count split: if_splits)

lemma free_safe_outs [counts]:
  "free_safe_root ip k s = Inr (u, s') \<Longrightarrow> lg_outstanding s' = lg_outstanding s"
  "free_safe_entry h i t = Inr (u, t') \<Longrightarrow> lg_outstanding t' = lg_outstanding t"
  by (auto simp: free_safe_root_def free_safe_entry_def chain_eq_Inr dest!: counts)

lemma read_entry_outs [counts]: "read_entry a i s = Inr (b, s') \<Longrightarrow> lg_outstanding s' = lg_outstanding s"
  by (auto simp: read_entry_def chain_eq_Inr dest!: counts)

lemma clear_entry_outs [counts]: "clear_entry a i s = Inr (u, s') \<Longrightarrow> lg_outstanding s' = lg_outstanding s"
  by (auto simp: clear_entry_def chain_eq_Inr dest!: counts split: if_splits)

text \<open>The same for a call that is a sequence of branches, as rules on its text.\<close>

definition counted :: "int \<Rightarrow> ('r \<times> 'a fslog_scheme) res \<Rightarrow> bool" where
  "counted n m \<longleftrightarrow> (\<forall>r s'. m = Inr (r, s') \<longrightarrow> lg_outstanding s' = n)"

lemma counted_of: "(\<And>r s'. m = Inr (r, s') \<Longrightarrow> lg_outstanding s' = lg_outstanding s) \<Longrightarrow> lg_outstanding s = n \<Longrightarrow> counted n m"
  by (auto simp: counted_def)

lemma counted_chain:
  "counted k m \<Longrightarrow> (\<And>r s1. lg_outstanding s1 = k \<Longrightarrow> counted n (f (r, s1))) \<Longrightarrow> counted n (chain m f)"
  by (fastforce simp: counted_def chain_eq_Inr)

lemma counted_Inr: "lg_outstanding s = n \<Longrightarrow> counted n (Inr (r, s))" and counted_Inl: "counted n (Inl e)"
  by (simp_all add: counted_def)

lemma counted_if: "(b \<Longrightarrow> counted n x) \<Longrightarrow> (\<not> b \<Longrightarrow> counted n y) \<Longrightarrow> counted n (if b then x else y)"
  by simp

lemmas counted_rules = counted_chain[where k = n and n = n for n] counted_if counted_Inr counted_Inl

lemma imap2blockno_free_outs [counts]: "imap2blockno_free ip b s = Inr (u, s') \<Longrightarrow> lg_outstanding s' = lg_outstanding s"
proof -
  have "counted (lg_outstanding s) (imap2blockno_free ip b s)"
    unfolding imap2blockno_free_def Let_def by (assumption | rule refl counted_rules | (rule counted_of, erule counts) | simp only: prod.case)+
  then show "imap2blockno_free ip b s = Inr (u, s') \<Longrightarrow> lg_outstanding s' = lg_outstanding s" by (simp add: counted_def)
qed

lemma itrunc2size_outs [counts]: "itrunc2size ip sz s = Inr (r, s') \<Longrightarrow> lg_outstanding s' = lg_outstanding s"
proof -
  have grow: "lg_outstanding t' = lg_outstanding t"
    if "foreach xs (\<lambda>i s. chain (log_op_restart_helper s) (\<lambda>(_, s). chain (imap2blockno ip (word_of_nat i) s) (\<lambda>(_, s). Inr ((), s)))) t = Inr (u, t')"
    for xs u and t t' :: "'a itable_scheme"
    by (rule foreach_outs[OF _ that]) (auto simp: chain_eq_Inr dest!: counts)
  have shrink: "lg_outstanding t' = lg_outstanding t"
    if "foreach xs (\<lambda>i s. chain (log_op_restart_helper s) (\<lambda>(_, s). imap2blockno_free ip (word_of_nat i) s)) t = Inr (u, t')"
    for xs u and t t' :: "'a itable_scheme"
    by (rule foreach_outs[OF _ that]) (auto simp: chain_eq_Inr dest!: counts)
  show "itrunc2size ip sz s = Inr (r, s') \<Longrightarrow> lg_outstanding s' = lg_outstanding s"
    by (auto simp: itrunc2size_def chain_eq_Inr Let_def dest!: counts grow shrink split: if_splits)
qed

section \<open>Reading and writing\<close>

lemma touch_outs [simp]: "lg_outstanding (touch_atime ip s) = lg_outstanding s" "lg_outstanding (touch_mtime ip s) = lg_outstanding s"
  by (simp_all add: touch_atime_def touch_mtime_def Let_def get_current_timespec_def)

lemma restart_op_on_outs [counts]: "restart_op_on ip n s = Inr (u, s') \<Longrightarrow> lg_outstanding s' = lg_outstanding s"
  by (auto simp: restart_op_on_def chain_eq_Inr dest!: counts begin_op_count end_op_count split: if_splits)

lemma write_part_outs [counts]: "write_part ip b f data d n s = Inr (u, s') \<Longrightarrow> lg_outstanding s' = lg_outstanding s"
  by (auto simp: write_part_def chain_eq_Inr dest!: counts)

lemma read_part_outs [counts]: "read_part ip b f data d n s = Inr (x, s') \<Longrightarrow> lg_outstanding s' = lg_outstanding s"
  by (auto simp: read_part_def chain_eq_Inr dest!: counts)

lemma write_blocks_outs [counts]: "write_blocks ip data n d b s = Inr (r, s') \<Longrightarrow> lg_outstanding s' = lg_outstanding s"
proof (induction ip data n d b s rule: write_blocks.induct)
  case (1 ip data n d b s)
  show ?case
  proof (cases "n > BSIZE")
    case True
    then obtain s1 s2 where 2: "restart_op_on ip (MAXOPBLOCKS - 1 - 3 - 1) s = Inr ((), s1)" "write_part ip b 0 data d BSIZE s1 = Inr ((), s2)"
      "write_blocks ip data (n - BSIZE) (d + BSIZE) (b + 1) s2 = Inr (r, s')"
      using "1.prems" by (subst (asm) write_blocks.simps) (auto simp: chain_eq_Inr)
    show ?thesis using "1.IH"[OF True 2(1) refl 2(2) refl 2(3)] counts(1) 2(1,2) by (auto dest!: counts)
  qed (use "1.prems" in \<open>subst (asm) write_blocks.simps, simp\<close>)
qed

lemma read_blocks_outs [counts]: "read_blocks ip data n d b s = Inr (r, s') \<Longrightarrow> lg_outstanding s' = lg_outstanding s"
proof (induction ip data n d b s rule: read_blocks.induct)
  case (1 ip data n d b s)
  show ?case
  proof (cases "n > BSIZE")
    case True
    then obtain s1 data1 s2 where 2: "restart_op_on ip (MAXOPBLOCKS - 1 - 3) s = Inr ((), s1)" "read_part ip b 0 data d BSIZE s1 = Inr (data1, s2)"
      "read_blocks ip data1 (n - BSIZE) (d + BSIZE) (b + 1) s2 = Inr (r, s')"
      using "1.prems" by (subst (asm) read_blocks.simps) (auto simp: chain_eq_Inr)
    show ?thesis using "1.IH"[OF True 2(1) refl 2(2) refl 2(3)] 2(1,2) by (auto dest!: counts)
  qed (use "1.prems" in \<open>subst (asm) read_blocks.simps, simp\<close>)
qed

lemma inode_write_outs [counts]: "inode_write_nbytes_locked ip data n off s = Inr (r, s') \<Longrightarrow> lg_outstanding s' = lg_outstanding s"
  by (auto simp: inode_write_nbytes_locked_def chain_eq_Inr Let_def dest!: counts split: if_splits)

lemma inode_read_outs [counts]: "inode_read_nbytes_locked ip data n off s = Inr (r, s') \<Longrightarrow> lg_outstanding s' = lg_outstanding s"
  by (auto simp: inode_read_nbytes_locked_def chain_eq_Inr Let_def dest!: counts split: if_splits)

lemma inode_unlocked_outs [counts]:
  "inode_write_nbytes_unlocked ip data n off s = Inr (r, s') \<Longrightarrow> lg_outstanding s' = lg_outstanding s"
  "inode_read_nbytes_unlocked ip data n off t = Inr (q, t') \<Longrightarrow> lg_outstanding t' = lg_outstanding t"
  by (auto simp: inode_write_nbytes_unlocked_def inode_read_nbytes_unlocked_def chain_eq_Inr dest!: counts begin_op_count end_op_count)

lemma stat_inum_outs [counts]: "stat_inum inum st s = Inr (r, s') \<Longrightarrow> lg_outstanding s' = lg_outstanding s"
  by (auto simp: stat_inum_def chain_eq_Inr Let_def dest!: counts)


section \<open>Directories and paths\<close>

lemma read_dir_outs [counts]: "read_dir m dp s = Inr (buf, s') \<Longrightarrow> lg_outstanding s' = lg_outstanding s"
  by (auto simp: read_dir_def chain_eq_Inr dest!: counts split: if_splits)

lemma dirlookup_outs [counts]: "dirlookup dp nm s = Inr (r, s') \<Longrightarrow> lg_outstanding s' = lg_outstanding s"
  by (auto simp: dirlookup_def chain_eq_Inr Let_def dest!: counts split: if_splits)

lemma dirlink_outs [counts]: "dirlink dp nm inum s = Inr (r, s') \<Longrightarrow> lg_outstanding s' = lg_outstanding s"
  by (auto simp: dirlink_def chain_eq_Inr dest!: counts split: if_splits option.splits)

lemma ilock_ptr_outs [counts]: "ilock_ptr p s = Inr (u, s') \<Longrightarrow> lg_outstanding s' = lg_outstanding s"
  by (auto simp: ilock_ptr_def dest!: counts split: option.splits)

lemma iput_ptr_outs [counts]: "iput_ptr p s = Inr (u, s') \<Longrightarrow> lg_outstanding s' = lg_outstanding s"
  by (auto simp: iput_ptr_def dest!: counts split: option.splits)

lemma namex_from_outs: "namex_from ip path par nm s = Inr (r, s') \<Longrightarrow> lg_outstanding s' = lg_outstanding s"
proof (induction ip path par nm s arbitrary: r s' rule: namex_from.induct)
  case (1 ip path par nm s)
  show ?case
  proof (cases "skipelem path nm")
    case None
    then show ?thesis using "1.prems" by (subst (asm) namex_from.simps) (auto simp: chain_eq_Inr dest!: counts split: if_splits)
  next
    case (Some pn)
    obtain path' nm' where pn: "pn = (path', nm')" by (cases pn)
    from "1.prems" obtain s1 where l: "ilock ip s = Inr ((), s1)"
      by (subst (asm) namex_from.simps) (auto simp: Some pn chain_eq_Inr)
    have e: "lg_outstanding s1 = lg_outstanding s" by (rule ilock_outs[OF l])
    show ?thesis
    proof (cases "di_type (it_inode s1 ip) \<noteq> T_DIR \<or> par \<and> path' = []")
      case True
      then show ?thesis using "1.prems" e by (subst (asm) namex_from.simps) (auto simp: Some pn l chain_eq_Inr dest!: counts split: if_splits)
    next
      case False
      with "1.prems" obtain q s2 where k: "dirlookup ip nm' s1 = Inr (q, s2)"
        by (subst (asm) namex_from.simps) (auto simp: Some pn l chain_eq_Inr split: if_splits)
      have e2: "lg_outstanding s2 = lg_outstanding s" using dirlookup_outs[OF k] e by simp
      show ?thesis
      proof (cases q)
        case None
        then show ?thesis using "1.prems" e2 False by (subst (asm) namex_from.simps) (auto simp: Some pn l k chain_eq_Inr dest!: counts)
      next
        case (Some x)
        obtain ip' off where x: "x = (ip', off)" by (cases x)
        obtain s3 where u: "iunlockput ip s2 = Inr ((), s3)" and n: "namex_from ip' path' par nm' s3 = Inr (r, s')"
          using "1.prems" False by (subst (asm) namex_from.simps) (auto simp: \<open>skipelem path nm = Some pn\<close> pn l k Some x chain_eq_Inr)
        have "lg_outstanding s' = lg_outstanding s3"
          using "1.IH"[OF \<open>skipelem path nm = Some pn\<close> pn[symmetric] l refl _ _ k refl Some x[symmetric] u refl n] False by simp
        then show ?thesis using iunlockput_outs[OF u] e2 by simp
      qed
    qed
  qed
qed

lemma namex_outs [counts]: "namex path par nm s = Inr (r, s') \<Longrightarrow> lg_outstanding s' = lg_outstanding s"
  by (auto simp: namex_def chain_eq_Inr dest!: counts namex_from_outs split: if_splits)

lemma path2inode_outs [counts]: "path2inode path s = Inr (r, s') \<Longrightarrow> lg_outstanding s' = lg_outstanding s"
  by (auto simp: path2inode_def chain_eq_Inr dest!: counts)

lemma path2parentinode_outs [counts]: "path2parentinode path nm s = Inr (r, s') \<Longrightarrow> lg_outstanding s' = lg_outstanding s"
  by (auto simp: path2parentinode_def dest!: counts)

section \<open>Handlers\<close>

lemma file_outs [simp]: "lg_outstanding (snd (filealloc s)) = lg_outstanding s" "lg_outstanding (upd_file f g s) = lg_outstanding s"
  by (simp_all add: filealloc_def upd_file_def ftable_grow_def Let_def split: option.splits)

lemma filealloc_outs [counts]: "filealloc s = (f, s') \<Longrightarrow> lg_outstanding s' = lg_outstanding s"
  using file_outs(1)[of s] by simp

lemma stamp_outs [simp]: "lg_outstanding (stamp_inode ip s) = lg_outstanding s"
  by (simp add: stamp_inode_def get_current_timespec_def)

lemma clear_dirent_outs [counts]: "clear_dirent dp off s = Inr (u, s') \<Longrightarrow> lg_outstanding s' = lg_outstanding s"
  by (auto simp: clear_dirent_def chain_eq_Inr dest!: counts)

lemma unlink_name_outs [counts]: "unlink_name dp nm s = Inr (u, s') \<Longrightarrow> lg_outstanding s' = lg_outstanding s"
  by (auto simp: unlink_name_def chain_eq_Inr dest!: counts split: option.splits)

lemma rename_onto_outs [counts]: "rename_onto tdp tn tip fip fdp fn fl s = Inr (r, s') \<Longrightarrow> lg_outstanding s' = lg_outstanding s"
  by (auto simp: rename_onto_def chain_eq_Inr Let_def dest!: counts split: if_splits)

lemma iput_opt_outs [counts]: "iput_opt p s = Inr (u, s') \<Longrightarrow> lg_outstanding s' = lg_outstanding s"
  by (auto simp: iput_opt_def dest!: counts split: option.splits)

lemma rmdir_check_outs [counts]: "rmdir_check ip s = Inr (u, s') \<Longrightarrow> lg_outstanding s' = lg_outstanding s"
  by (auto simp: rmdir_check_def chain_eq_Inr Let_def dest!: counts split: if_splits)

lemma open_inode_outs: "open_inode ip fi s = Inr (r, s') \<Longrightarrow> lg_outstanding s' = lg_outstanding s - 1"
  by (auto simp: open_inode_def chain_eq_Inr Let_def case_prod_beta dest!: counts end_op_count)

lemma readdir_from_outs [counts]:
  "readdir_from filler dp dirbuf off buf fname st s = Inr (r, s') \<Longrightarrow> lg_outstanding s' = lg_outstanding s"
proof (induction filler dp dirbuf off buf fname st s arbitrary: r s' rule: readdir_from.induct)
  case (1 filler dp dirbuf off buf fname st s)
  let ?inum = "de_inum dirbuf off" and ?sz = "unat (di_size (it_inode s dp))"
  let ?m = "if ?inum = 0 then Inr (False, buf, fname, st, s)
    else chain (dirnamecpy (min (DIRSIZE + 1) (?sz - (off + 4))) fname (de_name dirbuf off)) (\<lambda>fname.
         chain (if ?inum \<noteq> mi_inum (it_inode s dp) then stat_inum ?inum st s else Inr (stat_inode dp st s, s)) (\<lambda>((stat_res, st), s).
         if stat_res = 0 then let (buf, r) = filler buf fname st in Inr (r \<noteq> 0, buf, fname, st, s)
         else Inr (False, buf, fname, st, s)))"
  show ?case
  proof (cases "off < ?sz")
    case True
    with "1.prems" obtain stop buf1 fname1 st1 s1 where b: "off + dirent_size \<le> ?sz" and m: "?m = Inr (stop, buf1, fname1, st1, s1)"
      by (subst (asm) readdir_from.simps) (auto simp: Let_def chain_eq_Inr split: if_splits)
    have e: "lg_outstanding s1 = lg_outstanding s"
      using m by (auto simp: chain_eq_Inr Let_def dest!: counts split: if_splits prod.splits)
    show ?thesis
    proof (cases stop)
      case True
      then show ?thesis using "1.prems" \<open>off < ?sz\<close> b m e by (subst (asm) readdir_from.simps) (simp add: Let_def)
    next
      case False
      with "1.prems" \<open>off < ?sz\<close> b m have o: "\<not> off + dirent_size \<ge> 2 ^ 31"
        "readdir_from filler dp dirbuf (off + dirent_size) buf1 fname1 st1 s1 = Inr (r, s')"
        by (subst (asm) readdir_from.simps, simp add: Let_def split: if_splits)+
      show ?thesis
        using "1.IH"[OF refl \<open>off < ?sz\<close> _ refl m refl refl refl refl False o(1,2)] b e by simp
    qed
  qed (use "1.prems" in \<open>subst (asm) readdir_from.simps, simp\<close>)
qed

lemma fileclose_outs [counts]: "fileclose f s = Inr (u, s') \<Longrightarrow> lg_outstanding s' = lg_outstanding s"
  by (auto simp: fileclose_def chain_eq_Inr Let_def dest!: counts begin_op_count end_op_count split: if_splits)


section \<open>The handlers\<close>

lemma myfuse_getattr_outs [counts]: "myfuse_getattr path st s = Inr (r, s') \<Longrightarrow> lg_outstanding s' = lg_outstanding s"
  by (auto simp: myfuse_getattr_def chain_eq_Inr Let_def dest!: counts begin_op_count end_op_count split: option.split_asm)

lemma myfuse_opendir_outs [counts]: "myfuse_opendir path fi s = Inr (r, s') \<Longrightarrow> lg_outstanding s' = lg_outstanding s"
  by (auto simp: myfuse_opendir_def chain_eq_Inr Let_def case_prod_beta dest!: counts begin_op_count end_op_count split: option.split_asm if_split_asm)

lemma myfuse_readdir_outs [counts]: "myfuse_readdir filler buf st fi s = Inr (r, s') \<Longrightarrow> lg_outstanding s' = lg_outstanding s"
proof -
  assume run: "myfuse_readdir filler buf st fi s = Inr (r, s')"
  show ?thesis
  proof (cases "\<exists>i f. fi = Some i \<and> fi_fh i = Some f")
    case True
    then obtain i f where "fi = Some i" "fi_fh i = Some f" by blast
    then show ?thesis using run
      by (auto simp: myfuse_readdir_def chain_eq_Inr dest!: counts begin_op_count end_op_count split: option.split_asm if_split_asm)
  next
    case False
    then show ?thesis using run by (cases fi) (auto simp: myfuse_readdir_def chain_eq_Inr split: option.split_asm)
  qed
qed

lemma release_internal_outs [counts]: "release_internal fi s = Inr (r, s') \<Longrightarrow> lg_outstanding s' = lg_outstanding s"
  by (auto simp: release_internal_def chain_eq_Inr Let_def dest!: counts begin_op_count end_op_count split: option.split_asm)

lemma myfuse_release_outs [counts]: "myfuse_release fi s = Inr (r, s') \<Longrightarrow> lg_outstanding s' = lg_outstanding s"
  by (auto simp: myfuse_release_def chain_eq_Inr Let_def dest!: counts begin_op_count end_op_count)

lemma myfuse_releasedir_outs [counts]: "myfuse_releasedir fi s = Inr (r, s') \<Longrightarrow> lg_outstanding s' = lg_outstanding s"
  by (auto simp: myfuse_releasedir_def chain_eq_Inr Let_def dest!: counts begin_op_count end_op_count)

lemma myfuse_read_outs [counts]: "myfuse_read dat sz off fi s = Inr (r, s') \<Longrightarrow> lg_outstanding s' = lg_outstanding s"
  by (auto simp: myfuse_read_def chain_eq_Inr Let_def dest!: counts begin_op_count end_op_count split: option.split_asm)

lemma myfuse_write_outs [counts]: "myfuse_write dat sz off fi s = Inr (r, s') \<Longrightarrow> lg_outstanding s' = lg_outstanding s"
  by (auto simp: myfuse_write_def chain_eq_Inr Let_def dest!: counts begin_op_count end_op_count split: option.split_asm)

lemma myfuse_truncate_outs [counts]: "myfuse_truncate path sz s = Inr (r, s') \<Longrightarrow> lg_outstanding s' = lg_outstanding s"
  by (auto simp: myfuse_truncate_def chain_eq_Inr Let_def dest!: counts begin_op_count end_op_count split: option.split_asm if_split_asm)

lemma myfuse_lseek_outs [counts]: "myfuse_lseek off wh fi s = Inr (r, s') \<Longrightarrow> lg_outstanding s' = lg_outstanding s"
  by (cases wh) (auto simp: myfuse_lseek_def chain_eq_Inr Let_def dest!: counts split: option.split_asm if_split_asm)

lemma myfuse_mkdir_outs [counts]: "myfuse_mkdir path mode s = Inr (r, s') \<Longrightarrow> lg_outstanding s' = lg_outstanding s"
  by (auto simp: myfuse_mkdir_def chain_eq_Inr Let_def dest!: counts begin_op_count end_op_count split: if_splits)

lemma myfuse_unlink_outs [counts]: "myfuse_unlink path s = Inr (r, s') \<Longrightarrow> lg_outstanding s' = lg_outstanding s"
  by (auto simp: myfuse_unlink_def chain_eq_Inr Let_def dest!: counts begin_op_count end_op_count split: option.split_asm if_split_asm)

lemma myfuse_rmdir_outs [counts]: "myfuse_rmdir path s = Inr (r, s') \<Longrightarrow> lg_outstanding s' = lg_outstanding s"
  by (auto simp: myfuse_rmdir_def chain_eq_Inr Let_def dest!: counts begin_op_count end_op_count split: option.split_asm if_split_asm)

lemma myfuse_create_outs [counts]: "myfuse_create path mode fi s = Inr (r, s') \<Longrightarrow> lg_outstanding s' = lg_outstanding s"
  by (auto simp: myfuse_create_def chain_eq_Inr Let_def case_prod_beta dest!: counts begin_op_count end_op_count split: option.split_asm if_split_asm)

lemma open_inode_ends: "open_inode ip fi s = Inr (r, s') \<Longrightarrow> lg_outstanding s' = lg_outstanding s - 1 \<and> fst r = 0"
  by (auto simp: open_inode_def chain_eq_Inr Let_def case_prod_beta dest!: counts end_op_count)

lemma leaking_outs:
  "myfuse_access path s = Inr (r, s') \<Longrightarrow> lg_outstanding s' = lg_outstanding s + (if r = - ENOENT then 1 else 0)"
  "myfuse_chmod path mode s = Inr (r, s') \<Longrightarrow> lg_outstanding s' = lg_outstanding s + (if r = - ENOENT then 1 else 0)"
  by (auto simp: myfuse_access_def myfuse_chmod_def ENOENT_def chain_eq_Inr Let_def dest!: counts begin_op_count end_op_count split: option.split_asm)

lemma myfuse_open_outs:
  "myfuse_open path fi s = Inr ((r, fi'), s') \<Longrightarrow>
    lg_outstanding s' = lg_outstanding s + (if r = - ENOENT \<and> and (fi_flags fi) O_CREAT = 0 then 1 else 0)"
  by (auto simp: myfuse_open_def ENOENT_def chain_eq_Inr Let_def dest!: open_inode_ends counts begin_op_count end_op_count
      split: option.split_asm if_split_asm)

lemma rename_onto_code: "rename_onto tdp tn tip fip fdp fn fl s = Inr (r, s') \<Longrightarrow> r \<noteq> - ENOENT"
  by (auto simp: rename_onto_def chain_eq_Inr Let_def ENOENT_def EEXIST_def split: if_split_asm)

lemma myfuse_rename_outs:
  assumes run: "myfuse_rename src target flags s = Inr (r, s')"
  shows "lg_outstanding s' = lg_outstanding s + (if r = - ENOENT then 1 else 0)"
proof -
  obtain s0 tip s1 tdp tn s2 fip s3 fdp fn s4 where p: "begin_op s = Inr ((), s0)" "path2inode target s0 = Inr (tip, s1)"
    "path2parentinode target (\<lambda>_. 0) s1 = Inr ((tdp, tn), s2)" "path2inode src s2 = Inr (fip, s3)"
    "path2parentinode src (\<lambda>_. 0) s3 = Inr ((fdp, fn), s4)"
    using run by (auto simp: myfuse_rename_def chain_eq_Inr)
  have e: "lg_outstanding s4 = lg_outstanding s + 1" using p by (auto dest!: counts begin_op_count)
  show ?thesis
  proof (cases "tip = None \<and> tdp = None \<or> fip = None \<or> fdp = None")
    case True
    then show ?thesis using run e unfolding myfuse_rename_def by (simp add: p)
  next
    case False
    let ?ren = "\<lambda>s. case tip of
           None \<Rightarrow> chain (ilock (the tdp) s) (\<lambda>(_, s). chain (dirlink (the tdp) tn (mi_inum (it_inode s (the fip))) s) (\<lambda>(_, s).
              Inr (0, iunlock (the tdp) s)))
         | Some tip \<Rightarrow> rename_onto tdp tn tip (the fip) (the fdp) fn flags s"
    obtain s5 s6 s7 k s8 where q: "ilock (the fip) s4 = Inr ((), s5)" "ilock (the fdp) s5 = Inr ((), s6)" "unlink_name (the fdp) fn s6 = Inr ((), s7)"
      and k: "?ren (iunlock (the fip) (iunlock (the fdp) s7)) = Inr (k, s8)"
      and z: "\<exists>t1 t2 t3 t4. iput_opt tip s8 = Inr ((), t1) \<and> iput_opt tdp t1 = Inr ((), t2) \<and> iput_opt fip t2 = Inr ((), t3) \<and>
        iput_opt fdp t3 = Inr ((), t4) \<and> end_op t4 = Inr ((), s')" "r = k"
      using run False unfolding myfuse_rename_def Let_def by (simp add: p chain_eq_Inr) blast
    have "lg_outstanding s7 = lg_outstanding s + 1" using q e by (auto dest!: counts)
    moreover have "lg_outstanding s8 = lg_outstanding s7" using k by (auto simp: chain_eq_Inr split: option.split_asm dest!: counts)
    moreover have "k \<noteq> - ENOENT"
      using k by (auto simp: chain_eq_Inr ENOENT_def split: option.split_asm dest!: rename_onto_code[unfolded ENOENT_def])
    moreover have "lg_outstanding s' = lg_outstanding s8 - 1" using z(1) by (auto dest!: counts end_op_count)
    ultimately show ?thesis using z(2) by simp
  qed
qed

text \<open>The requests whose handler returns without ending its operation.\<close>

primrec leaks :: "'b request \<Rightarrow> int \<Rightarrow> bool" where
  "leaks (Getattr path st) r = False"
| "leaks (Access path) r = (r = - ENOENT)"
| "leaks (Create path mode fi) r = False"
| "leaks (Opendir path fi) r = False"
| "leaks (Readdir buf st fi) r = False"
| "leaks (Mkdir path mode) r = False"
| "leaks (Unlink path) r = False"
| "leaks (Rmdir path) r = False"
| "leaks (Truncate path sz) r = False"
| "leaks (Open path fi) r = (r = - ENOENT \<and> and (fi_flags fi) O_CREAT = 0)"
| "leaks (Read buf sz off fi) r = False"
| "leaks (Write buf sz off fi) r = False"
| "leaks (Release fi) r = False"
| "leaks (Releasedir fi) r = False"
| "leaks (Chmod path mode) r = (r = - ENOENT)"
| "leaks (Lseek off wh fi) r = False"
| "leaks (Rename src target flags) r = (r = - ENOENT)"
| "leaks (Statfs buf) r = False"

lemma reply_as_Inr: "reply_as f m = Inr (rep, s') \<longleftrightarrow> (\<exists>r. m = Inr (r, s') \<and> rep = f r)"
  by (auto simp: reply_as_def chain_eq_Inr)

lemma serve_balanced:
  assumes "serve filler req s = Inr (rep, s')"
  shows "lg_outstanding s' = lg_outstanding s + (if leaks req (code rep) then 1 else 0)"
  using assms
  by (cases req) (auto simp: reply_as_Inr chain_eq_Inr dest!: counts dest: leaking_outs myfuse_open_outs myfuse_rename_outs)

text \<open>
  C26: every request that returns leaves the number of outstanding log operations as it found it,
  except in four cases in which it leaves one operation open for ever: open of a missing file
  without O_CREAT, access, chmod and rename that answer ENOENT.
\<close>

theorem handlers_balanced:
  assumes "serve filler req s = Inr (rep, s')"
  shows "lg_outstanding s' = lg_outstanding s + (if leaks req (code rep) then 1 else 0)"
  by (rule serve_balanced[OF assms])


section \<open>After eight leaks\<close>

fun serve_all ::
  "('b \<Rightarrow> name \<Rightarrow> stat \<Rightarrow> 'b \<times> int) \<Rightarrow> 'b request list \<Rightarrow> 'a ftab_scheme \<Rightarrow> ('b reply list \<times> 'a ftab_scheme) res" where
  "serve_all filler [] s = Inr ([], s)"
| "serve_all filler (req # reqs) s =
    chain (serve filler req s) (\<lambda>(rep, s).
    chain (serve_all filler reqs s) (\<lambda>(reps, s).
    Inr (rep # reps, s)))"

definition leaked :: "'b request list \<Rightarrow> 'b reply list \<Rightarrow> nat" where
  "leaked reqs reps = length (filter (\<lambda>(req, rep). leaks req (code rep)) (zip reqs reps))"

lemma serve_all_outs:
  "serve_all filler reqs s = Inr (reps, s') \<Longrightarrow> lg_outstanding s' = lg_outstanding s + int (leaked reqs reps)"
proof (induction reqs arbitrary: s reps)
  case (Cons req reqs)
  then obtain rep s1 reps1 where 1: "serve filler req s = Inr (rep, s1)" "serve_all filler reqs s1 = Inr (reps1, s')" "reps = rep # reps1"
    by (auto simp: chain_eq_Inr)
  show ?case using serve_balanced[OF 1(1)] Cons.IH[OF 1(2)] by (simp add: leaked_def 1(3))
qed (simp add: leaked_def)

text \<open>
  C27: after any sequence of requests of which eight left their operation open, every later
  getattr, open, opendir, mkdir, unlink, rmdir, truncate, access, chmod and rename waits for ever.
\<close>

theorem eight_leaks_block:
  assumes run: "serve_all filler reqs s = Inr (reps, s')" and n: "8 \<le> leaked reqs reps" and st: "0 \<le> lg_outstanding s" "0 \<le> lh_n s'"
  shows "serve filler (Getattr path st) s' = Inl Blocked \<and> serve filler (Open path fi) s' = Inl Blocked \<and>
    serve filler (Opendir path fi) s' = Inl Blocked \<and> serve filler (Mkdir path mode) s' = Inl Blocked \<and>
    serve filler (Unlink path) s' = Inl Blocked \<and> serve filler (Rmdir path) s' = Inl Blocked \<and>
    serve filler (Truncate path sz) s' = Inl Blocked \<and> serve filler (Access path) s' = Inl Blocked \<and>
    serve filler (Chmod path mode) s' = Inl Blocked \<and> serve filler (Rename path target flags) s' = Inl Blocked"
proof -
  have "8 \<le> lg_outstanding s'" using serve_all_outs[OF run] n st by simp
  then have "begin_op s' = Inl Blocked" using st(2) by (simp add: begin_op_def MAXOPBLOCKS_def NLOG_def)
  then show ?thesis
    by (simp add: reply_as_def myfuse_getattr_def myfuse_open_def myfuse_opendir_def myfuse_mkdir_def myfuse_unlink_def
        myfuse_rmdir_def myfuse_truncate_def myfuse_access_def myfuse_chmod_def myfuse_rename_def)
qed

text \<open>
  Renaming the root directory fails after it has begun its operation and looked the root up; here is
  such a state, with the root in entry 0 of the table and \<open>k\<close> operations left open.
\<close>

definition root_tab :: "int \<Rightarrow> nat \<Rightarrow> minode" where
  "root_tab n = mini_tab(0 := mini_root\<lparr>mi_ref := n\<rparr>)"

lemma root_iget:
  fixes s :: ftab
  assumes "it_n s = 2" "it_inode s = root_tab n" "0 < n"
  shows "iget ROOTINO s = Inr (0, s\<lparr>it_inode := root_tab (n + 1)\<rparr>)"
proof -
  have "find_from (\<lambda>i. mi_inum (root_tab n i) = ROOTINO \<and> 0 < mi_ref (root_tab n i)) 0 2 = Some 0"
    using assms(3) by (subst find_from.simps) (simp add: root_tab_def mini_root_def ROOTINO_def)
  then show ?thesis using assms by (simp add: iget_def iget_search_def upd_inode_def root_tab_def)
qed

lemma root_iput:
  fixes s :: ftab
  assumes "it_inode s = root_tab n" "n \<noteq> 1"
  shows "iput 0 s = Inr ((), s\<lparr>it_inode := root_tab (n - 1)\<rparr>)"
  using assms by (simp add: iput_def upd_inode_def root_tab_def)

lemma root_path:
  fixes s :: ftab
  assumes "it_n s = 2" "it_inode s = root_tab n" "0 < n"
  shows "path2inode [slash] s = Inr (Some 0, s\<lparr>it_inode := root_tab (n + 1)\<rparr>)"
    "path2parentinode [slash] nm s = Inr ((None, nm), s)"
  using assms(2) root_iget[OF assms] root_iput[of "s\<lparr>it_inode := root_tab (n + 1)\<rparr>" "n + 1"] assms(3)
  by (simp_all add: path2inode_def path2parentinode_def namex_def namex_from.simps skipelem_def)

definition renamed :: "nat \<Rightarrow> ftab" where
  "renamed k = itable.extend ((mini_it mini_tab (\<lambda>_. zero_block))\<lparr>lg_outstanding := int k, it_inode := root_tab (1 + 2 * int k)\<rparr>)
    (ftab.fields 50 (\<lambda>_. static_file))"

lemma renamed_fields: "lg_outstanding (renamed k) = int k" "lh_n (renamed k) = 0" "lg_committing (renamed k) = False" "it_n (renamed k) = 2"
  "it_inode (renamed k) = root_tab (1 + 2 * int k)"
  by (simp_all add: renamed_def itable.defs ftab.defs mini_ext_def bcache_init_def)

lemma renamed_step: "renamed k\<lparr>lg_outstanding := 1 + int k, n_log_wrote := 0, it_inode := root_tab (3 + 2 * int k)\<rparr> = renamed (Suc k)"
  by (simp add: renamed_def itable.defs ftab.defs mini_ext_def bcache_init_def)

lemma rename_root:
  assumes "k < 8"
  shows "serve filler (Rename [slash] [slash] 0) (renamed k) = Inr (Plain (- ENOENT), renamed (Suc k))"
proof -
  let ?s = "renamed k\<lparr>lg_outstanding := 1 + int k, n_log_wrote := 0\<rparr>"
  have b: "begin_op (renamed k) = Inr ((), ?s)"
    using assms by (simp add: begin_op_def renamed_fields MAXOPBLOCKS_def NLOG_def)
  let ?t = "?s\<lparr>it_inode := root_tab (2 + 2 * int k)\<rparr>"
  have 1: "path2inode [slash] ?s = Inr (Some 0, ?t)" using root_path(1)[of ?s "1 + 2 * int k"] by (simp add: renamed_fields)
  have 2: "path2parentinode [slash] nm ?t = Inr ((None, nm), ?t)" for nm using root_path(2)[of ?t "2 + 2 * int k"] by (simp add: renamed_fields)
  have 3: "path2inode [slash] ?t = Inr (Some 0, renamed (Suc k))"
    using root_path(1)[of ?t "2 + 2 * int k"] by (simp add: renamed_fields renamed_step)
  have 4: "path2parentinode [slash] nm (renamed (Suc k)) = Inr ((None, nm), renamed (Suc k))" for nm
    using root_path(2)[of "renamed (Suc k)" "1 + 2 * int (Suc k)"] by (simp add: renamed_fields)
  show ?thesis by (simp add: reply_as_def myfuse_rename_def b 1 2 3 4)
qed

lemma rename_roots:
  "k + n \<le> 8 \<Longrightarrow> serve_all filler (replicate n (Rename [slash] [slash] 0)) (renamed k) = Inr (replicate n (Plain (- ENOENT)), renamed (k + n))"
  by (induction n arbitrary: k) (simp_all add: rename_root del: serve.simps)

theorem handlers_balanced_witness:
  "serve (\<lambda>b _ _. (b, 0)) (Rename [slash] [slash] 0 :: unit request) (renamed 0) = Inr (Plain (- ENOENT), renamed 1) \<and> lg_outstanding (renamed 1) = 1"
  using handlers_balanced[OF rename_root[of 0 "\<lambda>b _ _. (b, 0)"]] rename_root[of 0 "\<lambda>(b::unit) _ _. (b, 0)"] by (simp add: renamed_fields del: serve.simps)

theorem eight_leaks_block_witness:
  "serve_all (\<lambda>b _ _. (b, 0)) (replicate 8 (Rename [slash] [slash] 0 :: unit request)) (renamed 0) = Inr (replicate 8 (Plain (- ENOENT)), renamed 8) \<and>
    serve (\<lambda>b _ _. (b, 0)) (Unlink [slash, 97] :: unit request) (renamed 8) = Inl Blocked"
proof -
  let ?f = "\<lambda>(b::unit) (_::name) (_::stat). (b, 0::int)"
  have r: "serve_all ?f (replicate 8 (Rename [slash] [slash] 0)) (renamed 0) = Inr (replicate 8 (Plain (- ENOENT)), renamed 8)"
    using rename_roots[of 0 8 ?f] by simp
  have n: "8 \<le> leaked (replicate 8 (Rename [slash] [slash] 0 :: unit request)) (replicate 8 (Plain (- ENOENT)))"
    by (simp add: leaked_def zip_replicate)
  show ?thesis using r eight_leaks_block[OF r n] by (simp add: renamed_fields)
qed

end
