(* ===== verification/Handlers.thy ===== *)
theory Handlers
  imports Requests Op_Balance
begin

text \<open>
  The handlers of \<^verbatim>\<open>file.c\<close> that change the file system, as operations on the map \<open>abs_fs\<close>: what
  each answers and does to the map and to the counts of references, and when it returns.
\<close>

section \<open>Making a directory\<close>

text \<open>References are only held to inodes in use.\<close>

definition refs_ok :: "'a itable_scheme \<Rightarrow> bool" where
  "refs_ok s \<longleftrightarrow> (\<forall>k. abs_fs s k = None \<longrightarrow> refcount s k = 0)"

lemma refs_okD: "refs_ok s \<Longrightarrow> abs_fs s k = None \<Longrightarrow> refcount s k = 0"
  by (simp add: refs_ok_def)

lemma fs_tick:
  fixes s :: "'a itable_scheme"
  assumes ok: "fs_phys s" and o: "open_at s k ip"
  shows "fs_phys (s\<lparr>ticks := n\<rparr>)" "abs_fs (s\<lparr>ticks := n\<rparr>) = abs_fs s" "refcount (s\<lparr>ticks := n\<rparr>) = refcount s"
    "entry_of (s\<lparr>ticks := n\<rparr>) = entry_of s" "open_at (s\<lparr>ticks := n\<rparr>) k ip" "fbytes (s\<lparr>ticks := n\<rparr>) ip = fbytes s ip"
    "geo (s\<lparr>ticks := n\<rparr>) = geo s"
proof -
  let ?t = "s\<lparr>ticks := n\<rparr>"
  note d = fs_physD[OF ok]
  have fo: "file_ok s ip" using o by (simp add: open_at_def)
  note t = tick_keep[OF fo, of n]
  show "fbytes ?t ip = fbytes s ip" by (rule fbytes_cong[OF t(2)])
  have sy: "synced ?t ip"
  proof -
    have "view ?t = view s" by simp
    then have "disk_inode ?t = disk_inode s" by (intro disk_inode_cong) simp_all
    then show ?thesis using o by (simp add: synced_def open_at_def)
  qed
  have e: "entry_of s k = Some ip" "mi_valid (it_inode s ip)" using o by (simp_all add: open_at_def)
  note st = fs_keep_step[OF ok e t(1) fbytes_cong[OF t(2)] sy]
  show "fs_phys ?t" "abs_fs ?t = abs_fs s" "refcount ?t = refcount s" "entry_of ?t = entry_of s" "geo ?t = geo s" by (rule st)+
  show "open_at ?t k ip" using o e sy file_keepD(1)[OF t(1)] st(4) by (simp add: open_at_def)
qed

lemma itable_ticks: "it_n (s\<lparr>ticks := n\<rparr>) = it_n s" "it_inode (s\<lparr>ticks := n\<rparr>) = it_inode s"
  by simp_all

lemma stamp_form:
  assumes g: "field_change g" and ok: "fs_phys s" and o: "open_at s k ip"
  obtains h where "stamp_inode ip (upd_inode ip g s) = upd_inode ip h (s\<lparr>ticks := Suc (ticks s)\<rparr>)" "field_change h"
    "\<And>i. di_nlink (h i) = di_nlink (g i) \<and> di_perm (h i) = di_perm (g i) \<and> di_size (h i) = di_size (g i)"
    "file_ok (stamp_inode ip (upd_inode ip g s)) ip"
proof -
  let ?c = "clock s (ticks s)" and ?t = "s\<lparr>ticks := Suc (ticks s)\<rparr>"
  let ?h = "\<lambda>i. (g i)\<lparr>di_atime := ?c, di_mtime := ?c, di_ctime := ?c\<rparr>"
  have e: "stamp_inode ip (upd_inode ip g s) = upd_inode ip ?h ?t"
    by (simp add: stamp_inode_def get_current_timespec_def upd_inode_def fun_upd_def fun_eq_iff)
  have h: "field_change ?h" using g by (simp add: field_change_def)
  have fo: "file_ok ?t ip" using fs_tick(5)[OF ok o] by (simp add: open_at_def)
  show ?thesis by (rule that[of ?h]) (use e h changed_file_ok(1)[OF fo h] in simp_all)
qed

lemma fs_stamp:
  assumes ok: "fs_phys s" and o: "open_at s k ip" and g: "field_change g"
    and run: "iupdate ip (stamp_inode ip (upd_inode ip g s)) = Inr (u, s')"
  shows "fs_phys s'" "abs_fs s' = (abs_fs s)(k \<mapsto> (entry_file s ip)\<lparr>af_nlink := di_nlink (g (it_inode s ip)),
      af_perm := di_perm (g (it_inode s ip)), af_size := di_size (g (it_inode s ip))\<rparr>)"
    "refcount s' = refcount s" "entry_of s' = entry_of s" "open_at s' k ip" "locks_in (insert ip X) s \<Longrightarrow> locks_in (insert ip X) s'"
    "geo s' = geo s"
proof -
  let ?t = "s\<lparr>ticks := Suc (ticks s)\<rparr>"
  note T = fs_tick[OF ok o, of "Suc (ticks s)"]
  obtain h where h: "stamp_inode ip (upd_inode ip g s) = upd_inode ip h ?t" "field_change h"
    "\<And>i. di_nlink (h i) = di_nlink (g i) \<and> di_perm (h i) = di_perm (g i) \<and> di_size (h i) = di_size (g i)"
    by (rule stamp_form[OF g ok o]) (rule that)
  have fo: "file_ok ?t ip" using T(5) by (simp add: open_at_def)
  note U = open_iupdate[OF T(1,5) h(2) run[unfolded h(1)]]
  have "fbytes (upd_inode ip h ?t) ip = fbytes s ip" using changed_file_ok(2)[OF fo h(2)] T(6) by simp
  then have "entry_file (upd_inode ip h ?t) ip = (entry_file s ip)\<lparr>af_nlink := di_nlink (g (it_inode s ip)),
      af_perm := di_perm (g (it_inode s ip)), af_size := di_size (g (it_inode s ip))\<rparr>"
    using field_changeD(6)[OF h(2)] h(3)[of "it_inode s ip"] by (simp add: entry_file_def Let_def)
  then show "abs_fs s' = (abs_fs s)(k \<mapsto> (entry_file s ip)\<lparr>af_nlink := di_nlink (g (it_inode s ip)),
      af_perm := di_perm (g (it_inode s ip)), af_size := di_size (g (it_inode s ip))\<rparr>)" using U(2) T(2) by simp
  show "fs_phys s'" "refcount s' = refcount s" "entry_of s' = entry_of s" "open_at s' k ip" "geo s' = geo s" using U T by simp_all
  show "locks_in (insert ip X) s \<Longrightarrow> locks_in (insert ip X) s'"
    using U(6,7) unfolding locks_in_def by (metis insertCI itable_ticks)
qed

lemma fs_put_free:
  assumes ok: "fs_phys s" and o: "open_at s k ip" and a: "abs_fs s k = Some a" "af_nlink a = 0" and r: "refcount s k = 1"
    and run: "iunlockput ip s = Inr (u, s')"
  shows "fs_phys s'" "abs_fs s' = (abs_fs s)(k := None)" "refcount s' = (refcount s)(k := 0)" "entry_of s' = (entry_of s)(k := None)"
    "locks_kept {ip} s s'" "geo s' = geo s"
proof -
  note l = fs_iunlock[OF ok, of ip]
  have e: "entry_of s k = Some ip" "mi_valid (it_inode s ip)" using o by (simp_all add: open_at_def)
  have r': "mi_ref (it_inode s ip) = 1" using r e by (simp add: refcount_def)
  have u: "entry_of (iunlock ip s) k = Some ip" "abs_fs (iunlock ip s) k = Some a" "mi_ref (it_inode (iunlock ip s) ip) = 1"
    "mi_valid (it_inode (iunlock ip s) ip)" "iput ip (iunlock ip s) = Inr (u, s')"
    using l e a r' run by (simp_all add: iunlock_def iunlockput_def)
  note f = fs_free[OF l(1) u(1,2) a(2) u(3-5)]
  show "fs_phys s'" "abs_fs s' = (abs_fs s)(k := None)" "refcount s' = (refcount s)(k := 0)" "entry_of s' = (entry_of s)(k := None)"
    "geo s' = geo s" using f l by simp_all
  have "locks_kept {ip} s (iunlock ip s)" by (rule locks_keptI) (simp add: iunlock_def)
  then show "locks_kept {ip} s s'" by (rule locks_kept_trans[OF _ f(5)])
qed

lemma open_distinct: "fs_phys s \<Longrightarrow> entry_of s k = Some i \<Longrightarrow> entry_of s j = Some i' \<Longrightarrow> k \<noteq> j \<Longrightarrow> i \<noteq> i'"
  using entry_of_Some[OF fs_physD(6)] by metis

text \<open>The directory \<open>mkdir\<close> makes, and the state in which it gets to \<open>dirlink\<close>.\<close>

definition new_dir :: "uint \<Rightarrow> afile" where
  "new_dir mode = (new_file T_DIR)\<lparr>af_nlink := 1, af_perm := mode\<rparr>"

definition parent_room :: "(uint \<Rightarrow> afile option) \<Rightarrow> cpath \<Rightarrow> bool" where
  "parent_room fs path \<longleftrightarrow>
    (\<forall>p a. walk_parent fs (components path) ROOTINO = Some p \<longrightarrow> fs p = Some a \<longrightarrow> unat (af_size a) + dirent_size < 2 ^ 31)"

lemma mkdir_steps:
  assumes ok: "fs_ok s" and rf: "refs_ok s" and z: "0 \<notin> set path" and run: "myfuse_mkdir path mode s = Inr (r, s')"
  obtains p a dp k ip name s5 x s6 where "walk_parent (abs_fs s) (components path) ROOTINO = Some p" "abs_fs s p = Some a" "af_type a = T_DIR"
      "af_nlink a \<noteq> 0" "cname name = take DIRSIZE (last (components path))"
      "k \<noteq> 0" "abs_fs s k = None" "k \<noteq> p" "fs_phys s5" "abs_fs s5 = (abs_fs s)(k \<mapsto> new_file T_DIR)"
      "refcount s5 = add_ref k 1 (add_ref p 1 (refcount s))" "open_at s5 k ip" "open_at s5 p dp" "geo s5 = geo s"
      "dirlink dp name k s5 = Inr (x, s6)"
      "(if x \<noteq> 0 then
         chain (iunlockput ip s6) (\<lambda>(_, s).
         chain (end_op s) (\<lambda>(_, s).
         Inr (- EEXIST, s)))
       else
         chain (iunlockput dp s6) (\<lambda>(_, s).
         let s = stamp_inode ip (upd_inode ip (\<lambda>i. i\<lparr>di_nlink := 1, di_perm := mode\<rparr>) s) in
         chain (iupdate ip s) (\<lambda>(_, s).
         chain (iunlockput ip s) (\<lambda>(_, s).
         chain (end_op s) (\<lambda>(_, s).
         Inr (0, s)))))) = Inr (r, s')"
proof -
  have ph: "fs_phys s" "names_ok (abs_fs s)" using ok by (simp_all add: fs_ok_def)
  obtain s1 d name s2 ip s3 s4 dp s5 x s6 where 1: "begin_op s = Inr ((), s1)" "path2parentinode path (\<lambda>_. 0) s1 = Inr ((d, name), s2)"
    "ialloc T_DIR s2 = Inr (ip, s3)" "ilock ip s3 = Inr ((), s4)" "d = Some dp" "ilock dp s4 = Inr ((), s5)"
    "dirlink dp name (mi_inum (it_inode s5 ip)) s5 = Inr (x, s6)"
    using run by (auto simp: myfuse_mkdir_def chain_eq_Inr ilock_ptr_def split: option.splits)
  have rest: "(if x \<noteq> 0 then
         chain (iunlockput ip s6) (\<lambda>(_, s).
         chain (end_op s) (\<lambda>(_, s).
         Inr (- EEXIST, s)))
       else
         chain (iunlockput dp s6) (\<lambda>(_, s).
         let s = stamp_inode ip (upd_inode ip (\<lambda>i. i\<lparr>di_nlink := 1, di_perm := mode\<rparr>) s) in
         chain (iupdate ip s) (\<lambda>(_, s).
         chain (iunlockput ip s) (\<lambda>(_, s).
         chain (end_op s) (\<lambda>(_, s).
         Inr (0, s)))))) = Inr (r, s')"
    using run 1 by (simp add: myfuse_mkdir_def ilock_ptr_def)
  note b = fs_begin_op[OF ph(1) 1(1)]
  have ok1: "fs_ok s1" using b ph by (simp add: fs_ok_def)
  note P = fs_path2parentinode[OF ok1 z 1(2)]
  obtain p where p: "walk_parent (abs_fs s) (components path) ROOTINO = Some p" "entry_of s2 p = Some dp"
    "refcount s2 = add_ref p 1 (refcount s)" "cname name = take DIRSIZE (last (components path))"
    using P b 1(5) by (auto split: option.splits)
  have ok2: "fs_phys s2" "abs_fs s2 = abs_fs s" using P b by (auto simp: fs_ok_def)
  have "\<exists>a. abs_fs s p = Some a \<and> af_type a = T_DIR" "walk (abs_fs s) (butlast (components path)) ROOTINO = Some p"
    using p(1) by (auto simp: walk_parent_def bind_eq_Some_conv split: if_splits)
  then obtain a where a: "abs_fs s p = Some a" "af_type a = T_DIR" "af_nlink a \<noteq> 0" by (metis walk_root[OF ph(2)] option.inject)
  obtain k where k: "inum_ok s2 k" "abs_fs s2 k = None" "fs_phys s3" "abs_fs s3 = (abs_fs s2)(k \<mapsto> new_file T_DIR)" "entry_of s3 k = Some ip"
    "refcount s3 = add_ref k 1 (refcount s2)" "\<And>j. j \<noteq> k \<Longrightarrow> entry_of s3 j = entry_of s2 j" "geo s3 = geo s2"
    using fs_ialloc[OF ok2(1) _ 1(3)] by blast
  have kp: "k \<noteq> p" using k(2) a(1) ok2(2) by auto
  have e3: "entry_of s3 p = Some dp" "abs_fs s3 k = Some (new_file T_DIR)" "abs_fs s3 p = Some a" using k(4,7) kp p(2) a(1) ok2(2) by simp_all
  note L = fs_lock[OF k(3,5) e3(2) 1(4)]
  have e4: "entry_of s4 p = Some dp" "abs_fs s4 p = Some a" using L e3 by simp_all
  note M = fs_lock[OF L(1) e4 1(6)]
  have ne: "ip \<noteq> dp" by (rule open_distinct[OF k(3,5) e3(1) kp])
  have ok5: "open_at s5 k ip"
    by (rule open_kept[OF L(5) lock_kept[OF L(1) e4 1(6), of "{}"] _ L(1) M(1)]) (use M(4) L(4) k(5) in simp_all)
  have ik: "mi_inum (it_inode s5 ip) = k" by (rule open_entry(3)[OF M(1) ok5])
  have k0: "k \<noteq> 0" using k(1) by (auto simp: inum_ok_def)
  have ge: "geo s5 = geo s" using M(7) L(7) k(8) path_super(2)[OF ok1 z 1(2)] b(7) by simp
  show ?thesis
    by (rule that[OF p(1) a p(4) k0 _ kp M(1) _ _ ok5 M(5) ge 1(7)[unfolded ik] rest]) (use k L M ok2 p(3) in simp_all)
qed
lemma fs_mkdir:
  assumes ok: "fs_ok s" and rf: "refs_ok s" and z: "0 \<notin> set path" and room: "parent_room (abs_fs s) path"
    and run: "myfuse_mkdir path mode s = Inr (r, s')"
  shows "\<exists>p a. walk_parent (abs_fs s) (components path) ROOTINO = Some p \<and> abs_fs s p = Some a \<and> fs_ok s' \<and> refs_ok s' \<and> geo s' = geo s \<and> flushed s' \<and>
    (case names_dir a (take DIRSIZE (last (components path))) of
       Some _ \<Rightarrow> r = - EEXIST \<and> abs_fs s' = abs_fs s \<and> refcount s' = add_ref p 1 (refcount s) \<and> (\<exists>dp. open_at s' p dp)
     | None \<Rightarrow> r = 0 \<and> refcount s' = refcount s \<and>
         (\<exists>k b. abs_fs s k = None \<and> abs_fs s' = (abs_fs s)(p \<mapsto> b, k \<mapsto> new_dir mode) \<and>
           names_dir b = (names_dir a)(take DIRSIZE (last (components path)) \<mapsto> k) \<and> af_type b = T_DIR \<and> af_nlink b = af_nlink a \<and> af_perm b = af_perm a \<and>
           unat (af_size b) \<le> unat (af_size a) + dirent_size))"
proof (rule mkdir_steps[OF ok rf z run])
  let ?nm = "take DIRSIZE (last (components path))"
  fix p a dp k ip name s5 x s6
  assume p: "walk_parent (abs_fs s) (components path) ROOTINO = Some p" "abs_fs s p = Some a" "af_type a = T_DIR" "af_nlink a \<noteq> 0"
    and nm: "cname name = ?nm" and k: "k \<noteq> 0" "abs_fs s k = None" "k \<noteq> p"
    and s5: "fs_phys s5" "abs_fs s5 = (abs_fs s)(k \<mapsto> new_file T_DIR)" "refcount s5 = add_ref k 1 (add_ref p 1 (refcount s))"
    and o: "open_at s5 k ip" "open_at s5 p dp" and ge: "geo s5 = geo s" and dl: "dirlink dp name k s5 = Inr (x, s6)"
    and rest: "(if x \<noteq> 0 then
         chain (iunlockput ip s6) (\<lambda>(_, s).
         chain (end_op s) (\<lambda>(_, s).
         Inr (- EEXIST, s)))
       else
         chain (iunlockput dp s6) (\<lambda>(_, s).
         let s = stamp_inode ip (upd_inode ip (\<lambda>i. i\<lparr>di_nlink := 1, di_perm := mode\<rparr>) s) in
         chain (iupdate ip s) (\<lambda>(_, s).
         chain (iunlockput ip s) (\<lambda>(_, s).
         chain (end_op s) (\<lambda>(_, s).
         Inr (0, s)))))) = Inr (r, s')"
  have no: "names_ok (abs_fs s)" using ok by (simp add: fs_ok_def)
  have no5: "names_ok (abs_fs s5)" unfolding s5(2) by (rule names_ok_new[OF no k(2)]) (simp add: empty_dir)
  have ok5: "fs_ok s5" using s5(1) no5 by (simp add: fs_ok_def)
  have a5: "abs_fs s5 p = Some a" using s5(2) p(2) k(3) by simp
  have rm: "unat (af_size a) + dirent_size < 2 ^ 31" using room p(1,2) by (simp add: parent_room_def)
  have R: "fs_phys s6" "refcount s6 = refcount s5" "entry_of s6 = entry_of s5" "locks_kept {} s5 s6" "geo s6 = geo s5"
    and C: "case names_dir a ?nm of
       Some _ \<Rightarrow> x = -1 \<and> abs_fs s6 = abs_fs s5
     | None \<Rightarrow> x = 0 \<and> (\<exists>b. abs_fs s6 = (abs_fs s5)(p \<mapsto> b) \<and> names_dir b = (names_dir a)(?nm \<mapsto> k) \<and> dir_form b \<and>
         af_type b = T_DIR \<and> af_nlink b = af_nlink a \<and> af_perm b = af_perm a \<and> unat (af_size b) \<le> unat (af_size a) + dirent_size)"
    using fs_dirlink[OF ok5 o(2) a5 p(3) k(1) rm dl, of "{}"] unfolding nm by blast+
  have e: "entry_of s6 k = Some ip" "entry_of s6 p = Some dp" using o R(3) by (simp_all add: open_at_def)
  have ne: "ip \<noteq> dp" by (rule open_distinct[OF R(1) e k(3)])
  have o6: "open_at s6 k ip" "open_at s6 p dp" using open_kept[OF _ R(4) _ s5(1) R(1)] o e by simp_all
  have rk: "refcount s k = 0" by (rule refs_okD[OF rf k(2)])
  show ?thesis
  proof (cases "names_dir a ?nm")
    case (Some j)
    then have x: "x = -1" "abs_fs s6 = abs_fs s5" using C by simp_all
    then obtain s7 u where 7: "iunlockput ip s6 = Inr ((), s7)" "end_op s7 = Inr (u, s')" "r = - EEXIST"
      using rest by (auto simp: chain_eq_Inr)
    have f: "abs_fs s6 k = Some (new_file T_DIR)" "af_nlink (new_file T_DIR) = 0" "refcount s6 k = 1"
      using x(2) s5(2,3) R(2) rk k(3) by (simp_all add: new_file_def add_ref_def)
    note F = fs_put_free[OF R(1) o6(1) f 7(1)]
    note E = fs_end_op[OF F(1) 7(2)]
    have "entry_of s7 p = Some dp" using F(4) e(2) k(3) by simp
    then have o7: "open_at s7 p dp" using open_kept[OF o6(2) F(5) _ R(1) F(1)] ne by simp
    have o8: "open_at s' p dp" by (rule open_atI[OF E(1)]) (use o7 E in \<open>simp_all add: open_at_def\<close>)
    have ab: "abs_fs s' = abs_fs s" using E(2) F(2) x(2) s5(2) k(2) by auto
    have rc: "refcount s' = add_ref p 1 (refcount s)"
      using E(3) F(3) R(2) s5(3) rk k(3) by (auto simp: add_ref_def fun_eq_iff)
    have "refs_ok s'" using rf p(2) by (auto simp: refs_ok_def ab rc add_ref_def)
    then show ?thesis using p 7(3) E(1,7,8) F(6) R(5) ge no ab rc o8 Some by (auto simp: fs_ok_def)
  next
    case None
    then obtain b where x: "x = 0" and b: "abs_fs s6 = (abs_fs s5)(p \<mapsto> b)" "names_dir b = (names_dir a)(?nm \<mapsto> k)" "dir_form b"
      "af_type b = T_DIR" "af_nlink b = af_nlink a" "af_perm b = af_perm a" "unat (af_size b) \<le> unat (af_size a) + dirent_size" using C by auto
    then obtain s7 s8 s9 u where 7: "iunlockput dp s6 = Inr ((), s7)"
      "iupdate ip (stamp_inode ip (upd_inode ip (\<lambda>i. i\<lparr>di_nlink := 1, di_perm := mode\<rparr>) s7)) = Inr ((), s8)"
      "iunlockput ip s8 = Inr ((), s9)" "end_op s9 = Inr (u, s')" "r = 0"
      using rest by (auto simp: chain_eq_Inr Let_def)
    have b6: "abs_fs s6 p = Some b" "af_nlink b \<noteq> 0" using b p(4) by simp_all
    note U = fs_put[OF R(1) e(2) b6 7(1)]
    have r6: "refcount s6 k = 1" using s5(3) R(2) rk k(3) by (simp add: add_ref_def)
    have e7: "entry_of s7 k = Some ip" using U(4)[of k] e(1) k(3) by simp
    have o7: "open_at s7 k ip" using open_kept[OF o6(1) put_form(2)[OF R(1) e(2) b6 7(1)] _ R(1) U(1) e7] ne by simp
    have a7: "abs_fs s7 k = Some (new_file T_DIR)" using U(2) b(1) s5(2) k(3) by simp
    have g: "field_change (\<lambda>i. i\<lparr>di_nlink := 1, di_perm := mode\<rparr>)" by (simp add: field_change_def)
    have ef: "entry_file s7 ip = new_file T_DIR" using open_entry(1)[OF U(1) o7] a7 by simp
    then have "di_size (it_inode s7 ip) = 0" using entry_file_sel(3)[of s7 ip] by (simp add: new_file_def)
    then have nd: "(entry_file s7 ip)\<lparr>af_nlink := di_nlink ((it_inode s7 ip)\<lparr>di_nlink := 1, di_perm := mode\<rparr>),
      af_perm := di_perm ((it_inode s7 ip)\<lparr>di_nlink := 1, di_perm := mode\<rparr>), af_size := di_size ((it_inode s7 ip)\<lparr>di_nlink := 1, di_perm := mode\<rparr>)\<rparr> = new_dir mode"
      by (simp add: ef new_dir_def new_file_def)
    note S = fs_stamp[OF U(1) o7 g 7(2), unfolded nd]
    have e8: "entry_of s8 k = Some ip" "abs_fs s8 k = Some (new_dir mode)" "af_nlink (new_dir mode) \<noteq> 0"
      using S e7 by (simp_all add: new_dir_def)
    note V = fs_put[OF S(1) e8 7(3)]
    note E = fs_end_op[OF V(1) 7(4)]
    have ab: "abs_fs s' = (abs_fs s)(p \<mapsto> b, k \<mapsto> new_dir mode)"
      using E(2) V(2) S(2) U(2) b(1) s5(2) k(3) by (simp add: fun_upd_twist)
    have rc: "refcount s' = refcount s"
      using E(3) V(3) S(3) U(3) R(2) s5(3) by (simp add: add_ref_swap[of k "- 1"] add_ref_add)
    have no1: "names_ok ((abs_fs s)(k \<mapsto> new_dir mode))"
      by (rule names_ok_new[OF no k(2)]) (use empty_dir[of T_DIR] names_dir_cong[of "new_dir mode" "new_file T_DIR"] in \<open>simp add: new_dir_def\<close>)
    have "names_ok (((abs_fs s)(k \<mapsto> new_dir mode))(p \<mapsto> b))"
    proof (rule names_ok_change[OF no1])
      show "((abs_fs s)(k \<mapsto> new_dir mode)) p = Some a" using p(2) k(3) by simp
      show "names_dir a nm' = Some j \<or> (\<exists>c. ((abs_fs s)(k \<mapsto> new_dir mode, p \<mapsto> b)) j = Some c \<and> af_nlink c \<noteq> 0)"
        if "names_dir b nm' = Some j" for nm' j
        using that b(2) k(3) e8(3) by (auto split: if_splits)
    qed (use b p in simp_all)
    then have "fs_ok s'" using E(1) ab k(3) by (simp add: fs_ok_def fun_upd_twist)
    moreover have "refs_ok s'" using rf by (simp add: refs_ok_def ab rc)
    moreover have "geo s' = geo s" using E(7) V(5) S(7) U(5) R(5) ge by simp
    ultimately show ?thesis using p 7(5) ab rc None b k(2) E(8) by (intro exI[of _ p] exI[of _ a]) auto
  qed
qed

section \<open>Requests that make something return\<close>

lemma locks_in_cong: "it_n s' = it_n s \<Longrightarrow> it_inode s' = it_inode s \<Longrightarrow> locks_in X s' = locks_in X s"
  by (simp add: locks_in_def)

text \<open>The log between requests: no operation is open and nothing waits to be written.\<close>

definition quiet :: "nat \<Rightarrow> 'a itable_scheme \<Rightarrow> bool" where
  "quiet f s \<longleftrightarrow> lg_outstanding s = 0 \<and> lh_n s = 0 \<and> f \<le> card (free_blocks s)"

lemma quiet_room: "quiet f s \<Longrightarrow> int w < lg_size s \<Longrightarrow> w < 121 \<Longrightarrow> op_room w f s"
  by (simp add: quiet_def op_room_def NLOG_def MAXOPBLOCKS_def)

lemma quiet_mono: "quiet f s \<Longrightarrow> f' \<le> f \<Longrightarrow> quiet f' s"
  by (simp add: quiet_def)

lemma end_quiet:
  assumes ok: "fs_phys s" and run: "end_op s = Inr (u, s')" and q: "quota w f s" and out: "lg_outstanding s' = 0"
  shows "quiet f s'"
proof -
  note d = fs_physD[OF ok]
  note st = end_op_step[OF d(1,2,5) run]
  have one: "lg_outstanding s = 1" using st out by simp
  have l: "lh_n s' = 0" using end_op_last[OF d(1,2) one d(5)] run by (auto elim!: returnsE)
  have m: "dev_nblk s' = dev_nblk s" "lg_start s' = lg_start s" "lg_size s' = lg_size s" "fslog.more s' = fslog.more s" using st by simp_all
  note f = bm_fields_more[OF m(4)]
  have "data_block s' = data_block s" by (simp add: fun_eq_iff data_block_def m)
  moreover have "bm_block s' = bm_block s" by (simp add: bm_block_def f fun_eq_iff)
  ultimately have "usable s' = usable s" by (simp add: usable_def f fun_eq_iff)
  then have "free_blocks s' = free_blocks s" by (simp add: free_blocks_def f bm_bit_cong[OF f(2)])
  then show ?thesis using q l out by (simp add: quiet_def quota_def)
qed

lemma peek_total:
  assumes ok: "fs_phys s" and us: "usable s b" and q: "quota w f s"
  obtains h s1 where "logged_read b s = Inr (h, s1)" "quota w f (logged_relse h s1)"
proof -
  note d = fs_physD[OF ok]
  have db: "data_block s b" using us by (simp add: usable_def)
  have hb: "held s b = None" using d(2) by simp
  obtain h s1 where rd: "logged_read b s = Inr (h, s1)" by (rule logged_read_returns[OF d(1) disjI1[OF d(2)] db hb])
  note m = lg.read_release[OF d(1) db rd]
  have fr: "bm_frame (logged_relse h s1) = bm_frame s" by (rule bm_frame_of_log_frame[OF m(5)])
  note it = it_frame_of_bm_frame[OF fr] and same = bm_same[OF m(5)]
  have c: "n_log_wrote (logged_relse h s1) = n_log_wrote s" "lh_n (logged_relse h s1) = lh_n s"
  proof -
    have "bcache.more s1 = bcache.more s"
      using bc.rd_law[OF log_readyD(1)[OF d(1)] data_block_inrange[OF db] rd[unfolded logged_read_def]] by simp
    then show "n_log_wrote (logged_relse h s1) = n_log_wrote s" "lh_n (logged_relse h s1) = lh_n s"
      using log_fields_more[of s1 s] log_fields_more[of "logged_relse h s1" s1] by (simp_all add: logged_relse_def)
  qed
  have "quota w f (logged_relse h s1)"
    using q free_blocks_cong[OF it(1)] same m it_frameD[OF it(1)] by (simp add: quota_def c)
  then show ?thesis by (rule that[OF rd])
qed

lemma take_total:
  assumes ok: "fs_phys s" and us: "usable s b" and q: "quota (1 + w) f s"
  obtains h s1 s2 where "logged_read b s = Inr (h, s1)" "logged_write h (set_data h (D (buf_data s1 h)) s1) = Inr ((), s2)"
    "quota w f (logged_relse h s2)"
proof -
  note d = fs_physD[OF ok]
  have db: "data_block s b" using us by (simp add: usable_def)
  have hb: "few_held s" "held s b = None" using d(2) by simp_all
  have rm: "lh_n s < lg_size s - 1" "1 \<le> lg_outstanding s" using q by (simp_all add: quota_def)
  obtain h s1 s2 where r: "logged_read b s = Inr (h, s1)" "logged_write h (set_data h (D (buf_data s1 h)) s1) = Inr ((), s2)"
    by (rule modify_returns[OF d(1) hb db rm, where D = D])
  note m = modify_usable[OF d(1,3) us r]
  note it = it_frame_of_bm_frame[OF m(4)]
  note c = modify_count[OF d(1) db r]
  have "logged_as s (logged_relse h s2) 1" using c by (simp add: logged_as_def)
  then have "quota w f (logged_relse h s2)"
    using quota_step[of 1 w 0 f s "logged_relse h s2" 1] q free_blocks_cong[OF it(1) m(7)] it by simp
  then show ?thesis by (rule that[OF r])
qed

lemma ialloc_from_returns:
  assumes "fs_phys s" "n = unat (sb_ninodes (fs_sb s))" "0 < inum" "t \<in> {T_DIR, T_FILE, T_DEVICE}"
    and "quota (1 + w) f s" "locks_in X s"
    and "\<exists>j. inum \<le> j \<and> j < n \<and> abs_fs s (word_of_nat j) = None"
  shows "\<exists>ip s'. ialloc_from n t inum s = Inr (ip, s') \<and> quota w f s' \<and> locks_in X s'"
  using assms
proof (induction n t inum s rule: ialloc_from.induct)
  case (1 n t inum s)
  note prems = "1.prems"
  let ?k = "word_of_nat inum :: uint"
  have lt: "inum < n" using prems(7) by auto
  have n32: "n < 2 ^ 32" unfolding prems(2) using unsigned_less[of "sb_ninodes (fs_sb s)", where ?'a = nat] by simp
  then have u: "unat ?k = inum" using lt by (simp add: unsigned_of_nat take_bit_nat_eq_self)
  have io: "inum_ok s ?k" using lt prems(2,3) u by (simp add: inum_ok_def)
  have us: "usable s (IBLOCK ?k s)" by (rule fs_physD(10)[OF prems(1) io])
  show ?case
  proof (cases "di_type (disk_inode s ?k) = T_UNUSE")
    case True
    let ?D = "\<lambda>d. put16 (clear_dinode d (dinode_off ?k)) (dinode_off ?k) t"
    obtain bp s1 s2 where r: "logged_read (IBLOCK ?k s) s = Inr (bp, s1)" "logged_write bp (set_data bp (?D (buf_data s1 bp)) s1) = Inr ((), s2)"
      "quota w f (logged_relse bp s2)" by (rule take_total[OF prems(1) us prems(5), where D = ?D])
    note T = fs_take_inode[OF prems(1) io True prems(4) r(1,2)]
    note pk = fs_peek[OF prems(1) us r(1)]
    have ty: "get16 (buf_data s1 bp) (dinode_off ?k) = T_UNUSE"
      using True by (simp add: pk(1) disk_inode_def dinode.truncate_def get_dinode_def)
    obtain ip s' where g: "iget ?k (logged_relse bp s2) = Inr (ip, s')"
      using iget_got[OF fs_physD(6,7)[OF T(1)], of ?k] by (auto elim!: returnsE)
    have l: "locks_in X (logged_relse bp s2)" using prems(6) locks_in_cong[OF T(6,5)] by simp
    have "ialloc_from n t inum s = Inr (ip, s')" using lt r ty g by (simp add: ialloc_from.simps[of n] Let_def)
    moreover have "quota w f s'" "locks_in X s'" using iget_locks[OF T(1) g] r(3) l by simp_all
    ultimately show ?thesis by blast
  next
    case False
    obtain bp s1 where r: "logged_read (IBLOCK ?k s) s = Inr (bp, s1)" "quota (1 + w) f (logged_relse bp s1)"
      by (rule peek_total[OF prems(1) us prems(5)])
    note pk = fs_peek[OF prems(1) us r(1)]
    have ty: "get16 (buf_data s1 bp) (dinode_off ?k) \<noteq> T_UNUSE"
      using False by (simp add: pk(1) disk_inode_def dinode.truncate_def get_dinode_def)
    have l: "locks_in X (logged_relse bp s1)" using prems(6) locks_in_cong[OF pk(7,6)] by simp
    have "abs_fs s ?k \<noteq> None" using io False by (simp add: abs_fs_def Let_def)
    then have j: "\<exists>j. Suc inum \<le> j \<and> j < n \<and> abs_fs (logged_relse bp s1) (word_of_nat j) = None"
      using prems(7) pk(3) by (metis Suc_leI le_neq_implies_less)
    have "\<exists>ip s'. ialloc_from n t (Suc inum) (logged_relse bp s1) = Inr (ip, s') \<and> quota w f s' \<and> locks_in X s'"
      by (rule "1.IH"[OF lt r(1) _ refl ty]) (use pk prems(2-4) r(2) l j in simp_all)
    then show ?thesis using lt r(1) ty by (simp add: ialloc_from.simps[of n t inum s] Let_def)
  qed
qed

definition free_inode :: "'a itable_scheme \<Rightarrow> bool" where
  "free_inode s \<longleftrightarrow> (\<exists>k. inum_ok s k \<and> abs_fs s k = None)"

lemma ialloc_returns:
  assumes ok: "fs_phys s" and t: "t \<in> {T_DIR, T_FILE, T_DEVICE}" and fr: "free_inode s" and q: "quota (1 + w) f s" "locks_in X s"
  obtains ip s' where "ialloc t s = Inr (ip, s')" "quota w f s'" "locks_in X s'"
proof -
  obtain k where k: "inum_ok s k" "abs_fs s k = None" using fr by (auto simp: free_inode_def)
  have "\<exists>j. 1 \<le> j \<and> j < unat (sb_ninodes (fs_sb s)) \<and> abs_fs s (word_of_nat j) = None"
    using k by (intro exI[of _ "unat k"]) (auto simp: inum_ok_def)
  then show ?thesis using ialloc_from_returns[OF ok refl _ t q, of 1] that by (auto simp: ialloc_def)
qed

lemma keep_locks_in:
  assumes "file_keep s s' ip" "locks_in X s"
  shows "locks_in X s'"
proof -
  note f = file_keepD[OF assms(1)]
  have "mi_locked (it_inode s' j) = mi_locked (it_inode s j)" for j using metaD(4)[OF f(3)] f(4)[of j] by (cases "j = ip") simp_all
  then show ?thesis using assms(2) it_frameD(5)[OF f(2)] by (simp add: locks_in_def)
qed

lemma dirlink_locks:
  assumes ok: "fs_ok s" and o: "open_at s k dp" and a: "abs_fs s k = Some a" "af_type a = T_DIR"
    and room: "unat (af_size a) + dirent_size < 2 ^ 31" and run: "dirlink dp nm inum s = Inr (r, s')" and q: "locks_in X s"
  shows "locks_in X s'"
proof -
  have ph: "fs_phys s" using ok by (simp add: fs_ok_def)
  note D = open_dir_ok[OF ok o a]
  have eo: "entry_of s k = Some dp" "mi_valid (it_inode s dp)" using o by (simp_all add: open_at_def)
  have sz: "unat (di_size (it_inode s dp)) + dirent_size < 2 ^ 31"
    using open_entry(1)[OF ph o] a(1) room by (simp add: entry_file_sel)
  show ?thesis
  proof (cases rule: dirlink_steps[OF D(1) run, case_names found new])
    case (found i ip s0 s1)
    note st = fs_keep_step[OF ph eo found(3,4,7)]
    have "locks_in X s1" by (rule iget_locks(2)[OF st(1) found(8) keep_locks_in[OF found(3) q]])
    moreover have "s' = upd_inode ip (\<lambda>i. i\<lparr>mi_ref := mi_ref i - 1\<rparr>) s1"
      using iput_got(1)[OF fs_iget(3)[OF st(1) found(8)] fs_physD(6)[OF st(1)] found(9)] .
    ultimately show ?thesis by (simp add: iput_locks)
  next
    case (new i s2 x)
    note st = fs_keep_step[OF ph eo new(4,5,7)]
    have o2: "open_at s2 k dp"
      by (rule open_atI[OF st(1)]) (use st(4) o metaD[OF file_keepD(3)[OF new(4)]] in \<open>simp_all add: open_at_def\<close>)
    have in31: "i \<le> dir_slots s dp" unfolding new(3) by (auto dest: find_from_Some split: option.splits)
    have i31: "dirent_size * Suc i < 2 ^ 31"
      using sz mult_le_mono2[OF in31, of dirent_size] unfolding dir_okD(7)[OF D(1)] mult_Suc_right by linarith
    let ?off = "word_of_nat (dirent_size * i) :: size_t" and ?n = "word_of_nat dirent_size :: size_t"
    have u: "unat ?off = dirent_size * i" "unat ?n = dirent_size" unfolding unsigned_of_nat using i31
      by (simp_all add: take_bit_nat_eq_self dirent_size_def)
    have fits: "unat ?off + unat ?n < 2 ^ 64" using i31 unfolding u by simp
    have le: "\<not> ?off > MAXFILE_SIZE" using i31 u by (simp add: word_less_nat_alt unat_MAXFILE_SIZE map_sizes BSIZE_def)
    note W = open_write[OF st(1) o2 fits le new(9)]
    have "mi_locked (it_inode s' j) = mi_locked (it_inode s2 j)" for j
      using W(5) W(13)[of j] o2 by (cases "j = dp") (simp_all add: open_at_def)
    then show ?thesis using keep_locks_in[OF new(4) q] W(12) by (simp add: locks_in_def)
  qed
qed

text \<open>
  Making a directory under a new name returns when the log has room for the path and nineteen more
  writes, five more blocks are free, an inode number is free, and the entries of the directory with
  one more fit into a block.
\<close>

lemma mkdir_returns:
  assumes ok: "fs_ok s" and rf: "refs_ok s" and z: "0 \<notin> set path" and sl: "path \<noteq> []" "hd path = slash"
    and l: "locks_in {} s" and sm: "small_dirs (abs_fs s)" and fr: "free_inode s"
    and p: "walk_parent (abs_fs s) (components path) ROOTINO = Some p" "abs_fs s p = Some a" "unat (af_size a) + dirent_size \<le> BSIZE"
    and new: "names_dir a (take DIRSIZE (last (components path))) = None"
    and q: "op_room (12 * length (components path) + 19) (4 * length (components path) + (4 + f)) s" "1 \<le> f"
  shows "\<exists>s'. myfuse_mkdir path mode s = Inr (0, s') \<and> locks_in {} s' \<and> (lg_outstanding s = 0 \<longrightarrow> quiet f s')"
proof -
  have ph: "fs_phys s" "names_ok (abs_fs s)" using ok by (simp_all add: fs_ok_def)
  obtain s1 where 1: "begin_op s = Inr ((), s1)" "quota (12 * length (components path) + 19) (4 * length (components path) + (4 + f)) s1" "locks_in {} s1"
    by (rule begin_returns[OF ph(1) q(1) l]) simp
  note b = fs_begin_op[OF ph(1) 1(1)]
  have ok1: "fs_ok s1" using b ph by (simp add: fs_ok_def)
  have sm1: "small_dirs (abs_fs s1)" using sm b by simp
  obtain d name s2 where 2: "path2parentinode path (\<lambda>_. 0) s1 = Inr ((d, name), s2)" "quota 19 (4 + f) s2" "locks_in {} s2"
    using path_total(2)[OF ok1 z sl 1(3) sm1 1(2), of "\<lambda>_. 0"] q(2) by auto
  note P = fs_path2parentinode[OF ok1 z 2(1)]
  obtain dp where dp: "d = Some dp" "entry_of s2 p = Some dp" "refcount s2 = add_ref p 1 (refcount s)" "cname name = take DIRSIZE (last (components path))"
    using P b p(1) by auto
  have ok2: "fs_phys s2" "abs_fs s2 = abs_fs s" using P b by (auto simp: fs_ok_def)
  have io: "inum_ok s2 = inum_ok s" using geo_sb(1)[OF path_super(2)[OF ok1 z 2(1)]] geo_sb(1)[OF b(7)] by (simp add: inum_ok_def fun_eq_iff)
  have fr2: "free_inode s2" using fr by (simp add: free_inode_def io ok2)
  have q2: "quota (1 + 18) (4 + f) s2" using 2(2) by simp
  obtain ip s3 where 3: "ialloc T_DIR s2 = Inr (ip, s3)" "quota 18 (4 + f) s3" "locks_in {} s3"
    by (rule ialloc_returns[OF ok2(1) _ fr2 q2 2(3), of T_DIR]) simp
  obtain k where k: "inum_ok s2 k" "abs_fs s2 k = None" "fs_phys s3" "abs_fs s3 = (abs_fs s2)(k \<mapsto> new_file T_DIR)" "entry_of s3 k = Some ip"
    "refcount s3 = add_ref k 1 (refcount s2)" "\<And>j. j \<noteq> k \<Longrightarrow> entry_of s3 j = entry_of s2 j"
    using fs_ialloc[OF ok2(1) _ 3(1)] by blast
  have kp: "k \<noteq> p" using k(2) p(2) ok2(2) by auto
  have e3: "entry_of s3 p = Some dp" "abs_fs s3 k = Some (new_file T_DIR)" "abs_fs s3 p = Some a" using k(4,7) kp dp(2) p(2) ok2(2) by simp_all
  have lt3: "ip < it_n s3" "dp < it_n s3" using k(5) e3(1) entry_of_Some[OF fs_physD(6)[OF k(3)]] by auto
  have ne: "ip \<noteq> dp" by (rule open_distinct[OF k(3,5) e3(1) kp])
  obtain s4 where 4: "ilock ip s3 = Inr ((), s4)" by (rule ilock_returns[OF k(3,5) e3(2)]) (use 3(3) lt3 in \<open>auto simp: locks_in_def\<close>)
  note L = fs_lock[OF k(3,5) e3(2) 4] and L' = ilock_locks[OF k(3,5) e3(2) 4 3(3,2)]
  have e4: "entry_of s4 p = Some dp" "abs_fs s4 p = Some a" using L e3 by simp_all
  have lt4: "dp < it_n s4" using e4(1) entry_of_Some[OF fs_physD(6)[OF L(1)]] by auto
  obtain s5 where 5: "ilock dp s4 = Inr ((), s5)"
    by (rule ilock_returns[OF L(1) e4]) (use L'(1) lt4 ne in \<open>auto simp: locks_in_def\<close>)
  note M = fs_lock[OF L(1) e4 5] and M' = ilock_locks[OF L(1) e4 5 L']
  have o5: "open_at s5 k ip"
    by (rule open_kept[OF L(5) lock_kept[OF L(1) e4 5, of "{}"] _ L(1) M(1)]) (use M(4) L(4) k(5) in simp_all)
  have ik: "mi_inum (it_inode s5 ip) = k" by (rule open_entry(3)[OF M(1) o5])
  have a5: "abs_fs s5 p = Some a" using M(2) e4 by simp
  have td: "af_type a = T_DIR" "af_nlink a \<noteq> 0"
  proof -
    have "\<exists>a. abs_fs s p = Some a \<and> af_type a = T_DIR" "walk (abs_fs s) (butlast (components path)) ROOTINO = Some p"
      using p(1) by (auto simp: walk_parent_def bind_eq_Some_conv split: if_splits)
    then show "af_type a = T_DIR" "af_nlink a \<noteq> 0" using walk_root[OF ph(2)] p(2) by (metis option.inject)+
  qed
  have no5: "names_ok (abs_fs s5)" using names_ok_new[OF ph(2) k(2)[unfolded ok2(2)], of "new_file T_DIR"] k(4) M(2) L(2) ok2(2)
    by (simp add: empty_dir)
  have ok5: "fs_ok s5" using M(1) no5 by (simp add: fs_ok_def)
  note D = open_dir_ok[OF ok5 M(5) a5 td(1)]
  have sz5: "unat (di_size (it_inode s5 dp)) + dirent_size \<le> BSIZE"
    using open_entry(1)[OF M(1,5)] a5 p(3) by (simp add: entry_file_sel)
  have q5: "quota (1 + 11 + (4 + 2)) (4 + f) s5" using M'(2) by simp
  have need: "map_need s5 dp 0 11 4" by (simp add: map_need_def)
  obtain x s6 where 6: "dirlink dp name k s5 = Inr (x, s6)" "quota 2 f s6" by (rule dirlink_returns[OF D(1) sz5 need q5 q(2)])
  have rm: "unat (af_size a) + dirent_size < 2 ^ 31" using p(3) by (simp add: BSIZE_def)
  have k0: "k \<noteq> 0" using k(1) by (auto simp: inum_ok_def)
  have l6: "locks_in (insert dp (insert ip {})) s6" by (rule dirlink_locks[OF ok5 M(5) a5 td(1) rm 6(1) M'(1)])
  note R = fs_dirlink[OF ok5 M(5) a5 td(1) k0 rm 6(1), of "{}", unfolded dp(4)]
  then obtain c where x: "x = 0" and c: "abs_fs s6 = (abs_fs s5)(p \<mapsto> c)" "af_nlink c \<noteq> 0" using new td(2) by auto
  have ph6: "fs_phys s6" and en6: "entry_of s6 = entry_of s5" and lk6: "locks_kept {} s5 s6" using R by blast+
  have e6: "entry_of s6 k = Some ip" "entry_of s6 p = Some dp" using o5 M(5) en6 by (simp_all add: open_at_def)
  have o6: "open_at s6 k ip" using open_kept[OF o5 lk6 _ M(1) ph6] e6 by simp
  have c6: "abs_fs s6 p = Some c" using c by simp
  obtain s7 where 7: "iunlockput dp s6 = Inr ((), s7)" "locks_in (insert ip {}) s7" "quota 2 f s7"
    by (rule put_returns[OF ph6 e6(2) c6 c(2) l6 6(2)])
  note U = fs_put[OF ph6 e6(2) c6 c(2) 7(1)]
  have e7: "entry_of s7 k = Some ip" using U(4)[of k] e6(1) kp by simp
  have o7: "open_at s7 k ip" using open_kept[OF o6 put_form(2)[OF ph6 e6(2) c6 c(2) 7(1)] _ ph6 U(1) e7] ne by simp
  let ?g = "\<lambda>i :: minode. i\<lparr>di_nlink := 1, di_perm := mode\<rparr>"
  have g: "field_change ?g" by (simp add: field_change_def)
  let ?t = "stamp_inode ip (upd_inode ip ?g s7)"
  have ft: "file_ok ?t ip" by (rule stamp_form[OF g U(1) o7])
  have q7: "quota (1 + 1) f ?t" using 7(3) by (simp add: stamp_inode_def get_current_timespec_def table_quota quota_def free_blocks_def bm_bit_def) 
  obtain s8 where 8: "iupdate ip ?t = Inr ((), s8)" "quota 1 f s8" by (rule iupdate_quota[OF ft q7])
  note S = fs_stamp[OF U(1) o7 g 8(1)]
  have l8: "locks_in (insert ip {}) s8" by (rule S(6)[OF 7(2)])
  have e8: "entry_of s8 k = Some ip" using S e7 by simp
  obtain c8 where f: "abs_fs s8 k = Some c8" "af_nlink c8 \<noteq> 0" using S(2) by auto
  obtain s9 where 9: "iunlockput ip s8 = Inr ((), s9)" "locks_in {} s9" "quota 1 f s9" by (rule put_returns[OF S(1) e8 f l8 8(2)])
  note V = fs_put[OF S(1) e8 f 9(1)]
  obtain s' where 10: "end_op s9 = Inr ((), s')" "locks_in {} s'" by (rule end_returns[OF V(1) 9(2)])
  have run: "myfuse_mkdir path mode s = Inr (0, s')"
    using 1(1) 2(1) 3(1) 4 5 6(1) 7(1) 8(1) 9(1) 10(1) x dp(1) by (simp add: myfuse_mkdir_def ilock_ptr_def ik)
  have "quiet f s'" if "lg_outstanding s = 0"
    by (rule end_quiet[OF V(1) 10(1) 9(3)]) (use myfuse_mkdir_outs[OF run] that in simp)
  then show ?thesis using run 10(2) by blast
qed

section \<open>Changing the permissions\<close>

lemma open_fs_ok:
  assumes ok: "names_ok fs" and a: "fs k = Some a" and b: "af_type b = af_type a" "af_nlink a \<noteq> 0 \<Longrightarrow> af_nlink b \<noteq> 0" "af_size b = af_size a" "af_bytes b = af_bytes a"
  shows "names_ok (fs(k \<mapsto> b))"
  by (rule names_ok_change[OF ok a b(1,2)]) (use names_dir_cong[OF b(4,3)] names_okD(2)[OF ok a] b(1) in auto)

lemma chmod_steps:
  assumes ok: "fs_ok s" and z: "0 \<notin> set path" and w: "walk (abs_fs s) (components path) ROOTINO = Some k" "abs_fs s k = Some a"
    and s2: "fs_ok s2" "abs_fs s2 = abs_fs s" "entry_of s2 k = Some ip" "refcount s2 = add_ref k 1 (refcount s)" and il: "ilock ip s2 = Inr ((), s3)"
  shows "af_nlink a \<noteq> 0" "fs_phys s3" "open_at s3 k ip" "entry_file s3 ip = a" "refcount s3 = refcount s2" "abs_fs s3 = abs_fs s"
proof -
  have ph: "fs_phys s" "names_ok (abs_fs s)" "fs_phys s2" using ok s2(1) by (simp_all add: fs_ok_def)
  show "af_nlink a \<noteq> 0" using walk_root[OF ph(2) w(1)] w(2) by (metis option.inject)
  have a2: "abs_fs s2 k = Some a" using w(2) s2(2) by simp
  note L = fs_lock[OF ph(3) s2(3) a2 il]
  show "fs_phys s3" "open_at s3 k ip" "entry_file s3 ip = a" "refcount s3 = refcount s2" "abs_fs s3 = abs_fs s" using L s2(2) by simp_all
qed

lemma fs_chmod:
  assumes ok: "fs_ok s" and z: "0 \<notin> set path" and run: "myfuse_chmod path mode s = Inr (r, s')"
  shows "fs_ok s' \<and> refcount s' = refcount s \<and> geo s' = geo s \<and> (r = 0 \<longrightarrow> flushed s') \<and>
    (case walk (abs_fs s) (components path) ROOTINO of
       None \<Rightarrow> r = - ENOENT \<and> abs_fs s' = abs_fs s
     | Some k \<Rightarrow> r = 0 \<and> (\<exists>a. abs_fs s k = Some a \<and> abs_fs s' = (abs_fs s)(k \<mapsto> a\<lparr>af_perm := and mode 0x1FF\<rparr>)))"
proof -
  have ph: "fs_phys s" "names_ok (abs_fs s)" using ok by (simp_all add: fs_ok_def)
  obtain s1 p s2 where 1: "begin_op s = Inr ((), s1)" "path2inode path s1 = Inr (p, s2)"
    and rest: "(case p of
      None \<Rightarrow> Inr (- ENOENT, s2)
    | Some ip \<Rightarrow>
        chain (ilock ip s2) (\<lambda>(_, s).
        let s = upd_inode ip (\<lambda>i. i\<lparr>di_perm := and mode 0x1FF\<rparr>) s in
        chain (iupdate ip s) (\<lambda>(_, s).
        chain (iunlockput ip s) (\<lambda>(_, s).
        chain (end_op s) (\<lambda>(_, s).
        Inr (0, s)))))) = Inr (r, s')"
    using run by (auto simp: myfuse_chmod_def chain_eq_Inr)
  note b = fs_begin_op[OF ph(1) 1(1)]
  have ok1: "fs_ok s1" using b ph by (simp add: fs_ok_def)
  note P = fs_path2inode[OF ok1 z 1(2)]
  have ok2: "fs_ok s2" "abs_fs s2 = abs_fs s" "geo s2 = geo s" using P b path_super(1)[OF ok1 z 1(2)] by simp_all
  show ?thesis
  proof (cases "walk (abs_fs s) (components path) ROOTINO")
    case None
    then show ?thesis using rest P b ok2 by (auto simp: ENOENT_def)
  next
    case (Some k)
    then obtain ip where p: "p = Some ip" "entry_of s2 k = Some ip" "refcount s2 = add_ref k 1 (refcount s)" using P b by auto
    obtain a where a: "abs_fs s k = Some a" by (rule walk_root[OF ph(2) Some])
    let ?g = "\<lambda>i :: minode. i\<lparr>di_perm := and mode 0x1FF\<rparr>"
    let ?b = "a\<lparr>af_perm := and mode 0x1FF\<rparr>"
    obtain s3 s4 s5 u where 3: "ilock ip s2 = Inr ((), s3)" "iupdate ip (upd_inode ip ?g s3) = Inr ((), s4)"
      "iunlockput ip s4 = Inr ((), s5)" "end_op s5 = Inr (u, s')" "r = 0"
      using rest p(1) by (auto simp: chain_eq_Inr Let_def)
    note L = chmod_steps[OF ok z Some a ok2(1,2) p(2,3) 3(1)]
    have a2: "abs_fs s2 k = Some a" "fs_phys s2" using a ok2 by (simp_all add: fs_ok_def)
    have g3: "geo s3 = geo s" using fs_lock(7)[OF a2(2) p(2) a2(1) 3(1)] ok2(3) by simp
    have g: "field_change ?g" by (simp add: field_change_def)
    note U = open_iupdate[OF L(2,3) g 3(2)]
    have fo: "file_ok s3 ip" using L(3) by (simp add: open_at_def)
    have "entry_file (upd_inode ip ?g s3) ip = ?b"
      using changed_file_ok(2)[OF fo g] L(4) by (auto simp: entry_file_def Let_def)
    then have a4: "abs_fs s4 = (abs_fs s)(k \<mapsto> ?b)" using U(2) L(6) by simp
    have e4: "entry_of s4 k = Some ip" "abs_fs s4 k = Some ?b" "af_nlink ?b \<noteq> 0" using U(4) L(1,3) a4 by (simp_all add: open_at_def)
    note V = fs_put[OF U(1) e4 3(3)]
    note E = fs_end_op[OF V(1) 3(4)]
    have "names_ok ((abs_fs s)(k \<mapsto> ?b))" by (rule open_fs_ok[OF ph(2) a]) simp_all
    then show ?thesis using E V U L p 3(5) a4 a g3 Some by (auto simp: fs_ok_def)
  qed
qed

lemma chmod_returns:
  assumes ok: "fs_ok s" and z: "0 \<notin> set path" and sl: "path \<noteq> []" "hd path = slash" and l: "locks_in {} s" and sm: "small_dirs (abs_fs s)"
    and q: "op_room (12 * length (components path) + 1) (4 * length (components path) + 1) s"
  shows "\<exists>r s'. myfuse_chmod path mode s = Inr (r, s') \<and> locks_in {} s'"
proof -
  have ph: "fs_phys s" "names_ok (abs_fs s)" using ok by (simp_all add: fs_ok_def)
  obtain s1 where 1: "begin_op s = Inr ((), s1)" "quota (12 * length (components path) + 1) (4 * length (components path) + 1) s1" "locks_in {} s1"
    by (rule begin_returns[OF ph(1) q l])
  note b = fs_begin_op[OF ph(1) 1(1)]
  have ok1: "fs_ok s1" using b ph by (simp add: fs_ok_def)
  have sm1: "small_dirs (abs_fs s1)" using sm b by simp
  obtain p s2 where 2: "path2inode path s1 = Inr (p, s2)" "quota 1 1 s2" "locks_in {} s2"
    using path_total(1)[OF ok1 z sl 1(3) sm1 1(2)] by auto
  note P = fs_path2inode[OF ok1 z 2(1)]
  have ok2: "fs_ok s2" "abs_fs s2 = abs_fs s" using P b by simp_all
  then have ph2: "fs_phys s2" by (simp add: fs_ok_def)
  show ?thesis
  proof (cases p)
    case None
    then show ?thesis using 1(1) 2 by (simp add: myfuse_chmod_def)
  next
    case (Some ip)
    then obtain k where k: "walk (abs_fs s) (components path) ROOTINO = Some k" "entry_of s2 k = Some ip" "refcount s2 = add_ref k 1 (refcount s)"
      using P b by (auto split: option.splits)
    obtain a where a: "abs_fs s k = Some a" by (rule walk_root[OF ph(2) k(1)])
    have a2: "abs_fs s2 k = Some a" using a ok2 by simp
    have "ip < it_n s2" using k(2) entry_of_Some[OF fs_physD(6)[OF ph2]] by auto
    then have ul: "\<not> mi_locked (it_inode s2 ip)" using 2(3) by (auto simp: locks_in_def)
    obtain s3 where 3: "ilock ip s2 = Inr ((), s3)" by (rule ilock_returns[OF ph2 k(2) a2 ul])
    note L = chmod_steps[OF ok z k(1) a ok2 k(2,3) 3] and Q = ilock_locks[OF ph2 k(2) a2 3 2(3,2)]
    let ?g = "\<lambda>i :: minode. i\<lparr>di_perm := and mode 0x1FF\<rparr>"
    have g: "field_change ?g" by (simp add: field_change_def)
    have fo: "file_ok s3 ip" using L(3) by (simp add: open_at_def)
    have q3: "quota (1 + 0) 1 (upd_inode ip ?g s3)" using Q(2) by (simp add: table_quota)
    obtain s4 where 4: "iupdate ip (upd_inode ip ?g s3) = Inr ((), s4)" "quota 0 1 s4"
      by (rule iupdate_quota[OF changed_file_ok(1)[OF fo g] q3])
    note U = open_iupdate[OF L(2,3) g 4(1)]
    have l4: "locks_in (insert ip {}) s4" using Q(1) U(6,7) unfolding locks_in_def by (metis insertCI)
    let ?b = "entry_file (upd_inode ip ?g s3) ip"
    have e4: "entry_of s4 k = Some ip" "abs_fs s4 k = Some ?b" using U L by (simp_all add: open_at_def)
    have nl: "af_nlink ?b \<noteq> 0" using L(1,4) by (auto simp: entry_file_def Let_def)
    obtain s5 where 5: "iunlockput ip s4 = Inr ((), s5)" "locks_in {} s5" "quota 0 1 s5" by (rule put_returns[OF U(1) e4 nl l4 4(2)])
    note V = fs_put[OF U(1) e4 nl 5(1)]
    obtain s6 where "end_op s5 = Inr ((), s6)" "locks_in {} s6" by (rule end_returns[OF V(1) 5(2)])
    then show ?thesis using 1(1) 2(1) 3 4(1) 5(1) Some by (simp add: myfuse_chmod_def Let_def)
  qed
qed

section \<open>Reading and writing through a handle\<close>

text \<open>The handle \<open>fi\<close> stands for the inode number \<open>k\<close>.\<close>

definition handle_of :: "fuse_info \<Rightarrow> uint \<Rightarrow> nat \<Rightarrow> 'a ftab_scheme \<Rightarrow> bool" where
  "handle_of fi k ip s \<longleftrightarrow> (\<exists>f. fi_fh fi = Some f \<and> f_ip (ft_file s f) = Some ip) \<and> entry_of s k = Some ip"

text \<open>The file after \<open>m\<close> bytes of \<open>data\<close> were written at \<open>off\<close>.\<close>

definition written :: "afile \<Rightarrow> nat \<Rightarrow> nat \<Rightarrow> (nat \<Rightarrow> byte) \<Rightarrow> afile" where
  "written a off m data = a\<lparr>af_size := word_of_nat (max (unat (af_size a)) (off + m)), af_bytes := upd_bytes (af_bytes a) off m data\<rparr>"

lemma unlock_end:
  assumes ok: "fs_phys s" and run: "end_op (iunlock ip s) = Inr (u, s')"
  shows "fs_phys s'" "abs_fs s' = abs_fs s" "refcount s' = refcount s" "entry_of s' = entry_of s" "geo s' = geo s"
  using fs_end_op[OF fs_iunlock(1)[OF ok] run] fs_iunlock[OF ok, of ip] by simp_all

lemma file_change_ok:
  assumes "names_ok fs" "fs k = Some a" "af_type a \<noteq> T_DIR" "af_type b = af_type a" "af_nlink b = af_nlink a"
  shows "names_ok (fs(k \<mapsto> b))"
  by (rule names_ok_change[OF assms(1,2)]) (use assms in simp_all)

lemma open_stays:
  assumes ok: "fs_phys s" and e: "entry_of s k = Some ip" and a: "abs_fs s k = Some a"
    and 1: "begin_op s = Inr ((), s1)" and 2: "ilock ip s1 = Inr ((), s2)"
  shows "fs_phys s2" "abs_fs s2 = abs_fs s" "refcount s2 = refcount s" "entry_of s2 = entry_of s" "open_at s2 k ip" "entry_file s2 ip = a"
    "geo s2 = geo s"
proof -
  note b = fs_begin_op[OF ok 1]
  have e1: "entry_of s1 k = Some ip" "abs_fs s1 k = Some a" using b e a by simp_all
  note L = fs_lock[OF b(1) e1 2]
  show "fs_phys s2" "abs_fs s2 = abs_fs s" "refcount s2 = refcount s" "entry_of s2 = entry_of s" "open_at s2 k ip" "entry_file s2 ip = a"
    "geo s2 = geo s" using L b by simp_all
qed

lemma fs_write:
  assumes ok: "fs_ok s" and h: "handle_of fi k ip s" and a: "abs_fs s k = Some a" "af_type a \<noteq> T_DIR"
    and fits: "unat off + unat n < 2 ^ 64" and run: "myfuse_write data n off fi s = Inr (r, s')"
  shows "fs_ok s' \<and> refcount s' = refcount s \<and> entry_of s' = entry_of s \<and> geo s' = geo s \<and>
    (if off > MAXFILE_SIZE then r = 0 \<and> abs_fs s' = abs_fs s
     else let m = min (unat n) (unat MAXFILE_SIZE - unat off) in
       r = to_int (int m) \<and> abs_fs s' = (abs_fs s)(k \<mapsto> written a (unat off) m data))"
proof -
  have ph: "fs_phys s" "names_ok (abs_fs s)" using ok by (simp_all add: fs_ok_def)
  have e: "entry_of s k = Some ip" using h by (simp add: handle_of_def)
  obtain s1 s2 s3 x u where 1: "begin_op s = Inr ((), s1)" "ilock ip s1 = Inr ((), s2)" "inode_write_nbytes_locked ip data n off s2 = Inr (x, s3)"
    "end_op (iunlock ip s3) = Inr (u, s')" "r = to_int x"
    using run h by (auto simp: myfuse_write_def handle_of_def inode_write_nbytes_unlocked_def chain_eq_Inr)
  note L = open_stays[OF ph(1) e a(1) 1(1,2)]
  show ?thesis
  proof (cases "off > MAXFILE_SIZE")
    case True
    then have "x = 0" "s3 = s2" using 1(3) by (simp_all add: inode_write_nbytes_locked_def)
    then show ?thesis using True unlock_end[OF L(1)] 1(4,5) L ph by (auto simp: fs_ok_def to_int_def)
  next
    case False
    note W = open_write[OF L(1,5) fits False 1(3)]
    note E = unlock_end[OF W(1) 1(4)]
    define m where "m = min (unat n) (unat MAXFILE_SIZE - unat off)"
    have sz: "word_of_nat (unat w) = w" for w :: size_t by simp
    have as: "af_size a = di_size (it_inode s2 ip)" "af_bytes a = fbytes s2 ip" using L(6) entry_file_sel[of s2 ip] by simp_all
    have "entry_file s3 ip = written a (unat off) m data"
      using W(7-11) L(6) sz[of "di_size (it_inode s3 ip)"] by (auto simp: written_def entry_file_def Let_def m_def)
    then have ab: "abs_fs s' = (abs_fs s)(k \<mapsto> written a (unat off) m data)" using E(2) W(2) L(2) by simp
    have "names_ok (abs_fs s')" unfolding ab by (rule file_change_ok[OF ph(2) a]) (simp_all add: written_def)
    then show ?thesis using False E W(3,4,6) W(14) L 1(5) ab by (simp add: fs_ok_def m_def Let_def)
  qed
qed

lemma fs_read:
  assumes ok: "fs_ok s" and h: "handle_of fi k ip s" and a: "abs_fs s k = Some a" "af_size a \<le> MAXFILE_SIZE"
    and fits: "unat off + unat n < 2 ^ 64" and run: "myfuse_read buf n off fi s = Inr ((r, buf'), s')"
  shows "fs_ok s' \<and> refcount s' = refcount s \<and> entry_of s' = entry_of s \<and> geo s' = geo s \<and> abs_fs s' = abs_fs s \<and>
    (if off > af_size a then r = 0 \<and> buf' = buf
     else let m = min (unat n) (unat (af_size a) - unat off) in
       r = to_int (int m) \<and> buf' = upd_bytes buf 0 m (\<lambda>j. af_bytes a (unat off + j)))"
proof -
  have ph: "fs_phys s" "names_ok (abs_fs s)" using ok by (simp_all add: fs_ok_def)
  have e: "entry_of s k = Some ip" using h by (simp add: handle_of_def)
  obtain s1 s2 s3 x u where 1: "begin_op s = Inr ((), s1)" "ilock ip s1 = Inr ((), s2)" "inode_read_nbytes_locked ip buf n off s2 = Inr ((x, buf'), s3)"
    "end_op (iunlock ip s3) = Inr (u, s')" "r = to_int x"
    using run h by (auto simp: myfuse_read_def handle_of_def inode_read_nbytes_unlocked_def chain_eq_Inr)
  note L = open_stays[OF ph(1) e a(1) 1(1,2)]
  have as: "af_size a = di_size (it_inode s2 ip)" "af_bytes a = fbytes s2 ip" using L(6) entry_file_sel[of s2 ip] by simp_all
  show ?thesis
  proof (cases "off > af_size a")
    case True
    then have "x = 0" "s3 = s2" "buf' = buf" using 1(3) as by (simp_all add: inode_read_nbytes_locked_def)
    then show ?thesis using True unlock_end[OF L(1)] 1(4,5) L ph by (auto simp: fs_ok_def to_int_def)
  next
    case False
    have fo: "file_ok s2 ip" and eo: "entry_of s2 k = Some ip" "mi_valid (it_inode s2 ip)" using L(5) by (simp_all add: open_at_def)
    have lim: "di_size (it_inode s2 ip) \<le> MAXFILE_SIZE" "\<not> off > di_size (it_inode s2 ip)" using a(2) False as by simp_all
    note R = read_steps[OF fo fits lim(1) 1(3) lim(2) refl]
    note K = fs_keep_step[OF L(1) eo R(2,3,5)]
    show ?thesis using False unlock_end[OF K(1) 1(4)] K L R(1,4) 1(5) as ph by (simp add: fs_ok_def Let_def)
  qed
qed

text \<open>Both return when they stay inside one block.\<close>

lemma handle_lock:
  assumes ok: "fs_ok s" and h: "handle_of fi k ip s" and a: "abs_fs s k = Some a" and l: "locks_in {} s" and q: "op_room w f s"
  obtains s1 s2 where "begin_op s = Inr ((), s1)" "ilock ip s1 = Inr ((), s2)" "quota w f s2" "locks_in {ip} s2"
proof -
  have ph: "fs_phys s" using ok by (simp add: fs_ok_def)
  have e: "entry_of s k = Some ip" using h by (simp add: handle_of_def)
  obtain s1 where 1: "begin_op s = Inr ((), s1)" "quota w f s1" "locks_in {} s1" by (rule begin_returns[OF ph q l])
  note b = fs_begin_op[OF ph 1(1)]
  have e1: "entry_of s1 k = Some ip" "abs_fs s1 k = Some a" using b e a by simp_all
  have "ip < it_n s1" using e1(1) entry_of_Some[OF fs_physD(6)[OF b(1)]] by auto
  then have ul: "\<not> mi_locked (it_inode s1 ip)" using 1(3) by (auto simp: locks_in_def)
  obtain s2 where 2: "ilock ip s1 = Inr ((), s2)" by (rule ilock_returns[OF b(1) e1 ul])
  show ?thesis by (rule that[OF 1(1) 2]) (use ilock_locks[OF b(1) e1 2 1(3,2)] in simp_all)
qed

lemma write_returns:
  assumes ok: "fs_ok s" and h: "handle_of fi k ip s" and a: "abs_fs s k = Some a" and l: "locks_in {} s" and q: "op_room 14 (4 + f) s" "1 \<le> f"
    and lim: "unat off < unat MAXFILE_SIZE" "unat off mod BSIZE + unat n \<le> BSIZE"
  shows "\<exists>r s'. myfuse_write data n off fi s = Inr (r, s') \<and> locks_in {} s' \<and> (lg_outstanding s = 0 \<longrightarrow> quiet f s')"
proof -
  have ph: "fs_phys s" using ok by (simp add: fs_ok_def)
  have e: "entry_of s k = Some ip" using h by (simp add: handle_of_def)
  obtain s1 s2 where 1: "begin_op s = Inr ((), s1)" "ilock ip s1 = Inr ((), s2)" "quota 14 (4 + f) s2" "locks_in {ip} s2"
    by (rule handle_lock[OF ok h a l q(1)])
  note L = open_stays[OF ph e a 1(1,2)]
  have fo: "file_ok s2 ip" using L(5) by (simp add: open_at_def)
  have q2: "quota (3 + 11 + 0) (4 + f) s2" using 1(3) by simp
  obtain s3 where 3: "inode_write_nbytes_locked ip data n off s2 = Inr (int (unat n), s3)" "quota 0 f s3"
    by (rule write_total[OF fo _ q2 q(2) lim, of data]) (simp_all add: map_need_def)
  have fits: "unat off + unat n < 2 ^ 64" using lim by (simp add: unat_MAXFILE_SIZE map_sizes BSIZE_def)
  note W = open_write[OF L(1,5) fits _ 3(1)]
  have lw: "\<not> off > MAXFILE_SIZE" using lim(1) by (simp add: word_less_nat_alt)
  have "locks_in (insert ip {}) s3" using W(12)[OF lw] W(13)[OF lw] 1(4) unfolding locks_in_def by (metis insertCI)
  then have l3: "locks_in {} (iunlock ip s3)" by (rule iunlock_locks)
  obtain s' where 4: "end_op (iunlock ip s3) = Inr ((), s')" "locks_in {} s'" by (rule end_returns[OF fs_iunlock(1)[OF W(1)[OF lw]] l3])
  have run: "myfuse_write data n off fi s = Inr (to_int (int (unat n)), s')"
    using h 1(1,2) 3(1) 4(1) by (auto simp: myfuse_write_def handle_of_def inode_write_nbytes_unlocked_def)
  have q3: "quota 0 f (iunlock ip s3)" using 3(2) by (simp add: iunlock_def table_quota)
  have "quiet f s'" if "lg_outstanding s = 0"
    by (rule end_quiet[OF fs_iunlock(1)[OF W(1)[OF lw]] 4(1) q3]) (use myfuse_write_outs[OF run] that in simp)
  then show ?thesis using run 4(2) by blast
qed

lemma read_returns:
  assumes ok: "fs_ok s" and h: "handle_of fi k ip s" and a: "abs_fs s k = Some a" "af_size a \<le> MAXFILE_SIZE" and l: "locks_in {} s" and q: "op_room 12 5 s"
    and lim: "unat off + unat n \<le> unat (af_size a)" "unat off < unat (af_size a)" "unat off mod BSIZE + unat n \<le> BSIZE"
  shows "\<exists>r b s'. myfuse_read buf n off fi s = Inr ((r, b), s') \<and> locks_in {} s'"
proof -
  have ph: "fs_phys s" using ok by (simp add: fs_ok_def)
  have e: "entry_of s k = Some ip" using h by (simp add: handle_of_def)
  obtain s1 s2 where 1: "begin_op s = Inr ((), s1)" "ilock ip s1 = Inr ((), s2)" "quota 12 5 s2" "locks_in {ip} s2"
    by (rule handle_lock[OF ok h a(1) l q])
  note L = open_stays[OF ph e a(1) 1(1,2)]
  have fo: "file_ok s2 ip" and eo: "entry_of s2 k = Some ip" "mi_valid (it_inode s2 ip)" using L(5) by (simp_all add: open_at_def)
  have as: "af_size a = di_size (it_inode s2 ip)" using L(6) entry_file_sel[of s2 ip] by simp
  have q2: "quota (1 + 11 + 0) (4 + 1) s2" using 1(3) by simp
  have lim': "unat off + unat n \<le> unat (di_size (it_inode s2 ip))" "unat off < unat MAXFILE_SIZE" "di_size (it_inode s2 ip) \<le> MAXFILE_SIZE"
    using lim a(2) as by (simp_all add: word_le_nat_alt)
  obtain b s3 where 3: "inode_read_nbytes_locked ip buf n off s2 = Inr ((int (unat n), b), s3)"
    by (rule read_total[OF fo _ q2 _ lim'(1,2) lim(3) lim'(3), of buf]) (simp_all add: map_need_def)
  have fits: "unat off + unat n < 2 ^ 64" using lim'(1) unsigned_less[of "di_size (it_inode s2 ip)", where ?'a = nat] by simp
  have le: "\<not> off > di_size (it_inode s2 ip)" using lim(2) as by (simp add: word_less_nat_alt)
  note R = read_steps[OF fo fits lim'(3) 3 le refl]
  note K = fs_keep_step[OF L(1) eo R(2,3,5)]
  have "locks_in (insert ip {}) s3" by (rule keep_locks_in[OF R(2) 1(4)])
  then have l3: "locks_in {} (iunlock ip s3)" by (rule iunlock_locks)
  obtain s' where "end_op (iunlock ip s3) = Inr ((), s')" "locks_in {} s'" by (rule end_returns[OF fs_iunlock(1)[OF K(1)] l3])
  then show ?thesis using h 1(1,2) 3 by (auto simp: myfuse_read_def handle_of_def inode_read_nbytes_unlocked_def)
qed

section \<open>What the requests do to the file system\<close>

text \<open>Walking along a path finds at least what it found before when no name is taken away.\<close>

lemma walk_mono:
  assumes m: "\<And>k a nm j. fs k = Some a \<Longrightarrow> af_type a = T_DIR \<Longrightarrow> names_dir a nm = Some j \<Longrightarrow>
      \<exists>b. fs' k = Some b \<and> af_type b = T_DIR \<and> names_dir b nm = Some j"
    and w: "walk fs es k = Some l"
  shows "walk fs' es k = Some l"
  using w
proof (induction es arbitrary: k)
  case (Cons e es)
  then obtain j where j: "child_of fs e k = Some j" "walk fs es j = Some l" by (auto simp: bind_eq_Some_conv)
  then obtain a where "fs k = Some a" "af_type a = T_DIR" "names_dir a (take DIRSIZE e) = Some j"
    by (auto simp: child_of_def split: option.splits if_splits)
  then have "child_of fs' e k = Some j" using m by (fastforce simp: child_of_def)
  then show ?case using Cons.IH[OF j(2)] by simp
qed simp

lemma walk_snoc: "walk fs (es @ [e]) k = Option.bind (walk fs es k) (child_of fs e)"
proof (induction es arbitrary: k)
  case Nil
  show ?case by (cases "child_of fs e k") simp_all
next
  case (Cons d es)
  show ?case by (cases "child_of fs d k") (simp_all add: Cons.IH)
qed

text \<open>
  C5: on a file system in order, seen as a map from inode numbers to files, a mkdir that returns
  either adds one empty directory with the mode asked for under a number that was free, enters its
  name in the parent directory and in no other, changes no other file and keeps no reference, or,
  when the name exists, answers EEXIST, changes nothing, and leaves the parent directory locked
  and referenced.
\<close>

theorem mkdir_refines:
  assumes "fs_ok s" "refs_ok s" "0 \<notin> set path" "parent_room (abs_fs s) path" "myfuse_mkdir path mode s = Inr (r, s')"
  shows "\<exists>p a. walk_parent (abs_fs s) (components path) ROOTINO = Some p \<and> abs_fs s p = Some a \<and> fs_ok s' \<and> refs_ok s' \<and>
    (case names_dir a (take DIRSIZE (last (components path))) of
       Some _ \<Rightarrow> r = - EEXIST \<and> abs_fs s' = abs_fs s \<and> refcount s' = add_ref p 1 (refcount s) \<and> (\<exists>dp. open_at s' p dp)
     | None \<Rightarrow> r = 0 \<and> refcount s' = refcount s \<and>
         (\<exists>k b. abs_fs s k = None \<and> abs_fs s' = (abs_fs s)(p \<mapsto> b, k \<mapsto> new_dir mode) \<and>
           names_dir b = (names_dir a)(take DIRSIZE (last (components path)) \<mapsto> k) \<and> af_type b = T_DIR \<and> af_nlink b = af_nlink a \<and> af_perm b = af_perm a \<and>
           unat (af_size b) \<le> unat (af_size a) + dirent_size))"
  using fs_mkdir[OF assms] by blast

text \<open>
  C21: on a file system in order, a mkdir of an absolute path whose last element is a new name in
  its parent directory returns 0 and leaves no inode locked, when no inode is locked before, no
  reference is to an unused inode number, an inode number is free, every directory fits into one
  block and the parent also with one more entry, four blocks for each element of the path and five
  more are free, and the log can admit an operation and has room for twelve writes for each
  element and nineteen more, at most 120 in all.
\<close>

theorem mkdir_total:
  assumes "fs_ok s" "refs_ok s" "0 \<notin> set path" "path \<noteq> []" "hd path = slash" "locks_in {} s" "small_dirs (abs_fs s)" "free_inode s"
    and "walk_parent (abs_fs s) (components path) ROOTINO = Some p" "abs_fs s p = Some a" "unat (af_size a) + dirent_size \<le> BSIZE"
    and "names_dir a (take DIRSIZE (last (components path))) = None"
    and "op_room (12 * length (components path) + 19) (4 * length (components path) + 5) s"
  shows "\<exists>s'. myfuse_mkdir path mode s = Inr (0, s') \<and> locks_in {} s'"
  using mkdir_returns[OF assms(1-12), of 1 mode] assms(13) by auto

lemma mkdir_walk:
  assumes ok: "fs_ok s" and rf: "refs_ok s" and z: "0 \<notin> set path" and room: "parent_room (abs_fs s) path"
    and run: "myfuse_mkdir path mode s = Inr (0, s')"
  shows "fs_ok s' \<and> (\<exists>k. walk (abs_fs s') (components path) ROOTINO = Some k \<and> abs_fs s' k = Some (new_dir mode))"
proof -
  let ?cs = "components path" and ?nm = "take DIRSIZE (last (components path))"
  obtain p a k b where p: "walk_parent (abs_fs s) ?cs ROOTINO = Some p" "abs_fs s p = Some a" "fs_ok s'" "names_dir a ?nm = None"
    and b: "abs_fs s k = None" "abs_fs s' = (abs_fs s)(p \<mapsto> b, k \<mapsto> new_dir mode)" "names_dir b = (names_dir a)(?nm \<mapsto> k)" "af_type b = T_DIR"
    using fs_mkdir[OF ok rf z room run] by (fastforce simp: EEXIST_def split: option.splits)
  have ne: "?cs \<noteq> []" and wp: "walk (abs_fs s) (butlast ?cs) ROOTINO = Some p"
    using p(1) by (auto simp: walk_parent_def bind_eq_Some_conv split: if_splits)
  have kp: "k \<noteq> p" using b(1) p(2) by auto
  have "walk (abs_fs s') (butlast ?cs) ROOTINO = Some p"
  proof (rule walk_mono[OF _ wp])
    fix j c nm l assume j: "abs_fs s j = Some c" "af_type c = T_DIR" "names_dir c nm = Some l"
    show "\<exists>d. abs_fs s' j = Some d \<and> af_type d = T_DIR \<and> names_dir d nm = Some l"
      using j b p(2,4) kp by (cases "j = p"; cases "j = k") auto
  qed
  moreover have "child_of (abs_fs s') (last ?cs) p = Some k" using b kp by (simp add: child_of_def)
  ultimately have "walk (abs_fs s') (butlast ?cs @ [last ?cs]) ROOTINO = Some k" by (simp add: walk_snoc)
  then show ?thesis using p(3) b(2) ne by simp
qed

text \<open>
  C20: getattr of a path right after a mkdir of this path that succeeded reports an empty
  directory with one link and the mode given.
\<close>

theorem mkdir_then_getattr:
  assumes "fs_ok s" "refs_ok s" "0 \<notin> set path" "parent_room (abs_fs s) path"
    and mk: "myfuse_mkdir path mode s = Inr (0, s1)" and ga: "myfuse_getattr path st s1 = Inr ((r, st'), s2)"
  shows "r = 0 \<and> st_mode st' = or S_IFDIR mode \<and> st_size st' = 0 \<and> st_nlink st' = 1"
proof -
  obtain k where k: "walk (abs_fs s1) (components path) ROOTINO = Some k" "abs_fs s1 k = Some (new_dir mode)" and ok: "fs_ok s1"
    using mkdir_walk[OF assms(1-4) mk] by blast
  have "stat_of k (new_dir mode) r st'" using fs_getattr[OF ok assms(3) ga] k by auto
  then show ?thesis by (simp add: stat_of_def new_dir_def new_file_def)
qed

text \<open>
  C22: chmod replaces the permissions of the file the path leads to by the low nine bits of the
  mode and changes nothing else in the file system, and answers ENOENT exactly when the path leads
  nowhere.
\<close>

theorem chmod_refines:
  assumes "fs_ok s" "0 \<notin> set path" "myfuse_chmod path mode s = Inr (r, s')"
  shows "fs_ok s' \<and> refcount s' = refcount s \<and>
    (case walk (abs_fs s) (components path) ROOTINO of
       None \<Rightarrow> r = - ENOENT \<and> abs_fs s' = abs_fs s
     | Some k \<Rightarrow> r = 0 \<and> (\<exists>a. abs_fs s k = Some a \<and> abs_fs s' = (abs_fs s)(k \<mapsto> a\<lparr>af_perm := and mode 0x1FF\<rparr>)))"
  using fs_chmod[OF assms] by blast

text \<open>
  C18: a write request through a handle of a file that is no directory replaces, in the map of the
  file system, exactly the bytes of the range, clamped at the largest file, grows the size to the
  end of the write if that is larger, and changes no other file and no reference.
\<close>

theorem write_refines:
  assumes "fs_ok s" "handle_of fi k ip s" "abs_fs s k = Some a" "af_type a \<noteq> T_DIR" "unat off + unat n < 2 ^ 64"
    and "myfuse_write data n off fi s = Inr (r, s')"
  shows "fs_ok s' \<and> refcount s' = refcount s \<and>
    (if off > MAXFILE_SIZE then r = 0 \<and> abs_fs s' = abs_fs s
     else let m = min (unat n) (unat MAXFILE_SIZE - unat off) in
       r = to_int (int m) \<and> abs_fs s' = (abs_fs s)(k \<mapsto> written a (unat off) m data))"
  using fs_write[OF assms] by simp

lemma handle_geo:
  assumes "geo s' = geo s" "entry_of s' = entry_of s"
  shows "handle_of fi k ip s' = handle_of fi k ip s"
proof -
  have "itable.more s' = itable.more s" using assms(1) by (simp add: geo_def)
  then have "ft_file s' = ft_file s" by (cases s; cases s'; simp)
  then show ?thesis using assms(2) by (simp add: handle_of_def)
qed

text \<open>
  C6: through any two handles of the same file, which is no directory, and for a range inside the
  largest file, a write request and then a read request of the same range deliver the bytes that
  were written, with the same count, and the read changes no file.
\<close>

theorem write_read_bytes:
  assumes ok: "fs_ok s" and h: "handle_of fi k ip s" "handle_of fi' k ip' s" and a: "abs_fs s k = Some a" "af_type a \<noteq> T_DIR" "af_size a \<le> MAXFILE_SIZE"
    and fits: "unat off + unat n \<le> unat MAXFILE_SIZE"
    and wr: "myfuse_write data n off fi s = Inr (r, s1)" and rd: "myfuse_read buf n off fi' s1 = Inr ((r', buf'), s2)"
  shows "r' = r \<and> abs_fs s2 = abs_fs s1 \<and> (\<forall>j<unat n. buf' j = data j)"
proof -
  have f64: "unat off + unat n < 2 ^ 64" using fits unsigned_less[of MAXFILE_SIZE, where ?'a = nat] by simp
  have le: "\<not> off > MAXFILE_SIZE" using fits by (simp add: word_less_nat_alt)
  have m: "min (unat n) (unat MAXFILE_SIZE - unat off) = unat n" using fits by simp
  let ?b = "written a (unat off) (unat n) data"
  note W = fs_write[OF ok h(1) a(1,2) f64 wr]
  have w: "fs_ok s1" "entry_of s1 = entry_of s" "geo s1 = geo s" "r = to_int (int (unat n))" "abs_fs s1 k = Some ?b"
    using W le m by (simp_all add: Let_def)
  have h1: "handle_of fi' k ip' s1" using h(2) handle_geo[OF w(3,2)] by simp
  have mx: "max (unat (af_size a)) (unat off + unat n) \<le> unat MAXFILE_SIZE" using fits a(3) by (simp add: word_le_nat_alt)
  then have sz: "unat (af_size ?b) = max (unat (af_size a)) (unat off + unat n)"
    using unsigned_less[of MAXFILE_SIZE, where ?'a = nat] by (simp add: written_def unsigned_of_nat take_bit_nat_eq_self)
  have sm: "af_size ?b \<le> MAXFILE_SIZE" "\<not> off > af_size ?b" using mx by (simp_all add: word_le_nat_alt word_less_nat_alt sz)
  have mn: "min (unat n) (unat (af_size ?b) - unat off) = unat n" by (simp add: sz)
  have R: "r' = to_int (int (unat n))" "buf' = upd_bytes buf 0 (unat n) (\<lambda>j. af_bytes ?b (unat off + j))" "abs_fs s2 = abs_fs s1"
    using fs_read[OF w(1) h1 w(5) sm(1) f64 rd] sm(2) mn by (simp_all add: Let_def)
  show ?thesis using R w(4) by (simp add: upd_bytes_def written_def)
qed

section \<open>Sequences of requests\<close>

text \<open>What every request of this kind keeps of a file: it is there, with its type and its links, and a file that is no directory with its bytes.\<close>

definition kept_file :: "afile \<Rightarrow> afile \<Rightarrow> bool" where
  "kept_file a b \<longleftrightarrow> af_type b = af_type a \<and> af_nlink b = af_nlink a \<and>
    (if af_type a = T_DIR then (\<forall>nm j. names_dir a nm = Some j \<longrightarrow> names_dir b nm = Some j)
     else af_size b = af_size a \<and> af_bytes b = af_bytes a)"

definition kept_files :: "(uint \<Rightarrow> afile option) \<Rightarrow> (uint \<Rightarrow> afile option) \<Rightarrow> bool" where
  "kept_files fs fs' \<longleftrightarrow> (\<forall>k a. fs k = Some a \<longrightarrow> (\<exists>b. fs' k = Some b \<and> kept_file a b))"

definition dirs_below :: "nat \<Rightarrow> (uint \<Rightarrow> afile option) \<Rightarrow> bool" where
  "dirs_below n fs \<longleftrightarrow> (\<forall>k a. fs k = Some a \<and> af_type a = T_DIR \<longrightarrow> unat (af_size a) + dirent_size * n < 2 ^ 31)"

text \<open>Requests that look at a path, change permissions or make a directory.\<close>

definition adding :: "'b request \<Rightarrow> bool" where
  "adding req = (case req of Getattr path st \<Rightarrow> 0 \<notin> set path | Chmod path mode \<Rightarrow> 0 \<notin> set path | Mkdir path mode \<Rightarrow> 0 \<notin> set path | _ \<Rightarrow> False)"

lemma kept_file_refl: "kept_file a a"
  by (simp add: kept_file_def)

lemma kept_file_trans: "kept_file a b \<Longrightarrow> kept_file b c \<Longrightarrow> kept_file a c"
  by (auto simp: kept_file_def split: if_splits)

lemma kept_files_refl: "kept_files fs fs"
  using kept_file_refl by (auto simp: kept_files_def)

lemma kept_files_trans:
  assumes "kept_files fs f1" "kept_files f1 f2"
  shows "kept_files fs f2"
  unfolding kept_files_def
proof (intro allI impI)
  fix k a assume "fs k = Some a"
  then obtain b where b: "f1 k = Some b" "kept_file a b" using assms(1) unfolding kept_files_def by blast
  then obtain c where "f2 k = Some c" "kept_file b c" using assms(2) unfolding kept_files_def by blast
  then show "\<exists>c. f2 k = Some c \<and> kept_file a c" using kept_file_trans[OF b(2)] by blast
qed

lemma dirs_below_mono: "dirs_below n fs \<Longrightarrow> m \<le> n \<Longrightarrow> dirs_below m fs"
  unfolding dirs_below_def using mult_le_mono2[of m n dirent_size] by (meson add_left_mono order_le_less_trans)

lemma adding_step:
  assumes ok: "fs_ok s" "refs_ok s" and req: "adding req" and n: "dirs_below (Suc n) (abs_fs s)" and run: "serve filler req s = Inr (rep, s')"
  shows "fs_ok s' \<and> refs_ok s' \<and> kept_files (abs_fs s) (abs_fs s') \<and> dirs_below n (abs_fs s') \<and> geo s' = geo s \<and>
    (0 \<le> lg_outstanding s \<longrightarrow> 0 \<le> lg_outstanding s' \<and> flushed s')"
proof -
  have no: "names_ok (abs_fs s)" using ok(1) by (simp add: fs_ok_def)
  have lo: "0 \<le> lg_outstanding s \<Longrightarrow> 0 \<le> lg_outstanding s'" using serve_balanced[OF run] by simp
  have n': "dirs_below n (abs_fs s)" by (rule dirs_below_mono[OF n]) simp
  consider (look) path st where "req = Getattr path st" "0 \<notin> set path" | (perm) path mode where "req = Chmod path mode" "0 \<notin> set path"
    | (mk) path mode where "req = Mkdir path mode" "0 \<notin> set path" using req by (auto simp: adding_def split: request.splits)
  then show ?thesis
  proof cases
    case look
    then obtain r st' where "myfuse_getattr path st s = Inr ((r, st'), s')" using run by (auto simp: reply_as_Inr)
    note G = fs_getattr[OF ok(1) look(2) this]
    then show ?thesis using ok(2) n' kept_files_refl lo by (simp add: refs_ok_def)
  next
    case perm
    then obtain r where cr: "myfuse_chmod path mode s = Inr (r, s')" using run by (auto simp: reply_as_Inr)
    note C = fs_chmod[OF ok(1) perm(2) cr]
    have rep: "rep = Plain r" using run cr perm(1) by (simp add: reply_as_def)
    show ?thesis
    proof (cases "walk (abs_fs s) (components path) ROOTINO")
      case None
      then have "lg_outstanding s' = lg_outstanding s + 1" using serve_balanced[OF run] C by (simp add: perm(1) rep)
      then show ?thesis using None C ok(2) n' kept_files_refl by (simp add: refs_ok_def flushed_def)
    next
      case (Some k)
      then obtain a where a: "abs_fs s k = Some a" "abs_fs s' = (abs_fs s)(k \<mapsto> a\<lparr>af_perm := and mode 0x1FF\<rparr>)" using C by auto
      let ?b = "a\<lparr>af_perm := and mode 0x1FF\<rparr>"
      have "kept_file a ?b" using names_dir_cong[of ?b a] by (simp add: kept_file_def)
      then have "kept_files (abs_fs s) (abs_fs s')" using a kept_file_refl by (auto simp: kept_files_def)
      moreover have "dirs_below n (abs_fs s')" using n' a unfolding dirs_below_def by auto
      moreover have "refs_ok s'" using ok(2) C a by (auto simp: refs_ok_def)
      ultimately show ?thesis using C Some lo by auto
    qed
  next
    case mk
    then obtain r where mr: "myfuse_mkdir path mode s = Inr (r, s')" using run by (auto simp: reply_as_Inr)
    have "parent_room (abs_fs s) path"
      unfolding parent_room_def
    proof (intro allI impI)
      fix p a assume p: "walk_parent (abs_fs s) (components path) ROOTINO = Some p" "abs_fs s p = Some a"
      then have "af_type a = T_DIR" by (auto simp: walk_parent_def bind_eq_Some_conv split: if_splits)
      then have "unat (af_size a) + dirent_size * Suc n < 2 ^ 31" using n p(2) unfolding dirs_below_def by blast
      then show "unat (af_size a) + dirent_size < 2 ^ 31" by simp
    qed
    note M = fs_mkdir[OF ok mk(2) this mr]
    obtain p a where p: "abs_fs s p = Some a" "walk_parent (abs_fs s) (components path) ROOTINO = Some p" "fs_ok s'" "refs_ok s'" "geo s' = geo s" "flushed s'"
      and c: "abs_fs s' = abs_fs s \<or> (\<exists>k b. names_dir a (take DIRSIZE (last (components path))) = None \<and> abs_fs s k = None \<and> abs_fs s' = (abs_fs s)(p \<mapsto> b, k \<mapsto> new_dir mode) \<and>
           names_dir b = (names_dir a)(take DIRSIZE (last (components path)) \<mapsto> k) \<and> af_type b = T_DIR \<and> af_nlink b = af_nlink a \<and>
           unat (af_size b) \<le> unat (af_size a) + dirent_size)"
      using M by (fastforce split: option.splits)
    have ty: "af_type a = T_DIR" using p(1,2) by (auto simp: walk_parent_def bind_eq_Some_conv split: if_splits)
    show ?thesis
    proof (cases "abs_fs s' = abs_fs s")
      case True
      then show ?thesis using p(3-6) n' kept_files_refl lo by simp
    next
      case False
      then obtain k b where b: "names_dir a (take DIRSIZE (last (components path))) = None" "abs_fs s k = None"
        "abs_fs s' = (abs_fs s)(p \<mapsto> b, k \<mapsto> new_dir mode)" "names_dir b = (names_dir a)(take DIRSIZE (last (components path)) \<mapsto> k)"
        "af_type b = T_DIR" "af_nlink b = af_nlink a" "unat (af_size b) \<le> unat (af_size a) + dirent_size" using c by blast
      have "kept_file a b" using b ty by (auto simp: kept_file_def)
      then have "kept_files (abs_fs s) (abs_fs s')" using b(2,3) p(1) kept_file_refl by (auto simp: kept_files_def)
      moreover have "dirs_below n (abs_fs s')"
        unfolding dirs_below_def
      proof (intro allI impI)
        fix j d assume j: "abs_fs s' j = Some d \<and> af_type d = T_DIR"
        have "unat (af_size a) + dirent_size * Suc n < 2 ^ 31" using n p(1) ty unfolding dirs_below_def by blast
        moreover have "unat (af_size (new_dir mode)) = 0" by (simp add: new_dir_def new_file_def)
        moreover have "unat (af_size d) + dirent_size * n < 2 ^ 31" if "abs_fs s j = Some d" using n' j that unfolding dirs_below_def by blast
        ultimately show "unat (af_size d) + dirent_size * n < 2 ^ 31" using j b(3,7) by (auto split: if_splits)
      qed
      ultimately show ?thesis using p(3-6) lo by simp
    qed
  qed
qed

lemma adding_steps:
  assumes "serve_all filler reqs s = Inr (reps, s')" "fs_ok s" "refs_ok s" "list_all adding reqs" "dirs_below (length reqs) (abs_fs s)"
  shows "fs_ok s' \<and> refs_ok s' \<and> kept_files (abs_fs s) (abs_fs s') \<and> geo s' = geo s \<and>
    (0 \<le> lg_outstanding s \<and> flushed s \<longrightarrow> 0 \<le> lg_outstanding s' \<and> flushed s')"
  using assms
proof (induction reqs arbitrary: s reps)
  case Nil
  then show ?case using kept_files_refl by simp
next
  case (Cons req reqs)
  then obtain rep s1 reps1 where 1: "serve filler req s = Inr (rep, s1)" "serve_all filler reqs s1 = Inr (reps1, s')"
    by (auto simp: chain_eq_Inr)
  have a: "adding req" "list_all adding reqs" "dirs_below (Suc (length reqs)) (abs_fs s)" using Cons.prems(4,5) by simp_all
  have S: "fs_ok s1" "refs_ok s1" "kept_files (abs_fs s) (abs_fs s1)" "dirs_below (length reqs) (abs_fs s1)" "geo s1 = geo s"
    "0 \<le> lg_outstanding s \<longrightarrow> 0 \<le> lg_outstanding s1 \<and> flushed s1"
    using adding_step[OF Cons.prems(2,3) a(1,3) 1(1)] by simp_all
  show ?case using Cons.IH[OF 1(2) S(1,2) a(2) S(4)] kept_files_trans[OF S(3)] S(5,6) by auto
qed

text \<open>
  C7: after any sequence of getattr, chmod and mkdir requests that returns, the file system is in
  order (every name leads to an inode in use, the root is a directory, the trees of all files are
  disjoint), every file is still there with its type and link count, no name is lost, and no file
  that is not a directory changes its bytes.
\<close>

theorem requests_type_safe:
  assumes "serve_all filler reqs s = Inr (reps, s')" "fs_ok s" "refs_ok s" "list_all adding reqs" "dirs_below (length reqs) (abs_fs s)"
  shows "fs_ok s' \<and> refs_ok s' \<and> kept_files (abs_fs s) (abs_fs s')"
  using adding_steps[OF assms] by blast

section \<open>The theorems at the small file system\<close>

definition path_c :: cpath where "path_c = [slash, 98]"

lemma path_c: "components path_c = [[98]]" "0 \<notin> set path_c" "path_c \<noteq> []" "hd path_c = slash" "take DIRSIZE (last (components path_c)) = [98]"
  by (simp_all add: components_def path_c_def slash_def DIRSIZE_def)

text \<open>The small file system after the operation it starts in: no operation is open.\<close>

lemma mini_quiet:
  obtains s where "fs_ok s" "refs_ok s" "abs_fs s = abs_fs (mini_fs x)" "geo s = geo (mini_fs x)" "quiet 16 s" "locks_in {} s" "it_inode s = it_inode (mini_fs x)"
    "it_n s = it_n (mini_fs x)"
proof -
  have ph: "fs_phys (mini_fs x)" "names_ok (abs_fs (mini_fs x))" using mini_fs_ok[of x] by (simp_all add: fs_ok_def)
  obtain s where e: "end_op (mini_fs x) = Inr ((), s)" "locks_in {} s" by (rule end_returns[OF ph(1) mini_small(2)])
  note E = fs_end_op[OF ph(1) e(1)]
  have o: "lg_outstanding s = 0" using end_op_count[OF e(1)] by (simp add: mini_it_fields)
  have q: "quota 30 16 (mini_fs x)" by (simp add: mini_quota)
  have "refs_ok s" by (simp add: refs_ok_def E(3) mini_refs)
  then show ?thesis using that[of s] E ph end_quiet[OF ph(1) e(1) q o] e(2) by (simp add: fs_ok_def)
qed

lemma mini_parent: "walk_parent (abs_fs (mini_fs x)) (components path_c) ROOTINO = Some 1"
  using mini_afs(1)[of x] by (simp add: path_c walk_parent_def ROOTINO_def)

lemma mini_root_free:
  obtains a where "abs_fs (mini_fs x) 1 = Some a" "af_size a = 64" "names_dir a [98] = None" "af_type a = T_DIR"
  using mini_afs(1)[of x] mini_root_names[of _ x] that by auto

lemma mini_free_inode: "geo s = geo (mini_fs x) \<Longrightarrow> abs_fs s = abs_fs (mini_fs x) \<Longrightarrow> free_inode s"
  using mini_afs(3)[of 3 x] geo_sb(1)[of s "mini_fs x"]
  unfolding free_inode_def by (intro exI[of _ 3]) (simp add: inum_ok_def mini_it_fields)

lemma mini_mkdir_room: "parent_room (abs_fs (mini_fs x)) path_c" "dirs_below 3 (abs_fs (mini_fs x))"
proof -
  have "unat (af_size a) < 2 ^ 30" if "abs_fs (mini_fs x) k = Some a" for k a
    using mini_two[OF that] that mini_afs(1,2)[of x] by auto
  then show "parent_room (abs_fs (mini_fs x)) path_c" "dirs_below 3 (abs_fs (mini_fs x))"
    unfolding parent_room_def dirs_below_def dirent_size_def by fastforce+
qed

lemma mini_mkdir:
  fixes x :: "'a ftab_ext"
  obtains s s' where "fs_ok s" "refs_ok s" "abs_fs s = abs_fs (mini_fs x)" "locks_in {} s" "free_inode s" "geo s = geo (mini_fs x)" "quiet 16 s"
    "myfuse_mkdir path_c mode s = Inr (0, s')" "locks_in {} s'" "quiet 8 s'"
proof -
  obtain s where s: "fs_ok s" "refs_ok s" "abs_fs s = abs_fs (mini_fs x)" "geo s = geo (mini_fs x)" "quiet 16 s" "locks_in {} s"
    by (rule mini_quiet[where x = x])
  obtain a where a: "abs_fs (mini_fs x) 1 = Some a" "af_size a = 64" "names_dir a [98] = None" by (rule mini_root_free)
  have lg: "lg_size s = 40" using geo_sb(2)[OF s(4)] by (simp add: mini_it_fields)
  have fr: "free_inode s" by (rule mini_free_inode[OF s(4,3)])
  have q: "op_room (12 * length (components path_c) + 19) (4 * length (components path_c) + (4 + 8)) s"
    by (rule quiet_room) (use s(5) lg in \<open>simp_all add: path_c\<close>)
  have "\<exists>s'. myfuse_mkdir path_c mode s = Inr (0, s') \<and> locks_in {} s' \<and> (lg_outstanding s = 0 \<longrightarrow> quiet 8 s')"
    by (rule mkdir_returns[OF s(1,2) path_c(2-4) s(6) _ fr _ _ _ _ q])
      (use s(3) a mini_small(1)[of x] mini_parent[of x] in \<open>simp_all add: path_c(5) dirent_size_def BSIZE_def\<close>)
  then show ?thesis using that[of s] s fr by (auto simp: quiet_def)
qed

theorem mkdir_refines_witness:
  "\<exists>(s :: ftab) s' b k. myfuse_mkdir path_c 7 s = Inr (0, s') \<and> abs_fs s' k = Some (new_dir 7) \<and> abs_fs s' 1 = Some b \<and> names_dir b [98] = Some k"
proof -
  obtain s s' :: ftab where s: "fs_ok s" "refs_ok s" "abs_fs s = abs_fs (mini_fs (ftab.fields 1 (\<lambda>_. static_file)))" and run: "myfuse_mkdir path_c 7 s = Inr (0, s')"
    by (rule mini_mkdir[where mode = 7 and x = "ftab.fields 1 (\<lambda>_. static_file)"]) blast
  let ?x = "ftab.fields 1 (\<lambda>_. static_file)"
  have room: "parent_room (abs_fs s) path_c" unfolding s(3) by (rule mini_mkdir_room)
  have wp: "walk_parent (abs_fs s) (components path_c) ROOTINO = Some 1" unfolding s(3) by (rule mini_parent)
  obtain a k b where "abs_fs s 1 = Some a" "abs_fs s k = None" "abs_fs s' = (abs_fs s)(1 \<mapsto> b, k \<mapsto> new_dir 7)" "names_dir b = (names_dir a)([98] \<mapsto> k)"
    using mkdir_refines[OF s(1,2) path_c(2) room run] wp unfolding path_c(5) by (fastforce simp: EEXIST_def split: option.splits)
  then show ?thesis using run by (intro exI[of _ s] exI[of _ s'] exI[of _ b] exI[of _ k]) auto
qed

theorem mkdir_total_witness:
  "\<exists>(s :: ftab) s'. fs_ok s \<and> myfuse_mkdir path_c 7 s = Inr (0, s')"
proof -
  let ?x = "ftab.fields 1 (\<lambda>_. static_file)"
  obtain s s' :: ftab where s: "fs_ok s" "refs_ok s" "abs_fs s = abs_fs (mini_fs ?x)" "locks_in {} s" "free_inode s" "geo s = geo (mini_fs ?x)" "quiet 16 s"
    by (rule mini_mkdir[where mode = 7 and x = ?x]) blast
  obtain a where a: "abs_fs (mini_fs ?x) 1 = Some a" "af_size a = 64" "names_dir a [98] = None" by (rule mini_root_free)
  have q: "op_room (12 * length (components path_c) + 19) (4 * length (components path_c) + 5) s"
    by (rule quiet_room[OF quiet_mono[OF s(7)]]) (use geo_sb(2)[OF s(6)] in \<open>simp_all add: path_c mini_it_fields\<close>)
  have "\<exists>s'. myfuse_mkdir path_c 7 s = Inr (0, s') \<and> locks_in {} s'"
    by (rule mkdir_total[OF s(1,2) path_c(2-4) s(4) _ s(5) _ _ _ _ q])
      (use s(3) a mini_small(1)[of ?x] mini_parent[of ?x] in \<open>simp_all add: path_c(5) dirent_size_def BSIZE_def\<close>)
  then show ?thesis using s(1) by blast
qed

theorem mkdir_then_getattr_witness:
  "\<exists>(s :: ftab) s1 st st' s2. myfuse_mkdir path_c 7 s = Inr (0, s1) \<and> myfuse_getattr path_c st s1 = Inr ((0, st'), s2) \<and> st_mode st' = or S_IFDIR 7"
proof -
  let ?x = "ftab.fields 1 (\<lambda>_. static_file)"
  obtain s s1 :: ftab where s: "fs_ok s" "refs_ok s" "abs_fs s = abs_fs (mini_fs ?x)" "geo s = geo (mini_fs ?x)"
    and run: "myfuse_mkdir path_c 7 s = Inr (0, s1)" "locks_in {} s1" "quiet 8 s1"
    by (rule mini_mkdir[where mode = 7 and x = ?x]) blast
  have room: "parent_room (abs_fs s) path_c" unfolding s(3) by (rule mini_mkdir_room)
  note M = fs_mkdir[OF s(1,2) path_c(2) room run(1)]
  have ok1: "fs_ok s1" "geo s1 = geo s" using M by blast+
  have sm: "small_dirs (abs_fs s1)"
  proof -
    obtain a b k where ab: "abs_fs s 1 = Some a" "unat (af_size b) \<le> unat (af_size a) + dirent_size" "abs_fs s1 = (abs_fs s)(1 \<mapsto> b, k \<mapsto> new_dir 7)"
      using M mini_parent[of ?x] unfolding s(3) by (fastforce simp: EEXIST_def split: option.splits)
    obtain a' where "abs_fs (mini_fs ?x) 1 = Some a'" "af_size a' = 64" by (rule mini_root_free)
    then have "unat (af_size b) \<le> 128" using ab s(3) by (simp add: dirent_size_def)
    moreover have "unat (af_size (new_dir 7)) = 0" by (simp add: new_dir_def new_file_def)
    ultimately show ?thesis using mini_small(1)[of ?x] ab(3) s(3) unfolding small_dirs_def by (auto simp: BSIZE_def split: if_splits)
  qed
  have q: "op_room (12 * length (components path_c)) (4 * length (components path_c) + 1) s1"
    by (rule quiet_room[OF quiet_mono[OF run(3)]]) (use geo_sb(2)[OF ok1(2)] geo_sb(2)[OF s(4)] in \<open>simp_all add: path_c mini_it_fields\<close>)
  fix st
  obtain r st' s2 where ga: "myfuse_getattr path_c st s1 = Inr ((r, st'), s2)"
    using getattr_returns[OF ok1(1) path_c(2-4) run(2) sm q] by blast
  then show ?thesis using mkdir_then_getattr[OF s(1,2) path_c(2) room run(1) ga] run(1) by blast
qed

theorem chmod_refines_witness:
  "\<exists>(s :: ftab) s' a. fs_ok s \<and> myfuse_chmod path_a 0x1C0 s = Inr (0, s') \<and> abs_fs s' 2 = Some a \<and> af_perm a = 0x1C0"
proof -
  let ?x = "ftab.fields 1 (\<lambda>_. static_file)"
  obtain s :: ftab where s: "fs_ok s" "refs_ok s" "abs_fs s = abs_fs (mini_fs ?x)" "geo s = geo (mini_fs ?x)" "quiet 16 s" "locks_in {} s"
    by (rule mini_quiet[where x = ?x]) blast
  have sm: "small_dirs (abs_fs s)" using mini_small(1)[of ?x] s(3) by simp
  have q: "op_room (12 * length (components path_a) + 1) (4 * length (components path_a) + 1) s"
    by (rule quiet_room[OF quiet_mono[OF s(5)]]) (use geo_sb(2)[OF s(4)] in \<open>simp_all add: mini_paths mini_it_fields\<close>)
  obtain r s' where run: "myfuse_chmod path_a 0x1C0 s = Inr (r, s')" using chmod_returns[OF s(1) mini_paths(3,5,6) s(6) sm q] by blast
  have "and 0x1C0 0x1FF = (0x1C0 :: uint)" by simp
  then show ?thesis using chmod_refines[OF s(1) mini_paths(3) run] run s(1) unfolding s(3) mini_walk(1) by auto
qed

text \<open>The same state with the file 2 in the first entry of the table, and a handle for it.\<close>

definition mini_fi :: fuse_info where "mini_fi = \<lparr>fi_flags = 0, fi_fh = Some 0\<rparr>"

lemma quiet_table: "quiet f (upd_inode ip g s) = quiet f s"
  by (simp add: quiet_def free_blocks_def)

lemma mini_opened:
  obtains s :: ftab where "fs_ok s" "abs_fs s = abs_fs (mini_fs (ftab.fields 1 (\<lambda>_. static_file\<lparr>f_ip := Some 0\<rparr>)))" "handle_of mini_fi 2 0 s"
    "quiet 16 s" "locks_in {} s" "lg_size s = 40"
proof -
  let ?x = "ftab.fields 1 (\<lambda>_. static_file\<lparr>f_ip := Some 0\<rparr>)"
  obtain s :: ftab where s: "fs_ok s" "refs_ok s" "abs_fs s = abs_fs (mini_fs ?x)" "geo s = geo (mini_fs ?x)" "quiet 16 s" "locks_in {} s"
    "it_inode s = it_inode (mini_fs ?x)" "it_n s = it_n (mini_fs ?x)" by (rule mini_quiet[where x = ?x])
  have ph: "fs_phys s" "names_ok (abs_fs s)" using s(1) by (simp_all add: fs_ok_def)
  let ?t = "upd_inode 0 (\<lambda>ip. ip\<lparr>mi_inum := 2, mi_ref := 1, mi_valid := False\<rparr>) s"
  have g: "iget 2 s = Inr (0, ?t)"
    by (simp add: iget_def iget_search_def find_from.simps s(7,8) mini_it_fields static_inode_def numeral_2_eq_2)
  note G = fs_iget[OF ph(1) g]
  have ft: "ft_file ?t = (\<lambda>_. static_file\<lparr>f_ip := Some 0\<rparr>)"
  proof -
    have "itable.more ?t = itable.more (mini_fs ?x)" using G(4) s(4) unfolding geo_def by (metis prod.inject)
    then have "itable.more ?t = ?x" by (simp add: mini_ext_def bcache_init_def)
    then show ?thesis by (cases ?t) (simp add: ftab.defs)
  qed
  have "handle_of mini_fi 2 0 ?t" using G(3) by (simp add: handle_of_def mini_fi_def ft got_def static_file_def del: upd_inode_table)
  moreover have "fs_ok ?t" using G(1,2) ph by (simp add: fs_ok_def)
  moreover have "lg_size ?t = 40" using geo_sb(2)[OF G(4)] geo_sb(2)[OF s(4)] by (simp add: mini_it_fields)
  moreover have "quiet 16 ?t" using s(5) by (simp only: quiet_table)
  ultimately show ?thesis using that[of ?t] iget_locks(2)[OF ph(1) g s(6)] G(2) s(3) by simp
qed

lemma mini_write:
  obtains s s1 :: ftab and r where "fs_ok s" "abs_fs s = abs_fs (mini_fs (ftab.fields 1 (\<lambda>_. static_file\<lparr>f_ip := Some 0\<rparr>)))" "handle_of mini_fi 2 0 s"
    "myfuse_write (\<lambda>_. 7) 5 10 mini_fi s = Inr (r, s1)" "locks_in {} s1" "quiet 12 s1" "lg_size s = 40"
proof -
  obtain s :: ftab where s: "fs_ok s" "abs_fs s = abs_fs (mini_fs (ftab.fields 1 (\<lambda>_. static_file\<lparr>f_ip := Some 0\<rparr>)))" "handle_of mini_fi 2 0 s"
    "quiet 16 s" "locks_in {} s" "lg_size s = 40" by (rule mini_opened)
  have q: "op_room 14 (4 + 12) s" by (rule quiet_room) (use s(4,6) in simp_all)
  have lim: "unat (10 :: size_t) < unat MAXFILE_SIZE" "unat (10 :: size_t) mod BSIZE + unat (5 :: size_t) \<le> BSIZE"
    by (simp_all add: unat_MAXFILE_SIZE map_sizes BSIZE_def)
  obtain a where a: "abs_fs s 2 = Some a" by (auto simp: s(2) mini_afs(2))
  have one: "(1 :: nat) \<le> 12" by simp
  obtain r s1 where w: "myfuse_write (\<lambda>_. 7) 5 10 mini_fi s = Inr (r, s1)" "locks_in {} s1" "lg_outstanding s = 0 \<longrightarrow> quiet 12 s1"
    using write_returns[OF s(1,3) a s(5) q one lim, of "\<lambda>_. 7"] by blast
  have "quiet 12 s1" using w(3) s(4) by (simp add: quiet_def)
  then show ?thesis by (rule that[OF s(1-3) w(1,2) _ s(6)])
qed

theorem write_refines_witness:
  "\<exists>(s :: ftab) s' a. fs_ok s \<and> myfuse_write (\<lambda>_. 7) 5 10 mini_fi s = Inr (5, s') \<and> abs_fs s' 2 = Some a \<and> af_bytes a 12 = 7 \<and> af_size a = 100"
proof -
  obtain s s1 :: ftab and r where s: "fs_ok s" "abs_fs s = abs_fs (mini_fs (ftab.fields 1 (\<lambda>_. static_file\<lparr>f_ip := Some 0\<rparr>)))" "handle_of mini_fi 2 0 s"
    "myfuse_write (\<lambda>_. 7) 5 10 mini_fi s = Inr (r, s1)" by (rule mini_write)
  obtain a where a: "abs_fs s 2 = Some a" "af_type a = T_FILE" "af_size a = 100" by (auto simp: s(2) mini_afs(2))
  have nd: "af_type a \<noteq> T_DIR" "unat (10 :: size_t) + unat (5 :: size_t) < 2 ^ 64" using a(2) by (simp_all add: T_FILE_def T_DIR_def)
  have le: "\<not> (10 :: size_t) > MAXFILE_SIZE" "min (unat (5 :: size_t)) (unat MAXFILE_SIZE - unat (10 :: size_t)) = 5"
    by (simp_all add: word_less_nat_alt unat_MAXFILE_SIZE map_sizes BSIZE_def)
  have "r = 5 \<and> abs_fs s1 = (abs_fs s)(2 \<mapsto> written a 10 5 (\<lambda>_. 7))"
    using write_refines[OF s(1,3) a(1) nd s(4)] le by (simp add: Let_def to_int_def)
  then show ?thesis using s(1,4) a(3) by (intro exI[of _ s] exI[of _ s1]) (simp add: written_def upd_bytes_def)
qed

theorem write_read_bytes_witness:
  "\<exists>(s :: ftab) r s1 b s2. myfuse_write (\<lambda>_. 7) 5 10 mini_fi s = Inr (r, s1) \<and> myfuse_read (\<lambda>_. 0) 5 10 mini_fi s1 = Inr ((r, b), s2) \<and> b 4 = 7"
proof -
  obtain s s1 :: ftab and r where s: "fs_ok s" "abs_fs s = abs_fs (mini_fs (ftab.fields 1 (\<lambda>_. static_file\<lparr>f_ip := Some 0\<rparr>)))" "handle_of mini_fi 2 0 s"
    "myfuse_write (\<lambda>_. 7) 5 10 mini_fi s = Inr (r, s1)" "locks_in {} s1" "quiet 12 s1" "lg_size s = 40" by (rule mini_write)
  obtain a where a: "abs_fs s 2 = Some a" "af_type a = T_FILE" "af_size a = 100" by (auto simp: s(2) mini_afs(2))
  have nd: "af_type a \<noteq> T_DIR" "unat (10 :: size_t) + unat (5 :: size_t) < 2 ^ 64" using a(2) by (simp_all add: T_FILE_def T_DIR_def)
  have le: "\<not> (10 :: size_t) > MAXFILE_SIZE" "min (unat (5 :: size_t)) (unat MAXFILE_SIZE - unat (10 :: size_t)) = 5" "af_size a \<le> MAXFILE_SIZE"
    "unat (10 :: size_t) + unat (5 :: size_t) \<le> unat MAXFILE_SIZE"
    using a(3) by (simp_all add: word_less_nat_alt word_le_nat_alt unat_MAXFILE_SIZE map_sizes BSIZE_def)
  let ?b = "written a 10 5 (\<lambda>_. 7)"
  note W = fs_write[OF s(1,3) a(1) nd s(4)]
  have w: "fs_ok s1" "entry_of s1 = entry_of s" "geo s1 = geo s" "abs_fs s1 2 = Some ?b" using W le by (simp_all add: Let_def)
  have h1: "handle_of mini_fi 2 0 s1" using s(3) handle_geo[OF w(3,2)] by simp
  have sz: "af_size ?b = 100" using a(3) by (simp add: written_def)
  have q: "op_room 12 5 s1" by (rule quiet_room[OF quiet_mono[OF s(6)]]) (use geo_sb(2)[OF w(3)] s(7) in simp_all)
  have lim: "af_size ?b \<le> MAXFILE_SIZE" "unat (10 :: size_t) + unat (5 :: size_t) \<le> unat (af_size ?b)" "unat (10 :: size_t) < unat (af_size ?b)"
    "unat (10 :: size_t) mod BSIZE + unat (5 :: size_t) \<le> BSIZE"
    unfolding sz by (simp_all add: word_le_nat_alt unat_MAXFILE_SIZE map_sizes BSIZE_def)
  obtain r' b s2 where rd: "myfuse_read (\<lambda>_. 0) 5 10 mini_fi s1 = Inr ((r', b), s2)"
    using read_returns[OF w(1) h1 w(4) lim(1) s(5) q lim(2-4), of "\<lambda>_. 0"] by blast
  have "r' = r \<and> b 4 = 7" using write_read_bytes[OF s(1,3,3) a(1) nd(1) le(3,4) s(4) rd] by simp
  then show ?thesis using s(4) rd by blast
qed

theorem requests_type_safe_witness:
  "\<exists>(s :: ftab) s' reps. serve_all (\<lambda>b n st. (b, 0)) [Mkdir path_c 7] s = Inr (reps, s') \<and> fs_ok s' \<and> kept_files (abs_fs s) (abs_fs s')"
proof -
  let ?x = "ftab.fields 1 (\<lambda>_. static_file)"
  obtain s s1 :: ftab where s: "fs_ok s" "refs_ok s" "abs_fs s = abs_fs (mini_fs ?x)" and run: "myfuse_mkdir path_c 7 s = Inr (0, s1)"
    by (rule mini_mkdir[where mode = 7 and x = ?x]) blast
  have sv: "serve_all (\<lambda>b n st. (b, 0)) [Mkdir path_c 7] s = Inr ([Plain 0], s1)" using run by (simp add: reply_as_def)
  have r: "list_all adding [Mkdir path_c 7]" "dirs_below (length [Mkdir path_c 7]) (abs_fs s)"
    using path_c(2) dirs_below_mono[OF mini_mkdir_room(2)[of ?x]] s(3) by (simp_all add: adding_def)
  show ?thesis using requests_type_safe[OF sv s(1,2) r] sv by blast
qed

end
