(* ===== verification/Diagnostic.thy ===== *)
theory Diagnostic
  imports Mount
begin

text \<open>
  \<^verbatim>\<open>diagnostic/disk-diagnostic.cc\<close>, which walks the block maps of all inodes on the device and reports
  the data blocks that are marked in the bitmap but belong to no inode. Of its output the inode
  numbers and the leaked blocks are modelled; the other output repeats fields of the structures.
  \<open>block_used\<close> is the set of the blocks met so far.
\<close>

definition disk_init :: "int \<Rightarrow> 'a ftab_scheme \<Rightarrow> (unit \<times> 'a ftab_scheme) res" where
  "disk_init fd s =
    chain (block_device_init fd s) (\<lambda>(_, s).
    chain (read_block_raw_nbytes SUPERBLOCK_ID zero_block (word_of_nat superblock_bytes) s) (\<lambda>((n, d), s).
    if n \<noteq> int superblock_bytes then Inl (Err_exit ''failed to read super block'')
    else
      let sb = get_superblock d;
          s = s\<lparr>fs_sb := sb\<rparr>
      in if sb_magic sb \<noteq> FSMAGIC then Inl (Err_exit ''disk magic not match! read %x'')
      else
        chain (log_init sb (bcache_init s)) (\<lambda>(_, s).
        chain (inode_init sb s) (\<lambda>(_, s).
        Inr ((), file_init s)))))"

text \<open>
  \<open>print_map 0\<close> is \<open>print_direct_map\<close>, the others are \<open>print_indirect1_map\<close> to \<open>print_indirect3_map\<close>.
  The blocks on the way down stay locked.
\<close>

primrec print_map :: "nat \<Rightarrow> (nat \<Rightarrow> uint) \<Rightarrow> nat \<Rightarrow> uint set \<times> 'a bmap_scheme \<Rightarrow> (unit \<times> uint set \<times> 'a bmap_scheme) res" where
  "print_map 0 addrs n u =
    foreach [0..<n] (\<lambda>i (used, s). Inr ((), if addrs i \<noteq> 0 then insert (addrs i) used else used, s)) u"
| "print_map (Suc d) addrs n u =
    foreach [0..<n] (\<lambda>i (used, s).
      if addrs i \<noteq> 0 then
        chain (logged_read (addrs i) s) (\<lambda>(bp, s).
        chain (print_map d (index_entry (buf_data s bp)) NINDIRECT1 (insert (addrs i) used, s)) (\<lambda>(_, used, s).
        Inr ((), used, logged_relse bp s)))
      else Inr ((), used, s)) u"

definition output_dinode :: "(nat \<Rightarrow> uint) \<Rightarrow> uint set \<times> 'a bmap_scheme \<Rightarrow> (unit \<times> uint set \<times> 'a bmap_scheme) res" where
  "output_dinode addrs u =
    chain (print_map 0 addrs NDIRECT u) (\<lambda>(_, u).
    chain (if addrs NDIRECT \<noteq> 0 then print_map 1 (\<lambda>_. addrs NDIRECT) 1 u else Inr ((), u)) (\<lambda>(_, u).
    chain (if addrs (NDIRECT + 1) \<noteq> 0 then print_map 2 (\<lambda>_. addrs (NDIRECT + 1)) 1 u else Inr ((), u)) (\<lambda>(_, u).
    if addrs (NDIRECT + 2) \<noteq> 0 then print_map 3 (\<lambda>_. addrs (NDIRECT + 2)) 1 u else Inr ((), u))))"

text \<open>The inode numbers in use, in the order they are printed.\<close>

definition count_inodes :: "uint list \<times> uint set \<times> 'a itable_scheme \<Rightarrow> (unit \<times> uint list \<times> uint set \<times> 'a itable_scheme) res" where
  "count_inodes u =
    foreach [1..<unat (sb_ninodes (fs_sb (snd (snd u))))] (\<lambda>inum (files, used, s).
      chain (logged_read (IBLOCK (word_of_nat inum) s) s) (\<lambda>(bp, s).
      let dip = get_dinode (buf_data s bp) (dinode_off (word_of_nat inum)) static_inode in
      if di_type dip \<noteq> T_UNUSE then
        chain (output_dinode (di_addrs dip) (used, s)) (\<lambda>(_, used, s).
        Inr ((), files @ [word_of_nat inum], used, logged_relse bp s))
      else Inr ((), files, used, logged_relse bp s))) u"

definition count_leakblock :: "uint set \<Rightarrow> 'a bmap_scheme \<Rightarrow> (uint list) res" where
  "count_leakblock used s =
    (let sb = fs_sb s in
     chain (foreach [unat (sb_size sb - sb_nblocks sb)..<unat (sb_size sb)] (\<lambda>i leak.
       chain (bmap_block_statue_get (word_of_nat i) s) (\<lambda>b.
       Inr ((), if b \<and> word_of_nat i \<notin> used then leak @ [word_of_nat i] else leak))) []) (\<lambda>(_, leak).
     Inr leak))"

definition diagnose :: "int \<Rightarrow> 'a ftab_scheme \<Rightarrow> ((uint list \<times> uint list) \<times> 'a ftab_scheme) res" where
  "diagnose fd s =
    chain (disk_init fd s) (\<lambda>(_, s).
    chain (count_inodes ([], {}, s)) (\<lambda>(_, files, used, s).
    chain (count_leakblock used s) (\<lambda>leak.
    Inr ((files, leak), s))))"

end
