(* ===== verification/File_Table.thy ===== *)
theory File_Table
  imports File_Ops
begin

text \<open>
  The table of open files of \<^verbatim>\<open>file.c\<close> as a table of handle counts, what an entry keeps from its last
  user when it is used again, and the statistics as a count of the free blocks.
\<close>

section \<open>The table of open files\<close>

text \<open>The number of handles an entry stands for; there are no entries behind the end of the table.\<close>

definition handles :: "'a ftab_scheme \<Rightarrow> nat \<Rightarrow> int" where
  "handles s f = (if f < ft_n s then f_ref (ft_file s f) else 0)"

lemma upd_file_simps [simp]:
  "ft_file (upd_file f g s) h = (if h = f then g (ft_file s f) else ft_file s h)" "ft_n (upd_file f g s) = ft_n s"
  "itable.truncate (upd_file f g s) = itable.truncate s" "it_inode (upd_file f g s) = it_inode s"
  by (simp_all add: upd_file_def itable.truncate_def)

lemma ftable_grow_simps [simp]:
  "ft_n (ftable_grow s) = 2 * ft_n s" "itable.truncate (ftable_grow s) = itable.truncate s"
  "ft_file (ftable_grow s) f = (if ft_n s \<le> f \<and> f < 2 * ft_n s then static_file else ft_file s f)"
  by (simp_all add: ftable_grow_def itable.truncate_def)

lemma filealloc_cases:
  assumes "0 < ft_n s" "filealloc s = (f, s')"
  obtains (free) "f < ft_n s" "f_ref (ft_file s f) = 0" "s' = upd_file f (f_ref_update (\<lambda>_. 1)) s"
  | (full) "f = ft_n s" "\<forall>i<ft_n s. f_ref (ft_file s i) \<noteq> 0" "s' = upd_file f (f_ref_update (\<lambda>_. 1)) (ftable_grow s)"
proof (cases "find_from (\<lambda>i. f_ref (ft_file s i) = 0) 0 (ft_n s)")
  case None
  then have "\<forall>i<ft_n s. f_ref (ft_file s i) \<noteq> 0" by (simp add: find_from_None)
  moreover have "f = ft_n s" "s' = upd_file f (f_ref_update (\<lambda>_. 1)) (ftable_grow s)" using assms None by (auto simp: filealloc_def Let_def)
  ultimately show ?thesis by (intro full)
next
  case (Some i)
  then have "i = f" "s' = upd_file f (f_ref_update (\<lambda>_. 1)) s" using assms by (auto simp: filealloc_def)
  then show ?thesis using free find_from_Some[OF Some] by simp
qed

text \<open>
  C37: filealloc takes an unused handle: the entry it returns stood for none and now stands for
  one, no other entry changes, the inode layer is untouched, and the table doubles exactly when
  every entry is in use.
\<close>

theorem filealloc_refines:
  assumes "0 < ft_n s" "filealloc s = (f, s')"
  shows "f < ft_n s' \<and> handles s f = 0 \<and> handles s' = (handles s)(f := 1) \<and>
    (\<forall>g<ft_n s. g \<noteq> f \<longrightarrow> ft_file s' g = ft_file s g) \<and> itable.truncate s' = itable.truncate s \<and>
    ft_n s' = (if \<forall>g<ft_n s. handles s g \<noteq> 0 then 2 * ft_n s else ft_n s)"
  using assms
proof (cases rule: filealloc_cases)
  case free
  then show ?thesis by (auto simp: handles_def fun_eq_iff)
next
  case full
  then show ?thesis using assms(1) by (auto simp: handles_def fun_eq_iff static_file_def)
qed

theorem filedup_fileclose:
  assumes "filedup f s = Inr (g, s1)"
  shows "g = f \<and> 1 \<le> f_ref (ft_file s f) \<and> fileclose g s1 = Inr ((), s)"
proof -
  have r: "1 \<le> f_ref (ft_file s f)" "g = f" "s1 = upd_file f (\<lambda>x. x\<lparr>f_ref := f_ref x + 1\<rparr>) s"
    using assms by (auto simp: filedup_def split: if_splits)
  have "upd_file f (\<lambda>x. x\<lparr>f_ref := f_ref x - 1\<rparr>) s1 = s" by (simp add: r(3) upd_file_def)
  then show ?thesis using r by (simp add: fileclose_def Let_def)
qed

lemma odd_unat: "odd (unat (w :: uint)) \<longleftrightarrow> w mod 2 \<noteq> 0"
proof -
  have "unat (w mod 2) = unat w mod 2" by (simp add: unat_mod_distrib)
  then show ?thesis by (simp add: word_unat_eq_iff odd_iff_mod_2_eq_one)
qed

theorem open_reuses_entry:
  assumes "0 < ft_n s"
  shows "case filealloc s of (f, s1) \<Rightarrow> (let x = ft_file (upd_file f (open_file ip flags) s1) f in
    f_ip x = Some ip \<and> f_type x = FD_INODE \<and> f_ref x = 1 \<and> f_writable x = 1 \<and> (f_readable x = 1 \<longleftrightarrow> even (unat flags)) \<and>
    f_off x = (if f < ft_n s then f_off (ft_file s f) else 0))"
proof -
  obtain f s1 where fs: "filealloc s = (f, s1)" by fastforce
  have fl: "and flags O_RDONLY = 0" "and flags O_WRONLY \<noteq> 0 \<longleftrightarrow> odd (unat flags)"
    by (simp_all add: O_RDONLY_def O_WRONLY_def and_one_eq odd_unat)
  have "f_off (ft_file s1 f) = (if f < ft_n s then f_off (ft_file s f) else 0) \<and> f_ref (ft_file s1 f) = 1"
    by (cases rule: filealloc_cases[OF assms fs]) (use assms in \<open>auto simp: static_file_def\<close>)
  then show ?thesis using fl fs by (auto simp: open_file_def Let_def)
qed

section \<open>Free blocks\<close>

lemma count_free_eq:
  assumes "n \<le> unat (bm_n s) * BPB" "n \<le> 2 ^ 32"
  shows "count_free n s = Inr (card {b. b < n \<and> \<not> bm_bit s b})"
proof -
  let ?body = "\<lambda>i k. chain (bmap_block_statue_get (word_of_nat i) s) (\<lambda>b. Inr ((), if b then k else k + 1))"
  have "foreach [0..<m] ?body 0 = Inr ((), card {b. b < m \<and> \<not> bm_bit s b})" if "m \<le> n" for m
    using that
  proof (induction m)
    case (Suc m)
    have u: "unat (word_of_nat m :: uint) = m" using Suc.prems assms(2) by (simp add: unsigned_of_nat take_bit_nat_eq_self)
    then have g: "bmap_block_statue_get (word_of_nat m) s = Inr (bm_bit s m)" using bmap_get_eq[of "word_of_nat m" s] Suc.prems assms(1) by simp
    have "{b. b < Suc m \<and> \<not> bm_bit s b} = (if bm_bit s m then {b. b < m \<and> \<not> bm_bit s b} else insert m {b. b < m \<and> \<not> bm_bit s b})"
      by (auto simp: less_Suc_eq)
    moreover have "finite {b. b < m \<and> \<not> bm_bit s b}" by simp
    ultimately show ?case using Suc g unfolding foreach_upt_Suc[OF le0] by simp
  qed simp
  then show ?thesis by (simp add: count_free_def)
qed

theorem statfs_counts_free:
  assumes "unat (sb_size (fs_sb s)) \<le> unat (bm_n s) * BPB"
  shows "myfuse_statfs buf s = Inr (0, buf\<lparr>f_blocks := unat (sb_nblocks (fs_sb s)), f_bsize := 4096,
    f_bfree := card {b. b < unat (sb_size (fs_sb s)) \<and> \<not> bm_bit s b}, f_fsid := 0x636A6673, f_namemax := 60\<rparr>)"
proof -
  have "unat (sb_size (fs_sb s)) \<le> 2 ^ 32" using unsigned_less[of "sb_size (fs_sb s)", where ?'a = nat] by simp
  then show ?thesis using count_free_eq[OF assms] by (simp add: myfuse_statfs_def BSIZE_def FSMAGIC_def DIRSIZE_def)
qed

section \<open>On the small file system\<close>

text \<open>Entry 0 is open, entry 1 was closed at offset 9.\<close>

definition mini_ft :: ftab where
  "mini_ft = itable.extend (mini_it mini_tab (\<lambda>_. zero_block))
    (ftab.fields 2 (\<lambda>i. if i = 0 then static_file\<lparr>f_ref := 1, f_type := FD_INODE, f_ip := Some 1\<rparr> else static_file\<lparr>f_off := 9\<rparr>))"

lemma mini_ft_fields:
  "ft_n mini_ft = 2" "ft_file mini_ft 0 = static_file\<lparr>f_ref := 1, f_type := FD_INODE, f_ip := Some 1\<rparr>"
  "ft_file mini_ft (Suc 0) = static_file\<lparr>f_off := 9\<rparr>" "fs_sb mini_ft = fs_sb (mini_it mini_tab (\<lambda>_. zero_block))"
  "bm_n mini_ft = 1" "bm_bit mini_ft j \<longleftrightarrow> \<not> (48 \<le> j \<and> j < 64)"
  using mini_it_bits[of mini_tab "\<lambda>_. zero_block" "()" j]
  by (simp_all add: mini_ft_def itable.extend_def ftab.fields_def bm_bit_def mini_ext_def bcache_init_def)

lemma mini_ft_alloc: "filealloc mini_ft = (1, upd_file 1 (f_ref_update (\<lambda>_. 1)) mini_ft)"
proof -
  have "find_from (\<lambda>i. f_ref (ft_file mini_ft i) = 0) 0 (ft_n mini_ft) = Some 1"
    by (simp add: find_from.simps mini_ft_fields static_file_def)
  then show ?thesis by (simp add: filealloc_def)
qed

theorem filealloc_refines_witness:
  "\<exists>s'. filealloc mini_ft = (1, s') \<and> handles mini_ft 1 = 0 \<and> handles s' 1 = 1 \<and> handles s' 0 = 1"
proof -
  obtain s' where s': "filealloc mini_ft = (1, s')" using mini_ft_alloc by blast
  have "handles mini_ft 0 = 1" by (simp add: handles_def mini_ft_fields)
  then show ?thesis using filealloc_refines[OF _ s'] s' by (simp add: mini_ft_fields del: One_nat_def)
qed

theorem filedup_fileclose_witness:
  "\<exists>s1. filedup 0 mini_ft = Inr (0, s1) \<and> fileclose 0 s1 = Inr ((), mini_ft)"
proof -
  obtain s1 where s1: "filedup 0 mini_ft = Inr (0, s1)" by (simp add: filedup_def mini_ft_fields)
  then show ?thesis using filedup_fileclose[OF s1] by blast
qed

theorem open_reuses_entry_witness:
  "\<exists>s1. filealloc mini_ft = (1, s1) \<and> (let x = ft_file (upd_file 1 (open_file 0 O_RDONLY) s1) 1 in f_writable x = 1 \<and> f_off x = 9)"
proof -
  obtain s1 where s1: "filealloc mini_ft = (1, s1)" using mini_ft_alloc by blast
  have n: "0 < ft_n mini_ft" by (simp add: mini_ft_fields)
  show ?thesis using open_reuses_entry[OF n, of 0 O_RDONLY] s1 by (simp add: Let_def mini_ft_fields)
qed

theorem statfs_counts_free_witness:
  "\<exists>b. myfuse_statfs b mini_ft = Inr (0, b\<lparr>f_blocks := 24, f_bsize := 4096, f_bfree := 16, f_fsid := 0x636A6673, f_namemax := 60\<rparr>)"
proof -
  have sb: "unat (sb_size (fs_sb mini_ft)) = 128" "unat (sb_nblocks (fs_sb mini_ft)) = 24"
    by (simp_all add: mini_ft_fields mini_ext_def bcache_init_def)
  have "{b. b < unat (sb_size (fs_sb mini_ft)) \<and> \<not> bm_bit mini_ft b} = {48..<64}" unfolding sb by (auto simp: mini_ft_fields)
  then have "card {b. b < unat (sb_size (fs_sb mini_ft)) \<and> \<not> bm_bit mini_ft b} = 16" by simp
  moreover have "unat (sb_size (fs_sb mini_ft)) \<le> unat (bm_n mini_ft) * BPB" unfolding sb by (simp add: mini_ft_fields BPB_def BSIZE_def)
  ultimately show ?thesis using statfs_counts_free[of mini_ft] sb by simp
qed

end
