(* ===== verification/Disk_Tools.thy ===== *)
theory Disk_Tools
  imports Diagnostic File_Table Inode_Trunc
begin

text \<open>
  What \<^verbatim>\<open>mkfs\<close> puts on the device and where, what mounting reads back, and what the diagnosis of a
  device finds.
\<close>

section \<open>The super block\<close>

lemma get_put_superblock: "get_superblock (put_superblock d sb) = sb"
  by (simp add: get_superblock_def put_superblock_def get_put_le_other)

section \<open>Layout\<close>

lemma layout_nat:
  fixes n :: uint
  assumes "1040 \<le> unat n"
  defines "sb \<equiv> init_super_block n"
  shows "sb_magic sb = FSMAGIC" "sb_size sb = n" "unat (sb_nlog sb) = NLOG" "unat (sb_logstart sb) = 2" "unat (sb_inodestart sb) = 2 + NLOG"
    "unat (sb_ninodes sb) = (unat n div 50 + 1) * IPB" "unat (sb_bmapstart sb) = 2 + NLOG + (unat n div 50 + 1)"
    "unat (sb_size sb - sb_nblocks sb) = 2 + NLOG + (unat n div 50 + 1) + (unat n + BPB - 1) div BPB"
    "2 + NLOG + (unat n div 50 + 1) + (unat n + BPB - 1) div BPB \<le> unat n"
    "unat (sb_nblocks sb) = unat n - (2 + NLOG + (unat n div 50 + 1) + (unat n + BPB - 1) div BPB)"
proof -
  have lt: "unat n < 2 ^ 32" using unsigned_less[of n, where ?'a = nat] by simp
  have ni: "unat (n div 50 + 1) = unat n div 50 + 1"
    using unat_word_ariths(1)[of "n div 50" 1] lt by (simp add: unat_div_distrib)
  let ?b = "ucast (roundup (ucast n) (word_of_nat BPB) div word_of_nat BPB) :: uint"
  have nb: "unat ?b = (unat n + BPB - 1) div BPB" by (rule unat_roundup(2))
  have B: "(unat n + BPB - 1) div BPB \<le> 131072" using lt by (simp add: BPB_def BSIZE_def)
  have nl: "unat (2 + word_of_nat NLOG :: uint) = 2 + NLOG" by (simp add: NLOG_def MAXOPBLOCKS_def)
  have bs: "unat (2 + word_of_nat NLOG + (n div 50 + 1) :: uint) = 2 + NLOG + (unat n div 50 + 1)"
    using unat_word_ariths(1)[of "2 + word_of_nat NLOG :: uint" "n div 50 + 1"] lt unfolding ni nl by (simp add: NLOG_def MAXOPBLOCKS_def)
  have me: "unat (2 + word_of_nat NLOG + (n div 50 + 1) + ?b) = 2 + NLOG + (unat n div 50 + 1) + (unat n + BPB - 1) div BPB"
    using unat_word_ariths(1)[of "2 + word_of_nat NLOG + (n div 50 + 1) :: uint" ?b] lt B unfolding bs nb by (simp add: NLOG_def MAXOPBLOCKS_def)
  show le: "2 + NLOG + (unat n div 50 + 1) + (unat n + BPB - 1) div BPB \<le> unat n"
    using assms(1) by (simp add: NLOG_def MAXOPBLOCKS_def BPB_def BSIZE_def)
  show "sb_magic sb = FSMAGIC" "sb_size sb = n" "unat (sb_nlog sb) = NLOG" "unat (sb_logstart sb) = 2" "unat (sb_inodestart sb) = 2 + NLOG"
    unfolding sb_def by (simp_all add: init_super_block_def Let_def NLOG_def MAXOPBLOCKS_def)
  show "unat (sb_bmapstart sb) = 2 + NLOG + (unat n div 50 + 1)" using bs by (simp add: sb_def init_super_block_def Let_def)
  have "unat ((n div 50 + 1) * word_of_nat IPB) = (unat n div 50 + 1) * IPB"
    using unat_word_ariths(2)[of "n div 50 + 1" "word_of_nat IPB"] lt unfolding ni by (simp add: IPB_def)
  then show "unat (sb_ninodes sb) = (unat n div 50 + 1) * IPB" by (simp add: sb_def init_super_block_def Let_def)
  have sz: "sb_size sb - sb_nblocks sb = 2 + word_of_nat NLOG + (n div 50 + 1) + ?b" by (simp add: sb_def init_super_block_def Let_def)
  then show "unat (sb_size sb - sb_nblocks sb) = 2 + NLOG + (unat n div 50 + 1) + (unat n + BPB - 1) div BPB" using me by simp
  have "sb_nblocks sb = n - (2 + word_of_nat NLOG + (n div 50 + 1) + ?b)" by (simp add: sb_def init_super_block_def Let_def)
  then show "unat (sb_nblocks sb) = unat n - (2 + NLOG + (unat n div 50 + 1) + (unat n + BPB - 1) div BPB)"
    using me le by (simp add: unat_sub word_le_nat_alt)
qed

lemma layout_iblock:
  fixes n :: uint
  assumes "1040 \<le> unat n" and h: "fs_sb s = init_super_block n" "inum < sb_ninodes (init_super_block n)"
  shows "unat (sb_inodestart (init_super_block n)) \<le> unat (IBLOCK inum s)" "unat (IBLOCK inum s) < unat (sb_bmapstart (init_super_block n))"
proof -
  note L = layout_nat[OF assms(1)]
  have lt: "unat n < 2 ^ 32" using unsigned_less[of n, where ?'a = nat] by simp
  have i: "unat inum div IPB < unat n div 50 + 1" using h(2) L(6) by (simp add: word_less_nat_alt IPB_def)
  have ui: "unat (word_of_nat (unat inum div IPB) :: uint) = unat inum div IPB"
    using i lt by (simp add: unsigned_of_nat take_bit_nat_eq_self)
  have "unat (IBLOCK inum s) = unat inum div IPB + unat (sb_inodestart (init_super_block n))"
    using unat_word_ariths(1)[of "word_of_nat (unat inum div IPB) :: uint" "sb_inodestart (init_super_block n)"] i lt unfolding ui
    by (simp add: IBLOCK_def h(1) L(5) NLOG_def MAXOPBLOCKS_def)
  then show "unat (sb_inodestart (init_super_block n)) \<le> unat (IBLOCK inum s)" "unat (IBLOCK inum s) < unat (sb_bmapstart (init_super_block n))"
    using i L(5,7) by simp_all
qed

theorem format_layout:
  fixes n :: uint
  assumes "1040 \<le> unat n"
  defines "sb \<equiv> init_super_block n"
  shows "unat (sb_inodestart sb) = unat (sb_logstart sb) + unat (sb_nlog sb) \<and>
    unat (sb_bmapstart sb) = unat (sb_inodestart sb) + unat (sb_ninodes sb) div IPB \<and>
    unat (sb_size sb - sb_nblocks sb) = unat (sb_bmapstart sb) + (unat n + BPB - 1) div BPB \<and>
    unat (sb_size sb - sb_nblocks sb) + unat (sb_nblocks sb) = unat n \<and>
    (\<forall>inum. fs_sb s = sb \<and> inum < sb_ninodes sb \<longrightarrow>
      unat (sb_inodestart sb) \<le> unat (IBLOCK inum s) \<and> unat (IBLOCK inum s) < unat (sb_bmapstart sb))"
proof -
  note L = layout_nat[OF assms(1), folded sb_def]
  have lt: "unat n < 2 ^ 32" using unsigned_less[of n, where ?'a = nat] by simp
  have "unat (sb_inodestart sb) \<le> unat (IBLOCK inum s) \<and> unat (IBLOCK inum s) < unat (sb_bmapstart sb)"
    if "fs_sb s = sb" "inum < sb_ninodes sb" for inum
    using layout_iblock[OF assms(1), folded sb_def, OF that] by simp
  moreover have "unat (sb_size sb - sb_nblocks sb) + unat (sb_nblocks sb) = unat n" unfolding L(8,10) using L(9) by simp
  moreover have "unat (sb_ninodes sb) div IPB = unat n div 50 + 1" by (simp add: L(6) IPB_def)
  ultimately show ?thesis using L(3-5,7,8) by simp
qed

section \<open>Formatting and mounting\<close>

lemma zero_blocks:
  fixes s :: "'a device_scheme"
  assumes "\<not> disk_lock s" "m \<le> dev_nblk s" "m \<le> 2 ^ 32"
  shows "returns (foreach [0..<m] (\<lambda>i s. chain (write_block_raw (word_of_nat i) zero_block s) (\<lambda>(_, s). Inr ((), s))) s)
    (\<lambda>(_, t). \<not> disk_lock t \<and> dev_nblk t = dev_nblk s \<and> device.more t = device.more s \<and>
      (\<forall>b. dev_data t b = (if unat b < m then zero_block else dev_data s b)))"
proof (rule foreach_upt_returns)
  fix k t assume k: "k < m" and t: "\<not> disk_lock t \<and> dev_nblk t = dev_nblk s \<and> device.more t = device.more s \<and>
      (\<forall>b. dev_data t b = (if unat b < k then zero_block else dev_data s b))"
  have u: "unat (word_of_nat k :: uint) = k" using k assms(3) by (simp add: unsigned_of_nat take_bit_nat_eq_self)
  have "write_block_raw (word_of_nat k) zero_block t = Inr (int BSIZE, dev_put (word_of_nat k) zero_block t)"
    by (rule write_block_raw_ok) (use t u k assms(2) in simp_all)
  moreover have "b = word_of_nat k \<longleftrightarrow> unat b = k" for b :: uint using u by (auto simp: word_unat_eq_iff)
  ultimately show "returns (chain (write_block_raw (word_of_nat k) zero_block t) (\<lambda>(_, s). Inr ((), s)))
    (\<lambda>(u, t). \<not> disk_lock t \<and> dev_nblk t = dev_nblk s \<and> device.more t = device.more s \<and>
      (\<forall>b. dev_data t b = (if unat b < Suc k then zero_block else dev_data s b)))"
    using t by (simp add: dev_put_def less_Suc_eq)
qed (use assms in simp_all)

text \<open>What \<open>write_meta\<close> leaves on the device.\<close>

lemma write_meta_ok:
  fixes s :: "'a device_scheme"
  assumes "1040 \<le> unat n" "unat n \<le> dev_nblk s" "\<not> disk_lock s"
  defines "m \<equiv> unat (sb_size (init_super_block n) - sb_nblocks (init_super_block n))"
  obtains t where "write_meta (init_super_block n) s = Inr ((), t)" "\<not> disk_lock t" "dev_nblk t = dev_nblk s" "device.more t = device.more s"
    "\<And>b. dev_data t b = (if b = 1 then put_superblock zero_block (init_super_block n) else if unat b < m then zero_block else dev_data s b)"
proof -
  let ?sb = "init_super_block n"
  note L = layout_nat[OF assms(1)]
  have m: "m \<le> dev_nblk s" "m \<le> 2 ^ 32" "2 \<le> m"
    using L(8,9) assms(2) unsigned_less[of n, where ?'a = nat] by (simp_all add: m_def)
  obtain t where t: "foreach [0..<m] (\<lambda>i s. chain (write_block_raw (word_of_nat i) zero_block s) (\<lambda>(_, s). Inr ((), s))) s = Inr ((), t)"
    "\<not> disk_lock t" "dev_nblk t = dev_nblk s" "device.more t = device.more s"
    "\<forall>b. dev_data t b = (if unat b < m then zero_block else dev_data s b)"
    using zero_blocks[OF assms(3) m(1,2)] by (auto elim!: returnsE)
  have w: "write_block_raw 1 (put_superblock zero_block ?sb) t = Inr (int BSIZE, dev_put 1 (put_superblock zero_block ?sb) t)"
    by (rule write_block_raw_ok) (use t m in simp_all)
  show ?thesis
    by (rule that[of "dev_put 1 (put_superblock zero_block ?sb) t"])
      (use t m in \<open>simp_all add: write_meta_def m_def[symmetric] t(1) w dev_put_def\<close>)
qed

theorem format_then_mount:
  fixes s :: "'a device_scheme"
  assumes "1040 \<le> unat n" "unat n \<le> dev_nblk s" "\<not> disk_lock s"
  shows "returns (write_meta (init_super_block n) s) (\<lambda>(_, t).
    (\<exists>d. read_block_raw_nbytes SUPERBLOCK_ID zero_block (word_of_nat superblock_bytes) t = Inr ((int superblock_bytes, d), t) \<and>
      get_superblock d = init_super_block n \<and> sb_magic (get_superblock d) = FSMAGIC) \<and>
    (\<forall>b. b \<noteq> 1 \<and> unat b < unat (sb_size (init_super_block n) - sb_nblocks (init_super_block n)) \<longrightarrow> dev_data t b = zero_block) \<and>
    (\<forall>b. unat (sb_size (init_super_block n) - sb_nblocks (init_super_block n)) \<le> unat b \<longrightarrow> dev_data t b = dev_data s b))"
proof -
  let ?sb = "init_super_block n"
  define m where "m = unat (sb_size ?sb - sb_nblocks ?sb)"
  note L = layout_nat[OF assms(1)]
  have m: "m \<le> dev_nblk s" "2 \<le> m" using L(8,9) assms(2) by (simp_all add: m_def)
  let ?d = "put_superblock zero_block ?sb"
  let ?r = "\<lambda>i. if i < 32 then ?d i else zero_block i"
  have "get_superblock ?r = get_superblock ?d"
    by (simp add: get_superblock_def) (intro conjI get_le_cong; simp)
  then have g: "get_superblock ?r = ?sb" by (simp add: get_put_superblock)
  obtain t where t: "write_meta ?sb s = Inr ((), t)" "\<not> disk_lock t" "dev_nblk t = dev_nblk s"
    "\<And>b. dev_data t b = (if b = 1 then ?d else if unat b < m then zero_block else dev_data s b)"
    using write_meta_ok[OF assms] unfolding m_def by metis
  have "read_block_raw_nbytes SUPERBLOCK_ID zero_block (word_of_nat superblock_bytes) t = Inr ((int superblock_bytes, ?r), t)"
    using t m by (simp add: read_block_raw_nbytes_def lock_disk_def unlock_disk_def os_lseek_ok_def os_read_def
        SUPERBLOCK_ID_def superblock_bytes_def BSIZE_def Let_def cong: if_cong)
  then show ?thesis using t(1,4) g L(1) m(2) unfolding m_def[symmetric] by auto
qed


text \<open>On a device that is too small for the blocks before the data, the loop runs past its end.\<close>

lemma write_past_end:
  fixes s :: "'a device_scheme"
  assumes "\<not> disk_lock s" "n = dev_nblk s" "n + 2 \<le> m" "m \<le> 2 ^ 32"
  shows "chain (foreach [0..<m] (\<lambda>i s. chain (write_block_raw (word_of_nat i) zero_block s) (\<lambda>(_, s). Inr ((), s))) s)
    (\<lambda>(_, s). write_block_raw 1 d s) = Inl Deadlock"
proof -
  let ?body = "\<lambda>i (s :: 'a device_scheme). chain (write_block_raw (word_of_nat i) zero_block s) (\<lambda>(_, s). Inr ((), s))"
  have u: "unat (word_of_nat k :: uint) = k" if "k < m" for k using that assms(4) by (simp add: unsigned_of_nat take_bit_nat_eq_self)
  obtain t where t: "foreach [0..<n] ?body s = Inr ((), t)" "\<not> disk_lock t" "dev_nblk t = n"
    using zero_blocks[OF assms(1), of n] assms by (auto elim!: returnsE)
  have 1: "?body n t = Inr ((), t)"
    using t(2,3) u[of n] assms(3) by (simp add: write_block_raw_def lock_disk_def os_lseek_ok_def os_write_def unlock_disk_def)
  have 2: "?body (Suc n) t = Inr ((), t\<lparr>disk_lock := True\<rparr>)"
    using t(2,3) u[of "Suc n"] assms(3) by (simp add: write_block_raw_def lock_disk_def os_lseek_ok_def)
  have l: "write_block_raw b x (t\<lparr>disk_lock := True\<rparr>) = Inl Deadlock" for b x by (simp add: write_block_raw_def lock_disk_def)
  have e: "[0..<m] = [0..<n] @ [n, Suc n] @ [Suc (Suc n)..<m]"
    using assms(3) upt_add_eq_append[of 0 n "m - n"] by (simp add: upt_conv_Cons)
  show ?thesis
  proof (cases "Suc (Suc n) < m")
    case True
    then show ?thesis unfolding e foreach_append using t(1) 1 2 by (simp add: upt_conv_Cons l)
  next
    case False
    then show ?thesis unfolding e foreach_append using t(1) 1 2 by (simp add: l)
  qed
qed

lemma chain_step_error: "chain m (\<lambda>(u, s). f s) = Inl e \<Longrightarrow> chain m (\<lambda>(u, s). chain (f s) g) = Inl e"
  by (cases m) auto

theorem mkfs_too_small:
  fixes sector_size :: uint
  defines "n \<equiv> unat (sector_size div sector_per_block)"
  assumes "100 < n" "n \<le> 1038" "dev_nblk s = n" "0 \<le> fd"
  shows "mkfs sector_size fd s = Inl Deadlock"
proof -
  let ?b = "sector_size div sector_per_block" and ?sb = "init_super_block (sector_size div sector_per_block)"
  have bm: "(n + BPB - 1) div BPB = 1" using assms(2,3) by (simp add: BPB_def BSIZE_def)
  have "word_of_nat NLOG = (1016 :: uint)" "(2 :: uint) + 1016 = 1018" by (simp_all add: NLOG_def MAXOPBLOCKS_def)
  moreover have "ucast (roundup (ucast ?b) (word_of_nat BPB) div word_of_nat BPB) = (1 :: uint)"
    using unat_roundup(2)[of ?b] bm by (simp add: n_def word_unat_eq_iff)
  ultimately have "sb_size ?sb - sb_nblocks ?sb = 1018 + (?b div 50 + 1) + 1" by (simp add: init_super_block_def Let_def)
  moreover have d: "unat (?b div 50) = n div 50" by (simp add: n_def unat_div_distrib)
  moreover have "unat (1018 + (w + 1) + 1 :: uint) = 1020 + unat w" if "unat w < 100" for w :: uint
    using that by (simp add: unat_word_ariths)
  moreover have "n div 50 < 100" using assms(3) by simp
  ultimately have m: "unat (sb_size ?sb - sb_nblocks ?sb) = 1020 + n div 50" by simp
  define t where "t = s\<lparr>disk_lock := False, fs_sb := ?sb\<rparr>"
  have le: "n + 2 \<le> 1020 + n div 50"
  proof (cases "n div 50 < 20")
    case True
    then show ?thesis using div_mult_mod_eq[of n 50] mod_less_divisor[of 50 n] by linarith
  next
    case False
    then show ?thesis using assms(3) by linarith
  qed
  have "chain (foreach [0..<1020 + n div 50] (\<lambda>i s. chain (write_block_raw (word_of_nat i) zero_block s) (\<lambda>(_, s). Inr ((), s))) t)
    (\<lambda>(_, s). write_block_raw 1 (put_superblock zero_block ?sb) s) = Inl Deadlock"
    by (rule write_past_end[OF _ _ le]) (use assms in \<open>simp_all add: t_def\<close>)
  then have "write_meta ?sb t = Inl Deadlock" unfolding write_meta_def m by (rule chain_step_error)
  then show ?thesis using assms by (simp add: mkfs_def Let_def block_device_init_def word_le_nat_alt t_def)
qed

section \<open>Examples\<close>

theorem format_layout_witness:
  "unat (sb_size (init_super_block 2000) - sb_nblocks (init_super_block 2000)) + unat (sb_nblocks (init_super_block 2000)) = 2000 \<and>
    unat (sb_bmapstart (init_super_block 2000)) = 1059"
proof -
  have n: "1040 \<le> unat (2000 :: uint)" by simp
  show ?thesis using format_layout[OF n, of "undefined :: bmap"] layout_nat(5,6)[OF n] by (simp add: NLOG_def MAXOPBLOCKS_def IPB_def)
qed

definition disk_2000 :: device where
  "disk_2000 = small_device\<lparr>dev_nblk := 2000, disk_lock := False\<rparr>"

theorem format_then_mount_witness:
  "\<exists>t. write_meta (init_super_block 2000) disk_2000 = Inr ((), t) \<and> dev_data t 500 = zero_block"
proof -
  have n: "1040 \<le> unat (2000 :: uint)" "unat (2000 :: uint) \<le> dev_nblk disk_2000" "\<not> disk_lock disk_2000" by (simp_all add: disk_2000_def)
  have "unat (500 :: uint) < unat (sb_size (init_super_block 2000) - sb_nblocks (init_super_block 2000))"
    using layout_nat(8)[OF n(1)] by (simp add: NLOG_def MAXOPBLOCKS_def BPB_def BSIZE_def)
  then show ?thesis using format_then_mount[OF n] by (auto elim!: returnsE)
qed

theorem mkfs_too_small_witness:
  "mkfs 1600 3 ((mini_it mini_tab (\<lambda>_. zero_block))\<lparr>dev_nblk := 200\<rparr>) = Inl Deadlock"
  by (rule mkfs_too_small) (simp_all add: sector_per_block_def)


section \<open>What the diagnosis finds\<close>

text \<open>The blocks of a tree of depth \<open>d\<close> whose top is \<open>a\<close>.\<close>

primrec tree_blocks :: "(uint \<Rightarrow> block) \<Rightarrow> nat \<Rightarrow> uint \<Rightarrow> uint set" where
  "tree_blocks v 0 a = (if a = 0 then {} else {a})"
| "tree_blocks v (Suc d) a = (if a = 0 then {} else insert a (\<Union>i<NINDIRECT1. tree_blocks v d (index_entry (v a) i)))"

definition only_read :: "uint set \<Rightarrow> 'a fslog_scheme \<Rightarrow> 'a fslog_scheme \<Rightarrow> bool" where
  "only_read X s s' \<longleftrightarrow> log_ready X s' \<and> view s' = view s \<and> held s' = held s \<and> log_frame s' = log_frame s"

lemma only_read_trans: "only_read X s s1 \<Longrightarrow> only_read X s1 s2 \<Longrightarrow> only_read X s s2"
  by (simp add: only_read_def)

lemma print_map_ok:
  fixes s :: "'a bmap_scheme"
  assumes "log_ready X s" "\<And>i b. i < n \<Longrightarrow> b \<in> tree_blocks (view s) d (addrs i) \<Longrightarrow> data_block s b"
    and "print_map d addrs n (used, s) = Inr ((), used', s')"
  shows "only_read X s s' \<and> used' = used \<union> (\<Union>i<n. tree_blocks (view s) d (addrs i))"
  using assms
proof (induction d arbitrary: addrs n used used' s s')
  case 0
  let ?I = "\<lambda>k w. w = (used \<union> (\<Union>i<k. tree_blocks (view s) 0 (addrs i)), s)"
  have "ifok (print_map 0 addrs n (used, s)) (\<lambda>(_, w). ?I n w)"
    unfolding print_map.simps by (rule foreach_upt_ifok) (auto simp: less_Suc_eq)
  then show ?case using 0 by (simp add: only_read_def)
next
  case (Suc d)
  let ?U = "\<lambda>k. used \<union> (\<Union>i<k. tree_blocks (view s) (Suc d) (addrs i))"
  have US: "?U (Suc k) = ?U k \<union> tree_blocks (view s) (Suc d) (addrs k)" for k by (auto simp: less_Suc_eq simp del: tree_blocks.simps)
  let ?I = "\<lambda>k (u, t). only_read X s t \<and> u = ?U k"
  have step: "ifok (if addrs k \<noteq> 0 then
        chain (logged_read (addrs k) t) (\<lambda>(bp, s).
        chain (print_map d (index_entry (buf_data s bp)) NINDIRECT1 (insert (addrs k) u, s)) (\<lambda>(_, used, s).
        Inr ((), used, logged_relse bp s)))
      else Inr ((), u, t)) (\<lambda>(_, w). ?I (Suc k) w)" if k: "k < n" and I: "?I k (u, t)" for k u t
  proof (cases "addrs k = 0")
    case True
    then show ?thesis using I US[of k] by (simp del: tree_blocks.simps) simp
  next
    case False
    have t: "log_ready X t" "view t = view s" "held t = held s" "log_frame t = log_frame s" "u = ?U k" using I by (simp_all add: only_read_def)
    have db: "data_block t b" if "b \<in> tree_blocks (view s) (Suc d) (addrs k)" for b
      using Suc.prems(2)[OF k that] data_block_frame[OF t(4)] by simp
    have own: "data_block t (addrs k)" by (rule db) (simp add: False)
    show ?thesis
    proof (unfold if_P[OF False], rule ifok_chainI[of _ "\<lambda>(bp, t1). logged_read (addrs k) t = Inr (bp, t1)"])
      show "ifok (logged_read (addrs k) t) (\<lambda>(bp, t1). logged_read (addrs k) t = Inr (bp, t1))" by (auto intro: ifokI)
    next
      fix r assume "case r of (bp, t1) \<Rightarrow> logged_read (addrs k) t = Inr (bp, t1)"
      then obtain bp t1 where r: "r = (bp, t1)" and rd: "logged_read (addrs k) t = Inr (bp, t1)" by (cases r) simp
      note 1 = lg.rd_law[OF t(1) own rd] lg.read_release(1)[OF t(1) own rd]
      have dat: "buf_data t1 bp = view s (addrs k)" using 1(2) t(2) by simp
      have "ifok (print_map d (index_entry (view s (addrs k))) NINDIRECT1 (insert (addrs k) u, t1))
        (\<lambda>(_, w, t2). only_read X t1 t2 \<and> w = insert (addrs k) u \<union> (\<Union>i<NINDIRECT1. tree_blocks (view s) d (index_entry (view s (addrs k)) i)))"
      proof (rule ifokI, clarify)
        fix w t2 assume run: "print_map d (index_entry (view s (addrs k))) NINDIRECT1 (insert (addrs k) u, t1) = Inr ((), w, t2)"
        have v1: "view t1 = view s" using 1 t(2) by simp
        have D: "data_block t1 b" if "i < NINDIRECT1" "b \<in> tree_blocks (view t1) d (index_entry (view s (addrs k)) i)" for i b
          using db[of b] that 1 data_block_frame[of t1 t] False unfolding v1 by auto
        have lr: "log_ready X t1" using 1 by blast
        have "only_read X t1 t2 \<and> w = insert (addrs k) u \<union> (\<Union>i<NINDIRECT1. tree_blocks (view t1) d (index_entry (view s (addrs k)) i))"
          by (rule Suc.IH[OF lr _ run]) (rule D)
        then show "only_read X t1 t2 \<and> w = insert (addrs k) u \<union> (\<Union>i<NINDIRECT1. tree_blocks (view s) d (index_entry (view s (addrs k)) i))"
          unfolding v1 .
      qed
      then show "ifok (case r of (bp, s) \<Rightarrow> chain (print_map d (index_entry (buf_data s bp)) NINDIRECT1 (insert (addrs k) u, s))
          (\<lambda>(_, used, s). Inr ((), used, logged_relse bp s))) (\<lambda>(_, w). ?I (Suc k) w)"
        unfolding r prod.case dat
      proof (rule ifok_chainI)
        fix x :: "unit \<times> uint set \<times> 'a bmap_scheme"
        assume "case x of (_, w, t2) \<Rightarrow> only_read X t1 t2 \<and> w = insert (addrs k) u \<union> (\<Union>i<NINDIRECT1. tree_blocks (view s) d (index_entry (view s (addrs k)) i))"
        then obtain w t2 where x: "x = ((), w, t2)"
          and h: "only_read X t1 t2" "w = insert (addrs k) u \<union> (\<Union>i<NINDIRECT1. tree_blocks (view s) d (index_entry (view s (addrs k)) i))"
          by (cases x) auto
        have X: "addrs k \<notin> X" using lg.mod_held[OF t(1)] 1 by blast
        have h2: "log_ready X t2" "held t2 (addrs k) = Some bp" using h 1 by (simp_all add: only_read_def)
        note 4 = lg.rel_law[OF h2 X]
        have "(held t)(addrs k := None) = held t" using 1 by (simp add: fun_upd_idem)
        then show "ifok (case x of (_, used, s) \<Rightarrow> Inr ((), used, logged_relse bp s)) (\<lambda>(_, w). ?I (Suc k) w)"
          unfolding x prod.case
          using 4 h 1 t US[of k] by (simp add: only_read_def del: tree_blocks.simps) (auto simp: False)
      qed
    qed
  qed
  have "ifok (print_map (Suc d) addrs n (used, s)) (\<lambda>(_, w). ?I n w)"
    unfolding print_map.simps
  proof (rule foreach_upt_ifok)
    show "?I 0 (used, s)" using Suc.prems(1) by (simp add: only_read_def)
    fix k w assume kw: "k < n" "?I k w"
    obtain u t where w: "w = (u, t)" by (cases w)
    show "ifok (case w of (used, s) \<Rightarrow> if addrs k \<noteq> 0 then
        chain (logged_read (addrs k) s) (\<lambda>(bp, s).
        chain (print_map d (index_entry (buf_data s bp)) NINDIRECT1 (insert (addrs k) used, s)) (\<lambda>(_, used, s).
        Inr ((), used, logged_relse bp s)))
      else Inr ((), used, s)) (\<lambda>(_, w). ?I (Suc k) w)"
      unfolding w prod.case by (rule step) (use kw w in auto)
  qed simp
  then show ?case using Suc.prems(3) by simp
qed

lemma output_dinode_ok:
  fixes s :: "'a bmap_scheme"
  assumes ready: "log_ready X s" and db: "\<And>k b. k < NBLOCKADDR \<Longrightarrow> b \<in> tree_blocks (view s) (depth k) (addrs k) \<Longrightarrow> data_block s b"
    and run: "output_dinode addrs (used, s) = Inr ((), used', s')"
  shows "only_read X s s' \<and> used' = used \<union> (\<Union>k<NBLOCKADDR. tree_blocks (view s) (depth k) (addrs k))"
proof -
  let ?T = "\<lambda>k. tree_blocks (view s) (depth k) (addrs k)"
  have dp: "depth k = 0" if "k < NDIRECT" for k using that by (simp add: depth_def)
  have d3: "depth NDIRECT = 1" "depth (NDIRECT + 1) = 2" "depth (NDIRECT + 2) = 3" by (simp_all add: depth_def)
  obtain u0 t0 u1 t1 u2 t2 where 0: "print_map 0 addrs NDIRECT (used, s) = Inr ((), u0, t0)"
    and 1: "(if addrs NDIRECT \<noteq> 0 then print_map 1 (\<lambda>_. addrs NDIRECT) 1 (u0, t0) else Inr ((), u0, t0)) = Inr ((), u1, t1)"
    and 2: "(if addrs (NDIRECT + 1) \<noteq> 0 then print_map 2 (\<lambda>_. addrs (NDIRECT + 1)) 1 (u1, t1) else Inr ((), u1, t1)) = Inr ((), u2, t2)"
    and 3: "(if addrs (NDIRECT + 2) \<noteq> 0 then print_map 3 (\<lambda>_. addrs (NDIRECT + 2)) 1 (u2, t2) else Inr ((), u2, t2)) = Inr ((), used', s')"
    using run by (auto simp: output_dinode_def chain_eq_Inr split_paired_Ex simp del: One_nat_def print_map.simps)
  have "only_read X s t0 \<and> u0 = used \<union> (\<Union>i<NDIRECT. tree_blocks (view s) 0 (addrs i))"
  proof (rule print_map_ok[OF ready _ 0])
    fix i b assume "i < NDIRECT" "b \<in> tree_blocks (view s) 0 (addrs i)"
    then show "data_block s b" using db[of i b] dp[of i] by (simp add: NBLOCKADDR_def del: tree_blocks.simps)
  qed
  then have r0: "only_read X s t0" "u0 = used \<union> (\<Union>k<NDIRECT. ?T k)" using dp by auto
  have step: "only_read X s t' \<and> w' = w \<union> ?T k"
    if t: "only_read X s t" "k < NBLOCKADDR" "depth k = d" "d = Suc e"
      and r: "(if addrs k \<noteq> 0 then print_map d (\<lambda>_. addrs k) 1 (w, t) else Inr ((), w, t)) = Inr ((), w', t')" for t t' w w' k d e
  proof (cases "addrs k = 0")
    case True
    then show ?thesis using t r by simp
  next
    case False
    have v: "view t = view s" "log_ready X t" using t(1) by (simp_all add: only_read_def)
    have "only_read X t t' \<and> w' = w \<union> (\<Union>i<(1::nat). tree_blocks (view t) d (addrs k))"
    proof (rule print_map_ok[OF v(2), where n = 1 and addrs = "\<lambda>_. addrs k"])
      show "print_map d (\<lambda>_. addrs k) 1 (w, t) = Inr ((), w', t')" using r False by simp
      show "data_block t b" if "b \<in> tree_blocks (view t) d (addrs k)" for b
        using db[OF t(2), of b] that t(1,3) data_block_frame[of t s b] unfolding v by (simp add: only_read_def)
    qed
    then show ?thesis using only_read_trans[OF t(1)] t(3) v by auto
  qed
  note n = NBLOCKADDR_def
  have a1: "only_read X s t1 \<and> u1 = u0 \<union> ?T NDIRECT" by (rule step[OF r0(1) _ d3(1) _ 1]) (simp_all add: n)
  have a2: "only_read X s t2 \<and> u2 = u1 \<union> ?T (NDIRECT + 1)"
    by (rule step[OF conjunct1[OF a1] _ d3(2) _ 2, of 1]) (simp_all add: n)
  have a3: "only_read X s s' \<and> used' = u2 \<union> ?T (NDIRECT + 2)"
    by (rule step[OF conjunct1[OF a2] _ d3(3) _ 3, of 2]) (simp_all add: n)
  have "{..<NBLOCKADDR} = {..<NDIRECT} \<union> {NDIRECT, NDIRECT + 1, NDIRECT + 2}" by (auto simp: n)
  then have "(\<Union>k<NBLOCKADDR. ?T k) = (\<Union>k<NDIRECT. ?T k) \<union> ?T NDIRECT \<union> ?T (NDIRECT + 1) \<union> ?T (NDIRECT + 2)"
    by (simp add: Un_ac del: tree_blocks.simps)
  then show ?thesis using a1 a2 a3 r0(2) by (simp add: Un_ac)
qed

text \<open>The blocks an inode on the device owns.\<close>

definition in_use :: "'a itable_scheme \<Rightarrow> nat \<Rightarrow> bool" where
  "in_use s i \<longleftrightarrow> di_type (disk_inode s (word_of_nat i)) \<noteq> T_UNUSE"

definition disk_blocks :: "'a itable_scheme \<Rightarrow> nat \<Rightarrow> uint set" where
  "disk_blocks s i = (\<Union>k<NBLOCKADDR. tree_blocks (view s) (depth k) (di_addrs (disk_inode s (word_of_nat i)) k))"

lemma only_read_inode:
  assumes "only_read X s s'"
  shows "disk_inode s' = disk_inode s" "in_use s' = in_use s" "disk_blocks s' = disk_blocks s" "IBLOCK inum s' = IBLOCK inum s" "fs_sb s' = fs_sb s"
    "data_block s' b = data_block s b" "bm_bit s' = bm_bit s" "bm_n s' = bm_n s"
proof -
  have v: "view s' = view s" and l: "log_frame s' = log_frame s" using assms by (simp_all add: only_read_def)
  note f = bm_fields_more[OF log_frame_fslog_more[OF l]]
  show sb: "fs_sb s' = fs_sb s" "bm_n s' = bm_n s" "bm_bit s' = bm_bit s" using f bm_bit_cong by auto
  then show ib: "IBLOCK inum s' = IBLOCK inum s" for inum by (simp add: IBLOCK_def)
  show "data_block s' b = data_block s b" by (rule data_block_frame[OF l])
  show "disk_inode s' = disk_inode s" by (simp add: disk_inode_def fun_eq_iff ib v)
  then show "in_use s' = in_use s" "disk_blocks s' = disk_blocks s" by (simp_all add: in_use_def disk_blocks_def fun_eq_iff v)
qed

lemma count_inodes_ok:
  fixes s :: "'a itable_scheme"
  assumes ready: "log_ready X s"
    and db: "\<And>i. 1 \<le> i \<Longrightarrow> i < unat (sb_ninodes (fs_sb s)) \<Longrightarrow> data_block s (IBLOCK (word_of_nat i) s) \<and> (in_use s i \<longrightarrow> (\<forall>b\<in>disk_blocks s i. data_block s b))"
    and run: "count_inodes ([], {}, s) = Inr ((), files, used, s')"
  shows "only_read X s s' \<and> files = map word_of_nat (filter (in_use s) [1..<unat (sb_ninodes (fs_sb s))]) \<and>
    used = (\<Union>i\<in>{i. 1 \<le> i \<and> i < unat (sb_ninodes (fs_sb s)) \<and> in_use s i}. disk_blocks s i)"
proof -
  let ?N = "unat (sb_ninodes (fs_sb s))"
  let ?W = "\<lambda>n. \<Union>i\<in>{i. 1 \<le> i \<and> i < n \<and> in_use s i}. disk_blocks s i"
  let ?I = "\<lambda>n (files, used, t). only_read X s t \<and> files = map word_of_nat (filter (in_use s) [1..<n]) \<and> used = ?W n"
  let ?body = "\<lambda>inum (files, used, s :: 'a itable_scheme).
      chain (logged_read (IBLOCK (word_of_nat inum) s) s) (\<lambda>(bp, s).
      let dip = get_dinode (buf_data s bp) (dinode_off (word_of_nat inum)) static_inode in
      if di_type dip \<noteq> T_UNUSE then
        chain (output_dinode (di_addrs dip) (used, s)) (\<lambda>(_, used, s).
        Inr ((), files @ [word_of_nat inum], used, logged_relse bp s))
      else Inr ((), files, used, logged_relse bp s))"
  have W: "?W (Suc n) = (if in_use s n then ?W n \<union> disk_blocks s n else ?W n)" if "1 \<le> n" for n
    using that by (auto simp: less_Suc_eq)
  have step: "ifok (?body n w) (\<lambda>(_, w). ?I (Suc n) w)" if n: "1 \<le> n" "n < ?N" and I: "?I n w" for n w
  proof (rule ifokI)
    fix r assume r: "?body n w = Inr r"
    obtain fs u t where w: "w = (fs, u, t)" by (cases w)
    have t: "only_read X s t" "fs = map word_of_nat (filter (in_use s) [1..<n])" "u = ?W n" using I w by auto
    note o = only_read_inode[OF t(1)]
    have tr: "log_ready X t" "view t = view s" using t(1) by (simp_all add: only_read_def)
    obtain bp t1 where rd: "logged_read (IBLOCK (word_of_nat n) t) t = Inr (bp, t1)" using r by (auto simp: w chain_eq_Inr)
    have dbt: "data_block t (IBLOCK (word_of_nat n) t)" using db[OF n] o by simp
    note 1 = lg.rd_law[OF tr(1) dbt rd]
    note rr = lg.read_release[OF tr(1) dbt rd]
    let ?dip = "get_dinode (buf_data t1 bp) (dinode_off (word_of_nat n)) static_inode"
    have dip: "disk_part ?dip = disk_inode s (word_of_nat n)" using rr(1) o by (simp add: disk_inode_def tr(2))
    then have use: "di_type ?dip \<noteq> T_UNUSE \<longleftrightarrow> in_use s n" "di_addrs ?dip = di_addrs (disk_inode s (word_of_nat n))"
      by (simp_all add: in_use_def dip[symmetric] dinode.truncate_def)
    have up: "[1..<Suc n] = [1..<n] @ [n]" using n(1) by simp
    show "case r of (_, w) \<Rightarrow> ?I (Suc n) w"
    proof (cases "in_use s n")
      case False
      then have "r = ((), fs, u, logged_relse bp t1)" using r rd use(1) by (simp add: w Let_def)
      moreover have "only_read X s (logged_relse bp t1)" using rr t(1) by (simp add: only_read_def)
      ultimately show ?thesis using t False W[OF n(1)] up by simp
    next
      case True
      then obtain u' t2 where out: "output_dinode (di_addrs ?dip) (u, t1) = Inr ((), u', t2)"
        and r': "r = ((), fs @ [word_of_nat n], u', logged_relse bp t2)" using r rd use(1) by (auto simp: w Let_def chain_eq_Inr)
      have v1: "view t1 = view s" using 1 tr(2) by simp
      have d1: "data_block t1 b" if "k < NBLOCKADDR" "b \<in> tree_blocks (view t1) (depth k) (di_addrs ?dip k)" for k b
      proof -
        have "b \<in> disk_blocks s n" using that unfolding v1 use(2) by (auto simp: disk_blocks_def)
        then show ?thesis using db[OF n] True o(6)[of b] data_block_frame[of t1 t b] 1 by simp
      qed
      have lr: "log_ready X t1" using 1 by blast
      have O: "only_read X t1 t2 \<and> u' = u \<union> (\<Union>k<NBLOCKADDR. tree_blocks (view t1) (depth k) (di_addrs ?dip k))"
        by (rule output_dinode_ok[OF lr _ out]) (rule d1)
      have X: "IBLOCK (word_of_nat n) t \<notin> X" using lg.mod_held[OF tr(1)] 1 by blast
      have h2: "log_ready X t2" "held t2 (IBLOCK (word_of_nat n) t) = Some bp" using O 1 by (simp_all add: only_read_def)
      note 4 = lg.rel_law[OF h2 X]
      have "(held t)(IBLOCK (word_of_nat n) t := None) = held t" using 1 by (simp add: fun_upd_idem)
      then have "only_read X s (logged_relse bp t2)" using 4 O 1 t(1) by (simp add: only_read_def)
      moreover have "u' = ?W (Suc n)" using O True W[OF n(1)] t(3) unfolding v1 use(2) by (simp add: disk_blocks_def)
      ultimately show ?thesis using r' t(2) True up by simp
    qed
  qed
  have "ifok (count_inodes ([], {}, s)) (\<lambda>(_, w). ?I (max 1 ?N) w)"
  proof (cases "1 \<le> ?N")
    case True
    have "ifok (foreach [1..<?N] ?body ([], {}, s)) (\<lambda>(_, w). ?I ?N w)"
    proof (rule foreach_upt_ifok[OF True])
      show "?I 1 ([], {}, s)" using ready by (auto simp: only_read_def)
    qed (rule step)
    then show ?thesis using True by (simp add: count_inodes_def max_def)
  next
    case False
    then show ?thesis using ready by (auto simp: count_inodes_def only_read_def)
  qed
  then show ?thesis using run by (cases "1 \<le> ?N") (auto simp: max_def)
qed

lemma count_leakblock_ok:
  assumes "unat (sb_size (fs_sb s)) \<le> unat (bm_n s) * BPB" and run: "count_leakblock used s = Inr leak"
  shows "leak = map word_of_nat (filter (\<lambda>i. bm_bit s i \<and> word_of_nat i \<notin> used) [unat (sb_size (fs_sb s) - sb_nblocks (fs_sb s))..<unat (sb_size (fs_sb s))])"
proof -
  let ?a = "unat (sb_size (fs_sb s) - sb_nblocks (fs_sb s))" and ?n = "unat (sb_size (fs_sb s))"
  let ?F = "\<lambda>n. map word_of_nat (filter (\<lambda>i. bm_bit s i \<and> word_of_nat i \<notin> used) [?a..<n]) :: uint list"
  let ?body = "\<lambda>i leak. chain (bmap_block_statue_get (word_of_nat i) s) (\<lambda>b.
       Inr ((), if b \<and> word_of_nat i \<notin> used then leak @ [word_of_nat i] else leak))"
  have "ifok (foreach [?a..<?n] ?body []) (\<lambda>(_, leak). leak = ?F ?n)"
  proof (cases "?a \<le> ?n")
    case True
    show ?thesis
    proof (rule foreach_upt_ifok[OF True])
      fix k l assume k: "?a \<le> k" "k < ?n" and l: "l = ?F k"
      have u: "unat (word_of_nat k :: uint) = k" using k(2) unsigned_less[of "sb_size (fs_sb s)", where ?'a = nat]
        by (simp add: unsigned_of_nat take_bit_nat_eq_self)
      have "bmap_block_statue_get (word_of_nat k) s = Inr (bm_bit s k)" using bmap_get_eq[of "word_of_nat k" s] u k(2) assms(1) by simp
      then show "ifok (?body k l) (\<lambda>(_, leak). leak = ?F (Suc k))" using k l by simp
    qed simp
  qed simp
  then show ?thesis using run by (auto simp: count_leakblock_def Let_def chain_eq_Inr ifok_def)
qed

lemma count_leakblock_returns:
  assumes "unat (sb_size (fs_sb s)) \<le> unat (bm_n s) * BPB"
  obtains leak where "count_leakblock used s = Inr leak"
proof -
  let ?a = "unat (sb_size (fs_sb s) - sb_nblocks (fs_sb s))" and ?n = "unat (sb_size (fs_sb s))"
  let ?body = "\<lambda>i leak. chain (bmap_block_statue_get (word_of_nat i) s) (\<lambda>b.
       Inr ((), if b \<and> word_of_nat i \<notin> used then leak @ [word_of_nat i :: uint] else leak))"
  have "returns (foreach [?a..<?n] ?body []) (\<lambda>_. True)"
  proof (cases "?a \<le> ?n")
    case True
    have "returns (foreach [?a..<?n] ?body []) (\<lambda>(_, l). True)"
    proof (rule foreach_upt_returns[OF True, of "\<lambda>_ _. True"])
      fix k l assume k: "k < ?n"
      have u: "unat (word_of_nat k :: uint) = k" using k unsigned_less[of "sb_size (fs_sb s)", where ?'a = nat]
        by (simp add: unsigned_of_nat take_bit_nat_eq_self)
      have "bmap_block_statue_get (word_of_nat k) s = Inr (bm_bit s k)" using bmap_get_eq[of "word_of_nat k" s] u k assms(1) by simp
      then show "returns (?body k l) (\<lambda>(_, l). True)" by simp
    qed simp
    then show ?thesis by (auto elim: returns_mono)
  qed simp
  then obtain l where "foreach [?a..<?n] ?body [] = Inr ((), l)" by (auto elim!: returnsE)
  then have "count_leakblock used s = Inr l" by (simp add: count_leakblock_def Let_def)
  then show ?thesis by (rule that)
qed

text \<open>
  What the two walks report: exactly the inodes in use, and exactly the marked data blocks that belong
  to the tree of no inode in use.
\<close>

lemma leaks_exact:
  fixes s :: "'a itable_scheme"
  assumes "log_ready X s" "unat (sb_size (fs_sb s)) \<le> unat (bm_n s) * BPB"
    and "\<forall>i. 1 \<le> i \<and> i < unat (sb_ninodes (fs_sb s)) \<longrightarrow> data_block s (IBLOCK (word_of_nat i) s) \<and> (in_use s i \<longrightarrow> (\<forall>b\<in>disk_blocks s i. data_block s b))"
    and run: "count_inodes ([], {}, s) = Inr ((), files, used, s')" "count_leakblock used s' = Inr leak"
  shows "files = map word_of_nat (filter (in_use s) [1..<unat (sb_ninodes (fs_sb s))]) \<and>
    set leak = {b. unat (sb_size (fs_sb s) - sb_nblocks (fs_sb s)) \<le> unat b \<and> unat b < unat (sb_size (fs_sb s)) \<and> bm_bit s (unat b) \<and>
      (\<forall>i. 1 \<le> i \<and> i < unat (sb_ninodes (fs_sb s)) \<and> in_use s i \<longrightarrow> b \<notin> disk_blocks s i)}"
proof -
  have C: "only_read X s s' \<and> files = map word_of_nat (filter (in_use s) [1..<unat (sb_ninodes (fs_sb s))]) \<and>
    used = (\<Union>i\<in>{i. 1 \<le> i \<and> i < unat (sb_ninodes (fs_sb s)) \<and> in_use s i}. disk_blocks s i)"
    by (rule count_inodes_ok[OF assms(1) _ run(1)]) (use assms(3) in blast)
  note o = only_read_inode[OF conjunct1[OF C]]
  let ?a = "unat (sb_size (fs_sb s) - sb_nblocks (fs_sb s))" and ?n = "unat (sb_size (fs_sb s))"
  have sz: "unat (sb_size (fs_sb s')) \<le> unat (bm_n s') * BPB" using assms(2) by (simp add: o)
  have "leak = map word_of_nat (filter (\<lambda>i. bm_bit s i \<and> word_of_nat i \<notin> used) [?a..<?n])"
    using count_leakblock_ok[OF sz run(2)] by (simp add: o)
  moreover have "unat (word_of_nat k :: uint) = k" if "k < ?n" for k
    using that unsigned_less[of "sb_size (fs_sb s)", where ?'a = nat] by (simp add: unsigned_of_nat take_bit_nat_eq_self)
  moreover have "b \<in> word_of_nat ` {k. ?a \<le> k \<and> k < ?n \<and> bm_bit s k \<and> word_of_nat k \<notin> used}"
    if "?a \<le> unat b" "unat b < ?n" "bm_bit s (unat b)" "b \<notin> used" for b :: uint
    by (rule image_eqI[of _ _ "unat b"]) (use that in simp_all)
  ultimately have "set leak = {b. ?a \<le> unat b \<and> unat b < ?n \<and> bm_bit s (unat b) \<and> b \<notin> used}"
    by auto
  then show ?thesis using C by blast
qed

text \<open>For an inode in memory that is on the device, these are the blocks of the file.\<close>

lemma under_tree_blocks:
  assumes "tree_path p" "depth (fst p) = length (snd p) + d"
  shows "under v r p = tree_blocks v d (node v r p)"
  using assms
proof (induction d arbitrary: p)
  case 0
  then show ?case using under_full[of p] under_zero[of v r p] by (auto simp: full_path_def)
next
  case (Suc d)
  have "under v r (child p i) = tree_blocks v d (node v r (child p i))" if "i < NINDIRECT1" for i
  proof (rule Suc.IH)
    show "tree_path (child p i)" using Suc.prems that by (simp add: tree_path_child full_path_def)
    show "depth (fst (child p i)) = length (snd (child p i)) + d" using Suc.prems by (simp add: child_def)
  qed
  then show ?case using under_index[OF Suc.prems(1)] under_zero[of v r p] by (auto simp: node_child follow_def)
qed

lemma disk_blocks_file:
  assumes "di_addrs (it_inode s ip) = di_addrs (disk_inode s (word_of_nat i))"
  shows "disk_blocks s i = file_blocks s ip"
proof -
  have "under (view s) (di_addrs (it_inode s ip)) (k, []) = tree_blocks (view s) (depth k) (di_addrs (it_inode s ip) k)" if "k < NBLOCKADDR" for k
    using under_tree_blocks[of "(k, [])" "depth k"] that by (simp add: tree_path_def)
  then show ?thesis by (simp add: disk_blocks_def file_blocks_def assms)
qed

lemma print_direct: "print_map 0 addrs n (used, s) = Inr ((), used \<union> {addrs i | i. i < n \<and> addrs i \<noteq> 0}, s)"
proof -
  let ?I = "\<lambda>k w. w = (used \<union> {addrs i | i. i < k \<and> addrs i \<noteq> 0}, s)"
  have "returns (print_map 0 addrs n (used, s)) (\<lambda>(_, w). ?I n w)"
    unfolding print_map.simps by (rule foreach_upt_returns) (auto simp: less_Suc_eq)
  then show ?thesis by (auto elim!: returnsE)
qed

end
