(* ===== verification/Programs.thy ===== *)
theory Programs
  imports Diagnostic
begin

text \<open>
  The programs around the file system: the messages of \<^verbatim>\<open>src/util.c\<close>, and the three \<open>main\<close> functions, of
  \<^verbatim>\<open>src/main.c\<close>, \<^verbatim>\<open>mkfs/mkfs.myfuse.cc\<close> and \<^verbatim>\<open>diagnostic/disk-diagnostic.cc\<close>. What the FUSE library does
  with the arguments, the word the user types and what \<^verbatim>\<open>blockdev\<close> and opening the device answer are
  parameters. \<open>vfprintf\<close> prints the line a message is put together to; its arguments are left out.
\<close>

section \<open>Messages\<close>

datatype printed = Stdout string | Stderr string

definition LF :: char where "LF = CHR 0x0A"
definition ESC :: char where "ESC = CHR 0x1B"

text \<open>
  \<open>strncat\<close> appends at most \<open>n\<close> characters and a zero after them, whatever the room in the array of
  \<open>cap\<close> bytes that holds \<open>dst\<close>.
\<close>

definition strncat :: "nat \<Rightarrow> string \<Rightarrow> string \<Rightarrow> nat \<Rightarrow> string res" where
  "strncat cap dst src n = (let r = dst @ take n src in if length r < cap then Inr r else Inl Bad_access)"

definition message_line :: "string \<Rightarrow> string \<Rightarrow> string res" where
  "message_line pre msg = chain (strncat 128 pre msg 127) (\<lambda>buf. strncat 128 buf [LF] 127)"

definition err_prefix :: string where
  "err_prefix = ESC # ''[1;91m[-]'' @ ESC # ''[0m '' @ ESC # ''[91mmyfuse fatal error:'' @ ESC # ''[0m ''"

definition debug_prefix :: string where
  "debug_prefix = ESC # ''[1;92m[+]'' @ ESC # ''[0m '' @ ESC # ''[92mmyfuse debug log:'' @ ESC # ''[0m ''"

definition log_prefix :: string where
  "log_prefix = ESC # ''[1;92m[+]'' @ ESC # ''[0m '' @ ESC # ''[92mmyfuse log:'' @ ESC # ''[0m ''"

definition nonfatal_prefix :: string where
  "nonfatal_prefix = ESC # ''[1;93m[!]'' @ ESC # ''[0m '' @ ESC # ''[93mmyfuse nonfatal error:'' @ ESC # ''[0m ''"

text \<open>The exit code and the output; \<open>frames\<close> is what \<open>backtrace_symbols_fd\<close> prints.\<close>

definition err_exit :: "string list \<Rightarrow> string \<Rightarrow> printed list \<Rightarrow> (int \<times> printed list) res" where
  "err_exit frames msg out =
    chain (message_line err_prefix msg) (\<lambda>buf.
    Inr (1, out @ [Stderr buf, Stderr (''back trace:'' @ [LF])] @ map Stderr frames))"

definition myfuse_debug_log :: "bool \<Rightarrow> string \<Rightarrow> printed list \<Rightarrow> printed list res" where
  "myfuse_debug_log verbose msg out =
    (if verbose then chain (message_line debug_prefix msg) (\<lambda>buf. Inr (out @ [Stdout buf])) else Inr out)"

definition myfuse_log :: "string \<Rightarrow> printed list \<Rightarrow> printed list res" where
  "myfuse_log msg out = chain (message_line log_prefix msg) (\<lambda>buf. Inr (out @ [Stdout buf]))"

definition myfuse_nonfatal :: "string \<Rightarrow> printed list \<Rightarrow> printed list res" where
  "myfuse_nonfatal msg out = chain (message_line nonfatal_prefix msg) (\<lambda>buf. Inr (out @ [Stderr buf]))"

section \<open>The file system\<close>

record options =
  device_path :: "string option"
  opt_help :: bool

definition show_help :: "string \<Rightarrow> printed list \<Rightarrow> printed list" where
  "show_help progname out = out @
    [Stdout (''usage: '' @ progname @ '' [options] <mountpoint>'' @ [LF, LF]),
     Stdout (''File-system specific options:'' @ [LF] @
       ''    --device_path=<s>          Path to the disk device'' @ [LF] @
       ''                               example: /dev/sdb'' @ [LF, LF])]"

text \<open>
  \<open>parse\<close>, \<open>add_arg\<close> and \<open>run\<close> are \<open>fuse_opt_parse\<close>, \<open>fuse_opt_add_arg\<close> and \<open>fuse_main\<close> of the FUSE
  library; the last one calls \<open>myfuse_init\<close> and the handlers.
\<close>

definition myfuse_main ::
  "(string list \<Rightarrow> (options \<times> string list) option) \<Rightarrow> (string list \<Rightarrow> string \<Rightarrow> string list option) \<Rightarrow>
    (options \<Rightarrow> string list \<Rightarrow> printed list \<Rightarrow> int \<times> printed list) \<Rightarrow> string list \<Rightarrow> printed list \<Rightarrow> (int \<times> printed list) res" where
  "myfuse_main parse add_arg run argv out =
    (case parse argv of
      None \<Rightarrow> Inr (1, out)
    | Some (opts, args) \<Rightarrow>
        if opt_help opts then
          case argv of [] \<Rightarrow> Inl Bad_access
          | progname # _ \<Rightarrow>
              (case add_arg args ''--help'' of
                None \<Rightarrow> Inl Assert_failed
              | Some [] \<Rightarrow> Inl Bad_access
              | Some (_ # args) \<Rightarrow> Inr (run opts ([] # args) (show_help progname out)))
        else Inr (run opts args out))"

section \<open>Formatting\<close>

text \<open>\<open>std::tolower\<close> in the C locale.\<close>

definition tolower :: "char \<Rightarrow> char" where
  "tolower c = (let n = of_char c :: nat in if 65 \<le> n \<and> n \<le> 90 then char_of (n + 32) else c)"

definition mkfs_usage :: string where
  "mkfs_usage = ''Usage: %s /dev/<disk name>'' @ [LF, CHR 0x09] @ ''Note: the disk will be treated as sector size of 512'' @ [LF]"

definition mkfs_question :: string where
  "mkfs_question = ''This program will format the disk %s'' @ [LF] @ ''Continue? yes/no >>''"

text \<open>
  The messages logged, and how the program ends. \<open>answer\<close> is the word read from the user, \<open>sectors\<close> what
  the variable \<open>sector_size\<close> holds after \<open>fscanf\<close>, whose result is not looked at.
\<close>

definition mkfs_main :: "string list \<Rightarrow> string \<Rightarrow> uint \<Rightarrow> int \<Rightarrow> 'a itable_scheme \<Rightarrow> string list \<times> (int \<times> 'a itable_scheme) res" where
  "mkfs_main argv answer sectors fd s =
    (if length argv \<noteq> 2 then ([], Inl (Err_exit mkfs_usage))
     else
       let user_decide = map tolower answer
       in if take 3 user_decide \<noteq> ''yes'' then ([mkfs_question], Inl (Err_exit ''canceled''))
       else ([mkfs_question, ''sector size: %d''], mkfs sectors fd s))"

section \<open>Diagnosis\<close>

text \<open>The names and numbers in the order they are printed.\<close>

definition print_superblock :: "superblock \<Rightarrow> (string \<times> nat) list" where
  "print_superblock sb =
    [(''size_in_blocks'', unat (sb_size sb)), (''block_size'', BSIZE), (''ndata_blocks'', unat (sb_nblocks sb)),
     (''nlog_blocks'', unat (sb_nlog sb)), (''ninode_blocks'', unat (sb_ninodes sb)), (''logstart'', unat (sb_logstart sb)),
     (''inodestart'', unat (sb_inodestart sb)), (''bmapstart'', unat (sb_bmapstart sb))]"

definition diagnostic_main :: "string list \<Rightarrow> int \<Rightarrow> 'a ftab_scheme \<Rightarrow> (((string \<times> nat) list \<times> uint list \<times> uint list) \<times> 'a ftab_scheme) res" where
  "diagnostic_main argv fd s =
    (if length argv \<noteq> 2 then Inl (Err_exit ''Usage: %s <path to your disk>'')
     else
       chain (diagnose fd s) (\<lambda>((files, leak), s).
       Inr ((print_superblock (fs_sb s), files, leak), s)))"

section \<open>What the programs print\<close>

text \<open>A message is printed whole exactly when it leaves two bytes of the buffer after the prefix, for the line feed and the zero.\<close>

lemma message_line:
  "message_line pre msg = (if length pre + length msg \<le> 126 then Inr (pre @ msg @ [LF]) else Inl Bad_access)"
  by (auto simp: message_line_def strncat_def Let_def)

lemma prefix_lengths: "length err_prefix = 44" "length debug_prefix = 42" "length log_prefix = 36" "length nonfatal_prefix = 47"
  by (simp_all add: err_prefix_def debug_prefix_def log_prefix_def nonfatal_prefix_def)

text \<open>The longest message of \<open>err_exit\<close> leaves one byte of the array free.\<close>

lemma usage_fits: "length mkfs_usage = 81" "err_exit [] mkfs_usage [] = Inr (1, [Stderr (err_prefix @ mkfs_usage @ [LF]), Stderr (''back trace:'' @ [LF])])"
proof -
  show l: "length mkfs_usage = 81" by (simp add: mkfs_usage_def)
  show "err_exit [] mkfs_usage [] = Inr (1, [Stderr (err_prefix @ mkfs_usage @ [LF]), Stderr (''back trace:'' @ [LF])])"
    by (simp add: err_exit_def message_line l prefix_lengths)
qed

lemma err_exit_outcome:
  "err_exit frames msg out =
    (if length msg \<le> 82 then Inr (1, out @ [Stderr (err_prefix @ msg @ [LF]), Stderr (''back trace:'' @ [LF])] @ map Stderr frames) else Inl Bad_access)"
  by (simp add: err_exit_def message_line prefix_lengths)

lemma mkfs_main_yes:
  assumes "length argv = 2" "take 3 (map tolower answer) = ''yes''"
  shows "mkfs_main argv answer sectors fd s = ([mkfs_question, ''sector size: %d''], mkfs sectors fd s)"
  using assms by (simp add: mkfs_main_def Let_def)

text \<open>The number of inode blocks of a new file system is not what the diagnosis prints under this name.\<close>

lemma inode_blocks_printed:
  assumes "unat n < 2 ^ 31"
  shows "(''ninode_blocks'', IPB * (unat n div 50 + 1)) \<in> set (print_superblock (init_super_block n))"
proof -
  have "unat ((n div 50 + 1) * (word_of_nat IPB :: uint)) = IPB * (unat n div 50 + 1)"
  proof -
    have "unat n div 50 < 2 ^ 26" using assms by simp
    then show ?thesis by (simp add: unat_word_ariths unat_div_distrib IPB_def)
  qed
  then show ?thesis by (simp add: print_superblock_def init_super_block_def Let_def)
qed

end
