(* ===== verification/Format.thy ===== *)
theory Format
  imports Handlers Disk_Tools Programs
begin

text \<open>
  From a device to a file system in order: what \<open>mkfs\<close> leaves on the device, and what mounting makes of
  it. Both start from a process that has just begun, with its memory as the C runtime leaves it.
\<close>

section \<open>Between two operations\<close>

text \<open>No operation runs, nothing is in the log, no block is locked.\<close>

definition at_rest :: "'a fslog_scheme \<Rightarrow> bool" where
  "at_rest s \<longleftrightarrow> log_ready {} s \<and> held s = Map.empty \<and> lh_n s = 0 \<and> lg_outstanding s = 0 \<and> \<not> lg_committing s"

lemma at_restD:
  assumes "at_rest s"
  shows "log_ready {} s" "held s = Map.empty" "lh_n s = 0" "lg_outstanding s = 0" "\<not> lg_committing s"
  using assms by (simp_all add: at_rest_def)

text \<open>The start and the end of the only operation.\<close>

lemma rest_begin:
  assumes "at_rest s"
  shows "begin_op s = Inr ((), s\<lparr>lg_outstanding := 1, n_log_wrote := 0\<rparr>)"
  using at_restD[OF assms] by (simp add: begin_op_def NLOG_def MAXOPBLOCKS_def)

lemma rest_end:
  fixes s :: "'a fslog_scheme"
  assumes "log_ready {} s" "held s = Map.empty" "lg_outstanding s = 1" "\<not> lg_committing s"
  obtains s' where "end_op s = Inr ((), s')" "at_rest s'" "dev_nblk s' = dev_nblk s" "lg_start s' = lg_start s" "lg_size s' = lg_size s"
    "fslog.more s' = fslog.more s" "data_block s' = data_block s" "\<And>b. data_block s b \<Longrightarrow> view s' b = view s b"
proof -
  obtain s' where 1: "end_op s = Inr ((), s')" "log_ready {} s'" "held s' = Map.empty" "lh_n s' = 0" "lg_outstanding s' = 0"
    "\<not> lg_committing s'" "fslog.more s' = fslog.more s" "dev_nblk s' = dev_nblk s" "lg_start s' = lg_start s" "lg_size s' = lg_size s"
    "\<forall>b. data_block s b \<longrightarrow> view s' b = view s b \<and> dev_data s' b = view s b"
    using end_op_last[OF assms] by (auto elim!: returnsE)
  then show ?thesis by (intro that[of s']) (simp_all add: data_block_def fun_eq_iff at_rest_def)
qed

text \<open>At rest the device has what a reader sees.\<close>

lemma rest_device:
  assumes "at_rest s" "b \<noteq> 0"
  shows "dev_data s b = view s b"
proof -
  have c: "cache_ok {} {} s" using log_readyD(1)[OF at_restD(1)[OF assms(1)]] at_restD(3)[OF assms(1)] by (simp add: logged_def)
  show ?thesis
  proof (cases "cached s b")
    case (Some i)
    then have "linked s i" "bb_blockno (bc_buf s i) = b" using cached_SomeD by blast+
    then show ?thesis using c Some assms(2) by (auto simp: view_def cache_ok_def)
  qed (use assms(2) in \<open>simp add: view_def\<close>)
qed

section \<open>The log of a process that starts\<close>

text \<open>The geometry of the log that the super block gives, on a device of \<open>n\<close> blocks.\<close>

definition sb_log_ok :: "superblock \<Rightarrow> nat \<Rightarrow> bool" where
  "sb_log_ok sb n \<longleftrightarrow> sb_logstart sb \<noteq> 0 \<and> 1 \<le> unat (sb_nlog sb) \<and> unat (sb_nlog sb) \<le> NLOG \<and>
    unat (sb_logstart sb) + unat (sb_nlog sb) \<le> n \<and> n < 2 ^ 32"

definition fresh_log :: "'a fslog_scheme \<Rightarrow> bool" where
  "fresh_log s \<longleftrightarrow> fresh_cache s \<and> lg_outstanding s = 0 \<and> \<not> lg_committing s"

lemma log_boot:
  fixes s :: "'a fslog_scheme"
  assumes fresh: "fresh_log s" and geo: "sb_log_ok sb (dev_nblk s)" and hd: "header_n (dev_data s (sb_logstart sb)) = 0"
  obtains s' where "log_init sb (bcache_init s) = Inr ((), s')" "at_rest s'" "dev_nblk s' = dev_nblk s" "lg_start s' = sb_logstart sb"
    "lg_size s' = uint (sb_nlog sb)" "fslog.more s' = fslog.more s"
    "\<And>b. b \<noteq> 0 \<Longrightarrow> b \<noteq> sb_logstart sb \<Longrightarrow> view s' b = dev_data s b"
proof -
  define g where "g = s\<lparr>lg_start := sb_logstart sb, lg_size := uint (sb_nlog sb)\<rparr>"
  let ?f = "dev_data s"
  have n: "1 \<le> uint (sb_nlog sb)" "uint (sb_nlog sb) \<le> int NLOG" "nat (uint (sb_nlog sb)) = unat (sb_nlog sb)"
    using geo unfolding sb_log_ok_def uint_nat[of "sb_nlog sb"] by linarith+
  have gs: "lg_start g = sb_logstart sb" "lg_size g = uint (sb_nlog sb)" "dev_nblk g = dev_nblk s" by (simp_all add: g_def)
  have geom: "geom g" using geo by (simp add: geom_def gs sb_log_ok_def n)
  have b: "booted g ?f sb s" using fresh by (simp add: booted_def gs fresh_log_def)
  have ok: "header_ok g (?f (lg_start g))" using hd geo n by (simp add: header_ok_def gs)
  have rw: "recover_writes g ?f = [(sb_logstart sb, header_image 0 (\<lambda>_. 0) (?f (sb_logstart sb)))]"
    using hd by (simp add: recover_writes_def redo_def gs)
  obtain r where 1: "log_init sb (bcache_init s) = Inr ((), r)" "idle {} r" "lh_n r = 0" "dev_nblk r = dev_nblk g"
    "log_rest r = (lg_start g, lg_size g, lg_outstanding s, lg_committing s, n_log_wrote s, fslog.more s)"
    "dev_data r = apply_writes ?f (recover_writes g ?f)" "\<forall>b. b \<noteq> 0 \<longrightarrow> view r b = dev_data r b"
    using log_init_spec[OF b geom ok] by (auto elim!: returnsE)
  obtain r' where r': "log_init sb (bcache_init s) = Inr ((), r')" "log_ready {} r'" "held r' = Map.empty"
    using recovered_log_init[OF b geom ok] by (auto elim!: returnsE)
  have rr: "r' = r" using 1(1) r'(1) by simp
  have "at_rest r" using r' 1 fresh by (simp add: rr at_rest_def log_rest_def fresh_log_def)
  then show ?thesis
    by (rule that[OF 1(1)]) (use 1 gs in \<open>simp_all add: log_rest_def rw\<close>)
qed

section \<open>The bitmap of a new device\<close>

lemma mark_block_ok:
  fixes s :: "'a bmap_scheme"
  assumes r: "at_rest s" and sync: "bm_sync s" and b: "unat b < unat (bm_n s) * BPB" and lg: "2 \<le> lg_size s"
  obtains s' where "mark_block b s = Inr ((), s')" "at_rest s'" "bm_sync s'" "bm_frame s' = bm_frame s"
    "bm_bit s' = (bm_bit s)(unat b := True)" "bm_ffc s' = bm_ffc s" "\<And>e. usable s e \<Longrightarrow> view s' e = view s e"
proof -
  note d = at_restD[OF r]
  let ?t = "s\<lparr>lg_outstanding := 1, n_log_wrote := 0\<rparr>"
  have db: "data_block ?t = data_block s" by (simp add: fun_eq_iff data_block_def)
  have t: "log_ready {} ?t" "few_held ?t" "held_used ?t" "bm_sync ?t" "lh_n ?t < lg_size ?t - 1" "1 \<le> lg_outstanding ?t"
    "unat b < unat (bm_n ?t) * BPB"
    using d sync b lg by (simp_all add: few_held_def held_used_def bm_sync_def db bm_block_def)
  obtain s1 where s1: "bmap_block_statue_set b True ?t = Inr ((), s1)" by (rule bmap_set_returns[OF t])
  note m = bmap_set_ok[OF t(1,4) s1]
  note fr = bm_frameD[OF m(4)]
  have f: "dev_nblk s1 = dev_nblk s" "lg_start s1 = lg_start s" "lg_size s1 = lg_size s" "lg_outstanding s1 = 1" "\<not> lg_committing s1"
    using m(4) d(5) by (simp_all add: bm_frame_def)
  have h: "held s1 = Map.empty" using m(3) d(2) by simp
  obtain s' where e: "end_op s1 = Inr ((), s')" "at_rest s'" "dev_nblk s' = dev_nblk s1" "lg_start s' = lg_start s1" "lg_size s' = lg_size s1"
    "fslog.more s' = fslog.more s1" "data_block s' = data_block s1" "\<And>b. data_block s1 b \<Longrightarrow> view s' b = view s1 b"
    by (rule rest_end[OF m(1) h f(4,5)]) (rule that)
  note fe = bm_fields_more[OF e(6)]
  have d1: "data_block s1 = data_block s" using f by (simp add: fun_eq_iff data_block_def)
  show ?thesis
  proof (rule that)
    show "mark_block b s = Inr ((), s')" by (simp add: mark_block_def rest_begin[OF r] s1 e(1))
    show "at_rest s'" by (rule e(2))
    show "bm_sync s'" using m(2) by (simp add: bm_sync_def fe e(7,8) bm_block_def)
    show "bm_frame s' = bm_frame s" using fr f e fe d at_restD(4,5)[OF e(2)] by (simp add: bm_frame_def)
    show "bm_bit s' = (bm_bit s)(unat b := True)" using m(6) bm_bit_cong[OF fe(2)] by (simp add: fun_eq_iff bm_bit_def)
    show "bm_ffc s' = bm_ffc s" using m(10) fe by simp
    fix c assume c: "usable s c"
    have "unat b div BPB < unat (bm_n s)" using b by (simp add: less_mult_imp_div_less)
    then have "c \<noteq> bm_block ?t (unat b div BPB)" using c by (simp add: usable_def bm_block_def)
    then have "view s1 c = view s c" using m(7)[of c] d by simp
    then show "view s' c = view s c" using e(8)[of c] c d1 by (simp add: usable_def)
  qed
qed

lemma mark_range:
  fixes s :: "'a bmap_scheme"
  assumes r: "at_rest s" and sync: "bm_sync s" and ab: "a \<le> b" "b \<le> unat (bm_n s) * BPB" and lg: "2 \<le> lg_size s"
  obtains s' where "foreach [a..<b] (\<lambda>i. mark_block (word_of_nat i)) s = Inr ((), s')" "at_rest s'" "bm_sync s'" "bm_frame s' = bm_frame s"
    "\<And>j. bm_bit s' j \<longleftrightarrow> bm_bit s j \<or> a \<le> j \<and> j < b" "bm_ffc s' = bm_ffc s" "\<And>e. usable s e \<Longrightarrow> view s' e = view s e"
proof -
  let ?I = "\<lambda>k t. at_rest t \<and> bm_sync t \<and> bm_frame t = bm_frame s \<and> (\<forall>j. bm_bit t j \<longleftrightarrow> bm_bit s j \<or> a \<le> j \<and> j < k) \<and>
    bm_ffc t = bm_ffc s \<and> (\<forall>e. usable s e \<longrightarrow> view t e = view s e)"
  have "unat (bm_n s) * BPB \<le> 131072 * BPB" using sync unfolding bm_sync_def by (intro mult_le_mono1) simp
  then have lt: "b \<le> 2 ^ 32" using ab(2) by (simp add: BPB_def BSIZE_def)
  have "returns (foreach [a..<b] (\<lambda>i. mark_block (word_of_nat i)) s) (\<lambda>(u, t). ?I b t)"
  proof (rule foreach_upt_returns[OF ab(1)])
    fix k and t :: "'a bmap_scheme"
    assume k: "a \<le> k" "k < b" and t: "?I k t"
    have u: "unat (word_of_nat k :: uint) = k" using k lt by (simp add: unsigned_of_nat take_bit_nat_eq_self)
    have fr: "bm_frame t = bm_frame s" using t by blast
    note f = bm_frameD[OF fr]
    have lg': "2 \<le> lg_size t" using fr lg by (simp add: bm_frame_def)
    have kb: "unat (word_of_nat k :: uint) < unat (bm_n t) * BPB" using k ab(2) by (simp add: u f)
    have at: "at_rest t" "bm_sync t" using t by blast+
    obtain t' where t': "mark_block (word_of_nat k) t = Inr ((), t')" "at_rest t'" "bm_sync t'" "bm_frame t' = bm_frame t"
      "bm_bit t' = (bm_bit t)(unat (word_of_nat k :: uint) := True)" "bm_ffc t' = bm_ffc t" "\<And>e. usable t e \<Longrightarrow> view t' e = view t e"
      by (rule mark_block_ok[OF at kb lg']) (rule that)
    have "?I (Suc k) t'" using t t' k usable_frame[OF fr] by (auto simp: u less_Suc_eq)
    then show "returns (mark_block (word_of_nat k) t) (\<lambda>(u, t). ?I (Suc k) t)" using t'(1) by simp
  qed (use r sync in auto)
  then obtain t where "foreach [a..<b] (\<lambda>i. mark_block (word_of_nat i)) s = Inr ((), t)" "?I b t" by (auto elim!: returnsE)
  then show ?thesis by (intro that[of t]) auto
qed

text \<open>An operation that writes one block.\<close>

lemma write_one:
  fixes s :: "'a fslog_scheme"
  assumes r: "at_rest s" and b: "data_block s b" and lg: "2 \<le> lg_size s"
  obtains s' where "chain (begin_op s) (\<lambda>(_, s). chain (logged_read b s) (\<lambda>(h, s).
      chain (logged_write h (set_data h (D (buf_data s h)) s)) (\<lambda>(_, s). end_op (logged_relse h s)))) = Inr ((), s')"
    "at_rest s'" "log_frame s' = log_frame s" "\<And>e. data_block s e \<Longrightarrow> view s' e = (if e = b then D (view s b) else view s e)"
proof -
  note d = at_restD[OF r]
  let ?t = "s\<lparr>lg_outstanding := 1, n_log_wrote := 0\<rparr>"
  have db: "data_block ?t = data_block s" by (simp add: fun_eq_iff data_block_def)
  have t: "log_ready {} ?t" "few_held ?t" "held ?t b = None" "data_block ?t b" "lh_n ?t < lg_size ?t - 1" "1 \<le> lg_outstanding ?t"
    using d b lg by (simp_all add: few_held_def db)
  obtain h s1 s2 where m: "logged_read b ?t = Inr (h, s1)" "logged_write h (set_data h (D (buf_data s1 h)) s1) = Inr ((), s2)"
    "buf_data s1 h = view ?t b" by (rule modify_returns[OF t])
  let ?u = "logged_relse h s2"
  note z = lg.modify_block[OF t(1,4) m(1,2)]
  have f: "dev_nblk ?u = dev_nblk s" "lg_start ?u = lg_start s" "lg_size ?u = lg_size s" "lg_outstanding ?u = 1" "\<not> lg_committing ?u"
    "fslog.more ?u = fslog.more s" using z(4) d(5) by (simp_all add: log_frame_def)
  have h: "log_ready {} ?u" "held ?u = Map.empty" using z d(2) by simp_all
  obtain s' where e: "end_op ?u = Inr ((), s')" "at_rest s'" "dev_nblk s' = dev_nblk ?u" "lg_start s' = lg_start ?u" "lg_size s' = lg_size ?u"
    "fslog.more s' = fslog.more ?u" "data_block s' = data_block ?u" "\<And>b. data_block ?u b \<Longrightarrow> view s' b = view ?u b"
    by (rule rest_end[OF h f(4,5)]) (rule that)
  have d1: "data_block ?u = data_block s" using f by (simp add: fun_eq_iff data_block_def)
  show ?thesis
  proof (rule that)
    show "chain (begin_op s) (\<lambda>(_, s). chain (logged_read b s) (\<lambda>(h, s).
      chain (logged_write h (set_data h (D (buf_data s h)) s)) (\<lambda>(_, s). end_op (logged_relse h s)))) = Inr ((), s')"
      by (simp add: rest_begin[OF r] m(1,2) e(1))
    show "log_frame s' = log_frame s" using f e d at_restD(4,5)[OF e(2)] by (simp add: log_frame_def)
    show "view s' c = (if c = b then D (view s b) else view s c)" if "data_block s c" for c
      using e(8)[of c] that z(2) m(3) d1 by simp
  qed (rule e(2))
qed

text \<open>Zeroing the bitmap blocks, one operation each.\<close>

lemma zero_one:
  fixes s :: "'a bmap_scheme"
  assumes "at_rest s" "data_block s b" "2 \<le> lg_size s"
  obtains s' where "chain (begin_op s) (\<lambda>(_, s). chain (logged_zero_a_block b s) (\<lambda>(_, s). end_op s)) = Inr ((), s')"
    "at_rest s'" "log_frame s' = log_frame s" "\<And>e. data_block s e \<Longrightarrow> view s' e = (if e = b then zero_block else view s e)"
proof -
  have eq: "chain (logged_zero_a_block b s) (\<lambda>(_, s). end_op s) = chain (logged_read b s) (\<lambda>(h, s).
      chain (logged_write h (set_data h zero_block s)) (\<lambda>(_, s). end_op (logged_relse h s)))" for s :: "'a bmap_scheme"
    by (simp add: logged_zero_a_block_def chain_assoc split_def)
  show ?thesis by (rule write_one[OF assms, of "\<lambda>_. zero_block"]) (rule that[unfolded eq])
qed

lemma zero_bitmap_ok:
  fixes s :: "'a bmap_scheme"
  assumes r: "at_rest s" and b: "\<forall>i<(unat (sb_size sb) + BPB - 1) div BPB. data_block s (bm_at sb i)" and lg: "2 \<le> lg_size s"
  obtains s' where "zero_bitmap sb s = Inr ((), s')" "at_rest s'" "log_frame s' = log_frame s"
    "\<And>i. i < (unat (sb_size sb) + BPB - 1) div BPB \<Longrightarrow> view s' (bm_at sb i) = zero_block"
    "\<And>e. data_block s e \<Longrightarrow> \<forall>i<(unat (sb_size sb) + BPB - 1) div BPB. e \<noteq> bm_at sb i \<Longrightarrow> view s' e = view s e"
proof -
  let ?n = "(unat (sb_size sb) + BPB - 1) div BPB"
  let ?I = "\<lambda>k t. at_rest t \<and> log_frame t = log_frame s \<and> (\<forall>i<k. view t (bm_at sb i) = zero_block) \<and>
    (\<forall>e. data_block s e \<and> (\<forall>i<?n. e \<noteq> bm_at sb i) \<longrightarrow> view t e = view s e)"
  have n: "unat (roundup (ucast (sb_size sb)) (word_of_nat BPB) div word_of_nat BPB) = ?n"
    by (simp only: unat_div_distrib unat_roundup(1)) (simp add: BPB_def BSIZE_def)
  have "returns (zero_bitmap sb s) (\<lambda>(u, t). ?I ?n t)"
    unfolding zero_bitmap_def n
  proof (rule foreach_upt_returns[where I = ?I, OF le0])
    fix k and t :: "'a bmap_scheme"
    assume k: "k < ?n" and t: "?I k t"
    have fr: "log_frame t = log_frame s" and at: "at_rest t" using t by blast+
    have db: "data_block t = data_block s" using data_block_frame[OF fr] by (simp add: fun_eq_iff)
    have lg': "2 \<le> lg_size t" using fr lg by (simp add: log_frame_def)
    have kb: "data_block t (bm_at sb k)" using b k by (simp add: db)
    obtain t' where t': "chain (begin_op t) (\<lambda>(_, s). chain (logged_zero_a_block (bm_at sb k) s) (\<lambda>(_, s). end_op s)) = Inr ((), t')"
      "at_rest t'" "log_frame t' = log_frame t" "\<And>e. data_block t e \<Longrightarrow> view t' e = (if e = bm_at sb k then zero_block else view t e)"
      by (rule zero_one[OF at kb lg']) (rule that)
    have "?I (Suc k) t'" using t t'(2-4) k b by (auto simp: db less_Suc_eq)
    then show "returns (chain (begin_op t) (\<lambda>(_, s). chain (logged_zero_a_block (sb_bmapstart sb + word_of_nat k) s) (\<lambda>(_, s). end_op s)))
      (\<lambda>(u, t). ?I (Suc k) t)" using t'(1) by (simp add: bm_at_def add.commute)
  qed (use r in simp)
  then obtain t where "zero_bitmap sb s = Inr ((), t)" "?I ?n t" by (auto elim!: returnsE)
  then show ?thesis by (intro that[of t]) auto
qed

section \<open>The layout on the device\<close>

text \<open>The machine has the log where the super block says, on a device of \<open>n\<close> blocks.\<close>

definition sb_geo :: "superblock \<Rightarrow> nat \<Rightarrow> 'a fslog_scheme \<Rightarrow> bool" where
  "sb_geo sb n s \<longleftrightarrow> dev_nblk s = n \<and> lg_start s = sb_logstart sb \<and> lg_size s = uint (sb_nlog sb)"

lemma sb_geo_data:
  assumes "sb_geo sb n s"
  shows "data_block s b \<longleftrightarrow> b \<noteq> 0 \<and> unat b < n \<and>
    \<not> (unat (sb_logstart sb) \<le> unat b \<and> unat b < unat (sb_logstart sb) + unat (sb_nlog sb))"
  using assms by (simp add: sb_geo_def data_block_def)

definition nmeta :: "uint \<Rightarrow> nat" where
  "nmeta n = 2 + NLOG + (unat n div 50 + 1) + (unat n + BPB - 1) div BPB"

text \<open>The device sizes \<open>mkfs\<close> lays out well: the blocks before the data leave a free block
  in the first group of the bitmap, which also makes the size an \<open>int\<close>.\<close>

definition good_size :: "uint \<Rightarrow> bool" where
  "good_size n \<longleftrightarrow> 1040 \<le> unat n \<and> nmeta n < BPB \<and> nmeta n < unat n"

lemma good_size_int:
  assumes "good_size n"
  shows "unat n < 2 ^ 31" "unat (scast n :: size_t) = unat n"
proof -
  have "unat n div 50 < BPB" using assms unfolding good_size_def nmeta_def by linarith
  then show n: "unat n < 2 ^ 31" by (simp add: BPB_def BSIZE_def)
  have u: "uint n < 2 ^ 31" proof -
    have "int (unat n) < int (2 ^ 31)" using n by (simp only: of_nat_less_iff)
    then show ?thesis by simp
  qed
  have p: "0 \<le> uint n" by simp
  have "signed_take_bit 31 (uint n) = uint n" by (rule signed_take_bit_int_eq_self) (use u p in linarith)+
  then have "sint n = uint n" by (simp add: sint_uint)
  moreover have "take_bit 64 (uint n) = uint n" by (rule take_bit_int_eq_self) (use u p in simp_all)
  ultimately have "uint (scast n :: size_t) = uint n" by (simp add: scast_eq unsigned_ucast_eq)
  then show "unat (scast n :: size_t) = unat n" by (simp only: unat_eq_nat_uint)
qed

text \<open>These are the sizes from 1041 to 1584999 blocks, about 6 GiB.\<close>

lemma good_sizes:
  assumes "1041 \<le> unat n" "unat n \<le> 1584999"
  shows "good_size n"
proof -
  have "unat n div 50 \<le> 1584999 div 50" "(unat n + BPB - 1) div BPB \<le> (1584999 + BPB - 1) div BPB"
    using assms(2) by (intro div_le_mono; simp)+
  then have "nmeta n < BPB" by (simp add: nmeta_def NLOG_def MAXOPBLOCKS_def BPB_def BSIZE_def)
  moreover have "nmeta n < unat n"
  proof -
    have "unat n div 50 * 50 \<le> unat n" "(unat n + BPB - 1) div BPB * BPB \<le> unat n + BPB - 1" by simp_all
    then show ?thesis using assms(1) by (simp add: nmeta_def NLOG_def MAXOPBLOCKS_def BPB_def BSIZE_def)
  qed
  ultimately show ?thesis using assms(1) by (simp add: good_size_def)
qed

text \<open>On a larger device the metadata fills the first group of the bitmap.\<close>

lemma large_sizes:
  assumes "1585000 \<le> unat n"
  shows "BPB \<le> nmeta n"
proof -
  have "1585000 div 50 \<le> unat n div 50" "(1585000 + BPB - 1) div BPB \<le> (unat n + BPB - 1) div BPB"
    using assms by (intro div_le_mono; simp)+
  then show ?thesis by (simp add: nmeta_def NLOG_def MAXOPBLOCKS_def BPB_def BSIZE_def)
qed

lemma nmeta_sb:
  assumes "good_size n"
  defines "sb \<equiv> init_super_block n"
  shows "unat (sb_size sb - sb_nblocks sb) = nmeta n" "unat (sb_bmapstart sb) + (unat n + BPB - 1) div BPB = nmeta n"
    "2 \<le> unat (sb_logstart sb)" "unat (sb_logstart sb) + unat (sb_nlog sb) = unat (sb_inodestart sb)" "unat (sb_inodestart sb) < unat (sb_bmapstart sb)"
    "unat (sb_nlog sb) = NLOG" "sb_size sb = n" "sb_magic sb = FSMAGIC" "sb_logstart sb = 2"
  using layout_nat[of n] assms by (simp_all add: good_size_def nmeta_def init_super_block_def Let_def)

section \<open>An empty table\<close>

lemma empty_table:
  assumes "\<forall>i<it_n s. it_inode s i = static_inode" "0 < it_n s"
  shows "entry_of s = Map.empty" "refcount s = (\<lambda>_. 0)" "locks_in {} s" "table_wf s"
proof -
  show e: "entry_of s = Map.empty"
    using assms(1) by (auto simp: fun_eq_iff entry_of_def static_inode_def find_from_None)
  show "refcount s = (\<lambda>_. 0)" by (simp add: refcount_def e fun_eq_iff)
  show "locks_in {} s" using assms(1) by (auto simp: locks_in_def static_inode_def)
  show "table_wf s" by (rule table_wfI) (use assms(1) in \<open>auto simp: static_inode_def\<close>)
qed

lemma fresh_table:
  assumes "\<forall>i<it_n s. it_inode s i = static_inode" "0 < it_n s"
  shows "fs_table s"
  using assms empty_table[OF assms] by (simp add: fs_table_def static_inode_def)

text \<open>Zeros where the inodes are: a file system without files.\<close>

lemma blank_fs:
  assumes "\<And>k. inum_ok s k \<Longrightarrow> view s (IBLOCK k s) = zero_block"
  shows "abs_fs s = Map.empty"
proof (rule ext)
  fix k
  show "abs_fs s k = None"
    using assms[of k] by (simp add: abs_fs_def Let_def disk_inode_def dinode.truncate_def get_dinode_def T_UNUSE_def)
qed

section \<open>The memory of a process that starts\<close>

lemma boot_ok:
  fixes s :: "'a itable_scheme"
  assumes fresh: "fresh_log s" and lg: "sb_log_ok sb (dev_nblk s)" and hd: "header_n (dev_data s (sb_logstart sb)) = 0"
    and bm: "\<And>t :: 'a itable_scheme. sb_geo sb (dev_nblk s) t \<Longrightarrow> \<forall>i<(unat (sb_size sb) + BPB - 1) div BPB. data_block t (bm_at sb i)"
  obtains s1 s' where "log_init sb (bcache_init s) = Inr ((), s1)" "inode_init sb s1 = Inr (0, s')" "at_rest s'" "sb_geo sb (dev_nblk s) s'"
    "unat (bm_n s') = (unat (sb_size sb) + BPB - 1) div BPB" "\<forall>i<unat (bm_n s'). group_ok sb s' i" "bm_ffc s' = 0" "fs_sb s' = fs_sb s"
    "it_n s' = NINODE_INIT" "\<forall>i<NINODE_INIT. it_inode s' i = static_inode" "itable.more s' = itable.more s"
    "\<And>b. data_block s' b \<Longrightarrow> view s' b = dev_data s b"
proof -
  obtain s1 where 1: "log_init sb (bcache_init s) = Inr ((), s1)" "at_rest s1" "dev_nblk s1 = dev_nblk s" "lg_start s1 = sb_logstart sb"
    "lg_size s1 = uint (sb_nlog sb)" "fslog.more s1 = fslog.more s" "\<And>b. b \<noteq> 0 \<Longrightarrow> b \<noteq> sb_logstart sb \<Longrightarrow> view s1 b = dev_data s b"
    by (rule log_boot[OF fresh lg hd]) (rule that)
  note f1 = bm_fields_more[OF 1(6)]
  let ?t = "s1\<lparr>it_n := NINODE_INIT, it_inode := (\<lambda>i. if i < NINODE_INIT then static_inode else it_inode s1 i), bm_n := 0, bm_ffc := 0\<rparr>"
  have geo: "sb_geo sb (dev_nblk s) ?t" using 1(3-5) by (simp add: sb_geo_def)
  note d = at_restD[OF 1(2)]
  note same = log_base_cong[of ?t s1]
  have v: "view ?t = view s1" by (rule same) simp_all
  have r: "log_ready {} ?t" "held ?t = Map.empty" "lg_outstanding ?t = 0" "\<not> lg_committing ?t" "lh_n ?t + int MAXOPBLOCKS \<le> int NLOG"
    using d same(1)[of "{}"] same(4) by (simp_all add: NLOG_def MAXOPBLOCKS_def)
  obtain s' where 2: "block_allocator_refresh sb ?t = Inr ((), s')" "log_ready {} s'" "held s' = Map.empty"
    "lh_n s' = 0" "lg_outstanding s' = 0" "\<not> lg_committing s'" "unat (bm_n s') = (unat (sb_size sb) + BPB - 1) div BPB"
    "\<forall>i<unat (bm_n s'). group_ok sb s' i" "bm_ffc s' = bm_ffc ?t" "fs_sb s' = fs_sb ?t" "bmap.more s' = bmap.more ?t"
    "data_block s' = data_block ?t" "dev_nblk s' = dev_nblk ?t" "lg_start s' = lg_start ?t" "lg_size s' = lg_size ?t"
    "\<And>b. data_block ?t b \<Longrightarrow> view s' b = view ?t b"
    by (rule refresh_total[OF r bm[OF geo]]) (rule that)
  have it: "it_n s' = it_n ?t" "it_inode s' = it_inode ?t" "itable.more s' = itable.more ?t" using 2(11) by (cases s'; cases s1; simp)+
  have more: "itable.more s1 = itable.more s" using f1(7) by (cases s1; cases s; simp)
  have start: "b \<noteq> sb_logstart sb" if "data_block s' b" for b
    using that lg geo unfolding 2(12) sb_geo_data[OF geo] by (auto simp: sb_log_ok_def)
  show ?thesis
  proof (rule that[OF 1(1), of s'])
    show "inode_init sb s1 = Inr (0, s')" using 2(1) by (simp add: inode_init_def Let_def)
    show "view s' b = dev_data s b" if b: "data_block s' b" for b
      using b 2(16)[of b] 1(7)[of b] v start[OF b] data_block_inrange[OF b] by (simp add: 2(12))
  qed (use 1 2 geo it more f1 in \<open>simp_all add: at_rest_def sb_geo_def\<close>)
qed

section \<open>The bitmap of a file system without files\<close>

lemma sync_bit:
  assumes "bm_sync s" "b < unat (bm_n s) * BPB"
  shows "bm_bit s b = bit (view s (bm_block s (b div BPB)) (b mod BPB div 8)) (b mod BPB mod 8)"
proof -
  have i: "b div BPB < unat (bm_n s)" using assms(2) by (simp add: less_mult_imp_div_less)
  have j: "b mod BPB < BPB" by simp
  then have "b mod BPB div 8 < BSIZE" by (simp add: BPB_def less_mult_imp_div_less)
  then show ?thesis using group_bit[OF j, of s "b div BPB"] assms(1) i by (simp add: bm_sync_def)
qed

lemma bm_at_layout:
  assumes "good_size n" "sb_geo (init_super_block n) N t" "unat n \<le> N" and i: "i < (unat n + BPB - 1) div BPB"
  shows "unat (bm_at (init_super_block n) i) = unat (sb_bmapstart (init_super_block n)) + i" "data_block t (bm_at (init_super_block n) i)"
proof -
  note L = nmeta_sb[OF assms(1)]
  have lt: "nmeta n < unat n" "unat n < 2 ^ 31" using assms(1) good_size_int(1)[OF assms(1)] by (simp_all add: good_size_def)
  have b: "unat (sb_bmapstart (init_super_block n)) + i < nmeta n" using L(2) i by linarith
  have w: "unat (word_of_nat i :: uint) = i" using b lt by (simp add: unsigned_of_nat take_bit_nat_eq_self)
  show u: "unat (bm_at (init_super_block n) i) = unat (sb_bmapstart (init_super_block n)) + i"
    unfolding bm_at_def using unat_add_lem[of "word_of_nat i" "sb_bmapstart (init_super_block n)"] w b lt by simp
  have "bm_at (init_super_block n) i \<noteq> 0" using u L(3-5) by (metis add_is_0 not_less_zero unat_0)
  then show "data_block t (bm_at (init_super_block n) i)"
    unfolding sb_geo_data[OF assms(2)] u using b lt L(4,5) assms(3) by simp
qed

lemma refresh_rest:
  fixes s :: "'a bmap_scheme"
  assumes gs: "good_size n" and r: "at_rest s" "sb_geo sb N s" "fs_sb s = sb" "unat n \<le> N" and sb: "sb = init_super_block n"
  obtains s' where "block_allocator_refresh sb s = Inr ((), s')" "at_rest s'" "sb_geo sb N s'" "fs_sb s' = sb" "unat (bm_n s') = (unat n + BPB - 1) div BPB"
    "bm_sync s'" "bm_counts s'" "bm_ffc s' = bm_ffc s" "bmap.more s' = bmap.more s" "data_block s' = data_block s"
    "\<And>b. data_block s b \<Longrightarrow> view s' b = view s b"
proof -
  note d = at_restD[OF r(1)] and L = nmeta_sb[OF gs, folded sb]
  have room: "lh_n s + int MAXOPBLOCKS \<le> int NLOG" by (simp add: d NLOG_def MAXOPBLOCKS_def)
  note at = bm_at_layout(2)[OF gs r(2)[unfolded sb] r(4), folded sb]
  have blk: "\<forall>i<(unat (sb_size sb) + BPB - 1) div BPB. data_block s (bm_at sb i)" using at unfolding L(7) by blast
  obtain s' where 2: "block_allocator_refresh sb s = Inr ((), s')" "log_ready {} s'" "held s' = Map.empty"
    "lh_n s' = 0" "lg_outstanding s' = 0" "\<not> lg_committing s'" "unat (bm_n s') = (unat (sb_size sb) + BPB - 1) div BPB"
    "\<forall>i<unat (bm_n s'). group_ok sb s' i" "bm_ffc s' = bm_ffc s" "fs_sb s' = fs_sb s" "bmap.more s' = bmap.more s"
    "data_block s' = data_block s" "dev_nblk s' = dev_nblk s" "lg_start s' = lg_start s" "lg_size s' = lg_size s"
    "\<And>b. data_block s b \<Longrightarrow> view s' b = view s b"
    by (rule refresh_total[OF d(1,2,4,5) room blk]) (rule that)
  have "unat (bm_n s') \<le> 131072" using good_size_int(1)[OF gs] unfolding 2(7) L(7) by (simp add: BPB_def BSIZE_def)
  then have "bm_sync s' \<and> bm_counts s'"
    unfolding group_ok_bm using 2(7,8,10,12) blk r(3) by (simp add: bm_at_block[symmetric])
  then show ?thesis
    by (intro that[OF 2(1)]) (use 2 r L(7) in \<open>simp_all add: at_rest_def sb_geo_def\<close>)
qed

text \<open>Zeros, a refresh, the marks, and another refresh.\<close>

lemma init_bitmap:
  fixes s :: "'a bmap_scheme"
  assumes gs: "good_size n" and r: "at_rest s" "sb_geo sb N s" "fs_sb s = sb" "unat n \<le> N" and sb: "sb = init_super_block n"
  obtains s1 s2 s3 s4 where "zero_bitmap sb s = Inr ((), s1)" "block_allocator_refresh sb s1 = Inr ((), s2)"
    "init_meta_blocks_bmap s2 = Inr ((), s3)" "block_allocator_refresh sb s3 = Inr ((), s4)"
    "at_rest s4" "sb_geo sb N s4" "fs_sb s4 = sb" "unat (bm_n s4) = (unat n + BPB - 1) div BPB" "bm_sync s4" "bm_counts s4"
    "bm_ffc s4 = bm_ffc s" "bmap.more s4 = bmap.more s"
    "\<forall>b<unat (bm_n s4) * BPB. bm_bit s4 b \<longleftrightarrow> b < nmeta n \<or> unat n \<le> b"
    "\<And>e. usable s4 e \<Longrightarrow> view s4 e = view s e"
proof -
  let ?k = "(unat n + BPB - 1) div BPB"
  note L = nmeta_sb[OF gs, folded sb]
  note at = bm_at_layout(2)[OF gs _ r(4), folded sb]
  have blk: "\<forall>i<(unat (sb_size sb) + BPB - 1) div BPB. data_block s (bm_at sb i)" using at[OF r(2)] unfolding L(7) by blast
  have lg: "2 \<le> lg_size s" using r(2) L(6) unfolding sb_geo_def uint_nat[of "sb_nlog sb"] by (simp only: L(6)) (simp add: NLOG_def MAXOPBLOCKS_def)
  obtain s1 where 1: "zero_bitmap sb s = Inr ((), s1)" "at_rest s1" "log_frame s1 = log_frame s"
    "\<And>i. i < (unat (sb_size sb) + BPB - 1) div BPB \<Longrightarrow> view s1 (bm_at sb i) = zero_block"
    "\<And>e. data_block s e \<Longrightarrow> \<forall>i<(unat (sb_size sb) + BPB - 1) div BPB. e \<noteq> bm_at sb i \<Longrightarrow> view s1 e = view s e"
    by (rule zero_bitmap_ok[OF r(1) blk lg]) (rule that)
  note f1 = bm_fields_more[OF log_frame_fslog_more[OF 1(3)]]
  have g1: "sb_geo sb N s1" "fs_sb s1 = sb" "data_block s1 = data_block s"
    using r 1(3) f1 data_block_frame[OF 1(3)] by (simp_all add: sb_geo_def log_frame_def fun_eq_iff)
  obtain s2 where 2: "block_allocator_refresh sb s1 = Inr ((), s2)" "at_rest s2" "sb_geo sb N s2" "fs_sb s2 = sb" "unat (bm_n s2) = ?k"
    "bm_sync s2" "bm_counts s2" "bm_ffc s2 = bm_ffc s1" "bmap.more s2 = bmap.more s1" "data_block s2 = data_block s1"
    "\<And>b. data_block s1 b \<Longrightarrow> view s2 b = view s1 b"
    by (rule refresh_rest[OF gs 1(2) g1(1,2) r(4) sb]) (rule that)
  have b2: "\<not> bm_bit s2 b" if "b < ?k * BPB" for b
  proof -
    have i: "b div BPB < ?k" using that by (simp add: less_mult_imp_div_less)
    then have "view s2 (bm_block s2 (b div BPB)) = zero_block"
      using 1(4)[unfolded L(7), OF i] 2(11)[OF at[OF g1(1) i]] 2(4) by (simp add: bm_at_block[symmetric])
    then show ?thesis using sync_bit[OF 2(6), unfolded 2(5), OF that] by simp
  qed
  have lg2: "2 \<le> lg_size s2" using 2(3) lg r(2) by (simp add: sb_geo_def)
  have le: "nmeta n \<le> unat n" "unat n \<le> ?k * BPB" using gs
    by (simp_all add: good_size_def) (simp add: BPB_def BSIZE_def)
  have n2: "nmeta n \<le> unat (bm_n s2) * BPB" using le by (simp add: 2(5))
  obtain s2' where 3: "foreach [0..<nmeta n] (\<lambda>i. mark_block (word_of_nat i)) s2 = Inr ((), s2')" "at_rest s2'" "bm_sync s2'" "bm_frame s2' = bm_frame s2"
    "\<And>j. bm_bit s2' j \<longleftrightarrow> bm_bit s2 j \<or> 0 \<le> j \<and> j < nmeta n" "bm_ffc s2' = bm_ffc s2" "\<And>e. usable s2 e \<Longrightarrow> view s2' e = view s2 e"
    by (rule mark_range[OF 2(2,6) le0 n2 lg2]) (rule that)
  note f3 = bm_frameD[OF 3(4)]
  have p3: "?k * BPB \<le> unat (bm_n s2') * BPB" "2 \<le> lg_size s2'" using 3(4) lg2 2(5) by (simp_all add: f3) (simp add: bm_frame_def)
  obtain s3 where 4: "foreach [unat n..<?k * BPB] (\<lambda>i. mark_block (word_of_nat i)) s2' = Inr ((), s3)" "at_rest s3" "bm_sync s3" "bm_frame s3 = bm_frame s2'"
    "\<And>j. bm_bit s3 j \<longleftrightarrow> bm_bit s2' j \<or> unat n \<le> j \<and> j < ?k * BPB" "bm_ffc s3 = bm_ffc s2'" "\<And>e. usable s2' e \<Longrightarrow> view s3 e = view s2' e"
    by (rule mark_range[OF 3(2,3) le(2) p3]) (rule that)
  note f4 = bm_frameD[OF 4(4)]
  have meta: "init_meta_blocks_bmap s2 = Inr ((), s3)"
    using 3(1) 4(1) by (simp add: init_meta_blocks_bmap_def Let_def 2(4) L(1)) (simp add: L(7) good_size_int(2)[OF gs] unat_roundup(1))
  have g3: "sb_geo sb N s3" "fs_sb s3 = sb" using 2(3,4) 3(4) 4(4) by (simp_all add: sb_geo_def bm_frame_def)
  obtain s4 where 5: "block_allocator_refresh sb s3 = Inr ((), s4)" "at_rest s4" "sb_geo sb N s4" "fs_sb s4 = sb" "unat (bm_n s4) = ?k"
    "bm_sync s4" "bm_counts s4" "bm_ffc s4 = bm_ffc s3" "bmap.more s4 = bmap.more s3" "data_block s4 = data_block s3"
    "\<And>b. data_block s3 b \<Longrightarrow> view s4 b = view s3 b"
    by (rule refresh_rest[OF gs 4(2) g3 r(4) sb]) (rule that)
  have n3: "unat (bm_n s3) = ?k" "bm_block s4 = bm_block s3" using 2(5) f3 f4 5(4) g3 by (simp_all add: fun_eq_iff bm_block_def)
  have us: "usable s2' = usable s2" "usable s3 = usable s2" using usable_frame[OF 3(4)] usable_frame[OF 4(4)] by simp_all
  have bits: "bm_bit s4 b \<longleftrightarrow> b < nmeta n \<or> unat n \<le> b" if "b < unat (bm_n s4) * BPB" for b
  proof -
    have b: "b < ?k * BPB" "b div BPB < ?k" using that 5(5) by (simp_all add: less_mult_imp_div_less)
    have "data_block s3 (bm_block s3 (b div BPB))" using 4(3) b(2) n3 by (simp add: bm_sync_def)
    then have "bm_bit s4 b = bm_bit s3 b"
      using sync_bit[OF 5(6) that] sync_bit[OF 4(3), of b] b n3 5(11) by simp
    then show ?thesis using b2[OF b(1)] b(1) 3(5) 4(5) by simp
  qed
  have vw: "view s4 e = view s e" if e: "usable s4 e" for e
  proof -
    have u: "usable s3 e" using e n3 5(5,10) by (simp add: usable_def)
    have e2: "usable s2 e" using u us by simp
    have nb: "e \<noteq> bm_at sb i" if "i < ?k" for i using u that n3 g3 by (auto simp: usable_def bm_at_block[symmetric])
    have "data_block s3 e" "data_block s1 e" "data_block s e" using u e2 2(10) g1 by (simp_all add: usable_def)
    then show ?thesis using 5(11) 4(7) 3(7) e2 us 2(11) 1(5)[of e] nb by (simp add: L(7))
  qed
  have more: "bmap.more s4 = bmap.more s" "bm_ffc s4 = bm_ffc s" using 5(8,9) 4(6) 3(6) 2(8,9) f1 f3 f4 by simp_all
  show ?thesis by (rule that[OF 1(1) 2(1) meta 5(1-7) more(2,1) _ vw]) (use bits in blast)
qed

section \<open>The root directory\<close>

text \<open>\<open>ialloc\<close> on a file system without files takes the first inode number, and writes its block only.\<close>

lemma ialloc_first:
  assumes ok: "fs_phys s" and em: "abs_fs s ROOTINO = None" and io: "inum_ok s ROOTINO" and t: "t \<in> {T_DIR, T_FILE, T_DEVICE}"
    and q: "quota (1 + w) f s" "locks_in X s"
  obtains ip s' where "ialloc t s = Inr (ip, s')" "fs_phys s'" "abs_fs s' = (abs_fs s)(ROOTINO \<mapsto> new_file t)" "entry_of s' ROOTINO = Some ip"
    "refcount s' = add_ref ROOTINO 1 (refcount s)" "geo s' = geo s" "quota w f s'" "locks_in X s'" "bm_bit s' = bm_bit s"
    "\<And>b. b \<noteq> IBLOCK ROOTINO s \<Longrightarrow> view s' b = view s b"
proof -
  let ?k = "ROOTINO" and ?n = "unat (sb_ninodes (fs_sb s))"
  let ?D = "\<lambda>d. put16 (clear_dinode d (dinode_off ?k)) (dinode_off ?k) t"
  note d = fs_physD[OF ok]
  have lt: "1 < ?n" "word_of_nat 1 = ?k" using io by (simp_all add: inum_ok_def ROOTINO_def)
  have us: "usable s (IBLOCK ?k s)" by (rule d(10)[OF io])
  have ty: "di_type (disk_inode s ?k) = T_UNUSE" using em io by (simp add: abs_fs_def Let_def split: if_splits)
  obtain bp s1 s2 where r: "logged_read (IBLOCK ?k s) s = Inr (bp, s1)" "logged_write bp (set_data bp (?D (buf_data s1 bp)) s1) = Inr ((), s2)"
    "quota w f (logged_relse bp s2)" by (rule take_total[OF ok us q(1), where D = ?D])
  note T = fs_take_inode[OF ok io ty t r(1,2)]
  note pk = fs_peek[OF ok us r(1)]
  have tb: "get16 (buf_data s1 bp) (dinode_off ?k) = T_UNUSE"
    using ty by (simp add: pk(1) disk_inode_def dinode.truncate_def get_dinode_def)
  obtain ip s' where g: "iget ?k (logged_relse bp s2) = Inr (ip, s')"
    using iget_got[OF fs_physD(6,7)[OF T(1)], of ?k] by (auto elim!: returnsE)
  note G = fs_iget[OF T(1) g]
  have run: "ialloc t s = Inr (ip, s')"
    using lt r(1,2) tb g by (simp add: ialloc_def ialloc_from.simps[of ?n t 1] Let_def del: One_nat_def of_nat_1)
  have l: "locks_in X (logged_relse bp s2)" using q(2) locks_in_cong[OF T(6,5)] by simp
  have lq: "quota w f s'" "locks_in X s'" using iget_locks[OF T(1) g] r(3) l by simp_all
  obtain h where "s' = upd_inode ip h (logged_relse bp s2) \<or> s' = upd_inode ip h (itable_grow (logged_relse bp s2))" using iget_form[OF g] by blast
  then have vb: "view s' = view (logged_relse bp s2)" "bm_bit s' = bm_bit (logged_relse bp s2)" by auto
  have bt: "bm_bit s' = bm_bit s" using modify_usable(7)[OF d(1,3) us r(1,2)] vb by simp
  from vb have v: "view s' b = view s b" if "b \<noteq> IBLOCK ?k s" for b using modify_usable(2)[OF d(1,3) us r(1,2)] that by simp
  have e: "entry_of s' ?k = Some ip" "refcount s' = add_ref ?k 1 (refcount s)" "abs_fs s' = (abs_fs s)(?k \<mapsto> new_file t)" "geo s' = geo s"
    using G T by (auto simp: got_def add_ref_def)
  show ?thesis by (rule that[OF run G(1) e(3,1,2,4) lq bt v])
qed

lemma stamp_view: "view (stamp_inode ip s) = view s" "usable (stamp_inode ip s) = usable s" "bm_inv (stamp_inode ip s) = bm_inv s"
  "log_ready X (stamp_inode ip s) = log_ready X s" "IBLOCK k (stamp_inode ip s) = IBLOCK k s" "mi_inum (it_inode (stamp_inode ip s) ip) = mi_inum (it_inode s ip)"
  "bm_bit (stamp_inode ip s) = bm_bit s"
  by (simp_all add: stamp_inode_def get_current_timespec_def IBLOCK_def)

lemma add_root:
  assumes ok: "fs_phys s" and em: "abs_fs s = Map.empty" "refcount s = (\<lambda>_. 0)" and io: "inum_ok s ROOTINO" and l: "locks_in {} s"
    and q: "op_room 2 f s" "lg_outstanding s = 0"
  obtains s' where "add_rootinode s = Inr ((), s')" "fs_ok s'" "abs_fs s' = [ROOTINO \<mapsto> new_dir 0]" "refcount s' = (\<lambda>_. 0)"
    "locks_in {} s'" "quiet f s'" "geo s' = geo s" "bm_bit s' = bm_bit s" "\<And>b. data_block s b \<Longrightarrow> b \<noteq> IBLOCK ROOTINO s \<Longrightarrow> view s' b = view s b"
proof -
  let ?k = "ROOTINO"
  obtain s1 where 1: "begin_op s = Inr ((), s1)" "quota 2 f s1" "locks_in {} s1" by (rule begin_returns[OF ok q(1) l])
  note b = fs_begin_op[OF ok 1(1)]
  have io1: "inum_ok s1 ?k" "IBLOCK ?k s1 = IBLOCK ?k s" using io geo_sb(1)[OF b(7)] by (simp_all add: inum_ok_def IBLOCK_def)
  have e1: "abs_fs s1 ?k = None" and q1: "quota (1 + 1) f s1" using b em 1(2) by (simp_all add: numeral_2_eq_2)
  have td: "T_DIR \<in> {T_DIR, T_FILE, T_DEVICE}" by simp
  obtain ip s2 where 2: "ialloc T_DIR s1 = Inr (ip, s2)" "fs_phys s2" "abs_fs s2 = (abs_fs s1)(?k \<mapsto> new_file T_DIR)" "entry_of s2 ?k = Some ip"
    "refcount s2 = add_ref ?k 1 (refcount s1)" "geo s2 = geo s1" "quota 1 f s2" "locks_in {} s2" "bm_bit s2 = bm_bit s1"
    "\<And>b. b \<noteq> IBLOCK ?k s1 \<Longrightarrow> view s2 b = view s1 b"
    by (rule ialloc_first[OF b(1) e1 io1(1) td q1 1(3)]) (rule that)
  have a2: "abs_fs s2 ?k = Some (new_file T_DIR)" using 2(3) by simp
  have lt: "ip < it_n s2" "mi_inum (it_inode s2 ip) = ?k" using 2(4) entry_of_Some[OF fs_physD(6)[OF 2(2)]] by auto
  obtain s3 where 3: "ilock ip s2 = Inr ((), s3)" by (rule ilock_returns[OF 2(2,4) a2]) (use 2(8) lt in \<open>auto simp: locks_in_def\<close>)
  note L = fs_lock[OF 2(2,4) a2 3] and L' = ilock_locks[OF 2(2,4) a2 3 2(8,7)]
  have db: "mi_valid (it_inode s2 ip) \<or> data_block s2 (IBLOCK (mi_inum (it_inode s2 ip)) s2)"
    using fs_physD(10)[OF 2(2), of ?k] a2 lt by (simp add: usable_def abs_fs_Some)
  have v3: "view s3 = view s2" "bm_bit s3 = bm_bit s2" by (rule ilock_ok(6,7)[OF fs_physD(1)[OF 2(2)] db fs_physD(3)[OF 2(2)] 3])+
  have ty: "di_type (it_inode s3 ip) = T_DIR" using arg_cong[OF L(6), of af_type] by (simp add: entry_file_sel new_file_def)
  have sz: "di_size (it_inode s3 ip) = 0" "di_perm (it_inode s3 ip) = 0"
    using arg_cong[OF L(6), of af_size] arg_cong[OF L(6), of af_perm] by (simp_all add: entry_file_sel new_file_def)
  let ?h = "\<lambda>i :: minode. i\<lparr>di_nlink := 1, di_type := T_DIR\<rparr>" and ?g = "\<lambda>i :: minode. i\<lparr>di_nlink := 1\<rparr>"
  have id: "i\<lparr>di_nlink := 1, di_type := T_DIR\<rparr> = i\<lparr>di_nlink := 1\<rparr>" if "di_type i = T_DIR" for i :: minode using that by (cases i) simp
  have same: "upd_inode ip ?h s3 = upd_inode ip ?g s3" by (simp add: upd_inode_def id[OF ty])
  have g: "field_change ?g" by (simp add: field_change_def)
  let ?t = "stamp_inode ip (upd_inode ip ?g s3)"
  have ft: "file_ok ?t ip" by (rule stamp_form[OF g L(1,5)])
  have q3: "quota (1 + 0) f ?t" using L'(2) by (simp add: stamp_inode_def get_current_timespec_def table_quota quota_def free_blocks_def bm_bit_def)
  obtain s4 where 4: "iupdate ip ?t = Inr ((), s4)" "quota 0 f s4" by (rule iupdate_quota[OF ft q3])
  note S = fs_stamp[OF L(1,5) g 4(1)]
  have ik: "mi_inum (it_inode s3 ip) = ?k" by (rule open_entry(3)[OF L(1,5)])
  have v4: "b \<noteq> IBLOCK ?k s3 \<Longrightarrow> view s4 b = view s3 b" "bm_bit s4 = bm_bit s3" for b
  proof -
    have "abs_fs s3 ?k = Some (new_file T_DIR)" using a2 L(2) by simp
    then have io3: "inum_ok s3 ?k" by (simp add: abs_fs_Some)
    have u: "log_ready {} ?t" "bm_inv ?t" "usable ?t (IBLOCK (mi_inum (it_inode ?t ip)) ?t)"
      using fs_physD(1,3)[OF L(1)] fs_physD(10)[OF L(1) io3] ik by (simp_all add: stamp_view)
    show "b \<noteq> IBLOCK ?k s3 \<Longrightarrow> view s4 b = view s3 b" "bm_bit s4 = bm_bit s3"
      by (rule iupdate_ok[OF u 4(1)]; simp add: stamp_view ik)+
  qed
  have a4: "abs_fs s4 = (abs_fs s3)(?k \<mapsto> new_dir 0)" using S(2) sz L(6) by (simp add: new_dir_def new_file_def entry_file_sel)
  have e4: "entry_of s4 ?k = Some ip" "abs_fs s4 ?k = Some (new_dir 0)" "af_nlink (new_dir 0) \<noteq> 0"
    using S(4) L(4) 2(4) a4 by (simp_all add: new_dir_def)
  have l4: "locks_in (insert ip {}) s4" by (rule S(6)[OF L'(1)])
  obtain s5 where 5: "iunlockput ip s4 = Inr ((), s5)" "locks_in {} s5" "quota 0 f s5" by (rule put_returns[OF S(1) e4 l4 4(2)])
  note V = fs_put[OF S(1) e4 5(1)]
  have v5: "view s5 = view s4" "bm_bit s5 = bm_bit s4"
  proof -
    note u = fs_iunlock[OF S(1), of ip]
    have "entry_of (iunlock ip s4) ?k = Some ip" "abs_fs (iunlock ip s4) ?k = Some (new_dir 0)" using u e4 by simp_all
    from iput_named[OF u(1) this disjI1[OF e4(3)]] have "s5 = upd_inode ip (\<lambda>i. i\<lparr>mi_ref := mi_ref i - 1\<rparr>) (iunlock ip s4)"
      using 5(1) by (simp add: iunlockput_def)
    then show "view s5 = view s4" "bm_bit s5 = bm_bit s4" by (simp_all add: iunlock_def)
  qed
  obtain s' where 6: "end_op s5 = Inr ((), s')" "locks_in {} s'" by (rule end_returns[OF V(1) 5(2)])
  note E = fs_end_op[OF V(1) 6(1)]
  have run: "add_rootinode s = Inr ((), s')"
    using 1(1) 2(1) lt 3 4(1) 5(1) 6(1) by (simp add: add_rootinode_def same)
  have "lg_outstanding s1 = 1" using begin_op_count[OF 1(1)] q(2) by simp
  then have "lg_outstanding s5 = 1" using iupdate_outs[OF 4(1)] ilock_outs[OF 3] ialloc_outs[OF 2(1)] iunlockput_outs[OF 5(1)] by simp
  then have out: "lg_outstanding s' = 0" using end_op_count[OF 6(1)] by simp
  have qu: "quiet f s'" by (rule end_quiet[OF V(1) 6(1) 5(3) out])
  have ge: "geo s' = geo s" "geo s5 = geo s" "geo s3 = geo s" "geo s4 = geo s" using E(7) V(5) S(7) L(7) 2(6) b(7) by simp_all
  have ab: "abs_fs s' = [?k \<mapsto> new_dir 0]" using E(2) V(2) a4 L(2) 2(3) b(2) em by simp
  have "names_ok [?k \<mapsto> new_dir 0]"
    by (auto simp: names_ok_def new_dir_def names_dir_cong[of "(new_file T_DIR)\<lparr>af_nlink := 1, af_perm := 0\<rparr>" "new_file T_DIR"] empty_dir split: if_splits) (simp add: new_file_def)
  then have fo: "fs_ok s'" using E(1) ab by (simp add: fs_ok_def)
  have rf: "refcount s' = (\<lambda>_. 0)" using E(3) V(3) S(3) L(3) 2(5) b(3) em(2) by simp
  have bt: "bm_bit s' = bm_bit s"
  proof -
    have "bm_bit s1 = bm_bit s" using 1(1) by (auto simp: begin_op_def bm_bit_def fun_eq_iff split: if_splits)
    moreover have "fslog.more s' = fslog.more s5" using end_op_step[OF fs_physD(1,2,5)[OF V(1)] 6(1)] by simp
    ultimately show ?thesis using bm_bit_cong[OF bm_fields_more(2), of s' s5] v5(2) v4(2) v3(2) 2(9) by simp
  qed
  have vw: "view s' c = view s c" if c: "data_block s c" "c \<noteq> IBLOCK ?k s" for c
  proof -
    have "IBLOCK ?k s3 = IBLOCK ?k s" using geo_sb(1)[OF ge(3)] by (simp add: IBLOCK_def)
    then have v: "view s5 c = view s1 c" using v5(1) v4(1)[of c] v3(1) 2(10)[of c] io1(2) c(2) by simp
    have v1: "view s1 = view s" using begin_op_ok[OF 1(1) fs_physD(1)[OF ok]] by simp
    have "data_block s5 c" using geo_sb(3)[OF ge(2)] c(1) by simp
    then have "view s' c = view s5 c" using end_op_step[OF fs_physD(1,2,5)[OF V(1)] 6(1)] by simp
    then show ?thesis using v v1 by simp
  qed
  show ?thesis by (rule that[OF run fo ab rf 6(2) qu ge(1) bt vw])
qed

section \<open>A formatted device\<close>

text \<open>The blocks between the metadata and the end of the device can be used.\<close>

lemma layout_usable:
  fixes s :: "'a bmap_scheme"
  assumes gs: "good_size n" and geo: "sb_geo sb N s" "fs_sb s = sb" "unat n \<le> N" and sb: "sb = init_super_block n"
    and k: "unat (bm_n s) = (unat n + BPB - 1) div BPB"
  shows "nmeta n \<le> unat b \<Longrightarrow> unat b < unat n \<Longrightarrow> usable s b"
    "unat (sb_inodestart sb) \<le> unat b \<Longrightarrow> unat b < unat (sb_bmapstart sb) \<Longrightarrow> usable s b" "usable s 1"
proof -
  note L = nmeta_sb[OF gs, folded sb] and lt = good_size_int(1)[OF gs]
  have nn: "nmeta n < unat n" using gs by (simp add: good_size_def)
  have at: "unat (bm_block s i) = unat (sb_bmapstart sb) + i" if "i < unat (bm_n s)" for i
    using bm_at_layout(1)[OF gs geo(1)[unfolded sb] geo(3), of i] that k geo(2) by (simp add: sb[symmetric] bm_at_block[symmetric])
  have u: "usable s b" if "b \<noteq> 0" "unat b < N" "unat b < unat (sb_logstart sb) \<or> unat (sb_inodestart sb) \<le> unat b"
      "unat b < unat (sb_bmapstart sb) \<or> nmeta n \<le> unat b" for b
  proof -
    have "b \<noteq> bm_block s i" if "i < unat (bm_n s)" for i
      using at[OF that] that \<open>_ \<or> nmeta n \<le> unat b\<close> L(2) k by auto
    then show ?thesis using that unfolding usable_def sb_geo_data[OF geo(1)] L(4) by auto
  qed
  show "usable s b" if "nmeta n \<le> unat b" "unat b < unat n"
    by (rule u) (use that L(2,5) geo(3) in \<open>auto simp: nmeta_def\<close>)
  show "usable s b" if "unat (sb_inodestart sb) \<le> unat b" "unat b < unat (sb_bmapstart sb)"
    by (rule u) (use that L(2-5) geo(3) nn in auto)
  show "usable s 1" by (rule u) (use L(2-5,9) geo(3) nn in auto)
qed

lemma formatted_bitmap:
  fixes s :: "'a bmap_scheme"
  assumes gs: "good_size n" and geo: "sb_geo sb N s" "fs_sb s = sb" "unat n \<le> N" and sb: "sb = init_super_block n"
    and k: "unat (bm_n s) = (unat n + BPB - 1) div BPB" "bm_sync s" "bm_counts s" "bm_ffc s = 0"
    and bits: "\<forall>b<unat (bm_n s) * BPB. bm_bit s b \<longleftrightarrow> b < nmeta n \<or> unat n \<le> b"
  shows "bm_inv s" "bm_ready s" "card (free_blocks s) = unat n - nmeta n"
proof -
  note bits = bits[rule_format]
  have lt: "unat n < 2 ^ 31" "nmeta n < unat n" "nmeta n < BPB" using good_size_int(1)[OF gs] gs by (simp_all add: good_size_def)
  have u: "unat (word_of_nat b :: uint) = b" if "b < unat n" for b
    using that lt(1) by (simp add: unsigned_of_nat take_bit_nat_eq_self)
  have le: "unat n \<le> unat (bm_n s) * BPB" unfolding k(1) using lt(2) by (simp add: BPB_def BSIZE_def)
  show "bm_inv s"
    unfolding bm_inv_def
  proof (intro conjI k(2,3) allI impI)
    fix b assume b: "b < unat (bm_n s) * BPB" "\<not> bm_bit s b"
    then have "nmeta n \<le> b" "b < unat n" using bits[OF b(1)] by auto
    then show "usable s (word_of_nat b)" by (intro layout_usable(1)[OF gs geo sb k(1)]) (simp_all add: u)
  qed
  have fr: "free_blocks s = word_of_nat ` {nmeta n..<unat n}"
  proof (intro set_eqI iffI)
    fix b :: uint assume b: "b \<in> free_blocks s"
    then have "nmeta n \<le> unat b" "unat b < unat n" using bits[of "unat b"] by (auto simp: free_blocks_def)
    then show "b \<in> word_of_nat ` {nmeta n..<unat n}" by (intro image_eqI[of _ _ "unat b"]) simp_all
  next
    fix b :: uint assume "b \<in> word_of_nat ` {nmeta n..<unat n}"
    then obtain i where i: "b = word_of_nat i" "nmeta n \<le> i" "i < unat n" by auto
    then show "b \<in> free_blocks s" using u[OF i(3)] le bits[of i] by (simp add: free_blocks_def)
  qed
  have "inj_on (word_of_nat :: nat \<Rightarrow> uint) {nmeta n..<unat n}" by (rule inj_onI) (metis atLeastLessThan_iff u)
  then show "card (free_blocks s) = unat n - nmeta n" unfolding fr by (simp add: card_image)
  have k0: "0 < unat (bm_n s)" using le lt(2) by (cases "unat (bm_n s)") simp_all
  have mem: "word_of_nat (nmeta n) \<in> free_blocks s" unfolding fr using lt(2) by simp
  have "bm_first s 0 \<noteq> -1"
    using group_has_free[OF k(3) _ k0] k(2) mem u[OF lt(2)] lt(3) unfolding bm_sync_def by (metis div_less)
  then show "bm_ready s" using k0 k(4) by (simp add: bm_ready_def)
qed

lemma formatted_fs:
  fixes s :: "'a itable_scheme"
  assumes gs: "good_size n" and r: "at_rest s" and geo: "sb_geo sb N s" "fs_sb s = sb" "unat n \<le> N" and sb: "sb = init_super_block n"
    and k: "unat (bm_n s) = (unat n + BPB - 1) div BPB" "bm_inv s" "bm_ready s"
    and bits: "\<forall>b<unat (bm_n s) * BPB. bm_bit s b \<longleftrightarrow> b < nmeta n \<or> unat n \<le> b"
    and tab: "\<forall>i<it_n s. it_inode s i = static_inode" "0 < it_n s"
    and z: "\<forall>b. unat (sb_inodestart sb) \<le> unat b \<and> unat b < unat (sb_bmapstart sb) \<longrightarrow> view s b = zero_block"
  shows "fs_phys s" "abs_fs s = Map.empty" "refcount s = (\<lambda>_. 0)" "locks_in {} s" "inum_ok s ROOTINO"
proof -
  note L = nmeta_sb[OF gs, folded sb] and bits = bits[rule_format]
  have sz: "1040 \<le> unat n" "nmeta n < unat n" using gs by (simp_all add: good_size_def)
  have ib: "unat (sb_inodestart sb) \<le> unat (IBLOCK j s)" "unat (IBLOCK j s) < unat (sb_bmapstart sb)" if "inum_ok s j" for j
    using layout_iblock[OF sz(1), of s j] geo(2) that by (simp_all add: sb inum_ok_def word_less_nat_alt)
  have le: "unat n \<le> unat (bm_n s) * BPB" unfolding k(1) using sz(1) by (simp add: BPB_def BSIZE_def)
  show ab: "abs_fs s = Map.empty" by (rule blank_fs) (use z ib in blast)
  have "super_ok s"
  proof (rule super_okI)
    show "usable s SUPERBLOCK_ID" using layout_usable(3)[OF gs geo sb k(1)] by (simp add: SUPERBLOCK_ID_def)
    show "bm_bit s (unat SUPERBLOCK_ID)" using bits[of 1] le sz(1) by (simp add: SUPERBLOCK_ID_def nmeta_def)
    show "IBLOCK j s \<noteq> SUPERBLOCK_ID" if "inum_ok s j" for j
      using ib(1)[OF that] L(3,4,6) by (auto simp: SUPERBLOCK_ID_def NLOG_def MAXOPBLOCKS_def)
  qed (simp add: ab)
  then have "fs_disk s"
  proof (intro fs_diskI)
    fix j assume j: "inum_ok s j"
    show "usable s (IBLOCK j s)" by (rule layout_usable(2)[OF gs geo sb k(1) ib[OF j]])
    show "bm_bit s (unat (IBLOCK j s))" using bits[of "unat (IBLOCK j s)"] ib(2)[OF j] L(2) le sz(2) by simp
  qed (simp_all add: ab)
  then show "fs_phys s"
    using at_restD[OF r] k fresh_table[OF tab] by (simp add: fs_phys_def fs_base_def)
  show "refcount s = (\<lambda>_. 0)" "locks_in {} s" by (rule empty_table[OF tab])+
  have "1 < unat (sb_ninodes sb)" using layout_nat(6)[OF sz(1)] by (simp add: sb IPB_def)
  then show "inum_ok s ROOTINO" by (simp add: inum_ok_def geo(2) ROOTINO_def)
qed

lemma device_more:
  assumes "device.more t = device.more s"
  shows "bc_buf t = bc_buf s" "lg_outstanding t = lg_outstanding s" "lg_committing t = lg_committing s" "fslog.more t = fslog.more s"
  using assms by (cases s; cases t; simp)+

text \<open>
  What mounting relies on, beside the files: the super block is on its block and describes the log and
  the bitmap, which covers the device and has a free block in its first group.
\<close>

definition mountable :: "'a itable_scheme \<Rightarrow> bool" where
  "mountable s \<longleftrightarrow> at_rest s \<and> data_block s SUPERBLOCK_ID \<and> get_superblock (dev_data s SUPERBLOCK_ID) = fs_sb s \<and>
    sb_magic (fs_sb s) = FSMAGIC \<and> sb_geo (fs_sb s) (dev_nblk s) s \<and>
    unat (bm_n s) = (unat (sb_size (fs_sb s)) + BPB - 1) div BPB \<and> dev_nblk s \<le> unat (bm_n s) * BPB \<and> (\<exists>b\<in>free_blocks s. unat b < BPB)"

definition mkfs_result :: "uint \<Rightarrow> 'a itable_scheme \<Rightarrow> bool" where
  "mkfs_result n s' \<longleftrightarrow> fs_ok s' \<and> abs_fs s' = [ROOTINO \<mapsto> new_dir 0] \<and> refcount s' = (\<lambda>_. 0) \<and> locks_in {} s' \<and>
    quiet (unat n - nmeta n) s' \<and> mountable s' \<and> fs_sb s' = init_super_block n \<and> free_blocks s' = {b. nmeta n \<le> unat b \<and> unat b < unat n}"

lemma mkfs_ok:
  fixes s :: "'a itable_scheme"
  assumes gs: "good_size n" "n = sectors div sector_per_block" and fd: "0 \<le> fd" and fresh: "fresh_log s"
    and size: "dev_nblk s = unat n"
  obtains s' where "mkfs sectors fd s = Inr (0, s')" "mkfs_result n s'"
proof -
  have dev: "unat n \<le> dev_nblk s" "dev_nblk s < 2 ^ 32" using size good_size_int(1)[OF gs(1)] by simp_all
  define sb where "sb = init_super_block n"
  note L = nmeta_sb[OF gs(1), folded sb_def]
  have sz: "1040 \<le> unat n" "nmeta n < unat n" "\<not> n \<le> 100" using gs(1) by (simp_all add: good_size_def word_le_nat_alt)
  let ?s = "s\<lparr>disk_lock := False, fs_sb := sb\<rparr>"
  have d0: "unat n \<le> dev_nblk ?s" "\<not> disk_lock ?s" using dev by simp_all
  obtain t where t: "write_meta sb ?s = Inr ((), t)" "\<not> disk_lock t" "dev_nblk t = dev_nblk ?s" "device.more t = device.more ?s"
    "\<And>b. dev_data t b = (if b = 1 then put_superblock zero_block sb else if unat b < nmeta n then zero_block else dev_data ?s b)"
    using write_meta_ok[OF sz(1) d0] L(1) unfolding sb_def by metis
  note tm = device_more[OF t(4)]
  have ft: "fresh_log t" using fresh t(2) tm by (simp add: fresh_log_def fresh_cache_def)
  have lg: "sb_log_ok sb (dev_nblk t)" using L dev sz(2) t(3) by (simp add: sb_log_ok_def NLOG_def MAXOPBLOCKS_def)
  have n2: "2 < nmeta n" by (simp add: nmeta_def)
  have hd: "header_n (dev_data t (sb_logstart sb)) = 0" using L(9) n2 by (simp add: t(5) header_n_def)
  have nt: "dev_nblk t = dev_nblk s" using t(3) by simp
  have bm: "\<forall>i<(unat (sb_size sb) + BPB - 1) div BPB. data_block u (bm_at sb i)" if "sb_geo sb (dev_nblk t) u" for u :: "'a itable_scheme"
    using bm_at_layout(2)[OF gs(1) that[unfolded sb_def]] dev nt L(7) by (simp add: sb_def)
  obtain s1 s2 where 2: "log_init sb (bcache_init t) = Inr ((), s1)" "inode_init sb s1 = Inr (0, s2)" "at_rest s2" "sb_geo sb (dev_nblk t) s2"
    "unat (bm_n s2) = (unat (sb_size sb) + BPB - 1) div BPB" "\<forall>i<unat (bm_n s2). group_ok sb s2 i" "bm_ffc s2 = 0" "fs_sb s2 = fs_sb t"
    "it_n s2 = NINODE_INIT" "\<forall>i<NINODE_INIT. it_inode s2 i = static_inode" "itable.more s2 = itable.more t"
    "\<And>b. data_block s2 b \<Longrightarrow> view s2 b = dev_data t b"
    by (rule boot_ok[OF ft lg hd], rule bm, assumption) (rule that)
  have sb2: "fs_sb s2 = sb" using 2(8) tm(4) bm_fields_more(1)[of t ?s] by simp
  have g2: "sb_geo sb (dev_nblk s) s2" using 2(4) nt by simp
  obtain s3 s4 s5 s6 where 3: "zero_bitmap sb s2 = Inr ((), s3)" "block_allocator_refresh sb s3 = Inr ((), s4)"
    "init_meta_blocks_bmap s4 = Inr ((), s5)" "block_allocator_refresh sb s5 = Inr ((), s6)"
    "at_rest s6" "sb_geo sb (dev_nblk s) s6" "fs_sb s6 = sb" "unat (bm_n s6) = (unat n + BPB - 1) div BPB" "bm_sync s6" "bm_counts s6"
    "bm_ffc s6 = bm_ffc s2" "bmap.more s6 = bmap.more s2"
    "\<forall>b<unat (bm_n s6) * BPB. bm_bit s6 b \<longleftrightarrow> b < nmeta n \<or> unat n \<le> b" "\<And>e. usable s6 e \<Longrightarrow> view s6 e = view s2 e"
    by (rule init_bitmap[OF gs(1) 2(3) g2 sb2 dev(1) sb_def]) (rule that)
  have ffc: "bm_ffc s6 = 0" using 3(11) 2(7) by simp
  note B = formatted_bitmap[OF gs(1) 3(6,7) dev(1) sb_def 3(8-10) ffc 3(13)]
  note U = layout_usable[OF gs(1) 3(6,7) dev(1) sb_def 3(8)]
  have d1: "data_block s6 1" using U(3) by (simp add: usable_def)
  have lg6: "2 \<le> lg_size s6" using 3(6) L(6) unfolding sb_geo_def uint_nat[of "sb_nlog sb"] by (simp only: L(6)) (simp add: NLOG_def MAXOPBLOCKS_def)
  obtain s7 where 4: "chain (begin_op s6) (\<lambda>(_, s). chain (logged_read 1 s) (\<lambda>(h, s).
      chain (logged_write h (set_data h (put_superblock (buf_data s h) sb) s)) (\<lambda>(_, s). end_op (logged_relse h s)))) = Inr ((), s7)"
    "at_rest s7" "log_frame s7 = log_frame s6" "\<And>e. data_block s6 e \<Longrightarrow> view s7 e = (if e = 1 then put_superblock (view s6 1) sb else view s6 e)"
    by (rule write_one[OF 3(5) d1 lg6, of "\<lambda>d. put_superblock d sb"]) (rule that)
  note f4 = bm_fields_more[OF log_frame_fslog_more[OF 4(3)]]
  have bs: "view s7 (bm_block s6 i) = view s6 (bm_block s6 i)" if "i < unat (bm_n s6)" for i
    using 4(4)[of "bm_block s6 i"] 3(9) U(3) that by (auto simp: bm_sync_def usable_def)
  note same = bm_same[OF 4(3) bs]
  have g7: "sb_geo sb (dev_nblk s) s7" "fs_sb s7 = sb" using 3(6,7) 4(3) f4 by (simp_all add: sb_geo_def log_frame_def)
  have k7: "unat (bm_n s7) = (unat n + BPB - 1) div BPB" "bm_inv s7" "bm_ready s7" using 3(8) f4 same B by simp_all
  have it7: "it_n s7 = NINODE_INIT" "it_inode s7 = it_inode s2" using it_fields_more[OF f4(7)] it_fields_more[OF 3(12)] 2(9) by simp_all
  have tab: "\<forall>i<it_n s7. it_inode s7 i = static_inode" "0 < it_n s7" using it7 2(10) by (simp_all add: NINODE_INIT_def)
  have z: "view s7 b = zero_block" if b: "unat (sb_inodestart sb) \<le> unat b" "unat b < unat (sb_bmapstart sb)" for b
  proof -
    have u: "usable s6 b" by (rule U(2)[OF b])
    have b1: "b \<noteq> 1" "unat b < nmeta n" using b L(2,3,4,6) by (auto simp: NLOG_def MAXOPBLOCKS_def)
    have d6: "data_block s6 b" using u by (simp add: usable_def)
    then have "data_block s2 b" using sb_geo_data[OF 3(6)] sb_geo_data[OF g2] by simp
    then show ?thesis using 4(4)[OF d6] 3(14)[OF u] 2(12) t(5)[of b] b1 by simp
  qed
  have bits7: "\<forall>b<unat (bm_n s7) * BPB. bm_bit s7 b \<longleftrightarrow> b < nmeta n \<or> unat n \<le> b"
    using 3(13) f4 same(3) by simp
  have z7: "\<forall>b. unat (sb_inodestart sb) \<le> unat b \<and> unat b < unat (sb_bmapstart sb) \<longrightarrow> view s7 b = zero_block" using z by blast
  note F = formatted_fs[OF gs(1) 4(2) g7 dev(1) sb_def k7 bits7 tab z7]
  have free: "card (free_blocks s7) = unat n - nmeta n" using B(3) f4 same(3) by (simp add: free_blocks_def)
  have room: "op_room 2 (unat n - nmeta n) s7"
    using at_restD[OF 4(2)] g7(1) free L(6) unfolding sb_geo_def uint_nat[of "sb_nlog sb"]
    by (simp only: L(6)) (simp add: op_room_def NLOG_def MAXOPBLOCKS_def)
  obtain s' where 5: "add_rootinode s7 = Inr ((), s')" "fs_ok s'" "abs_fs s' = [ROOTINO \<mapsto> new_dir 0]" "refcount s' = (\<lambda>_. 0)"
    "locks_in {} s'" "quiet (unat n - nmeta n) s'" "geo s' = geo s7" "bm_bit s' = bm_bit s7" "\<And>b. data_block s7 b \<Longrightarrow> b \<noteq> IBLOCK ROOTINO s7 \<Longrightarrow> view s' b = view s7 b"
    by (rule add_root[OF F(1-3,5,4) room at_restD(4)[OF 4(2)]]) (rule that)
  have rest: "at_rest s'" using 5(2,6) by (simp add: at_rest_def fs_ok_def fs_phys_def fs_base_def quiet_def)
  have g': "sb_geo sb (dev_nblk s) s'" "fs_sb s' = sb" "bm_n s' = bm_n s7" "dev_nblk s' = dev_nblk s" using 5(7) g7 by (simp_all add: geo_def sb_geo_def)
  have "unat (sb_inodestart sb) \<le> unat (IBLOCK ROOTINO s7)" using layout_iblock(1)[OF sz(1), of s7 ROOTINO] g7(2) F(5) by (simp add: sb_def inum_ok_def word_less_nat_alt)
  then have i1: "1 \<noteq> IBLOCK ROOTINO s7" using L(3,4,6) by (auto simp: NLOG_def MAXOPBLOCKS_def)
  have d7: "data_block s7 1" using d1 sb_geo_data[OF 3(6)] sb_geo_data[OF g7(1)] by simp
  have "dev_data s' 1 = put_superblock (view s6 1) sb"
    using rest_device[OF rest, of 1] 5(9)[OF d7 i1] 4(4)[OF d1] by simp
  then have sup: "get_superblock (dev_data s' SUPERBLOCK_ID) = sb" by (simp add: SUPERBLOCK_ID_def get_put_superblock)
  have k': "unat (bm_n s') = (unat n + BPB - 1) div BPB" using k7(1) g'(3) by simp
  have cov: "unat n \<le> unat (bm_n s') * BPB" unfolding k' using sz(1) by (simp add: BPB_def BSIZE_def)
  have un: "unat (word_of_nat (nmeta n) :: uint) = nmeta n" using sz(2) good_size_int(1)[OF gs(1)] by (simp add: unsigned_of_nat take_bit_nat_eq_self)
  have "word_of_nat (nmeta n) \<in> free_blocks s'" using cov sz(2) bits7[rule_format, of "nmeta n"] un 5(8) g'(3) by (simp add: free_blocks_def)
  then have first: "\<exists>b\<in>free_blocks s'. unat b < BPB" using un gs(1) by (intro bexI[of _ "word_of_nat (nmeta n)"]) (simp_all add: good_size_def)
  have ds: "data_block s' SUPERBLOCK_ID" using d7 geo_sb(3)[OF 5(7)] by (simp add: SUPERBLOCK_ID_def)
  have "mountable s'"
    unfolding mountable_def using rest ds sup g' L(7,8) k' cov size first by simp
  moreover have "free_blocks s' = {b. nmeta n \<le> unat b \<and> unat b < unat n}"
    using bits7 cov 5(8) g'(3) by (auto simp: free_blocks_def)
  ultimately have "mkfs_result n s'" using 5 g' by (simp add: mkfs_result_def sb_def[symmetric])
  moreover have "mkfs sectors fd s = Inr (0, s')"
  proof -
    obtain a h b c where w: "begin_op s6 = Inr ((), a)" "logged_read 1 a = Inr (h, b)" "logged_write h (set_data h (put_superblock (buf_data b h) sb) b) = Inr ((), c)"
      "end_op (logged_relse h c) = Inr ((), s7)" using 4(1) by (auto simp: chain_eq_Inr)
    show ?thesis
      using sz(3) fd t(1) 2(1,2) 3(1-4) w 5(1)
      by (simp add: mkfs_def gs(2)[symmetric] block_device_init_def Let_def sb_def[symmetric])
  qed
  ultimately show ?thesis by (rule that[rotated])
qed

section \<open>Mounting\<close>

lemma get_superblock_cong: "(\<And>i. i < 32 \<Longrightarrow> d i = e i) \<Longrightarrow> get_superblock d = get_superblock e"
  by (simp add: get_superblock_def) (intro conjI get_le_cong; simp)

lemma read_superblock:
  fixes s :: "'a device_scheme"
  assumes "\<not> disk_lock s" "1 < dev_nblk s"
  obtains d where "read_block_raw_nbytes SUPERBLOCK_ID zero_block (word_of_nat superblock_bytes) s = Inr ((int superblock_bytes, d), s)"
    "get_superblock d = get_superblock (dev_data s SUPERBLOCK_ID)"
proof -
  let ?r = "\<lambda>i. if i < 32 then dev_data s SUPERBLOCK_ID i else zero_block i"
  have "read_block_raw_nbytes SUPERBLOCK_ID zero_block (word_of_nat superblock_bytes) s = Inr ((int superblock_bytes, ?r), s)"
    using assms by (simp add: read_block_raw_nbytes_def lock_disk_def unlock_disk_def os_lseek_ok_def os_read_def
        SUPERBLOCK_ID_def superblock_bytes_def BSIZE_def Let_def cong: if_cong)
  moreover have "get_superblock ?r = get_superblock (dev_data s SUPERBLOCK_ID)" by (rule get_superblock_cong) simp
  ultimately show ?thesis by (rule that)
qed

lemma mountable_log:
  assumes "mountable s"
  shows "sb_log_ok (fs_sb s) (dev_nblk s)" "header_n (dev_data s (sb_logstart (fs_sb s))) = 0"
    "i < (unat (sb_size (fs_sb s)) + BPB - 1) div BPB \<Longrightarrow> bm_sync s \<Longrightarrow> data_block s (bm_at (fs_sb s) i)"
proof -
  have r: "log_ready {} s" and g: "sb_geo (fs_sb s) (dev_nblk s) s" using assms at_restD(1) by (auto simp: mountable_def)
  have "geom s" by (rule log_readyD(3)[OF r])
  moreover have "1 \<le> uint (sb_nlog (fs_sb s)) \<Longrightarrow> 1 \<le> unat (sb_nlog (fs_sb s))" "uint (sb_nlog (fs_sb s)) \<le> int NLOG \<Longrightarrow> unat (sb_nlog (fs_sb s)) \<le> NLOG"
    unfolding uint_nat by linarith+
  ultimately show "sb_log_ok (fs_sb s) (dev_nblk s)" using g by (simp add: geom_def sb_geo_def sb_log_ok_def)
  show "header_n (dev_data s (sb_logstart (fs_sb s))) = 0" using r g by (simp add: log_ready_def sb_geo_def)
  show "data_block s (bm_at (fs_sb s) i)" if "i < (unat (sb_size (fs_sb s)) + BPB - 1) div BPB" "bm_sync s"
    using that assms by (simp add: mountable_def bm_sync_def bm_at_block)
qed

text \<open>
  A machine that is switched off while the file system is at rest and comes up again: the process
  starts with its memory fresh and the device as it was.
\<close>

definition same_device_as :: "'a itable_scheme \<Rightarrow> 'b itable_scheme \<Rightarrow> bool" where
  "same_device_as s t \<longleftrightarrow> fresh_log t \<and> dev_data t = dev_data s \<and> dev_nblk t = dev_nblk s"

definition mounted :: "'a itable_scheme \<Rightarrow> 'b itable_scheme \<Rightarrow> bool" where
  "mounted s t \<longleftrightarrow> fs_ok t \<and> abs_fs t = abs_fs s \<and> refcount t = (\<lambda>_. 0) \<and> locks_in {} t \<and> quiet (card (free_blocks s)) t \<and>
    mountable t \<and> fs_sb t = fs_sb s \<and> dev_nblk t = dev_nblk s \<and>
    (\<forall>b<unat (bm_n s) * BPB. bm_bit t b = bm_bit s b) \<and> (\<forall>k\<in>dom (abs_fs s). blocks_at t k = blocks_at s k)"

lemma mount_boot:
  fixes s :: "'a itable_scheme" and t :: "'b ftab_scheme"
  assumes fs: "fs_ok s" "mountable s" and t: "same_device_as s t"
  obtains s1 s2 where "log_init (fs_sb s) (bcache_init t) = Inr ((), s1)" "inode_init (fs_sb s) s1 = Inr (0, s2)" "fs_sb s2 = fs_sb t"
    "mounted s ((file_init s2)\<lparr>fs_sb := fs_sb s\<rparr>)"
proof -
  define sb where "sb = fs_sb s"
  have ph: "fs_phys s" "names_ok (abs_fs s)" using fs(1) by (simp_all add: fs_ok_def)
  note d = fs_physD[OF ph(1)]
  have sync: "bm_sync s" using d(3) by (simp add: bm_inv_def)
  have m: "at_rest s" "data_block s SUPERBLOCK_ID" "get_superblock (dev_data s SUPERBLOCK_ID) = sb" "sb_magic sb = FSMAGIC"
    "sb_geo sb (dev_nblk s) s" "unat (bm_n s) = (unat (sb_size sb) + BPB - 1) div BPB" "dev_nblk s \<le> unat (bm_n s) * BPB"
    "\<exists>b\<in>free_blocks s. unat b < BPB"
    using fs(2) by (auto simp: mountable_def sb_def)
  have dt: "dev_data t = dev_data s" "dev_nblk t = dev_nblk s" "fresh_log t" using t by (simp_all add: same_device_as_def)
  note MG = mountable_log[OF fs(2), folded sb_def]
  have lg: "sb_log_ok sb (dev_nblk t)" and hd: "header_n (dev_data t (sb_logstart sb)) = 0" using MG dt by simp_all
  have at: "data_block u (bm_at sb i)" if "sb_geo sb (dev_nblk t) u" "i < (unat (sb_size sb) + BPB - 1) div BPB" for u :: "'b ftab_scheme" and i
    using MG(3)[OF that(2) sync] that(1) dt(2) sb_geo_data[OF m(5)] sb_geo_data[of sb "dev_nblk s" u] by simp
  obtain s1 s2 where 2: "log_init sb (bcache_init t) = Inr ((), s1)" "inode_init sb s1 = Inr (0, s2)" "at_rest s2" "sb_geo sb (dev_nblk t) s2"
    "unat (bm_n s2) = (unat (sb_size sb) + BPB - 1) div BPB" "\<forall>i<unat (bm_n s2). group_ok sb s2 i" "bm_ffc s2 = 0" "fs_sb s2 = fs_sb t"
    "it_n s2 = NINODE_INIT" "\<forall>i<NINODE_INIT. it_inode s2 i = static_inode" "itable.more s2 = itable.more t"
    "\<And>b. data_block s2 b \<Longrightarrow> view s2 b = dev_data t b"
    by (rule boot_ok[OF dt(3) lg hd], intro allI impI, rule at, assumption, assumption) (rule that)
  define t' where "t' = (file_init s2)\<lparr>fs_sb := sb\<rparr>"
  have f: "fs_sb t' = sb" "bm_n t' = bm_n s2" "bm_cache t' = bm_cache s2" "bm_first t' = bm_first s2" "bm_nalloc t' = bm_nalloc s2" "bm_ffc t' = 0"
    "it_n t' = NINODE_INIT" "it_inode t' = it_inode s2" "lg_outstanding t' = lg_outstanding s2" "lg_committing t' = lg_committing s2" "lh_n t' = lh_n s2"
    "dev_nblk t' = dev_nblk s2" "lg_start t' = lg_start s2" "lg_size t' = lg_size s2" "dev_data t' = dev_data s2"
    using 2(7,9) by (simp_all add: t'_def file_init_def)
  have same: "log_ready X t' = log_ready X s2" "data_block t' b = data_block s2 b" "view t' = view s2" "held t' = held s2" for X b
    unfolding t'_def file_init_def by (rule log_base_cong; simp)+
  have geo: "sb_geo sb (dev_nblk s) t'" "dev_nblk t' = dev_nblk s" using 2(4) f dt by (simp_all add: sb_geo_def)
  have db: "data_block t' = data_block s" using sb_geo_data[OF geo(1)] sb_geo_data[OF m(5)] by (simp add: fun_eq_iff)
  have rest: "at_rest t'" using 2(3) by (simp add: at_rest_def same f)
  have vw: "view t' b = view s b" if "data_block s b" for b
    using 2(12)[of b] rest_device[OF m(1), of b] that db same(2)[of b] data_block_inrange[OF that] by (simp add: same dt)
  have n: "bm_n t' = bm_n s" using 2(5) m(6) f(2) by (simp add: word_unat_eq_iff)
  have bb: "bm_block t' = bm_block s" using f(1) by (simp add: fun_eq_iff bm_block_def sb_def)
  have us: "usable t' = usable s" by (simp add: fun_eq_iff usable_def db bb n)
  have n17: "unat (bm_n t') \<le> 131072" using sync by (simp add: n bm_sync_def)
  have grp: "group_ok (fs_sb t') t' i" if "i < unat (bm_n t')" for i
    using 2(6) that f(1-5) same(3) by (simp add: group_ok_def group_used_def bm_bit_def)
  have "bm_sync t' \<and> bm_counts t'" unfolding group_ok_bm using n17 grp sync by (simp add: n db bb bm_sync_def)
  then have bm: "bm_sync t'" "bm_counts t'" by simp_all
  have bits: "bm_bit t' b = bm_bit s b" if "b < unat (bm_n s) * BPB" for b
  proof -
    have "data_block s (bm_block s (b div BPB))" using sync that by (simp add: bm_sync_def less_mult_imp_div_less)
    then show ?thesis using sync_bit[OF bm(1), of b] sync_bit[OF sync that] that vw by (simp add: n bb)
  qed
  have inv: "bm_inv t'" using bm d(3) bits by (simp add: bm_inv_def n us)
  have fr: "free_blocks t' = free_blocks s" using bits by (auto simp: free_blocks_def n)
  have k0: "0 < unat (bm_n t')" using m(7) data_block_inrange[OF m(2)] by (cases "unat (bm_n s)") (simp_all add: n)
  have "bm_first t' 0 \<noteq> -1" using group_has_free[OF bm(2) n17 k0] m(8) unfolding fr by (metis div_less)
  then have rdy: "bm_ready t'" using k0 f(6) by (simp add: bm_ready_def)
  have tab: "\<forall>i<it_n t'. it_inode t' i = static_inode" "0 < it_n t'" using 2(10) f(7,8) by (simp_all add: NINODE_INIT_def)
  note T = empty_table[OF tab]
  have sbt: "fs_sb t' = fs_sb s" using f(1) by (simp add: sb_def)
  have vu: "view t' b = view s b" if "usable s b" for b using vw that by (simp add: usable_def)
  have bu: "bm_bit t' (unat b)" if "usable s b" "bm_bit s (unat b)" for b
    using that bits[of "unat b"] m(7) data_block_inrange[of s b] by (simp add: usable_def)
  note S = same_device[OF ph(1) vu us bu sbt]
  have "fs_phys t'" using S(5) at_restD[OF rest] inv rdy fresh_table[OF tab] by (simp add: fs_phys_def fs_base_def)
  then have "fs_ok t'" using ph(2) S(4) by (simp add: fs_ok_def)
  moreover have "quiet (card (free_blocks s)) t'" using at_restD[OF rest] fr by (simp add: quiet_def)
  moreover have "mountable t'"
  proof -
    have "SUPERBLOCK_ID \<noteq> 0" by (simp add: SUPERBLOCK_ID_def)
    then have "dev_data t' SUPERBLOCK_ID = dev_data s SUPERBLOCK_ID" using rest_device[OF rest] rest_device[OF m(1)] vw[OF m(2)] by simp
    then show ?thesis unfolding mountable_def using rest m geo fr sbt by (simp add: db n sb_def)
  qed
  moreover have "\<forall>k\<in>dom (abs_fs s). blocks_at t' k = blocks_at s k" using S(6) by blast
  ultimately have "mounted s t'" using S(4) T sbt geo(2) bits by (simp add: mounted_def)
  then have "mounted s ((file_init s2)\<lparr>fs_sb := fs_sb s\<rparr>)" by (simp add: t'_def sb_def)
  then show ?thesis by (rule that[OF 2(1,2,8)[unfolded sb_def]])
qed

lemma start_reads:
  fixes s :: "'a itable_scheme" and t :: "'b ftab_scheme"
  assumes m: "mountable s" and t: "same_device_as s t"
  obtains e where "read_block_raw_nbytes SUPERBLOCK_ID zero_block (word_of_nat superblock_bytes) (t\<lparr>disk_lock := False\<rparr>) =
      Inr ((int superblock_bytes, e), t\<lparr>disk_lock := False\<rparr>)" "get_superblock e = fs_sb s" "sb_magic (fs_sb s) = FSMAGIC"
    "\<And>sb. same_device_as s (t\<lparr>disk_lock := False, fs_sb := sb\<rparr>)" "same_device_as s (t\<lparr>disk_lock := False\<rparr>)"
proof -
  let ?t = "t\<lparr>disk_lock := False\<rparr>"
  have m: "data_block s SUPERBLOCK_ID" "get_superblock (dev_data s SUPERBLOCK_ID) = fs_sb s" "sb_magic (fs_sb s) = FSMAGIC"
    using m by (simp_all add: mountable_def)
  have sd: "same_device_as s (t\<lparr>disk_lock := False, fs_sb := sb\<rparr>)" "same_device_as s ?t" for sb
    using t by (simp_all add: same_device_as_def fresh_log_def fresh_cache_def)
  have dt: "dev_data ?t = dev_data s" "dev_nblk ?t = dev_nblk s" using t by (simp_all add: same_device_as_def)
  have n1: "1 < dev_nblk ?t" using data_block_inrange[OF m(1)] dt by (simp add: SUPERBLOCK_ID_def)
  obtain e where rd: "read_block_raw_nbytes SUPERBLOCK_ID zero_block (word_of_nat superblock_bytes) ?t = Inr ((int superblock_bytes, e), ?t)"
    "get_superblock e = get_superblock (dev_data ?t SUPERBLOCK_ID)" by (rule read_superblock[OF _ n1]) simp
  show ?thesis by (rule that[OF rd(1) _ m(3) sd]) (use rd(2) m(2) dt in simp)
qed

lemma mount_ok:
  fixes s :: "'a itable_scheme" and t :: "'b ftab_scheme"
  assumes fs: "fs_ok s" "mountable s" and t: "same_device_as s t" and fd: "0 \<le> fd"
  obtains t' where "myfuse_init fd t = Inr ((), t')" "mounted s t'"
proof -
  obtain e where e: "read_block_raw_nbytes SUPERBLOCK_ID zero_block (word_of_nat superblock_bytes) (t\<lparr>disk_lock := False\<rparr>) =
      Inr ((int superblock_bytes, e), t\<lparr>disk_lock := False\<rparr>)" "get_superblock e = fs_sb s" "sb_magic (fs_sb s) = FSMAGIC"
    and d: "\<And>sb. same_device_as s (t\<lparr>disk_lock := False, fs_sb := sb\<rparr>)" "same_device_as s (t\<lparr>disk_lock := False\<rparr>)"
    by (rule start_reads[OF fs(2) t]) (rule that)
  obtain s1 s2 where 1: "log_init (fs_sb s) (bcache_init (t\<lparr>disk_lock := False\<rparr>)) = Inr ((), s1)" "inode_init (fs_sb s) s1 = Inr (0, s2)"
    "mounted s ((file_init s2)\<lparr>fs_sb := fs_sb s\<rparr>)" by (rule mount_boot[OF fs d(2)])
  have "myfuse_init fd t = Inr ((), (file_init s2)\<lparr>fs_sb := fs_sb s\<rparr>)"
    using fd 1(1,2) by (simp add: myfuse_init_def block_device_init_def e Let_def)
  then show ?thesis by (rule that[OF _ 1(3)])
qed

text \<open>The diagnosis starts in the same way.\<close>

lemma disk_init_ok:
  fixes s :: "'a itable_scheme" and t :: "'b ftab_scheme"
  assumes fs: "fs_ok s" "mountable s" and t: "same_device_as s t" and fd: "0 \<le> fd"
  obtains t' where "disk_init fd t = Inr ((), t')" "mounted s t'"
proof -
  let ?t = "t\<lparr>disk_lock := False, fs_sb := fs_sb s\<rparr>"
  obtain e where e: "read_block_raw_nbytes SUPERBLOCK_ID zero_block (word_of_nat superblock_bytes) (t\<lparr>disk_lock := False\<rparr>) =
      Inr ((int superblock_bytes, e), t\<lparr>disk_lock := False\<rparr>)" "get_superblock e = fs_sb s" "sb_magic (fs_sb s) = FSMAGIC"
    and d: "\<And>sb. same_device_as s (t\<lparr>disk_lock := False, fs_sb := sb\<rparr>)" "same_device_as s (t\<lparr>disk_lock := False\<rparr>)"
    by (rule start_reads[OF fs(2) t]) (rule that)
  obtain s1 s2 where 1: "log_init (fs_sb s) (bcache_init ?t) = Inr ((), s1)" "inode_init (fs_sb s) s1 = Inr (0, s2)" "fs_sb s2 = fs_sb ?t"
    "mounted s ((file_init s2)\<lparr>fs_sb := fs_sb s\<rparr>)" by (rule mount_boot[OF fs d(1)])
  have "(file_init s2)\<lparr>fs_sb := fs_sb s\<rparr> = file_init s2" using 1(3) by (simp add: file_init_def)
  moreover have "disk_init fd t = Inr ((), file_init s2)"
    using fd 1(1,2) by (simp add: disk_init_def block_device_init_def e Let_def)
  ultimately show ?thesis using that[of "file_init s2"] 1(4) by simp
qed

lemma still_mountable:
  assumes ok: "fs_ok s'" and m: "mountable s" and g: "geo s' = geo s" and fl: "lg_outstanding s' = 0" "flushed s'"
    and first: "\<exists>b\<in>free_blocks s'. unat b < BPB"
  shows "mountable s'"
proof -
  have "fs_phys s'" using ok by (simp add: fs_ok_def)
  then have r: "at_rest s'" using fl by (simp add: at_rest_def fs_phys_def fs_base_def flushed_def)
  note gs = geo_sb[OF g]
  have m: "at_rest s" "data_block s SUPERBLOCK_ID" "get_superblock (dev_data s SUPERBLOCK_ID) = fs_sb s" "sb_magic (fs_sb s) = FSMAGIC"
    "sb_geo (fs_sb s) (dev_nblk s) s" "unat (bm_n s) = (unat (sb_size (fs_sb s)) + BPB - 1) div BPB" "dev_nblk s \<le> unat (bm_n s) * BPB"
    using m unfolding mountable_def by blast+
  have e: "fs_sb s' = fs_sb s" "view s' SUPERBLOCK_ID = view s SUPERBLOCK_ID" "dev_nblk s' = dev_nblk s" "lg_start s' = lg_start s" "lg_size s' = lg_size s"
    "bm_n s' = bm_n s" using g by (simp_all add: geo_def)
  have "dev_data s' SUPERBLOCK_ID = dev_data s SUPERBLOCK_ID"
    using rest_device[OF r, of SUPERBLOCK_ID] rest_device[OF m(1), of SUPERBLOCK_ID] e(2) by (simp add: SUPERBLOCK_ID_def)
  then show ?thesis unfolding mountable_def using r m e gs(3) first by (simp add: sb_geo_def)
qed

lemma first_group_free:
  assumes "mountable s" "unat (sb_size (fs_sb s)) \<le> BPB" "0 < card (free_blocks s')" "geo s' = geo s"
  shows "\<exists>b\<in>free_blocks s'. unat b < BPB"
proof -
  have "unat (bm_n s) \<le> 1"
  proof -
    have "(unat (sb_size (fs_sb s)) + BPB - 1) div BPB \<le> (2 * BPB - 1) div BPB" using assms(2) by (intro div_le_mono) simp
    also have "\<dots> = 1" by (simp add: BPB_def BSIZE_def)
    finally show ?thesis using assms(1) by (simp add: mountable_def)
  qed
  moreover have "bm_n s' = bm_n s" using assms(4) by (simp add: geo_def)
  ultimately have n: "unat (bm_n s') * BPB \<le> BPB" using mult_le_mono1[of "unat (bm_n s)" 1 BPB] by simp
  obtain b where b: "b \<in> free_blocks s'" using assms(3) by (metis card.empty equals0I less_numeral_extra(3))
  then have "unat b < unat (bm_n s') * BPB" by (simp add: free_blocks_def)
  then show ?thesis using b n by (intro bexI[of _ b]) linarith+
qed

section \<open>What the programs do to a device\<close>

text \<open>
  C10: on a device of 1041 to 1584999 blocks, about 6 GiB, the sizes for which the blocks before
  the data fit and leave a block free in the first group of the bitmap, that can be opened and
  whose number of sectors is reported right, and whatever it holds, mkfs with one argument that
  was answered yes returns 0 and leaves a file system in order that has one file, the empty root
  directory with one link under ROOTINO, with the super block of its size and exactly the blocks
  behind the metadata free, in a state that can be mounted.
\<close>

theorem mkfs_makes_file_system:
  assumes "length argv = 2" "take 3 (map tolower answer) = ''yes''" "n = sectors div sector_per_block"
    and "1041 \<le> unat n" "unat n \<le> 1584999" "dev_nblk s = unat n" "fresh_log s" "0 \<le> fd"
  shows "\<exists>s'. snd (mkfs_main argv answer sectors fd s) = Inr (0, s') \<and> fs_ok s' \<and> abs_fs s' = [ROOTINO \<mapsto> new_dir 0] \<and>
    fs_sb s' = init_super_block n \<and> free_blocks s' = {b. nmeta n \<le> unat b \<and> unat b < unat n} \<and> mountable s'"
proof -
  obtain s' where "mkfs sectors fd s = Inr (0, s')" "mkfs_result n s'"
    by (rule mkfs_ok[OF good_sizes[OF assms(4,5)] assms(3,8,7,6)]) (rule that)
  then show ?thesis by (simp add: mkfs_main_yes[OF assms(1,2)] mkfs_result_def quiet_def)
qed

text \<open>
  C11: mounting in a process with fresh memory the device of a file system in order returns, with
  the same files, no reference and at least as many free blocks, again in a state that can be
  mounted.
\<close>

theorem mount_keeps_files:
  assumes "fs_ok s" "mountable s" "same_device_as s t" "0 \<le> fd"
  shows "\<exists>t'. myfuse_init fd t = Inr ((), t') \<and> fs_ok t' \<and> abs_fs t' = abs_fs s \<and> refcount t' = (\<lambda>_. 0) \<and>
    card (free_blocks s) \<le> card (free_blocks t') \<and> mountable t'"
proof -
  obtain t' where "myfuse_init fd t = Inr ((), t')" "mounted s t'" by (rule mount_ok[OF assms]) (rule that)
  then show ?thesis by (simp add: mounted_def quiet_def)
qed

text \<open>
  C9: after any sequence of getattr, chmod and mkdir requests that returns with no operation open
  and a free block in the first group, a process that starts with fresh memory on the device
  mounts it and has exactly the files the last one had: every file from before the requests is
  there with its type and link count, no name is lost and no file that is not a directory has
  changed its bytes.
\<close>

theorem requests_survive_remount:
  assumes run: "serve_all filler reqs s = Inr (reps, s')" and ok: "fs_ok s" "refs_ok s" "mountable s"
    and reqs: "list_all adding reqs" "dirs_below (length reqs) (abs_fs s)"
    and fin: "lg_outstanding s' = 0" "\<exists>b\<in>free_blocks s'. unat b < BPB"
    and boot: "same_device_as s' t" "0 \<le> fd"
  shows "\<exists>t'. myfuse_init fd t = Inr ((), t') \<and> fs_ok t' \<and> abs_fs t' = abs_fs s' \<and> kept_files (abs_fs s) (abs_fs t')"
proof -
  have "0 \<le> lg_outstanding s \<and> flushed s" using ok(3) by (simp add: mountable_def at_rest_def flushed_def)
  then have st: "fs_ok s'" "kept_files (abs_fs s) (abs_fs s')" "geo s' = geo s" "flushed s'"
    using adding_steps[OF run ok(1,2) reqs] by simp_all
  have "mountable s'" by (rule still_mountable[OF st(1) ok(3) st(3) fin(1) st(4) fin(2)])
  then obtain t' where "myfuse_init fd t = Inr ((), t')" "mounted s' t'" by (rule mount_ok[OF st(1) _ boot]) (rule that)
  then show ?thesis using st(2) by (simp add: mounted_def)
qed

section \<open>A device of 2000 blocks\<close>

text \<open>A process that starts on a device of \<open>n\<close> blocks with the contents \<open>d\<close>.\<close>

definition power_on :: "nat \<Rightarrow> (uint \<Rightarrow> block) \<Rightarrow> ftab" where
  "power_on n d = \<lparr>dev_nblk = n, dev_data = d, dev_writes = [], disk_lock = False, clock = (\<lambda>n. \<lparr>tv_sec = word_of_nat n, tv_nsec = 0\<rparr>), ticks = 0,
    bc_buf = (\<lambda>_. static_buf), bc_hash = (\<lambda>_. []), lg_start = 0, lg_size = 0, lg_outstanding = 0, lg_committing = False, lh_n = 0,
    lh_block = (\<lambda>_. 0), n_log_wrote = 0,
    fs_sb = \<lparr>sb_magic = 0, sb_size = 0, sb_nblocks = 0, sb_ninodes = 0, sb_nlog = 0, sb_logstart = 0, sb_inodestart = 0, sb_bmapstart = 0\<rparr>,
    bm_cache = (\<lambda>_. 0), bm_first = (\<lambda>_. 0), bm_nalloc = (\<lambda>_. 0), bm_n = 0, bm_ffc = 0, it_n = 0, it_inode = (\<lambda>_. static_inode),
    ft_n = 0, ft_file = (\<lambda>_. static_file)\<rparr>"

lemma power_on: "fresh_log (power_on n d)" "dev_nblk (power_on n d) = n" "dev_data (power_on n d) = d"
  "same_device_as s (power_on (dev_nblk s) (dev_data s))"
  by (simp_all add: power_on_def fresh_log_def fresh_cache_def same_device_as_def)

lemma size_2000: "good_size 2000" "2000 = (16000 :: uint) div sector_per_block" "nmeta 2000 = 1060" "unat (2000 :: uint) = 2000"
  by (simp_all add: good_size_def nmeta_def NLOG_def MAXOPBLOCKS_def BPB_def BSIZE_def sector_per_block_def)

theorem mkfs_makes_file_system_witness:
  "\<exists>s'. snd (mkfs_main [''mkfs.myfuse'', ''/dev/sdb''] ''Yes'' 16000 3 (power_on 2000 (\<lambda>_ _. 7))) = Inr (0, s') \<and> fs_ok s' \<and>
    abs_fs s' = [ROOTINO \<mapsto> new_dir 0] \<and> free_blocks s' = {b. 1060 \<le> unat b \<and> unat b < 2000}"
proof -
  have y: "length [''mkfs.myfuse'', ''/dev/sdb''] = 2" "take 3 (map tolower ''Yes'') = ''yes''" by (simp, code_simp)
  show ?thesis
    using mkfs_makes_file_system[OF y size_2000(2) _ _ _ power_on(1)[of 2000 "\<lambda>_ _. 7"], of 3] by (auto simp: power_on(2) size_2000(3,4))
qed

lemma formatted_2000:
  obtains s :: ftab where "mkfs_result 2000 s"
  using mkfs_ok[OF size_2000(1,2) _ power_on(1)[of 2000 "\<lambda>_ _. 7"], of 3] by (auto simp: power_on(2))

theorem mount_keeps_files_witness:
  "\<exists>(s :: ftab) t'. abs_fs s = [ROOTINO \<mapsto> new_dir 0] \<and> myfuse_init 3 (power_on (dev_nblk s) (dev_data s)) = Inr ((), t') \<and> abs_fs t' = abs_fs s"
proof -
  obtain s :: ftab where s: "mkfs_result 2000 s" by (rule formatted_2000)
  then have f: "fs_ok s" "mountable s" "abs_fs s = [ROOTINO \<mapsto> new_dir 0]" by (simp_all add: mkfs_result_def)
  show ?thesis using mount_keeps_files[OF f(1,2) power_on(4), of 3] f(3) by auto
qed

lemma mkdir_2000:
  obtains s s' :: ftab where "fs_ok s" "refs_ok s" "mountable s" "abs_fs s = [ROOTINO \<mapsto> new_dir 0]" "myfuse_mkdir path_c 7 s = Inr (0, s')" 
    "lg_outstanding s' = 0" "\<exists>b\<in>free_blocks s'. unat b < BPB" "parent_room (abs_fs s) path_c" "dirs_below 1 (abs_fs s)"
proof -
  obtain s :: ftab where s: "mkfs_result 2000 s" by (rule formatted_2000)
  then have f: "fs_ok s" "mountable s" "abs_fs s = [ROOTINO \<mapsto> new_dir 0]" "refcount s = (\<lambda>_. 0)" "locks_in {} s" "quiet 940 s"
    "fs_sb s = init_super_block 2000" by (simp_all add: mkfs_result_def size_2000(3,4))
  note L = nmeta_sb[OF size_2000(1), folded f(7)]
  have rf: "refs_ok s" by (simp add: refs_ok_def f(4))
  have d: "af_type (new_dir 0) = T_DIR" "af_size (new_dir 0) = 0" "names_dir (new_dir 0) nm = None" for nm
    using empty_dir[of T_DIR] names_dir_cong[of "new_dir 0" "new_file T_DIR"] by (simp_all add: new_dir_def new_file_def)
  have sm: "small_dirs (abs_fs s)" "parent_room (abs_fs s) path_c" "dirs_below 1 (abs_fs s)"
    by (auto simp: f(3) small_dirs_def parent_room_def dirs_below_def d dirent_size_def split: if_splits)
  have wp: "walk_parent (abs_fs s) (components path_c) ROOTINO = Some ROOTINO"
    by (simp add: path_c walk_parent_def f(3) d)
  have "2 < unat (sb_ninodes (fs_sb s))" using layout_nat(6)[of 2000] by (simp add: f(7) IPB_def)
  then have fr: "free_inode s" unfolding free_inode_def by (intro exI[of _ 2]) (simp add: inum_ok_def f(3) ROOTINO_def)
  have lg: "lg_size s = int NLOG"
    using f(2) L(6) unfolding mountable_def sb_geo_def uint_nat[of "sb_nlog (fs_sb s)"] by simp
  have q: "op_room (12 * length (components path_c) + 19) (4 * length (components path_c) + (4 + 8)) s"
    by (rule quiet_room[OF quiet_mono[OF f(6)]]) (simp_all add: path_c lg NLOG_def MAXOPBLOCKS_def)
  obtain s' where m: "myfuse_mkdir path_c 7 s = Inr (0, s')" "quiet 8 s'"
    using mkdir_returns[OF f(1) rf path_c(2-4) f(5) sm(1) fr wp _ _ _ q, of "new_dir 0" 7] f(6) by (auto simp: f(3) d dirent_size_def BSIZE_def quiet_def)
  have g: "geo s' = geo s" using fs_mkdir[OF f(1) rf path_c(2) sm(2) m(1)] by blast
  have "unat (sb_size (fs_sb s)) \<le> BPB" by (simp add: L(7) BPB_def BSIZE_def)
  then have "\<exists>b\<in>free_blocks s'. unat b < BPB" by (rule first_group_free[OF f(2) _ _ g]) (use m(2) in \<open>simp add: quiet_def\<close>)
  then show ?thesis using that[of s s'] f rf sm m by (simp add: quiet_def)
qed

theorem requests_survive_remount_witness:
  "\<exists>(s :: ftab) s' t' k. abs_fs s = [ROOTINO \<mapsto> new_dir 0] \<and> myfuse_mkdir path_c 7 s = Inr (0, s') \<and>
    myfuse_init 3 (power_on (dev_nblk s') (dev_data s')) = Inr ((), t') \<and> fs_ok t' \<and> walk (abs_fs t') [[98]] ROOTINO = Some k \<and> abs_fs t' k = Some (new_dir 7)"
proof -
  obtain s s' :: ftab where s: "fs_ok s" "refs_ok s" "mountable s" "abs_fs s = [ROOTINO \<mapsto> new_dir 0]" and run: "myfuse_mkdir path_c 7 s = Inr (0, s')" 
    and r: "lg_outstanding s' = 0" "\<exists>b\<in>free_blocks s'. unat b < BPB" "parent_room (abs_fs s) path_c" "dirs_below 1 (abs_fs s)" by (rule mkdir_2000)
  have sv: "serve_all (\<lambda>b n st. (b, 0)) [Mkdir path_c 7] s = Inr ([Plain 0], s')" using run by (simp add: reply_as_def)
  have a: "list_all adding [Mkdir path_c 7]" "dirs_below (length [Mkdir path_c 7]) (abs_fs s)" using path_c(2) r(4) by (simp_all add: adding_def)
  obtain t' where "myfuse_init 3 (power_on (dev_nblk s') (dev_data s')) = Inr ((), t')" "fs_ok t'" "abs_fs t' = abs_fs s'"
    using requests_survive_remount[OF sv s(1-3) a r(1,2) power_on(4), of 3] by auto
  then show ?thesis using s(4) run mkdir_walk[OF s(1,2) path_c(2) r(3) run] unfolding path_c(1) by metis
qed

end
