(* ===== verification/Diagnosis.thy ===== *)
theory Diagnosis
  imports Format
begin

text \<open>
  The diagnosis of \<^verbatim>\<open>diagnostic/disk-diagnostic.cc\<close> on the device of a file system in order: it returns,
  and what it prints is exact.
\<close>

section \<open>The diagnosis returns\<close>

text \<open>Reading with several blocks held: the pinned blocks of the log and the held blocks leave a buffer.\<close>

definition read_room :: "nat \<Rightarrow> 'a fslog_scheme \<Rightarrow> bool" where
  "read_room d s \<longleftrightarrow> finite (dom (held s)) \<and> nat (lh_n s) + card (dom (held s)) + d \<le> NCACHE_BUF"

lemma read_room_mono: "read_room d s \<Longrightarrow> e \<le> d \<Longrightarrow> read_room e s"
  by (simp add: read_room_def)

lemma read_with_room:
  fixes s :: "'a fslog_scheme"
  assumes ready: "log_ready X s" and room: "read_room (Suc d) s" and b: "data_block s b" "held s b = None"
  obtains h s1 where "logged_read b s = Inr (h, s1)" "read_room d s1" "lh_n s1 = lh_n s"
proof -
  note c = log_readyD[OF ready]
  have "card (set (logged s)) \<le> nat (lh_n s)" using card_length[of "logged s"] by (simp add: logged_def)
  then have "card (set (logged s)) + card (dom (held s)) < NCACHE_BUF" "finite (dom (held s))" using room by (simp_all add: read_room_def)
  then obtain h s1 where "bread b s = Inr (h, s1)"
    using bc.rd_total[OF c(1,2) data_block_inrange[OF b(1)] b(2)] by fastforce
  then have rd: "logged_read b s = Inr (h, s1)" by (simp add: logged_read_def)
  have "bcache.more s1 = bcache.more s" using bc.rd_law[OF c(1) data_block_inrange[OF b(1)] rd[unfolded logged_read_def]] by simp
  then have lh: "lh_n s1 = lh_n s" by (rule log_fields_more(5))
  have "dom (held s1) = insert b (dom (held s))" using lg.rd_law[OF ready b(1) rd] by simp
  then have "read_room d s1" using room b(2) by (simp add: read_room_def lh card_insert_if domIff)
  then show ?thesis by (rule that[OF rd _ lh])
qed

lemma relse_lh [simp]: "lh_n (logged_relse h s) = lh_n s"
  using log_fields_more(5)[of "brelse h s" s] by (simp add: logged_relse_def)

text \<open>No block of the tree is below itself.\<close>

primrec no_loop :: "(uint \<Rightarrow> block) \<Rightarrow> nat \<Rightarrow> uint \<Rightarrow> bool" where
  "no_loop v 0 a = True"
| "no_loop v (Suc d) a \<longleftrightarrow> (a \<noteq> 0 \<longrightarrow>
    (\<forall>i<NINDIRECT1. a \<notin> tree_blocks v d (index_entry (v a) i) \<and> no_loop v d (index_entry (v a) i)))"

lemma print_map_total:
  fixes s :: "'a bmap_scheme"
  assumes "log_ready X s" "read_room d s" "\<forall>i<n. no_loop (view s) d (addrs i)"
    "\<forall>i<n. \<forall>b\<in>tree_blocks (view s) d (addrs i). data_block s b \<and> held s b = None"
  shows "returns (print_map d addrs n (used, s)) (\<lambda>(_, _, s'). lh_n s' = lh_n s)"
  using assms
proof (induction d arbitrary: addrs n used s)
  case 0
  have "returns (print_map 0 addrs n (used, s)) (\<lambda>(_, w). snd w = s)"
    unfolding print_map.simps by (rule foreach_upt_returns) auto
  then show ?case by (rule returns_mono) auto
next
  case (Suc d)
  let ?I = "\<lambda>k (u, t). only_read X s t \<and> lh_n t = lh_n s"
  have step: "returns (if addrs k \<noteq> 0 then
        chain (logged_read (addrs k) t) (\<lambda>(bp, s).
        chain (print_map d (index_entry (buf_data s bp)) NINDIRECT1 (insert (addrs k) u, s)) (\<lambda>(_, used, s).
        Inr ((), used, logged_relse bp s)))
      else Inr ((), u, t)) (\<lambda>(_, w). ?I (Suc k) w)" if k: "k < n" and I: "only_read X s t" "lh_n t = lh_n s" for k u t
  proof (cases "addrs k = 0")
    case False
    let ?a = "addrs k"
    have t: "log_ready X t" "view t = view s" "held t = held s" "log_frame t = log_frame s" using I by (simp_all add: only_read_def)
    have room: "read_room (Suc d) t" using Suc.prems(2) I(2) t(3) by (simp add: read_room_def)
    have own: "data_block t ?a" "held t ?a = None" using Suc.prems(4) k False data_block_frame[OF t(4)] t(3) by auto
    obtain bp t1 where 1: "logged_read ?a t = Inr (bp, t1)" "read_room d t1" "lh_n t1 = lh_n t" by (rule read_with_room[OF t(1) room own])
    note r = lg.rd_law[OF t(1) own(1) 1(1)]
    have v1: "view t1 = view s" "log_ready X t1" using r t(2) by simp_all
    have dat: "buf_data t1 bp = view s ?a" using lg.read_release(1)[OF t(1) own(1) 1(1)] t(2) by simp
    have nl: "\<forall>i<NINDIRECT1. no_loop (view t1) d (index_entry (view s ?a) i)" using Suc.prems(3) k False by (simp add: v1)
    have db: "\<forall>i<NINDIRECT1. \<forall>b\<in>tree_blocks (view t1) d (index_entry (view s ?a) i). data_block t1 b \<and> held t1 b = None"
    proof (intro allI impI ballI)
      fix i b assume i: "i < NINDIRECT1" "b \<in> tree_blocks (view t1) d (index_entry (view s ?a) i)"
      then have "b \<in> tree_blocks (view s) (Suc d) ?a" "b \<noteq> ?a" using False Suc.prems(3) k by (auto simp: v1)
      then have "data_block s b" "held s b = None" using Suc.prems(4) k by blast+
      then show "data_block t1 b \<and> held t1 b = None" using r t(3) data_block_frame[OF t(4)] data_block_frame[of t1 t] \<open>b \<noteq> ?a\<close> by auto
    qed
    obtain w t2 where 2: "print_map d (index_entry (view s ?a)) NINDIRECT1 (insert ?a u, t1) = Inr ((), w, t2)" "lh_n t2 = lh_n t1"
      using Suc.IH[OF v1(2) 1(2) nl db, of "insert ?a u"] by (auto elim!: returnsE)
    have "only_read X t1 t2" using print_map_ok[OF v1(2) _ 2(1)] db by blast
    then have h2: "log_ready X t2" "held t2 ?a = Some bp" "view t2 = view s" "held t2 = (held t)(?a \<mapsto> bp)" "log_frame t2 = log_frame t"
      using r v1 by (simp_all add: only_read_def)
    have X: "?a \<notin> X" using lg.mod_held[OF t(1)] own(2) by blast
    note 4 = lg.rel_law[OF h2(1,2) X]
    have "(held t)(?a := None) = held t" using own(2) by (simp add: fun_upd_idem)
    then have "only_read X s (logged_relse bp t2)" using 4 h2 t by (simp add: only_read_def)
    then show ?thesis using False 1 2 I(2) by (simp add: dat)
  qed (use I in simp)
  have "returns (print_map (Suc d) addrs n (used, s)) (\<lambda>(_, w). ?I n w)"
    unfolding print_map.simps
  proof (rule foreach_upt_returns)
    show "?I 0 (used, s)" using Suc.prems(1) by (simp add: only_read_def)
    fix k and w :: "uint set \<times> 'a bmap_scheme"
    assume kw: "k < n" "?I k w"
    obtain u t where w: "w = (u, t)" by (cases w)
    show "returns (case w of (used, s) \<Rightarrow> if addrs k \<noteq> 0 then
        chain (logged_read (addrs k) s) (\<lambda>(bp, s).
        chain (print_map d (index_entry (buf_data s bp)) NINDIRECT1 (insert (addrs k) used, s)) (\<lambda>(_, used, s).
        Inr ((), used, logged_relse bp s)))
      else Inr ((), used, s)) (\<lambda>(_, w). ?I (Suc k) w)"
      unfolding w prod.case by (rule step[unfolded prod.case]) (use kw w in auto)
  qed simp
  then show ?case by (rule returns_mono) auto
qed
lemma print_map_ends:
  fixes s :: "'a bmap_scheme"
  assumes r: "log_ready X s" "read_room d s" and l: "\<forall>i<n. no_loop (view s) d (addrs i)"
    and b: "\<forall>i<n. \<forall>b\<in>tree_blocks (view s) d (addrs i). data_block s b \<and> held s b = None"
  obtains u' s' where "print_map d addrs n (u, s) = Inr ((), u', s')" "only_read X s s'" "lh_n s' = lh_n s"
proof -
  obtain u' s' where p: "print_map d addrs n (u, s) = Inr ((), u', s')" "lh_n s' = lh_n s"
    using print_map_total[OF r l b, of u] by (auto elim!: returnsE)
  have "only_read X s s'" using print_map_ok[OF r(1) _ p(1)] b by blast
  then show ?thesis by (rule that[OF p(1) _ p(2)])
qed

lemma only_read_room: "only_read X s t \<Longrightarrow> lh_n t = lh_n s \<Longrightarrow> read_room d t = read_room d s"
  by (simp add: only_read_def read_room_def)

text \<open>The trees of an inode, apart from each other and without loops, none of their blocks locked.\<close>

definition trees_clear :: "(nat \<Rightarrow> uint) \<Rightarrow> 'a fslog_scheme \<Rightarrow> bool" where
  "trees_clear addrs s \<longleftrightarrow> (\<forall>k<NBLOCKADDR. no_loop (view s) (depth k) (addrs k) \<and>
    (\<forall>b\<in>tree_blocks (view s) (depth k) (addrs k). data_block s b \<and> held s b = None))"

lemma output_dinode_total:
  fixes s :: "'a bmap_scheme"
  assumes r: "log_ready X s" "read_room 3 s" and c: "trees_clear addrs s"
  obtains u' s' where "output_dinode addrs (u, s) = Inr ((), u', s')" "only_read X s s'" "lh_n s' = lh_n s"
proof -
  have step: "\<exists>u' t'. (if addrs k \<noteq> 0 then print_map d (\<lambda>_. addrs k) 1 (w, t) else Inr ((), w, t)) = Inr ((), u', t') \<and> only_read X s t' \<and> lh_n t' = lh_n s"
    if t: "only_read X s t" "lh_n t = lh_n s" and k: "k < NBLOCKADDR" "depth k = d" "d \<le> 3" for t w k d
  proof (cases "addrs k = 0")
    case False
    have v: "log_ready X t" "view t = view s" "held t = held s" "data_block t b = data_block s b" for b
      using t(1) data_block_frame[of t s b] by (simp_all add: only_read_def)
    have rm: "read_room d t" using read_room_mono[OF r(2) k(3)] only_read_room[OF t] by simp
    have "no_loop (view t) d (addrs k)" "\<forall>b\<in>tree_blocks (view t) d (addrs k). data_block t b \<and> held t b = None"
      using c k(1,2) v unfolding trees_clear_def by auto
    then obtain u' t' where "print_map d (\<lambda>_. addrs k) 1 (w, t) = Inr ((), u', t')" "only_read X t t'" "lh_n t' = lh_n t"
      using print_map_ends[OF v(1) rm, of 1 "\<lambda>_. addrs k" w] by blast
    then show ?thesis using False only_read_trans[OF t(1)] t(2) by auto
  qed (use t in simp)
  have d: "depth NDIRECT = 1" "depth (NDIRECT + 1) = 2" "depth (NDIRECT + 2) = 3" "NDIRECT < NBLOCKADDR" "NDIRECT + 1 < NBLOCKADDR" "NDIRECT + 2 < NBLOCKADDR"
    by (simp_all add: depth_def NBLOCKADDR_def)
  have s0: "only_read X s s" using r(1) by (simp add: only_read_def)
  obtain u0 where 0: "print_map 0 addrs NDIRECT (u, s) = Inr ((), u0, s)" using print_direct[of addrs NDIRECT u s] by blast
  obtain u1 t1 where 1: "(if addrs NDIRECT \<noteq> 0 then print_map 1 (\<lambda>_. addrs NDIRECT) 1 (u0, s) else Inr ((), u0, s)) = Inr ((), u1, t1)"
    "only_read X s t1" "lh_n t1 = lh_n s" using step[OF s0 refl d(4,1), of u0] by auto
  obtain u2 t2 where 2: "(if addrs (NDIRECT + 1) \<noteq> 0 then print_map 2 (\<lambda>_. addrs (NDIRECT + 1)) 1 (u1, t1) else Inr ((), u1, t1)) = Inr ((), u2, t2)"
    "only_read X s t2" "lh_n t2 = lh_n s" using step[OF 1(2,3) d(5,2), of u1] by auto
  obtain u3 t3 where 3: "(if addrs (NDIRECT + 2) \<noteq> 0 then print_map 3 (\<lambda>_. addrs (NDIRECT + 2)) 1 (u2, t2) else Inr ((), u2, t2)) = Inr ((), u3, t3)"
    "only_read X s t3" "lh_n t3 = lh_n s" using step[OF 2(2,3) d(6,3), of u2] by auto
  have "output_dinode addrs (u, s) = Inr ((), u3, t3)"
    by (simp only: output_dinode_def 0 1(1) 2(1) 3(1) chain_Inr prod.case)
  then show ?thesis by (rule that[OF _ 3(2,3)])
qed

lemma count_inodes_total:
  fixes s :: "'a itable_scheme"
  assumes r: "log_ready X s" "read_room 4 s"
    and db: "\<And>i. 1 \<le> i \<Longrightarrow> i < unat (sb_ninodes (fs_sb s)) \<Longrightarrow> data_block s (IBLOCK (word_of_nat i) s) \<and> held s (IBLOCK (word_of_nat i) s) = None \<and>
      (in_use s i \<longrightarrow> trees_clear (di_addrs (disk_inode s (word_of_nat i))) s \<and> IBLOCK (word_of_nat i) s \<notin> disk_blocks s i)"
  obtains files used s' where "count_inodes ([], {}, s) = Inr ((), files, used, s')" "only_read X s s'"
proof -
  let ?N = "unat (sb_ninodes (fs_sb s))"
  let ?I = "\<lambda>(files :: uint list, used :: uint set, t). only_read X s t \<and> lh_n t = lh_n s"
  let ?body = "\<lambda>inum (files, used, s :: 'a itable_scheme).
      chain (logged_read (IBLOCK (word_of_nat inum) s) s) (\<lambda>(bp, s).
      let dip = get_dinode (buf_data s bp) (dinode_off (word_of_nat inum)) static_inode in
      if di_type dip \<noteq> T_UNUSE then
        chain (output_dinode (di_addrs dip) (used, s)) (\<lambda>(_, used, s).
        Inr ((), files @ [word_of_nat inum], used, logged_relse bp s))
      else Inr ((), files, used, logged_relse bp s))"
  have step: "returns (?body n (fs, u, t)) (\<lambda>(_, w). ?I w)" if n: "1 \<le> n" "n < ?N" and t: "only_read X s t" "lh_n t = lh_n s" for n fs u t
  proof -
    let ?b = "IBLOCK (word_of_nat n) t"
    note o = only_read_inode[OF t(1)]
    have v: "log_ready X t" "view t = view s" "held t = held s" "log_frame t = log_frame s" using t(1) by (simp_all add: only_read_def)
    have own: "data_block t ?b" "held t ?b = None" using db[OF n] o v by simp_all
    have rm: "read_room (Suc 3) t" using r(2) only_read_room[OF t] by simp
    obtain bp t1 where 1: "logged_read ?b t = Inr (bp, t1)" "read_room 3 t1" "lh_n t1 = lh_n t" by (rule read_with_room[OF v(1) rm own])
    note 2 = lg.rd_law[OF v(1) own(1) 1(1)] and rr = lg.read_release[OF v(1) own(1) 1(1)]
    let ?dip = "get_dinode (buf_data t1 bp) (dinode_off (word_of_nat n)) static_inode"
    have dip: "disk_part ?dip = disk_inode s (word_of_nat n)" using rr(1) o by (simp add: disk_inode_def v(2))
    then have use: "di_type ?dip \<noteq> T_UNUSE \<longleftrightarrow> in_use s n" "di_addrs ?dip = di_addrs (disk_inode s (word_of_nat n))"
      by (simp_all add: in_use_def dip[symmetric] dinode.truncate_def)
    show ?thesis
    proof (cases "in_use s n")
      case False
      have "only_read X s (logged_relse bp t1)" using rr v by (simp add: only_read_def)
      then show ?thesis using False 1 use(1) t(2) by (simp add: Let_def)
    next
      case True
      have clr: "trees_clear (di_addrs ?dip) t1"
        unfolding trees_clear_def
      proof (intro allI impI conjI ballI)
        fix k assume k: "k < NBLOCKADDR"
        have tc: "trees_clear (di_addrs ?dip) s" "?b \<notin> disk_blocks s n" using db[OF n] True o(4) unfolding use(2) by auto
        then show "no_loop (view t1) (depth k) (di_addrs ?dip k)" using 2 v(2) k by (simp add: trees_clear_def)
        fix b assume b: "b \<in> tree_blocks (view t1) (depth k) (di_addrs ?dip k)"
        then have bs: "b \<in> tree_blocks (view s) (depth k) (di_addrs ?dip k)" using 2 v(2) by simp
        have ne: "b \<noteq> ?b" using bs k tc(2) unfolding use(2) by (auto simp: disk_blocks_def)
        have "data_block s b" "held s b = None" using bs k tc(1) unfolding trees_clear_def by blast+
        then show "data_block t1 b" "held t1 b = None"
          using 2 v(3) data_block_frame[OF v(4)] data_block_frame[of t1 t b] ne by auto
      qed
      have lr: "log_ready X t1" using 2 by blast
      obtain u' t2 where 3: "output_dinode (di_addrs ?dip) (u, t1) = Inr ((), u', t2)" "only_read X t1 t2" "lh_n t2 = lh_n t1"
        by (rule output_dinode_total[OF lr 1(2) clr])
      have X: "?b \<notin> X" using lg.mod_held[OF v(1)] own(2) by blast
      have h2: "log_ready X t2" "held t2 ?b = Some bp" using 3(2) 2 by (simp_all add: only_read_def)
      note 4 = lg.rel_law[OF h2 X]
      have "(held t)(?b := None) = held t" using own(2) by (simp add: fun_upd_idem)
      then have "only_read X s (logged_relse bp t2)" using 4 3(2) 2 v by (simp add: only_read_def)
      then show ?thesis using True 1 3 use(1) t(2) by (simp add: Let_def)
    qed
  qed
  have s0: "only_read X s s" using r(1) by (simp add: only_read_def)
  have "returns (count_inodes ([], {}, s)) (\<lambda>(_, w). ?I w)"
  proof (cases "1 \<le> ?N")
    case True
    have "returns (foreach [1..<?N] ?body ([], {}, s)) (\<lambda>(_, w). ?I w)"
      by (rule foreach_upt_returns[OF True, of "\<lambda>_. ?I"]) (use s0 step in \<open>auto split: prod.splits simp del: One_nat_def\<close>)
    then show ?thesis by (simp add: count_inodes_def)
  next
    case False
    then show ?thesis using s0 by (simp add: count_inodes_def)
  qed
  then show ?thesis using that by (auto elim!: returnsE)
qed

section \<open>The trees of the files\<close>

lemma prefix_child: "path_prefix (child p i) q \<Longrightarrow> q \<noteq> p"
  by (auto simp: path_prefix_def child_def)

lemma tree_no_loop:
  assumes inj: "\<forall>p q. tree_path p \<and> tree_path q \<and> node v r p \<noteq> 0 \<and> node v r p = node v r q \<longrightarrow> p = q"
    and p: "tree_path p" "depth (fst p) = length (snd p) + d"
  shows "no_loop v d (node v r p)"
  using p
proof (induction d arbitrary: p)
  case (Suc d)
  have c: "tree_path (child p i)" "depth (fst (child p i)) = length (snd (child p i)) + d" "node v r p \<noteq> 0 \<Longrightarrow> index_entry (v (node v r p)) i = node v r (child p i)"
    if "i < NINDIRECT1" for i
    using Suc.prems that by (simp_all add: tree_path_child full_path_def node_child follow_def) (simp_all add: child_def)
  have "node v r p \<notin> under v r (child p i)" if "node v r p \<noteq> 0" for i
  proof
    assume "node v r p \<in> under v r (child p i)"
    then obtain q where "node v r p = node v r q" "tree_path q" "path_prefix (child p i) q" by (rule underE)
    then show False using inj that Suc.prems(1) prefix_child by blast
  qed
  moreover have "tree_blocks v d (node v r (child p i)) = under v r (child p i)" if "i < NINDIRECT1" for i
    using under_tree_blocks[OF c(1,2)[OF that]] by simp
  ultimately show ?case using c Suc.IH by auto
qed simp

lemma disk_blocks_at:
  "disk_blocks s i = blocks_at s (word_of_nat i)"
proof -
  have "under (view s) (di_addrs (disk_inode s (word_of_nat i))) (k, []) =
      tree_blocks (view s) (depth k) (di_addrs (disk_inode s (word_of_nat i)) k)" if "k < NBLOCKADDR" for k
    using under_tree_blocks[of "(k, [])" "depth k"] that by (simp add: tree_path_def)
  then have "disk_blocks s i = (\<Union>k<NBLOCKADDR. under (view s) (di_addrs (disk_inode s (word_of_nat i))) (k, []))" by (simp add: disk_blocks_def)
  also have "\<dots> = blocks_at s (word_of_nat i)"
  proof (intro set_eqI iffI)
    fix b assume "b \<in> blocks_at s (word_of_nat i)"
    then obtain q where q: "tree_path q" "node (view s) (di_addrs (disk_inode s (word_of_nat i))) q = b" "b \<noteq> 0" by (auto simp: blocks_at_def node_at_def)
    then have "b \<in> under (view s) (di_addrs (disk_inode s (word_of_nat i))) (fst q, [])"
      using underI[of q "(fst q, [])"] by (auto simp: path_prefix_def)
    then show "b \<in> (\<Union>k<NBLOCKADDR. under (view s) (di_addrs (disk_inode s (word_of_nat i))) (k, []))" using q(1) by (auto simp: tree_path_def)
  qed (auto simp: blocks_at_def node_at_def elim!: underE)
  finally show ?thesis .
qed

lemma tree_at_clear:
  assumes t: "tree_at s (word_of_nat i)" and h: "held s = Map.empty"
  shows "trees_clear (di_addrs (disk_inode s (word_of_nat i))) s"
  unfolding trees_clear_def
proof (intro allI impI conjI ballI)
  fix k assume k: "k < NBLOCKADDR"
  have "\<forall>p q. tree_path p \<and> tree_path q \<and> node (view s) (di_addrs (disk_inode s (word_of_nat i))) p \<noteq> 0 \<and>
    node (view s) (di_addrs (disk_inode s (word_of_nat i))) p = node (view s) (di_addrs (disk_inode s (word_of_nat i))) q \<longrightarrow> p = q"
    using t unfolding tree_at_def node_at_def by blast
  from tree_no_loop[OF this, of "(k, [])" "depth k"] k
  show "no_loop (view s) (depth k) (di_addrs (disk_inode s (word_of_nat i)) k)" by (simp add: tree_path_def)
  fix b assume "b \<in> tree_blocks (view s) (depth k) (di_addrs (disk_inode s (word_of_nat i)) k)"
  then have "b \<in> disk_blocks s i" using k by (auto simp: disk_blocks_def)
  then show "data_block s b" using t by (auto simp: disk_blocks_at blocks_at_def tree_at_def usable_def)
  show "held s b = None" by (simp add: h)
qed
section \<open>The report on a file system in order\<close>

lemma inums: "1 \<le> i \<Longrightarrow> i < unat (sb_ninodes (fs_sb s)) \<Longrightarrow> inum_ok s (word_of_nat i)"
  "i < unat (sb_ninodes (fs_sb s)) \<Longrightarrow> unat (word_of_nat i :: uint) = i"
proof -
  show u: "unat (word_of_nat i :: uint) = i" if "i < unat (sb_ninodes (fs_sb s))" for i
    using that unsigned_less[of "sb_ninodes (fs_sb s)", where ?'a = nat] by (simp add: unsigned_of_nat take_bit_nat_eq_self)
  show "1 \<le> i \<Longrightarrow> i < unat (sb_ninodes (fs_sb s)) \<Longrightarrow> inum_ok s (word_of_nat i)" using u[of i] by (simp add: inum_ok_def)
qed

text \<open>The inode numbers the diagnosis looks at are those of the file system.\<close>

lemma in_use_files:
  assumes "1 \<le> i" "i < unat (sb_ninodes (fs_sb s))"
  shows "in_use s i \<longleftrightarrow> word_of_nat i \<in> dom (abs_fs s)"
  using inums(1)[OF assms] by (auto simp: in_use_def domIff abs_fs_def Let_def)

lemma listed_files:
  "set (map word_of_nat (filter (in_use s) [1..<unat (sb_ninodes (fs_sb s))])) = dom (abs_fs s)" (is "?A = _")
  "distinct (map word_of_nat (filter (in_use s) [1..<unat (sb_ninodes (fs_sb s))]) :: uint list)"
proof -
  let ?N = "unat (sb_ninodes (fs_sb s))"
  show "?A = dom (abs_fs s)"
  proof (intro set_eqI iffI)
    fix k assume "k \<in> ?A"
    then show "k \<in> dom (abs_fs s)" using in_use_files[of _ s] by (auto simp del: One_nat_def)
  next
    fix k assume k: "k \<in> dom (abs_fs s)"
    then have io: "0 < unat k" "unat k < ?N" by (auto simp: abs_fs_Some inum_ok_def)
    then have "in_use s (unat k)" using in_use_files[of "unat k" s] k by simp
    then have "unat k \<in> set (filter (in_use s) [1..<?N])" using io by simp
    then have "word_of_nat (unat k) \<in> ?A" unfolding set_map by (rule imageI)
    then show "k \<in> ?A" by simp
  qed
  have inj: "inj_on (word_of_nat :: nat \<Rightarrow> uint) {0..<?N}" by (rule inj_onI) (metis atLeastLessThan_iff inums(2))
  show "distinct (map word_of_nat (filter (in_use s) [1..<?N]) :: uint list)"
    unfolding distinct_map by (intro conjI distinct_filter distinct_upt inj_on_subset[OF inj]) auto
qed

lemma report_ok:
  fixes s :: "'a itable_scheme"
  assumes ok: "fs_ok s" "lh_n s = 0" and sz: "unat (sb_size (fs_sb s)) \<le> unat (bm_n s) * BPB"
  obtains files used s' leak where "count_inodes ([], {}, s) = Inr ((), files, used, s')" "count_leakblock used s' = Inr leak"
    "fs_sb s' = fs_sb s" "distinct files" "set files = dom (abs_fs s)"
    "set leak = {b. unat (sb_size (fs_sb s) - sb_nblocks (fs_sb s)) \<le> unat b \<and> unat b < unat (sb_size (fs_sb s)) \<and> bm_bit s (unat b) \<and>
      (\<forall>k\<in>dom (abs_fs s). b \<notin> blocks_at s k)}"
proof -
  let ?N = "unat (sb_ninodes (fs_sb s))"
  have ph: "fs_phys s" using ok(1) by (simp add: fs_ok_def)
  note d = fs_physD[OF ph]
  have room: "read_room 4 s" using ok(2) d(2) by (simp add: read_room_def NCACHE_BUF_def MAXOPBLOCKS_def)
  have D: "data_block s (IBLOCK (word_of_nat i) s) \<and> held s (IBLOCK (word_of_nat i) s) = None \<and>
      (in_use s i \<longrightarrow> trees_clear (di_addrs (disk_inode s (word_of_nat i))) s \<and> IBLOCK (word_of_nat i) s \<notin> disk_blocks s i)"
    if i: "1 \<le> i" "i < ?N" for i
  proof -
    note io = inums(1)[OF i]
    have "trees_clear (di_addrs (disk_inode s (word_of_nat i))) s" "IBLOCK (word_of_nat i) s \<notin> disk_blocks s i" if u: "in_use s i"
    proof -
      obtain a where a: "abs_fs s (word_of_nat i) = Some a" using u in_use_files[OF i] by auto
      show "trees_clear (di_addrs (disk_inode s (word_of_nat i))) s" by (rule tree_at_clear[OF d(13)[OF a] d(2)])
      show "IBLOCK (word_of_nat i) s \<notin> disk_blocks s i" using d(14)[OF a io] by (simp add: disk_blocks_at)
    qed
    then show ?thesis using d(10)[OF io] d(2) by (simp add: usable_def)
  qed
  obtain files used s' where 1: "count_inodes ([], {}, s) = Inr ((), files, used, s')" "only_read {} s s'"
    by (rule count_inodes_total[OF d(1) room], rule D)
  note o = only_read_inode[OF 1(2)]
  obtain leak where 2: "count_leakblock used s' = Inr leak" by (rule count_leakblock_returns[of s' used]) (simp add: o sz)
  have db: "\<forall>i. 1 \<le> i \<and> i < ?N \<longrightarrow> data_block s (IBLOCK (word_of_nat i) s) \<and> (in_use s i \<longrightarrow> (\<forall>b\<in>disk_blocks s i. data_block s b))"
    using D by (auto simp: trees_clear_def disk_blocks_def simp del: One_nat_def)
  note L = leaks_exact[OF d(1) sz db 1(1) 2]
  have own: "(\<forall>i. 1 \<le> i \<and> i < ?N \<and> in_use s i \<longrightarrow> b \<notin> disk_blocks s i) \<longleftrightarrow> (\<forall>k\<in>dom (abs_fs s). b \<notin> blocks_at s k)" for b
  proof -
    have "dom (abs_fs s) = word_of_nat ` {i. 1 \<le> i \<and> i < ?N \<and> in_use s i}"
      using listed_files(1)[of s] by (auto simp: set_eq_iff image_iff)
    then show ?thesis by (auto simp: disk_blocks_at simp del: One_nat_def)
  qed
  show ?thesis
    by (rule that[OF 1(1) 2 o(5)]) (use L listed_files[of s] in \<open>simp_all only: own\<close>)
qed

text \<open>
  C24: the diagnosis of the device of a file system in order returns; it lists every inode of a
  file once and nothing else, and as leaked exactly the data blocks that are marked in the bitmap
  and in the tree of no file.
\<close>

theorem diagnosis_exact:
  assumes "fs_ok s" "mountable s" "same_device_as s t" "0 \<le> fd" "length argv = 2"
  shows "\<exists>files leak t'. diagnostic_main argv fd t = Inr ((print_superblock (fs_sb s), files, leak), t') \<and>
    distinct files \<and> set files = dom (abs_fs s) \<and>
    set leak = {b. unat (sb_size (fs_sb s) - sb_nblocks (fs_sb s)) \<le> unat b \<and> unat b < unat (sb_size (fs_sb s)) \<and> bm_bit s (unat b) \<and>
      (\<forall>k\<in>dom (abs_fs s). b \<notin> blocks_at s k)}"
proof -
  obtain u where u: "disk_init fd t = Inr ((), u)" "mounted s u" by (rule disk_init_ok[OF assms(1-4)]) (rule that)
  have m: "fs_ok u" "abs_fs u = abs_fs s" "lh_n u = 0" "mountable u" "fs_sb u = fs_sb s" "\<forall>b<unat (bm_n s) * BPB. bm_bit u b = bm_bit s b"
    "\<forall>k\<in>dom (abs_fs s). blocks_at u k = blocks_at s k" using u(2) by (simp_all add: mounted_def quiet_def)
  have n: "unat (bm_n x) = (unat (sb_size (fs_sb x)) + BPB - 1) div BPB" if "mountable x" for x :: "'z itable_scheme"
    using that unfolding mountable_def by blast
  have up: "k \<le> (k + BPB - 1) div BPB * BPB" for k by (simp add: BPB_def BSIZE_def)
  have sz: "unat (sb_size (fs_sb u)) \<le> unat (bm_n u) * BPB" "unat (sb_size (fs_sb s)) \<le> unat (bm_n s) * BPB"
    unfolding n[OF m(4)] n[OF assms(2)] by (rule up)+
  obtain files used s' leak where r: "count_inodes ([], {}, u) = Inr ((), files, used, s')" "count_leakblock used s' = Inr leak"
    "fs_sb s' = fs_sb u" "distinct files" "set files = dom (abs_fs u)"
    "set leak = {b. unat (sb_size (fs_sb u) - sb_nblocks (fs_sb u)) \<le> unat b \<and> unat b < unat (sb_size (fs_sb u)) \<and> bm_bit u (unat b) \<and>
      (\<forall>k\<in>dom (abs_fs u). b \<notin> blocks_at u k)}"
    by (rule report_ok[OF m(1,3) sz(1)])
  have "diagnostic_main argv fd t = Inr ((print_superblock (fs_sb s), files, leak), s')"
    using assms(5) u(1) r(1-3) m(5) by (simp add: diagnostic_main_def diagnose_def)
  moreover have "set leak = {b. unat (sb_size (fs_sb s) - sb_nblocks (fs_sb s)) \<le> unat b \<and> unat b < unat (sb_size (fs_sb s)) \<and> bm_bit s (unat b) \<and>
      (\<forall>k\<in>dom (abs_fs s). b \<notin> blocks_at s k)}"
    unfolding r(6) m(2,5) using m(6,7) sz(2) by auto
  ultimately show ?thesis using r(4,5) m(2) by auto
qed

theorem diagnosis_exact_witness:
  "\<exists>(s :: ftab) t' leak. abs_fs s = [ROOTINO \<mapsto> new_dir 0] \<and>
    diagnostic_main [''disk-diagnostic'', ''/dev/sdb''] 3 (power_on (dev_nblk s) (dev_data s)) = Inr ((print_superblock (fs_sb s), [ROOTINO], leak), t')"
proof -
  obtain s :: ftab where s: "mkfs_result 2000 s" by (rule formatted_2000)
  then have f: "fs_ok s" "mountable s" "abs_fs s = [ROOTINO \<mapsto> new_dir 0]" by (simp_all add: mkfs_result_def)
  have one: "xs = [x]" if "distinct xs" "set xs = {x}" for xs :: "uint list" and x
  proof -
    have "length xs = 1" using distinct_card[OF that(1)] that(2) by simp
    then show ?thesis using that(2) by (cases xs) auto
  qed
  obtain files leak t' where "diagnostic_main [''disk-diagnostic'', ''/dev/sdb''] 3 (power_on (dev_nblk s) (dev_data s)) =
      Inr ((print_superblock (fs_sb s), files, leak), t')" "distinct files" "set files = dom (abs_fs s)"
    using diagnosis_exact[OF f(1,2) power_on(4), of 3 "[''disk-diagnostic'', ''/dev/sdb'']"] by auto
  then show ?thesis using f(3) one[of files ROOTINO] by auto
qed

end
