(* ===== verification/Spec2Isabelle.thy ===== *)
theory Spec2Isabelle
  imports Log_Threads Diagnosis
begin

text \<open>
  A verification development for myfuse, a FUSE file system in C with a write-ahead log in the style
  of xv6. The C code under \<^verbatim>\<open>src/src\<close> is translated function by function; each layer calls the ones
  above it in this list.

  Parts and theories:

    \<^item> \<^verbatim>\<open>Prelude\<close>: machine integers (\<^verbatim>\<open>uint\<close>, \<^verbatim>\<open>size_t\<close>, \<^verbatim>\<open>short\<close> as words), blocks as functions from
      offsets to bytes with 16-, 32- and 64-bit little-endian accessors, the result type
      \<^verbatim>\<open>'a res = error + 'a\<close> with \<^verbatim>\<open>chain\<close>, \<^verbatim>\<open>foreach\<close> and the predicate \<^verbatim>\<open>returns\<close>, which states that
      a computation returns and what it returns. The errors are \<^verbatim>\<open>Err_exit msg\<close> (the code prints and
      ends the process), \<^verbatim>\<open>Assert_failed\<close>, \<^verbatim>\<open>Bad_access\<close> (outside an array or through NULL),
      \<^verbatim>\<open>Deadlock\<close> (a thread waits for a lock it holds itself) and waiting on a condition.
    \<^item> \<^verbatim>\<open>Block_Device\<close> (\<^verbatim>\<open>block_device.c\<close>, clock functions of \<^verbatim>\<open>util.c\<close>): the device as an array of
      blocks, with a ghost list of the writes in their order.
    \<^item> \<^verbatim>\<open>Buf_Cache\<close> (\<^verbatim>\<open>buf_cache.c\<close>): the hash chains, the search for a buffer to recycle, locks and
      reference counts. \<^verbatim>\<open>view\<close> is what a reader of a block sees; the locale of the cache states that
      a read locks a block and shows its view and that a write changes one block.
    \<^item> \<^verbatim>\<open>Log\<close> (\<^verbatim>\<open>log.c\<close>): header, commit, installation and recovery; crash atomicity is stated on the
      prefixes of the ghost list of device writes. \<^verbatim>\<open>Log_Threads\<close> is the step relation of several
      threads between \<^verbatim>\<open>begin_op\<close> and \<^verbatim>\<open>end_op\<close>, with its reachable states.
    \<^item> \<^verbatim>\<open>Block_Alloc\<close> (\<^verbatim>\<open>block_allocator.c\<close>): the cached bitmap with its counters per group.
    \<^item> \<^verbatim>\<open>Inode\<close>, \<^verbatim>\<open>Inode_Map\<close>, \<^verbatim>\<open>Inode_IO\<close> (\<^verbatim>\<open>inode.c\<close>): the table of inodes with locks and counts, the
      block map with its trees of index blocks and truncation, reading, writing and \<^verbatim>\<open>stat\<close>. Inodes
      are indices into the table instead of pointers.
    \<^item> \<^verbatim>\<open>Inode_Tree\<close>: the tree of an inode seen as a map from paths to blocks, \<^verbatim>\<open>imap2blockno\<close> as a walk
      down this tree, its cost and its termination. \<^verbatim>\<open>Inode_File\<close>: a file as a sequence of bytes, and
      what reading and writing do to it.
    \<^item> \<^verbatim>\<open>Inode_Trunc\<close>: \<^verbatim>\<open>itrunc\<close> frees exactly the blocks of the tree, \<open>file_blocks\<close>.
    \<^item> \<^verbatim>\<open>Directory\<close> (\<^verbatim>\<open>directory.c\<close>): names, entries, \<^verbatim>\<open>dirlookup\<close>, \<^verbatim>\<open>dirlink\<close>, \<^verbatim>\<open>skipelem\<close> and \<^verbatim>\<open>namex\<close>.
      \<^verbatim>\<open>Path_Names\<close>: what a name and the elements of a path are as lists of bytes. \<^verbatim>\<open>Dir_Map\<close>: a
      directory in order (\<open>dir_ok\<close>) is a map \<open>dir_of\<close> from names to inode numbers; looking up, adding
      and removing a name are the operations of the locale \<open>name_table\<close> on this map.
    \<^item> \<^verbatim>\<open>File_Ops\<close> (\<^verbatim>\<open>file.c\<close>): the table of open files and every handler FUSE calls. \<^verbatim>\<open>File_Table\<close>: the
      table as a table of handle counts, and the count of free blocks.
    \<^item> \<^verbatim>\<open>Mount\<close> (\<^verbatim>\<open>main.c\<close>, \<^verbatim>\<open>mkfs.myfuse.cc\<close>, \<^verbatim>\<open>mkfs.myfuse-util.cc\<close>): start-up, the table of handlers as
      a function \<open>serve\<close> from requests to replies, and formatting. \<^verbatim>\<open>Diagnostic\<close>
      (\<^verbatim>\<open>disk-diagnostic.cc\<close>): the walk over all inodes and the list of leaked blocks. \<^verbatim>\<open>Programs\<close>: the
      messages of \<^verbatim>\<open>util.c\<close> and the three \<^verbatim>\<open>main\<close> functions. \<^verbatim>\<open>Disk_Tools\<close>: the layout of a formatted device,
      the raw writes of \<^verbatim>\<open>mkfs\<close>, and what the walks of the diagnosis list.
    \<^item> \<^verbatim>\<open>Op_Balance\<close>: which requests begin an operation of the log and do not end it, over all handlers
      with all their callees, and what follows for the requests after eight of them.
    \<^item> \<^verbatim>\<open>File_System\<close>: the whole device as a map \<open>abs_fs\<close> from inode numbers to files (type, links, size,
      permissions, bytes), and the invariant \<open>fs_phys\<close> between the operations on inodes. \<^verbatim>\<open>Name_Space\<close>: the
      names in the directories of this map (\<open>fs_ok\<close>: every name leads to an inode in use and the root is
      a directory), \<open>walk\<close> along a path, and \<^verbatim>\<open>path2inode\<close>, \<^verbatim>\<open>path2parentinode\<close> and getattr as operations
      on the map; a file system with one file serves as the example. \<^verbatim>\<open>Requests\<close>: writing an open inode,
      giving out an inode number, adding a name and freeing a file as operations on the map.
      \<^verbatim>\<open>Handlers\<close>: mkdir, chmod, and reading and writing through a handle, when they return, and
      sequences of requests.
    \<^item> \<^verbatim>\<open>Format\<close>: the device between two lives of the file system. \<open>mountable\<close> says that the log is empty and
      the super block describes log and bitmap; \<^verbatim>\<open>mkfs\<close> ends in such a state with an empty root directory,
      mounting in a process with fresh memory (\<open>same_device_as\<close>) brings \<open>abs_fs\<close> back, and the requests of
      \<^verbatim>\<open>Handlers\<close> keep it. \<^verbatim>\<open>Diagnosis\<close>: on such a device the diagnosis returns and its report is exact.

  The state is one record that grows from layer to layer by extension (device, cache, log, bitmap,
  inode table, file table), so an operation of a layer is polymorphic in what the layers below it
  in the list add, and cannot touch it.

  What the lemmas show. For each layer an invariant (\<^verbatim>\<open>cache_ok\<close>, \<^verbatim>\<open>log_ready\<close>, \<^verbatim>\<open>bm_inv\<close>, \<^verbatim>\<open>table_wf\<close>,
  \<^verbatim>\<open>tree_ok\<close>, \<^verbatim>\<open>file_ok\<close>) that its operations keep, the effect of each operation on the view of the
  layer, a frame (\<^verbatim>\<open>log_frame\<close>, \<^verbatim>\<open>bm_frame\<close>, \<^verbatim>\<open>it_frame\<close>, \<^verbatim>\<open>file_keep\<close>) for what it leaves alone, and
  conditions under which it returns. The properties C1, C2, ... stand after their lemmas in the
  theories; those that use several layers are in this theory.

  Bounds and fuel. No definition uses fuel: the loops run over lists or count down, and the one loop
  of the code that may never end, the search of \<^verbatim>\<open>bget\<close> when all buffers are in use, is the error
  value of waiting. Block numbers and sizes are words of the width of the code; counters of loops
  that the code bounds are natural numbers.

  Not modelled. One thread runs at a time inside an operation: the spin locks of the cache, the table
  and the bitmap are not state, while the sleeping locks of buffers and inodes are; interleaving is
  modelled for the log only. Memory exhaustion, messages and failing system calls other than those
  of the device are left out, and the clock is an arbitrary function of the number of its queries.
  Of \<^verbatim>\<open>main.c\<close> the signal handler is left out, of \<^verbatim>\<open>diagnostic\<close> the output that repeats the fields of an
  inode, of \<^verbatim>\<open>mkfs\<close> the report on the sizes: they are output around the modelled code. What the user
  types, what \<^verbatim>\<open>blockdev\<close> prints, and the functions of the FUSE library, with the one it passes to
  \<^verbatim>\<open>myfuse_readdir\<close>, are parameters. The code under \<^verbatim>\<open>DEBUG\<close> and the tests are not part of the program that
  runs.
\<close>

section \<open>The buffer cache as its clients see it\<close>

theorem cache_write_through:
  assumes "cache_ok P {} s" "b \<noteq> 0" "unat b < dev_nblk s" "bread b s = Inr (h, s1)"
  shows "\<exists>n s2. bwrite h (set_data h d s1) = Inr (n, s2) \<and> dev_data (brelse h s2) = (dev_data s)(b := d) \<and>
    view (brelse h s2) = (view s)(b := d) \<and> dev_writes (brelse h s2) = dev_writes s @ [(b, d)] \<and>
    (\<forall>h' s3. bread b (brelse h s2) = Inr (h', s3) \<longrightarrow> buf_data s3 h' = d)"
proof -
  have inr: "b \<noteq> 0 \<and> unat b < dev_nblk s" using assms by simp
  obtain n s2 where w: "bwrite h (set_data h d s1) = Inr (n, s2)" and 2: "cache_ok P {} (brelse h s2)"
    "view (brelse h s2) = (view s)(b := d)" "held (brelse h s2) = held s" "dev_data (brelse h s2) = (dev_data s)(b := d)"
    "dev_writes (brelse h s2) = dev_writes s @ [(b, d)]"
    "(dev_nblk (brelse h s2), bcache.more (brelse h s2)) = (dev_nblk s, bcache.more s)"
    by (rule bc.rewrite_block[OF assms(1) inr assms(4)])
  have "buf_data s3 h' = d" if "bread b (brelse h s2) = Inr (h', s3)" for h' s3
    using bread_ok[OF 2(1) _ _ that] 2 inr by simp
  then show ?thesis using w 2 by blast
qed

text \<open>
  C38: bread returns the buffer that caches the block when there is one and it is unlocked, waits
  for ever on a buffer its own thread holds, recycles an unreferenced buffer otherwise, and spins
  for ever exactly when every buffer is referenced.
\<close>

theorem bread_outcome:
  assumes inv: "bc_inv s" and b: "b \<noteq> 0" "unat b < dev_nblk s"
  shows "(case cached s b of
      Some i \<Rightarrow> if bb_locked (bc_buf s i) then bread b s = Inl Deadlock else returns (bread b s) (\<lambda>(h, s'). h = i)
    | None \<Rightarrow> if \<forall>i. linked s i \<longrightarrow> bb_refcnt (bc_buf s i) \<noteq> 0 then bread b s = Inl Hang
        else returns (bread b s) (\<lambda>(h, s'). linked s h \<and> bb_refcnt (bc_buf s h) = 0))"
proof -
  have wf: "bc_wf s" using inv by (simp add: bc_inv_def)
  show ?thesis
  proof (cases "cached s b")
    case (Some i)
    have lock: "bread b s = Inl Deadlock" if "bb_locked (bc_buf s i)"
      using Some that by (simp add: bread_def bget_def lock_buf_def upd_buf_def)
    have ret: "returns (bread b s) (\<lambda>(h, s'). h = i)" if free: "\<not> bb_locked (bc_buf s i)"
    proof -
      have "\<exists>h s'. bread b s = Inr (h, s')" by (rule bread_returns[OF inv b]) (use Some free in auto)
      then obtain h s' where r: "bread b s = Inr (h, s')" by blast
      from bread_reads[OF inv b r] obtain B cs where "reads s b h B cs" by blast
      then show ?thesis using Some r by (auto simp: reads_def split: if_splits)
    qed
    show ?thesis using Some lock ret by simp
  next
    case None
    have hang: "bread b s = Inl Hang" if all: "\<forall>i. linked s i \<longrightarrow> bb_refcnt (bc_buf s i) \<noteq> 0"
    proof -
      have "bb_refcnt (bc_buf s i) \<noteq> 0" if "i \<in> set (bc_hash s h)" "h < BCACHE_HASH_SIZE" for i h
        using all that in_chain_linked[OF wf that(2)] by blast
      then have "scan_own (bc_buf s) (rev (bc_hash s (bcache_hash b))) = None"
        "search_chains s (bcache_hash b) [0..<BCACHE_HASH_SIZE] = None"
        by (simp_all add: scan_own_None search_chains_None)
      then show ?thesis using None by (simp add: bread_def bget_def)
    qed
    have ret: "returns (bread b s) (\<lambda>(h, s'). linked s h \<and> bb_refcnt (bc_buf s h) = 0)"
      if "\<exists>i. linked s i \<and> bb_refcnt (bc_buf s i) = 0"
    proof -
      have "\<exists>h s'. bread b s = Inr (h, s')" by (rule bread_returns[OF inv b]) (use None that in auto)
      then obtain h s' where r: "bread b s = Inr (h, s')" by blast
      from bread_reads[OF inv b r] obtain B cs where "reads s b h B cs" by blast
      then show ?thesis using None r by (auto simp: reads_def split: if_splits)
    qed
    show ?thesis using None hang ret by auto
  qed
qed

section \<open>A transaction on one block\<close>

text \<open>
  C2: a block read, modified and logged inside the only running operation is on the device with
  its new contents when end_op returns, every other block of the file system is on the device with
  the contents a reader saw, the log is empty again, and end_op does return.
\<close>

theorem transaction_durable:
  fixes s :: "'a fslog_scheme"
  assumes "log_ready {} s" "held s = Map.empty" "lg_outstanding s = 1" "\<not> lg_committing s" "data_block s b"
    and "logged_read b s = Inr (h, s1)" "logged_write h (set_data h d s1) = Inr ((), s2)"
  shows "returns (end_op (logged_relse h s2)) (\<lambda>(_, s'). dev_data s' b = d \<and>
    (\<forall>c. data_block s c \<and> c \<noteq> b \<longrightarrow> dev_data s' c = view s c) \<and> lh_n s' = 0 \<and> lg_outstanding s' = 0 \<and>
    log_ready {} s' \<and> held s' = Map.empty)"
proof -
  let ?t = "logged_relse h s2"
  note m = lg.modify_block[OF assms(1,5,6,7)]
  have "held ?t = Map.empty" "lg_outstanding ?t = 1" "\<not> lg_committing ?t"
    using m assms(2-4) by (simp_all add: log_frame_def)
  note e = end_op_last[OF m(1) this]
  have db: "data_block ?t c = data_block s c" for c by (rule data_block_frame[OF m(4)])
  show ?thesis by (rule returns_mono[OF e]) (use assms(5) in \<open>auto simp: db m(2)\<close>)
qed

theorem header_roundtrip:
  fixes s :: "'a fslog_scheme"
  assumes "idle P s" "geom s" "finite P" "card P < NCACHE_BUF" "0 \<le> lh_n s" "lh_n s \<le> lg_size s - 1"
  shows "returns (write_log_header_to_disk s) (\<lambda>(_, s').
    header_n (dev_data s' (lg_start s)) = lh_n s \<and>
    (\<forall>i<nat (lh_n s). header_block (dev_data s' (lg_start s)) i = lh_block s i))"
proof -
  have n: "lh_n s \<le> int NLOG" using assms(2,6) by (simp add: geom_def)
  show ?thesis
    by (rule returns_mono[OF write_header_spec[OF assms(1-4)]])
      (use assms(5) n in \<open>auto simp: wrote_def header_image_n header_image_block\<close>)
qed

section \<open>The properties at work on small devices\<close>

lemma mini_cache:
  "cache_ok {} {} (bcache_init (mini f))" "bc_inv (bcache_init (mini f))" "bc_full (bcache_init (mini f))"
  "idle {} (bcache_init (mini f))" "dev_nblk (bcache_init (mini f)) = 16"
proof -
  have i: "idle {} (bcache_init (mini f))" by (rule bcache_init_idle[OF mini_facts(1)])
  then show "cache_ok {} {} (bcache_init (mini f))" "bc_full (bcache_init (mini f))" "idle {} (bcache_init (mini f))"
    by (simp_all add: idle_def)
  then show "bc_inv (bcache_init (mini f))" by (simp add: cache_ok_def)
  show "dev_nblk (bcache_init (mini f)) = 16" by (rule mini_facts)
qed

lemma mini_read:
  assumes "b \<noteq> 0" "unat b < 16"
  obtains h s1 where "bread b (bcache_init (mini f)) = Inr (h, s1)"
proof -
  have "b \<noteq> 0 \<and> unat b < dev_nblk (bcache_init (mini f))" using assms mini_cache(5) by simp
  moreover have "held (bcache_init (mini f)) = Map.empty" using mini_cache(4) by (simp add: idle_def)
  ultimately show ?thesis
    using bc.rewrite_read_total[OF mini_cache(1,3)] that by (auto simp: NCACHE_BUF_def MAXOPBLOCKS_def)
qed

theorem cache_write_through_witness:
  "\<exists>h s1 n s2. bread 5 (bcache_init (mini (\<lambda>_. zero_block))) = Inr (h, s1) \<and>
    bwrite h (set_data h (\<lambda>_. 7) s1) = Inr (n, s2) \<and> dev_data (brelse h s2) 5 = (\<lambda>_. 7)"
proof -
  let ?s = "bcache_init (mini (\<lambda>_. zero_block))"
  obtain h s1 where r: "bread 5 ?s = Inr (h, s1)" by (rule mini_read[of 5]) simp_all
  have "unat (5 :: uint) < dev_nblk ?s" using mini_cache(5) by simp
  from cache_write_through[OF mini_cache(1) _ this r, of "\<lambda>_. 7"] r show ?thesis by fastforce
qed

theorem bread_outcome_witness:
  "returns (bread 5 (bcache_init (mini (\<lambda>_. zero_block)))) (\<lambda>(h, s'). bb_refcnt (bc_buf (bcache_init (mini (\<lambda>_. zero_block))) h) = 0)"
proof -
  let ?s = "bcache_init (mini (\<lambda>_. zero_block))"
  have c: "cached ?s 5 = None" by (rule bcache_init_cached[OF mini_facts(1)]) simp
  have "\<exists>i. linked ?s i \<and> bb_refcnt (bc_buf ?s i) = 0"
    by (intro exI[of _ 0]) (simp add: bcache_init_linked[OF mini_facts(1)] bcache_init_bufs[OF mini_facts(1)] static_buf_def NCACHE_BUF_def MAXOPBLOCKS_def)
  then have free: "(\<forall>i. linked ?s i \<longrightarrow> bb_refcnt (bc_buf ?s i) \<noteq> 0) = False" by blast
  have b: "(5 :: uint) \<noteq> 0" "unat (5 :: uint) < dev_nblk ?s" using mini_cache(5) by simp_all
  have "returns (bread 5 ?s) (\<lambda>(h, s'). linked ?s h \<and> bb_refcnt (bc_buf ?s h) = 0)"
    using bread_outcome[OF mini_cache(2) b] unfolding c option.case free if_False .
  then show ?thesis by (rule returns_mono) auto
qed

theorem transaction_durable_witness:
  "\<exists>(s :: fslog) h s1 s2 s'. logged_read 9 s = Inr (h, s1) \<and> logged_write h (set_data h (\<lambda>_. 7) s1) = Inr ((), s2) \<and>
    end_op (logged_relse h s2) = Inr ((), s') \<and> dev_data s 9 = zero_block \<and> dev_data s' 9 = (\<lambda>_. 7)"
proof -
  let ?s = "bcache_init (mini (\<lambda>_. zero_block))"
  note f = mini_facts[of "\<lambda>_. zero_block"]
  have r: "log_ready {} ?s" "held ?s = Map.empty" using mini_ready[of "\<lambda>_. zero_block"] by (simp_all add: header_n_def)
  have c: "\<not> lg_committing ?s" by (simp add: mini_def bcache_init_def)
  have room: "lh_n ?s < lg_size ?s - 1" "1 \<le> lg_outstanding ?s" using f by simp_all
  have h9: "held ?s 9 = None" using r(2) by simp
  obtain h s1 s2 where m: "logged_read 9 ?s = Inr (h, s1)" "logged_write h (set_data h (\<lambda>_. 7) s1) = Inr ((), s2)"
    by (rule modify_returns[OF r(1) few_held_empty[OF r(2)] h9 f(3) room, of "\<lambda>_ _. 7"])
  obtain s' where e: "end_op (logged_relse h s2) = Inr ((), s')" "dev_data s' 9 = (\<lambda>_. 7)"
    using transaction_durable[OF r f(8) c f(3) m] by (auto elim!: returnsE)
  have "dev_data ?s 9 = zero_block" by (simp add: f(4))
  with m e show ?thesis by blast
qed

theorem header_roundtrip_witness:
  "\<exists>s'. write_log_header_to_disk ((bcache_init (mini (\<lambda>_. zero_block)))\<lparr>lh_n := 2, lh_block := (\<lambda>i. 9 + of_nat i)\<rparr>) = Inr ((), s') \<and>
    header_n (dev_data s' 2) = 2 \<and> header_block (dev_data s' 2) 1 = 10"
proof -
  let ?s = "(bcache_init (mini (\<lambda>_. zero_block)))\<lparr>lh_n := 2, lh_block := (\<lambda>i. 9 + of_nat i)\<rparr>"
  have i: "idle {} ?s" using mini_cache(4) by (simp add: idle_def)
  have g: "geom ?s" using mini_facts(2) by (simp add: geom_def)
  have "returns (write_log_header_to_disk ?s) (\<lambda>(_, s'). header_n (dev_data s' (lg_start ?s)) = lh_n ?s \<and>
      (\<forall>i<nat (lh_n ?s). header_block (dev_data s' (lg_start ?s)) i = lh_block ?s i))"
    by (rule header_roundtrip[OF i g]) (simp_all add: NCACHE_BUF_def MAXOPBLOCKS_def mini_facts)
  then show ?thesis by (auto elim!: returnsE simp: mini_facts)
qed

end
